(* ===== verification/Prelude.thy ===== *)
theory Prelude
  imports Main "HOL-Library.Word" "HOL-Library.Monad_Syntax"
begin

text \<open>
  Shared vocabulary of the development.

  \<^item> Bytes, C strings and memory regions. A pointer to an object is modelled by the list of
    bytes from the pointer to the end of the object; \<open>rd\<close> and \<open>wr\<close> read and write at
    an index and answer \<open>None\<close> outside the object. All functions that touch memory live
    in the option monad, where \<open>None\<close> stands for a memory fault (an access outside an
    object, or through a dangling pointer).
  \<^item> \<open>ok m P\<close>, the total-correctness judgement for such computations: \<open>m\<close> does not
    fault and its result satisfies \<open>P\<close>. The collection \<open>ok_simps\<close> takes a computation
    apart statement by statement.
  \<^item> The parts of the C library's \<^verbatim>\<open>ctype.h\<close> that the sources use, in the "C" locale.
  \<^item> \<open>malloc\<close>, with the outcomes of the successive allocations as an explicit oracle.
\<close>

unbundle bit_operations_syntax

named_theorems ok_simps \<open>rules that take a computation under the judgement ok apart\<close>
named_theorems name_simps \<open>values of the name primitives on wire-encoded names\<close>

section \<open>Memory regions\<close>

type_synonym byte = "8 word"
type_synonym bytes = "byte list"

definition rd :: "'a list \<Rightarrow> nat \<Rightarrow> 'a option" where
  "rd xs i = (if i < length xs then Some (xs ! i) else None)"

definition wr :: "'a list \<Rightarrow> nat \<Rightarrow> 'a \<Rightarrow> 'a list option" where
  "wr xs i v = (if i < length xs then Some (xs[i := v]) else None)"

lemma rd_Some [simp]: "i < length xs \<Longrightarrow> rd xs i = Some (xs ! i)"
  by (simp add: rd_def)

lemma rd_eq_Some_iff: "rd xs i = Some v \<longleftrightarrow> i < length xs \<and> xs ! i = v"
  by (auto simp: rd_def)

lemma rd_0_Cons [simp]: "rd (x # xs) 0 = Some x"
  by (simp add: rd_def)

lemma rd_Suc_Cons [simp]: "rd (x # xs) (Suc i) = rd xs i"
  by (simp add: rd_def)

lemma rd_append1 [simp]: "i < length xs \<Longrightarrow> rd (xs @ ys) i = Some (xs ! i)"
  by (simp add: rd_def nth_append)

lemma rd_append2 [simp]: "rd (xs @ ys) (length xs + i) = rd ys i"
  by (simp add: rd_def nth_append)

lemma rd_append2' [simp]: "rd (xs @ ys) (length xs) = rd ys 0"
  using rd_append2 [of xs ys 0] by simp

lemma rd_drop: "rd (drop k xs) i = rd xs (k + i)"
  by (auto simp: rd_def)

lemma wr_Some [simp]: "i < length xs \<Longrightarrow> wr xs i v = Some (xs[i := v])"
  by (simp add: wr_def)

lemma wr_eq_Some_iff: "wr xs i v = Some ys \<longleftrightarrow> i < length xs \<and> ys = xs[i := v]"
  by (auto simp: wr_def)

lemma take_update_append:
  "i < length xs \<Longrightarrow> take (Suc i) (xs[i := v]) = take i xs @ [v]"
  by (simp add: take_Suc_conv_app_nth)

text \<open>The region \<open>buf\<close> with the elements \<open>xs\<close> stored from index \<open>k\<close> on.\<close>

definition put :: "'a list \<Rightarrow> nat \<Rightarrow> 'a list \<Rightarrow> 'a list" where
  "put buf k xs = take k buf @ xs @ drop (k + length xs) buf"

lemma put_Nil [simp]: "put buf k [] = buf"
  by (simp add: put_def)

lemma length_put [simp]: "k + length xs \<le> length buf \<Longrightarrow> length (put buf k xs) = length buf"
  by (simp add: put_def)

lemma put_single: "k < length buf \<Longrightarrow> buf[k := v] = put buf k [v]"
  by (simp add: put_def upd_conv_take_nth_drop)

lemma take_put [simp]: "j \<le> k \<Longrightarrow> k \<le> length buf \<Longrightarrow> take j (put buf k xs) = take j buf"
  by (simp add: put_def min_def)

lemma take_put_end:
  "k \<le> length buf \<Longrightarrow> take (k + length xs) (put buf k xs) = take k buf @ xs"
  by (simp add: put_def)

lemma nth_put:
  "k + length xs \<le> length buf \<Longrightarrow> i < length buf \<Longrightarrow>
   put buf k xs ! i = (if k \<le> i \<and> i < k + length xs then xs ! (i - k) else buf ! i)"
  by (auto simp: put_def nth_append)

lemma put_put:
  assumes "k + length xs + length ys \<le> length buf"
  shows "put (put buf k xs) (k + length xs) ys = put buf k (xs @ ys)"
  using assms by (intro nth_equalityI) (auto simp: nth_put nth_append)

lemma put_put_before:
  assumes "i + length ys = k" and "k + length xs \<le> length buf"
  shows "put (put buf k xs) i ys = put buf i (ys @ xs)"
  using assms by (intro nth_equalityI) (auto simp: nth_put nth_append)

section \<open>Computations that may fault\<close>

definition ok :: "'a option \<Rightarrow> ('a \<Rightarrow> bool) \<Rightarrow> bool" where
  "ok m P \<longleftrightarrow> (\<exists>x. m = Some x \<and> P x)"

lemma ok_Some [simp, ok_simps]: "ok (Some x) P = P x"
  by (simp add: ok_def)

lemma ok_None [simp, ok_simps]: "\<not> ok None P"
  by (simp add: ok_def)

lemma ok_bind [ok_simps]: "ok (Option.bind m f) P = ok m (\<lambda>x. ok (f x) P)"
  by (cases m) (auto simp: ok_def)

lemma ok_if [ok_simps]:
  "ok (if b then m else n) P = ((b \<longrightarrow> ok m P) \<and> (\<not> b \<longrightarrow> ok n P))"
  by auto

lemma ok_rd [ok_simps]: "ok (rd xs i) P = (i < length xs \<and> P (xs ! i))"
  by (auto simp: ok_def rd_def)

lemma ok_wr [ok_simps]: "ok (wr xs i v) P = (i < length xs \<and> P (xs[i := v]))"
  by (auto simp: ok_def wr_def)

definition pdnsd_assert :: "bool \<Rightarrow> unit option" where
  "pdnsd_assert b = (if b then Some () else None)"

lemma ok_pdnsd_assert [ok_simps]: "ok (pdnsd_assert b) P = (b \<and> P ())"
  by (auto simp: ok_def pdnsd_assert_def)

lemma pdnsd_assert_True [simp]: "pdnsd_assert True = Some ()"
  by (simp add: pdnsd_assert_def)

lemma ok_map_option [ok_simps]: "ok (map_option f m) P = ok m (\<lambda>x. P (f x))"
  by (cases m) auto

lemma ok_mono: "ok m P \<Longrightarrow> (\<And>x. P x \<Longrightarrow> Q x) \<Longrightarrow> ok m Q"
  by (auto simp: ok_def)

lemma ok_conj: "ok m P \<Longrightarrow> ok m Q \<Longrightarrow> ok m (\<lambda>x. P x \<and> Q x)"
  by (auto simp: ok_def)

lemma okI: "m = Some x \<Longrightarrow> P x \<Longrightarrow> ok m P"
  by (simp add: ok_def)

lemma okE: "ok m P \<Longrightarrow> (\<And>x. m = Some x \<Longrightarrow> P x \<Longrightarrow> R) \<Longrightarrow> R"
  by (auto simp: ok_def)

text \<open>The same for results that are tuples.\<close>

lemma ok2E: "ok m (\<lambda>(a, b). P a b) \<Longrightarrow> (\<And>a b. m = Some (a, b) \<Longrightarrow> P a b \<Longrightarrow> R) \<Longrightarrow> R"
  by (auto simp: ok_def)

lemma ok3E: "ok m (\<lambda>(a, b, c). P a b c) \<Longrightarrow> (\<And>a b c. m = Some (a, b, c) \<Longrightarrow> P a b c \<Longrightarrow> R) \<Longrightarrow> R"
  by (auto simp: ok_def)

lemma ok4E: "ok m (\<lambda>(a, b, c, d). P a b c d) \<Longrightarrow> (\<And>a b c d. m = Some (a, b, c, d) \<Longrightarrow> P a b c d \<Longrightarrow> R) \<Longrightarrow> R"
  by (auto simp: ok_def)

lemma ok5E:
  "ok m (\<lambda>(a, b, c, d, e). P a b c d e) \<Longrightarrow> (\<And>a b c d e. m = Some (a, b, c, d, e) \<Longrightarrow> P a b c d e \<Longrightarrow> R) \<Longrightarrow> R"
  by (auto simp: ok_def)

text \<open>Unsigned subtraction; sizes and indices must not underflow.\<close>

definition usub :: "nat \<Rightarrow> nat \<Rightarrow> nat option" where
  "usub a b = (if b \<le> a then Some (a - b) else None)"

lemma ok_usub [ok_simps]: "ok (usub a b) P \<longleftrightarrow> b \<le> a \<and> P (a - b)"
  by (simp add: usub_def)

lemma usub_Some [simp]: "b \<le> a \<Longrightarrow> usub a b = Some (a - b)"
  by (simp add: usub_def)

section \<open>Characters\<close>

definition tolower :: "byte \<Rightarrow> byte" where
  "tolower c = (if 65 \<le> c \<and> c \<le> 90 then c + 32 else c)"

definition toupper :: "byte \<Rightarrow> byte" where
  "toupper c = (if 97 \<le> c \<and> c \<le> 122 then c - 32 else c)"

definition isgraph :: "byte \<Rightarrow> bool" where
  "isgraph c \<longleftrightarrow> 33 \<le> c \<and> c \<le> 126"

definition isprint :: "byte \<Rightarrow> bool" where
  "isprint c \<longleftrightarrow> 32 \<le> c \<and> c \<le> 126"

definition isspace :: "byte \<Rightarrow> bool" where
  "isspace c \<longleftrightarrow> c = 32 \<or> (9 \<le> c \<and> c \<le> 13)"

lemma unat_add_32: "c \<le> 90 \<Longrightarrow> unat (c + 32 :: byte) = unat c + 32"
  by (simp add: unat_word_ariths word_le_nat_alt)

lemma unat_sub_32: "97 \<le> c \<Longrightarrow> unat (c - 32 :: byte) = unat c - 32"
  by (simp add: unat_sub_if' word_le_nat_alt)

lemma tolower_idem [simp]: "tolower (tolower c) = tolower c"
  by (auto simp: tolower_def word_le_nat_alt unat_add_32)

lemma toupper_tolower [simp]: "toupper (tolower c) = toupper c"
  by (auto simp: tolower_def toupper_def word_le_nat_alt unat_add_32 unat_sub_32)

lemma tolower_toupper [simp]: "tolower (toupper c) = tolower c"
  by (auto simp: tolower_def toupper_def word_le_nat_alt unat_add_32 unat_sub_32)

lemma tolower_eq_iff_toupper: "tolower a = tolower b \<longleftrightarrow> toupper a = toupper b"
  by (metis toupper_tolower tolower_toupper)

section \<open>Rounding with masks\<close>

lemma and_not_mask: "w AND NOT (mask k) = push_bit k (drop_bit k (w :: 'a::len word))"
  by (rule bit_word_eqI) (auto simp: bit_simps)

lemma unat_and_not_mask: "unat (w AND NOT (mask k)) = unat (w :: 'a::len word) div 2 ^ k * 2 ^ k"
proof -
  have "unat (w AND NOT (mask k)) = take_bit LENGTH('a) (push_bit k (drop_bit k (unat w)))"
    unfolding and_not_mask by (simp add: unsigned_push_bit_eq unsigned_drop_bit_eq take_bit_nat_eq_self)
  then show ?thesis
    by (simp add: push_bit_eq_mult drop_bit_eq_div take_bit_eq_mod mult.commute)
      (metis mod_less le_less_trans div_times_less_eq_dividend mult.commute unsigned_less)
qed

text \<open>\<^verbatim>\<open>(n+7)&~7\<close> and \<^verbatim>\<open>(n+0x3ff)&~0x3ff\<close> round up, as long as the sum fits.\<close>

lemma round_up_8:
  "n + 7 < 2 ^ 64 \<Longrightarrow> unat ((of_nat (n + 7) :: 64 word) AND NOT 7) = (n + 7) div 8 * 8"
  using unat_and_not_mask [of "of_nat (n + 7) :: 64 word" 3]
  by (simp add: mask_eq_exp_minus_1 unat_of_nat del: of_nat_add)

lemma round_up_1024:
  "n + 0x3ff < 2 ^ 64 \<Longrightarrow>
   unat ((of_nat (n + 0x3ff) :: 64 word) AND NOT 0x3ff) = (n + 0x3ff) div 1024 * 1024"
  using unat_and_not_mask [of "of_nat (n + 0x3ff) :: 64 word" 10]
  by (simp add: mask_eq_exp_minus_1 unat_of_nat del: of_nat_add)

section \<open>Allocation\<close>

text \<open>
  The outcomes of the calls of \<^verbatim>\<open>malloc\<close> still to come: each call consumes the head of the
  list (False: the call returns NULL); when the list is used up every call succeeds.
\<close>

type_synonym allocs = "bool list"

fun malloc :: "allocs \<Rightarrow> bool \<times> allocs" where
  "malloc [] = (True, [])"
| "malloc (b # bs) = (b, bs)"

end
