(* ===== verification/Names.thy ===== *)
theory Names
  imports Prelude
begin

text \<open>
  Domain names (\<^verbatim>\<open>src/helpers.c\<close>, \<^verbatim>\<open>src/helpers.h\<close>).

  pdnsd keeps names in the transport format of RFC 1035: a length byte followed by that many
  bytes, repeated, and a zero length byte at the end. The first section translates the
  primitives that walk over such names, the second gives the format its abstract meaning
  (\<open>wire\<close> encodes a list of labels) and proves what each primitive computes on it.
\<close>

definition DNSNAMEBUFSIZE :: nat where
  "DNSNAMEBUFSIZE = 256"

section \<open>Walking over names\<close>

text \<open>\<^verbatim>\<open>while((lb=rhn[i++])) i+=lb; return i;\<close>\<close>

function rhnlen_loop :: "bytes \<Rightarrow> nat \<Rightarrow> nat option" where
  "rhnlen_loop rhn i = do {
     lb \<leftarrow> rd rhn i;
     if lb = 0 then Some (i + 1) else rhnlen_loop rhn (i + 1 + unat lb) }"
  by pat_completeness auto
termination
  by (relation "measure (\<lambda>(rhn, i). length rhn - i)") (auto simp: rd_eq_Some_iff)

definition rhnlen :: "bytes \<Rightarrow> nat option" where
  "rhnlen rhn = rhnlen_loop rhn 0"

text \<open>A pointer into a name is the rest of the name's region.\<close>

fun skipsegs :: "bytes \<Rightarrow> nat \<Rightarrow> bytes option" where
  "skipsegs nm 0 = Some nm"
| "skipsegs nm (Suc k) = do {
     lb \<leftarrow> rd nm 0;
     if lb = 0 then Some nm else skipsegs (drop (unat lb + 1) nm) k }"

function skiprhn :: "bytes \<Rightarrow> bytes option" where
  "skiprhn rhn = do {
     lb \<leftarrow> rd rhn 0;
     if lb = 0 then Some (drop 1 rhn) else skiprhn (drop (unat lb) (drop 1 rhn)) }"
  by pat_completeness auto
termination
  by (relation "measure length") (auto simp: rd_eq_Some_iff)

function rhnsegcnt_loop :: "bytes \<Rightarrow> nat \<Rightarrow> nat option" where
  "rhnsegcnt_loop rhn res = do {
     lb \<leftarrow> rd rhn 0;
     if lb = 0 then Some res else rhnsegcnt_loop (drop (unat lb + 1) rhn) (res + 1) }"
  by pat_completeness auto
termination
  by (relation "measure (\<lambda>(rhn, res). length rhn)") (auto simp: rd_eq_Some_iff)

definition rhnsegcnt :: "bytes \<Rightarrow> nat option" where
  "rhnsegcnt rhn = rhnsegcnt_loop rhn 0"

text \<open>\<^verbatim>\<open>memcpy(dst,src,n)\<close>: both regions must have \<open>n\<close> bytes.\<close>

definition memcpy :: "bytes \<Rightarrow> bytes \<Rightarrow> nat \<Rightarrow> bytes option" where
  "memcpy dst src n =
     (if n \<le> length src \<and> n \<le> length dst then Some (take n src @ drop n dst) else None)"

definition rhncpy :: "bytes \<Rightarrow> bytes \<Rightarrow> (nat \<times> bytes) option" where
  "rhncpy dst src = do {
     len \<leftarrow> rhnlen src;
     pdnsd_assert (len \<le> DNSNAMEBUFSIZE);
     dst' \<leftarrow> memcpy dst src (if len > DNSNAMEBUFSIZE then DNSNAMEBUFSIZE else len);
     Some (len, dst') }"

function isnormalencdomname_loop :: "bytes \<Rightarrow> nat \<Rightarrow> nat \<Rightarrow> bool option" where
  "isnormalencdomname_loop rhn maxlen i =
     (if i \<ge> maxlen then Some False
      else do {
        lb \<leftarrow> rd rhn i;
        if lb = 0 then Some True
        else if lb > 0x3f then Some False
        else isnormalencdomname_loop rhn maxlen (i + 1 + unat lb) })"
  by pat_completeness auto
termination
  by (relation "measure (\<lambda>(rhn, maxlen, i). maxlen - i)") auto

definition isnormalencdomname :: "bytes \<Rightarrow> nat \<Rightarrow> bool option" where
  "isnormalencdomname rhn maxlen =
     isnormalencdomname_loop rhn (if maxlen > DNSNAMEBUFSIZE then DNSNAMEBUFSIZE else maxlen) 0"

text \<open>The inner loop of \<open>rhnicmp\<close>: compare \<open>lb\<close> bytes from index \<open>i\<close> on.\<close>

fun rhnicmp_seg :: "bytes \<Rightarrow> bytes \<Rightarrow> nat \<Rightarrow> nat \<Rightarrow> bool option" where
  "rhnicmp_seg a b i 0 = Some True"
| "rhnicmp_seg a b i (Suc lb) = do {
     x \<leftarrow> rd a i;
     y \<leftarrow> rd b i;
     if tolower x \<noteq> tolower y then Some False else rhnicmp_seg a b (i + 1) lb }"

function rhnicmp_loop :: "bytes \<Rightarrow> bytes \<Rightarrow> nat \<Rightarrow> bool option" where
  "rhnicmp_loop a b i = do {
     lb \<leftarrow> rd a i;
     y \<leftarrow> rd b i;
     if lb \<noteq> y then Some False
     else if lb = 0 then Some True
     else do {
       same \<leftarrow> rhnicmp_seg a b (i + 1) (unat lb);
       if \<not> same then Some False else rhnicmp_loop a b (i + 1 + unat lb) } }"
  by pat_completeness auto
termination
  by (relation "measure (\<lambda>(a, b, i). length a - i)") (auto simp: rd_eq_Some_iff)

definition rhnicmp :: "bytes \<Rightarrow> bytes \<Rightarrow> bool option" where
  "rhnicmp a b = rhnicmp_loop a b 0"

declare rhnlen_loop.simps [simp del] skiprhn.simps [simp del] rhnsegcnt_loop.simps [simp del]
  isnormalencdomname_loop.simps [simp del] rhnicmp_loop.simps [simp del]

section \<open>Names as lists of labels\<close>

text \<open>
  The transport format of a list of labels. \<open>wf_name\<close>: every label has between 1 and 63
  bytes and the whole fits a buffer of \<open>DNSNAMEBUFSIZE\<close> bytes.
\<close>

type_synonym label = bytes

fun wire :: "label list \<Rightarrow> bytes" where
  "wire [] = [0]"
| "wire (l # ls) = of_nat (length l) # l @ wire ls"

definition wf_label :: "label \<Rightarrow> bool" where
  "wf_label l \<longleftrightarrow> 0 < length l \<and> length l \<le> 63"

definition wf_name :: "label list \<Rightarrow> bool" where
  "wf_name ls \<longleftrightarrow> list_all wf_label ls \<and> length (wire ls) \<le> DNSNAMEBUFSIZE"

text \<open>Case folding of a name, the equivalence that names are compared by.\<close>

definition fold_name :: "label list \<Rightarrow> label list" where
  "fold_name ls = map (map tolower) ls"

lemma wf_label_unat: "wf_label l \<Longrightarrow> unat (of_nat (length l) :: byte) = length l"
  by (simp add: wf_label_def unat_of_nat)

lemma wf_label_nz: "wf_label l \<Longrightarrow> (of_nat (length l) :: byte) \<noteq> 0"
  by (metis wf_label_unat wf_label_def unat_0 less_irrefl)

lemma length_wire: "length (wire ls) = 1 + sum_list (map (\<lambda>l. length l + 1) ls)"
  by (induction ls) auto

lemma wire_ne [simp]: "wire ls \<noteq> []"
  by (cases ls) auto

lemma wire_append: "wire (xs @ ys) = butlast (wire xs) @ wire ys"
  by (induction xs) (auto simp: butlast_append)

lemma wf_name_Cons: "wf_name (l # ls) \<Longrightarrow> wf_label l \<and> wf_name ls"
  by (auto simp: wf_name_def)

lemma wf_name_labels: "wf_name ls \<Longrightarrow> list_all wf_label ls"
  by (simp add: wf_name_def)

lemma wf_name_Nil [simp]: "wf_name []"
  by (simp add: wf_name_def DNSNAMEBUFSIZE_def)

lemma fold_name_simps [simp]:
  "fold_name [] = []" "fold_name (l # ls) = map tolower l # fold_name ls"
  "length (fold_name ls) = length ls"
  by (simp_all add: fold_name_def)

text \<open>At most 127 labels fit a name buffer.\<close>

lemma wf_name_length: "wf_name ls \<Longrightarrow> length ls \<le> 127"
proof -
  assume wf: "wf_name ls"
  have "list_all wf_label ls \<Longrightarrow> 2 * length ls \<le> sum_list (map (\<lambda>l. length l + 1) ls)"
    by (induction ls) (auto simp: wf_label_def neq_Nil_conv)
  with wf show ?thesis
    by (simp add: wf_name_def length_wire DNSNAMEBUFSIZE_def)
qed

subsection \<open>The primitives on encoded names\<close>

lemma rhnlen_loop_wire:
  "list_all wf_label ls \<Longrightarrow> rhnlen_loop (pre @ wire ls @ rest) (length pre) =
     Some (length pre + length (wire ls))"
proof (induction ls arbitrary: pre)
  case Nil
  then show ?case by (simp add: rhnlen_loop.simps [of _ "length pre"])
next
  case (Cons l ls)
  then show ?case
    using Cons.IH [of "pre @ of_nat (length l) # l"]
    by (simp add: rhnlen_loop.simps [of _ "length pre"] wf_label_unat wf_label_nz)
qed

lemma rhnlen_wire [name_simps]:
  "list_all wf_label ls \<Longrightarrow> rhnlen (wire ls @ rest) = Some (length (wire ls))"
  using rhnlen_loop_wire [of ls "[]" rest] by (simp add: rhnlen_def)

lemma rd_wire [name_simps]:
  "rd (wire [] @ rest) 0 = Some 0" "rd (wire (l # ls) @ rest) 0 = Some (of_nat (length l))"
  by simp_all

lemma drop_wire_Cons [name_simps]:
  "drop (Suc (length l)) (wire (l # ls) @ rest) = wire ls @ rest"
  by simp

lemma skipsegs_wire [name_simps]:
  "list_all wf_label ls \<Longrightarrow> skipsegs (wire ls @ rest) k = Some (wire (drop k ls) @ rest)"
proof (induction ls arbitrary: k)
  case Nil
  then show ?case by (cases k) simp_all
next
  case (Cons l ls)
  then show ?case by (cases k) (simp_all add: wf_label_unat wf_label_nz)
qed

lemma skiprhn_wire [name_simps]:
  "list_all wf_label ls \<Longrightarrow> skiprhn (wire ls @ rest) = Some rest"
  by (induction ls) (simp_all add: skiprhn.simps wf_label_unat wf_label_nz)

lemma rhnsegcnt_loop_wire:
  "list_all wf_label ls \<Longrightarrow> rhnsegcnt_loop (wire ls @ rest) n = Some (n + length ls)"
  by (induction ls arbitrary: n) (simp_all add: rhnsegcnt_loop.simps wf_label_unat wf_label_nz)

lemma rhnsegcnt_wire [name_simps]:
  "list_all wf_label ls \<Longrightarrow> rhnsegcnt (wire ls @ rest) = Some (length ls)"
  by (simp add: rhnsegcnt_def rhnsegcnt_loop_wire)

lemma rhncpy_wire [name_simps]:
  assumes "wf_name ls" and "length (wire ls) \<le> length dst"
  shows "rhncpy dst (wire ls @ rest) =
    Some (length (wire ls), wire ls @ drop (length (wire ls)) dst)"
  using assms by (simp add: rhncpy_def memcpy_def rhnlen_wire wf_name_def)

text \<open>The encoding is prefix-free: a region starts with at most one name.\<close>

lemma wire_prefix_unique:
  "list_all wf_label xs \<Longrightarrow> list_all wf_label ys \<Longrightarrow> wire xs @ r = wire ys @ s \<Longrightarrow>
     xs = ys \<and> r = s"
proof (induction xs arbitrary: ys)
  case Nil
  then show ?case by (cases ys) (auto dest: wf_label_nz)
next
  case (Cons x xs)
  then obtain y ys' where ys: "ys = y # ys'"
    by (cases ys) (auto dest: wf_label_nz)
  with Cons.prems have "(of_nat (length x) :: byte) = of_nat (length y)"
    and rest: "x @ wire xs @ r = y @ wire ys' @ s"
    by auto
  with Cons.prems ys have "length x = length y"
    by (metis list.pred_inject(2) wf_label_unat)
  with rest have "x = y" and "wire xs @ r = wire ys' @ s"
    by auto
  with Cons ys show ?case by auto
qed

lemma wire_inj:
  "list_all wf_label xs \<Longrightarrow> list_all wf_label ys \<Longrightarrow> wire xs = wire ys \<longleftrightarrow> xs = ys"
  using wire_prefix_unique [of xs ys "[]" "[]"] by auto

subsection \<open>Comparison\<close>

lemma rhnicmp_seg_drop: "rhnicmp_seg a b (k + i) n = rhnicmp_seg (drop k a) (drop k b) i n"
proof (induction n arbitrary: i)
  case (Suc n)
  from Suc.IH [of "i + 1"] show ?case by (simp add: rd_drop cong: if_cong)
qed simp

lemma rhnicmp_loop_drop: "rhnicmp_loop a b (k + i) = rhnicmp_loop (drop k a) (drop k b) i"
proof (induction "drop k a" "drop k b" i rule: rhnicmp_loop.induct)
  case (1 i)
  then show ?case
    using rhnicmp_seg_drop [of a b k "i + 1"]
    by (auto intro!: Option.bind_cong simp: rd_drop add.assoc
        rhnicmp_loop.simps [of a b "k + i"] rhnicmp_loop.simps [of "drop k a" _ i])
qed

lemma rhnicmp_seg_append:
  "length x = length y \<Longrightarrow>
   rhnicmp_seg (x @ r) (y @ s) 0 (length x) = Some (map tolower x = map tolower y)"
proof (induction x y rule: list_induct2)
  case (Cons x xs y ys)
  then show ?case using rhnicmp_seg_drop [of "x # xs @ r" "y # ys @ s" 1 0] by simp
qed simp

lemma rhnicmp_wire [name_simps]:
  "list_all wf_label xs \<Longrightarrow> list_all wf_label ys \<Longrightarrow>
   rhnicmp (wire xs @ r) (wire ys @ s) = Some (fold_name xs = fold_name ys)"
  unfolding rhnicmp_def
proof (induction xs arbitrary: ys)
  case Nil
  then show ?case
    by (cases ys) (auto simp: rhnicmp_loop.simps [of _ _ 0] dest: wf_label_nz)
next
  case (Cons x xs)
  note IH = Cons.IH and wf = Cons.prems
  show ?case
  proof (cases ys)
    case Nil
    with wf show ?thesis
      by (auto simp: rhnicmp_loop.simps [of _ _ 0] dest: wf_label_nz)
  next
    case (Cons y ys')
    let ?a = "wire (x # xs) @ r" and ?b = "wire (y # ys') @ s"
    from wf Cons have len: "(of_nat (length x) :: byte) = of_nat (length y) \<longleftrightarrow> length x = length y"
      by (metis list.pred_inject(2) wf_label_unat)
    have seg: "length x = length y \<Longrightarrow>
        rhnicmp_seg ?a ?b 1 (length x) = Some (map tolower x = map tolower y)"
      using rhnicmp_seg_drop [of ?a ?b 1 0] rhnicmp_seg_append [of x y "wire xs @ r" "wire ys' @ s"]
      by simp
    have rest: "length x = length y \<Longrightarrow> rhnicmp_loop ?a ?b (Suc (length x)) =
        rhnicmp_loop (wire xs @ r) (wire ys' @ s) 0"
      using rhnicmp_loop_drop [of ?a ?b "Suc (length x)" 0] by simp
    from wf IH [of ys'] len seg rest Cons show ?thesis
      by (auto simp: rhnicmp_loop.simps [of _ _ 0] wf_label_unat wf_label_nz dest: map_eq_imp_length_eq)
  qed
qed

subsection \<open>Recognising names\<close>

text \<open>The region \<open>buf\<close> holds the encoded name \<open>ls\<close> at index \<open>i\<close>.\<close>

definition name_at :: "bytes \<Rightarrow> nat \<Rightarrow> label list \<Rightarrow> bool" where
  "name_at buf i ls \<longleftrightarrow> list_all wf_label ls \<and> (\<exists>rest. drop i buf = wire ls @ rest)"

lemma name_at_bound: "name_at buf i ls \<Longrightarrow> i + length (wire ls) \<le> length buf"
proof -
  assume "name_at buf i ls"
  then obtain rest where "drop i buf = wire ls @ rest" by (auto simp: name_at_def)
  then have "length buf - i = length (wire ls) + length rest"
    by (metis length_append length_drop)
  moreover have "0 < length (wire ls)" by simp
  ultimately show ?thesis by linarith
qed

lemma name_at_Nil: "name_at buf i [] \<longleftrightarrow> rd buf i = Some 0"
  by (auto simp: name_at_def rd_def Cons_nth_drop_Suc [symmetric] dest: nth_via_drop)

lemma name_at_Cons:
  assumes "rd buf i = Some lb" and "lb \<noteq> 0" and "lb \<le> 0x3f"
  shows "name_at buf i (l # ls) \<longleftrightarrow>
    l = take (unat lb) (drop (i + 1) buf) \<and> length l = unat lb \<and>
    name_at buf (i + 1 + unat lb) ls"
proof -
  from assms(1) have d: "drop i buf = lb # drop (i + 1) buf"
    by (auto simp: rd_eq_Some_iff Cons_nth_drop_Suc)
  from assms(2,3) have lb: "0 < unat lb" "unat lb \<le> 63"
    by (simp_all add: unat_gt_0 word_le_nat_alt)
  show ?thesis
  proof
    assume "name_at buf i (l # ls)"
    then obtain rest where wf: "wf_label l" "list_all wf_label ls"
      and "drop i buf = wire (l # ls) @ rest" by (auto simp: name_at_def)
    with d have "lb = of_nat (length l)" and r: "drop (i + 1) buf = l @ wire ls @ rest"
      by simp_all
    with wf have len: "length l = unat lb" by (simp add: wf_label_unat)
    have "drop (i + 1 + unat lb) buf = drop (unat lb) (drop (i + 1) buf)"
      by (simp add: add.commute)
    with r len wf show "l = take (unat lb) (drop (i + 1) buf) \<and> length l = unat lb \<and>
        name_at buf (i + 1 + unat lb) ls"
      by (auto simp: name_at_def)
  next
    assume "l = take (unat lb) (drop (i + 1) buf) \<and> length l = unat lb \<and>
      name_at buf (i + 1 + unat lb) ls"
    then obtain rest where l: "l = take (unat lb) (drop (i + 1) buf)" "length l = unat lb"
      and ls: "list_all wf_label ls" "drop (i + 1 + unat lb) buf = wire ls @ rest"
      by (auto simp: name_at_def)
    then have "drop (i + 1) buf = l @ wire ls @ rest"
      by (metis add.commute append_take_drop_id drop_drop)
    with d l lb ls show "name_at buf i (l # ls)"
      by (auto simp: name_at_def wf_label_def intro!: exI [of _ rest])
  qed
qed

lemma name_at_big: "rd buf i = Some lb \<Longrightarrow> lb > 0x3f \<Longrightarrow> \<not> name_at buf i ls"
proof
  assume lb: "rd buf i = Some lb" "lb > 0x3f" and "name_at buf i ls"
  then obtain rest where wf: "list_all wf_label ls" and d: "drop i buf = wire ls @ rest"
    by (auto simp: name_at_def)
  from lb(1) have "drop i buf = lb # drop (i + 1) buf"
    by (auto simp: rd_eq_Some_iff Cons_nth_drop_Suc)
  with d lb(2) wf show False
    by (cases ls) (auto simp: wf_label_unat word_less_nat_alt wf_label_def)
qed

lemma name_at_out: "rd buf i = None \<Longrightarrow> \<not> name_at buf i ls"
  using name_at_bound [of buf i ls] by (cases ls) (auto simp: rd_def split: if_splits)

lemma name_at_ex_step:
  assumes "rd buf i = Some lb" and "lb \<noteq> 0" and "lb \<le> 0x3f"
  shows "(\<exists>ls. name_at buf i ls \<and> i + length (wire ls) \<le> m) \<longleftrightarrow>
    (\<exists>ls. name_at buf (i + 1 + unat lb) ls \<and> i + 1 + unat lb + length (wire ls) \<le> m)"
proof
  assume "\<exists>ls. name_at buf i ls \<and> i + length (wire ls) \<le> m"
  then obtain ls where ls: "name_at buf i ls" "i + length (wire ls) \<le> m" by auto
  moreover from assms have "\<not> name_at buf i []" by (simp add: name_at_Nil)
  ultimately obtain l ls' where "ls = l # ls'" by (cases ls) auto
  with ls show "\<exists>ls. name_at buf (i + 1 + unat lb) ls \<and> i + 1 + unat lb + length (wire ls) \<le> m"
    using name_at_Cons [OF assms] by (auto intro!: exI [of _ ls'])
next
  assume "\<exists>ls. name_at buf (i + 1 + unat lb) ls \<and> i + 1 + unat lb + length (wire ls) \<le> m"
  then obtain ls where ls: "name_at buf (i + 1 + unat lb) ls"
    "i + 1 + unat lb + length (wire ls) \<le> m" by auto
  let ?l = "take (unat lb) (drop (i + 1) buf)"
  from name_at_bound [OF ls(1)] have len: "length ?l = unat lb" by simp
  with ls name_at_Cons [OF assms, of ?l ls] have "name_at buf i (?l # ls)" by simp
  with ls len show "\<exists>ls. name_at buf i ls \<and> i + length (wire ls) \<le> m"
    by (intro exI [of _ "?l # ls"]) simp
qed

lemma isnormalencdomname_loop_iff:
  "isnormalencdomname_loop buf m i = Some True \<longleftrightarrow>
     (\<exists>ls. name_at buf i ls \<and> i + length (wire ls) \<le> m)"
proof (induction buf m i rule: isnormalencdomname_loop.induct)
  case (1 buf m i)
  note unf = isnormalencdomname_loop.simps [of buf m i]
  consider "i \<ge> m" | "i < m" "rd buf i = None" | "i < m" "rd buf i = Some 0"
    | lb where "i < m" "rd buf i = Some lb" "lb > 0x3f"
    | lb where "i < m" "rd buf i = Some lb" "lb \<noteq> 0" "lb \<le> 0x3f"
    by (metis leI option.exhaust)
  then show ?case
  proof cases
    case 1
    moreover have "m < i + length (wire ls)" for ls
      using \<open>m \<le> i\<close> by (cases ls) auto
    ultimately show ?thesis by (auto simp: unf not_le)
  next
    case 2
    then show ?thesis by (simp add: unf name_at_out)
  next
    case 3
    then show ?thesis by (auto simp: unf name_at_Nil intro!: exI [of _ "[]"])
  next
    case (4 lb)
    then show ?thesis by (auto simp: unf name_at_big)
  next
    case (5 lb)
    then have "\<not> lb > 0x3f" by simp
    with 5 1 [OF _ 5(2)] name_at_ex_step [OF 5(2-4), of m] show ?thesis
      by (simp add: unf)
  qed
qed

lemma isnormalencdomname_loop_safe:
  "m \<le> length buf \<Longrightarrow> ok (isnormalencdomname_loop buf m i) (\<lambda>_. True)"
proof (induction buf m i rule: isnormalencdomname_loop.induct)
  case (1 buf m i)
  then show ?case
    by (cases "i < m") (auto simp: isnormalencdomname_loop.simps [of buf m i] ok_simps)
qed

section \<open>Properties\<close>

text \<open>
  C22. \<open>rhnicmp\<close> decides equality of names up to the case of letters, for any two
  well-formed names and whatever follows them in memory.
\<close>

theorem rhnicmp_equal:
  assumes "wf_name xs" and "wf_name ys"
  shows "rhnicmp (wire xs @ r) (wire ys @ s) = Some (fold_name xs = fold_name ys)"
  using assms by (simp add: rhnicmp_wire wf_name_labels)

theorem rhnicmp_equal_witness:
  "rhnicmp (wire [[65, 98]] @ [7]) (wire [[97, 66]] @ []) =
     Some (fold_name [[65, 98]] = fold_name [[97, 66]])"
  using rhnicmp_equal [of "[[65, 98]]" "[[97, 66]]" "[7]" "[]"]
  by (simp add: wf_name_def wf_label_def DNSNAMEBUFSIZE_def)

text \<open>
  C23. \<open>isnormalencdomname\<close> never reads beyond the \<open>maxlen\<close> bytes it is given and says
  yes exactly if they start with a well-formed name that lies in them.
\<close>

theorem isnormalencdomname_correct:
  assumes "maxlen \<le> length rhn"
  shows "isnormalencdomname rhn maxlen =
    Some (\<exists>ls rest. rhn = wire ls @ rest \<and> wf_name ls \<and> length (wire ls) \<le> maxlen)"
proof -
  let ?m = "if maxlen > DNSNAMEBUFSIZE then DNSNAMEBUFSIZE else maxlen"
  from assms have "ok (isnormalencdomname_loop rhn ?m 0) (\<lambda>_. True)"
    by (intro isnormalencdomname_loop_safe) auto
  then obtain b where b: "isnormalencdomname_loop rhn ?m 0 = Some b" by (auto elim: okE)
  have "b \<longleftrightarrow> (\<exists>ls. name_at rhn 0 ls \<and> length (wire ls) \<le> ?m)"
    using isnormalencdomname_loop_iff [of rhn ?m 0] b by simp
  then show ?thesis
    unfolding isnormalencdomname_def b by (auto simp: name_at_def wf_name_def)
qed

theorem isnormalencdomname_correct_witness:
  "isnormalencdomname [1, 97, 0, 5] 4 =
    Some (\<exists>ls rest. [1, 97, 0, 5] = wire ls @ rest \<and> wf_name ls \<and> length (wire ls) \<le> 4)"
  using isnormalencdomname_correct [of 4 "[1, 97, 0, 5]"] by simp

text \<open>
  C24. The primitives that walk over a well-formed name agree on it: \<open>rhnlen\<close> is its
  encoded length, \<open>rhnsegcnt\<close> the number of its labels, \<open>skipsegs\<close> drops that many
  labels, \<open>skiprhn\<close> arrives right behind it, and \<open>rhncpy\<close> copies exactly it into a
  name buffer without tripping its assertion.
\<close>

theorem walk_name:
  assumes "wf_name ls" and "DNSNAMEBUFSIZE \<le> length dst"
  shows "rhnlen (wire ls @ rest) = Some (length (wire ls)) \<and>
    rhnsegcnt (wire ls @ rest) = Some (length ls) \<and>
    skipsegs (wire ls @ rest) k = Some (wire (drop k ls) @ rest) \<and>
    skiprhn (wire ls @ rest) = Some rest \<and>
    rhncpy dst (wire ls @ rest) = Some (length (wire ls), wire ls @ drop (length (wire ls)) dst)"
  using assms wf_name_labels [OF assms(1)]
  by (simp add: name_simps) (simp add: rhncpy_wire wf_name_def)

theorem walk_name_witness:
  "rhnlen (wire [[97], [98, 99]] @ [1]) = Some 6 \<and>
   skipsegs (wire [[97], [98, 99]] @ [1]) 1 = Some (wire [[98, 99]] @ [1])"
  using walk_name [of "[[97], [98, 99]]" "replicate 256 0" "[1]" 1]
  by (simp add: wf_name_def wf_label_def DNSNAMEBUFSIZE_def)

end
