(* ===== verification/NameText.thy ===== *)
theory NameText
  imports Names
begin

text \<open>
  Names as text (\<^verbatim>\<open>src/helpers.c\<close>): \<open>str2rhn\<close> and \<open>parsestr2rhn\<close> read the dotted
  notation into a name buffer, \<open>rhn2str\<close>, \<open>escapestr\<close> and \<open>hexdump\<close> print. A C string
  is a region with a zero byte; reading past the end of its region is a fault.
\<close>

section \<open>From dotted notation\<close>

abbreviation dot :: byte where "dot \<equiv> 46"

text \<open>
  The inner loop of \<open>str2rhn\<close>: copy a label. The boolean is False when the function
  returns 0 from inside the loop.
\<close>

function str2rhn_seg :: "bytes \<Rightarrow> nat \<Rightarrow> nat \<Rightarrow> bytes \<Rightarrow> (bool \<times> nat \<times> bytes) option" where
  "str2rhn_seg str jlim j rhn = do {
     c \<leftarrow> rd str j;
     if c = 0 \<or> c = dot then Some (True, j, rhn)
     else if j \<ge> jlim then Some (False, j, rhn)
     else do {
       rhn' \<leftarrow> wr rhn (j + 1) c;
       str2rhn_seg str jlim (j + 1) rhn' } }"
  by pat_completeness auto
termination
  by (relation "measure (\<lambda>(str, jlim, j, rhn). length str - j)") (auto simp: rd_eq_Some_iff)

definition str2rhn_jlim :: "nat \<Rightarrow> nat" where
  "str2rhn_jlim i =
     (let jlim = i + 63 in if jlim > DNSNAMEBUFSIZE - 2 then DNSNAMEBUFSIZE - 2 else jlim)"

function str2rhn_loop :: "bytes \<Rightarrow> nat \<Rightarrow> bytes \<Rightarrow> (bool \<times> bytes) option" where
  "str2rhn_loop str i rhn = do {
     (b, j, rhn) \<leftarrow> str2rhn_seg str (str2rhn_jlim i) i rhn;
     if \<not> b then Some (False, rhn)
     else do {
       c \<leftarrow> rd str j;
       if c = 0 then do {
         rhn \<leftarrow> wr rhn i 0;
         Some (\<not> (j > i \<or> i = 0), rhn) }
       else if j \<le> i then Some (False, rhn)
       else do {
         rhn \<leftarrow> wr rhn i (of_nat (j - i));
         str2rhn_loop str (j + 1) rhn } } }"
  by pat_completeness auto
termination
  by (relation "measure (\<lambda>(str, i, rhn). length str - i)") (auto simp: rd_eq_Some_iff)

definition str2rhn :: "bytes \<Rightarrow> bytes \<Rightarrow> (bool \<times> bytes) option" where
  "str2rhn str rhn = do {
     c0 \<leftarrow> rd str 0;
     c1 \<leftarrow> (if c0 = dot then rd str 1 else Some 1);
     if c0 = dot \<and> c1 = 0 then do {
       rhn \<leftarrow> wr rhn 0 0;
       Some (True, rhn) }
     else str2rhn_loop str 0 rhn }"

text \<open>
  \<open>parsestr2rhn\<close> looks at the first \<open>len\<close> characters only and answers with an error
  message (\<open>None\<close>: no error). \<open>parse_live\<close> is the condition
  \<^verbatim>\<open>j<len && str[j]\<close>.
\<close>

definition parse_live :: "bytes \<Rightarrow> nat \<Rightarrow> nat \<Rightarrow> bool option" where
  "parse_live str len j = (if j < len then map_option (\<lambda>c. c \<noteq> 0) (rd str j) else Some False)"

function parsestr2rhn_seg :: "bytes \<Rightarrow> nat \<Rightarrow> nat \<Rightarrow> nat \<Rightarrow> bytes \<Rightarrow> (bool \<times> nat \<times> bytes) option" where
  "parsestr2rhn_seg str len jlim j rhn =
     (if \<not> j < len then Some (True, j, rhn)
      else do {
        c \<leftarrow> rd str j;
        if c = 0 \<or> c = dot then Some (True, j, rhn)
        else if j \<ge> jlim then Some (False, j, rhn)
        else do {
          rhn' \<leftarrow> wr rhn (j + 1) c;
          parsestr2rhn_seg str len jlim (j + 1) rhn' } })"
  by pat_completeness auto
termination
  by (relation "measure (\<lambda>(str, len, jlim, j, rhn). len - j)") auto

definition parsestr2rhn_finish :: "nat \<Rightarrow> bytes \<Rightarrow> (string option \<times> bytes) option" where
  "parsestr2rhn_finish i rhn = do {
     rhn \<leftarrow> wr rhn i 0;
     Some (if i = 0 then Some ''Empty domain name not allowed'' else None, rhn) }"

function parsestr2rhn_loop :: "bytes \<Rightarrow> nat \<Rightarrow> nat \<Rightarrow> bytes \<Rightarrow> (string option \<times> bytes) option" where
  "parsestr2rhn_loop str len i rhn = do {
     (b, j, rhn) \<leftarrow> parsestr2rhn_seg str len (str2rhn_jlim i) i rhn;
     if \<not> b then Some (Some ''Domain name element too long'', rhn)
     else do {
       live \<leftarrow> parse_live str len j;
       if j \<le> i then
         (if live then Some (Some ''Empty name element in domain name'', rhn)
          else parsestr2rhn_finish i rhn)
       else do {
         rhn \<leftarrow> wr rhn i (of_nat (j - i));
         if live then parsestr2rhn_loop str len (j + 1) rhn
         else parsestr2rhn_finish (j + 1) rhn } } }"
  by pat_completeness auto
termination
  by (relation "measure (\<lambda>(str, len, i, rhn). len - i)")
    (auto simp: parse_live_def split: if_splits)

definition parsestr2rhn :: "bytes \<Rightarrow> nat \<Rightarrow> bytes \<Rightarrow> (string option \<times> bytes) option" where
  "parsestr2rhn str len rhn = do {
     c0 \<leftarrow> (if len > 0 then rd str 0 else Some 1);
     c1 \<leftarrow> (if len > 0 \<and> c0 = dot \<and> len \<noteq> 1 then rd str 1 else Some 0);
     if len > 0 \<and> c0 = dot \<and> (len = 1 \<or> c1 = 0) then do {
       rhn \<leftarrow> wr rhn 0 0;
       Some (None, rhn) }
     else parsestr2rhn_loop str len 0 rhn }"

declare str2rhn_seg.simps [simp del] str2rhn_loop.simps [simp del]
  parsestr2rhn_seg.simps [simp del] parsestr2rhn_loop.simps [simp del]

subsection \<open>What the readers accept\<close>

text \<open>Dotted notation of a list of labels; \<open>plain\<close> labels have neither dots nor zeroes.\<close>

fun dotted_labels :: "label list \<Rightarrow> bytes" where
  "dotted_labels [] = []"
| "dotted_labels (l # ls) = l @ dot # dotted_labels ls"

definition dotted :: "label list \<Rightarrow> bytes" where
  "dotted ls = (if ls = [] then [dot] else dotted_labels ls)"

definition plain :: "label list \<Rightarrow> bool" where
  "plain ls \<longleftrightarrow> list_all (list_all (\<lambda>c. c \<noteq> 0 \<and> c \<noteq> dot)) ls"

lemma dotted_labels_append [simp]:
  "dotted_labels (xs @ ys) = dotted_labels xs @ dotted_labels ys"
  by (induction xs) auto

lemma plain_append [simp]: "plain (xs @ ys) \<longleftrightarrow> plain xs \<and> plain ys"
  by (simp add: plain_def)

lemma length_dotted_labels: "length (dotted_labels ls) + 1 = length (wire ls)"
  by (induction ls) auto

lemma str2rhn_jlim_bounds: "str2rhn_jlim i \<le> i + 63" "str2rhn_jlim i \<le> 254"
  by (auto simp: str2rhn_jlim_def DNSNAMEBUFSIZE_def Let_def)

lemma plain_Cons [simp]:
  "plain (l # ls) \<longleftrightarrow> list_all (\<lambda>c. c \<noteq> 0 \<and> c \<noteq> dot) l \<and> plain ls"
  by (simp add: plain_def)

lemma plain_Nil [simp]: "plain []"
  by (simp add: plain_def)

abbreviation plain_label :: "label \<Rightarrow> bool" where
  "plain_label l \<equiv> list_all (\<lambda>c. c \<noteq> 0 \<and> c \<noteq> dot) l"

lemma append_dot_inject:
  "plain_label x \<Longrightarrow> plain_label y \<Longrightarrow> x @ dot # r = y @ dot # s \<longleftrightarrow> x = y \<and> r = s"
proof (induction x arbitrary: y)
  case Nil
  then show ?case by (cases y) auto
next
  case (Cons a x)
  then show ?case by (cases y) auto
qed

lemma dotted_labels_split:
  assumes "plain ls" and "plain_label l"
  shows "dotted_labels ls = l @ dot # r \<longleftrightarrow> (\<exists>ls'. ls = l # ls' \<and> dotted_labels ls' = r)"
  using assms by (cases ls) (auto simp: append_dot_inject)

lemma dotted_labels_no_dot: "dotted_labels ls = l \<Longrightarrow> dot \<notin> set l \<Longrightarrow> ls = []"
  by (cases ls) auto

text \<open>A label read off a text: either the text has no dot, or it ends at its first dot.\<close>

lemma split_at_dot:
  obtains "dot \<notin> set s" | l r where "s = l @ dot # r" "dot \<notin> set l"
  by (meson split_list_first)

lemma plain_label_iff: "plain_label l \<longleftrightarrow> 0 \<notin> set l \<and> dot \<notin> set l"
  by (induction l) auto

lemma rd_of_drop: "drop j str = x # xs \<Longrightarrow> rd str j = Some x"
  by (metis drop_eq_Nil list.distinct(1) not_le nth_via_drop rd_Some)

lemma drop_Suc_of_drop: "drop j str = x # xs \<Longrightarrow> drop (Suc j) str = xs"
  by (metis drop_Suc list.sel(3) tl_drop)

lemma drop_add_of_drop: "drop j str = xs @ ys \<Longrightarrow> drop (j + length xs) str = ys"
  by (metis add.commute append_eq_conv_conj drop_drop)

text \<open>The inner loops copy a label that fits and stop with failure at one that does not.\<close>

lemma str2rhn_seg_fits:
  assumes "drop j str = l @ c # rest" and "c = 0 \<or> c = dot" and "plain_label l"
    and "l = [] \<or> j + length l \<le> jlim" and "jlim < length rhn"
  shows "str2rhn_seg str jlim j rhn = Some (True, j + length l, put rhn (j + 1) l)"
  using assms
proof (induction l arbitrary: j rhn)
  case Nil
  then show ?case by (simp add: str2rhn_seg.simps [of _ _ j] rd_of_drop)
next
  case (Cons a l)
  from Cons.prems have rd: "rd str j = Some a" and dr: "drop (Suc j) str = l @ c # rest"
    by (auto dest: rd_of_drop drop_Suc_of_drop)
  from Cons.prems have "put (put rhn (Suc j) [a]) (Suc (Suc j)) l = put rhn (Suc j) (a # l)"
    using put_put [of "Suc j" "[a]" l rhn] by simp
  with Cons.IH [OF dr, of "put rhn (Suc j) [a]"] Cons.prems rd show ?case
    by (simp add: str2rhn_seg.simps [of _ _ j] put_single)
qed

lemma str2rhn_seg_too_long:
  assumes "drop j str = l @ c # rest" and "plain_label l"
    and "l \<noteq> []" and "jlim < j + length l" and "jlim < length rhn"
  shows "ok (str2rhn_seg str jlim j rhn) (\<lambda>(b, _, rhn'). \<not> b \<and> length rhn' = length rhn)"
  using assms
proof (induction l arbitrary: j rhn)
  case (Cons a l)
  from Cons.prems have rd: "rd str j = Some a" and dr: "drop (Suc j) str = l @ c # rest"
    by (auto dest: rd_of_drop drop_Suc_of_drop)
  show ?case
  proof (cases "jlim \<le> j")
    case True
    with rd Cons.prems show ?thesis by (simp add: str2rhn_seg.simps [of _ _ j])
  next
    case False
    with Cons.prems have "l \<noteq> []" by auto
    with False Cons.IH [OF dr, of "rhn[Suc j := a]"] Cons.prems rd show ?thesis
      by (simp add: str2rhn_seg.simps [of _ _ j])
  qed
qed simp

text \<open>
  \<open>str2rhn_loop\<close> at index \<open>i\<close>, with \<open>s\<close> the text still to read: it succeeds exactly on
  the dotted notation of labels that fit, and then has stored them behind the labels read
  before.
\<close>

definition reads :: "nat \<Rightarrow> bytes \<Rightarrow> label list \<Rightarrow> bool" where
  "reads i s ls \<longleftrightarrow> s = dotted_labels ls \<and> plain ls \<and> list_all wf_label ls \<and> i + length s \<le> 255"

lemma reads_no_dot: "dot \<notin> set s \<Longrightarrow> reads i s ls \<longleftrightarrow> s = [] \<and> ls = [] \<and> i \<le> 255"
  by (cases ls) (auto simp: reads_def)

lemma reads_dot:
  "plain_label l \<Longrightarrow> reads i (l @ dot # s) ls \<longleftrightarrow>
     (\<exists>ls'. ls = l # ls' \<and> wf_label l \<and> reads (i + length l + 1) s ls')"
  by (auto simp: reads_def dotted_labels_split eq_commute [of "_ @ dot # _"])

lemma reads_bound: "reads i s ls \<Longrightarrow> i \<le> 255"
  by (simp add: reads_def)

lemma jlim_iff: "j + n \<le> str2rhn_jlim j \<longleftrightarrow> n \<le> 63 \<and> j + n \<le> 254"
  by (auto simp: str2rhn_jlim_def DNSNAMEBUFSIZE_def Let_def)

lemma str2rhn_loop_ok:
  assumes "drop i str = s @ 0 # rest" and "0 \<notin> set s" and "i \<le> 255" and "256 \<le> length rhn"
  shows "ok (str2rhn_loop str i rhn) (\<lambda>(r, rhn'). length rhn' = length rhn \<and>
    (r \<longleftrightarrow> \<not> (i = 0 \<and> s = []) \<and> (\<exists>ls. reads i s ls)) \<and>
    (\<forall>ls. r \<and> reads i s ls \<longrightarrow> take (i + length (wire ls)) rhn' = take i rhn @ wire ls))"
  using assms
proof (induction "length s" arbitrary: i s rhn rule: less_induct)
  case less
  note jb = str2rhn_jlim_bounds [of i]
  note unf = str2rhn_loop.simps [of str i rhn]
  show ?case
  proof (cases rule: split_at_dot [of s])
    case 1
    with less.prems have pl: "plain_label s" by (simp add: plain_label_iff)
    show ?thesis
    proof (cases "s = [] \<or> i + length s \<le> str2rhn_jlim i")
      case True
      from str2rhn_seg_fits [OF less.prems(1) _ pl True] less.prems jb
      have "str2rhn_seg str (str2rhn_jlim i) i rhn = Some (True, i + length s, put rhn (i + 1) s)"
        by simp
      moreover have "rd str (i + length s) = Some 0"
        using less.prems(1) by (metis drop_add_of_drop rd_of_drop)
      moreover have "length (put rhn (i + 1) s) = length rhn"
        using True less.prems jb by auto
      ultimately show ?thesis
        using less.prems 1 True by (auto simp: unf reads_no_dot ok_simps take_update_append)
    next
      case False
      with str2rhn_seg_too_long [OF less.prems(1) pl, of "str2rhn_jlim i" rhn] less.prems jb 1
      show ?thesis
        by (auto simp: unf ok_simps reads_no_dot split: prod.splits elim!: okE)
    qed
  next
    case (2 l r)
    with less.prems have pl: "plain_label l" and dr: "drop i str = l @ dot # r @ 0 # rest"
      by (simp_all add: plain_label_iff)
    have rd_dot: "rd str (i + length l) = Some dot"
      using dr by (metis drop_add_of_drop rd_of_drop)
    show ?thesis
    proof (cases "l \<noteq> [] \<and> \<not> i + length l \<le> str2rhn_jlim i")
      case True
      with str2rhn_seg_too_long [OF dr pl, of "str2rhn_jlim i" rhn] less.prems jb 2 pl
      show ?thesis
        by (auto simp: unf ok_simps reads_dot [OF pl] jlim_iff wf_label_def
            dest!: reads_bound split: prod.splits elim!: okE)
    next
      case False
      with str2rhn_seg_fits [OF dr _ pl, of "str2rhn_jlim i" rhn] less.prems jb
      have seg: "str2rhn_seg str (str2rhn_jlim i) i rhn = Some (True, i + length l, put rhn (i + 1) l)"
        by simp
      show ?thesis
      proof (cases "l = []")
        case True
        with seg rd_dot 2 show ?thesis
          by (simp add: unf reads_dot [of "[]", simplified] wf_label_def)
      next
        case nonempty: False
        let ?rhn = "put rhn i (of_nat (length l) # l)" and ?i = "i + length l + 1"
        from False nonempty jb have fits: "i + length l \<le> 254" and wf: "wf_label l"
          by (auto simp: wf_label_def jlim_iff)
        with less.prems put_put_before [of i "[of_nat (length l)]" "i + 1" l rhn]
        have wr: "wr (put rhn (i + 1) l) i (of_nat (length l)) = Some ?rhn"
          by (simp add: put_single)
        have "drop ?i str = r @ 0 # rest"
          using dr drop_add_of_drop [of i str "l @ [dot]" "r @ 0 # rest"] by (simp add: add.assoc)
        with less.hyps [of r ?i ?rhn] 2 less.prems fits
        have "ok (str2rhn_loop str ?i ?rhn) (\<lambda>(b, rhn'). length rhn' = length rhn \<and>
            (b \<longleftrightarrow> (\<exists>ls. reads ?i r ls)) \<and>
            (\<forall>ls. b \<and> reads ?i r ls \<longrightarrow> take (?i + length (wire ls)) rhn' = take ?i ?rhn @ wire ls))"
          by simp
        moreover have "take ?i ?rhn = take i rhn @ of_nat (length l) # l"
          using take_put_end [of i rhn "of_nat (length l) # l"] less.prems by simp
        moreover have rds: "reads i s ls \<longleftrightarrow> (\<exists>ls'. ls = l # ls' \<and> reads ?i r ls')" for ls
          using 2(1) wf by (simp add: reads_dot [OF pl])
        then have "(\<exists>ls. reads i s ls) \<longleftrightarrow> (\<exists>ls. reads ?i r ls)" by blast
        moreover have "s \<noteq> []" using 2(1) by simp
        ultimately have "ok (str2rhn_loop str ?i ?rhn) (\<lambda>(b, rhn'). length rhn' = length rhn \<and>
            (b \<longleftrightarrow> \<not> (i = 0 \<and> s = []) \<and> (\<exists>ls. reads i s ls)) \<and>
            (\<forall>ls. b \<and> reads i s ls \<longrightarrow> take (i + length (wire ls)) rhn' = take i rhn @ wire ls))"
          using \<open>s \<noteq> []\<close> by (elim ok_mono) (auto simp: rds add.assoc)
        then show ?thesis
          using seg rd_dot nonempty wr by (simp add: unf)
      qed
    qed
  qed
qed

text \<open>
  \<open>str2rhn\<close> on a C string: it never leaves the string or the buffer, and it succeeds exactly
  on the dotted notation (with the final dot) of the names that fit the buffer.
\<close>

lemma dotted_root: "s = [dot] \<Longrightarrow> plain ls \<Longrightarrow> list_all wf_label ls \<Longrightarrow> s = dotted ls \<longleftrightarrow> ls = []"
  by (cases ls) (auto simp: dotted_def wf_label_def Cons_eq_append_conv)

lemma reads_0_iff: "s \<noteq> [] \<Longrightarrow> s \<noteq> [dot] \<Longrightarrow> reads 0 s ls \<longleftrightarrow> s = dotted ls \<and> plain ls \<and> wf_name ls"
  using length_dotted_labels [of ls]
  by (auto simp: reads_def dotted_def wf_name_def DNSNAMEBUFSIZE_def)

lemma str2rhn_ok:
  assumes "0 \<notin> set s" and "256 \<le> length rhn"
  shows "ok (str2rhn (s @ 0 # rest) rhn) (\<lambda>(r, rhn'). length rhn' = length rhn \<and>
    (r \<longleftrightarrow> (\<exists>ls. s = dotted ls \<and> plain ls \<and> wf_name ls)) \<and>
    (\<forall>ls. s = dotted ls \<and> plain ls \<and> wf_name ls \<longrightarrow> take (length (wire ls)) rhn' = wire ls))"
proof -
  consider "s = []" | "s = [dot]" | "s \<noteq> []" "s \<noteq> [dot]" by blast
  then show ?thesis
  proof cases
    case 1
    then show ?thesis
      using str2rhn_loop_ok [of 0 "s @ 0 # rest" s rest rhn] assms
      by (auto simp: str2rhn_def dotted_def neq_Nil_conv elim!: ok_mono)
  next
    case 2
    then have root: "s = dotted ls \<and> plain ls \<and> wf_name ls \<longleftrightarrow> ls = []" for ls
      using dotted_root [of s ls] by (auto simp: wf_name_def DNSNAMEBUFSIZE_def dotted_def)
    show ?thesis
      unfolding root using assms 2
      by (cases rhn) (auto simp: str2rhn_def ok_simps)
  next
    case 3
    have "str2rhn (s @ 0 # rest) rhn = str2rhn_loop (s @ 0 # rest) 0 rhn"
      using 3 assms by (cases s rule: remdups_adj.cases) (auto simp: str2rhn_def)
    then show ?thesis
      using str2rhn_loop_ok [of 0 "s @ 0 # rest" s rest rhn] assms 3 reads_0_iff [of s]
      by (auto elim!: ok_mono)
  qed
qed

text \<open>
  \<open>parsestr2rhn\<close>. Its text ends at a zero byte or after \<open>len\<close> characters, and the final dot
  may be missing.
\<close>

definition text_end :: "nat \<Rightarrow> nat \<Rightarrow> bytes \<Rightarrow> bool" where
  "text_end len j rest \<longleftrightarrow> j = len \<or> (j < len \<and> (\<exists>t. rest = 0 # t))"

lemma parse_live_end: "drop j str = rest \<Longrightarrow> text_end len j rest \<Longrightarrow> parse_live str len j = Some False"
  by (auto simp: parse_live_def text_end_def dest: rd_of_drop)

lemma parsestr2rhn_seg_fits:
  assumes "drop j str = l @ rest" and "plain_label l"
    and "text_end len (j + length l) rest \<or> (j + length l < len \<and> (\<exists>t. rest = dot # t))"
    and "l = [] \<or> j + length l \<le> jlim" and "jlim < length rhn"
  shows "parsestr2rhn_seg str len jlim j rhn = Some (True, j + length l, put rhn (j + 1) l)"
  using assms
proof (induction l arbitrary: j rhn)
  case Nil
  then show ?case
    by (auto simp: parsestr2rhn_seg.simps [of _ _ _ j] text_end_def rd_of_drop)
next
  case (Cons a l)
  from Cons.prems have rd: "rd str j = Some a" and dr: "drop (Suc j) str = l @ rest"
    and len: "j < len"
    by (auto dest: rd_of_drop drop_Suc_of_drop simp: text_end_def)
  from Cons.prems have "put (put rhn (Suc j) [a]) (Suc (Suc j)) l = put rhn (Suc j) (a # l)"
    using put_put [of "Suc j" "[a]" l rhn] by simp
  with Cons.IH [OF dr, of "put rhn (Suc j) [a]"] Cons.prems rd len show ?case
    by (simp add: parsestr2rhn_seg.simps [of _ _ _ j] put_single)
qed

lemma parsestr2rhn_seg_too_long:
  assumes "drop j str = l @ rest" and "plain_label l" and "j + length l \<le> len"
    and "l \<noteq> []" and "jlim < j + length l" and "jlim < length rhn"
  shows "ok (parsestr2rhn_seg str len jlim j rhn) (\<lambda>(b, _, rhn'). \<not> b \<and> length rhn' = length rhn)"
  using assms
proof (induction l arbitrary: j rhn)
  case (Cons a l)
  from Cons.prems have rd: "rd str j = Some a" and dr: "drop (Suc j) str = l @ rest"
    by (auto dest: rd_of_drop drop_Suc_of_drop)
  show ?case
  proof (cases "jlim \<le> j")
    case True
    with rd Cons.prems show ?thesis by (simp add: parsestr2rhn_seg.simps [of _ _ _ j])
  next
    case False
    with Cons.prems have "l \<noteq> []" by auto
    with False Cons.IH [OF dr, of "rhn[Suc j := a]"] Cons.prems rd show ?thesis
      by (simp add: parsestr2rhn_seg.simps [of _ _ _ j])
  qed
qed simp

definition parses :: "nat \<Rightarrow> bytes \<Rightarrow> label list \<Rightarrow> bool" where
  "parses i s ls \<longleftrightarrow> (s = dotted_labels ls \<or> (s \<noteq> [] \<and> s @ [dot] = dotted_labels ls)) \<and>
     plain ls \<and> list_all wf_label ls \<and> i + length (dotted_labels ls) \<le> 255"

lemma parses_Nil: "parses i [] ls \<longleftrightarrow> ls = [] \<and> i \<le> 255"
  by (cases ls) (auto simp: parses_def)

lemma dotted_labels_Nil_iff [simp]:
  "dotted_labels ls = [] \<longleftrightarrow> ls = []" "[] = dotted_labels ls \<longleftrightarrow> ls = []"
  by (cases ls; simp)+

lemma dotted_labels_dot: "list_all wf_label ls \<Longrightarrow> dotted_labels ls \<noteq> [dot]"
  by (cases ls) (auto simp: wf_label_def append_eq_Cons_conv)

lemma parses_no_dot:
  assumes "s \<noteq> []" and "plain_label s"
  shows "parses i s ls \<longleftrightarrow> ls = [s] \<and> wf_label s \<and> i + length s \<le> 254"
proof -
  from assms(2) have nodot: "dot \<notin> set s" by (simp add: plain_label_iff)
  then have "s \<noteq> dotted_labels ls"
    using assms(1) dotted_labels_no_dot [of ls s] by auto
  moreover have "plain ls \<Longrightarrow> dotted_labels ls = s @ [dot] \<longleftrightarrow> ls = [s]"
    using dotted_labels_split [of ls s "[]"] assms(2) by auto
  ultimately show ?thesis
    using assms by (auto simp: parses_def)
qed

lemma parses_dot:
  assumes "plain_label l"
  shows "parses i (l @ dot # s) ls \<longleftrightarrow>
     (\<exists>ls'. ls = l # ls' \<and> wf_label l \<and> parses (i + length l + 1) s ls')"
proof (cases ls)
  case Nil
  then show ?thesis by (simp add: parses_def)
next
  case (Cons l' ls')
  show ?thesis
  proof (cases "plain_label l'")
    case False
    with Cons assms show ?thesis by (auto simp: parses_def)
  next
    case True
    note inj = append_dot_inject [OF assms True]
    have nodot: "list_all wf_label ls' \<Longrightarrow> [dot] \<noteq> dotted_labels ls'"
      using dotted_labels_dot [of ls'] by auto
    show ?thesis
      unfolding parses_def Cons using nodot assms by (cases "s = []") (auto simp: inj)
  qed
qed

lemma parses_bound: "parses i s ls \<Longrightarrow> i \<le> 255"
  by (auto simp: parses_def)

text \<open>The outcome of reading the text \<open>s\<close> at index \<open>i\<close>: an error, or the name in the buffer.\<close>

definition parse_post ::
  "nat \<Rightarrow> bytes \<Rightarrow> bytes \<Rightarrow> string option \<times> bytes \<Rightarrow> bool" where
  "parse_post i s rhn = (\<lambda>(err, rhn'). length rhn' = length rhn \<and>
    (err = None \<longleftrightarrow> \<not> (i = 0 \<and> s = []) \<and> (\<exists>ls. parses i s ls)) \<and>
    (\<forall>ls. err = None \<and> parses i s ls \<longrightarrow> take (i + length (wire ls)) rhn' = take i rhn @ wire ls))"

lemma parse_post_error:
  "\<nexists>ls. parses i s ls \<Longrightarrow> length rhn' = length rhn \<Longrightarrow> parse_post i s rhn (Some e, rhn')"
  by (auto simp: parse_post_def)

lemma parse_post_step:
  assumes "plain_label l" and "wf_label l" and "i + length l \<le> 254" and "256 \<le> length rhn"
    and "ok m (parse_post (i + length l + 1) r (put rhn i (of_nat (length l) # l)))"
  shows "ok m (parse_post i (l @ dot # r) rhn)"
proof -
  let ?rhn = "put rhn i (of_nat (length l) # l)" and ?i = "i + length l + 1"
  have "take ?i ?rhn = take i rhn @ of_nat (length l) # l"
    using take_put_end [of i rhn "of_nat (length l) # l"] assms by simp
  moreover have rds: "parses i (l @ dot # r) ls \<longleftrightarrow> (\<exists>ls'. ls = l # ls' \<and> parses ?i r ls')" for ls
    using assms by (simp add: parses_dot)
  then have "(\<exists>ls. parses i (l @ dot # r) ls) \<longleftrightarrow> (\<exists>ls. parses ?i r ls)" by blast
  ultimately show ?thesis
    using assms by (auto simp: parse_post_def rds add.assoc elim!: ok_mono)
qed

lemma wr_label:
  assumes "i + 1 + length l \<le> length rhn"
  shows "wr (put rhn (i + 1) l) i c = Some (put rhn i (c # l))"
  using assms put_put_before [of i "[c]" "i + 1" l rhn] by (simp add: put_single)

lemma parsestr2rhn_loop_ok:
  assumes "drop i str = s @ rest" and "text_end len (i + length s) rest"
    and "0 \<notin> set s" and "i \<le> 255" and "256 \<le> length rhn"
  shows "ok (parsestr2rhn_loop str len i rhn) (parse_post i s rhn)"
  using assms
proof (induction "length s" arbitrary: i s rhn rule: less_induct)
  case less
  note jb = str2rhn_jlim_bounds [of i]
  note unf = parsestr2rhn_loop.simps [of str len i rhn]
  note seg = parsestr2rhn_seg_fits [of i str _ _ len "str2rhn_jlim i" rhn]
    and long = parsestr2rhn_seg_too_long [of i str _ _ len "str2rhn_jlim i" rhn]
  show ?case
  proof (cases rule: split_at_dot [of s])
    case 1
    with less.prems have pl: "plain_label s" by (simp add: plain_label_iff)
    have live: "parse_live str len (i + length s) = Some False"
      using less.prems drop_add_of_drop parse_live_end by blast
    consider "s = []" | "s \<noteq> []" "i + length s \<le> str2rhn_jlim i" | "s \<noteq> []" "str2rhn_jlim i < i + length s"
      by linarith
    then show ?thesis
    proof cases
      case 1
      with less.prems jb live seg [OF less.prems(1) pl] show ?thesis
        by (auto simp: unf ok_simps parsestr2rhn_finish_def parse_post_def parses_Nil take_update_append)
    next
      case 2
      then have bound: "length s \<le> 63" "i + length s \<le> 254" by (auto simp: jlim_iff)
      have "take (Suc (i + length s)) (put rhn i (of_nat (length s) # s)) = take i rhn @ of_nat (length s) # s"
        using take_put_end [of i rhn "of_nat (length s) # s"] less.prems by simp
      with 2 bound less.prems jb live seg [OF less.prems(1) pl] wr_label [of i s rhn] show ?thesis
        by (simp add: unf ok_simps parsestr2rhn_finish_def parse_post_def parses_no_dot [OF _ pl]
            wf_label_def take_Suc_conv_app_nth)
    next
      case 3
      then have "\<nexists>ls. parses i s ls"
        using jlim_iff [of i "length s"] by (auto simp: parses_no_dot [OF _ pl] wf_label_def)
      with 3 less.prems jb long [OF less.prems(1) pl] show ?thesis
        by (auto simp: unf ok_simps parse_post_error text_end_def split: prod.splits elim!: okE)
    qed
  next
    case (2 l r)
    with less.prems have pl: "plain_label l" and dr: "drop i str = l @ dot # r @ rest"
      by (simp_all add: plain_label_iff)
    from 2 less.prems have len: "i + length l < len"
      by (auto simp: text_end_def)
    have live: "parse_live str len (i + length l) = Some True"
      using dr len rd_of_drop [OF drop_add_of_drop [OF dr]] by (simp add: parse_live_def)
    consider "l = []" | "l \<noteq> []" "i + length l \<le> str2rhn_jlim i" | "l \<noteq> []" "str2rhn_jlim i < i + length l"
      by linarith
    then show ?thesis
    proof cases
      case 1
      then have "\<nexists>ls. parses i s ls" using parses_dot [OF pl] unfolding 2(1) by (simp add: wf_label_def)
      with 1 less.prems jb live len seg [OF dr pl] show ?thesis
        by (simp add: unf ok_simps parse_post_error)
    next
      case fits: 2
      then have bound: "wf_label l" "i + length l \<le> 254" by (auto simp: jlim_iff wf_label_def)
      let ?rhn = "put rhn i (of_nat (length l) # l)" and ?i = "i + length l + 1"
      have "drop ?i str = r @ rest"
        using dr drop_add_of_drop [of i str "l @ [dot]" "r @ rest"] by (simp add: add.assoc)
      with less.hyps [of r ?i ?rhn] 2 less.prems bound
      have "ok (parsestr2rhn_loop str len ?i ?rhn) (parse_post ?i r ?rhn)"
        by (simp add: add.assoc)
      then have "ok (parsestr2rhn_loop str len ?i ?rhn) (parse_post i s rhn)"
        using parse_post_step [OF pl] bound less.prems 2 by simp
      with fits live len less.prems jb bound seg [OF dr pl] wr_label [of i l rhn] show ?thesis
        by (simp add: unf)
    next
      case 3
      then have "\<nexists>ls. parses i s ls"
        using 2 pl jlim_iff [of i "length l"] by (auto simp: parses_dot wf_label_def dest!: parses_bound)
      with 3 less.prems jb len long [OF dr pl] show ?thesis
        by (auto simp: unf ok_simps parse_post_error split: prod.splits elim!: okE)
    qed
  qed
qed

text \<open>The texts \<open>parsestr2rhn\<close> accepts for a name: dotted notation, with or without the final dot.\<close>

definition text_of :: "bytes \<Rightarrow> label list \<Rightarrow> bool" where
  "text_of s ls \<longleftrightarrow> (s = dotted ls \<or> (ls \<noteq> [] \<and> s @ [dot] = dotted ls)) \<and> plain ls \<and> wf_name ls"

lemma text_of_Nil: "\<not> text_of [] ls"
  using dotted_labels_dot [of ls] by (auto simp: text_of_def dotted_def wf_name_def)

lemma text_of_root: "text_of [dot] ls \<longleftrightarrow> ls = []"
proof
  assume t: "text_of [dot] ls"
  show "ls = []"
  proof (rule ccontr)
    assume "ls \<noteq> []"
    with t have wf: "list_all wf_label ls" and "[dot] = dotted_labels ls \<or> [dot, dot] = dotted_labels ls"
      by (auto simp: text_of_def dotted_def wf_name_def)
    with dotted_labels_dot have "[dot, dot] = dotted_labels ls" by metis
    with wf t \<open>ls \<noteq> []\<close> show False
      by (cases ls) (auto simp: wf_label_def text_of_def Cons_eq_append_conv)
  qed
qed (simp add: text_of_def dotted_def)

lemma parses_0_iff: "s \<noteq> [] \<Longrightarrow> s \<noteq> [dot] \<Longrightarrow> parses 0 s ls \<longleftrightarrow> text_of s ls"
  using length_dotted_labels [of ls]
  by (auto simp: parses_def text_of_def dotted_def wf_name_def DNSNAMEBUFSIZE_def)

lemma parsestr2rhn_ok:
  assumes "text_end len (length s) rest" and "0 \<notin> set s" and "256 \<le> length rhn"
  shows "ok (parsestr2rhn (s @ rest) len rhn) (\<lambda>(err, rhn'). length rhn' = length rhn \<and>
    (err = None \<longleftrightarrow> (\<exists>ls. text_of s ls)) \<and>
    (\<forall>ls. text_of s ls \<longrightarrow> take (length (wire ls)) rhn' = wire ls))"
proof (cases "s = [dot]")
  case True
  with assms have "len = 1 \<or> (1 < len \<and> (\<exists>t. rest = 0 # t))" by (auto simp: text_end_def)
  with True assms show ?thesis
    by (cases rhn) (auto simp: parsestr2rhn_def ok_simps text_of_root)
next
  case False
  have loop: "parsestr2rhn (s @ rest) len rhn = parsestr2rhn_loop (s @ rest) len 0 rhn"
    using False assms
    by (cases s rule: remdups_adj.cases) (auto simp: parsestr2rhn_def text_end_def)
  have "ok (parsestr2rhn_loop (s @ rest) len 0 rhn) (parse_post 0 s rhn)"
    using assms by (intro parsestr2rhn_loop_ok) auto
  then show ?thesis
    unfolding loop using False parses_0_iff [of s]
    by (cases "s = []") (auto simp: parse_post_def text_of_Nil elim!: ok_mono)
qed

section \<open>To text\<close>

text \<open>
  \<^verbatim>\<open>snprintf(buf+pos,n,...)\<close> of the text \<open>out\<close>: at most \<open>n - 1\<close> characters and a zero
  byte are stored; the call returns the length of \<open>out\<close>.
\<close>

definition snprintf :: "bytes \<Rightarrow> nat \<Rightarrow> nat \<Rightarrow> bytes \<Rightarrow> bytes option" where
  "snprintf buf pos n out =
     (if n = 0 then Some buf
      else let txt = take (n - 1) out @ [0] in
        if pos + length txt \<le> length buf then Some (put buf pos txt) else None)"

text \<open>The format \<^verbatim>\<open>"\\%03o"\<close>.\<close>

definition octal_escape :: "byte \<Rightarrow> bytes" where
  "octal_escape c = [92, 48 + c div 64, 48 + (c div 8) mod 8, 48 + c mod 8]"

fun rhn2str_seg ::
  "bytes \<Rightarrow> nat \<Rightarrow> nat \<Rightarrow> nat \<Rightarrow> nat \<Rightarrow> bytes \<Rightarrow> (bool \<times> nat \<times> bytes) option" where
  "rhn2str_seg rhn sz 0 i j str = Some (False, j, str)"
| "rhn2str_seg rhn sz (Suc lb) i j str =
     (if j + 2 \<ge> sz then Some (True, j, str)
      else do {
        c \<leftarrow> rd rhn i;
        if isgraph c then
          (if c = dot \<or> c = 92 \<or> c = 34 then do {
             str \<leftarrow> wr str j 92;
             if j + 1 + 2 \<ge> sz then Some (True, j + 1, str)
             else do {
               str \<leftarrow> wr str (j + 1) c;
               rhn2str_seg rhn sz lb (i + 1) (j + 2) str } }
           else do {
             str \<leftarrow> wr str j c;
             rhn2str_seg rhn sz lb (i + 1) (j + 1) str })
        else do {
          str \<leftarrow> snprintf str j (sz - 1 - j) (octal_escape c);
          if length (octal_escape c) \<ge> sz - 1 - j then do {
            str \<leftarrow> wr str j dot;
            Some (True, j + 1, str) }
          else rhn2str_seg rhn sz lb (i + 1) (j + length (octal_escape c)) str } })"

definition rhn2str_overflow :: "nat \<Rightarrow> bytes \<Rightarrow> bytes option" where
  "rhn2str_overflow sz str = do {
     str \<leftarrow> wr str (sz - 1) 0;
     if sz - 1 > 0 then do {
       str \<leftarrow> wr str (sz - 2) dot;
       if sz - 2 > 0 then do {
         str \<leftarrow> wr str (sz - 3) dot;
         if sz - 3 > 0 then wr str (sz - 4) dot else Some str }
       else Some str }
     else Some str }"

function rhn2str_loop :: "bytes \<Rightarrow> nat \<Rightarrow> nat \<Rightarrow> byte \<Rightarrow> nat \<Rightarrow> bytes \<Rightarrow> bytes option" where
  "rhn2str_loop rhn sz i lb j str = do {
     (ovf, j, str) \<leftarrow> rhn2str_seg rhn sz (unat lb) i j str;
     if ovf then rhn2str_overflow sz str
     else do {
       str \<leftarrow> wr str j dot;
       lb' \<leftarrow> rd rhn (i + unat lb);
       if lb' = 0 then wr str (j + 1) 0
       else rhn2str_loop rhn sz (i + unat lb + 1) lb' (j + 1) str } }"
  by pat_completeness auto
termination
  by (relation "measure (\<lambda>(rhn, sz, i, lb, j, str). length rhn - i)") (auto simp: rd_eq_Some_iff)

declare rhn2str_loop.simps [simp del]

text \<open>\<open>None\<close> inside the result is the null pointer returned for a buffer of size 0.\<close>

definition rhn2str :: "bytes \<Rightarrow> bytes \<Rightarrow> nat \<Rightarrow> bytes option option" where
  "rhn2str rhn str sz =
     (if sz = 0 then Some None
      else do {
        lb \<leftarrow> rd rhn 0;
        if lb = 0 then
          (if sz \<ge> 2 then do {
             str \<leftarrow> wr str 0 dot;
             str \<leftarrow> wr str 1 0;
             Some (Some str) }
           else do {
             str \<leftarrow> wr str 0 0;
             Some (Some str) })
        else do {
          str \<leftarrow> rhn2str_loop rhn sz 1 lb 0 str;
          Some (Some str) } })"

text \<open>\<open>escapestr\<close>; \<open>None\<close> inside the result is the return value -1.\<close>

fun escapestr_loop :: "bytes \<Rightarrow> nat \<Rightarrow> nat \<Rightarrow> bytes \<Rightarrow> (nat option \<times> bytes) option" where
  "escapestr_loop [] sz j str = do {
     str \<leftarrow> wr str j 0;
     Some (Some j, str) }"
| "escapestr_loop (c # cs) sz j str =
     (if j + 1 \<ge> sz then Some (None, str)
      else if \<not> isprint c then do {
        str \<leftarrow> snprintf str j (sz - j) (octal_escape c);
        if length (octal_escape c) \<ge> sz - j then Some (None, str)
        else escapestr_loop cs sz (j + length (octal_escape c)) str }
      else if c = 92 \<or> c = 34 then do {
        str \<leftarrow> wr str j 92;
        if j + 1 + 1 \<ge> sz then Some (None, str)
        else do {
          str \<leftarrow> wr str (j + 1) c;
          escapestr_loop cs sz (j + 2) str } }
      else do {
        str \<leftarrow> wr str j c;
        escapestr_loop cs sz (j + 1) str })"

definition escapestr :: "bytes \<Rightarrow> nat \<Rightarrow> bytes \<Rightarrow> nat \<Rightarrow> (nat option \<times> bytes) option" where
  "escapestr inp ilen str sz =
     (if ilen \<le> length inp then escapestr_loop (take ilen inp) sz 0 str else None)"

subsection \<open>Printing stays inside the buffer\<close>

lemma ok_snprintf [ok_simps]:
  "ok (snprintf buf pos n out) P \<longleftrightarrow>
     (if n = 0 then P buf
      else pos + length (take (n - 1) out) + 1 \<le> length buf \<and> P (put buf pos (take (n - 1) out @ [0])))"
  by (simp add: snprintf_def Let_def)

lemma length_octal_escape [simp]: "length (octal_escape c) = 4"
  by (simp add: octal_escape_def)

text \<open>A region that holds a C string of less than \<open>n\<close> characters.\<close>

definition terminated :: "nat \<Rightarrow> bytes \<Rightarrow> bool" where
  "terminated n str \<longleftrightarrow> (\<exists>k<n. k < length str \<and> str ! k = 0)"

lemma rhn2str_seg_safe:
  "i + lb \<le> length rhn \<Longrightarrow> sz \<le> length str \<Longrightarrow>
   ok (rhn2str_seg rhn sz lb i j str) (\<lambda>(ovf, j', str').
     length str' = length str \<and> (\<not> ovf \<longrightarrow> (lb = 0 \<and> j' = j) \<or> Suc (Suc j') \<le> sz))"
proof (induction lb arbitrary: i j str)
  case (Suc lb)
  have IH: "ok (rhn2str_seg rhn sz lb (Suc i) j' str') (\<lambda>(ovf, j', str').
        length str' = length str \<and> (\<not> ovf \<longrightarrow> Suc (Suc j') \<le> sz))"
    if "Suc (Suc j') \<le> sz" and "length str' = length str" for j' str'
    using Suc.IH [of "Suc i" str' j'] Suc.prems that by (auto elim!: ok_mono)
  show ?case
    using Suc.prems by (auto simp: ok_simps intro!: IH)
qed simp

lemma rhn2str_overflow_safe:
  assumes "0 < sz" and "sz \<le> length str"
  shows "ok (rhn2str_overflow sz str) (\<lambda>str'. length str' = length str \<and> terminated sz str')"
proof -
  have t: "length str' = length str \<Longrightarrow> str' ! (sz - 1) = 0 \<Longrightarrow> terminated sz str'" for str'
    using assms unfolding terminated_def by (intro exI [of _ "sz - 1"]) auto
  have "str \<noteq> []" using assms by auto
  then show ?thesis
    unfolding rhn2str_overflow_def using assms by (auto simp: ok_simps intro!: t)
qed

lemma terminated_update: "k < n \<Longrightarrow> k < length str \<Longrightarrow> terminated n (str[k := 0])"
  by (auto simp: terminated_def)

lemma rhn2str_loop_safe:
  assumes "drop i rhn = l @ wire ls @ rest" and "list_all wf_label (l # ls)"
    and "0 < sz" and "sz \<le> length str"
  shows "ok (rhn2str_loop rhn sz i (of_nat (length l)) j str)
    (\<lambda>str'. length str' = length str \<and> terminated sz str')"
  using assms
proof (induction ls arbitrary: l i j str)
  case Nil
  have rd: "rd rhn (i + length l) = Some 0"
    using Nil.prems(1) drop_add_of_drop [of i rhn l] rd_of_drop by fastforce
  then have "i + length l \<le> length rhn" by (simp add: rd_eq_Some_iff)
  with rhn2str_seg_safe [of i "length l" rhn sz str j] Nil.prems
  obtain ovf j' str' where "rhn2str_seg rhn sz (length l) i j str = Some (ovf, j', str')"
    "length str' = length str" "\<not> ovf \<Longrightarrow> Suc (Suc j') \<le> sz"
    by (auto simp: wf_label_def elim!: okE)
  with rd Nil.prems rhn2str_overflow_safe [of sz str'] show ?case
    by (auto simp: rhn2str_loop.simps [of rhn sz i] wf_label_unat ok_simps terminated_update)
next
  case (Cons l' ls)
  have rd: "rd rhn (i + length l) = Some (of_nat (length l'))"
    and dr: "drop (Suc (i + length l)) rhn = l' @ wire ls @ rest"
    using Cons.prems(1) drop_add_of_drop [of i rhn l] rd_of_drop drop_Suc_of_drop by fastforce+
  then have "i + length l \<le> length rhn" by (simp add: rd_eq_Some_iff)
  with rhn2str_seg_safe [of i "length l" rhn sz str j] Cons.prems
  obtain ovf j' str' where "rhn2str_seg rhn sz (length l) i j str = Some (ovf, j', str')"
    "length str' = length str" "\<not> ovf \<Longrightarrow> Suc (Suc j') \<le> sz"
    by (auto simp: wf_label_def elim!: okE)
  with rd Cons.prems rhn2str_overflow_safe [of sz str'] Cons.IH [OF dr, of "str'[j' := dot]" "Suc j'"]
  show ?case
    by (auto simp: rhn2str_loop.simps [of rhn sz i] wf_label_unat wf_label_nz ok_simps)
qed

lemma rhn2str_safe:
  assumes "list_all wf_label ls" and "0 < sz" and "sz \<le> length str"
  shows "ok (rhn2str (wire ls @ rest) str sz) (\<lambda>res. \<exists>str'. res = Some str' \<and>
    length str' = length str \<and> terminated sz str')"
proof (cases ls)
  case Nil
  moreover have "str \<noteq> []" using assms by auto
  ultimately show ?thesis
    using assms by (auto simp: rhn2str_def ok_simps terminated_update)
next
  case (Cons l ls')
  with assms rhn2str_loop_safe [of 1 "wire ls @ rest" l ls' rest sz str 0] show ?thesis
    by (auto simp: rhn2str_def ok_simps wf_label_nz elim!: ok_mono)
qed

subsection \<open>Printing and reading back\<close>

text \<open>Labels of visible characters that need no escape are printed as they are.\<close>

definition visible :: "label list \<Rightarrow> bool" where
  "visible ls \<longleftrightarrow> list_all (list_all (\<lambda>c. isgraph c \<and> c \<noteq> dot \<and> c \<noteq> 92 \<and> c \<noteq> 34)) ls"

lemma visible_plain: "visible ls \<Longrightarrow> plain ls"
  by (fastforce simp: visible_def plain_def isgraph_def list_all_iff)

lemma rhn2str_seg_visible:
  assumes "drop i rhn = l @ rest" and "visible [l]" and "j + length l + 1 < sz" and "sz \<le> length str"
  shows "rhn2str_seg rhn sz (length l) i j str = Some (False, j + length l, put str j l)"
  using assms
proof (induction l arbitrary: i j str)
  case (Cons c l)
  then have "rd rhn i = Some c" and dr: "drop (Suc i) rhn = l @ rest"
    by (auto dest: rd_of_drop drop_Suc_of_drop)
  with Cons.prems Cons.IH [OF dr, of "Suc j" "put str j [c]"] put_put [of j "[c]" l str]
  show ?case by (auto simp: visible_def put_single)
qed simp

lemma rhn2str_loop_visible:
  assumes "drop i rhn = l @ wire ls @ rest" and "list_all wf_label (l # ls)" and "visible (l # ls)"
    and "j + length (dotted_labels (l # ls)) < sz" and "sz \<le> length str"
  shows "rhn2str_loop rhn sz i (of_nat (length l)) j str =
    Some (put str j (dotted_labels (l # ls) @ [0]))"
  using assms
proof (induction ls arbitrary: l i j str)
  case Nil
  have "rd rhn (i + length l) = Some 0"
    using Nil.prems(1) drop_add_of_drop [of i rhn l] rd_of_drop by fastforce
  with Nil.prems rhn2str_seg_visible [of i rhn l "wire [] @ rest" j sz str]
    put_put [of j l "[dot]" str] put_put [of j "l @ [dot]" "[0]" str]
  show ?case
    by (simp add: rhn2str_loop.simps [of rhn sz i] wf_label_unat put_single visible_def)
next
  case (Cons l' ls)
  let ?j = "j + length l + 1"
  have "rd rhn (i + length l) = Some (of_nat (length l'))"
    and dr: "drop (Suc (i + length l)) rhn = l' @ wire ls @ rest"
    using Cons.prems(1) drop_add_of_drop [of i rhn l] rd_of_drop drop_Suc_of_drop by fastforce+
  with Cons.prems rhn2str_seg_visible [of i rhn l "wire (l' # ls) @ rest" j sz str]
    Cons.IH [OF dr, of ?j "put str j (l @ [dot])"] put_put [of j l "[dot]" str]
    put_put [of j "l @ [dot]" "dotted_labels (l' # ls) @ [0]" str]
  show ?case
    by (simp add: rhn2str_loop.simps [of rhn sz i] wf_label_unat wf_label_nz put_single visible_def)
qed

lemma rhn2str_visible:
  assumes "list_all wf_label ls" and "visible ls" and "length (dotted ls) < sz" and "sz \<le> length str"
  shows "rhn2str (wire ls @ rest) str sz = Some (Some (put str 0 (dotted ls @ [0])))"
proof (cases ls)
  case Nil
  moreover have "str \<noteq> []" using assms by auto
  ultimately show ?thesis
    using assms put_put [of 0 "[dot]" "[0]" str] by (auto simp: rhn2str_def dotted_def put_single)
next
  case (Cons l ls')
  with assms rhn2str_loop_visible [of 1 "wire ls @ rest" l ls' rest 0 sz str] show ?thesis
    by (auto simp: rhn2str_def wf_label_nz dotted_def)
qed

lemma plain_dotted_no_NUL: "plain ls \<Longrightarrow> 0 \<notin> set (dotted ls)"
proof -
  have "plain ls \<Longrightarrow> 0 \<notin> set (dotted_labels ls)"
    by (induction ls) (auto simp: list_all_iff)
  then show "plain ls \<Longrightarrow> 0 \<notin> set (dotted ls)" by (simp add: dotted_def)
qed

section \<open>Properties\<close>

text \<open>
  C18. \<open>str2rhn\<close> on any NUL-terminated string: it stays inside the string and a name buffer,
  it accepts exactly the dotted notations, with the final dot, of well-formed names (labels
  of 1 to 63 bytes, 256 bytes in all), and then the buffer holds that name.
\<close>

theorem str2rhn_accepts:
  assumes "0 \<notin> set s" and "DNSNAMEBUFSIZE \<le> length rhn"
  shows "ok (str2rhn (s @ 0 # rest) rhn) (\<lambda>(r, rhn'). length rhn' = length rhn \<and>
    (r \<longleftrightarrow> (\<exists>ls. s = dotted ls \<and> plain ls \<and> wf_name ls)) \<and>
    (\<forall>ls. s = dotted ls \<and> plain ls \<and> wf_name ls \<longrightarrow> take (length (wire ls)) rhn' = wire ls))"
  using assms by (intro str2rhn_ok) (simp_all add: DNSNAMEBUFSIZE_def)

theorem str2rhn_accepts_witness:
  "ok (str2rhn ([97, 46] @ 0 # []) (replicate 256 0)) (\<lambda>(r, rhn'). r)"
proof -
  have ex: "\<exists>ls. [97, 46] = dotted ls \<and> plain ls \<and> wf_name ls"
    by (intro exI [of _ "[[97]]"])
      (simp add: plain_def wf_name_def wf_label_def DNSNAMEBUFSIZE_def dotted_def)
  show ?thesis
    by (rule ok_mono [OF str2rhn_accepts [of "[97, 46]" "replicate 256 0" "[]"]])
      (use ex in \<open>auto simp: DNSNAMEBUFSIZE_def\<close>)
qed

text \<open>
  C19. \<open>parsestr2rhn\<close> on the first \<open>len\<close> characters of a string (or up to its NUL): it
  stays inside them and the buffer, it reports an error exactly if they are not the dotted
  notation of a well-formed name, with or without the final dot, and otherwise it stores
  that name.
\<close>

theorem parsestr2rhn_accepts:
  assumes "text_end len (length s) rest" and "0 \<notin> set s" and "DNSNAMEBUFSIZE \<le> length rhn"
  shows "ok (parsestr2rhn (s @ rest) len rhn) (\<lambda>(err, rhn'). length rhn' = length rhn \<and>
    (err = None \<longleftrightarrow> (\<exists>ls. text_of s ls)) \<and>
    (\<forall>ls. text_of s ls \<longrightarrow> take (length (wire ls)) rhn' = wire ls))"
  using assms by (intro parsestr2rhn_ok) (simp_all add: DNSNAMEBUFSIZE_def)

theorem parsestr2rhn_accepts_witness:
  "ok (parsestr2rhn ([97] @ [98]) 1 (replicate 256 0)) (\<lambda>(err, rhn'). err = None)"
proof -
  have "text_of [97] [[97]]"
    by (simp add: text_of_def plain_def wf_name_def wf_label_def DNSNAMEBUFSIZE_def dotted_def)
  then show ?thesis
    using parsestr2rhn_accepts [of 1 "[97]" "[98]" "replicate 256 0"]
    by (auto simp: DNSNAMEBUFSIZE_def text_end_def elim!: ok_mono)
qed

text \<open>
  C21. \<open>rhn2str\<close> never writes beyond the \<open>sz\<close> bytes of its buffer, whatever bytes the
  labels of the name contain, and always leaves a NUL-terminated string there.
\<close>

theorem rhn2str_terminates_string:
  assumes "wf_name ls" and "0 < sz" and "sz \<le> length str"
  shows "ok (rhn2str (wire ls @ rest) str sz) (\<lambda>res. \<exists>str'. res = Some str' \<and>
    length str' = length str \<and> terminated sz str')"
  using assms by (intro rhn2str_safe) (simp_all add: wf_name_labels)

theorem rhn2str_terminates_string_witness:
  "ok (rhn2str (wire [[200, 92]] @ []) (replicate 3 1) 3) (\<lambda>res. \<exists>str'. res = Some str' \<and>
    length str' = 3 \<and> terminated 3 str')"
  using rhn2str_terminates_string [of "[[200, 92]]" 3 "replicate 3 1" "[]"]
  by (simp add: wf_name_def wf_label_def DNSNAMEBUFSIZE_def)

text \<open>
  C20. Printing and reading back: a well-formed name of visible characters, printed by
  \<open>rhn2str\<close> into a buffer of \<open>DNSNAMEBUFSIZE\<close> bytes, is read back unchanged by \<open>str2rhn\<close>.
\<close>

theorem rhn2str_str2rhn:
  assumes "wf_name ls" and "visible ls" and "DNSNAMEBUFSIZE \<le> length str"
    and "DNSNAMEBUFSIZE \<le> length rhn"
  shows "ok (rhn2str (wire ls @ rest) str DNSNAMEBUFSIZE) (\<lambda>res.
    ok res (\<lambda>str'. ok (str2rhn str' rhn) (\<lambda>(r, rhn'). r \<and> take (length (wire ls)) rhn' = wire ls)))"
proof -
  have len: "length (dotted ls) < DNSNAMEBUFSIZE"
    using assms(1) length_dotted_labels [of ls] by (auto simp: wf_name_def DNSNAMEBUFSIZE_def dotted_def)
  have "rhn2str (wire ls @ rest) str DNSNAMEBUFSIZE = Some (Some (put str 0 (dotted ls @ [0])))"
    using assms len by (intro rhn2str_visible) (simp_all add: wf_name_labels)
  moreover have "0 \<notin> set (dotted ls)"
    using visible_plain [OF assms(2)] by (rule plain_dotted_no_NUL)
  ultimately show ?thesis
    using str2rhn_ok [of "dotted ls" rhn "drop (Suc (length (dotted ls))) str"] assms visible_plain
    by (auto simp: put_def DNSNAMEBUFSIZE_def elim!: ok_mono)
qed

theorem rhn2str_str2rhn_witness:
  "ok (rhn2str (wire [[97], [98, 99]] @ []) (replicate 256 0) DNSNAMEBUFSIZE) (\<lambda>res.
    ok res (\<lambda>str'. ok (str2rhn str' (replicate 256 0)) (\<lambda>(r, rhn'). r \<and> take (length (wire [[97], [98, 99]])) rhn' = wire [[97], [98, 99]])))"
  using rhn2str_str2rhn [of "[[97], [98, 99]]" "replicate 256 0" "replicate 256 0" "[]"]
  by (simp add: wf_name_def wf_label_def visible_def isgraph_def DNSNAMEBUFSIZE_def)

end
