(* ===== verification/DomainMatch.thy ===== *)
theory DomainMatch
  imports Names
begin

text \<open>
  \<open>domain_match\<close> of \<^verbatim>\<open>src/dns.c\<close>: the longest common tail of two names, label by label.
  The code collects the length bytes of both names and then compares the names from their
  ends. The abstract counterpart is \<open>common_tail\<close>, the length of the longest common suffix of
  the two lists of labels up to case.
\<close>

section \<open>The code\<close>

text \<open>Collecting the length bytes: the result is the index of the final zero and the bytes.\<close>

function collect_lengths :: "bytes \<Rightarrow> nat \<Rightarrow> bytes \<Rightarrow> (nat \<times> bytes) option" where
  "collect_lengths ms i ls = do {
     lb \<leftarrow> rd ms i;
     if lb = 0 then Some (i, ls)
     else do {
       pdnsd_assert (length ls < 128);
       collect_lengths ms (i + (unat lb + 1)) (ls @ [lb]) } }"
  by pat_completeness auto
termination
  by (relation "measure (\<lambda>(ms, i, ls). length ms - i)") (auto simp: rd_eq_Some_iff)

text \<open>\<^verbatim>\<open>for(;lb;--lb) if(tolower(ms[--i]) != tolower(md[--j])) goto mismatch;\<close>\<close>

fun match_seg :: "bytes \<Rightarrow> bytes \<Rightarrow> nat \<Rightarrow> nat \<Rightarrow> nat \<Rightarrow> (bool \<times> nat \<times> nat) option" where
  "match_seg ms md i j 0 = Some (True, i, j)"
| "match_seg ms md i j (Suc lb) = do {
     i \<leftarrow> usub i 1;
     j \<leftarrow> usub j 1;
     x \<leftarrow> rd ms i;
     y \<leftarrow> rd md j;
     if tolower x \<noteq> tolower y then Some (False, i, j) else match_seg ms md i j lb }"

text \<open>The loop over \<open>k\<close>; the result is \<open>k-1\<close>, \<open>offs\<close> and \<open>offd\<close>.\<close>

function match_loop ::
  "bytes \<Rightarrow> bytes \<Rightarrow> bytes \<Rightarrow> bytes \<Rightarrow> nat \<Rightarrow> nat \<Rightarrow> nat \<Rightarrow> nat \<Rightarrow> (nat \<times> nat \<times> nat) option" where
  "match_loop ms md ls ld n k i j =
     (if \<not> k \<le> n then Some (k - 1, i, j)
      else do {
        p \<leftarrow> usub (length ls) k;
        lb \<leftarrow> rd ls p;
        q \<leftarrow> usub (length ld) k;
        lb' \<leftarrow> rd ld q;
        if lb \<noteq> lb' then Some (k - 1, i, j)
        else do {
          (same, i', j') \<leftarrow> match_seg ms md i j (unat lb);
          if \<not> same then Some (k - 1, i, j)
          else do {
            i' \<leftarrow> usub i' 1;
            j' \<leftarrow> usub j' 1;
            match_loop ms md ls ld n (k + 1) i' j' } } })"
  by pat_completeness auto
termination
  by (relation "measure (\<lambda>(ms, md, ls, ld, n, k, i, j). n + 1 - k)") auto

definition domain_match :: "bytes \<Rightarrow> bytes \<Rightarrow> (nat \<times> nat \<times> nat) option" where
  "domain_match ms md = do {
     (i, ls) \<leftarrow> collect_lengths ms 0 [];
     (j, ld) \<leftarrow> collect_lengths md 0 [];
     let n = length ls;
     let n = (if n > length ld then length ld else n);
     match_loop ms md ls ld n 1 i j }"

declare collect_lengths.simps [simp del] match_loop.simps [simp del]

section \<open>Common tails\<close>

fun lcp :: "'a list \<Rightarrow> 'a list \<Rightarrow> nat" where
  "lcp (x # xs) (y # ys) = (if x = y then Suc (lcp xs ys) else 0)"
| "lcp _ _ = 0"

definition common_tail :: "label list \<Rightarrow> label list \<Rightarrow> nat" where
  "common_tail xs ys = lcp (rev (fold_name xs)) (rev (fold_name ys))"

lemma lcp_le: "lcp xs ys \<le> length xs" "lcp xs ys \<le> length ys"
  by (induction xs ys rule: lcp.induct) auto

lemma take_lcp: "take (lcp xs ys) xs = take (lcp xs ys) ys"
  by (induction xs ys rule: lcp.induct) auto

lemma lcp_maximal: "take k xs = take k ys \<Longrightarrow> k \<le> length xs \<Longrightarrow> k \<le> length ys \<Longrightarrow> k \<le> lcp xs ys"
proof (induction xs ys arbitrary: k rule: lcp.induct)
  case (1 x xs y ys)
  then show ?case by (cases k) auto
qed auto

lemma lcp_eqI:
  assumes "take k xs = take k ys" and "k \<le> length xs" and "k \<le> length ys"
    and "k < length xs \<Longrightarrow> k < length ys \<Longrightarrow> xs ! k \<noteq> ys ! k"
  shows "lcp xs ys = k"
proof (rule antisym)
  show "k \<le> lcp xs ys" using assms by (intro lcp_maximal)
  show "lcp xs ys \<le> k"
  proof (rule ccontr)
    assume "\<not> lcp xs ys \<le> k"
    then have "k < lcp xs ys" by simp
    then have "xs ! k = ys ! k" by (metis nth_take take_lcp)
    with assms(4) \<open>k < lcp xs ys\<close> lcp_le [of xs ys] show False by auto
  qed
qed

lemma common_tail_le: "common_tail xs ys \<le> length xs" "common_tail xs ys \<le> length ys"
  using lcp_le [of "rev (fold_name xs)" "rev (fold_name ys)"] by (simp_all add: common_tail_def)

definition tail :: "nat \<Rightarrow> label list \<Rightarrow> label list" where
  "tail k xs = drop (length xs - k) xs"

lemma take_rev_fold: "take k (rev (fold_name xs)) = rev (fold_name (tail k xs))"
  by (simp add: take_rev fold_name_def tail_def drop_map)

lemma tail_common_tail: "fold_name (tail (common_tail xs ys) xs) = fold_name (tail (common_tail xs ys) ys)"
  using take_lcp [of "rev (fold_name xs)" "rev (fold_name ys)"]
  by (simp add: common_tail_def take_rev_fold)

lemma common_tail_maximal:
  "fold_name (tail k xs) = fold_name (tail k ys) \<Longrightarrow> k \<le> length xs \<Longrightarrow> k \<le> length ys \<Longrightarrow>
   k \<le> common_tail xs ys"
  by (simp add: common_tail_def lcp_maximal take_rev_fold)

section \<open>Positions of labels\<close>

text \<open>The length bytes and labels of a name without its end, and the offset of label \<open>k\<close>.\<close>

definition enc :: "label list \<Rightarrow> bytes" where
  "enc ls = concat (map (\<lambda>l. of_nat (length l) # l) ls)"

definition off :: "label list \<Rightarrow> nat \<Rightarrow> nat" where
  "off ls k = length (enc (take k ls))"

lemma enc_simps [simp]: "enc [] = []" "enc (l # ls) = of_nat (length l) # l @ enc ls"
  "enc (xs @ ys) = enc xs @ enc ys"
  by (simp_all add: enc_def)

lemma wire_enc: "wire ls = enc ls @ [0]"
  by (induction ls) auto

lemma wire_take_drop: "wire ls = enc (take k ls) @ wire (drop k ls)"
  by (metis append_take_drop_id enc_simps(3) append.assoc wire_enc)

lemma off_0 [simp]: "off ls 0 = 0"
  by (simp add: off_def)

lemma off_Suc: "k < length ls \<Longrightarrow> off ls (Suc k) = off ls k + Suc (length (ls ! k))"
  by (simp add: off_def take_Suc_conv_app_nth)

lemma off_mono: "j \<le> k \<Longrightarrow> off ls j \<le> off ls k"
proof -
  assume "j \<le> k"
  then have "take k ls = take j ls @ take (k - j) (drop j ls)"
    by (metis le_add_diff_inverse take_add)
  then show ?thesis by (simp add: off_def)
qed

lemma off_wire: "off ls (length ls) + 1 = length (wire ls)"
  by (simp add: off_def wire_enc)

lemma drop_wire: "drop (off ls k) (wire ls @ rest) = wire (drop k ls) @ rest"
  by (subst wire_take_drop [of _ k]) (simp add: off_def)

lemma slice_label:
  assumes "k < length ls"
  shows "take (length (ls ! k)) (drop (off ls k + 1) (wire ls @ rest)) = ls ! k"
proof -
  have "drop (off ls k + 1) (wire ls @ rest) = drop 1 (drop (off ls k) (wire ls @ rest))"
    by (simp only: drop_drop add.commute)
  also have "\<dots> = ls ! k @ wire (drop (Suc k) ls) @ rest"
    unfolding drop_wire using assms by (simp add: Cons_nth_drop_Suc [symmetric])
  finally show ?thesis by simp
qed

section \<open>Correctness\<close>

lemma collect_lengths_wire:
  assumes "list_all wf_label ls" and "length acc + length ls \<le> 128"
  shows "collect_lengths (pre @ wire ls @ rest) (length pre) acc =
    Some (length pre + length (enc ls), acc @ map (\<lambda>l. of_nat (length l)) ls)"
  using assms
proof (induction ls arbitrary: pre acc)
  case Nil
  then show ?case by (simp add: collect_lengths.simps [of _ "length pre"])
next
  case (Cons l ls)
  then show ?case
    using Cons.IH [of "acc @ [of_nat (length l)]" "pre @ of_nat (length l) # l"]
    by (simp add: collect_lengths.simps [of _ "length pre"] wf_label_unat wf_label_nz)
qed

lemma match_seg_ok:
  assumes "n \<le> i" and "n \<le> j" and "i \<le> length ms" and "j \<le> length md"
  shows "ok (match_seg ms md i j n) (\<lambda>(same, i', j').
    same = (map tolower (take n (drop (i - n) ms)) = map tolower (take n (drop (j - n) md))) \<and>
    (same \<longrightarrow> i' = i - n \<and> j' = j - n))"
  using assms
proof (induction n arbitrary: i j)
  case (Suc n)
  have split: "take (Suc n) (drop (i - Suc n) ms) = take n (drop (i - 1 - n) ms) @ [ms ! (i - 1)]"
    if "Suc n \<le> i" "i \<le> length ms" for i and ms :: bytes
    using that by (simp add: take_Suc_conv_app_nth)
  show ?case
    using Suc.prems Suc.IH [of "i - 1" "j - 1"] split [of i ms] split [of j md]
    by (auto simp: ok_simps elim!: ok_mono)
qed simp

lemma tail_Suc: "k < length xs \<Longrightarrow> tail (Suc k) xs = xs ! (length xs - Suc k) # tail k xs"
  by (simp add: tail_def Cons_nth_drop_Suc [symmetric] Suc_diff_Suc)

lemma tail_0 [simp]: "tail 0 xs = []"
  by (simp add: tail_def)

lemma off_le: "k \<le> length ls \<Longrightarrow> off ls k \<le> length (wire ls @ rest)"
  using off_mono [of k "length ls" ls] off_wire [of ls] by simp

lemma common_tail_eqI:
  assumes "fold_name (tail k xs) = fold_name (tail k ys)" and "k \<le> length xs" and "k \<le> length ys"
    and "k < length xs \<Longrightarrow> k < length ys \<Longrightarrow>
      map tolower (xs ! (length xs - Suc k)) \<noteq> map tolower (ys ! (length ys - Suc k))"
  shows "common_tail xs ys = k"
  unfolding common_tail_def using assms
  by (intro lcp_eqI) (simp_all add: take_rev_fold rev_nth, simp add: fold_name_def)

text \<open>One round of the loop compares the labels at distance \<open>k\<close> from the end.\<close>

lemma match_label:
  assumes wf: "list_all wf_label xs" "list_all wf_label ys" and k: "k < length xs" "k < length ys"
  defines "p \<equiv> length xs - Suc k" and "q \<equiv> length ys - Suc k"
  assumes len: "length (xs ! p) = length (ys ! q)"
  shows "ok (match_seg (wire xs @ r) (wire ys @ s) (off xs (length xs - k)) (off ys (length ys - k)) (length (xs ! p)))
    (\<lambda>(same, i', j'). same = (map tolower (xs ! p) = map tolower (ys ! q)) \<and>
       (same \<longrightarrow> i' = Suc (off xs p) \<and> j' = Suc (off ys q)))"
proof -
  have pq: "length xs - k = Suc p" "length ys - k = Suc q" "p < length xs" "q < length ys"
    using k by (auto simp: p_def q_def)
  have offs: "off xs (length xs - k) = Suc (off xs p) + length (xs ! p)"
    "off ys (length ys - k) = Suc (off ys q) + length (ys ! q)"
    using pq off_Suc [of p xs] off_Suc [of q ys] by simp_all
  show ?thesis
    using match_seg_ok [of "length (xs ! p)" "off xs (length xs - k)" "off ys (length ys - k)"
        "wire xs @ r" "wire ys @ s"] off_le [of "length xs - k" xs r] off_le [of "length ys - k" ys s]
      slice_label [OF pq(3), of r] slice_label [OF pq(4), of s] offs len
    by (auto elim!: ok_mono simp del: take_append drop_append length_append)
qed

lemma wf_label_same_length:
  "wf_label x \<Longrightarrow> wf_label y \<Longrightarrow> (of_nat (length x) :: byte) = of_nat (length y) \<longleftrightarrow> length x = length y"
  by (metis wf_label_unat)

lemma match_loop_ok:
  assumes wf: "list_all wf_label xs" "list_all wf_label ys"
    and n: "n = min (length xs) (length ys)" and k: "k \<le> n"
    and eq: "fold_name (tail k xs) = fold_name (tail k ys)"
  shows "match_loop (wire xs @ r) (wire ys @ s) (map (\<lambda>l. of_nat (length l)) xs)
      (map (\<lambda>l. of_nat (length l)) ys) n (Suc k) (off xs (length xs - k)) (off ys (length ys - k)) =
    Some (common_tail xs ys, off xs (length xs - common_tail xs ys), off ys (length ys - common_tail xs ys))"
  using k eq
proof (induction "n - k" arbitrary: k)
  case 0
  then have "k = n" by simp
  then have "common_tail xs ys = k"
    using 0 n by (intro common_tail_eqI) auto
  with \<open>k = n\<close> show ?case by (simp add: match_loop.simps)
next
  case (Suc m)
  then have k: "k < length xs" "k < length ys" "Suc k \<le> n" using n by auto
  let ?p = "length xs - Suc k" and ?q = "length ys - Suc k"
  let ?loop = "match_loop (wire xs @ r) (wire ys @ s) (map (\<lambda>l. of_nat (length l)) xs)
      (map (\<lambda>l. of_nat (length l)) ys) n"
  note unf = match_loop.simps [of _ _ _ _ n "Suc k" "off xs (length xs - k)" "off ys (length ys - k)"]
  have pq: "?p < length xs" "?q < length ys" using k by auto
  have wfp: "wf_label (xs ! ?p)" "wf_label (ys ! ?q)" using wf pq by (simp_all add: list_all_length)
  note len = wf_label_same_length [OF wfp]
  show ?case
  proof (cases "map tolower (xs ! ?p) = map tolower (ys ! ?q)")
    case True
    then have l: "length (xs ! ?p) = length (ys ! ?q)" by (metis length_map)
    from match_label [OF wf k(1,2) l, of r s] True
    have seg: "match_seg (wire xs @ r) (wire ys @ s) (off xs (length xs - k)) (off ys (length ys - k))
        (length (xs ! ?p)) = Some (True, Suc (off xs ?p), Suc (off ys ?q))"
      by (auto elim!: okE)
    have "?loop (Suc (Suc k)) (off xs (length xs - Suc k)) (off ys (length ys - Suc k)) =
        Some (common_tail xs ys, off xs (length xs - common_tail xs ys), off ys (length ys - common_tail xs ys))"
      using Suc.hyps Suc.prems k True by (intro Suc.hyps(1)) (auto simp: tail_Suc)
    with k pq seg l wfp show ?thesis by (simp add: unf wf_label_unat)
  next
    case False
    have ct: "common_tail xs ys = k"
      using Suc.prems k False by (intro common_tail_eqI) auto
    show ?thesis
    proof (cases "length (xs ! ?p) = length (ys ! ?q)")
      case True
      from match_label [OF wf k(1,2) True, of r s] False
      obtain i j where "match_seg (wire xs @ r) (wire ys @ s) (off xs (length xs - k)) (off ys (length ys - k))
          (length (xs ! ?p)) = Some (False, i, j)"
        by (auto elim!: okE)
      with k pq True wfp ct show ?thesis by (simp add: unf wf_label_unat)
    next
      case False
      with len have "(of_nat (length (xs ! ?p)) :: byte) \<noteq> of_nat (length (ys ! ?q))" by blast
      with k pq ct show ?thesis by (simp add: unf)
    qed
  qed
qed

lemma domain_match_ok:
  assumes "wf_name xs" and "wf_name ys"
  shows "domain_match (wire xs @ r) (wire ys @ s) = Some (common_tail xs ys,
    off xs (length xs - common_tail xs ys), off ys (length ys - common_tail xs ys))"
proof -
  note wf = wf_name_labels [OF assms(1)] wf_name_labels [OF assms(2)]
  have "length xs \<le> 128" "length ys \<le> 128"
    using wf_name_length [OF assms(1)] wf_name_length [OF assms(2)] by simp_all
  with wf collect_lengths_wire [of xs "[]" "[]" r] collect_lengths_wire [of ys "[]" "[]" s]
    match_loop_ok [OF wf refl, of 0 r s]
  show ?thesis
    by (auto simp: domain_match_def off_def min_def split: if_splits)
qed

section \<open>Properties\<close>

text \<open>
  C17. \<open>domain_match\<close> on two well-formed names: it never trips the assertion on the number
  of segments nor leaves the names, and it returns the number \<open>k\<close> of labels of the longest
  common tail (up to case) with the offsets at which that tail starts in either name: the
  tails of \<open>k\<close> labels agree, and no longer ones do.
\<close>

theorem domain_match_longest_tail:
  assumes "wf_name xs" and "wf_name ys"
  shows "\<exists>k. domain_match (wire xs @ r) (wire ys @ s) =
      Some (k, off xs (length xs - k), off ys (length ys - k)) \<and>
    k \<le> length xs \<and> k \<le> length ys \<and> fold_name (tail k xs) = fold_name (tail k ys) \<and>
    (\<forall>k' \<le> min (length xs) (length ys). fold_name (tail k' xs) = fold_name (tail k' ys) \<longrightarrow> k' \<le> k)"
  using domain_match_ok [OF assms] common_tail_le [of xs ys] tail_common_tail [of xs ys]
    common_tail_maximal [of _ xs ys] by auto

theorem domain_match_longest_tail_witness:
  "\<exists>k. domain_match (wire [[97], [98]] @ []) (wire [[99], [66]] @ [1]) =
      Some (k, off [[97], [98]] (2 - k), off [[99], [66]] (2 - k)) \<and>
    k \<le> 2 \<and> fold_name (tail k [[97], [98]]) = fold_name (tail k [[99], [66]])"
  using domain_match_longest_tail [of "[[97], [98]]" "[[99], [66]]" "[]" "[1]"]
  by (auto simp: wf_name_def wf_label_def DNSNAMEBUFSIZE_def numeral_2_eq_2)

end
