(* ===== verification/Decompress.thy ===== *)
theory Decompress
  imports Names
begin

text \<open>
  Reading compressed names from a message: \<open>decompress_name\<close> of \<^verbatim>\<open>src/dns.c\<close>.

  The function is given the whole message (\<open>msg\<close>, of which \<open>msgsz\<close> bytes count), the
  position of the name and the number \<open>sz\<close> of bytes left in the data it belongs to, and
  decodes into the buffer \<open>tgt\<close>. Pointers into the message are indices. Unsigned
  subtractions are checked: an underflow is a fault, and the safety lemma shows there is none.
\<close>

definition RC_OK :: nat where "RC_OK = 0"
definition RC_FORMAT :: nat where "RC_FORMAT = 1"
definition RC_TRUNC :: nat where "RC_TRUNC = 0xfffe"


text \<open>\<^verbatim>\<open>offs=((lb&0x3f)<<8)|(*lptr)\<close>\<close>

definition ptr_offs :: "byte \<Rightarrow> byte \<Rightarrow> nat" where
  "ptr_offs lb c = unat ((push_bit 8 (ucast (lb AND 0x3f)) OR ucast c) :: 32 word)"

text \<open>\<^verbatim>\<open>do { tgt[tpos++]=*lptr++; } while(--lb);\<close>\<close>

fun copy_label :: "bytes \<Rightarrow> nat \<Rightarrow> bytes \<Rightarrow> nat \<Rightarrow> nat \<Rightarrow> bytes option" where
  "copy_label msg lptr tgt tpos 0 = Some tgt"
| "copy_label msg lptr tgt tpos (Suc lb) = do {
     c \<leftarrow> rd msg lptr;
     tgt \<leftarrow> wr tgt tpos c;
     copy_label msg (lptr + 1) tgt (tpos + 1) lb }"

text \<open>The loop after a jump; the result is the return code, \<open>tpos\<close> and the buffer.\<close>

function decompress_jumped ::
  "bytes \<Rightarrow> nat \<Rightarrow> nat \<Rightarrow> nat \<Rightarrow> nat \<Rightarrow> bytes \<Rightarrow> (nat \<times> nat \<times> bytes) option" where
  "decompress_jumped msg msgsz lptr hops tpos tgt = do {
     lb \<leftarrow> rd msg lptr;
     let lptr = lptr + 1;
     if lb > 0x3f then
       (if lb < 0xc0 then Some (RC_FORMAT, tpos, tgt)
        else if lptr \<ge> msgsz then Some (RC_FORMAT, tpos, tgt)
        else if hops + 1 > 255 then Some (RC_FORMAT, tpos, tgt)
        else do {
          c \<leftarrow> rd msg lptr;
          if ptr_offs lb c \<ge> msgsz then Some (RC_FORMAT, tpos, tgt)
          else decompress_jumped msg msgsz (ptr_offs lb c) (hops + 1) tpos tgt })
     else do {
       tgt \<leftarrow> wr tgt tpos lb;
       let tpos = tpos + 1;
       if lb = 0 then Some (RC_OK, tpos, tgt)
       else if lptr + unat lb \<ge> msgsz then Some (RC_FORMAT, tpos, tgt)
       else if tpos + unat lb > DNSNAMEBUFSIZE - 1 then Some (RC_FORMAT, tpos, tgt)
       else do {
         tgt \<leftarrow> copy_label msg lptr tgt tpos (unat lb);
         decompress_jumped msg msgsz (lptr + unat lb) hops (tpos + unat lb) tgt } } }"
  by pat_completeness auto
termination
  by (relation "measures [\<lambda>(msg, msgsz, lptr, hops, tpos, tgt). 256 - tpos,
      \<lambda>(msg, msgsz, lptr, hops, tpos, tgt). 256 - hops]") (auto simp: DNSNAMEBUFSIZE_def)

text \<open>The first loop, which also counts down \<open>newsz\<close>; the result adds \<open>newsz\<close>.\<close>

function decompress_first ::
  "bytes \<Rightarrow> nat \<Rightarrow> nat \<Rightarrow> nat \<Rightarrow> nat \<Rightarrow> bytes \<Rightarrow> (nat \<times> nat \<times> nat \<times> bytes) option" where
  "decompress_first msg msgsz lptr newsz tpos tgt = do {
     newsz \<leftarrow> usub newsz 1;
     lb \<leftarrow> rd msg lptr;
     let lptr = lptr + 1;
     if lb > 0x3f then
       (if lb < 0xc0 then Some (RC_FORMAT, newsz, tpos, tgt)
        else if newsz = 0 then Some (RC_TRUNC, newsz, tpos, tgt)
        else if lptr \<ge> msgsz then Some (RC_FORMAT, newsz, tpos, tgt)
        else do {
          newsz \<leftarrow> usub newsz 1;
          c \<leftarrow> rd msg lptr;
          if ptr_offs lb c \<ge> msgsz then Some (RC_FORMAT, newsz, tpos, tgt)
          else do {
            (rc, tpos, tgt) \<leftarrow> decompress_jumped msg msgsz (ptr_offs lb c) 1 tpos tgt;
            Some (rc, newsz, tpos, tgt) } })
     else do {
       tgt \<leftarrow> wr tgt tpos lb;
       let tpos = tpos + 1;
       if lb = 0 then Some (RC_OK, newsz, tpos, tgt)
       else if newsz \<le> unat lb then Some (RC_TRUNC, newsz, tpos, tgt)
       else if lptr + unat lb \<ge> msgsz then Some (RC_FORMAT, newsz, tpos, tgt)
       else if tpos + unat lb > DNSNAMEBUFSIZE - 1 then Some (RC_FORMAT, newsz, tpos, tgt)
       else do {
         newsz \<leftarrow> usub newsz (unat lb);
         tgt \<leftarrow> copy_label msg lptr tgt tpos (unat lb);
         decompress_first msg msgsz (lptr + unat lb) newsz (tpos + unat lb) tgt } } }"
  by pat_completeness auto
termination
  by (relation "measure (\<lambda>(msg, msgsz, lptr, newsz, tpos, tgt). 256 - tpos)")
    (auto simp: DNSNAMEBUFSIZE_def)

text \<open>
  The arguments that the C function returns through pointers: \<open>d_src\<close> (\<^verbatim>\<open>*src\<close>), \<open>d_sz\<close>
  (\<^verbatim>\<open>*sz\<close>) and \<open>d_len\<close> (\<^verbatim>\<open>*len\<close>) keep their values unless the name was decoded.
\<close>

record decompressed =
  d_rc :: nat
  d_src :: nat
  d_sz :: nat
  d_tgt :: bytes
  d_len :: "nat option"

definition decompress_name :: "bytes \<Rightarrow> nat \<Rightarrow> nat \<Rightarrow> nat \<Rightarrow> bytes \<Rightarrow> decompressed option" where
  "decompress_name msg msgsz src sz tgt =
     (if sz = 0 then Some \<lparr>d_rc = RC_TRUNC, d_src = src, d_sz = sz, d_tgt = tgt, d_len = None\<rparr>
      else if src \<ge> msgsz then
        Some \<lparr>d_rc = RC_FORMAT, d_src = src, d_sz = sz, d_tgt = tgt, d_len = None\<rparr>
      else do {
        (rc, newsz, tpos, tgt) \<leftarrow> decompress_first msg msgsz src sz 0 tgt;
        if rc = RC_OK then do {
          used \<leftarrow> usub sz newsz;
          Some \<lparr>d_rc = rc, d_src = src + used, d_sz = newsz, d_tgt = tgt, d_len = Some tpos\<rparr> }
        else Some \<lparr>d_rc = rc, d_src = src, d_sz = sz, d_tgt = tgt, d_len = None\<rparr> })"

declare decompress_jumped.simps [simp del] decompress_first.simps [simp del]

section \<open>What a position of a message means\<close>

text \<open>
  \<open>decodes msg i ls h\<close>: reading the message at \<open>i\<close> gives the labels \<open>ls\<close> and follows
  \<open>h\<close> compression pointers (RFC 1035, section 4.1.4).
\<close>

inductive decodes :: "bytes \<Rightarrow> nat \<Rightarrow> label list \<Rightarrow> nat \<Rightarrow> bool" for msg :: bytes where
  decodes_end: "rd msg i = Some 0 \<Longrightarrow> decodes msg i [] 0"
| decodes_label: "rd msg i = Some b \<Longrightarrow> b \<noteq> 0 \<Longrightarrow> b \<le> 0x3f \<Longrightarrow>
    l = take (unat b) (drop (Suc i) msg) \<Longrightarrow> decodes msg (Suc (i + unat b)) ls h \<Longrightarrow>
    decodes msg i (l # ls) h"
| decodes_ptr: "rd msg i = Some b \<Longrightarrow> b \<ge> 0xc0 \<Longrightarrow> rd msg (Suc i) = Some c \<Longrightarrow>
    decodes msg (ptr_offs b c) ls h \<Longrightarrow> decodes msg i ls (Suc h)"

inductive_cases decodesE: "decodes msg i ls h"

lemma byte_ge_c0: "(0xc0 :: byte) \<le> b \<Longrightarrow> b \<noteq> 0 \<and> \<not> b \<le> 0x3f \<and> 0x3f < b"
  by (auto simp: word_le_nat_alt word_less_nat_alt)

lemma decodes_zero: "rd msg i = Some 0 \<Longrightarrow> decodes msg i ls h \<longleftrightarrow> ls = [] \<and> h = 0"
  by (auto elim: decodesE intro: decodes_end dest: byte_ge_c0)

lemma decodes_byte:
  assumes "rd msg i = Some b" and "b \<noteq> 0" and "b \<le> 0x3f"
  shows "decodes msg i ls h \<longleftrightarrow>
    (\<exists>ls'. ls = take (unat b) (drop (Suc i) msg) # ls' \<and> decodes msg (Suc (i + unat b)) ls' h)"
proof
  assume "decodes msg i ls h"
  then show "\<exists>ls'. ls = take (unat b) (drop (Suc i) msg) # ls' \<and> decodes msg (Suc (i + unat b)) ls' h"
    using assms by (cases rule: decodes.cases) (auto dest: byte_ge_c0)
qed (use assms in \<open>auto intro: decodes_label\<close>)

lemma decodes_jump:
  assumes "rd msg i = Some b" and "b > 0x3f"
  shows "decodes msg i ls h \<longleftrightarrow> b \<ge> 0xc0 \<and>
    (\<exists>c h'. rd msg (Suc i) = Some c \<and> h = Suc h' \<and> decodes msg (ptr_offs b c) ls h')"
proof
  assume "decodes msg i ls h"
  then show "b \<ge> 0xc0 \<and> (\<exists>c h'. rd msg (Suc i) = Some c \<and> h = Suc h' \<and> decodes msg (ptr_offs b c) ls h')"
    using assms by (cases rule: decodes.cases) auto
qed (use assms in \<open>auto intro: decodes_ptr\<close>)

lemma decodes_bound: "decodes msg i ls h \<Longrightarrow> i < length msg"
  by (auto elim: decodesE simp: rd_eq_Some_iff)

lemma decodes_wf: "decodes msg i ls h \<Longrightarrow> list_all wf_label ls"
proof (induction rule: decodes.induct)
  case (decodes_label i b l ls h)
  from decodes_label.hyps(5) have "Suc (i + unat b) < length msg" by (rule decodes_bound)
  with decodes_label show ?case
    by (simp add: wf_label_def unat_gt_0 word_le_nat_alt)
qed simp_all

lemma decodes_append: "decodes msg i ls h \<Longrightarrow> decodes (msg @ rest) i ls h"
proof (induction rule: decodes.induct)
  case (decodes_label i b l ls h)
  from decodes_label.hyps(5) have "Suc (i + unat b) < length msg" by (rule decodes_bound)
  with decodes_label show ?case
    by (intro decodes.decodes_label [of _ _ b]) (auto simp: rd_eq_Some_iff nth_append)
qed (auto intro!: decodes.intros simp: rd_eq_Some_iff nth_append)

lemma decodes_det: "decodes msg i ls h \<Longrightarrow> decodes msg i ls' h' \<Longrightarrow> ls = ls' \<and> h = h'"
proof (induction arbitrary: ls' h' rule: decodes.induct)
  case (decodes_end i)
  then show ?case by (simp add: decodes_zero)
next
  case (decodes_label i b l ls h)
  then obtain ls'' where "ls' = l # ls''" "decodes msg (Suc (i + unat b)) ls'' h'"
    using decodes_byte [of msg i b ls' h'] by auto
  with decodes_label.IH show ?case by auto
next
  case (decodes_ptr i b c ls h)
  then obtain h'' where "h' = Suc h''" "decodes msg (ptr_offs b c) ls' h''"
    using decodes_jump [of msg i b ls' h'] byte_ge_c0 [of b] by auto
  with decodes_ptr.IH show ?case by auto
qed

text \<open>An uncompressed name decodes to its labels without a jump.\<close>

lemma decodes_wire: "list_all wf_label ls \<Longrightarrow> drop i msg = wire ls @ rest \<Longrightarrow> decodes msg i ls 0"
proof (induction ls arbitrary: i)
  case Nil
  then show ?case
    by (auto intro!: decodes_end simp: rd_def nth_via_drop) (metis drop_eq_Nil list.distinct(1) not_le)
next
  case (Cons l ls)
  then have "rd msg i = Some (of_nat (length l))"
    by (metis append_Cons drop_eq_Nil list.distinct(1) not_le nth_via_drop rd_Some wire.simps(2))
  moreover have dr: "drop (Suc i) msg = l @ wire ls @ rest"
    using Cons.prems by (metis append.assoc append_Cons drop_Suc list.sel(3) tl_drop wire.simps(2))
  moreover from dr have "drop (Suc (i + length l)) msg = wire ls @ rest"
    by (metis add.commute add_Suc_right append_eq_conv_conj drop_drop)
  ultimately show ?case
    using Cons by (intro decodes_label) (auto simp: wf_label_unat wf_label_nz word_le_nat_alt wf_label_def)
qed

section \<open>Correctness of the decoder\<close>

lemma copy_label_put:
  "lptr + n \<le> length msg \<Longrightarrow> tpos + n \<le> length tgt \<Longrightarrow>
   copy_label msg lptr tgt tpos n = Some (put tgt tpos (take n (drop lptr msg)))"
proof (induction n arbitrary: lptr tgt tpos)
  case (Suc n)
  have "take (Suc n) (drop lptr msg) = msg ! lptr # take n (drop (Suc lptr) msg)"
    using Suc.prems by (simp add: Cons_nth_drop_Suc [symmetric])
  with Suc put_put [of tpos "[msg ! lptr]" "take n (drop (Suc lptr) msg)" tgt] show ?case
    by (simp add: put_single)
qed simp

lemma rd_take: "rd (take n xs) i = (if i < n then rd xs i else None)"
  by (auto simp: rd_def)

text \<open>
  The outcome of a decoding loop that has \<open>tpos\<close> bytes stored and \<open>hops\<close> jumps behind it,
  at a position that decodes as \<open>D\<close> says: success means that there is a name, that it fits
  and that it has been stored; and if there is a name that fits, the loop succeeds.
\<close>

definition decode_post ::
  "(label list \<Rightarrow> nat \<Rightarrow> bool) \<Rightarrow> nat \<Rightarrow> nat \<Rightarrow> bytes \<Rightarrow> nat \<Rightarrow> nat \<Rightarrow> bytes \<Rightarrow> bool" where
  "decode_post D hops tpos tgt rc tpos' tgt' \<longleftrightarrow>
     length tgt' = length tgt \<and>
     (rc = RC_OK \<longleftrightarrow> (\<exists>ls h. D ls h \<and> hops + h \<le> 255 \<and> tpos + length (wire ls) \<le> 256)) \<and>
     (\<forall>ls h. rc = RC_OK \<and> D ls h \<longrightarrow>
        tpos' = tpos + length (wire ls) \<and> take tpos' tgt' = take tpos tgt @ wire ls)"

lemma RC_neq [simp]: "RC_FORMAT \<noteq> RC_OK" "RC_TRUNC \<noteq> RC_OK"
  by (simp_all add: RC_FORMAT_def RC_OK_def RC_TRUNC_def)

lemma decode_post_fail:
  "rc \<noteq> RC_OK \<Longrightarrow> length tgt' = length tgt \<Longrightarrow>
   (\<And>ls h. D ls h \<Longrightarrow> hops + h \<le> 255 \<Longrightarrow> tpos + length (wire ls) \<le> 256 \<Longrightarrow> False) \<Longrightarrow>
   decode_post D hops tpos tgt rc tpos' tgt'"
  by (auto simp: decode_post_def)

text \<open>The step over one label and the step over a pointer, shared by the two loops.\<close>

lemma decode_post_label:
  assumes D: "\<And>ls h. D ls h \<longleftrightarrow> (\<exists>ls'. ls = l # ls' \<and> D' ls' h)"
    and l: "length l = unat b" and len: "Suc (tpos + unat b) \<le> 255" "256 \<le> length tgt"
    and post: "decode_post D' hops (Suc (tpos + unat b)) (put tgt tpos (b # l)) rc tpos' tgt'"
  shows "decode_post D hops tpos tgt rc tpos' tgt'"
proof -
  let ?tgt = "put tgt tpos (b # l)"
  have tgt: "take (Suc (tpos + unat b)) ?tgt = take tpos tgt @ b # l" "length ?tgt = length tgt"
    using take_put_end [of tpos tgt "b # l"] l len by simp_all
  have wire: "wire (l # ls) = b # l @ wire ls" for ls
    using l by simp
  have ex: "(\<exists>ls h. D ls h \<and> hops + h \<le> 255 \<and> tpos + length (wire ls) \<le> 256) \<longleftrightarrow>
      (\<exists>ls h. D' ls h \<and> hops + h \<le> 255 \<and> Suc (tpos + unat b) + length (wire ls) \<le> 256)"
    (is "?A \<longleftrightarrow> ?B")
  proof
    assume ?A
    then obtain ls h where "D' ls h" "hops + h \<le> 255" "tpos + length (wire (l # ls)) \<le> 256"
      unfolding D by blast
    then show ?B unfolding wire by (intro exI [of _ ls] exI [of _ h]) (simp add: l)
  next
    assume ?B
    then obtain ls h where "D' ls h" "hops + h \<le> 255" "tpos + length (wire (l # ls)) \<le> 256"
      unfolding wire by (auto simp: l)
    then show ?A unfolding D by blast
  qed
  have stored: "tpos' = tpos + length (wire ls) \<and> take tpos' tgt' = take tpos tgt @ wire ls"
    if ok: "rc = RC_OK" and dec: "D ls h" for ls h
  proof -
    from dec obtain ls' where ls: "ls = l # ls'" and "D' ls' h" unfolding D by blast
    with ok post have "tpos' = Suc (tpos + unat b) + length (wire ls')"
      and "take tpos' tgt' = (take tpos tgt @ b # l) @ wire ls'"
      by (auto simp: decode_post_def tgt)
    then show ?thesis unfolding ls wire by (simp add: l)
  qed
  show ?thesis
    using post [unfolded decode_post_def tgt] stored unfolding decode_post_def ex by blast
qed

lemma decode_post_jump:
  assumes D: "\<And>ls h. D ls h \<longleftrightarrow> (\<exists>h'. h = Suc h' \<and> D' ls h')"
    and post: "decode_post D' (Suc hops) tpos tgt rc tpos' tgt'"
  shows "decode_post D hops tpos tgt rc tpos' tgt'"
proof -
  have "(\<exists>ls h. D ls h \<and> hops + h \<le> 255 \<and> tpos + length (wire ls) \<le> 256) \<longleftrightarrow>
      (\<exists>ls h. D' ls h \<and> Suc hops + h \<le> 255 \<and> tpos + length (wire ls) \<le> 256)"
    unfolding D by (metis add_Suc add_Suc_right)
  then show ?thesis
    using post unfolding decode_post_def D by blast
qed

lemma decodes_label_bounds:
  assumes "rd M i = Some b" and "b \<noteq> 0" and "b \<le> 0x3f" and "decodes M i ls h"
  shows "Suc (i + unat b) < length M" and "Suc (Suc (unat b)) \<le> length (wire ls)"
proof -
  from assms obtain ls' where ls: "ls = take (unat b) (drop (Suc i) M) # ls'"
    and "decodes M (Suc (i + unat b)) ls' h"
    by (auto simp: decodes_byte [OF assms(1-3)])
  then show b: "Suc (i + unat b) < length M" by (auto dest: decodes_bound)
  have "0 < length (wire ls')" by simp
  with ls b show "Suc (Suc (unat b)) \<le> length (wire ls)" by (simp del: length_greater_0_conv)
qed

lemma store_label:
  assumes "Suc (lptr + n) \<le> length msg" and "Suc (tpos + n) \<le> length tgt"
  shows "copy_label msg (Suc lptr) (tgt[tpos := b]) (Suc tpos) n =
    Some (put tgt tpos (b # take n (drop (Suc lptr) msg)))"
  using assms put_put [of tpos "[b]" "take n (drop (Suc lptr) msg)" tgt]
  by (simp add: copy_label_put put_single)

lemma take_drop_take: "i + n \<le> m \<Longrightarrow> take n (drop i (take m xs)) = take n (drop i xs)"
  by (simp add: drop_take min_def)

lemma decodes_ptr_out:
  "decodes (take m msg) i ls h \<Longrightarrow> m \<le> i \<Longrightarrow> False"
  using decodes_bound [of "take m msg" i ls h] by simp

lemma decompress_jumped_ok:
  assumes "msgsz \<le> length msg" and "lptr < msgsz" and "tpos \<le> 255" and "256 \<le> length tgt"
    and "hops \<le> 255"
  shows "ok (decompress_jumped msg msgsz lptr hops tpos tgt) (\<lambda>(rc, tpos', tgt').
    decode_post (decodes (take msgsz msg) lptr) hops tpos tgt rc tpos' tgt')"
  using assms
proof (induction msg msgsz lptr hops tpos tgt rule: decompress_jumped.induct)
  case (1 msg msgsz lptr hops tpos tgt)
  let ?M = "take msgsz msg" and ?lb = "msg ! lptr"
  note unf = decompress_jumped.simps [of msg msgsz lptr hops tpos tgt]
  from "1.prems" have rd: "rd msg lptr = Some ?lb" and rdM: "rd ?M lptr = Some ?lb"
    by (simp_all add: rd_def)
  consider "?lb > 0x3f" | "?lb = 0" | "?lb \<noteq> 0" "\<not> ?lb > 0x3f" by blast
  then show ?case
  proof cases
    case 1
    note D = decodes_jump [OF rdM 1]
    show ?thesis
    proof (cases "?lb < 0xc0 \<or> Suc lptr \<ge> msgsz \<or> hops = 255 \<or> ptr_offs ?lb (msg ! Suc lptr) \<ge> msgsz")
      case True
      then have "decode_post (decodes ?M lptr) hops tpos tgt RC_FORMAT tpos tgt"
        using "1.prems" by (intro decode_post_fail) (auto simp: D rd_take rd_eq_Some_iff dest: decodes_bound split: if_splits)
      with True 1 rd "1.prems" show ?thesis
        by (auto simp: unf ok_simps)
    next
      case False
      then have rd1: "rd msg (Suc lptr) = Some (msg ! Suc lptr)" "rd ?M (Suc lptr) = Some (msg ! Suc lptr)"
        using "1.prems" by (simp_all add: rd_def)
      let ?p = "ptr_offs ?lb (msg ! Suc lptr)"
      have "ok (decompress_jumped msg msgsz ?p (Suc hops) tpos tgt) (\<lambda>(rc, tpos', tgt').
          decode_post (decodes ?M ?p) (Suc hops) tpos tgt rc tpos' tgt')"
        using "1.IH"(1) [OF rd refl 1] False "1.prems" rd1 by auto
      then have "ok (decompress_jumped msg msgsz ?p (Suc hops) tpos tgt) (\<lambda>(rc, tpos', tgt').
          decode_post (decodes ?M lptr) hops tpos tgt rc tpos' tgt')"
        using False rd1 by (auto elim!: ok_mono intro!: decode_post_jump [of _ "decodes ?M ?p"] simp: D)
      with False 1 rd rd1 "1.prems" show ?thesis by (simp add: unf)
    qed
  next
    case 2
    with rd rdM "1.prems" show ?thesis
      by (simp add: unf ok_simps decode_post_def decodes_zero take_update_append)
  next
    case 3
    then have lb: "?lb \<noteq> 0" "?lb \<le> 0x3f" by simp_all
    note bounds = decodes_label_bounds [OF rdM lb]
    show ?thesis
    proof (cases "Suc (lptr + unat ?lb) \<ge> msgsz \<or> Suc (tpos + unat ?lb) > 255")
      case True
      then have "decode_post (decodes ?M lptr) hops tpos tgt RC_FORMAT (Suc tpos) (tgt[tpos := ?lb])"
        using "1.prems" by (intro decode_post_fail) (auto dest: bounds)
      with True 3 rd "1.prems" show ?thesis
        by (auto simp: unf ok_simps DNSNAMEBUFSIZE_def)
    next
      case False
      let ?l = "take (unat ?lb) (drop (Suc lptr) msg)"
      have l: "take (unat ?lb) (drop (Suc lptr) ?M) = ?l"
        using False by (intro take_drop_take) simp
      have wr: "wr tgt tpos ?lb = Some (tgt[tpos := ?lb])" using "1.prems" by simp
      have cp: "copy_label msg (Suc lptr) (tgt[tpos := ?lb]) (Suc tpos) (unat ?lb) =
          Some (put tgt tpos (?lb # ?l))"
        using False "1.prems" by (intro store_label) auto
      have "ok (decompress_jumped msg msgsz (Suc (lptr + unat ?lb)) hops (Suc (tpos + unat ?lb))
          (put tgt tpos (?lb # ?l))) (\<lambda>(rc, tpos', tgt').
          decode_post (decodes ?M (Suc (lptr + unat ?lb))) hops (Suc (tpos + unat ?lb))
            (put tgt tpos (?lb # ?l)) rc tpos' tgt')"
        using "1.IH"(2) [OF rd refl 3(2) wr refl 3(1)] False "1.prems" cp
        by (simp add: DNSNAMEBUFSIZE_def)
      then have "ok (decompress_jumped msg msgsz (Suc (lptr + unat ?lb)) hops (Suc (tpos + unat ?lb))
          (put tgt tpos (?lb # ?l))) (\<lambda>(rc, tpos', tgt').
          decode_post (decodes ?M lptr) hops tpos tgt rc tpos' tgt')"
        using False "1.prems" by (auto elim!: ok_mono intro!: decode_post_label [OF decodes_byte [OF rdM lb]] simp: l)
      with False 3 rd wr cp show ?thesis
        by (simp add: unf DNSNAMEBUFSIZE_def)
    qed
  qed
qed

text \<open>
  The first loop: in addition it must find the name, up to its first jump or its end, inside
  the \<open>newsz\<close> bytes of data. \<open>occupies msg i n\<close>: it takes \<open>n\<close> bytes there.
\<close>

inductive occupies :: "bytes \<Rightarrow> nat \<Rightarrow> nat \<Rightarrow> bool" for msg :: bytes where
  occupies_end: "rd msg i = Some 0 \<Longrightarrow> occupies msg i (Suc 0)"
| occupies_label: "rd msg i = Some b \<Longrightarrow> b \<noteq> 0 \<Longrightarrow> b \<le> 0x3f \<Longrightarrow>
    occupies msg (Suc (i + unat b)) n \<Longrightarrow> occupies msg i (Suc (unat b + n))"
| occupies_ptr: "rd msg i = Some b \<Longrightarrow> b \<ge> 0xc0 \<Longrightarrow> occupies msg i 2"

lemma occupies_zero: "rd msg i = Some 0 \<Longrightarrow> occupies msg i n \<longleftrightarrow> n = Suc 0"
  by (auto elim: occupies.cases intro: occupies_end dest: byte_ge_c0)

lemma occupies_byte:
  assumes "rd msg i = Some b" and "b \<noteq> 0" and "b \<le> 0x3f"
  shows "occupies msg i n \<longleftrightarrow> (\<exists>n'. n = Suc (unat b + n') \<and> occupies msg (Suc (i + unat b)) n')"
proof
  assume "occupies msg i n"
  then show "\<exists>n'. n = Suc (unat b + n') \<and> occupies msg (Suc (i + unat b)) n'"
    using assms by (cases rule: occupies.cases) (auto dest: byte_ge_c0)
qed (use assms in \<open>auto intro: occupies_label\<close>)

lemma occupies_jump:
  assumes "rd msg i = Some b" and "b > 0x3f"
  shows "occupies msg i n \<longleftrightarrow> b \<ge> 0xc0 \<and> n = 2"
proof
  assume "occupies msg i n"
  then show "b \<ge> 0xc0 \<and> n = 2"
    using assms by (cases rule: occupies.cases) auto
qed (use assms in \<open>auto intro: occupies_ptr\<close>)

lemma occupies_pos: "occupies msg i n \<Longrightarrow> 0 < n"
  by (auto elim: occupies.cases)

text \<open>The names at \<open>i\<close> that end, or leave by a pointer, within \<open>sz\<close> bytes.\<close>

definition decodes_within :: "bytes \<Rightarrow> nat \<Rightarrow> nat \<Rightarrow> label list \<Rightarrow> nat \<Rightarrow> bool" where
  "decodes_within msg i sz ls h \<longleftrightarrow> decodes msg i ls h \<and> (\<exists>n \<le> sz. occupies msg i n)"

lemma decodes_within_byte:
  assumes "rd msg i = Some b" and "b \<noteq> 0" and "b \<le> 0x3f" and "Suc (unat b) \<le> sz"
  shows "decodes_within msg i sz ls h \<longleftrightarrow> (\<exists>ls'. ls = take (unat b) (drop (Suc i) msg) # ls' \<and>
    decodes_within msg (Suc (i + unat b)) (sz - Suc (unat b)) ls' h)"
proof -
  have "(\<exists>n \<le> sz. occupies msg i n) \<longleftrightarrow>
      (\<exists>n \<le> sz - Suc (unat b). occupies msg (Suc (i + unat b)) n)" (is "?A \<longleftrightarrow> ?B")
  proof
    assume ?A
    then obtain n where "Suc (unat b + n) \<le> sz" "occupies msg (Suc (i + unat b)) n"
      by (auto simp: occupies_byte [OF assms(1-3)])
    then show ?B by (intro exI [of _ n]) auto
  next
    assume ?B
    then obtain n where "n \<le> sz - Suc (unat b)" "occupies msg (Suc (i + unat b)) n" by blast
    with assms(4) show ?A
      by (intro exI [of _ "Suc (unat b + n)"]) (auto simp: occupies_byte [OF assms(1-3)])
  qed
  then show ?thesis
    by (auto simp: decodes_within_def decodes_byte [OF assms(1-3)])
qed

definition first_post ::
  "bytes \<Rightarrow> nat \<Rightarrow> nat \<Rightarrow> nat \<Rightarrow> bytes \<Rightarrow> nat \<times> nat \<times> nat \<times> bytes \<Rightarrow> bool" where
  "first_post M i newsz tpos tgt = (\<lambda>(rc, newsz', tpos', tgt').
     decode_post (decodes_within M i newsz) 0 tpos tgt rc tpos' tgt' \<and>
     (rc = RC_OK \<longrightarrow> newsz' \<le> newsz \<and> occupies M i (newsz - newsz')))"

lemma first_post_label:
  assumes post: "first_post M (Suc (i + unat b)) (newsz - 1 - unat b) (Suc (tpos + unat b))
      (put tgt tpos (b # l)) r"
    and b: "rd M i = Some b" "b \<noteq> 0" "b \<le> 0x3f"
    and l: "take (unat b) (drop (Suc i) M) = l" and "length l = unat b"
    and sz: "unat b < newsz - 1" and "Suc (tpos + unat b) \<le> 255" "256 \<le> length tgt"
  shows "first_post M i newsz tpos tgt r"
proof -
  obtain rc newsz' tpos' tgt' where r: "r = (rc, newsz', tpos', tgt')" by (cases r)
  have "decode_post (decodes_within M i newsz) 0 tpos tgt rc tpos' tgt'"
  proof (rule decode_post_label)
    show "decodes_within M i newsz ls h \<longleftrightarrow> (\<exists>ls'. ls = l # ls' \<and>
        decodes_within M (Suc (i + unat b)) (newsz - Suc (unat b)) ls' h)" for ls h
      using decodes_within_byte [OF b, of newsz ls h] sz l by simp
  qed (use post assms r in \<open>auto simp: first_post_def\<close>)
  moreover have "newsz' \<le> newsz \<and> occupies M i (newsz - newsz')" if "rc = RC_OK"
  proof -
    from post that r have "newsz' \<le> newsz - 1 - unat b"
      and "occupies M (Suc (i + unat b)) (newsz - 1 - unat b - newsz')"
      by (auto simp: first_post_def)
    moreover from this(1) sz have "Suc (unat b + (newsz - 1 - unat b - newsz')) = newsz - newsz'"
      by linarith
    ultimately show ?thesis
      using occupies_label [OF b, of "newsz - 1 - unat b - newsz'"] by (metis diff_le_self le_trans)
  qed
  ultimately show ?thesis by (simp add: first_post_def r)
qed

lemma decompress_first_ok:
  assumes "msgsz \<le> length msg" and "lptr < msgsz" and "tpos \<le> 255" and "256 \<le> length tgt"
    and "0 < newsz"
  shows "ok (decompress_first msg msgsz lptr newsz tpos tgt)
    (first_post (take msgsz msg) lptr newsz tpos tgt)"
  using assms
proof (induction msg msgsz lptr newsz tpos tgt rule: decompress_first.induct)
  case (1 msg msgsz lptr newsz tpos tgt)
  let ?M = "take msgsz msg" and ?lb = "msg ! lptr"
  note unf = decompress_first.simps [of msg msgsz lptr newsz tpos tgt]
  from "1.prems" have rd: "rd msg lptr = Some ?lb" and rdM: "rd ?M lptr = Some ?lb"
    and us: "usub newsz 1 = Some (newsz - 1)"
    by (simp_all add: rd_def)
  consider "?lb > 0x3f" | "?lb = 0" | "?lb \<noteq> 0" "\<not> ?lb > 0x3f" by blast
  then show ?case
  proof cases
    case 1
    note D = decodes_jump [OF rdM 1] and O = occupies_jump [OF rdM 1]
    have fail: "rc \<noteq> RC_OK \<Longrightarrow> first_post ?M lptr newsz tpos tgt (rc, newsz', tpos, tgt)"
      if "?lb < 0xc0 \<or> newsz = 1 \<or> Suc lptr \<ge> msgsz \<or> ptr_offs ?lb (msg ! Suc lptr) \<ge> msgsz" for rc newsz'
      unfolding first_post_def using that "1.prems"
      by (auto simp: D O decodes_within_def rd_take rd_eq_Some_iff dest: decodes_ptr_out
          intro!: decode_post_fail split: if_splits)
    show ?thesis
    proof (cases "?lb < 0xc0 \<or> newsz = 1 \<or> Suc lptr \<ge> msgsz \<or> ptr_offs ?lb (msg ! Suc lptr) \<ge> msgsz")
      case True
      with 1 rd us "1.prems" fail [OF True] show ?thesis
        by (auto simp: unf ok_simps)
    next
      case False
      then have rd1: "rd msg (Suc lptr) = Some (msg ! Suc lptr)" "rd ?M (Suc lptr) = Some (msg ! Suc lptr)"
        using "1.prems" by (simp_all add: rd_def)
      let ?p = "ptr_offs ?lb (msg ! Suc lptr)"
      have D': "decodes_within ?M lptr newsz ls h \<longleftrightarrow> (\<exists>h'. h = Suc h' \<and> decodes ?M ?p ls h')" for ls h
        using False rd1 "1.prems" by (auto simp: D O decodes_within_def)
      have "ok (decompress_jumped msg msgsz ?p 1 tpos tgt) (\<lambda>(rc, tpos', tgt').
          first_post ?M lptr newsz tpos tgt (rc, newsz - 2, tpos', tgt'))"
        using decompress_jumped_ok [of msgsz msg ?p tpos tgt 1] False "1.prems"
        by (auto simp: first_post_def O elim!: ok_mono intro!: decode_post_jump [OF D'])
      with False 1 rd us rd1 "1.prems" show ?thesis
        by (auto simp: unf ok_simps numeral_2_eq_2 elim!: ok_mono)
    qed
  next
    case 2
    with rd rdM us "1.prems" show ?thesis
      by (auto simp: unf ok_simps first_post_def decode_post_def decodes_within_def decodes_zero
          occupies_zero take_update_append)
  next
    case 3
    then have lb: "?lb \<noteq> 0" "?lb \<le> 0x3f" by simp_all
    have bounds: "decodes ?M lptr ls h \<Longrightarrow>
        Suc (lptr + unat ?lb) < length ?M \<and> Suc (Suc (unat ?lb)) \<le> length (wire ls)" for ls h
      using decodes_label_bounds [OF rdM lb] by blast
    show ?thesis
    proof (cases "newsz - 1 \<le> unat ?lb \<or> Suc (lptr + unat ?lb) \<ge> msgsz \<or> Suc (tpos + unat ?lb) > 255")
      case True
      then have fail: "rc \<noteq> RC_OK \<Longrightarrow>
          first_post ?M lptr newsz tpos tgt (rc, newsz', Suc tpos, tgt[tpos := ?lb])" for rc newsz'
        using "1.prems" unfolding first_post_def
        by (auto simp: decodes_within_def occupies_byte [OF rdM lb] intro!: decode_post_fail
            dest!: bounds occupies_pos)
      with True 3 rd us "1.prems" show ?thesis
        by (auto simp: unf ok_simps DNSNAMEBUFSIZE_def)
    next
      case False
      let ?l = "take (unat ?lb) (drop (Suc lptr) msg)" and ?n = "newsz - 1 - unat ?lb"
      have l: "take (unat ?lb) (drop (Suc lptr) ?M) = ?l"
        using False by (intro take_drop_take) simp
      have wr: "wr tgt tpos ?lb = Some (tgt[tpos := ?lb])" using "1.prems" by simp
      have us': "usub (newsz - 1) (unat ?lb) = Some ?n" using False by simp
      have cp: "copy_label msg (Suc lptr) (tgt[tpos := ?lb]) (Suc tpos) (unat ?lb) =
          Some (put tgt tpos (?lb # ?l))"
        using False "1.prems" by (intro store_label) auto
      have "length (put tgt tpos (?lb # ?l)) = length tgt" "0 < ?n"
        using False "1.prems" by auto
      then have "ok (decompress_first msg msgsz (Suc (lptr + unat ?lb)) ?n (Suc (tpos + unat ?lb))
          (put tgt tpos (?lb # ?l)))
          (first_post ?M (Suc (lptr + unat ?lb)) ?n (Suc (tpos + unat ?lb)) (put tgt tpos (?lb # ?l)))"
        using "1.IH" [OF us rd refl 3(2) wr refl 3(1)] False "1.prems" us' cp
        by (simp add: DNSNAMEBUFSIZE_def)
      then have "ok (decompress_first msg msgsz (Suc (lptr + unat ?lb)) ?n (Suc (tpos + unat ?lb))
          (put tgt tpos (?lb # ?l))) (first_post ?M lptr newsz tpos tgt)"
      proof (rule ok_mono)
        fix r
        assume "first_post ?M (Suc (lptr + unat ?lb)) ?n (Suc (tpos + unat ?lb)) (put tgt tpos (?lb # ?l)) r"
        then show "first_post ?M lptr newsz tpos tgt r"
          by (rule first_post_label [OF _ rdM lb l]) (use False "1.prems" in auto)
      qed
      with False 3 rd wr cp us us' show ?thesis
        by (simp add: unf DNSNAMEBUFSIZE_def)
    qed
  qed
qed

text \<open>
  \<open>decompress_name\<close> as a whole. On any message whatever it stays inside the message and
  the buffer, and stops. It succeeds exactly if the position lies in the message and decodes
  within \<open>sz\<close> bytes, with at most 255 jumps, to a name that fits the buffer; then that name
  is in the buffer, and the position and the size are advanced by the bytes it occupies.
\<close>

definition decompress_post :: "bytes \<Rightarrow> nat \<Rightarrow> nat \<Rightarrow> bytes \<Rightarrow> decompressed \<Rightarrow> bool" where
  "decompress_post M src sz tgt d \<longleftrightarrow>
     length (d_tgt d) = length tgt \<and>
     (d_rc d = RC_OK \<longleftrightarrow> (\<exists>ls h. decodes_within M src sz ls h \<and> h \<le> 255 \<and> wf_name ls)) \<and>
     (d_rc d \<noteq> RC_OK \<longrightarrow> d_src d = src \<and> d_sz d = sz \<and> d_len d = None) \<and>
     (\<forall>ls h. d_rc d = RC_OK \<and> decodes M src ls h \<longrightarrow>
        d_len d = Some (length (wire ls)) \<and> take (length (wire ls)) (d_tgt d) = wire ls \<and>
        wf_name ls \<and> (\<exists>n. occupies M src n \<and> d_src d = src + n \<and> d_sz d + n = sz))"

lemma decodes_within_decodes: "decodes_within M i sz ls h \<Longrightarrow> decodes M i ls h"
  by (simp add: decodes_within_def)

lemma decodes_name_iff:
  "decodes M i ls h \<Longrightarrow> wf_name ls \<longleftrightarrow> length (wire ls) \<le> 256"
  by (simp add: wf_name_def decodes_wf DNSNAMEBUFSIZE_def)

lemma decompress_name_ok:
  assumes "msgsz \<le> length msg" and "256 \<le> length tgt"
  shows "ok (decompress_name msg msgsz src sz tgt) (decompress_post (take msgsz msg) src sz tgt)"
proof -
  let ?M = "take msgsz msg"
  consider "sz = 0" | "0 < sz" "msgsz \<le> src" | "0 < sz" "src < msgsz" by linarith
  then show ?thesis
  proof cases
    case 1
    have "\<not> decodes_within ?M src 0 ls h" for ls h
      by (auto simp: decodes_within_def dest: occupies_pos)
    with 1 show ?thesis by (simp add: decompress_name_def decompress_post_def)
  next
    case 2
    then have "\<not> decodes_within ?M src sz ls h" for ls h
      by (auto simp: decodes_within_def dest: decodes_ptr_out)
    with 2 show ?thesis by (simp add: decompress_name_def decompress_post_def)
  next
    case 3
    have "ok (decompress_first msg msgsz src sz 0 tgt) (first_post ?M src sz 0 tgt)"
      using 3 assms by (intro decompress_first_ok) auto
    then obtain rc newsz tpos tgt' where r: "decompress_first msg msgsz src sz 0 tgt = Some (rc, newsz, tpos, tgt')"
      and post: "first_post ?M src sz 0 tgt (rc, newsz, tpos, tgt')"
      by (elim okE) (metis prod_cases4)
    from post have len: "length tgt' = length tgt"
      and iff: "rc = RC_OK \<longleftrightarrow> (\<exists>ls h. decodes_within ?M src sz ls h \<and> h \<le> 255 \<and> wf_name ls)"
      by (auto simp: first_post_def decode_post_def)
        (metis decodes_name_iff [OF decodes_within_decodes])+
    show ?thesis
    proof (cases "rc = RC_OK")
      case True
      with iff obtain ls h where ls: "decodes_within ?M src sz ls h" "wf_name ls" by auto
      with post True have "tpos = length (wire ls)" "take tpos tgt' = wire ls" "newsz \<le> sz"
        "occupies ?M src (sz - newsz)"
        by (auto simp: first_post_def decode_post_def)
      moreover have "ls' = ls" if "decodes ?M src ls' h'" for ls' h'
        using that ls decodes_det by (auto simp: decodes_within_def)
      ultimately show ?thesis
        using 3 True r iff ls len by (auto simp: decompress_name_def decompress_post_def)
    next
      case False
      with 3 r iff len show ?thesis
        by (auto simp: decompress_name_def decompress_post_def)
    qed
  qed
qed

text \<open>The return codes.\<close>

lemma decompress_jumped_rc:
  assumes "RC_OK \<in> S" and "RC_FORMAT \<in> S"
  shows "decompress_jumped msg msgsz lptr hops tpos tgt = Some (rc, tpos', tgt') \<Longrightarrow> rc \<in> S"
proof (induction msg msgsz lptr hops tpos tgt rule: decompress_jumped.induct)
  case (1 msg msgsz lptr hops tpos tgt)
  note unf = decompress_jumped.simps [of msg msgsz lptr hops tpos tgt]
  from "1.prems" obtain lb where lb: "rd msg lptr = Some lb" by (auto simp: unf bind_eq_Some_conv)
  show ?case
  proof (cases "lb > 0x3f")
    case True
    with lb "1.prems" show ?thesis
      by (auto simp: unf bind_eq_Some_conv assms split: if_splits)
        (rule "1.IH"(1) [simplified], (assumption | simp)+)
  next
    case False
    with lb "1.prems" show ?thesis
      by (auto simp: unf bind_eq_Some_conv assms split: if_splits)
        (rule "1.IH"(2) [simplified], (assumption | simp)+)
  qed
qed

lemma decompress_first_rc:
  assumes "RC_OK \<in> S" and "RC_FORMAT \<in> S" and "RC_TRUNC \<in> S"
  shows "decompress_first msg msgsz lptr newsz tpos tgt = Some (rc, newsz', tpos', tgt') \<Longrightarrow> rc \<in> S"
proof (induction msg msgsz lptr newsz tpos tgt rule: decompress_first.induct)
  case (1 msg msgsz lptr newsz tpos tgt)
  from "1.prems" show ?case
    unfolding decompress_first.simps [of msg msgsz lptr newsz tpos tgt]
    by (auto simp: bind_eq_Some_conv Let_def assms decompress_jumped_rc [OF assms(1,2)] split: if_splits)
      (rule "1.IH" [simplified], (assumption | simp)+)+
qed

lemma decompress_name_rc:
  assumes "decompress_name msg msgsz src sz tgt = Some d"
  shows "d_rc d \<in> {RC_OK, RC_FORMAT, RC_TRUNC}"
proof -
  have "rc \<in> {RC_OK, RC_FORMAT, RC_TRUNC}" if "decompress_first msg msgsz src sz 0 tgt = Some (rc, r)" for rc r
    using that by (cases r) (rule decompress_first_rc [rotated -1], auto)
  with assms show ?thesis
    unfolding decompress_name_def by (fastforce simp: bind_eq_Some_conv split: if_splits)
qed

section \<open>Properties\<close>

text \<open>
  C6. \<open>decompress_name\<close> is safe and exact on every message, however malformed: it never
  reads outside the first \<open>msgsz\<close> bytes of the message nor writes outside the 256 bytes of
  the buffer, it always stops, it answers \<open>RC_OK\<close> exactly if the position decodes (RFC
  1035, at most 255 pointers followed) to a name that fits, within the \<open>sz\<close> bytes of data,
  and then it leaves precisely that name in the buffer and advances \<^verbatim>\<open>*src\<close> and \<^verbatim>\<open>*sz\<close>
  by the bytes the name occupies; otherwise it leaves them as they were.
\<close>

theorem decompress_name_correct:
  assumes "msgsz \<le> length msg" and "DNSNAMEBUFSIZE \<le> length tgt"
  shows "ok (decompress_name msg msgsz src sz tgt) (decompress_post (take msgsz msg) src sz tgt)"
  using assms by (intro decompress_name_ok) (simp_all add: DNSNAMEBUFSIZE_def)

theorem decompress_name_correct_witness:
  "ok (decompress_name [1, 97, 0, 1, 98, 0xc0, 0] 7 3 4 (replicate 256 0))
     (decompress_post (take 7 [1, 97, 0, 1, 98, 0xc0, 0]) 3 4 (replicate 256 0))"
  using decompress_name_correct [of 7 "[1, 97, 0, 1, 98, 0xc0, 0]" "replicate 256 0" 3 4]
  by (simp add: DNSNAMEBUFSIZE_def)

end
