(* ===== verification/Lists.thy ===== *)
theory Lists
  imports Prelude
begin

text \<open>
  The container types of \<^verbatim>\<open>src/list.c\<close> and \<^verbatim>\<open>src/list.h\<close>: dynamic arrays
  (\<open>darray\<close>, grown eight slots at a time), dynamic lists (\<open>dlist\<close>, items of varying
  size packed into one block with a link word before each) and linked lists (\<open>llist\<close>).

  An allocated block is modelled with its size, so that an access outside it is a fault, and a
  failing \<^verbatim>\<open>realloc\<close> or \<^verbatim>\<open>malloc\<close> is an argument of the operation (\<open>mem\<close>: the
  outcome of the call). Dynamic arrays and dynamic lists implement one interface, the locale
  \<open>sequence\<close> below: a sequence of elements that grows at its end, and that is gone when the
  memory is exhausted.
\<close>

section \<open>Dynamic arrays\<close>

text \<open>
  \<open>slots\<close> is the allocated space, an uninitialised slot is \<open>None\<close>. A null pointer is
  \<open>None\<close>. The result of growing also lists the elements passed to the clean-up routine.
\<close>

record 'a darray =
  nel :: nat
  slots :: "'a option list"

definition realloc_slots :: "'a option list \<Rightarrow> nat \<Rightarrow> 'a option list" where
  "realloc_slots sl n = take n sl @ replicate (n - length sl) None"

definition da_nel :: "'a darray option \<Rightarrow> nat" where
  "da_nel a = (case a of None \<Rightarrow> 0 | Some d \<Rightarrow> nel d)"

fun cleanup_elems :: "'a option list \<Rightarrow> nat \<Rightarrow> 'a list option" where
  "cleanup_elems sl 0 = Some []"
| "cleanup_elems sl (Suc k) = do {
     xs \<leftarrow> cleanup_elems sl k;
     s \<leftarrow> rd sl k;
     x \<leftarrow> s;
     Some (xs @ [x]) }"

definition da_grow1 ::
  "'a darray option \<Rightarrow> bool \<Rightarrow> bool \<Rightarrow> ('a darray option \<times> 'a list) option" where
  "da_grow1 a cleanup mem =
     (let k = da_nel a in
      if a = None \<or> (k \<noteq> 0 \<and> k mod 8 = 0) then
        (if mem then
           Some (Some \<lparr>nel = k + 1,
             slots = realloc_slots (case a of None \<Rightarrow> [] | Some d \<Rightarrow> slots d) (k + 8)\<rparr>, [])
         else case a of
             None \<Rightarrow> Some (None, [])
           | Some d \<Rightarrow> (if cleanup then do { xs \<leftarrow> cleanup_elems (slots d) k; Some (None, xs) }
                        else Some (None, [])))
      else case a of None \<Rightarrow> Some (None, []) | Some d \<Rightarrow> Some (Some (d\<lparr>nel := k + 1\<rparr>), []))"

text \<open>\<^verbatim>\<open>n==0 ? 8 : (n+7)&(~7)\<close>, on \<^verbatim>\<open>size_t\<close>\<close>

definition alloc_nel :: "nat \<Rightarrow> nat" where
  "alloc_nel n = (if n = 0 then 8 else unat ((of_nat (n + 7) :: 64 word) AND NOT 7))"

definition da_resize ::
  "'a darray option \<Rightarrow> nat \<Rightarrow> bool \<Rightarrow> bool \<Rightarrow> ('a darray option \<times> 'a list) option" where
  "da_resize a n cleanup mem =
     (let ael = (case a of None \<Rightarrow> 0 | Some d \<Rightarrow> alloc_nel (nel d)); new_ael = alloc_nel n in
      if new_ael \<noteq> ael then
        (if mem then
           Some (Some \<lparr>nel = n,
             slots = realloc_slots (case a of None \<Rightarrow> [] | Some d \<Rightarrow> slots d) new_ael\<rparr>, [])
         else case a of
             None \<Rightarrow> Some (None, [])
           | Some d \<Rightarrow> (if cleanup then do { xs \<leftarrow> cleanup_elems (slots d) (nel d); Some (None, xs) }
                        else Some (None, [])))
      else case a of None \<Rightarrow> Some (None, []) | Some d \<Rightarrow> Some (Some (d\<lparr>nel := n\<rparr>), []))"

text \<open>\<^verbatim>\<open>DA_LAST(a)=v\<close>, the store with which the callers fill a fresh slot, and
  \<^verbatim>\<open>DA_INDEX(a,i)\<close>\<close>

definition DA_LAST_set :: "'a darray \<Rightarrow> 'a \<Rightarrow> 'a darray option" where
  "DA_LAST_set d v = (if nel d = 0 then None else do {
     sl \<leftarrow> wr (slots d) (nel d - 1) (Some v);
     Some (d\<lparr>slots := sl\<rparr>) })"

definition DA_INDEX :: "'a darray \<Rightarrow> nat \<Rightarrow> 'a option" where
  "DA_INDEX d i = Option.bind (rd (slots d) i) id"

section \<open>Dynamic lists\<close>

text \<open>
  The block of a dynamic list: offsets into \<^verbatim>\<open>data\<close>, the link words stored there, the items
  (each directly after its link word) and the size of the block.
\<close>

record 'a dlist =
  dl_last :: nat
  dl_lastsz :: nat
  link :: "nat \<rightharpoonup> nat"
  item :: "nat \<rightharpoonup> 'a"
  allocsz :: nat

definition sizeof_size_t :: nat where "sizeof_size_t = 8"

definition DLISTALIGN :: "nat \<Rightarrow> nat" where
  "DLISTALIGN len = unat ((of_nat (len + (sizeof_size_t - 1)) :: 64 word) AND NOT 7)"

definition dlist_chunk :: "nat \<Rightarrow> nat" where
  "dlist_chunk n = unat ((of_nat (n + 0x3ff) :: 64 word) AND NOT 0x3ff)"

text \<open>A link word at \<open>off\<close> must lie in the block.\<close>

definition set_link :: "'a dlist \<Rightarrow> nat \<Rightarrow> nat \<Rightarrow> 'a dlist option" where
  "set_link a off v = (if off + sizeof_size_t \<le> allocsz a then Some (a\<lparr>link := (link a)(off \<mapsto> v)\<rparr>) else None)"

definition get_link :: "'a dlist \<Rightarrow> nat \<Rightarrow> nat option" where
  "get_link a off = (if off + sizeof_size_t \<le> allocsz a then link a off else None)"

definition dlist_grow :: "'a dlist option \<Rightarrow> nat \<Rightarrow> bool \<Rightarrow> 'a dlist option option" where
  "dlist_grow a len mem = do {
     let sz = (case a of None \<Rightarrow> 0 | Some d \<Rightarrow> dl_last d + dl_lastsz d);
     let asz = (case a of None \<Rightarrow> 0 | Some d \<Rightarrow> dlist_chunk sz);
     a \<leftarrow> (case a of None \<Rightarrow> Some None
          | Some d \<Rightarrow> map_option Some (set_link d (dl_last d) (dl_lastsz d)));
     let szincr = DLISTALIGN (len + sizeof_size_t);
     let newsz = sz + szincr;
     let a = (if newsz > asz then
                (if mem then
                   Some ((case a of None \<Rightarrow> \<lparr>dl_last = 0, dl_lastsz = 0, link = Map.empty, item = Map.empty, allocsz = 0\<rparr>
                          | Some d \<Rightarrow> d)\<lparr>allocsz := dlist_chunk newsz\<rparr>)
                 else None)
              else a);
     case a of None \<Rightarrow> Some None
     | Some d \<Rightarrow> map_option Some (set_link (d\<lparr>dl_last := sz, dl_lastsz := szincr\<rparr>) sz 0) }"

text \<open>
  References to items are offsets of the item, just behind the link word. \<open>dlist_last_set\<close>
  fills the item that \<open>dlist_last\<close> refers to with a value of \<open>len\<close> bytes.
\<close>

definition dlist_first :: "'a dlist option \<Rightarrow> nat option" where
  "dlist_first a = map_option (\<lambda>_. sizeof_size_t) a"

definition dlist_next :: "'a dlist \<Rightarrow> nat \<Rightarrow> nat option option" where
  "dlist_next a ref = do {
     incr \<leftarrow> get_link a (ref - sizeof_size_t);
     Some (if incr \<noteq> 0 then Some (ref + incr) else None) }"

definition dlist_last :: "'a dlist option \<Rightarrow> nat option" where
  "dlist_last a = map_option (\<lambda>d. dl_last d + sizeof_size_t) a"

definition dlist_last_set :: "'a dlist \<Rightarrow> 'a \<Rightarrow> nat \<Rightarrow> 'a dlist option" where
  "dlist_last_set a v len = do {
     ref \<leftarrow> dlist_last (Some a);
     if ref + len \<le> allocsz a then Some (a\<lparr>item := (item a)(ref \<mapsto> v)\<rparr>) else None }"

text \<open>The loop \<^verbatim>\<open>for (ci=dlist_first(a); ci; ci=dlist_next(ci))\<close>, collecting the items.\<close>

function dlist_walk :: "'a dlist \<Rightarrow> nat \<Rightarrow> 'a list option" where
  "dlist_walk a ref = do {
     x \<leftarrow> item a ref;
     nxt \<leftarrow> dlist_next a ref;
     (case nxt of None \<Rightarrow> Some [x]
      | Some ref' \<Rightarrow> do { xs \<leftarrow> dlist_walk a ref'; Some (x # xs) }) }"
  by pat_completeness auto
termination
  by (relation "measure (\<lambda>(a, ref). allocsz a + 8 - ref)")
    (auto simp: dlist_next_def get_link_def sizeof_size_t_def bind_eq_Some_conv split: if_splits)

definition dlist_items :: "'a dlist option \<Rightarrow> 'a list option" where
  "dlist_items a = (case a of None \<Rightarrow> Some []
     | Some d \<Rightarrow> do { ref \<leftarrow> dlist_first a; dlist_walk d ref })"

declare dlist_walk.simps [simp del]

section \<open>Linked lists\<close>

text \<open>
  The nodes of the heap as an association from addresses to the next pointer and the data. The
  address that \<^verbatim>\<open>malloc\<close> returns is an argument (\<open>None\<close>: no memory); freeing a node
  that is not allocated is a fault.
\<close>

type_synonym 'a llist_nodes = "(nat \<times> nat option \<times> 'a) list"

record llist =
  ll_first :: "nat option"
  ll_last :: "nat option"

definition llist_init :: "llist" where
  "llist_init = \<lparr>ll_first = None, ll_last = None\<rparr>"

definition llist_isempty :: "llist \<Rightarrow> bool" where
  "llist_isempty a \<longleftrightarrow> ll_first a = None"

definition free_node :: "'a llist_nodes \<Rightarrow> nat \<Rightarrow> 'a llist_nodes" where
  "free_node h q = filter (\<lambda>(p, _). p \<noteq> q) h"

function llist_free_loop :: "'a llist_nodes \<Rightarrow> nat option \<Rightarrow> 'a llist_nodes option" where
  "llist_free_loop h p = (case p of None \<Rightarrow> Some h
     | Some q \<Rightarrow> do { (nxt, v) \<leftarrow> map_of h q; llist_free_loop (free_node h q) nxt })"
  by pat_completeness auto
termination
proof (relation "measure (\<lambda>(h, p). length h)", goal_cases)
  case (2 h p q node nxt v)
  then have "(q, node) \<in> set h" by (simp add: map_of_SomeD)
  then show ?case by (auto simp: free_node_def intro!: length_filter_less)
qed simp

definition llist_free :: "'a llist_nodes \<Rightarrow> llist \<Rightarrow> ('a llist_nodes \<times> llist) option" where
  "llist_free h a = do { h \<leftarrow> llist_free_loop h (ll_first a); Some (h, \<lparr>ll_first = None, ll_last = None\<rparr>) }"

text \<open>\<^verbatim>\<open>new->next=NULL\<close> and the caller's data; then the link of the old last node.\<close>

definition llist_grow ::
  "'a llist_nodes \<Rightarrow> llist \<Rightarrow> nat option \<Rightarrow> 'a \<Rightarrow> (bool \<times> 'a llist_nodes \<times> llist) option" where
  "llist_grow h a new v = (case new of
     None \<Rightarrow> do { (h, a) \<leftarrow> llist_free h a; Some (False, h, a) }
   | Some p \<Rightarrow> do {
       let h = (p, None, v) # h;
       (h, a) \<leftarrow> (if ll_first a = None then Some (h, a\<lparr>ll_first := Some p\<rparr>)
         else do {
           l \<leftarrow> ll_last a;
           (n, w) \<leftarrow> map_of h l;
           Some ((l, Some p, w) # free_node h l, a) });
       Some (True, h, a\<lparr>ll_last := Some p\<rparr>) })"

declare llist_free_loop.simps [simp del]


definition llist_first :: "llist \<Rightarrow> nat option" where
  "llist_first a = ll_first a"

definition llist_next :: "'a llist_nodes \<Rightarrow> nat \<Rightarrow> nat option option" where
  "llist_next h ref = map_option fst (map_of h ref)"

definition llist_last :: "llist \<Rightarrow> nat option" where
  "llist_last a = ll_last a"

section \<open>Sequences that grow at the end\<close>

text \<open>
  The contract the clients use: growing appends one element; when the memory is exhausted the
  whole sequence may be gone, but nothing else can happen to it. \<open>used\<close> and \<open>cost\<close>
  measure the space, which must stay below \<open>limit\<close> for the size computations not to wrap.
\<close>

locale sequence =
  fixes inv :: "'s \<Rightarrow> bool" and elems :: "'s \<Rightarrow> 'a list" and empty :: 's
    and grow :: "'s \<Rightarrow> 'a \<Rightarrow> bool \<Rightarrow> 's option"
    and used :: "'s \<Rightarrow> nat" and cost :: "'a \<Rightarrow> nat" and limit :: nat
  assumes inv_empty: "inv empty" and elems_empty: "elems empty = []" and used_empty: "used empty = 0"
    and grow_mem: "inv s \<Longrightarrow> used s + cost x \<le> limit \<Longrightarrow> ok (grow s x True) (\<lambda>s'.
      inv s' \<and> elems s' = elems s @ [x] \<and> used s' \<le> used s + cost x)"
    and grow_nomem: "inv s \<Longrightarrow> used s + cost x \<le> limit \<Longrightarrow> ok (grow s x False) (\<lambda>s'.
      s' = empty \<or> (inv s' \<and> elems s' = elems s @ [x] \<and> used s' \<le> used s + cost x))"
begin

fun grow_all :: "'s \<Rightarrow> ('a \<times> bool) list \<Rightarrow> 's option" where
  "grow_all s [] = Some s"
| "grow_all s ((x, mem) # xs) = do { s' \<leftarrow> grow s x mem; grow_all s' xs }"

lemma grow_all_mem:
  assumes "inv s" and "used s + sum_list (map cost xs) \<le> limit"
  shows "ok (grow_all s (map (\<lambda>x. (x, True)) xs)) (\<lambda>s'. inv s' \<and> elems s' = elems s @ xs)"
  using assms
proof (induction xs arbitrary: s)
  case (Cons x xs)
  then have "ok (grow s x True) (\<lambda>s'. inv s' \<and> elems s' = elems s @ [x] \<and> used s' \<le> used s + cost x)"
    by (intro grow_mem) auto
  then obtain s' where s': "grow s x True = Some s'" "inv s'" "elems s' = elems s @ [x]"
    "used s' \<le> used s + cost x" by (auto elim: okE)
  with Cons.IH [of s'] Cons.prems show ?case by simp
qed simp

lemma grow_inv:
  assumes "inv s" and "used s + cost x \<le> limit"
  shows "ok (grow s x mem) (\<lambda>s'. inv s' \<and> used s' \<le> used s + cost x \<and>
    (elems s' = [] \<or> elems s' = elems s @ [x]))"
  using grow_mem [OF assms] grow_nomem [OF assms] inv_empty elems_empty used_empty
  by (cases mem) (auto elim!: ok_mono)

text \<open>Whatever allocations fail, what is left is what was appended since the last loss.\<close>

lemma grow_all_suffix:
  assumes "inv s" and "used s + sum_list (map (cost \<circ> fst) xs) \<le> limit"
  shows "ok (grow_all s xs) (\<lambda>s'. inv s' \<and> (\<exists>k. elems s' = drop k (elems s @ map fst xs)))"
  using assms
proof (induction xs arbitrary: s)
  case Nil
  then show ?case by (auto intro: exI [of _ 0])
next
  case (Cons p xs)
  obtain x mem where p: "p = (x, mem)" by (cases p)
  from Cons.prems p have "ok (grow s x mem) (\<lambda>s'. inv s' \<and> used s' \<le> used s + cost x \<and>
    (elems s' = [] \<or> elems s' = elems s @ [x]))"
    by (intro grow_inv) auto
  then obtain s' where s': "grow s x mem = Some s'" "inv s'" "used s' \<le> used s + cost x"
    "elems s' = [] \<or> elems s' = elems s @ [x]" by (auto elim: okE)
  with Cons.prems p have "ok (grow_all s' xs) (\<lambda>s''. inv s'' \<and> (\<exists>k. elems s'' = drop k (elems s' @ map fst xs)))"
    by (intro Cons.IH) auto
  moreover have "\<exists>k'. drop k (elems s' @ map fst xs) = drop k' (elems s @ x # map fst xs)" for k
    using s'(4)
  proof
    assume "elems s' = []"
    then show ?thesis by (intro exI [of _ "length (elems s) + 1 + k"]) simp
  qed (auto intro: exI [of _ k])
  ultimately show ?case
    using s' p by (auto elim!: ok_mono)
qed

end

section \<open>The containers implement it\<close>

subsection \<open>Dynamic arrays\<close>

definition da_inv :: "'a darray option \<Rightarrow> bool" where
  "da_inv a \<longleftrightarrow> (case a of None \<Rightarrow> True
     | Some d \<Rightarrow> length (slots d) = alloc_nel (nel d) \<and> (\<forall>i < nel d. slots d ! i \<noteq> None))"

definition da_elems :: "'a darray option \<Rightarrow> 'a list" where
  "da_elems a = (case a of None \<Rightarrow> [] | Some d \<Rightarrow> map the (take (nel d) (slots d)))"

text \<open>Growing and filling the new last slot, as the users of \<^verbatim>\<open>DA_GROW1_F\<close> do.\<close>

definition da_push :: "'a darray option \<Rightarrow> 'a \<Rightarrow> bool \<Rightarrow> 'a darray option option" where
  "da_push a x mem = do {
     (a, cleaned) \<leftarrow> da_grow1 a True mem;
     (case a of None \<Rightarrow> Some None | Some d \<Rightarrow> map_option Some (DA_LAST_set d x)) }"

lemma alloc_nel_eq: "n + 7 < 2 ^ 64 \<Longrightarrow> alloc_nel n = (if n = 0 then 8 else (n + 7) div 8 * 8)"
  unfolding alloc_nel_def by (simp only: round_up_8)

lemma alloc_nel_ge: "n + 7 < 2 ^ 64 \<Longrightarrow> n \<le> alloc_nel n"
  by (simp add: alloc_nel_eq) linarith

lemma alloc_nel_Suc_full: "n + 8 < 2 ^ 64 \<Longrightarrow> n mod 8 = 0 \<Longrightarrow> alloc_nel (n + 1) = n + 8"
  by (auto simp: alloc_nel_eq)

lemma div_round_Suc: "n mod 8 \<noteq> 0 \<Longrightarrow> (n + 8) div 8 = (n + 7) div (8 :: nat)"
proof -
  assume "n mod 8 \<noteq> 0"
  then have "8 \<le> n mod 8 + 7" "n mod 8 + 7 < 16" by auto
  then have "(n mod 8 + 7) div 8 = 1" by linarith
  then show ?thesis using div_add1_eq [of n 7 8] div_add1_eq [of n 8 8] by simp
qed

lemma alloc_nel_Suc:
  assumes "n + 8 < 2 ^ 64" and "n mod 8 \<noteq> 0"
  shows "alloc_nel (n + 1) = alloc_nel n"
proof -
  from assms(2) have "n \<noteq> 0" by auto
  with assms div_round_Suc [OF assms(2)] show ?thesis by (simp add: alloc_nel_eq)
qed

lemma da_set_nel: "d\<lparr>nel := n\<rparr> = \<lparr>nel = n, slots = slots d\<rparr>"
  by simp

lemma cleanup_elems_ok:
  "n \<le> length sl \<Longrightarrow> \<forall>i < n. sl ! i \<noteq> None \<Longrightarrow> cleanup_elems sl n = Some (map the (take n sl))"
  by (induction n) (auto simp: take_Suc_conv_app_nth)

lemma map_the_take_update:
  "n < length sl \<Longrightarrow> map the (take (Suc n) (sl[n := Some x])) = map the (take n sl) @ [x]"
  by (simp add: take_Suc_conv_app_nth)

lemma da_fill:
  assumes "n < length sl" and "\<forall>i < n. sl ! i \<noteq> None" and "length sl = alloc_nel (n + 1)"
    and "map the (take n sl) = xs"
  shows "ok (map_option Some (DA_LAST_set \<lparr>nel = n + 1, slots = sl\<rparr> x)) (\<lambda>a'.
    da_inv a' \<and> da_elems a' = xs @ [x] \<and> da_nel a' = Suc n)"
  using assms by (auto simp: DA_LAST_set_def da_inv_def da_elems_def da_nel_def ok_simps
      map_the_take_update nth_list_update less_Suc_eq)

lemma da_push_grow:
  assumes "da_inv (Some d)" and "nel d + 8 < 2 ^ 64"
  shows "ok (map_option Some (DA_LAST_set \<lparr>nel = nel d + 1,
      slots = (if nel d \<noteq> 0 \<and> nel d mod 8 = 0 then realloc_slots (slots d) (nel d + 8) else slots d)\<rparr> x))
    (\<lambda>a'. da_inv a' \<and> da_elems a' = da_elems (Some d) @ [x] \<and> da_nel a' = Suc (nel d))"
proof (rule da_fill)
  let ?n = "nel d" and ?sl = "if nel d \<noteq> 0 \<and> nel d mod 8 = 0 then realloc_slots (slots d) (nel d + 8) else slots d"
  from assms have len: "length (slots d) = alloc_nel ?n" and init: "\<forall>i < ?n. slots d ! i \<noteq> None"
    by (simp_all add: da_inv_def)
  from assms alloc_nel_ge [of ?n] len have le: "?n \<le> length (slots d)" by simp
  have full: "?n \<noteq> 0 \<Longrightarrow> ?n mod 8 = 0 \<Longrightarrow> length (slots d) = ?n"
    using assms len by (auto simp: alloc_nel_eq)
  show sl: "length ?sl = alloc_nel (?n + 1)"
  proof (cases "?n \<noteq> 0 \<and> ?n mod 8 = 0")
    case True
    with full assms show ?thesis
      using alloc_nel_Suc_full [of ?n] by (simp add: realloc_slots_def)
  next
    case False
    with len assms show ?thesis
      using alloc_nel_Suc [of ?n] by (cases "?n = 0") (auto simp: alloc_nel_eq)
  qed
  show "?n < length ?sl"
    using alloc_nel_ge [of "?n + 1"] assms sl by simp
  show "\<forall>i < ?n. ?sl ! i \<noteq> None" and "map the (take ?n ?sl) = da_elems (Some d)"
    using full init le by (auto simp: da_elems_def realloc_slots_def nth_append)
qed

lemma da_push_ok:
  assumes inv: "da_inv a" and bound: "da_nel a + 1 \<le> 2 ^ 63"
  shows "ok (da_push a x True) (\<lambda>a'. da_inv a' \<and> da_elems a' = da_elems a @ [x] \<and> da_nel a' \<le> da_nel a + 1)"
proof (cases a)
  case None
  then show ?thesis
    using da_fill [of 0 "replicate 8 None" "[]" x]
    by (auto simp: da_push_def da_grow1_def da_nel_def realloc_slots_def da_elems_def alloc_nel_def
        elim!: ok_mono)
next
  case (Some d)
  with bound have "nel d + 8 < 2 ^ 64" by (simp add: da_nel_def)
  with da_push_grow [of d x] Some inv show ?thesis
    by (auto simp: da_push_def da_grow1_def da_nel_def Let_def da_set_nel elim!: ok_mono split: if_splits)
qed

lemma da_push_nomem:
  assumes inv: "da_inv a" and bound: "da_nel a + 1 \<le> 2 ^ 63"
  shows "ok (da_push a x False) (\<lambda>a'. a' = None \<or>
    (da_inv a' \<and> da_elems a' = da_elems a @ [x] \<and> da_nel a' \<le> da_nel a + 1))"
proof (cases a)
  case None
  then show ?thesis by (simp add: da_push_def da_grow1_def da_nel_def)
next
  case (Some d)
  with bound have b: "nel d + 8 < 2 ^ 64" by (simp add: da_nel_def)
  show ?thesis
  proof (cases "nel d \<noteq> 0 \<and> nel d mod 8 = 0")
    case True
    with Some inv b cleanup_elems_ok [of "nel d" "slots d"] alloc_nel_ge [of "nel d"] show ?thesis
      by (simp add: da_push_def da_grow1_def da_nel_def da_inv_def)
  next
    case False
    with da_push_grow [of d x] Some inv b show ?thesis
      by (auto simp: da_push_def da_grow1_def da_nel_def Let_def da_set_nel elim!: ok_mono split: if_splits)
  qed
qed

interpretation da: sequence da_inv da_elems None da_push da_nel "\<lambda>_. 1" "2 ^ 63"
proof
  show "da_inv None" "da_elems None = []" "da_nel None = 0"
    by (simp_all add: da_inv_def da_elems_def da_nel_def)
qed (use da_push_ok da_push_nomem in auto)

subsection \<open>Dynamic lists\<close>

text \<open>The items from the link word at \<open>off\<close> to the last one.\<close>

fun dl_chain :: "'a dlist \<Rightarrow> nat \<Rightarrow> 'a list \<Rightarrow> bool" where
  "dl_chain d off [] \<longleftrightarrow> False"
| "dl_chain d off [x] \<longleftrightarrow> off = dl_last d \<and> item d (off + 8) = Some x \<and> link d off = Some 0"
| "dl_chain d off (x # y # ys) \<longleftrightarrow> item d (off + 8) = Some x \<and>
     (\<exists>incr > 0. link d off = Some incr \<and> dl_chain d (off + incr) (y # ys))"

definition dl_inv :: "'a dlist option \<Rightarrow> bool" where
  "dl_inv a \<longleftrightarrow> (case a of None \<Rightarrow> True
     | Some d \<Rightarrow> 8 \<le> dl_lastsz d \<and> allocsz d = dlist_chunk (dl_last d + dl_lastsz d) \<and>
         dl_last d + dl_lastsz d \<le> allocsz d \<and> (\<exists>xs. dl_chain d 0 xs))"

definition dl_elems :: "'a dlist option \<Rightarrow> 'a list" where
  "dl_elems a = the (dlist_items a)"

definition dl_used :: "'a dlist option \<Rightarrow> nat" where
  "dl_used a = (case a of None \<Rightarrow> 0 | Some d \<Rightarrow> dl_last d + dl_lastsz d)"

text \<open>Growing by an item of \<open>len\<close> bytes and storing it in the new last position.\<close>

definition dlist_push :: "('a \<Rightarrow> nat) \<Rightarrow> 'a dlist option \<Rightarrow> 'a \<Rightarrow> bool \<Rightarrow> 'a dlist option option" where
  "dlist_push len a x mem = do {
     a \<leftarrow> dlist_grow a (len x) mem;
     (case a of None \<Rightarrow> Some None | Some d \<Rightarrow> map_option Some (dlist_last_set d x (len x))) }"

lemma dl_chain_bound: "dl_chain d off xs \<Longrightarrow> off \<le> dl_last d"
proof (induction d off xs rule: dl_chain.induct)
  case (3 d off x y ys)
  then obtain incr where "dl_chain d (off + incr) (y # ys)" by auto
  with 3 show ?case by fastforce
qed auto

lemma dl_chain_walk:
  "dl_chain d off xs \<Longrightarrow> dl_last d + 8 \<le> allocsz d \<Longrightarrow> dlist_walk d (off + 8) = Some xs"
proof (induction d off xs rule: dl_chain.induct)
  case (2 d off x)
  then show ?case
    by (subst dlist_walk.simps) (auto simp: dlist_next_def get_link_def sizeof_size_t_def)
next
  case (3 d off x y ys)
  then obtain incr where i: "incr > 0" "link d off = Some incr" "dl_chain d (off + incr) (y # ys)" by auto
  moreover from dl_chain_bound [OF i(3)] 3 have "off + 8 \<le> allocsz d" by simp
  moreover from 3 i have "dlist_walk d (off + 8 + incr) = Some (y # ys)"
    by (metis add.commute add.left_commute)
  ultimately show ?case
    using 3 by (subst dlist_walk.simps) (auto simp: dlist_next_def get_link_def sizeof_size_t_def)
qed simp

lemma dl_chain_grow:
  assumes "dl_chain d off xs" and "\<And>o'. o' \<le> dl_last d \<Longrightarrow> item d' (o' + 8) = item d (o' + 8)"
    and "\<And>o'. o' < dl_last d \<Longrightarrow> link d' o' = link d o'"
    and "link d' (dl_last d) = Some incr" and "incr > 0" and "dl_last d' = dl_last d + incr"
    and "link d' (dl_last d') = Some 0" and "item d' (dl_last d' + 8) = Some x"
  shows "dl_chain d' off (xs @ [x])"
  using assms
proof (induction d off xs rule: dl_chain.induct)
  case (3 d off y z ys)
  then obtain i where i: "i > 0" "link d off = Some i" "dl_chain d (off + i) (z # ys)" by auto
  with dl_chain_bound [OF i(3)] 3 show ?case by auto
qed auto

lemma dl_elems_chain: "dl_inv (Some d) \<Longrightarrow> dl_chain d 0 xs \<Longrightarrow> dl_elems (Some d) = xs"
  using dl_chain_walk [of d 0 xs]
  by (simp add: dl_inv_def dl_elems_def dlist_items_def dlist_first_def sizeof_size_t_def)

lemma dlist_items_elems: "dl_inv a \<Longrightarrow> dlist_items a = Some (dl_elems a)"
proof (cases a)
  case (Some d)
  assume "dl_inv a"
  with Some obtain xs where "dl_chain d 0 xs" "dl_last d + 8 \<le> allocsz d" by (auto simp: dl_inv_def)
  then have "dlist_walk d 8 = Some xs" using dl_chain_walk [of d 0 xs] by simp
  with Some show ?thesis by (simp add: dl_elems_def dlist_items_def dlist_first_def sizeof_size_t_def)
qed (simp add: dl_elems_def dlist_items_def)

lemma DLISTALIGN_eq: "n + 7 < 2 ^ 64 \<Longrightarrow> DLISTALIGN n = (n + 7) div 8 * 8"
proof -
  have "n + (sizeof_size_t - 1) = n + 7" by (simp add: sizeof_size_t_def)
  then show "n + 7 < 2 ^ 64 \<Longrightarrow> ?thesis" unfolding DLISTALIGN_def by (simp only: round_up_8)
qed

lemma dlist_chunk_eq: "n + 0x3ff < 2 ^ 64 \<Longrightarrow> dlist_chunk n = (n + 0x3ff) div 1024 * 1024"
  unfolding dlist_chunk_def by (rule round_up_1024)

lemma dlist_chunk_ge: "n + 0x3ff < 2 ^ 64 \<Longrightarrow> n \<le> dlist_chunk n"
  by (simp add: dlist_chunk_eq)

lemma dl_chunk_stay:
  assumes "m \<le> n" and "n \<le> dlist_chunk m" and "n + 0x3ff < 2 ^ 64"
  shows "dlist_chunk n = dlist_chunk m"
  using assms by (simp add: dlist_chunk_eq)

text \<open>One growth step: \<open>sz\<close> is the space used so far and \<open>sz'\<close> the space after it.\<close>

lemma dlist_align_bounds:
  assumes "n \<le> 2 ^ 62"
  shows "n + 8 \<le> DLISTALIGN (n + 8)" and "DLISTALIGN (n + 8) \<le> n + 15"
  using assms by (simp_all add: DLISTALIGN_eq)

lemma dl_step:
  assumes inv: "dl_inv (Some d)" and incr: "n + 8 \<le> incr"
    and alloc: "asz = dlist_chunk (dl_used (Some d) + incr)" "dl_used (Some d) + incr \<le> asz"
    and l: "l = (link d)(dl_last d \<mapsto> dl_lastsz d, dl_used (Some d) \<mapsto> 0)"
    and d': "d' = \<lparr>dl_last = dl_used (Some d), dl_lastsz = incr, link = l,
      item = (item d)(dl_used (Some d) + 8 \<mapsto> x), allocsz = asz\<rparr>"
  shows "dl_inv (Some d') \<and> dl_elems (Some d') = dl_elems (Some d) @ [x] \<and>
    dl_used (Some d') = dl_used (Some d) + incr"
proof -
  from inv obtain xs where xs: "dl_chain d 0 xs" and sz: "8 \<le> dl_lastsz d" by (auto simp: dl_inv_def)
  have ch: "dl_chain d' 0 (xs @ [x])"
    by (rule dl_chain_grow [OF xs, of _ "dl_lastsz d"]) (use sz in \<open>auto simp: d' l dl_used_def\<close>)
  then have inv': "dl_inv (Some d')"
    using incr alloc by (auto simp: dl_inv_def d')
  with ch xs inv dl_elems_chain show ?thesis by (auto simp: dl_used_def d')
qed

lemma dlist_push_new:
  assumes n: "len x \<le> 2 ^ 62"
  shows "ok (dlist_push len None x True) (\<lambda>a'.
    dl_inv a' \<and> dl_elems a' = [x] \<and> dl_used a' = DLISTALIGN (len x + 8))"
proof -
  let ?sz = "DLISTALIGN (len x + 8)"
  let ?d = "\<lparr>dl_last = 0, dl_lastsz = ?sz, link = [0 \<mapsto> 0], item = [8 \<mapsto> x], allocsz = dlist_chunk ?sz\<rparr>"
  from dlist_align_bounds [of "len x"] n have sz: "len x + 8 \<le> ?sz" "?sz \<le> 2 ^ 63" by simp_all
  then have "?sz \<le> dlist_chunk ?sz" by (intro dlist_chunk_ge) simp
  with sz have "dlist_push len None x True = Some (Some ?d)"
    by (simp add: dlist_push_def dlist_grow_def set_link_def sizeof_size_t_def dlist_last_set_def
        dlist_last_def Let_def)
  moreover from sz \<open>?sz \<le> dlist_chunk ?sz\<close> have "dl_inv (Some ?d)"
    by (auto simp: dl_inv_def intro!: exI [of _ "[x]"])
  ultimately show ?thesis
    using dl_elems_chain [of ?d "[x]"] by (simp add: dl_used_def)
qed

lemma dlist_push_old:
  assumes inv: "dl_inv (Some d)" and n: "dl_used (Some d) + (len x + 15) \<le> 2 ^ 62"
    and mem: "mem \<or> dl_used (Some d) + DLISTALIGN (len x + 8) \<le> allocsz d"
  shows "ok (dlist_push len (Some d) x mem) (\<lambda>a'. dl_inv a' \<and> dl_elems a' = dl_elems (Some d) @ [x] \<and>
    dl_used a' = dl_used (Some d) + DLISTALIGN (len x + 8))"
proof -
  let ?sz = "DLISTALIGN (len x + 8)" and ?used = "dl_used (Some d)"
  let ?asz = "if ?used + ?sz > allocsz d then dlist_chunk (?used + ?sz) else allocsz d"
  let ?d = "\<lparr>dl_last = ?used, dl_lastsz = ?sz, link = (link d)(dl_last d \<mapsto> dl_lastsz d, ?used \<mapsto> 0),
      item = (item d)(?used + 8 \<mapsto> x), allocsz = ?asz\<rparr>"
  from dlist_align_bounds [of "len x"] n have sz: "len x + 8 \<le> ?sz" "?sz \<le> len x + 15" by simp_all
  from inv have d: "8 \<le> dl_lastsz d" "dl_last d + dl_lastsz d \<le> allocsz d"
    and chunk: "allocsz d = dlist_chunk ?used"
    by (simp_all add: dl_inv_def dl_used_def)
  have ge: "?used + ?sz \<le> ?asz"
    using dlist_chunk_ge [of "?used + ?sz"] n sz by simp
  have asz: "?asz = dlist_chunk (?used + ?sz)"
    using chunk n sz dl_chunk_stay [of ?used "?used + ?sz"] by simp
  have "dlist_push len (Some d) x mem = Some (Some ?d)"
    using mem d ge sz chunk
    by (auto simp: dlist_push_def dlist_grow_def set_link_def sizeof_size_t_def dlist_last_set_def
        dlist_last_def dl_used_def Let_def)
  with dl_step [OF inv sz(1) asz ge refl refl] show ?thesis by simp
qed

text \<open>The space in use never exceeds the allocated size, which the code recomputes.\<close>

lemma dlist_push_ok:
  assumes "dl_inv a" and "dl_used a + (len x + 15) \<le> 2 ^ 62"
  shows "ok (dlist_push len a x True) (\<lambda>a'. dl_inv a' \<and> dl_elems a' = dl_elems a @ [x] \<and>
    dl_used a' \<le> dl_used a + (len x + 15))"
proof (cases a)
  case None
  with assms dlist_push_new [of len x] dlist_align_bounds [of "len x"] show ?thesis
    by (auto simp: dl_used_def dl_elems_def dlist_items_def elim!: ok_mono)
next
  case (Some d)
  with assms dlist_push_old [of d len x True] dlist_align_bounds [of "len x"] show ?thesis
    by (auto elim!: ok_mono)
qed

lemma dlist_push_nomem:
  assumes "dl_inv a" and "dl_used a + (len x + 15) \<le> 2 ^ 62"
  shows "ok (dlist_push len a x False) (\<lambda>a'. a' = None \<or> (dl_inv a' \<and>
    dl_elems a' = dl_elems a @ [x] \<and> dl_used a' \<le> dl_used a + (len x + 15)))"
proof (cases a)
  case None
  with assms dlist_align_bounds [of "len x"] show ?thesis
    by (simp add: dlist_push_def dlist_grow_def dl_used_def sizeof_size_t_def)
next
  case (Some d)
  show ?thesis
  proof (cases "dl_used a + DLISTALIGN (len x + 8) \<le> allocsz d")
    case True
    with Some assms dlist_push_old [of d len x False] dlist_align_bounds [of "len x"] show ?thesis
      by (auto elim!: ok_mono)
  next
    case False
    with Some assms show ?thesis
      by (auto simp: dlist_push_def dlist_grow_def dl_used_def sizeof_size_t_def set_link_def dl_inv_def Let_def)
  qed
qed

interpretation dl: sequence dl_inv dl_elems None "dlist_push len" dl_used "\<lambda>x. len x + 15" "2 ^ 62"
  for len :: "'a \<Rightarrow> nat"
proof
  show "dl_inv None" "dl_elems None = []" "dl_used None = 0"
    by (simp_all add: dl_inv_def dl_elems_def dl_used_def dlist_items_def)
qed (erule dlist_push_ok dlist_push_nomem, assumption)+

subsection \<open>Linked lists\<close>

text \<open>The addresses of the nodes from \<open>p\<close> on, each linked to the next.\<close>

fun links :: "'a llist_nodes \<Rightarrow> nat option \<Rightarrow> nat list \<Rightarrow> bool" where
  "links h p [] \<longleftrightarrow> p = None"
| "links h p (q # qs) \<longleftrightarrow> p = Some q \<and> (\<exists>n v. map_of h q = Some (n, v) \<and> links h n qs)"

definition ll_inv :: "'a llist_nodes \<Rightarrow> llist \<Rightarrow> nat list \<Rightarrow> bool" where
  "ll_inv h a qs \<longleftrightarrow> links h (ll_first a) qs \<and> distinct qs \<and>
     ll_last a = (if qs = [] then None else Some (last qs))"

definition ll_data :: "'a llist_nodes \<Rightarrow> nat list \<Rightarrow> 'a list" where
  "ll_data h qs = map (\<lambda>q. snd (the (map_of h q))) qs"

lemma map_of_free_node: "map_of (free_node h q) p = (if p = q then None else map_of h p)"
  by (induction h) (auto simp: free_node_def)

lemma links_cong: "(\<And>q. q \<in> set qs \<Longrightarrow> map_of h q = map_of h' q) \<Longrightarrow> links h p qs \<longleftrightarrow> links h' p qs"
  by (induction qs arbitrary: p) auto

lemma llist_free_loop_ok:
  assumes "links h p qs" and "distinct qs"
  shows "ok (llist_free_loop h p) (\<lambda>h'. \<forall>q. map_of h' q = (if q \<in> set qs then None else map_of h q))"
  using assms
proof (induction qs arbitrary: h p)
  case Nil
  then show ?case by (simp add: llist_free_loop.simps)
next
  case (Cons q qs)
  then obtain n v where q: "p = Some q" "map_of h q = Some (n, v)" "links h n qs" by auto
  have "links (free_node h q) n qs"
    using q(3) Cons.prems(2) by (subst links_cong [of qs _ h]) (auto simp: map_of_free_node)
  with Cons have "ok (llist_free_loop (free_node h q) n)
      (\<lambda>h'. \<forall>p. map_of h' p = (if p \<in> set qs then None else map_of (free_node h q) p))" by simp
  with q show ?case
    by (auto simp: llist_free_loop.simps [of h "Some q"] map_of_free_node elim!: ok_mono)
qed

lemma links_extend:
  assumes "links h p qs" and "qs \<noteq> []" and "distinct qs" and "new \<notin> set qs"
    and "\<And>q. q \<in> set qs \<Longrightarrow> q \<noteq> last qs \<Longrightarrow> map_of h' q = map_of h q"
    and "\<And>n v. map_of h (last qs) = Some (n, v) \<Longrightarrow> map_of h' (last qs) = Some (Some new, v)"
    and "map_of h' new = Some (None, x)"
  shows "links h' p (qs @ [new]) \<and> ll_data h' (qs @ [new]) = ll_data h qs @ [x]"
  using assms
proof (induction qs arbitrary: p)
  case (Cons q qs)
  then obtain n v where q: "p = Some q" "map_of h q = Some (n, v)" "links h n qs" by auto
  show ?case
  proof (cases "qs = []")
    case True
    with q Cons.prems show ?thesis by (auto simp: ll_data_def)
  next
    case False
    then have "links h' n (qs @ [new]) \<and> ll_data h' (qs @ [new]) = ll_data h qs @ [x]"
      using Cons.prems q by (intro Cons.IH) auto
    moreover have "map_of h' q = map_of h q"
      using Cons.prems False by (intro Cons.prems(5)) auto
    ultimately show ?thesis
      using q by (simp add: ll_data_def)
  qed
qed simp

lemma links_dom: "links h p qs \<Longrightarrow> q \<in> set qs \<Longrightarrow> map_of h q \<noteq> None"
  by (induction qs arbitrary: p) auto

lemma links_last: "links h p qs \<Longrightarrow> qs \<noteq> [] \<Longrightarrow> \<exists>n v. map_of h (last qs) = Some (n, v)"
  by (induction qs arbitrary: p) auto

lemma llist_grow_ok:
  assumes inv: "ll_inv h a qs" and fresh: "map_of h p = None"
  shows "ok (llist_grow h a (Some p) x) (\<lambda>(r, h', a'). r \<and> ll_inv h' a' (qs @ [p]) \<and>
    ll_data h' (qs @ [p]) = ll_data h qs @ [x] \<and>
    (\<forall>q. q \<notin> set qs \<and> q \<noteq> p \<longrightarrow> map_of h' q = map_of h q))"
proof (cases "qs = []")
  case True
  with inv show ?thesis by (simp add: ll_inv_def llist_grow_def ll_data_def)
next
  case False
  with inv have first: "ll_first a \<noteq> None" and lst: "ll_last a = Some (last qs)"
    by (auto simp: ll_inv_def neq_Nil_conv)
  from inv False links_last obtain n v where v: "map_of h (last qs) = Some (n, v)"
    by (force simp: ll_inv_def)
  have mem: "q \<in> set qs \<Longrightarrow> map_of h q \<noteq> None" for q
    using inv links_dom by (auto simp: ll_inv_def)
  have p: "p \<notin> set qs" "p \<noteq> last qs" using mem [of p] fresh v by auto
  let ?h = "(last qs, Some p, v) # free_node ((p, None, x) # h) (last qs)"
  have "links ?h (ll_first a) (qs @ [p]) \<and> ll_data ?h (qs @ [p]) = ll_data h qs @ [x]"
    by (rule links_extend) (use inv False p v fresh in \<open>auto simp: ll_inv_def map_of_free_node\<close>)
  with inv False first lst v p show ?thesis
    by (auto simp: llist_grow_def ll_inv_def map_of_free_node)
qed

lemma llist_free_ok:
  assumes "ll_inv h a qs"
  shows "ok (llist_free h a) (\<lambda>(h', a'). ll_inv h' a' [] \<and>
    (\<forall>q. map_of h' q = (if q \<in> set qs then None else map_of h q)))"
  using llist_free_loop_ok [of h "ll_first a" qs] assms
  by (auto simp: llist_free_def ll_inv_def ok_simps elim!: ok_mono)

lemma llist_grow_nomem:
  assumes "ll_inv h a qs"
  shows "ok (llist_grow h a None x) (\<lambda>(r, h', a'). \<not> r \<and> ll_inv h' a' [] \<and>
    (\<forall>q. map_of h' q = (if q \<in> set qs then None else map_of h q)))"
  using llist_free_ok [OF assms]
  by (auto simp: llist_grow_def ok_simps elim!: ok_mono)

section \<open>Properties\<close>

text \<open>
  C35. Growing a dynamic array by one element appends it and keeps all others: \<open>da_grow1\<close>
  reallocates exactly when the slots are used up, all accesses stay inside the allocated slots,
  and only when the memory is exhausted the array is lost (and then all of it is freed).
\<close>

theorem da_grow1_appends:
  assumes "da_inv a" and "da_nel a < 2 ^ 63"
  shows "ok (da_push a x mem) (\<lambda>a'. da_inv a' \<and> da_nel a' \<le> da_nel a + 1 \<and>
    (da_elems a' = da_elems a @ [x] \<or> \<not> mem \<and> a' = None))"
proof (cases mem)
  case True
  with da.grow_mem [of a x] assms show ?thesis by (auto elim!: ok_mono)
next
  case False
  then show ?thesis
    using da.grow_nomem [of a x] da.inv_empty assms by (auto simp: da_nel_def elim!: ok_mono)
qed

theorem da_grow1_appends_witness:
  "da_inv None \<and> ok (da_push None (7 :: nat) True) (\<lambda>a'. da_elems a' = [7])"
  using da_grow1_appends [of None "7 :: nat" True]
  by (auto simp: da_inv_def da_elems_def da_nel_def elim!: ok_mono)

text \<open>
  C36. An item appended with \<open>dlist_grow\<close> comes last when the list is walked with
  \<open>dlist_first\<close> and \<open>dlist_next\<close>: the walk ends, visits the earlier items in order and then the new
  one. When the memory is exhausted the list is lost, and nothing else can happen.
\<close>

theorem dlist_grow_appends:
  assumes "dl_inv a" and "dl_used a + (len x + 15) \<le> 2 ^ 62"
  shows "ok (dlist_push len a x mem) (\<lambda>a'. dl_inv a' \<and> dl_used a' \<le> dl_used a + (len x + 15) \<and>
    (dlist_items a' = map_option (\<lambda>xs. xs @ [x]) (dlist_items a) \<or> \<not> mem \<and> a' = None))"
proof (cases mem)
  case True
  then show ?thesis
    using dl.grow_mem [of a len x] assms by (auto simp: dlist_items_elems elim!: ok_mono)
next
  case False
  then show ?thesis
    using dl.grow_nomem [of a len x] dl.inv_empty assms
    by (auto simp: dl_used_def dlist_items_elems elim!: ok_mono)
qed

theorem dlist_grow_appends_witness:
  "ok (dlist_push (\<lambda>_. 4) None (7 :: nat) True) (\<lambda>a'. dlist_items a' = Some [7])"
proof -
  have "dlist_items (None :: nat dlist option) = Some []" and "dl_inv (None :: nat dlist option)"
    and "dl_used (None :: nat dlist option) = 0"
    by (simp_all add: dlist_items_def dl_inv_def dl_used_def)
  then show ?thesis
    using dlist_grow_appends [of None "\<lambda>_. 4" "7 :: nat" True] by (auto elim!: ok_mono)
qed

text \<open>
  C37. In a linked list \<open>llist_grow\<close> appends a node that can be allocated and changes no block
  outside the list. When the node cannot be allocated, every node of the list is
  freed, no other block is touched, and the list is empty; \<open>llist_free\<close> ends and does the same.
\<close>

theorem llist_operations:
  assumes "ll_inv h a qs" and "map_of h p = None"
  shows "ok (llist_grow h a (Some p) x) (\<lambda>(r, h', a'). r \<and> ll_inv h' a' (qs @ [p]) \<and>
      ll_data h' (qs @ [p]) = ll_data h qs @ [x] \<and>
      (\<forall>q. q \<notin> set qs \<and> q \<noteq> p \<longrightarrow> map_of h' q = map_of h q)) \<and>
    ok (llist_grow h a None x) (\<lambda>(r, h', a'). \<not> r \<and> ll_inv h' a' [] \<and>
      (\<forall>q. map_of h' q = (if q \<in> set qs then None else map_of h q))) \<and>
    ok (llist_free h a) (\<lambda>(h', a'). ll_inv h' a' [] \<and>
      (\<forall>q. map_of h' q = (if q \<in> set qs then None else map_of h q)))"
  using llist_grow_ok [OF assms] llist_grow_nomem [OF assms(1)] llist_free_ok [OF assms(1)] by blast

theorem llist_operations_witness:
  "ok (llist_grow [(3, None, 5 :: nat)] \<lparr>ll_first = Some 3, ll_last = Some 3\<rparr> (Some 4) 6) (\<lambda>(r, h', a').
     r \<and> ll_inv h' a' [3, 4] \<and> ll_data h' [3, 4] = [5, 6]) \<and>
   ok (llist_grow [(3, None, 5 :: nat)] \<lparr>ll_first = Some 3, ll_last = Some 3\<rparr> None 6) (\<lambda>(r, h', a').
     \<not> r \<and> map_of h' 3 = None)"
  using llist_operations [of "[(3, None, 5 :: nat)]" "\<lparr>ll_first = Some 3, ll_last = Some 3\<rparr>" "[3]" 4 "6 :: nat"]
  by (auto simp: ll_inv_def ll_data_def elim!: ok_mono)

end
