(* ===== verification/Compress.thy ===== *)
theory Compress
  imports DomainMatch Decompress Lists
begin

text \<open>
  Writing compressed names: \<open>compress_name\<close> of \<^verbatim>\<open>src/dns.c\<close>, with the dynamic list \<open>cb\<close>
  of the names already written to the message.

  The main result is the round trip with \<open>decompress_name\<close>: however a message is put
  together from plain bytes and compressed names, every name in it decodes to the name that
  was written, up to case.
\<close>

section \<open>The code\<close>

text \<open>\<^verbatim>\<open>compel_t\<close>: the offset of a name in the message and the name\<close>

record compel =
  index :: nat
  s :: bytes

definition sizeof_compel_t :: nat where "sizeof_compel_t = 4"

text \<open>The loop over the list; \<^verbatim>\<open>ci->index + to\<close> is an \<^verbatim>\<open>unsigned int\<close>.\<close>

fun compress_search :: "bytes \<Rightarrow> compel list \<Rightarrow> nat \<Rightarrow> nat \<Rightarrow> nat \<Rightarrow> (nat \<times> nat \<times> nat) option" where
  "compress_search inp [] longest lrem coffs = Some (longest, lrem, coffs)"
| "compress_search inp (ci # cis) longest lrem coffs = do {
     (rv, rem, to) \<leftarrow> domain_match inp (s ci);
     if rv > longest then
       (let newoffs = (index ci + to) mod 2 ^ 32 in
        if newoffs \<le> 0x3fff then compress_search inp cis rv rem newoffs
        else compress_search inp cis longest lrem coffs)
     else compress_search inp cis longest lrem coffs }"

definition ptr_hi :: "nat \<Rightarrow> byte" where
  "ptr_hi coffs = 0xc0 OR ucast (drop_bit 8 ((of_nat coffs :: 32 word) AND 0x3f00))"

definition ptr_lo :: "nat \<Rightarrow> byte" where
  "ptr_lo coffs = ucast ((of_nat coffs :: 32 word) AND 0xff)"

text \<open>The part of \<open>compress_name\<close> that produces the output, its length and
  whether the name is to be added to the list.\<close>

definition compress_output :: "bytes \<Rightarrow> bytes \<Rightarrow> nat \<Rightarrow> nat \<Rightarrow> nat \<Rightarrow> nat \<Rightarrow> (bytes \<times> nat \<times> bool) option" where
  "compress_output inp out ilen longest lrem coffs =
     (if longest > 0 then do {
        pdnsd_assert (lrem + 2 \<le> ilen);
        out \<leftarrow> memcpy out inp lrem;
        out \<leftarrow> wr out lrem (ptr_hi coffs);
        out \<leftarrow> wr out (lrem + 1) (ptr_lo coffs);
        Some (out, lrem + 2, lrem \<noteq> 0) }
      else do {
        out \<leftarrow> memcpy out inp ilen;
        Some (out, ilen, True) })"

definition compress_name ::
  "bytes \<Rightarrow> bytes \<Rightarrow> nat \<Rightarrow> compel dlist option \<Rightarrow> bool \<Rightarrow> (nat \<times> bytes \<times> compel dlist option) option" where
  "compress_name inp out offs cb mem = do {
     ilen \<leftarrow> rhnlen inp;
     pdnsd_assert (ilen \<le> DNSNAMEBUFSIZE);
     cis \<leftarrow> dlist_items cb;
     (longest, lrem, coffs) \<leftarrow> compress_search inp cis 0 0 0;
     (out, rl, add) \<leftarrow> compress_output inp out ilen longest lrem coffs;
     if add then do {
       cb \<leftarrow> dlist_grow cb (sizeof_compel_t + ilen) mem;
       (case cb of None \<Rightarrow> Some (0, out, None)
        | Some d \<Rightarrow> do {
            d \<leftarrow> dlist_last_set d \<lparr>index = offs, s = take ilen inp\<rparr> (sizeof_compel_t + ilen);
            Some (rl, out, Some d) }) }
     else Some (rl, out, cb) }"

section \<open>Pointers\<close>

lemma ptr_offs_bytes: "coffs \<le> 0x3fff \<Longrightarrow> ptr_offs (ptr_hi coffs) (ptr_lo coffs) = coffs"
proof -
  assume c: "coffs \<le> 0x3fff"
  let ?w = "of_nat coffs :: 32 word"
  have masks: "(0x3f00 :: 32 word) = push_bit 8 (mask 6)" "(0xff :: 32 word) = mask 8"
    "(0x3f :: byte) = mask 6" "(0xc0 :: byte) = push_bit 6 (mask 2)"
    by (simp_all add: mask_eq_exp_minus_1 push_bit_eq_mult)
  have "unat ?w = coffs" using c by (simp add: unat_of_nat)
  then have small: "take_bit 14 ?w = ?w"
    using c by (intro word_unat_eq_iff [THEN iffD2]) (simp add: unsigned_take_bit_eq take_bit_nat_eq_self)
  have "(push_bit 8 (ucast (ptr_hi coffs AND 0x3f)) OR ucast (ptr_lo coffs) :: 32 word) = ?w"
  proof (rule bit_word_eqI)
    fix n assume "n < LENGTH(32)"
    have "bit ?w n \<longleftrightarrow> n < 14 \<and> bit ?w n" using small by (metis bit_take_bit_iff)
    then show "bit (push_bit 8 (ucast (ptr_hi coffs AND 0x3f)) OR ucast (ptr_lo coffs) :: 32 word) n = bit ?w n"
      unfolding ptr_hi_def ptr_lo_def masks
      by (auto simp: bit_simps)
  qed
  with \<open>unat ?w = coffs\<close> show ?thesis by (simp add: ptr_offs_def)
qed

lemma ptr_hi_c0: "ptr_hi coffs \<ge> 0xc0"
proof -
  have "(0xc0 :: byte) AND ptr_hi coffs = 0xc0"
    unfolding ptr_hi_def by (rule bit_word_eqI) (auto simp: bit_simps)
  then show ?thesis by (metis word_and_le1)
qed

section \<open>The search\<close>

text \<open>
  The list of names, seen abstractly: the offset of a name in the message, its labels, and the
  number \<open>u\<close> of labels that were written out before the pointer (all of them, if there is
  none). \<open>entry_offs\<close> is the offset of the tail an entry has in common with \<open>ins\<close>.
\<close>

type_synonym entry = "nat \<times> label list \<times> nat"

abbreviation (input) idx :: "entry \<Rightarrow> nat" where "idx e \<equiv> fst e"
abbreviation (input) nm :: "entry \<Rightarrow> label list" where "nm e \<equiv> fst (snd e)"
abbreviation (input) unc :: "entry \<Rightarrow> nat" where "unc e \<equiv> snd (snd e)"

definition compel_of :: "entry \<Rightarrow> compel" where
  "compel_of e = \<lparr>index = idx e, s = wire (nm e)\<rparr>"

definition entry_offs :: "label list \<Rightarrow> entry \<Rightarrow> nat" where
  "entry_offs ins e = idx e + off (nm e) (length (nm e) - common_tail ins (nm e))"

text \<open>
  The outcome of the search: no usable entry shares more labels than the chosen one, and every
  usable entry before it shares fewer.
\<close>

definition best :: "label list \<Rightarrow> entry list \<Rightarrow> nat \<Rightarrow> nat \<Rightarrow> nat \<Rightarrow> bool" where
  "best ins E l lrem coffs \<longleftrightarrow>
     (\<forall>e \<in> set E. entry_offs ins e \<le> 0x3fff \<longrightarrow> common_tail ins (nm e) \<le> l) \<and>
     (l = 0 \<or> (\<exists>m < length E. l = common_tail ins (nm (E ! m)) \<and> lrem = off ins (length ins - l) \<and>
        coffs = entry_offs ins (E ! m) \<and> coffs \<le> 0x3fff \<and>
        (\<forall>j < m. entry_offs ins (E ! j) \<le> 0x3fff \<longrightarrow> common_tail ins (nm (E ! j)) < l)))"

lemma best_Nil: "best ins [] 0 lrem coffs"
  by (simp add: best_def)

lemma best_skip:
  assumes "best ins E l lrem coffs" and "entry_offs ins e \<le> 0x3fff \<Longrightarrow> common_tail ins (nm e) \<le> l"
  shows "best ins (E @ [e]) l lrem coffs"
proof (cases "l = 0")
  case False
  with assms obtain m where "m < length E" "l = common_tail ins (nm (E ! m))"
    "lrem = off ins (length ins - l)" "coffs = entry_offs ins (E ! m)" "coffs \<le> 0x3fff"
    "\<forall>j < m. entry_offs ins (E ! j) \<le> 0x3fff \<longrightarrow> common_tail ins (nm (E ! j)) < l"
    by (auto simp: best_def)
  then have "\<exists>m < length (E @ [e]). l = common_tail ins (nm ((E @ [e]) ! m)) \<and>
      lrem = off ins (length ins - l) \<and> coffs = entry_offs ins ((E @ [e]) ! m) \<and> coffs \<le> 0x3fff \<and>
      (\<forall>j < m. entry_offs ins ((E @ [e]) ! j) \<le> 0x3fff \<longrightarrow> common_tail ins (nm ((E @ [e]) ! j)) < l)"
    by (intro exI [of _ m]) (auto simp: nth_append)
  with assms show ?thesis unfolding best_def by auto
qed (use assms in \<open>auto simp: best_def\<close>)

lemma best_take:
  assumes "best ins E l lrem coffs" and "l < common_tail ins (nm e)" and "entry_offs ins e \<le> 0x3fff"
  shows "best ins (E @ [e]) (common_tail ins (nm e)) (off ins (length ins - common_tail ins (nm e))) (entry_offs ins e)"
proof -
  have le: "common_tail ins (nm (E ! j)) < common_tail ins (nm e)"
    if "j < length E" "entry_offs ins (E ! j) \<le> 0x3fff" for j
    using that assms nth_mem [of j E] by (fastforce simp: best_def)
  have "\<forall>e' \<in> set E. entry_offs ins e' \<le> 0x3fff \<longrightarrow> common_tail ins (nm e') < common_tail ins (nm e)"
    using le by (metis in_set_conv_nth)
  with le assms show ?thesis
    unfolding best_def
    by (auto simp: nth_append less_imp_le intro!: exI [of _ "length E"])
qed

lemma compress_search_best:
  assumes "wf_name ins" and "\<forall>e \<in> set (E1 @ E2). wf_name (nm e) \<and> idx e \<le> 0x7fffffff"
    and "best ins E1 l lrem coffs"
  shows "ok (compress_search (wire ins @ r) (map compel_of E2) l lrem coffs) (\<lambda>(l', lrem', coffs').
    best ins (E1 @ E2) l' lrem' coffs')"
  using assms
proof (induction E2 arbitrary: E1 l lrem coffs)
  case (Cons e E2)
  let ?ct = "common_tail ins (nm e)"
  have wf: "wf_name (nm e)" "idx e \<le> 0x7fffffff" using Cons.prems by auto
  have dm: "domain_match (wire ins @ r) (s (compel_of e)) =
      Some (?ct, off ins (length ins - ?ct), off (nm e) (length (nm e) - ?ct))"
    using domain_match_ok [OF Cons.prems(1) wf(1), of r "[]"] by (simp add: compel_of_def)
  have "off (nm e) (length (nm e) - ?ct) \<le> 256"
    using off_le [of "length (nm e) - ?ct" "nm e" "[]"] wf(1) by (simp add: wf_name_def DNSNAMEBUFSIZE_def)
  with wf have no: "(index (compel_of e) + off (nm e) (length (nm e) - ?ct)) mod 2 ^ 32 = entry_offs ins e"
    by (simp add: entry_offs_def compel_of_def)
  have rest: "ok (compress_search (wire ins @ r) (map compel_of E2) l' lrem' coffs')
      (\<lambda>(l'', lrem'', coffs''). best ins (E1 @ e # E2) l'' lrem'' coffs'')"
    if "best ins (E1 @ [e]) l' lrem' coffs'" for l' lrem' coffs'
    using Cons.IH [of "E1 @ [e]" l' lrem' coffs'] Cons.prems that by simp
  show ?case
    using dm no best_take [OF Cons.prems(3), of e] best_skip [OF Cons.prems(3), of e]
    by (auto simp: Let_def intro!: rest)
qed simp

section \<open>Which tails can be pointed at\<close>

text \<open>
  \<open>entries_ok P E\<close>: the message \<open>P\<close> holds the names \<open>E\<close>. Each label of a name that
  was written out is a position where the tail from there decodes (up to case); what was not
  written out is a tail of an earlier name; and the labels written out for an earlier name lie
  before a later name. Only positions up to \<open>max_ptr\<close>, which a pointer can express, matter: a name
  beyond them may even be taken back from the end of the message.
\<close>

definition max_ptr :: nat where "max_ptr = 0x3fff"

definition entry_pos :: "bytes \<Rightarrow> entry \<Rightarrow> bool" where
  "entry_pos P e \<longleftrightarrow> wf_name (nm e) \<and> idx e \<le> 0x7fffffff \<and> unc e \<le> length (nm e) \<and>
     (\<forall>k < unc e. idx e + off (nm e) k \<le> max_ptr \<longrightarrow> (\<exists>ls h. decodes P (idx e + off (nm e) k) ls h \<and>
        fold_name ls = fold_name (drop k (nm e)) \<and> h \<le> length (nm e) - k)) \<and>
     (\<forall>k < unc e. max_ptr < idx e + off (nm e) k \<longrightarrow> max_ptr < length P)"

definition entry_prev :: "entry list \<Rightarrow> entry \<Rightarrow> bool" where
  "entry_prev Es e \<longleftrightarrow> (let u = length (nm e) - unc e in
     (unc e < length (nm e) \<longrightarrow>
        (\<exists>e' \<in> set Es. u \<le> length (nm e') \<and> fold_name (tail u (nm e')) = fold_name (tail u (nm e)))) \<and>
     (\<forall>e' \<in> set Es. \<forall>k < unc e'. idx e' + off (nm e') k \<le> idx e \<or> max_ptr < idx e))"

definition entry_ok :: "bytes \<Rightarrow> entry list \<Rightarrow> nat \<Rightarrow> bool" where
  "entry_ok P E m \<longleftrightarrow> entry_pos P (E ! m) \<and> entry_prev (take m E) (E ! m)"

definition entries_ok :: "bytes \<Rightarrow> entry list \<Rightarrow> bool" where
  "entries_ok P E \<longleftrightarrow> (\<forall>m < length E. entry_ok P E m)"

lemma tail_tail: "k \<le> n \<Longrightarrow> n \<le> length xs \<Longrightarrow> tail k (tail n xs) = tail k xs"
  by (simp add: tail_def)

lemma fold_tail: "fold_name (tail k xs) = tail k (fold_name xs)"
  by (simp add: tail_def fold_name_def drop_map)

lemma common_tail_shared:
  assumes "common_tail ins xs \<le> n" and "n \<le> length xs" and "n \<le> length ys"
    and "fold_name (tail n ys) = fold_name (tail n xs)"
  shows "common_tail ins xs \<le> common_tail ins ys"
proof (rule common_tail_maximal)
  let ?c = "common_tail ins xs"
  have "fold_name (tail ?c zs) = tail ?c (fold_name (tail n zs))" if "n \<le> length zs" for zs
    using that assms(1) by (simp add: fold_tail tail_tail)
  with assms have "fold_name (tail ?c ys) = fold_name (tail ?c xs)" by metis
  with tail_common_tail [of ins xs] show "fold_name (tail ?c ins) = fold_name (tail ?c ys)" by simp
qed (use assms common_tail_le [of ins xs] in auto)

text \<open>
  If a name shares a tail with \<open>ins\<close>, then it or an earlier name shares at least as much, at an
  offset that is no larger, in its part that was written out.
\<close>

lemma written_out_earlier:
  assumes ok: "entries_ok P E" and "m < length E" and "0 < common_tail ins (nm (E ! m))"
  shows "\<exists>j \<le> m. common_tail ins (nm (E ! m)) \<le> common_tail ins (nm (E ! j)) \<and>
    length (nm (E ! j)) - common_tail ins (nm (E ! j)) < unc (E ! j) \<and>
    (entry_offs ins (E ! m) \<le> max_ptr \<longrightarrow> entry_offs ins (E ! j) \<le> entry_offs ins (E ! m))"
  using assms(2,3)
proof (induction m rule: less_induct)
  case (less m)
  let ?e = "E ! m"
  let ?ct = "common_tail ins (nm ?e)"
  from ok less have e: "entry_pos P ?e" "entry_prev (take m E) ?e" by (simp_all add: entries_ok_def entry_ok_def)
  have mem: "j < m \<Longrightarrow> E ! j \<in> set (take m E)" for j using less.prems(1) by (auto simp: in_set_conv_nth)
  show ?case
  proof (cases "length (nm ?e) - ?ct < unc ?e")
    case False
    let ?n = "length (nm ?e) - unc ?e"
    from e(1) have un: "unc ?e \<le> length (nm ?e)" by (simp add: entry_pos_def)
    with False less.prems common_tail_le(2) [of ins "nm ?e"] have "?ct \<le> ?n" "unc ?e < length (nm ?e)" by auto
    with e obtain j where j: "j < m" "?n \<le> length (nm (E ! j))"
      "fold_name (tail ?n (nm (E ! j))) = fold_name (tail ?n (nm ?e))"
      using less.prems(1) by (fastforce simp: entry_prev_def Let_def in_set_conv_nth)
    with \<open>?ct \<le> ?n\<close> have ct: "?ct \<le> common_tail ins (nm (E ! j))"
      by (intro common_tail_shared) auto
    with j less.prems obtain i where i: "i \<le> j" "common_tail ins (nm (E ! j)) \<le> common_tail ins (nm (E ! i))"
      "length (nm (E ! i)) - common_tail ins (nm (E ! i)) < unc (E ! i)"
      using less.IH [of j] by auto
    moreover from e(2) i mem [of i] j(1) have "entry_offs ins (E ! i) \<le> idx ?e \<or> max_ptr < idx ?e"
      by (auto simp: entry_prev_def entry_offs_def Let_def)
    ultimately show ?thesis
      using j ct by (intro exI [of _ i]) (auto simp: entry_offs_def)
  qed auto
qed

text \<open>So the tail that the search chooses was written out, and can be pointed at.\<close>

lemma best_written_out:
  assumes ok: "entries_ok P E" and best: "best ins E l lrem coffs" and "0 < l"
  shows "lrem = off ins (length ins - l) \<and> l \<le> length ins \<and> coffs \<le> 0x3fff \<and>
    (\<exists>ls h. decodes P coffs ls h \<and> fold_name ls = fold_name (tail l ins) \<and> h \<le> l) \<and>
    (\<exists>m < length E. l \<le> length (nm (E ! m)) \<and> fold_name (tail l (nm (E ! m))) = fold_name (tail l ins))"
proof -
  from \<open>0 < l\<close> have "l \<noteq> 0" by simp
  with best obtain m where m: "m < length E" "l = common_tail ins (nm (E ! m))"
    "lrem = off ins (length ins - l)" "coffs = entry_offs ins (E ! m)" "coffs \<le> 0x3fff"
    and before: "\<forall>j < m. entry_offs ins (E ! j) \<le> 0x3fff \<longrightarrow> common_tail ins (nm (E ! j)) < l"
    unfolding best_def by blast
  let ?e = "E ! m"
  from \<open>0 < l\<close> m(2) have "0 < common_tail ins (nm ?e)" by simp
  from written_out_earlier [OF ok m(1) this, folded m(2,4)] obtain j where j: "j \<le> m"
    "l \<le> common_tail ins (nm (E ! j))" "length (nm (E ! j)) - common_tail ins (nm (E ! j)) < unc (E ! j)"
    "entry_offs ins (E ! j) \<le> coffs"
    using m(5) by (auto simp: max_ptr_def)
  have "j = m"
  proof (rule ccontr)
    assume "j \<noteq> m"
    with j(1) before have "entry_offs ins (E ! j) \<le> 0x3fff \<longrightarrow> common_tail ins (nm (E ! j)) < l" by simp
    with j(2,4) m(5) show False by linarith
  qed
  with j(3) m(2) have k: "length (nm ?e) - l < unc ?e" by simp
  have le: "l \<le> length ins" "l \<le> length (nm ?e)" using common_tail_le m by auto
  from ok m(1) have "\<forall>k < unc ?e. idx ?e + off (nm ?e) k \<le> max_ptr \<longrightarrow>
      (\<exists>ls h. decodes P (idx ?e + off (nm ?e) k) ls h \<and>
        fold_name ls = fold_name (drop k (nm ?e)) \<and> h \<le> length (nm ?e) - k)"
    by (simp add: entries_ok_def entry_ok_def entry_pos_def)
  moreover have "idx ?e + off (nm ?e) (length (nm ?e) - l) \<le> max_ptr"
    using m(2,4,5) by (simp add: entry_offs_def max_ptr_def)
  ultimately obtain ls h where ls: "decodes P (idx ?e + off (nm ?e) (length (nm ?e) - l)) ls h"
    "fold_name ls = fold_name (drop (length (nm ?e) - l) (nm ?e))" "h \<le> length (nm ?e) - (length (nm ?e) - l)"
    using k by blast
  have eq: "fold_name (tail l (nm ?e)) = fold_name (tail l ins)"
    using tail_common_tail [of ins "nm ?e"] m(2) by simp
  from ls(1) m(2,4) have "decodes P coffs ls h" by (simp add: entry_offs_def)
  moreover from ls(2) eq have "fold_name ls = fold_name (tail l ins)" by (simp add: tail_def)
  moreover from ls(3) le have "h \<le> l" by simp
  ultimately show ?thesis using m(1,3,5) le eq by blast
qed

section \<open>What is written\<close>

definition written :: "label list \<Rightarrow> nat \<Rightarrow> nat \<Rightarrow> bytes" where
  "written ins l coffs = (if l = 0 then wire ins
     else enc (take (length ins - l) ins) @ [ptr_hi coffs, ptr_lo coffs])"

lemma enc_Nil_iff: "enc xs = [] \<longleftrightarrow> xs = []"
  by (cases xs) auto

lemma decodes_enc:
  "list_all wf_label xs \<Longrightarrow> drop i M = enc xs @ R \<Longrightarrow> decodes M (i + length (enc xs)) ls h \<Longrightarrow>
   decodes M i (xs @ ls) h"
proof (induction xs arbitrary: i)
  case (Cons x xs)
  from Cons.prems have "rd M i = Some (of_nat (length x))"
    by (metis append_Cons drop_eq_Nil enc_simps(2) list.distinct(1) not_le nth_via_drop rd_Some)
  moreover from Cons.prems have dr: "drop (Suc i) M = x @ enc xs @ R"
    by (metis append.assoc append_Cons drop_Suc enc_simps(2) list.sel(3) tl_drop)
  moreover from dr have "drop (Suc (i + length x)) M = enc xs @ R"
    by (metis add.commute add_Suc_right append_eq_conv_conj drop_drop)
  moreover from Cons.prems have "decodes M (Suc (i + length x) + length (enc xs)) ls h"
    by (simp add: add.assoc)
  ultimately show ?case
    using Cons by (auto intro!: decodes_label simp: wf_label_unat wf_label_nz word_le_nat_alt wf_label_def)
qed simp

lemma drop_take_enc:
  assumes "k \<le> u" and "u \<le> length ins"
  shows "enc (take u ins) = enc (take k ins) @ enc (take (u - k) (drop k ins))"
  using assms by (metis enc_simps(3) le_add_diff_inverse take_add)

lemma written_decodes:
  assumes ok: "entries_ok P E" and best: "best ins E l lrem coffs" and wf: "wf_name ins"
    and k: "k \<le> length ins - l"
  shows "\<exists>ls h. decodes (P @ written ins l coffs) (length P + off ins k) ls h \<and>
    fold_name ls = fold_name (drop k ins) \<and> h \<le> (if l = 0 then 0 else l + 1)"
proof (cases "l = 0")
  case True
  have "list_all wf_label (drop k ins)"
    using wf_name_labels [OF wf] by (metis append_take_drop_id list_all_append)
  moreover have "drop (length P + off ins k) (P @ written ins l coffs) = wire (drop k ins) @ []"
    using True drop_wire [of ins k "[]"] by (simp add: written_def)
  ultimately have "decodes (P @ written ins l coffs) (length P + off ins k) (drop k ins) 0"
    by (rule decodes_wire)
  with True show ?thesis by auto
next
  case False
  let ?u = "length ins - l" and ?M = "P @ written ins l coffs"
  from False have "0 < l" by simp
  note b = best_written_out [OF ok best this]
  from b obtain ls h where ls: "decodes P coffs ls h" "fold_name ls = fold_name (tail l ins)" "h \<le> l"
    by blast
  from b have c: "coffs \<le> 0x3fff" by blast
  let ?xs = "take (?u - k) (drop k ins)"
  have split: "enc (take ?u ins) = enc (take k ins) @ enc ?xs" using k by (intro drop_take_enc) auto
  have "?M = (P @ enc (take k ins)) @ enc ?xs @ [ptr_hi coffs, ptr_lo coffs]"
    using False by (simp add: written_def split)
  then have "drop (length P + off ins k) ?M = enc ?xs @ [ptr_hi coffs, ptr_lo coffs]"
    unfolding off_def by (metis append_eq_conv_conj length_append)
  moreover have "list_all wf_label ?xs"
    using wf_name_labels [OF wf] by (auto simp: list_all_iff dest: in_set_takeD in_set_dropD)
  moreover have "decodes ?M (length P + off ins k + length (enc ?xs)) ls (Suc h)"
  proof (rule decodes_ptr)
    have "length P + off ins k + length (enc ?xs) = length P + length (enc (take ?u ins))"
      by (simp add: split off_def)
    then show "rd ?M (length P + off ins k + length (enc ?xs)) = Some (ptr_hi coffs)"
      "rd ?M (Suc (length P + off ins k + length (enc ?xs))) = Some (ptr_lo coffs)"
      using False by (simp_all only: written_def) (simp_all add: rd_def nth_append)
    show "decodes ?M (ptr_offs (ptr_hi coffs) (ptr_lo coffs)) ls h"
      using decodes_append [OF ls(1)] by (simp add: ptr_offs_bytes [OF c])
  qed (rule ptr_hi_c0)
  ultimately have "decodes ?M (length P + off ins k) (?xs @ ls) (Suc h)" by (intro decodes_enc)
  moreover have "drop k ins = ?xs @ tail l ins"
    using append_take_drop_id [of "?u - k" "drop k ins"] k
    by (simp only: drop_drop tail_def le_add_diff_inverse2)
  then have "fold_name (?xs @ ls) = fold_name (drop k ins)"
    using ls(2) by (metis fold_name_def map_append)
  ultimately show ?thesis using ls(3) False by (intro exI [of _ "?xs @ ls"] exI [of _ "Suc h"]) simp
qed

section \<open>Messages with compressed names\<close>

lemma entry_pos_append: "entry_pos P e \<Longrightarrow> entry_pos (P @ W) e"
  using decodes_append [of P _ _ _ W] unfolding entry_pos_def by (simp add: trans_less_add1) metis

lemma entries_ok_append: "entries_ok P E \<Longrightarrow> entries_ok (P @ W) E"
  by (simp add: entries_ok_def entry_ok_def entry_pos_append)

lemma entries_ok_snoc: "entries_ok P (E @ [e]) \<longleftrightarrow> entries_ok P E \<and> entry_pos P e \<and> entry_prev E e"
  by (auto simp: entries_ok_def entry_ok_def nth_append less_Suc_eq)

lemma entries_ok_mem: "entries_ok P E \<Longrightarrow> e \<in> set E \<Longrightarrow> entry_pos P e"
  by (auto simp: entries_ok_def entry_ok_def in_set_conv_nth)

lemma entry_offset_bound:
  "entries_ok P E \<Longrightarrow> e \<in> set E \<Longrightarrow> k < unc e \<Longrightarrow> idx e + off (nm e) k \<le> length P \<or> max_ptr < length P"
  by (frule entries_ok_mem, assumption) (use decodes_bound in \<open>fastforce simp: entry_pos_def not_le\<close>)

lemma entry_prev_add:
  assumes ok: "entries_ok P E" and best: "best ins E l lrem coffs"
  shows "entry_prev E (length P, ins, length ins - l)"
proof -
  have "\<exists>e \<in> set E. l \<le> length (nm e) \<and> fold_name (tail l (nm e)) = fold_name (tail l ins)" if "0 < l"
    using best_written_out [OF ok best that] by auto
  moreover have "0 < l \<Longrightarrow> l \<le> length ins" using best_written_out [OF ok best] by auto
  ultimately show ?thesis
    using entry_offset_bound [OF ok] by (auto simp: entry_prev_def Let_def)
qed

lemma entries_ok_add:
  assumes ok: "entries_ok P E" and best: "best ins E l lrem coffs" and wf: "wf_name ins"
    and len: "length P \<le> 0x7fffffff"
  shows "entries_ok (P @ written ins l coffs) (E @ [(length P, ins, length ins - l)])"
proof -
  have dec: "\<exists>ls h. decodes (P @ written ins l coffs) (length P + off ins k) ls h \<and>
      fold_name ls = fold_name (drop k ins) \<and> h \<le> length ins - k" if "k < length ins - l" for k
  proof -
    from written_decodes [OF ok best wf, of k] that obtain ls h where
      ls: "decodes (P @ written ins l coffs) (length P + off ins k) ls h"
        "fold_name ls = fold_name (drop k ins)" and h: "h \<le> (if l = 0 then 0 else l + 1)"
      by (meson less_imp_le)
    from h that have "h \<le> length ins - k" by (simp split: if_splits)
    with ls show ?thesis by blast
  qed
  then have "length P + off ins k < length (P @ written ins l coffs)" if "k < length ins - l" for k
    using that decodes_bound by blast
  with dec wf len have "entry_pos (P @ written ins l coffs) (length P, ins, length ins - l)"
    unfolding entry_pos_def by (simp del: length_append) (meson less_trans)
  then show ?thesis
    using entry_prev_add [OF ok best] entries_ok_append [OF ok] by (simp add: entries_ok_snoc)
qed

text \<open>Beyond \<open>max_ptr\<close>, or for the root, the entry is harmless even if the name itself is taken back.\<close>

lemma entries_ok_taken_back:
  assumes ok: "entries_ok P E" and best: "best ins E l lrem coffs" and wf: "wf_name ins"
    and len: "length P \<le> 0x7fffffff" and far: "ins = [] \<or> max_ptr < length P"
  shows "entries_ok P (E @ [(length P, ins, length ins - l)])"
  using entry_prev_add [OF ok best] ok wf len far by (auto simp: entries_ok_snoc entry_pos_def)

lemma length_written: "l \<le> length ins \<Longrightarrow> 0 < length (written ins l coffs) \<and> length (written ins l coffs) \<le> length (wire ins)"
proof (cases "l = 0")
  case False
  assume l: "l \<le> length ins"
  with False have "drop (length ins - l) ins \<noteq> []" by simp
  then have "2 \<le> length (wire (drop (length ins - l) ins))"
    by (cases "drop (length ins - l) ins") (auto simp: Suc_le_eq)
  with False wire_take_drop [of ins "length ins - l"] show ?thesis
    by (simp add: written_def)
qed (simp add: written_def)

lemma compress_output_ok:
  assumes wf: "wf_name ins" and out: "length (wire ins) \<le> length out" and l: "l \<le> length ins"
    and lrem: "0 < l \<Longrightarrow> lrem = off ins (length ins - l)"
  shows "ok (compress_output (wire ins @ r) out (length (wire ins)) l lrem coffs) (\<lambda>(out', rl, add).
    length out' = length out \<and> take rl out' = written ins l coffs \<and> rl = length (written ins l coffs) \<and>
    (add \<longleftrightarrow> l < length ins \<or> l = 0))"
proof (cases "l = 0")
  case True
  with wf out show ?thesis
    by (simp add: compress_output_def memcpy_def written_def wf_name_def DNSNAMEBUFSIZE_def)
next
  case False
  let ?u = "length ins - l"
  let ?e = "enc (take ?u ins)"
  have lrem': "lrem = length ?e" using lrem False by (simp add: off_def)
  have W: "written ins l coffs = ?e @ [ptr_hi coffs, ptr_lo coffs]" using False by (simp add: written_def)
  have len: "length ?e + 2 \<le> length (wire ins)" using length_written [OF l, of coffs] W by simp
  then have out': "length ?e + 2 \<le> length out" using wf out by (simp add: wf_name_def DNSNAMEBUFSIZE_def)
  have tk: "take lrem (wire ins @ r) = ?e"
    using wire_take_drop [of ins ?u] lrem' by simp
  let ?o = "?e @ drop lrem out"
  have "take (Suc (Suc lrem)) (?o[lrem := ptr_hi coffs, Suc lrem := ptr_lo coffs]) =
      ?e @ [ptr_hi coffs, ptr_lo coffs]"
    using lrem' out' by (simp add: take_update_append)
  moreover have "lrem \<noteq> 0 \<longleftrightarrow> l < length ins"
    using lrem' l False by (auto simp: enc_Nil_iff)
  ultimately show ?thesis
    using False lrem' len out' tk W
    by (simp add: compress_output_def memcpy_def ok_simps)
qed

text \<open>The state of a message under construction.\<close>

definition compel_size :: "compel \<Rightarrow> nat" where
  "compel_size c = sizeof_compel_t + length (s c)"

definition msg_ok :: "bytes \<Rightarrow> compel dlist option \<Rightarrow> bool" where
  "msg_ok P cb \<longleftrightarrow> dl_inv cb \<and> (\<exists>E. dl_elems cb = map compel_of E \<and> entries_ok P E)"

lemma msg_ok_None: "msg_ok P None"
  by (auto simp: msg_ok_def dl_inv_def dl_used_def dl_elems_def dlist_items_def entries_ok_def)

lemma msg_ok_append: "msg_ok P cb \<Longrightarrow> msg_ok (P @ W) cb"
  by (auto simp: msg_ok_def intro: entries_ok_append)

lemma compress_name_unfold:
  assumes "wf_name ins" and "dl_inv cb"
  shows "compress_name (wire ins @ r) out offs cb mem = do {
     (longest, lrem, coffs) \<leftarrow> compress_search (wire ins @ r) (dl_elems cb) 0 0 0;
     (out, rl, add) \<leftarrow> compress_output (wire ins @ r) out (length (wire ins)) longest lrem coffs;
     if add then do {
       cb \<leftarrow> dlist_push compel_size cb (compel_of (offs, ins, u)) mem;
       Some (if cb = None then 0 else rl, out, cb) }
     else Some (rl, out, cb) }"
proof -
  have push: "(do { cb \<leftarrow> dlist_grow cb (sizeof_compel_t + length (wire ins)) mem;
       (case cb of None \<Rightarrow> Some (0, out, None)
        | Some d \<Rightarrow> do {
            d \<leftarrow> dlist_last_set d \<lparr>index = offs, s = wire ins\<rparr> (sizeof_compel_t + length (wire ins));
            Some (rl, out, Some d) }) }) = (do {
       cb \<leftarrow> dlist_push compel_size cb (compel_of (offs, ins, u)) mem;
       Some (if cb = None then 0 else rl, out, cb) })" for rl :: nat and out :: bytes
    by (simp add: dlist_push_def compel_size_def compel_of_def)
      (auto intro!: Option.bind_cong split: option.splits simp: map_option_case compel_size_def)
  show ?thesis
    unfolding compress_name_def using assms
    by (simp add: rhnlen_wire wf_name_labels wf_name_def dlist_items_elems push cong: if_cong)
qed

text \<open>The message \<open>M\<close> has the name \<open>ins\<close> at \<open>i\<close>, up to case and within the bound on jumps.\<close>

definition holds_name :: "bytes \<Rightarrow> nat \<Rightarrow> label list \<Rightarrow> bool" where
  "holds_name M i ins \<longleftrightarrow> (\<exists>ls h. decodes M i ls h \<and> fold_name ls = fold_name ins \<and> h \<le> 255)"

lemma holds_name_append: "holds_name M i ins \<Longrightarrow> holds_name (M @ W) i ins"
  by (auto simp: holds_name_def dest: decodes_append)

text \<open>The list \<open>cb\<close> has the whole name, at a place that can be pointed at.\<close>

definition known :: "compel dlist option \<Rightarrow> label list \<Rightarrow> bool" where
  "known cb ins \<longleftrightarrow> (\<exists>c \<in> set (dl_elems cb). \<exists>xs. s c = wire xs \<and> wf_name xs \<and> common_tail ins xs = length ins \<and>
     index c + off xs (length xs - length ins) \<le> max_ptr)"

definition compress_post ::
  "bytes \<Rightarrow> label list \<Rightarrow> bytes \<Rightarrow> compel dlist option \<Rightarrow> bool \<Rightarrow> nat \<times> bytes \<times> compel dlist option \<Rightarrow> bool" where
  "compress_post P ins out cb mem = (\<lambda>(rl, out', cb').
     length out' = length out \<and> rl \<le> length (wire ins) \<and> (rl = 0 \<longrightarrow> \<not> mem) \<and>
     (rl > 0 \<longrightarrow> msg_ok (P @ take rl out') cb' \<and> holds_name (P @ take rl out') (length P) ins \<and>
        occupies (P @ take rl out') (length P) rl \<and> dl_used cb' \<le> dl_used cb + 275 \<and>
        set (dl_elems cb) \<subseteq> set (dl_elems cb') \<and> (known cb' ins \<or> max_ptr < length P) \<and>
        (ins = [] \<or> known cb ins \<or> max_ptr < length P \<longrightarrow> msg_ok P cb')))"

lemma occupies_enc:
  "list_all wf_label xs \<Longrightarrow> drop i M = enc xs @ R \<Longrightarrow> occupies M (i + length (enc xs)) n \<Longrightarrow>
   occupies M i (length (enc xs) + n)"
proof (induction xs arbitrary: i)
  case (Cons x xs)
  let ?b = "of_nat (length x) :: byte"
  from Cons.prems have b: "rd M i = Some ?b"
    by (metis append_Cons drop_eq_Nil enc_simps(2) list.distinct(1) not_le nth_via_drop rd_Some)
  from Cons.prems have x: "unat ?b = length x" "?b \<noteq> 0" "?b \<le> 0x3f"
    by (auto simp: wf_label_unat wf_label_nz word_le_nat_alt wf_label_def)
  from Cons.prems have "drop (Suc i) M = x @ enc xs @ R"
    by (metis append.assoc append_Cons drop_Suc enc_simps(2) list.sel(3) tl_drop)
  then have "drop (Suc (i + length x)) M = enc xs @ R"
    by (metis add.commute add_Suc_right append_eq_conv_conj drop_drop)
  moreover from Cons.prems have "occupies M (Suc (i + length x) + length (enc xs)) n" by (simp add: add.assoc)
  ultimately have "occupies M (Suc (i + unat ?b)) (length (enc xs) + n)" using Cons x by simp
  from occupies_label [OF b x(2,3) this] x(1) show ?case by (simp add: add.assoc)
qed simp

lemma written_occupies:
  assumes "wf_name ins"
  shows "occupies (P @ written ins l coffs) (length P) (length (written ins l coffs))"
proof -
  have gen: "occupies (P @ enc xs @ R) (length P) (length (enc xs) + n)"
    if "list_all wf_label xs" "occupies (P @ enc xs @ R) (length P + length (enc xs)) n" for xs R n
    using that by (intro occupies_enc) auto
  have wf: "list_all wf_label ins" "list_all wf_label (take (length ins - l) ins)"
    using wf_name_labels [OF assms] by (auto simp: list_all_iff dest: in_set_takeD)
  show ?thesis
  proof (cases "l = 0")
    case True
    have "occupies (P @ enc ins @ [0]) (length P + length (enc ins)) (Suc 0)"
      by (rule occupies_end) (simp add: rd_def nth_append)
    with gen [OF wf(1), of "[0]" "Suc 0"] True show ?thesis by (simp add: written_def wire_enc)
  next
    case False
    let ?xs = "take (length ins - l) ins" and ?R = "[ptr_hi coffs, ptr_lo coffs]"
    have "occupies (P @ enc ?xs @ ?R) (length P + length (enc ?xs)) 2"
      by (rule occupies_ptr [OF _ ptr_hi_c0 [of coffs]]) (simp add: rd_def nth_append)
    with gen [OF wf(2), of ?R 2] False show ?thesis by (simp add: written_def)
  qed
qed

text \<open>The run of \<open>compress_name\<close>, whatever the message before it is.\<close>

definition outcome ::
  "label list \<Rightarrow> entry list \<Rightarrow> nat \<Rightarrow> compel dlist option \<Rightarrow> nat \<Rightarrow> bytes \<Rightarrow> compel dlist option \<Rightarrow> bool" where
  "outcome ins E offs cb rl out' cb' \<longleftrightarrow> (\<exists>l lrem coffs. best ins E l lrem coffs \<and>
     rl = length (written ins l coffs) \<and> take rl out' = written ins l coffs \<and>
     (if l < length ins \<or> l = 0 then dl_inv cb' \<and> dl_elems cb' = dl_elems cb @ [compel_of (offs, ins, length ins - l)] \<and>
        dl_used cb' \<le> dl_used cb + 275
      else cb' = cb))"

lemma compress_name_outcome:
  assumes inv: "dl_inv cb" and E: "dl_elems cb = map compel_of E" "\<forall>e \<in> set E. wf_name (nm e) \<and> idx e \<le> 0x7fffffff"
    and used: "dl_used cb \<le> 2 ^ 61" and wf: "wf_name ins" and out: "length (wire ins) \<le> length out"
  shows "ok (compress_name (wire ins @ r) out offs cb mem) (\<lambda>(rl, out', cb'). length out' = length out \<and>
    (rl = 0 \<and> \<not> mem \<or> outcome ins E offs cb rl out' cb'))"
proof -
  have "\<forall>e \<in> set ([] @ E). wf_name (nm e) \<and> idx e \<le> 0x7fffffff" using E(2) by simp
  from compress_search_best [OF wf this best_Nil, of r 0 0] obtain l lrem coffs
    where search: "compress_search (wire ins @ r) (dl_elems cb) 0 0 0 = Some (l, lrem, coffs)"
      and best: "best ins E l lrem coffs"
    by (auto simp: E(1) elim!: okE)
  let ?W = "written ins l coffs"
  have l: "l \<le> length ins" "0 < l \<Longrightarrow> lrem = off ins (length ins - l)"
    using best common_tail_le(1) by (auto simp: best_def)
  from compress_output_ok [OF wf out l, of r coffs] obtain out' add
    where outp: "compress_output (wire ins @ r) out (length (wire ins)) l lrem coffs = Some (out', length ?W, add)"
      and out': "length out' = length out" "take (length ?W) out' = ?W" "add \<longleftrightarrow> l < length ins \<or> l = 0"
    by (auto elim!: okE)
  let ?e = "compel_of (offs, ins, length ins - l)"
  have sz: "compel_size ?e + 15 \<le> 275"
    using wf by (simp add: compel_size_def compel_of_def sizeof_compel_t_def wf_name_def DNSNAMEBUFSIZE_def)
  with used have room: "dl_used cb + (compel_size ?e + 15) \<le> 2 ^ 62" by simp
  have ne: "cb' \<noteq> None" if "dl_elems cb' = dl_elems cb @ [?e]" for cb'
    using that dl.elems_empty by (metis Nil_is_append_conv list.distinct(1))
  have push: "ok (dlist_push compel_size cb ?e mem) (\<lambda>cb'. cb' = None \<and> \<not> mem \<or>
      cb' \<noteq> None \<and> dl_inv cb' \<and> dl_elems cb' = dl_elems cb @ [?e] \<and> dl_used cb' \<le> dl_used cb + 275)"
    using dl.grow_mem [of cb compel_size ?e] dl.grow_nomem [of cb compel_size ?e] inv room sz ne
    by (cases mem) (auto elim!: ok_mono)
  have ex: "outcome ins E offs cb (length ?W) out' cb'"
    if "if l < length ins \<or> l = 0 then dl_inv cb' \<and> dl_elems cb' = dl_elems cb @ [?e] \<and>
          dl_used cb' \<le> dl_used cb + 275 else cb' = cb" for cb'
    using best out' that unfolding outcome_def by (intro exI [of _ l] exI [of _ lrem] exI [of _ coffs]) simp
  have run: "compress_name (wire ins @ r) out offs cb mem = (if add then do {
       cb \<leftarrow> dlist_push compel_size cb ?e mem;
       Some (if cb = None then 0 else length ?W, out', cb) } else Some (length ?W, out', cb))"
    unfolding compress_name_unfold [OF wf inv, where u = "length ins - l"] by (simp add: search outp)
  show ?thesis
  proof (cases add)
    case True
    with push out' ex show ?thesis by (auto simp: run ok_simps elim!: ok_mono)
  next
    case False
    with out' ex [of cb] show ?thesis by (simp add: run)
  qed
qed

lemma msg_okI: "dl_inv cb \<Longrightarrow> dl_elems cb = map compel_of E \<Longrightarrow> entries_ok P E \<Longrightarrow> msg_ok P cb"
  by (auto simp: msg_ok_def)

lemma common_tail_self [simp]: "common_tail xs xs = length xs"
  using common_tail_maximal [of "length xs" xs xs] common_tail_le(1) [of xs xs] by simp

lemma best_known:
  assumes best: "best ins E l lrem coffs" and E: "dl_elems cb = map compel_of E" "\<forall>e \<in> set E. wf_name (nm e)"
    and "known cb ins"
  shows "l = length ins"
proof -
  from \<open>known cb ins\<close> E obtain e xs where e: "e \<in> set E" "wire (nm e) = wire xs" "wf_name xs"
    "common_tail ins xs = length ins" "idx e + off xs (length xs - length ins) \<le> max_ptr"
    by (auto simp: known_def compel_of_def)
  with E(2) have "nm e = xs" by (metis wire_inj wf_name_labels)
  with e best have "length ins \<le> l" by (fastforce simp: best_def entry_offs_def max_ptr_def)
  moreover from best have "l \<le> length ins" using common_tail_le(1) by (auto simp: best_def)
  ultimately show ?thesis by simp
qed

lemma known_found:
  assumes best: "best ins E (length ins) lrem coffs" and E: "dl_elems cb = map compel_of E" "\<forall>e \<in> set E. wf_name (nm e)"
    and "ins \<noteq> []"
  shows "known cb ins"
proof -
  from best \<open>ins \<noteq> []\<close> obtain m where m: "m < length E" "length ins = common_tail ins (nm (E ! m))"
    "entry_offs ins (E ! m) \<le> 0x3fff"
    by (auto simp: best_def)
  then have "compel_of (E ! m) \<in> set (dl_elems cb)" by (simp add: E(1))
  with m E(2) show ?thesis
    unfolding known_def by (intro bexI [of _ "compel_of (E ! m)"]) (auto simp: compel_of_def entry_offs_def max_ptr_def)
qed

lemma known_mono: "known cb ins \<Longrightarrow> set (dl_elems cb) \<subseteq> set (dl_elems cb') \<Longrightarrow> known cb' ins"
  by (auto simp: known_def)

lemma compress_name_ok:
  assumes msg: "msg_ok P cb" and used: "dl_used cb \<le> 2 ^ 61" and wf: "wf_name ins"
    and out: "length (wire ins) \<le> length out" and len: "length P \<le> 0x7fffffff"
  shows "ok (compress_name (wire ins @ r) out (length P) cb mem) (compress_post P ins out cb mem)"
proof -
  from msg obtain E where inv: "dl_inv cb" and E: "dl_elems cb = map compel_of E" "entries_ok P E"
    by (auto simp: msg_ok_def)
  have wfE: "\<forall>e \<in> set E. wf_name (nm e) \<and> idx e \<le> 0x7fffffff"
    using entries_ok_mem [OF E(2)] by (simp add: entry_pos_def)
  then have wfE': "\<forall>e \<in> set E. wf_name (nm e)" by blast
  have post: "compress_post P ins out cb mem (length (written ins l coffs), out', cb')"
    if best: "best ins E l lrem coffs" and o: "length out' = length out" "take (length (written ins l coffs)) out' = written ins l coffs"
      and cb': "if l < length ins \<or> l = 0
        then dl_inv cb' \<and> dl_elems cb' = dl_elems cb @ [compel_of (length P, ins, length ins - l)] \<and>
          dl_used cb' \<le> dl_used cb + 275
        else cb' = cb" for l lrem coffs out' cb'
  proof -
    have l: "l \<le> length ins" using best common_tail_le(1) by (auto simp: best_def)
    note W = length_written [OF l, of coffs]
    have "l \<le> 127" using l wf_name_length [OF wf] by simp
    then have dec: "holds_name (P @ written ins l coffs) (length P) ins"
      using written_decodes [OF E(2) best wf, of 0] by (fastforce simp: holds_name_def split: if_splits)
    note occ = written_occupies [OF wf, of P l coffs]
    let ?e = "(length P, ins, length ins - l)"
    have E': "dl_elems cb @ [compel_of ?e] = map compel_of (E @ [?e])" by (simp add: E(1))
    have "msg_ok (P @ written ins l coffs) cb' \<and> dl_used cb' \<le> dl_used cb + 275 \<and>
        set (dl_elems cb) \<subseteq> set (dl_elems cb') \<and> (known cb' ins \<or> max_ptr < length P) \<and>
        (ins = [] \<or> known cb ins \<or> max_ptr < length P \<longrightarrow> msg_ok P cb')"
    proof (cases "l < length ins \<or> l = 0")
      case True
      with cb' E' have c: "dl_inv cb'" "dl_elems cb' = map compel_of (E @ [?e])" "dl_used cb' \<le> dl_used cb + 275" by auto
      have "known cb' ins" if "length P \<le> max_ptr"
        using that wf unfolding known_def c(2) by (intro bexI [of _ "compel_of ?e"] exI [of _ ins]) (simp_all add: compel_of_def)
      moreover have "ins = [] \<or> max_ptr < length P" if "ins = [] \<or> known cb ins \<or> max_ptr < length P"
        using that True best_known [OF best E(1) wfE'] by auto
      ultimately show ?thesis
        using msg_okI [OF c(1,2) entries_ok_add [OF E(2) best wf len]]
          msg_okI [OF c(1,2) entries_ok_taken_back [OF E(2) best wf len]] c E(1) by (auto simp: not_less)
    next
      case False
      with l have l': "l = length ins" "ins \<noteq> []" by auto
      with False cb' best show ?thesis
        using msg msg_ok_append [OF msg] known_found [OF _ E(1) wfE'] by auto
    qed
    with W dec occ o show ?thesis by (simp add: compress_post_def)
  qed
  show ?thesis
    using compress_name_outcome [OF inv E(1) wfE used wf out, of r "length P" mem]
  proof (rule ok_mono, clarify)
    fix rl out' cb'
    assume o: "length out' = length out" and "rl = 0 \<and> \<not> mem \<or> outcome ins E (length P) cb rl out' cb'"
    then show "compress_post P ins out cb mem (rl, out', cb')"
    proof (elim disjE)
      assume "outcome ins E (length P) cb rl out' cb'"
      then show ?thesis unfolding outcome_def by (elim exE conjE) (simp only:, rule post [OF _ o], simp_all)
    qed (simp add: compress_post_def)
  qed
qed

section \<open>Properties\<close>

text \<open>
  The messages that can be put together: from a header, by appending any bytes, and by
  appending the output of a successful \<open>compress_name\<close> at the current end. \<open>N\<close> records
  the names written and their offsets.
\<close>

inductive built :: "bytes \<Rightarrow> compel dlist option \<Rightarrow> (nat \<times> label list) list \<Rightarrow> bool" where
  built_header: "built P None []"
| built_bytes: "built P cb N \<Longrightarrow> built (P @ W) cb N"
| built_name: "built P cb N \<Longrightarrow> wf_name ins \<Longrightarrow> length P \<le> 0x7fffffff \<Longrightarrow> length (wire ins) \<le> length out \<Longrightarrow>
    compress_name (wire ins @ r) out (length P) cb mem = Some (rl, out', cb') \<Longrightarrow> rl > 0 \<Longrightarrow>
    built (P @ take rl out') cb' (N @ [(length P, ins)])"

lemma built_msg_ok: "built P cb N \<Longrightarrow> msg_ok P cb \<and> dl_used cb \<le> 275 * length P"
proof (induction rule: built.induct)
  case (built_header P)
  show ?case by (simp add: msg_ok_None dl_used_def)
next
  case (built_name P cb N ins out r mem rl out' cb')
  then have "compress_post P ins out cb mem (rl, out', cb')"
    using compress_name_ok [of P cb ins out r mem] by simp
  with built_name show ?case by (auto simp: compress_post_def min_def)
qed (auto intro: msg_ok_append)

lemma built_holds:
  "built P cb N \<Longrightarrow> (i, x) \<in> set N \<Longrightarrow> wf_name x \<and> holds_name P i x"
proof (induction arbitrary: i x rule: built.induct)
  case (built_bytes P cb N W)
  then show ?case by (simp add: holds_name_append)
next
  case (built_name P cb N ins out r mem rl out' cb')
  have "ok (compress_name (wire ins @ r) out (length P) cb mem) (compress_post P ins out cb mem)"
    using built_name.hyps built_msg_ok [OF built_name.hyps(1)] by (intro compress_name_ok) auto
  with built_name.hyps have "holds_name (P @ take rl out') (length P) ins"
    by (simp add: compress_post_def)
  with built_name.prems built_name.IH built_name.hyps(2) show ?case
    by (auto simp: holds_name_append)
qed simp

lemma fold_name_wire_length: "fold_name xs = fold_name ys \<Longrightarrow> length (wire xs) = length (wire ys)"
proof -
  have "length (wire zs) = 1 + sum_list (map Suc (map length (fold_name zs)))" for zs
    by (simp add: length_wire fold_name_def comp_def)
  then show "fold_name xs = fold_name ys \<Longrightarrow> ?thesis" by metis
qed

lemma decodes_occupies: "decodes M i ls h \<Longrightarrow> \<exists>n. occupies M i n \<and> i + n \<le> length M"
proof (induction rule: decodes.induct)
  case (decodes_end i)
  then show ?case by (intro exI [of _ "Suc 0"]) (auto simp: rd_eq_Some_iff intro: occupies_end)
next
  case (decodes_label i b l ls h)
  from decodes_label.IH obtain n where n: "occupies M (Suc (i + unat b)) n" "Suc (i + unat b) + n \<le> length M"
    by blast
  from occupies_label [OF decodes_label.hyps(1-3) n(1)] n(2) show ?case
    by (intro exI [of _ "Suc (unat b + n)"]) simp
next
  case (decodes_ptr i b c ls h)
  from occupies_ptr [OF decodes_ptr.hyps(1,2)] decodes_ptr.hyps(3) show ?case
    by (intro exI [of _ 2]) (simp add: rd_eq_Some_iff)
qed

text \<open>
  C5. The round trip of names through messages: in any message put together from plain bytes
  and compressed names, \<open>decompress_name\<close> at the offset of any of the names written
  succeeds and yields that name up to the case of letters. So the compressor only ever points
  at places where the tail in question was really written out, as its comment claims, and the
  bound of 255 jumps is never met.
\<close>

theorem compress_decompress:
  assumes "built P cb N" and "(i, ins) \<in> set N" and "DNSNAMEBUFSIZE \<le> length tgt"
  shows "ok (decompress_name P (length P) i (length P - i) tgt) (\<lambda>d. d_rc d = RC_OK \<and>
    (\<exists>ls. d_len d = Some (length (wire ls)) \<and> take (length (wire ls)) (d_tgt d) = wire ls \<and>
      wf_name ls \<and> fold_name ls = fold_name ins))"
proof -
  from built_holds [OF assms(1,2)] obtain ls h where wf: "wf_name ins"
    and ls: "decodes P i ls h" "fold_name ls = fold_name ins" "h \<le> 255"
    by (auto simp: holds_name_def)
  from ls wf have "wf_name ls"
    using fold_name_wire_length [OF ls(2)] decodes_wf [OF ls(1)] by (simp add: wf_name_def)
  moreover from decodes_occupies [OF ls(1)] obtain n where "occupies P i n" "i + n \<le> length P" by blast
  then have "decodes_within P i (length P - i) ls h"
    using ls(1) unfolding decodes_within_def by (intro conjI exI [of _ n]) auto
  moreover have "ok (decompress_name P (length P) i (length P - i) tgt) (decompress_post P i (length P - i) tgt)"
    using decompress_name_ok [of "length P" P tgt i "length P - i"] assms(3) by (simp add: DNSNAMEBUFSIZE_def)
  ultimately show ?thesis
    using ls unfolding decompress_post_def by (elim ok_mono) blast
qed

text \<open>Two names, the second of which shares its last label with the first.\<close>

definition msg_1 :: bytes where "msg_1 = replicate 12 0 @ [1, 97, 1, 98, 0]"

definition msg_2 :: bytes where "msg_2 = msg_1 @ [1, 99, 0xc0, 14]"

lemma compress_name_run:
  assumes wf: "wf_name ins" and out: "length (wire ins) \<le> length out" and inv: "dl_inv cb" and used: "dl_used cb \<le> 2 ^ 61"
    and search: "compress_search (wire ins @ r) (dl_elems cb) 0 0 0 = Some (l, lrem, coffs)"
    and l: "l < length ins" "0 < l \<Longrightarrow> lrem = off ins (length ins - l)"
  shows "\<exists>out' cb'. compress_name (wire ins @ r) out offs cb True = Some (length (written ins l coffs), out', cb') \<and>
    take (length (written ins l coffs)) out' = written ins l coffs \<and>
    dl_inv cb' \<and> dl_elems cb' = dl_elems cb @ [compel_of (offs, ins, u)] \<and> dl_used cb' \<le> dl_used cb + 275"
proof -
  let ?e = "compel_of (offs, ins, u)"
  have sz: "compel_size ?e + 15 \<le> 275"
    using wf by (simp add: compel_size_def compel_of_def sizeof_compel_t_def wf_name_def DNSNAMEBUFSIZE_def)
  from compress_output_ok [OF wf out less_imp_le [OF l(1)] l(2), of r coffs] l obtain out'
    where outp: "compress_output (wire ins @ r) out (length (wire ins)) l lrem coffs =
        Some (out', length (written ins l coffs), True)"
      and out': "take (length (written ins l coffs)) out' = written ins l coffs"
    by (auto elim!: okE)
  from dl.grow_mem [of cb compel_size ?e] inv used sz obtain cb'
    where push: "dlist_push compel_size cb ?e True = Some cb'" "dl_inv cb'" "dl_elems cb' = dl_elems cb @ [?e]"
      "dl_used cb' \<le> dl_used cb + (compel_size ?e + 15)"
    by (auto elim!: okE)
  then have "cb' \<noteq> None" using dl.elems_empty by (metis Nil_is_append_conv list.distinct(1))
  with push outp out' search sz show ?thesis
    by (auto simp: compress_name_unfold [OF wf inv, where u = u])
qed

lemma msg_2_built: "\<exists>cb. built msg_2 cb [(12, [[97], [98]]), (17, [[99], [66]])]"
proof -
  let ?a = "[[97], [98]] :: label list" and ?b = "[[99], [66]] :: label list"
  have wf: "wf_name ?a" "wf_name ?b" by (simp_all add: wf_name_def wf_label_def DNSNAMEBUFSIZE_def)
  have e: "dl_inv (None :: compel dlist option)" "dl_elems (None :: compel dlist option) = []"
    "dl_used (None :: compel dlist option) = 0"
    by (simp_all add: dl_inv_def dl_elems_def dlist_items_def dl_used_def)
  let ?w1 = "written ?a 0 0" and ?w2 = "written ?b 1 14"
  have w: "?w1 = [1, 97, 1, 98, 0]" "?w2 = [1, 99, 0xc0, 14]"
    by (simp_all add: written_def ptr_hi_def ptr_lo_def)
  have "compress_search (wire ?a @ []) (dl_elems None) 0 0 0 = Some (0, 0, 0)" by (simp add: e)
  from compress_name_run [OF wf(1) _ e(1) _ this, of "replicate 256 0" 12 2] e obtain o1 cb1 where
    1: "compress_name (wire ?a @ []) (replicate 256 0) 12 None True = Some (length ?w1, o1, cb1)"
      "take (length ?w1) o1 = ?w1" "dl_inv cb1" "dl_elems cb1 = [compel_of (12, ?a, 2)]" "dl_used cb1 \<le> 275"
    by auto
  have "compress_search (wire ?b @ []) (dl_elems cb1) 0 0 0 = Some (1, 2, 14)"
    using domain_match_ok [OF wf(2,1), of "[]" "[]"]
    by (simp add: 1(4) compel_of_def common_tail_def fold_name_def tolower_def off_def)
  moreover have "dl_used cb1 \<le> 2 ^ 61" using 1(5) by simp
  moreover have "2 = off ?b (length ?b - 1)" by (simp add: off_def)
  moreover have "length (wire ?b) \<le> length (replicate 256 (0 :: byte))" "1 < length ?b" by simp_all
  ultimately obtain o2 cb2 where
    2: "compress_name (wire ?b @ []) (replicate 256 0) 17 cb1 True = Some (length ?w2, o2, cb2)"
      "take (length ?w2) o2 = ?w2"
    using compress_name_run [OF wf(2) _ 1(3), of "replicate 256 0" "[]" 1 2 14 17 1] by blast
  have b1: "built (replicate 12 0 @ take (length ?w1) o1) cb1 ([] @ [(length (replicate 12 (0 :: byte)), ?a)])"
    by (rule built_name [OF built_header wf(1)]) (use 1(1) w in simp_all)
  have "built ((replicate 12 0 @ take (length ?w1) o1) @ take (length ?w2) o2) cb2
      (([] @ [(length (replicate 12 (0 :: byte)), ?a)]) @ [(length (replicate 12 0 @ take (length ?w1) o1), ?b)])"
    by (rule built_name [OF b1 wf(2)]) (use 1(2) 2(1) w in simp_all)
  then show ?thesis unfolding 1(2) 2(2) unfolding w by (auto simp: msg_1_def msg_2_def)
qed

theorem compress_decompress_witness:
  "ok (decompress_name msg_2 (length msg_2) 17 (length msg_2 - 17) (replicate 256 0)) (\<lambda>d. d_rc d = RC_OK \<and>
    (\<exists>ls. d_len d = Some (length (wire ls)) \<and> take (length (wire ls)) (d_tgt d) = wire ls \<and>
      wf_name ls \<and> fold_name ls = fold_name [[99], [66]]))"
proof -
  obtain cb where "built msg_2 cb [(12, [[97], [98]]), (17, [[99], [66]])]" using msg_2_built by blast
  from compress_decompress [OF this, of 17 "[[99], [66]]" "replicate 256 0"] show ?thesis
    by (simp add: DNSNAMEBUFSIZE_def)
qed

end
