(* ===== verification/CacheLock.thy ===== *)
theory CacheLock
  imports Prelude
begin

text \<open>
  The read/write lock of the cache (\<^verbatim>\<open>src/cache.c\<close>, "Locking functions").

  The lock consists of counters protected by one mutex and of two condition variables. The code
  between taking the mutex and giving it back or sleeping on a condition variable is one
  atomic step; each such piece is a function on the record \<open>lock\<close>. The step relation interleaves
  the pieces of arbitrarily many threads. A thread that sleeps on a condition variable goes on
  when it is signalled, or spuriously, as POSIX allows.
\<close>

section \<open>The shared variables and the atomic pieces\<close>

record lock =
  use_cache_lock :: bool
  cache_w_lock :: int
  cache_r_lock :: int
  r_pend :: int
  rw_pend :: int
  r_susp :: int

definition SUSP_THRESH :: "int \<Rightarrow> int" where
  "SUSP_THRESH r = r div 2 + 2"

text \<open>What a piece does to sleeping threads: \<^verbatim>\<open>pthread_cond_signal(&rw_cond)\<close> or
  \<^verbatim>\<open>pthread_cond_broadcast(&r_cond)\<close>.\<close>

datatype wakeup = NoWake | SignalRW | BroadcastR

text \<open>The condition of the loop in \<open>lock_cache_r\<close>, which may set \<open>r_susp\<close>, and the code after it.
  The first component of the result tells whether the lock has been taken.\<close>

definition lock_r_try :: "lock \<Rightarrow> bool \<times> lock" where
  "lock_r_try s = (
     let susp = (if rw_pend s > SUSP_THRESH (r_pend s) then 1 else r_susp s);
         s = s\<lparr>r_susp := susp\<rparr>
     in if susp \<noteq> 0 \<or> cache_w_lock s \<noteq> 0 then (False, s)
        else (True, s\<lparr>cache_r_lock := cache_r_lock s + 1, r_pend := r_pend s - 1\<rparr>))"

definition lock_cache_r :: "lock \<Rightarrow> bool \<times> lock" where
  "lock_cache_r s = (if \<not> use_cache_lock s then (True, s) else lock_r_try (s\<lparr>r_pend := r_pend s + 1\<rparr>))"

definition unlock_cache_r :: "lock \<Rightarrow> wakeup \<times> lock" where
  "unlock_cache_r s = (if \<not> use_cache_lock s then (NoWake, s) else
     let s = (if cache_r_lock s > 0 then s\<lparr>cache_r_lock := cache_r_lock s - 1\<rparr> else s)
     in (if cache_r_lock s = 0 then SignalRW else NoWake, s))"

definition lock_rw_try :: "lock \<Rightarrow> bool \<times> lock" where
  "lock_rw_try s = (if cache_w_lock s \<noteq> 0 \<or> cache_r_lock s \<noteq> 0 then (False, s)
     else (True, s\<lparr>cache_w_lock := 1, rw_pend := rw_pend s - 1\<rparr>))"

definition lock_cache_rw :: "lock \<Rightarrow> bool \<times> lock" where
  "lock_cache_rw s = (if \<not> use_cache_lock s then (True, s) else lock_rw_try (s\<lparr>rw_pend := rw_pend s + 1\<rparr>))"

text \<open>Entering \<open>timedlock_cache_rw\<close>, and its exit when the time is over. Without the lock it
  returns 0, which is not success.\<close>

definition timedlock_cache_rw :: "lock \<Rightarrow> bool \<times> lock" where
  "timedlock_cache_rw s = (if \<not> use_cache_lock s then (False, s) else lock_rw_try (s\<lparr>rw_pend := rw_pend s + 1\<rparr>))"

definition timedlock_timeout :: "lock \<Rightarrow> lock" where
  "timedlock_timeout s = s\<lparr>rw_pend := rw_pend s - 1\<rparr>"

definition give_up_rw :: "lock \<Rightarrow> wakeup \<times> lock" where
  "give_up_rw s = (if r_pend s = 0 \<or> rw_pend s > SUSP_THRESH (r_pend s) then SignalRW else BroadcastR,
     s\<lparr>cache_w_lock := 0, r_susp := 0\<rparr>)"

definition unlock_cache_rw :: "lock \<Rightarrow> wakeup \<times> lock" where
  "unlock_cache_rw s = (if \<not> use_cache_lock s then (NoWake, s) else give_up_rw s)"

text \<open>\<open>yield_lock_cache_rw\<close>: the test at the beginning (made without the mutex), giving up the lock, and
  taking it again after the pause.\<close>

definition yield_wanted :: "lock \<Rightarrow> bool" where
  "yield_wanted s \<longleftrightarrow> \<not> (\<not> use_cache_lock s \<or> (r_pend s = 0 \<and> rw_pend s = 0))"

definition yield_retake :: "lock \<Rightarrow> bool \<times> lock" where
  "yield_retake s = lock_rw_try (s\<lparr>rw_pend := rw_pend s + 1\<rparr>)"

definition softlock_r_try :: "lock \<Rightarrow> bool \<times> lock" where
  "softlock_r_try s = (if cache_w_lock s = 0 then (True, s\<lparr>cache_r_lock := cache_r_lock s + 1\<rparr>) else (False, s))"

definition softlock_rw_try :: "lock \<Rightarrow> bool \<times> lock" where
  "softlock_rw_try s = (if cache_w_lock s = 0 \<and> cache_r_lock s = 0 then (True, s\<lparr>cache_w_lock := 1\<rparr>) else (False, s))"

definition softunlock_cache_r :: "lock \<Rightarrow> lock" where
  "softunlock_cache_r s = (if \<not> use_cache_lock s then s
     else if cache_r_lock s > 0 then s\<lparr>cache_r_lock := cache_r_lock s - 1\<rparr> else s)"

definition softunlock_cache_rw :: "lock \<Rightarrow> lock" where
  "softunlock_cache_rw s = (if \<not> use_cache_lock s then s else s\<lparr>cache_w_lock := 0\<rparr>)"

text \<open>
  The loops with a limited number of trials. \<open>mutex k\<close> tells whether \<open>pthread_mutex_trylock\<close>
  succeeds at trial \<open>k\<close>; \<open>env k\<close> is the lock the trial \<open>k\<close> finds under the mutex, or \<open>None\<close> when the
  mutex cannot be had. The result is the number of the successful trial and the lock after it.
\<close>

definition SOFTLOCK_MAXTRIES :: nat where "SOFTLOCK_MAXTRIES = 1000"

function softlock_mutex_loop :: "(nat \<Rightarrow> bool) \<Rightarrow> nat \<Rightarrow> bool" where
  "softlock_mutex_loop mutex tr = (if mutex tr then True
     else if tr + 1 \<ge> SOFTLOCK_MAXTRIES then False else softlock_mutex_loop mutex (tr + 1))"
  by pat_completeness auto
termination by (relation "measure (\<lambda>(_, tr). SOFTLOCK_MAXTRIES - tr)") auto

definition softlock_mutex :: "(nat \<Rightarrow> bool) \<Rightarrow> bool" where
  "softlock_mutex mutex = softlock_mutex_loop mutex 0"

function softlock_loop :: "(lock \<Rightarrow> bool \<times> lock) \<Rightarrow> (nat \<Rightarrow> lock option) \<Rightarrow> nat \<Rightarrow> (nat \<times> lock) option" where
  "softlock_loop try env tr = (case env tr of None \<Rightarrow> None
     | Some s \<Rightarrow> (case try s of (True, s) \<Rightarrow> Some (tr, s)
       | (False, s) \<Rightarrow> if tr + 1 \<ge> SOFTLOCK_MAXTRIES then None else softlock_loop try env (tr + 1)))"
  by pat_completeness auto
termination by (relation "measure (\<lambda>(_, _, tr). SOFTLOCK_MAXTRIES - tr)") auto

definition softlock_cache_r :: "bool \<Rightarrow> (nat \<Rightarrow> lock option) \<Rightarrow> (nat \<times> lock) option" where
  "softlock_cache_r use env = (if \<not> use then None else softlock_loop softlock_r_try env 0)"

definition softlock_cache_rw :: "bool \<Rightarrow> (nat \<Rightarrow> lock option) \<Rightarrow> (nat \<times> lock) option" where
  "softlock_cache_rw use env = (if \<not> use then None else softlock_loop softlock_rw_try env 0)"

declare softlock_mutex_loop.simps [simp del] softlock_loop.simps [simp del]

definition init_cache_lock :: lock where
  "init_cache_lock = \<lparr>use_cache_lock = True, cache_w_lock = 0, cache_r_lock = 0, r_pend = 0, rw_pend = 0, r_susp = 0\<rparr>"

section \<open>Threads\<close>

text \<open>
  Where a thread is: outside, reading, writing (perhaps about to yield), in the pause of
  \<open>yield_lock_cache_rw\<close>, or in \<^verbatim>\<open>pthread_cond_wait\<close> on \<open>r_cond\<close> or \<open>rw_cond\<close>, asleep or awakened (then it goes on
  when it gets the mutex). The first argument of \<open>WaitW\<close> is set in \<open>timedlock_cache_rw\<close>.
\<close>

datatype pc = Idle | HoldR | HoldW bool | Pause | WaitR bool | WaitW bool bool

text \<open>The thread or threads that a signal awakens. Nothing happens when no thread sleeps.\<close>

inductive wakes :: "wakeup \<Rightarrow> (nat \<Rightarrow> pc) \<Rightarrow> (nat \<Rightarrow> pc) \<Rightarrow> bool" where
  wake_none: "wakes NoWake f f"
| wake_one: "f t = WaitW tm False \<Longrightarrow> wakes SignalRW f (f(t := WaitW tm True))"
| wake_lost: "(\<And>t tm. f t \<noteq> WaitW tm False) \<Longrightarrow> wakes SignalRW f f"
| wake_all: "wakes BroadcastR f (\<lambda>t. if f t = WaitR False then WaitR True else f t)"

text \<open>
  One step of the system. Only the status thread \<open>st\<close>, which serves one connection at a time, calls
  \<open>timedlock_cache_rw\<close>; the soft locks, which wake nobody, are used only while the program
  is exiting. A timed wait may expire while the thread sleeps and also after it has been awakened: POSIX
  lets \<^verbatim>\<open>pthread_cond_timedwait\<close> return \<^verbatim>\<open>ETIMEDOUT\<close> although it has consumed a signal.
\<close>

inductive lstep :: "bool \<Rightarrow> nat \<Rightarrow> lock \<times> (nat \<Rightarrow> pc) \<Rightarrow> lock \<times> (nat \<Rightarrow> pc) \<Rightarrow> bool" for exiting st where
  lock_r: "f t = Idle \<Longrightarrow> lock_cache_r s = (b, s') \<Longrightarrow>
     lstep exiting st (s, f) (s', f(t := if b then HoldR else WaitR False))"
| retry_r: "f t = WaitR True \<Longrightarrow> lock_r_try s = (b, s') \<Longrightarrow>
     lstep exiting st (s, f) (s', f(t := if b then HoldR else WaitR False))"
| unlock_r: "f t = HoldR \<Longrightarrow> unlock_cache_r s = (w, s') \<Longrightarrow> wakes w (f(t := Idle)) f' \<Longrightarrow>
     lstep exiting st (s, f) (s', f')"
| lock_rw: "f t = Idle \<Longrightarrow> lock_cache_rw s = (b, s') \<Longrightarrow>
     lstep exiting st (s, f) (s', f(t := if b then HoldW False else WaitW False False))"
| retry_rw: "f t = WaitW tm True \<Longrightarrow> lock_rw_try s = (b, s') \<Longrightarrow>
     lstep exiting st (s, f) (s', f(t := if b then HoldW False else WaitW tm False))"
| timedlock: "f st = Idle \<Longrightarrow> timedlock_cache_rw s = (b, s') \<Longrightarrow>
     lstep exiting st (s, f) (s', f(st := if b then HoldW False else WaitW True False))"
| timeout: "f t = WaitW True a \<Longrightarrow> lstep exiting st (s, f) (timedlock_timeout s, f(t := Idle))"
| unlock_rw: "f t = HoldW False \<Longrightarrow> unlock_cache_rw s = (w, s') \<Longrightarrow> wakes w (f(t := Idle)) f' \<Longrightarrow>
     lstep exiting st (s, f) (s', f')"
| yield_check: "f t = HoldW False \<Longrightarrow> yield_wanted s \<Longrightarrow> lstep exiting st (s, f) (s, f(t := HoldW True))"
| yield_give_up: "f t = HoldW True \<Longrightarrow> give_up_rw s = (w, s') \<Longrightarrow> wakes w (f(t := Pause)) f' \<Longrightarrow>
     lstep exiting st (s, f) (s', f')"
| yield_again: "f t = Pause \<Longrightarrow> yield_retake s = (b, s') \<Longrightarrow>
     lstep exiting st (s, f) (s', f(t := if b then HoldW False else WaitW False False))"
| spurious_r: "f t = WaitR False \<Longrightarrow> lstep exiting st (s, f) (s, f(t := WaitR True))"
| spurious_rw: "f t = WaitW tm False \<Longrightarrow> lstep exiting st (s, f) (s, f(t := WaitW tm True))"
| softlock_r: "exiting \<Longrightarrow> f t = Idle \<Longrightarrow> softlock_r_try s = (True, s') \<Longrightarrow>
     lstep exiting st (s, f) (s', f(t := HoldR))"
| softlock_rw: "exiting \<Longrightarrow> f t = Idle \<Longrightarrow> softlock_rw_try s = (True, s') \<Longrightarrow>
     lstep exiting st (s, f) (s', f(t := HoldW False))"
| softunlock_r: "exiting \<Longrightarrow> f t = HoldR \<Longrightarrow> lstep exiting st (s, f) (softunlock_cache_r s, f(t := Idle))"
| softunlock_rw: "exiting \<Longrightarrow> f t = HoldW False \<Longrightarrow> lstep exiting st (s, f) (softunlock_cache_rw s, f(t := Idle))"

inductive reachable :: "bool \<Rightarrow> nat \<Rightarrow> lock \<times> (nat \<Rightarrow> pc) \<Rightarrow> bool" for exiting st where
  start: "reachable exiting st (init_cache_lock, \<lambda>_. Idle)"
| next_step: "reachable exiting st x \<Longrightarrow> lstep exiting st x y \<Longrightarrow> reachable exiting st y"

inductive_cases wakesE: "wakes w f f'"

section \<open>The counters\<close>

fun readsp :: "pc \<Rightarrow> bool" where "readsp HoldR = True" | "readsp _ = False"
fun writesp :: "pc \<Rightarrow> bool" where "writesp (HoldW _) = True" | "writesp _ = False"
fun waitsR :: "pc \<Rightarrow> bool" where "waitsR (WaitR _) = True" | "waitsR _ = False"
fun waitsW :: "pc \<Rightarrow> bool" where "waitsW (WaitW _ _) = True" | "waitsW _ = False"

definition num :: "(pc \<Rightarrow> bool) \<Rightarrow> (nat \<Rightarrow> pc) \<Rightarrow> int" where
  "num P f = int (card {t. P (f t)})"

definition live :: "(nat \<Rightarrow> pc) \<Rightarrow> bool" where
  "live f \<longleftrightarrow> finite {t. f t \<noteq> Idle}"

lemma live_upd [simp]: "live f \<Longrightarrow> live (f(t := x))"
  unfolding live_def by (rule finite_subset [of _ "insert t {t. f t \<noteq> Idle}"]) (auto split: if_splits)

lemma num_finite: "live f \<Longrightarrow> \<not> P Idle \<Longrightarrow> finite {t. P (f t)}"
  unfolding live_def by (rule finite_subset [of _ "{t. f t \<noteq> Idle}"]) auto

lemma num_upd:
  assumes "live f" and "\<not> P Idle"
  shows "num P (f(t := x)) = num P f - of_bool (P (f t)) + of_bool (P x)"
proof -
  let ?A = "{u. u \<noteq> t \<and> P (f u)}"
  have fin: "finite ?A" using num_finite [of f P] assms by (rule_tac finite_subset [of _ "{t. P (f t)}"]) auto
  have "{u. P ((f(t := x)) u)} = (if P x then insert t ?A else ?A)"
    and "{u. P (f u)} = (if P (f t) then insert t ?A else ?A)" by auto
  with fin show ?thesis by (simp add: num_def)
qed

lemma num_pos: "live f \<Longrightarrow> \<not> P Idle \<Longrightarrow> num P f > 0 \<longleftrightarrow> (\<exists>t. P (f t))"
  using num_finite [of f P] by (auto simp: num_def card_gt_0_iff)

lemma num_nonneg [simp]: "0 \<le> num P f"
  by (simp add: num_def)

lemma num_one: "live f \<Longrightarrow> \<not> P Idle \<Longrightarrow> num P f \<le> 1 \<Longrightarrow> P (f t) \<Longrightarrow> P (f u) \<Longrightarrow> t = u"
  using num_finite [of f P] card_le_Suc0_iff_eq [of "{t. P (f t)}"] by (auto simp: num_def)

text \<open>Awakening changes no counter.\<close>

lemma wakes_same:
  assumes "wakes w f f'"
  shows "readsp (f' t) = readsp (f t)" "writesp (f' t) = writesp (f t)" "waitsR (f' t) = waitsR (f t)"
    "waitsW (f' t) = waitsW (f t)" "f' t = Idle \<longleftrightarrow> f t = Idle" "f' t = Pause \<longleftrightarrow> f t = Pause"
    "(\<exists>a. f' t = WaitW tm a) \<longleftrightarrow> (\<exists>a. f t = WaitW tm a)"
    "f t = WaitW tm True \<Longrightarrow> f' t = WaitW tm True" "f t = WaitR True \<Longrightarrow> f' t = WaitR True"
    "f' t = WaitR False \<Longrightarrow> f t = WaitR False" "f' t = WaitW tm False \<Longrightarrow> f t = WaitW tm False"
  using assms by (auto elim!: wakesE split: if_splits)

lemma wakes_num:
  assumes "wakes w f f'"
  shows "num readsp f' = num readsp f" "num writesp f' = num writesp f" "num waitsR f' = num waitsR f"
    "num waitsW f' = num waitsW f" "live f' = live f"
  by (simp_all only: num_def live_def wakes_same(1-5) [OF assms])

definition counts :: "nat \<Rightarrow> lock \<Rightarrow> (nat \<Rightarrow> pc) \<Rightarrow> bool" where
  "counts st s f \<longleftrightarrow> live f \<and> use_cache_lock s \<and> cache_r_lock s = num readsp f \<and> cache_w_lock s = num writesp f \<and>
     r_pend s = num waitsR f \<and> rw_pend s = num waitsW f \<and> cache_w_lock s \<le> 1 \<and>
     (cache_w_lock s = 0 \<or> cache_r_lock s = 0) \<and> (\<forall>t a. f t = WaitW True a \<longrightarrow> t = st)"

lemmas piece_defs = lock_cache_r_def lock_r_try_def unlock_cache_r_def lock_cache_rw_def lock_rw_try_def
  timedlock_cache_rw_def timedlock_timeout_def unlock_cache_rw_def give_up_rw_def yield_retake_def
  softlock_r_try_def softlock_rw_try_def softunlock_cache_r_def softunlock_cache_rw_def Let_def

lemma holder_counted:
  assumes "counts st s f"
  shows "f t = HoldR \<Longrightarrow> cache_r_lock s > 0" "f t = HoldW b \<Longrightarrow> cache_w_lock s = 1"
    "f t = WaitR a \<Longrightarrow> r_pend s > 0" "f t = WaitW tm a \<Longrightarrow> rw_pend s > 0"
proof -
  have c: "live f" "cache_r_lock s = num readsp f" "cache_w_lock s = num writesp f" "r_pend s = num waitsR f"
    "rw_pend s = num waitsW f" "cache_w_lock s \<le> 1"
    using assms unfolding counts_def by blast+
  have pos: "\<not> P Idle \<Longrightarrow> P (f t) \<Longrightarrow> num P f > 0" for P using num_pos [OF c(1), of P] by blast
  show "f t = HoldR \<Longrightarrow> cache_r_lock s > 0" using pos [of readsp] c by simp
  show "f t = HoldW b \<Longrightarrow> cache_w_lock s = 1" using pos [of writesp] c by simp
  show "f t = WaitR a \<Longrightarrow> r_pend s > 0" using pos [of waitsR] c by simp
  show "f t = WaitW tm a \<Longrightarrow> rw_pend s > 0" using pos [of waitsW] c by simp
qed

lemma counts_wakes:
  assumes "wakes w f f'" and "counts st s f"
  shows "counts st s f'"
proof -
  have "\<forall>t a. f' t = WaitW True a \<longrightarrow> t = st"
    using assms(2) wakes_same(7) [OF assms(1), of _ True] unfolding counts_def by blast
  with assms(2) show ?thesis unfolding counts_def wakes_num [OF assms(1)] by blast
qed

lemma timed_status: "counts st s f \<Longrightarrow> f t = WaitW tm a \<Longrightarrow> tm \<Longrightarrow> t = st"
proof -
  assume "counts st s f" and "f t = WaitW tm a" and tm
  then have "\<forall>t a. f t = WaitW True a \<longrightarrow> t = st" "f t = WaitW True a" by (simp_all add: counts_def)
  then show "t = st" by blast
qed

lemma counts_step:
  assumes "lstep exiting st (s, f) (s', f')" and c: "counts st s f"
  shows "counts st s' f'"
  using assms(1)
proof (cases rule: lstep.cases)
  case (unlock_r t w)
  then have "counts st s' (f(t := Idle))"
    using c holder_counted(1) [OF c, of t] by (auto simp: counts_def piece_defs num_upd split: if_splits)
  with unlock_r counts_wakes show ?thesis by blast
next
  case (unlock_rw t w)
  then have "counts st s' (f(t := Idle))"
    using c holder_counted(2) [OF c, of t False] by (auto simp: counts_def piece_defs num_upd split: if_splits)
  with unlock_rw counts_wakes show ?thesis by blast
next
  case (yield_give_up t w)
  then have "counts st s' (f(t := Pause))"
    using c holder_counted(2) [OF c, of t True] by (auto simp: counts_def piece_defs num_upd split: if_splits)
  with yield_give_up counts_wakes show ?thesis by blast
next
  case (retry_rw t tm b)
  moreover from this c have "tm \<Longrightarrow> t = st" by (blast intro: timed_status)
  ultimately show ?thesis
    using c by (auto simp: counts_def piece_defs num_upd split: if_splits)
next
  case (spurious_rw t tm)
  moreover from this c have "tm \<Longrightarrow> t = st" by (blast intro: timed_status)
  ultimately show ?thesis
    using c by (auto simp: counts_def num_upd)
next
  case (softunlock_r t)
  then show ?thesis
    using c holder_counted(1) [OF c, of t] by (auto simp: counts_def piece_defs num_upd)
qed (use c holder_counted [OF c] in \<open>auto simp: counts_def piece_defs num_upd split: if_splits\<close>)

lemma counts_reachable: "reachable exiting st (s, f) \<Longrightarrow> counts st s f"
proof (induction "(s, f)" arbitrary: s f rule: reachable.induct)
  case start
  then show ?case by (simp add: counts_def init_cache_lock_def num_def live_def)
next
  case (next_step x s f)
  then show ?case using counts_step by (cases x) blast
qed

section \<open>Sleeping threads\<close>

text \<open>
  What excludes lost wake-ups. \<open>justified\<close>: reading is suspended, and a reader sleeps, only while some thread
  writes or a writer waits that cannot time out. \<open>attended\<close>: when the lock is free and a thread sleeps,
  some thread is about to take the lock: an awakened writer, or an awakened reader that is not
  suspended.
\<close>

definition patient_writer :: "(nat \<Rightarrow> pc) \<Rightarrow> bool" where
  "patient_writer f \<longleftrightarrow> (\<exists>t a. f t = WaitW False a)"

definition sleepers :: "(nat \<Rightarrow> pc) \<Rightarrow> bool" where
  "sleepers f \<longleftrightarrow> (\<exists>t. f t = WaitR False \<or> (\<exists>tm. f t = WaitW tm False))"

definition taker :: "lock \<Rightarrow> (nat \<Rightarrow> pc) \<Rightarrow> bool" where
  "taker s f \<longleftrightarrow> (\<exists>t tm. f t = WaitW tm True) \<or>
     ((\<exists>t. f t = WaitR True) \<and> r_susp s = 0 \<and> rw_pend s \<le> SUSP_THRESH (r_pend s))"

definition justified :: "lock \<Rightarrow> (nat \<Rightarrow> pc) \<Rightarrow> bool" where
  "justified s f \<longleftrightarrow> (r_susp s \<noteq> 0 \<longrightarrow> cache_w_lock s \<noteq> 0 \<or> patient_writer f) \<and>
     (\<forall>t. f t = WaitR False \<longrightarrow> cache_w_lock s \<noteq> 0 \<or> patient_writer f)"

definition lock_free :: "lock \<Rightarrow> bool" where
  "lock_free s \<longleftrightarrow> cache_w_lock s = 0 \<and> cache_r_lock s = 0"

definition attended :: "lock \<Rightarrow> (nat \<Rightarrow> pc) \<Rightarrow> bool" where
  "attended s f \<longleftrightarrow> (lock_free s \<and> sleepers f \<longrightarrow> taker s f)"

text \<open>
  The one way to lose a wake-up: the wait of the status thread expires after the thread has been
  awakened, and \<open>timedlock_cache_rw\<close> does not pass the signal on. \<open>calm\<close> states are those where this has not happened
  since the lock was last held (or since the start).
\<close>

definition theft :: "lock \<times> (nat \<Rightarrow> pc) \<Rightarrow> lock \<times> (nat \<Rightarrow> pc) \<Rightarrow> bool" where
  "theft x y \<longleftrightarrow> (\<exists>t. snd x t = WaitW True True \<and> snd y t = Idle)"

inductive calm :: "nat \<Rightarrow> lock \<times> (nat \<Rightarrow> pc) \<Rightarrow> bool" for st where
  calm_start: "calm st (init_cache_lock, \<lambda>_. Idle)"
| calm_held: "reachable False st (s, f) \<Longrightarrow> \<not> lock_free s \<Longrightarrow> calm st (s, f)"
| calm_step: "calm st x \<Longrightarrow> lstep False st x y \<Longrightarrow> \<not> theft x y \<Longrightarrow> calm st y"

text \<open>At most one writer can time out, so three waiting writers include a patient one.\<close>

lemma patient_exists:
  assumes c: "counts st s f" and "rw_pend s > 1"
  shows "patient_writer f"
proof (rule ccontr)
  assume "\<not> patient_writer f"
  then have "waitsW (f t) \<Longrightarrow> t = st" for t
    using timed_status [OF c] unfolding patient_writer_def by (cases "f t") (simp_all, metis)
  then have "{t. waitsW (f t)} \<subseteq> {st}" by auto
  then have "card {t. waitsW (f t)} \<le> 1" using card_mono [of "{st}"] by fastforce
  with assms show False by (simp add: counts_def num_def)
qed

lemma SUSP_THRESH_pos: "r \<ge> 0 \<Longrightarrow> SUSP_THRESH r \<ge> 2"
  by (simp add: SUSP_THRESH_def)

lemma SUSP_THRESH_mono: "r \<le> q \<Longrightarrow> SUSP_THRESH r \<le> SUSP_THRESH q"
  by (simp add: SUSP_THRESH_def zdiv_mono1)

lemma crowd_patient:
  assumes c: "counts st s f" and "rw_pend s > SUSP_THRESH (r_pend s)"
  shows "patient_writer f"
  using patient_exists [OF c] assms SUSP_THRESH_pos [of "r_pend s"] by (simp add: counts_def)

lemma patient_upd:
  assumes "\<And>a. f t \<noteq> WaitW False a" and "\<And>a. x \<noteq> WaitW False a"
  shows "patient_writer (f(t := x)) = patient_writer f"
proof -
  have "(f(t := x)) u = WaitW False a \<longleftrightarrow> f u = WaitW False a" for u a using assms by auto
  then show ?thesis by (simp only: patient_writer_def)
qed

lemma justified_upd:
  assumes "justified s f" and "patient_writer f \<Longrightarrow> patient_writer f'"
    and "\<And>t. f' t = WaitR False \<Longrightarrow> f t = WaitR False"
    and "r_susp s' = r_susp s" "cache_w_lock s' = cache_w_lock s"
  shows "justified s' f'"
  using assms unfolding justified_def by metis

lemma justified_writing: "cache_w_lock s \<noteq> 0 \<Longrightarrow> justified s f"
  by (simp add: justified_def)

lemma attended_held: "\<not> lock_free s \<Longrightarrow> attended s f"
  by (simp add: attended_def)

lemma patient_wait:
  assumes "patient_writer f" and "f t = Idle \<or> f t = Pause \<or> (\<exists>a. f t = WaitW tm a)"
  shows "patient_writer (f(t := WaitW tm b))"
proof -
  from assms(1) obtain u w where u: "f u = WaitW False w" unfolding patient_writer_def by blast
  with assms(2) have "(f(t := WaitW tm b)) u = WaitW False (if u = t then b else w)" by auto
  then show ?thesis unfolding patient_writer_def by blast
qed

lemma rw_try:
  assumes "lock_rw_try (s\<lparr>rw_pend := n\<rparr>) = (b, s')"
    and "f t = Idle \<or> f t = Pause \<or> f t = WaitW tm True"
  shows "\<not> lock_free s'"
    and "justified s f \<Longrightarrow> justified s' (f(t := if b then HoldW False else WaitW tm False))"
proof -
  show "\<not> lock_free s'" using assms(1) by (auto simp: lock_rw_try_def lock_free_def split: if_splits)
  assume f: "justified s f"
  show "justified s' (f(t := if b then HoldW False else WaitW tm False))"
  proof (cases b)
    case True
    with assms(1) show ?thesis by (auto simp: lock_rw_try_def justified_writing split: if_splits)
  next
    case False
    have "justified s' (f(t := WaitW tm False))"
      by (rule justified_upd [OF f])
        (use assms False patient_wait [of f t tm False] in \<open>auto simp: lock_rw_try_def split: if_splits\<close>)
    with False show ?thesis by simp
  qed
qed

lemma r_try:
  assumes att: "lock_r_try (s\<lparr>r_pend := n\<rparr>) = (b, s')" and a: "justified s f" and n: "r_pend s \<le> n"
    and t: "f t = Idle \<or> f t = WaitR True"
    and c: "counts st s' (f(t := if b then HoldR else WaitR False))"
  shows "justified s' (f(t := if b then HoldR else WaitR False))"
    and "attended s f \<Longrightarrow> attended s' (f(t := if b then HoldR else WaitR False))"
proof -
  let ?f = "f(t := if b then HoldR else WaitR False)"
  let ?susp = "if rw_pend s > SUSP_THRESH n then 1 else r_susp s"
  have pat: "patient_writer ?f = patient_writer f"
    using t by (intro patient_upd) auto
  have keep: "f u = WaitW tm w \<Longrightarrow> ?f u = WaitW tm w" for u tm w
    using t by auto
  have "justified s' ?f \<and> (attended s f \<longrightarrow> attended s' ?f)"
  proof (cases b)
    case True
    then have s': "r_susp s' = 0" "cache_w_lock s' = cache_w_lock s"
      using att by (auto simp: lock_r_try_def Let_def split: if_splits)
    have "\<not> lock_free s'" using holder_counted(1) [OF c, of t] True by (simp add: lock_free_def)
    with s' a pat True show ?thesis by (auto simp: justified_def attended_held)
  next
    case False
    then have s': "s' = s\<lparr>r_pend := n, r_susp := ?susp\<rparr>" and why: "?susp \<noteq> 0 \<or> cache_w_lock s \<noteq> 0"
      using att by (auto simp: lock_r_try_def Let_def split: if_splits)
    have 1: "patient_writer f" if "?susp \<noteq> 0" "cache_w_lock s = 0"
    proof (cases "rw_pend s > SUSP_THRESH n")
      case True
      then show ?thesis using crowd_patient [OF c] s' pat by simp
    next
      case False
      then show ?thesis using that a by (simp add: justified_def)
    qed
    have "taker s' ?f" if free: "lock_free s" and att: "attended s f"
    proof (cases "\<exists>u tm. f u = WaitW tm True")
      case True
      with keep show ?thesis unfolding taker_def by metis
    next
      case nobody: False
      from free why 1 obtain u w where u: "f u = WaitW False w"
        unfolding patient_writer_def lock_free_def by auto
      with nobody have "sleepers f" unfolding sleepers_def by metis
      with att free have "taker s f" by (simp add: attended_def)
      with nobody have "r_susp s = 0" "rw_pend s \<le> SUSP_THRESH (r_pend s)" by (auto simp: taker_def)
      with SUSP_THRESH_mono [OF n] why free show ?thesis by (simp add: lock_free_def)
    qed
    with 1 show ?thesis
      using s' why pat False a by (auto simp: justified_def attended_def lock_free_def)
  qed
  then show "justified s' ?f" and "attended s f \<Longrightarrow> attended s' ?f" by blast+
qed

lemma patient_wakes: "wakes w g f' \<Longrightarrow> patient_writer f' = patient_writer g"
  using wakes_same(7) [of w g f' _ False] unfolding patient_writer_def by blast

lemma wake_writer:
  assumes "wakes SignalRW g f'" and "g t = WaitW tm a"
  shows "\<exists>u tm. f' u = WaitW tm True"
  using assms by (cases a) (auto elim!: wakesE)

lemma unlock_r_wakes:
  assumes "f t = HoldR" and u: "unlock_cache_r s = (w, s')" and w: "wakes w (f(t := Idle)) f'"
    and a: "justified s f" and c: "counts st s f"
  shows "justified s' f'" and "attended s' f'"
proof -
  have r: "cache_r_lock s > 0" "cache_w_lock s = 0" "use_cache_lock s"
    using c holder_counted(1) [OF c assms(1)] by (auto simp: counts_def)
  with u have s': "s' = s\<lparr>cache_r_lock := cache_r_lock s - 1\<rparr>" by (auto simp: unlock_cache_r_def Let_def)
  have pat: "patient_writer f' = patient_writer f"
    using patient_wakes [OF w] patient_upd [of f t Idle] assms(1) by simp
  have sl: "f' v = WaitR False \<Longrightarrow> f v = WaitR False" "f' v = WaitW tm False \<Longrightarrow> f v = WaitW tm False" for v tm
    using wakes_same(10,11) [OF w, of v] by (auto split: if_splits)
  show "justified s' f'" by (rule justified_upd [OF a]) (use pat sl s' in auto)
  show "attended s' f'"
    unfolding attended_def
  proof (intro impI)
    assume free: "lock_free s' \<and> sleepers f'"
    then have sig: "w = SignalRW" using r u s' by (auto simp: unlock_cache_r_def Let_def lock_free_def)
    have "\<exists>v tm x. f v = WaitW tm x"
      using free sl a r(2) unfolding sleepers_def justified_def patient_writer_def by metis
    then obtain v tm x where v: "f v = WaitW tm x" by blast
    then have "(f(t := Idle)) v = WaitW tm x" using assms(1) by auto
    with wake_writer [OF w [unfolded sig]] show "taker s' f'" unfolding taker_def by blast
  qed
qed

lemma give_up_wakes:
  assumes f: "f t = HoldW b" and u: "give_up_rw s = (w, s')" and x: "x = Idle \<or> x = Pause"
    and w: "wakes w (f(t := x)) f'" and c: "counts st s' (f(t := x))"
  shows "justified s' f' \<and> attended s' f'"
proof -
  let ?g = "f(t := x)"
  have s': "s' = s\<lparr>cache_w_lock := 0, r_susp := 0\<rparr>"
    and wk: "w = (if r_pend s' = 0 \<or> rw_pend s' > SUSP_THRESH (r_pend s') then SignalRW else BroadcastR)"
    using u by (auto simp: give_up_rw_def)
  have sl: "f' v = WaitR False \<Longrightarrow> ?g v = WaitR False" "f' v = WaitW tm False \<Longrightarrow> ?g v = WaitW tm False" for v tm
    using wakes_same(10,11) [OF w, of v] by auto
  show ?thesis
  proof (cases "r_pend s' = 0 \<or> rw_pend s' > SUSP_THRESH (r_pend s')")
    case True
    with wk have sig: "w = SignalRW" by simp
    have nor: "?g v \<noteq> WaitR a" if "r_pend s' = 0" for v a
      using holder_counted(3) [OF c, of v a] that by auto
    have pat: "r_pend s' \<noteq> 0 \<Longrightarrow> patient_writer ?g" using True crowd_patient [OF c] by simp
    have "taker s' f'" if "sleepers f'"
    proof -
      have "\<exists>v tm y. ?g v = WaitW tm y"
        using that sl nor pat unfolding sleepers_def patient_writer_def by metis
      with wake_writer [OF w [unfolded sig]] show ?thesis unfolding taker_def by blast
    qed
    with nor pat sl patient_wakes [OF w] show ?thesis
      unfolding justified_def attended_def using s' by auto
  next
    case False
    with wk w have f': "f' = (\<lambda>t. if ?g t = WaitR False then WaitR True else ?g t)" by (auto elim: wakesE)
    have "r_pend s' > 0" using False c by (simp add: counts_def num_def)
    then obtain v where "waitsR (?g v)" using num_pos [of ?g waitsR] c unfolding counts_def by auto
    then have "f' v = WaitR True" unfolding f' by (cases "?g v") (auto split: if_splits)
    moreover have "f' v \<noteq> WaitR False" for v unfolding f' by auto
    moreover have "r_susp s' = 0" "rw_pend s' \<le> SUSP_THRESH (r_pend s')" using s' False by auto
    ultimately show ?thesis unfolding justified_def attended_def taker_def by blast
  qed
qed

text \<open>The two ways to give up the write lock leave the counters of a state in which the lock can be had.\<close>

lemma give_up_step:
  assumes f: "f t = HoldW b" and u: "give_up_rw s = (w, s')" and x: "x = Idle \<or> x = Pause"
    and w: "wakes w (f(t := x)) f'" and c: "counts st s f"
  shows "justified s' f' \<and> attended s' f'"
proof (rule give_up_wakes [OF f u x w])
  show "counts st s' (f(t := x))"
    using x
  proof
    assume "x = Idle"
    then show ?thesis
      using f u c holder_counted(2) [OF c f] by (auto simp: counts_def piece_defs num_upd split: if_splits)
  next
    assume "x = Pause"
    then show ?thesis
      using f u c holder_counted(2) [OF c f] by (auto simp: counts_def piece_defs num_upd split: if_splits)
  qed
qed

lemma taker_mono:
  assumes "taker s f" and "\<And>u tm. f u = WaitW tm True \<Longrightarrow> f' u = WaitW tm True"
    and "\<And>u. f u = WaitR True \<Longrightarrow> f' u = WaitR True"
    and "r_susp s' = r_susp s" and "rw_pend s' \<le> rw_pend s" and "r_pend s' = r_pend s"
  shows "taker s' f'"
  using assms(1)
  unfolding taker_def
proof (elim disjE exE conjE)
  fix t tm assume "f t = WaitW tm True"
  then show "(\<exists>t tm. f' t = WaitW tm True) \<or>
    (\<exists>t. f' t = WaitR True) \<and> r_susp s' = 0 \<and> rw_pend s' \<le> SUSP_THRESH (r_pend s')" using assms(2) by blast
qed (use assms(3-6) in fastforce)+

lemma sleep_step:
  assumes step: "lstep False st (s, f) (s', f')" and c: "counts st s f" and a: "justified s f"
  shows "justified s' f' \<and> (attended s f \<and> \<not> theft (s, f) (s', f') \<longrightarrow> attended s' f')"
  using step
proof (cases rule: lstep.cases)
  case (lock_r t b)
  moreover have "use_cache_lock s" using c unfolding counts_def by blast
  ultimately show ?thesis
    using r_try [of "r_pend s + 1" s b s' f t st] counts_step [OF step c] a
    by (simp add: lock_cache_r_def)
next
  case (retry_r t b)
  then show ?thesis
    using r_try [of "r_pend s" s b s' f t st] counts_step [OF step c] a by simp
next
  case (unlock_r t w)
  then show ?thesis using unlock_r_wakes [of f t s w s' f' st] a c by blast
next
  case (lock_rw t b)
  then show ?thesis
    using rw_try [of "rw_pend s + 1" s b s' f t False] a c
    by (simp add: lock_cache_rw_def counts_def attended_held)
next
  case (retry_rw t tm b)
  then show ?thesis using rw_try [of "rw_pend s" s b s' f t tm] a by (simp add: attended_held)
next
  case (timedlock b)
  then show ?thesis
    using rw_try [of "rw_pend s + 1" s b s' f st True] a c
    by (simp add: timedlock_cache_rw_def counts_def attended_held)
next
  case (timeout t aw)
  have pat: "patient_writer f' = patient_writer f" and sl: "sleepers f' \<Longrightarrow> sleepers f"
    using timeout patient_upd [of f t Idle] by (auto simp: sleepers_def split: if_splits)
  have "justified s' f'"
    by (rule justified_upd [OF a]) (use timeout pat in \<open>auto simp: timedlock_timeout_def split: if_splits\<close>)
  moreover have "taker s' f'" if "taker s f" "\<not> theft (s, f) (s', f')"
    by (rule taker_mono [OF that(1)])
      (use timeout that(2) in \<open>auto simp: timedlock_timeout_def theft_def\<close>)
  moreover have "lock_free s' = lock_free s" using timeout by (simp add: timedlock_timeout_def lock_free_def)
  ultimately show ?thesis using sl by (auto simp: attended_def)
next
  case (unlock_rw t w)
  moreover have "use_cache_lock s" using c unfolding counts_def by blast
  ultimately show ?thesis
    using give_up_step [of f t False s w s' Idle f' st] c by (simp add: unlock_cache_rw_def)
next
  case (yield_check t)
  then show ?thesis
    using holder_counted(2) [OF c, of t False] by (simp add: justified_writing attended_held lock_free_def)
next
  case (yield_give_up t w)
  then show ?thesis using give_up_step [of f t True s w s' Pause f' st] c by simp
next
  case (yield_again t b)
  then show ?thesis
    using rw_try [of "rw_pend s + 1" s b s' f t False] a by (simp add: yield_retake_def attended_held)
next
  case (spurious_r t)
  have pat: "patient_writer f' = patient_writer f" and sl: "sleepers f' \<Longrightarrow> sleepers f"
    using spurious_r patient_upd [of f t "WaitR True"] by (auto simp: sleepers_def split: if_splits)
  have "justified s' f'"
    by (rule justified_upd [OF a]) (use spurious_r pat in \<open>auto split: if_splits\<close>)
  moreover have "taker s' f'" if "taker s f"
    by (rule taker_mono [OF that]) (use spurious_r in auto)
  ultimately show ?thesis using sl spurious_r by (auto simp: attended_def)
next
  case (spurious_rw t tm)
  then have "f' t = WaitW tm True" by simp
  then have "taker s' f'" unfolding taker_def by blast
  moreover have "justified s' f'"
    by (rule justified_upd [OF a])
      (use spurious_rw patient_wait [of f t tm True] in \<open>auto split: if_splits\<close>)
  ultimately show ?thesis by (simp add: attended_def)
qed simp_all

lemma justified_reachable: "reachable False st (s, f) \<Longrightarrow> justified s f"
proof (induction "(s, f)" arbitrary: s f rule: reachable.induct)
  case start
  then show ?case by (simp add: justified_def init_cache_lock_def)
next
  case (next_step x s f)
  then show ?case using sleep_step counts_reachable by (cases x) blast
qed

lemma calm_reachable: "calm st x \<Longrightarrow> reachable False st x"
  by (induction rule: calm.induct) (auto intro: start next_step)

lemma attended_calm: "calm st (s, f) \<Longrightarrow> attended s f"
proof (induction "(s, f)" arbitrary: s f rule: calm.induct)
  case calm_start
  then show ?case by (simp add: attended_def sleepers_def)
next
  case (calm_held s f)
  then show ?case by (simp add: attended_held)
next
  case (calm_step x s f)
  obtain u g where x: "x = (u, g)" by (cases x)
  with calm_step have "reachable False st (u, g)" by (simp add: calm_reachable)
  with calm_step x show ?case
    using sleep_step [of st u g s f] counts_reachable justified_reachable by blast
qed

lemma held_by_someone:
  assumes c: "counts st s f" and "\<not> lock_free s"
  shows "\<exists>u. f u = HoldR \<or> (\<exists>b. f u = HoldW b)"
proof -
  have "num readsp f > 0 \<or> num writesp f > 0"
    using assms num_nonneg [of readsp f] num_nonneg [of writesp f]
    by (auto simp: counts_def lock_free_def less_le)
  then obtain u where "readsp (f u) \<or> writesp (f u)"
    using num_pos [of f readsp] num_pos [of f writesp] c unfolding counts_def by auto
  then show ?thesis by (cases "f u") auto
qed

text \<open>Concrete runs: the steps of the relation with their end state given, and the definitions to compute them.\<close>

lemma step_to: "lstep exiting st x y \<Longrightarrow> y = z \<Longrightarrow> lstep exiting st x z"
  by simp

lemma wakes_broadcast: "f' = (\<lambda>t. if f t = WaitR False then WaitR True else f t) \<Longrightarrow> wakes BroadcastR f f'"
  by (simp add: wake_all)

lemma wakes_signal: "f t = WaitW tm False \<Longrightarrow> f' = f(t := WaitW tm True) \<Longrightarrow> wakes SignalRW f f'"
  by (simp add: wake_one)

lemmas run_defs = piece_defs SUSP_THRESH_def init_cache_lock_def

text \<open>
  The wake-up that is lost: while thread 1 reads, the status thread 0 waits with a time limit
  and thread 2 waits to write. Thread 1 gives back its lock and awakens thread 0, whose time is over
  at that moment. Then the lock is free, thread 2 sleeps, and no other thread is left that would awaken it.
\<close>

lemma lost_wakeup:
  "reachable False 0 (init_cache_lock\<lparr>rw_pend := 1\<rparr>, (\<lambda>_. Idle)(2 := WaitW False False))"
proof -
  let ?i = "init_cache_lock" and ?f = "\<lambda>_ :: nat. Idle"
  let ?r = "?i\<lparr>cache_r_lock := 1\<rparr>" and ?g = "?f(1 := HoldR)"
  have 1: "lstep False 0 (?i, ?f) (?r, ?g)"
    by (rule step_to [OF lock_r [of _ 1 _ True]]) (simp_all add: run_defs)
  have 2: "lstep False 0 (?r, ?g) (?r\<lparr>rw_pend := 1\<rparr>, ?g(0 := WaitW True False))"
    by (rule step_to [OF timedlock [of _ _ _ False]]) (simp_all add: run_defs)
  have 3: "lstep False 0 (?r\<lparr>rw_pend := 1\<rparr>, ?g(0 := WaitW True False))
      (?r\<lparr>rw_pend := 2\<rparr>, ?g(0 := WaitW True False, 2 := WaitW False False))"
    by (rule step_to [OF lock_rw [of _ 2 _ False]]) (simp_all add: run_defs)
  have 4: "lstep False 0 (?r\<lparr>rw_pend := 2\<rparr>, ?g(0 := WaitW True False, 2 := WaitW False False))
      (?i\<lparr>rw_pend := 2\<rparr>, ?f(0 := WaitW True True, 2 := WaitW False False))"
    by (rule unlock_r [of _ 1 _ SignalRW])
      (auto simp: run_defs fun_eq_iff intro!: wakes_signal [of _ 0 True])
  have 5: "lstep False 0 (?i\<lparr>rw_pend := 2\<rparr>, ?f(0 := WaitW True True, 2 := WaitW False False))
      (?i\<lparr>rw_pend := 1\<rparr>, ?f(2 := WaitW False False))"
    by (rule step_to [OF timeout [of _ 0 True]])
      (auto simp: timedlock_timeout_def run_defs fun_eq_iff)
  show ?thesis
    using next_step [OF next_step [OF next_step [OF next_step [OF next_step [OF start 1] 2] 3] 4] 5] .
qed

section \<open>Properties\<close>

text \<open>
  C25. Mutual exclusion: whatever the threads do, as long as each gives back only what it holds, a
  thread that writes excludes all other readers and writers, also while the program exits.
\<close>

theorem cache_lock_exclusive:
  assumes "reachable exiting st (s, f)" and "f t = HoldW b"
  shows "f u = HoldR \<or> f u = HoldW b' \<longrightarrow> u = t"
proof -
  note c = counts_reachable [OF assms(1)]
  have w: "cache_w_lock s = 1" by (rule holder_counted(2) [OF c assms(2)])
  then have "cache_r_lock s = 0" "num writesp f \<le> 1" "live f" using c by (auto simp: counts_def)
  with holder_counted(1) [OF c, of u] num_one [of f writesp u t] assms(2) show ?thesis by auto
qed

theorem cache_lock_exclusive_witness:
  "reachable True 0 (init_cache_lock\<lparr>cache_w_lock := 1\<rparr>, (\<lambda>_. Idle)(3 := HoldW False)) \<and>
   ((\<lambda>_ :: nat. Idle)(3 := HoldW False)) 4 \<noteq> HoldR"
proof -
  let ?f = "(\<lambda>_ :: nat. Idle)(3 := HoldW False)"
  have "lock_cache_rw init_cache_lock = (True, init_cache_lock\<lparr>cache_w_lock := 1\<rparr>)"
    by (simp add: lock_cache_rw_def lock_rw_try_def init_cache_lock_def)
  then have r: "reachable True 0 (init_cache_lock\<lparr>cache_w_lock := 1\<rparr>, ?f)"
    using next_step [OF start lock_rw [of "\<lambda>_. Idle" 3]] by fastforce
  with cache_lock_exclusive [OF r, of 3 False 4 False] show ?thesis by auto
qed

text \<open>
  C26. No wake-up is lost but by a timed wait that expires after it was awakened: in normal operation,
  whenever a thread waits for the cache, some thread holds the lock, or an awakened writer or reader is about to run and
  will get it. So the waiting threads never all sleep beside a free lock. The states are all those
  reachable in which the status thread's wait has not expired after the thread was awakened since the lock was last
  held; every reachable state in which some thread holds the lock is one of them, so a wake-up that such a
  wait loses is made good as soon as any thread takes the lock. \<open>lost_wakeup\<close> shows
  that the exception is real.
\<close>

theorem cache_lock_no_lost_wakeup:
  assumes "calm st (s, f)" and "f t = WaitR a \<or> f t = WaitW tm a"
  shows "\<exists>u. f u = HoldR \<or> (\<exists>b. f u = HoldW b) \<or>
    (f u = WaitR True \<and> fst (lock_r_try s)) \<or> ((\<exists>tm. f u = WaitW tm True) \<and> fst (lock_rw_try s))"
proof -
  note r = calm_reachable [OF assms(1)]
  note c = counts_reachable [OF r] and se = justified_reachable [OF r] and at = attended_calm [OF assms(1)]
  show ?thesis
  proof (cases "lock_free s")
    case False
    with held_by_someone [OF c] show ?thesis by blast
  next
    case free: True
    then have get: "fst (lock_rw_try s)" by (simp add: lock_rw_try_def lock_free_def)
    have "taker s f \<or> f t = WaitR True"
      using assms(2) at free unfolding attended_def sleepers_def taker_def by (cases a) auto
    moreover have "\<exists>u tm. f u = WaitW tm True" if "\<not> fst (lock_r_try s)" "\<not> taker s f"
    proof -
      from that free have "r_susp s \<noteq> 0 \<or> rw_pend s > SUSP_THRESH (r_pend s)"
        by (auto simp: lock_r_try_def lock_free_def Let_def split: if_splits)
      then have "patient_writer f"
        using crowd_patient [OF c] se free by (auto simp: justified_def lock_free_def)
      then obtain u w where u: "f u = WaitW False w" unfolding patient_writer_def by blast
      then have w using that(2) at free by (cases w) (auto simp: attended_def sleepers_def)
      with u show ?thesis by auto
    qed
    moreover have "fst (lock_r_try s)" if "r_susp s = 0" "rw_pend s \<le> SUSP_THRESH (r_pend s)"
      using that free by (simp add: lock_r_try_def lock_free_def Let_def)
    ultimately show ?thesis using get unfolding taker_def by metis
  qed
qed

theorem cache_lock_no_lost_wakeup_witness:
  "calm 0 (init_cache_lock\<lparr>r_pend := 1\<rparr>, (\<lambda>_. Idle)(4 := WaitR True)) \<and>
   fst (lock_r_try (init_cache_lock\<lparr>r_pend := 1\<rparr>))"
proof -
  let ?i = "init_cache_lock" and ?f = "\<lambda>_ :: nat. Idle"
  let ?w = "(?i\<lparr>cache_w_lock := 1, r_pend := 1\<rparr>, ?f(3 := HoldW False, 4 := WaitR False))"
  let ?e = "(?i\<lparr>r_pend := 1\<rparr>, ?f(4 := WaitR True))"
  have 1: "lstep False 0 (?i, ?f) (?i\<lparr>cache_w_lock := 1\<rparr>, ?f(3 := HoldW False))"
    by (rule step_to [OF lock_rw [of _ 3 _ True]]) (simp_all add: run_defs)
  have 2: "lstep False 0 (?i\<lparr>cache_w_lock := 1\<rparr>, ?f(3 := HoldW False)) ?w"
    by (rule step_to [OF lock_r [of _ 4 _ False]]) (simp_all add: run_defs)
  have 3: "lstep False 0 ?w ?e"
    by (rule unlock_rw [of _ 3 _ BroadcastR]) (auto simp: run_defs fun_eq_iff intro!: wakes_broadcast)
  have "calm 0 ?w"
    using next_step [OF next_step [OF start 1] 2] by (intro calm_held) (simp_all add: lock_free_def)
  then have c: "calm 0 ?e" by (rule calm_step [OF _ 3]) (simp add: theft_def)
  with cache_lock_no_lost_wakeup [OF c, of 4 True] show ?thesis by (auto split: if_splits)
qed

end
