(* ===== verification/RRTypes.thy ===== *)
theory RRTypes
  imports NameText
begin

text \<open>
  Resource record types (\<^verbatim>\<open>src/rr_types.h\<close>, \<^verbatim>\<open>src/rr_types.c\<close>), unaligned integers in
  messages (the macros of \<^verbatim>\<open>src/dns.h\<close>) and the names of types, classes and errors
  (\<^verbatim>\<open>src/dns.c\<close>).

  The cache keeps record sets in an array indexed by \<open>rrlkuptab\<close>, not by type; the properties
  of this table below are what the cache relies on.
\<close>

section \<open>Integers in messages\<close>

definition GETINT16 :: "bytes \<Rightarrow> nat \<Rightarrow> (16 word \<times> nat) option" where
  "GETINT16 m cp = do {
     a \<leftarrow> rd m cp;
     b \<leftarrow> rd m (cp + 1);
     Some (push_bit 8 (ucast a) OR ucast b, cp + 2) }"

definition GETINT32 :: "bytes \<Rightarrow> nat \<Rightarrow> (32 word \<times> nat) option" where
  "GETINT32 m cp = do {
     a \<leftarrow> rd m cp;
     b \<leftarrow> rd m (cp + 1);
     c \<leftarrow> rd m (cp + 2);
     d \<leftarrow> rd m (cp + 3);
     Some (push_bit 24 (ucast a) OR push_bit 16 (ucast b) OR push_bit 8 (ucast c) OR ucast d, cp + 4) }"

definition PUTINT16 :: "16 word \<Rightarrow> bytes \<Rightarrow> nat \<Rightarrow> (bytes \<times> nat) option" where
  "PUTINT16 v m cp = do {
     m \<leftarrow> wr m cp (ucast (drop_bit 8 v));
     m \<leftarrow> wr m (cp + 1) (ucast v);
     Some (m, cp + 2) }"

definition PUTINT32 :: "32 word \<Rightarrow> bytes \<Rightarrow> nat \<Rightarrow> (bytes \<times> nat) option" where
  "PUTINT32 v m cp = do {
     m \<leftarrow> wr m cp (ucast (drop_bit 24 v));
     m \<leftarrow> wr m (cp + 1) (ucast (drop_bit 16 v));
     m \<leftarrow> wr m (cp + 2) (ucast (drop_bit 8 v));
     m \<leftarrow> wr m (cp + 3) (ucast v);
     Some (m, cp + 4) }"

section \<open>Types\<close>

definition T_A :: nat where "T_A = 1"
definition T_NS :: nat where "T_NS = 2"
definition T_CNAME :: nat where "T_CNAME = 5"
definition T_SOA :: nat where "T_SOA = 6"
definition T_PTR :: nat where "T_PTR = 12"
definition T_AAAA :: nat where "T_AAAA = 28"
definition T_MIN :: nat where "T_MIN = 1"
definition T_MAX :: nat where "T_MAX = 51"
definition T_NUM :: nat where "T_NUM = 51"

definition NRRMU :: nat where "NRRMU = 8"
definition NRREXT :: nat where "NRREXT = 39"
definition NRRTOT :: nat where "NRRTOT = 47"

definition rrlkuptab :: "nat list" where
  "rrlkuptab = [0, 1, 8, 9, 2, 3, 10, 11, 12, 13, 14, 4, 15, 16, 5, 6, 17, 18, 19, 20, 21, 22, 23,
     24, 25, 26, 27, 7, 28, 29, 30, 31, 32, 33, 34, 35, 36, 47, 48, 49, 50, 37, 38, 39, 40, 41, 42,
     43, 44, 45, 46]"

definition rrmuiterlist :: "nat list" where
  "rrmuiterlist = [1, 2, 5, 6, 12, 15, 16, 28]"

definition rrcachiterlist :: "nat list" where
  "rrcachiterlist = [1, 2, 3, 4, 5, 6, 7, 8, 9, 10, 11, 12, 13, 14, 15, 16, 17, 18, 19, 20, 21, 22,
     23, 24, 25, 26, 27, 28, 29, 30, 31, 32, 33, 34, 35, 36, 37, 42, 43, 44, 45, 46, 47, 48, 49, 50, 51]"

definition PDNSD_NOT_CACHED_TYPE :: "nat \<Rightarrow> bool" where
  "PDNSD_NOT_CACHED_TYPE tp \<longleftrightarrow> tp < T_MIN \<or> tp > T_MAX \<or> rrlkuptab ! (tp - T_MIN) \<ge> NRRTOT"

definition rrnames :: "string list" where
  "rrnames = [''A'', ''NS'', ''MD'', ''MF'', ''CNAME'', ''SOA'', ''MB'', ''MG'', ''MR'', ''NULL'',
     ''WKS'', ''PTR'', ''HINFO'', ''MINFO'', ''MX'', ''TXT'', ''RP'', ''AFSDB'', ''X25'', ''ISDN'',
     ''RT'', ''NSAP'', ''NSAP_PTR'', ''SIG'', ''KEY'', ''PX'', ''GPOS'', ''AAAA'', ''LOC'', ''NXT'',
     ''EID'', ''NIMLOC'', ''SRV'', ''ATMA'', ''NAPTR'', ''KX'', ''CERT'', ''A6'', ''DNAME'',
     ''SINK'', ''OPT'', ''APL'', ''DS'', ''SSHFP'', ''IPSECKEY'', ''RRSIG'', ''NSEC'', ''DNSKEY'',
     ''DHCID'', ''NSEC3'', ''NSEC3PARAM'']"

fun rr_tp_byname_loop :: "string \<Rightarrow> string list \<Rightarrow> nat \<Rightarrow> nat option" where
  "rr_tp_byname_loop name [] i = None"
| "rr_tp_byname_loop name (n # ns) i = (if name = n then Some (i + T_MIN) else rr_tp_byname_loop name ns (i + 1))"

text \<open>\<open>None\<close> is the return value -1.\<close>

definition rr_tp_byname :: "string \<Rightarrow> nat option" where
  "rr_tp_byname name = rr_tp_byname_loop name rrnames 0"

definition getrrtpname :: "int \<Rightarrow> string" where
  "getrrtpname tp = (if tp \<ge> int T_MIN \<and> tp \<le> int T_MAX then rrnames ! nat (tp - int T_MIN) else ''[unknown]'')"

text \<open>The class of a record set index and the classes it excludes.\<close>

record rr_infos =
  rr_class :: "16 word"
  excludes :: "16 word"

definition RRCL_ALIAS :: "16 word" where "RRCL_ALIAS = 1"
definition RRCL_RECORD :: "16 word" where "RRCL_RECORD = 2"
definition RRCL_IDEM :: "16 word" where "RRCL_IDEM = 4"
definition RRCL_PTR :: "16 word" where "RRCL_PTR = 8"

definition rr_alias :: rr_infos where "rr_alias = \<lparr>rr_class = RRCL_ALIAS, excludes = RRCL_RECORD OR RRCL_PTR\<rparr>"
definition rr_record :: rr_infos where "rr_record = \<lparr>rr_class = RRCL_RECORD, excludes = RRCL_ALIAS OR RRCL_PTR\<rparr>"
definition rr_idem :: rr_infos where "rr_idem = \<lparr>rr_class = RRCL_IDEM, excludes = 0\<rparr>"
definition rr_ptr :: rr_infos where "rr_ptr = \<lparr>rr_class = RRCL_PTR, excludes = RRCL_ALIAS OR RRCL_RECORD\<rparr>"

definition rr_info :: "rr_infos list" where
  "rr_info = [rr_record, rr_idem, rr_alias, rr_idem, rr_ptr, rr_idem, rr_idem, rr_record, rr_idem,
     rr_idem, rr_idem, rr_idem, rr_idem, rr_idem, rr_record, rr_record, rr_idem, rr_record, rr_record,
     rr_record, rr_record, rr_record, rr_record, rr_ptr, rr_idem, rr_idem, rr_idem, rr_record,
     rr_record, rr_idem, rr_record, rr_record, rr_record, rr_record, rr_record, rr_record, rr_record,
     rr_idem, rr_idem, rr_idem, rr_idem, rr_idem, rr_idem, rr_idem, rr_idem, rr_idem, rr_idem]"

text \<open>\<^verbatim>\<open>(rri->class & rr_info[i].excludes) || (rri->excludes & rr_info[i].class)\<close>\<close>

definition rr_conflict :: "nat \<Rightarrow> nat \<Rightarrow> bool" where
  "rr_conflict i j \<longleftrightarrow> rr_class (rr_info ! i) AND excludes (rr_info ! j) \<noteq> 0 \<or>
     excludes (rr_info ! i) AND rr_class (rr_info ! j) \<noteq> 0"

section \<open>Classes and errors\<close>

definition get_cname :: "int \<Rightarrow> string" where
  "get_cname n = (if n \<ge> 1 \<and> n \<le> 4 then [''IN'', ''CS'', ''CH'', ''HS''] ! nat (n - 1)
     else if n = 255 then ''*'' else ''[unknown]'')"

definition get_tname :: "int \<Rightarrow> string" where
  "get_tname n = (if n \<ge> int T_MIN \<and> n \<le> int T_MAX then rrnames ! nat (n - int T_MIN)
     else if n \<ge> 251 \<and> n \<le> 255 then [''IXFR'', ''AXFR'', ''MAILB'', ''MAILA'', ''*''] ! nat (n - 251)
     else ''[unknown]'')"

definition e_names :: "string list" where
  "e_names = [''no error'', ''query format error'', ''server failed'', ''non-existent domain'',
     ''not supported'', ''query refused'', ''name exists when it should not'',
     ''RR set exists when it should not'', ''RR set that should exist does not'',
     ''server not authoritative for zone'', ''name not contained in zone'',
     ''11'', ''12'', ''13'', ''14'', ''15'', ''bad OPT version'']"

definition get_ename :: "int \<Rightarrow> string" where
  "get_ename n = (if n \<ge> 0 \<and> n < 17 then e_names ! nat n else ''[unknown]'')"

section \<open>Location records\<close>

text \<open>Decimal digits, and at least \<open>k\<close> of them (\<^verbatim>\<open>%.2u\<close>); signed numbers likewise.\<close>

fun dec :: "nat \<Rightarrow> bytes" where
  "dec n = (if n < 10 then [48 + of_nat n] else dec (n div 10) @ [48 + of_nat (n mod 10)])"

declare dec.simps [simp del]

definition pad :: "nat \<Rightarrow> bytes \<Rightarrow> bytes" where
  "pad k s = replicate (k - length s) 48 @ s"

definition sdec :: "nat \<Rightarrow> int \<Rightarrow> bytes" where
  "sdec k n = (if n < 0 then 45 # pad k (dec (nat (- n))) else pad k (dec (nat n)))"

definition poweroften :: "nat list" where
  "poweroften = [1, 10, 100, 1000, 10000, 100000, 1000000, 10000000]"

definition NPRECSIZE :: nat where "NPRECSIZE = 9"

text \<open>\<open>sprintf\<close> of \<open>out\<close> and a zero byte into a buffer that must be large enough\<close>

definition sprintf :: "bytes \<Rightarrow> bytes \<Rightarrow> bytes option" where
  "sprintf buf out = (if length out < length buf then Some (put buf 0 (out @ [0])) else None)"

text \<open>The result is the null pointer (\<open>None\<close> inside) or the text; the buffer has
  \<open>NPRECSIZE\<close> bytes.\<close>

definition precsize_ntoa :: "byte \<Rightarrow> bytes option option" where
  "precsize_ntoa prec = do {
     let mantissa = unat (drop_bit 4 prec);
     let exponent = unat (prec AND 0x0f);
     if mantissa \<ge> 10 \<or> exponent \<ge> 10 then Some None
     else if exponent \<ge> 2 then do {
       p \<leftarrow> rd poweroften (exponent - 2);
       let out = dec (mantissa * p);
       _ \<leftarrow> sprintf (replicate NPRECSIZE 0) out;
       Some (Some out) }
     else do {
       p \<leftarrow> rd poweroften exponent;
       let out = [48, 46] @ pad 2 (dec (mantissa * p));
       _ \<leftarrow> sprintf (replicate NPRECSIZE 0) out;
       Some (Some out) } }"

text \<open>Negation of an \<^verbatim>\<open>int32_t\<close>, undefined for the smallest one.\<close>

definition neg32 :: "int \<Rightarrow> int option" where
  "neg32 x = (if x = - (2 ^ 31) then None else Some (- x))"

text \<open>Degrees, minutes, seconds and thousandths of a coordinate that is not negative.\<close>

definition split_coord :: "int \<Rightarrow> int \<times> int \<times> int \<times> int" where
  "split_coord v = (v div 1000 div 60 div 60, v div 1000 div 60 mod 60, v div 1000 mod 60, v mod 1000)"

definition coord_text :: "32 word \<Rightarrow> byte \<Rightarrow> byte \<Rightarrow> bytes option" where
  "coord_text templ pos neg = do {
     let val = sint (templ - 2 ^ 31);
     (dir, val) \<leftarrow> (if val < 0 then do { v \<leftarrow> neg32 val; Some (neg, v) } else Some (pos, val));
     let (deg, mn, sec, frac) = split_coord val;
     Some (sdec 1 deg @ [32] @ sdec 2 mn @ [32] @ sdec 2 sec @ [46] @ sdec 3 frac @ [32, dir]) }"

text \<open>
  The altitude: \<^verbatim>\<open>altval\<close> is an \<^verbatim>\<open>int32_t\<close>, and the division of C truncates.
\<close>

definition altitude_text :: "32 word \<Rightarrow> bytes" where
  "altitude_text templ = (let ref = 100000 * 100;
     (sign, alt) = (if templ < ref then ([45], sint (ref - templ)) else ([], sint (templ - ref)));
     m = sgn alt * (\<bar>alt\<bar> div 100); f = sgn alt * (\<bar>alt\<bar> mod 100)
     in sign @ sdec 1 m @ [46] @ sdec 2 f @ [109])"

definition loc2str :: "bytes \<Rightarrow> bytes \<Rightarrow> nat \<Rightarrow> (bytes option) option" where
  "loc2str binary ascii asclen = do {
     versionval \<leftarrow> rd binary 0;
     if versionval \<noteq> 0 then Some None
     else do {
       sizeval \<leftarrow> rd binary 1;
       hpval \<leftarrow> rd binary 2;
       vpval \<leftarrow> rd binary 3;
       (lat, cp) \<leftarrow> GETINT32 binary 4;
       (lng, cp) \<leftarrow> GETINT32 binary cp;
       (alt, cp) \<leftarrow> GETINT32 binary cp;
       lattxt \<leftarrow> coord_text lat 78 83;
       lngtxt \<leftarrow> coord_text lng 69 87;
       sizestr \<leftarrow> precsize_ntoa sizeval;
       hpstr \<leftarrow> precsize_ntoa hpval;
       vpstr \<leftarrow> precsize_ntoa vpval;
       (case (sizestr, hpstr, vpstr) of
         (Some s, Some h, Some v) \<Rightarrow> do {
           let out = lattxt @ [32] @ lngtxt @ [32] @ altitude_text alt @
             [32] @ s @ [109, 32] @ h @ [109, 32] @ v @ [109];
           ascii \<leftarrow> snprintf ascii 0 asclen out;
           Some (if length out \<ge> asclen then None else Some ascii) }
       | _ \<Rightarrow> Some None) } }"

section \<open>Lemmas\<close>

lemma GET_PUT_16: "cp + 2 \<le> length m \<Longrightarrow> ok (PUTINT16 v m cp) (\<lambda>(m', cp'). GETINT16 m' cp = Some (v, cp'))"
proof -
  assume "cp + 2 \<le> length m"
  moreover have "push_bit 8 (ucast (ucast (drop_bit 8 v) :: byte)) OR ucast (ucast v :: byte) = v"
    by (rule bit_word_eqI) (auto simp: bit_simps)
  ultimately show ?thesis by (simp add: PUTINT16_def GETINT16_def ok_simps)
qed

lemma GET_PUT_32: "cp + 4 \<le> length m \<Longrightarrow> ok (PUTINT32 v m cp) (\<lambda>(m', cp'). GETINT32 m' cp = Some (v, cp'))"
proof -
  assume "cp + 4 \<le> length m"
  moreover have "push_bit 24 (ucast (ucast (drop_bit 24 v) :: byte)) OR push_bit 16 (ucast (ucast (drop_bit 16 v) :: byte)) OR
      push_bit 8 (ucast (ucast (drop_bit 8 v) :: byte)) OR ucast (ucast v :: byte) = v" (is "?l = v")
  proof (rule bit_word_eqI)
    fix n assume "n < LENGTH(32)"
    then consider "n < 8" | "8 \<le> n" "n < 16" | "16 \<le> n" "n < 24" | "24 \<le> n" "n < 32" by fastforce
    then show "bit ?l n \<longleftrightarrow> bit v n" by cases (auto simp: bit_simps)
  qed
  ultimately show ?thesis by (simp add: PUTINT32_def GETINT32_def ok_simps)
qed

lemma length_rrlkuptab: "length rrlkuptab = T_NUM"
  by (simp add: rrlkuptab_def T_NUM_def)

lemma distinct_rrlkuptab: "distinct rrlkuptab"
  by (simp add: rrlkuptab_def)

lemma length_rr_info: "length rr_info = NRRTOT"
  by (simp add: rr_info_def NRRTOT_def)

lemma rr_conflict_sym: "rr_conflict i j \<longleftrightarrow> rr_conflict j i"
  by (auto simp: rr_conflict_def and.commute)

lemma rr_tp_byname_loop_nth:
  "i < length ns \<Longrightarrow> distinct ns \<Longrightarrow> rr_tp_byname_loop (ns ! i) ns k = Some (k + i + T_MIN)"
proof (induction ns arbitrary: i k)
  case (Cons n ns)
  then show ?case by (cases i) (auto simp: nth_eq_iff_index_eq in_set_conv_nth)
qed simp

lemma rr_tp_byname_loop_Some:
  "rr_tp_byname_loop name ns k = Some tp \<Longrightarrow> \<exists>i < length ns. ns ! i = name \<and> tp = k + i + T_MIN"
proof (induction ns arbitrary: k)
  case (Cons n ns)
  then show ?case by (fastforce split: if_splits)
qed simp

lemma distinct_rrnames: "distinct rrnames" and length_rrnames: "length rrnames = T_NUM"
  by (simp_all add: rrnames_def T_NUM_def)

lemma length_dec: "0 < k \<Longrightarrow> n < 10 ^ k \<Longrightarrow> length (dec n) \<le> k"
proof (induction n arbitrary: k rule: dec.induct)
  case (1 n)
  show ?case
  proof (cases "n < 10")
    case False
    with 1 obtain j where k: "k = Suc j" "0 < j" by (cases k; cases "k - 1") auto
    with 1 False have "n div 10 < 10 ^ j" by (simp add: less_mult_imp_div_less mult.commute)
    with 1 False k show ?thesis by (simp add: dec.simps [of n])
  qed (use 1 in \<open>simp add: dec.simps [of n]\<close>)
qed

lemma poweroften_le: "i < 8 \<Longrightarrow> poweroften ! i \<le> 10000000" and length_poweroften: "length poweroften = 8"
proof -
  have "\<forall>p \<in> set poweroften. p \<le> 10000000" by (simp add: poweroften_def)
  moreover show "length poweroften = 8" by (simp add: poweroften_def)
  ultimately show "i < 8 \<Longrightarrow> poweroften ! i \<le> 10000000" by simp
qed

lemma precsize_ntoa_ok: "ok (precsize_ntoa prec) (\<lambda>_. True)"
proof -
  define m e where me: "m = unat (drop_bit 4 prec)" "e = unat (prec AND 0x0f)"
  have 1: "length (dec (m * poweroften ! (e - 2))) < 9" if "m < 10" "e < 10"
  proof -
    have "m * poweroften ! (e - 2) \<le> 9 * 10000000"
      using that poweroften_le [of "e - 2"] by (intro mult_le_mono) auto
    then show ?thesis using length_dec [of 8 "m * poweroften ! (e - 2)"] by simp
  qed
  have 2: "length (pad 2 (dec (m * poweroften ! e))) < 7" if "m < 10" "\<not> 2 \<le> e"
  proof -
    have "e = 0 \<or> e = 1" using that by arith
    then have "m * poweroften ! e \<le> 9 * 10"
      using that by (intro mult_le_mono) (auto simp: poweroften_def)
    then show ?thesis using length_dec [of 2 "m * poweroften ! e"] by (simp add: pad_def)
  qed
  show ?thesis
  proof (cases "10 \<le> m \<or> 10 \<le> e")
    case False
    moreover from False have "e - 2 < 8" by arith
    ultimately show ?thesis using 1 2
      by (cases "2 \<le> e") (simp_all add: precsize_ntoa_def Let_def ok_simps sprintf_def NPRECSIZE_def
          me [symmetric] length_poweroften)
  qed (simp add: precsize_ntoa_def Let_def me [symmetric])
qed

lemma coord_text_None: "coord_text w p n = None \<longleftrightarrow> w = 0"
proof -
  have "sint (w - 2 ^ 31) = - (2 ^ 31) \<longleftrightarrow> w = 0"
  proof
    assume "sint (w - 2 ^ 31) = - (2 ^ 31)"
    then have "word_of_int (sint (w - 2 ^ 31)) = (word_of_int (- (2 ^ 31)) :: 32 word)" by simp
    then have "w - 2 ^ 31 = word_of_int (- (2 ^ 31))" by (simp only: of_int_sint scast_id)
    then show "w = 0" by (simp add: algebra_simps)
  next
    assume "w = 0"
    then show "sint (w - 2 ^ 31) = - (2 ^ 31)" by simp
  qed
  then show ?thesis
    by (cases "sint (w - 2 ^ 31) < 0") (auto simp: coord_text_def Let_def neg32_def split_coord_def)
qed

lemma GETINT32_word:
  assumes "k + 4 \<le> length b"
  obtains w where "GETINT32 b k = Some (w, k + 4)" "w = 0 \<longleftrightarrow> take 4 (drop k b) = [0, 0, 0, 0]"
proof -
  let ?w = "push_bit 24 (ucast (b ! k)) OR push_bit 16 (ucast (b ! (k + 1))) OR
    push_bit 8 (ucast (b ! (k + 2))) OR ucast (b ! (k + 3)) :: 32 word"
  have z: "x = 0" if "push_bit j (ucast x) = (0 :: 32 word)" "j \<le> 24" for j and x :: byte
  proof (rule bit_word_eqI)
    fix n assume "n < LENGTH(8)"
    have "\<not> bit (push_bit j (ucast x) :: 32 word) (j + n)" by (simp add: that(1))
    with that(2) \<open>n < LENGTH(8)\<close> show "bit x n \<longleftrightarrow> bit 0 n" by (simp add: bit_simps del: push_bit_eq_0_iff)
  qed
  have "?w = 0 \<longleftrightarrow> b ! k = 0 \<and> b ! (k + 1) = 0 \<and> b ! (k + 2) = 0 \<and> b ! (k + 3) = 0"
    using z [of 24] z [of 16] z [of 8] z [of 0] by (auto simp: or_eq_0_iff)
  moreover have "take 4 (drop k b) = [b ! k, b ! (k + 1), b ! (k + 2), b ! (k + 3)]"
    using assms by (intro nth_equalityI) (auto simp: less_Suc_eq numeral_eq_Suc)
  ultimately show thesis
    using assms by (intro that [of ?w]) (auto simp: GETINT32_def rd_def)
qed

section \<open>Properties\<close>

text \<open>
  C33. An integer written with \<open>PUTINT16\<close> or \<open>PUTINT32\<close> into the middle of a message is read
  back by \<open>GETINT16\<close> or \<open>GETINT32\<close>, the cursors agree, and all other bytes are kept.
\<close>

theorem message_integers:
  assumes "cp + 4 \<le> length m"
  shows "ok (PUTINT16 s m cp) (\<lambda>(m', cp'). GETINT16 m' cp = Some (s, cp') \<and> cp' = cp + 2 \<and>
      length m' = length m \<and> take cp m' = take cp m \<and> drop cp' m' = drop cp' m) \<and>
    ok (PUTINT32 l m cp) (\<lambda>(m', cp'). GETINT32 m' cp = Some (l, cp') \<and> cp' = cp + 4 \<and>
      length m' = length m \<and> take cp m' = take cp m \<and> drop cp' m' = drop cp' m)"
  using assms GET_PUT_16 [of cp m s] GET_PUT_32 [of cp m l]
  by (simp add: PUTINT16_def PUTINT32_def ok_simps)

theorem message_integers_witness:
  "ok (PUTINT16 0x1234 [0, 0, 0, 0, 7] 0) (\<lambda>(m', cp'). GETINT16 m' 0 = Some (0x1234, cp')) \<and>
   ok (PUTINT32 0x12345678 [0, 0, 0, 0, 7] 0) (\<lambda>(m', cp'). GETINT32 m' 0 = Some (0x12345678, cp'))"
  using message_integers [where cp = 0 and m = "[0, 0, 0, 0, 7]" and s = "0x1234" and l = "0x12345678"]
  by (auto elim: ok_mono)

text \<open>
  C32. \<open>rr_tp_byname\<close> and \<open>getrrtpname\<close> are inverse to each other: a name is recognised as the
  type \<open>tp\<close> exactly when \<open>tp\<close> is in the range of known types and is printed as this name.
\<close>

theorem rr_tp_byname_iff:
  "rr_tp_byname name = Some tp \<longleftrightarrow> T_MIN \<le> tp \<and> tp \<le> T_MAX \<and> getrrtpname (int tp) = name"
proof
  assume "rr_tp_byname name = Some tp"
  then obtain i where "i < T_NUM" "rrnames ! i = name" "tp = i + T_MIN"
    using rr_tp_byname_loop_Some [of name rrnames 0 tp] by (auto simp: rr_tp_byname_def length_rrnames)
  then show "T_MIN \<le> tp \<and> tp \<le> T_MAX \<and> getrrtpname (int tp) = name"
    by (simp add: getrrtpname_def T_NUM_def T_MIN_def T_MAX_def)
next
  assume tp: "T_MIN \<le> tp \<and> tp \<le> T_MAX \<and> getrrtpname (int tp) = name"
  then have "rrnames ! (tp - T_MIN) = name" "tp - T_MIN < length rrnames"
    by (auto simp: getrrtpname_def T_MIN_def T_MAX_def length_rrnames T_NUM_def nat_diff_distrib)
  then show "rr_tp_byname name = Some tp"
    using tp rr_tp_byname_loop_nth [OF _ distinct_rrnames, of "tp - T_MIN" 0] by (simp add: rr_tp_byname_def)
qed

text \<open>
  C31. The index tables agree with each other: \<open>rrlkuptab\<close> maps the cacheable types one to one
  onto the indices below \<open>NRRTOT\<close>; \<open>rrcachiterlist\<close> enumerates exactly the cacheable types and
  \<open>rrmuiterlist\<close> exactly those with an index below \<open>NRRMU\<close>, both in ascending order; and the
  relation of conflicting record classes is symmetric, as \<^verbatim>\<open>rr_types.h\<close> demands.
\<close>

theorem rr_index_tables:
  "bij_betw (\<lambda>tp. rrlkuptab ! (tp - T_MIN)) {tp. \<not> PDNSD_NOT_CACHED_TYPE tp} {..<NRRTOT} \<and>
   set rrcachiterlist = {tp. \<not> PDNSD_NOT_CACHED_TYPE tp} \<and> sorted_wrt (<) rrcachiterlist \<and>
   set rrmuiterlist = {tp. \<not> PDNSD_NOT_CACHED_TYPE tp \<and> rrlkuptab ! (tp - T_MIN) < NRRMU} \<and>
   sorted_wrt (<) rrmuiterlist \<and> (\<forall>i j. rr_conflict i j = rr_conflict j i)"
proof -
  let ?f = "\<lambda>tp. rrlkuptab ! (tp - T_MIN)"
  have cached: "{tp. \<not> PDNSD_NOT_CACHED_TYPE tp} = set (filter (\<lambda>tp. ?f tp < NRRTOT) [T_MIN..<T_MAX + 1])"
    by (auto simp: PDNSD_NOT_CACHED_TYPE_def not_le not_less)
  have list: "filter (\<lambda>tp. ?f tp < NRRTOT) [T_MIN..<T_MAX + 1] = rrcachiterlist"
    by (simp add: T_MIN_def T_MAX_def upt_rec rrlkuptab_def NRRTOT_def rrcachiterlist_def)
  have mu: "filter (\<lambda>tp. ?f tp < NRRMU) rrcachiterlist = rrmuiterlist"
    by (simp add: T_MIN_def rrlkuptab_def NRRMU_def rrcachiterlist_def rrmuiterlist_def)
  have "map ?f rrcachiterlist = filter (\<lambda>i. i < NRRTOT) rrlkuptab"
    by (simp add: T_MIN_def rrlkuptab_def NRRTOT_def rrcachiterlist_def)
  moreover have "set (filter (\<lambda>i. i < NRRTOT) rrlkuptab) = {..<NRRTOT}"
    by (simp add: rrlkuptab_def NRRTOT_def lessThan_nat_numeral lessThan_Suc insert_commute)
  ultimately have im: "?f ` set rrcachiterlist = {..<NRRTOT}" by (metis set_map)
  moreover have "inj_on ?f (set rrcachiterlist)"
  proof (rule inj_onI)
    fix x y assume "x \<in> set rrcachiterlist" "y \<in> set rrcachiterlist" and e: "?f x = ?f y"
    then have "T_MIN \<le> x" "x \<le> T_MAX" "T_MIN \<le> y" "y \<le> T_MAX" unfolding list [symmetric] by (auto simp del: upt_Suc)
    with e show "x = y"
      using nth_eq_iff_index_eq [OF distinct_rrlkuptab, of "x - T_MIN" "y - T_MIN"]
      by (simp add: length_rrlkuptab T_NUM_def T_MIN_def T_MAX_def) arith
  qed
  ultimately have "bij_betw ?f (set rrcachiterlist) {..<NRRTOT}" by (simp add: bij_betw_def)
  moreover have "sorted_wrt (<) rrcachiterlist" "sorted_wrt (<) rrmuiterlist"
    by (simp_all add: rrcachiterlist_def rrmuiterlist_def)
  moreover have c: "set rrcachiterlist = {tp. \<not> PDNSD_NOT_CACHED_TYPE tp}" by (simp only: cached list)
  moreover have "set rrmuiterlist = {tp. \<not> PDNSD_NOT_CACHED_TYPE tp \<and> ?f tp < NRRMU}"
    by (simp only: mu [symmetric] set_filter c mem_Collect_eq)
  ultimately show ?thesis using rr_conflict_sym by (simp only: simp_thms)
qed

text \<open>
  C34. On a LOC record of full length \<open>loc2str\<close> stays inside its record and its buffers, and
  every arithmetic operation is defined, exactly unless the version is 0 and the latitude or the
  longitude is zero on the wire. In this case the negation of the smallest \<^verbatim>\<open>int32_t\<close> overflows.
\<close>

theorem loc2str_faults:
  assumes "length b = 16" "asclen \<le> length ascii"
  shows "loc2str b ascii asclen = None \<longleftrightarrow>
    b ! 0 = 0 \<and> (take 4 (drop 4 b) = [0, 0, 0, 0] \<or> take 4 (drop 8 b) = [0, 0, 0, 0])"
proof -
  obtain lat where lat: "GETINT32 b 4 = Some (lat, 8)" "lat = 0 \<longleftrightarrow> take 4 (drop 4 b) = [0, 0, 0, 0]"
    using GETINT32_word [of 4 b] assms by auto
  obtain lng where lng: "GETINT32 b 8 = Some (lng, 12)" "lng = 0 \<longleftrightarrow> take 4 (drop 8 b) = [0, 0, 0, 0]"
    using GETINT32_word [of 8 b] assms by auto
  obtain alt where alt: "GETINT32 b 12 = Some (alt, 16)"
    using GETINT32_word [of 12 b] assms by auto
  have p: "\<exists>s. precsize_ntoa x = Some s" for x using precsize_ntoa_ok [of x] by (auto simp: ok_def)
  obtain s h v where shv: "precsize_ntoa (b ! Suc 0) = Some s" "precsize_ntoa (b ! 2) = Some h" "precsize_ntoa (b ! 3) = Some v"
    using p by meson
  have pr: "snprintf ascii 0 asclen out = None \<longleftrightarrow> False" for out
    using assms by (cases "asclen") (auto simp: snprintf_def Let_def)
  have rd: "rd b 0 = Some (b ! 0)" "rd b 1 = Some (b ! Suc 0)" "rd b 2 = Some (b ! 2)" "rd b 3 = Some (b ! 3)"
    using assms by (simp_all add: rd_def)
  show ?thesis
  proof (cases "b ! 0 = 0")
    case True
    then show ?thesis
      using lat(2) lng(2) coord_text_None [of lat 78 83] coord_text_None [of lng 69 87]
      by (auto simp: loc2str_def rd lat(1) lng(1) alt shv Let_def pr bind_eq_None_conv split: option.splits simp del: One_nat_def)
  qed (simp add: loc2str_def rd)
qed

theorem loc2str_faults_witness: "loc2str (replicate 16 0) (replicate 80 0) 80 = None"
  using loc2str_faults [of "replicate 16 0" 80 "replicate 80 0"] by (simp add: numeral_eq_Suc)

end
