(* ===== verification/RRList.thy ===== *)
theory RRList
  imports Prelude "HOL-Library.Multiset"
begin

text \<open>
  The list \<open>rrset_l\<close> of \<^verbatim>\<open>src/cache.c\<close>, which orders the record sets in the cache by age: its nodes,
  the search for the place of a new node, removal, and the merge sort used after the disk cache
  has been read.

  The doubly linked list is modelled as the list of its nodes from \<open>rrset_l\<close> to \<open>rrset_l_tail\<close>; a
  pointer to a node is its address \<open>lnode\<close>.
\<close>

section \<open>Nodes\<close>

text \<open>\<open>lrrset\<close> tells whether the pointer \<^verbatim>\<open>rrset\<close> is set; it is not in the node of a negatively cached
  domain, which has \<open>lidx = -1\<close>.\<close>

record rr_lent =
  lnode :: nat
  lrrset :: bool
  lcent :: nat
  lidx :: int

type_synonym rrl = "rr_lent list"

text \<open>Unlinking the node at address \<open>n\<close>; a fault when it is not in the list.\<close>

fun remove_rrl :: "nat \<Rightarrow> rrl \<Rightarrow> rrl option" where
  "remove_rrl n [] = None"
| "remove_rrl n (e # es) = (if lnode e = n then Some es else map_option ((#) e) (remove_rrl n es))"

text \<open>
  The search of \<open>insert_rrl\<close> from the tail, on the reversed list: the new node goes behind the
  first node met whose time stamp is not greater. \<open>tsof\<close> is \<open>get_rrlent_ts\<close>, which may fault.
\<close>

fun insert_back :: "('e \<Rightarrow> int option) \<Rightarrow> int \<Rightarrow> 'e \<Rightarrow> 'e list \<Rightarrow> 'e list option" where
  "insert_back tsof ts ne [] = Some [ne]"
| "insert_back tsof ts ne (le # les) = do {
     t \<leftarrow> tsof le;
     if ts \<ge> t then Some (ne # le # les)
     else map_option ((#) le) (insert_back tsof ts ne les) }"

definition insert_sorted :: "('e \<Rightarrow> int option) \<Rightarrow> 'e \<Rightarrow> 'e list \<Rightarrow> 'e list option" where
  "insert_sorted tsof ne l = do { ts \<leftarrow> tsof ne; map_option rev (insert_back tsof ts ne (rev l)) }"

section \<open>Merge sort\<close>

fun listmerge :: "('e \<Rightarrow> int) \<Rightarrow> 'e list \<Rightarrow> 'e list \<Rightarrow> 'e list" where
  "listmerge ts [] q = q"
| "listmerge ts p [] = p"
| "listmerge ts (x # p) (y # q) =
     (if ts x \<le> ts y then x # listmerge ts p (y # q) else y # listmerge ts (x # p) q)"

definition NTMPSORT :: nat where "NTMPSORT = 32"

text \<open>
  The inner loop: \<open>tmp\<close> holds the slots in front of \<open>fill\<close> (an empty slot is \<open>None\<close>); runs are merged
  into \<open>carry\<close> until an empty slot or \<open>fill\<close> is reached. The assertion fails when the array is full.
\<close>

fun sort_carry :: "('e \<Rightarrow> int) \<Rightarrow> nat \<Rightarrow> 'e list option list \<Rightarrow> 'e list \<Rightarrow> 'e list option list option" where
  "sort_carry ts counter [] carry = do { _ \<leftarrow> pdnsd_assert (counter \<noteq> NTMPSORT); Some [Some carry] }"
| "sort_carry ts counter (None # tmp) carry = do { _ \<leftarrow> pdnsd_assert (counter \<noteq> NTMPSORT); Some (Some carry # tmp) }"
| "sort_carry ts counter (Some run # tmp) carry =
     map_option ((#) None) (sort_carry ts (counter + 1) tmp (listmerge ts run carry))"

fun sort_fill :: "('e \<Rightarrow> int) \<Rightarrow> 'e list option list \<Rightarrow> 'e list \<Rightarrow> 'e list option list option" where
  "sort_fill ts tmp [] = Some tmp"
| "sort_fill ts tmp (x # rem) = do { tmp \<leftarrow> sort_carry ts 0 tmp [x]; sort_fill ts tmp rem }"

text \<open>Merging what is left in the slots behind the first; an empty slot is the empty list.\<close>

definition slot_list :: "'e list option \<Rightarrow> 'e list" where
  "slot_list r = (case r of None \<Rightarrow> [] | Some run \<Rightarrow> run)"

fun sort_collect :: "('e \<Rightarrow> int) \<Rightarrow> 'e list \<Rightarrow> 'e list option list \<Rightarrow> 'e list" where
  "sort_collect ts carry [] = carry"
| "sort_collect ts carry (r # tmp) = sort_collect ts (listmerge ts (slot_list r) carry) tmp"

definition sort_list :: "('e \<Rightarrow> int) \<Rightarrow> 'e list \<Rightarrow> 'e list option" where
  "sort_list ts l = (if length l < 2 then Some l
     else do {
       tmp \<leftarrow> sort_fill ts [] l;
       (case tmp of [] \<Rightarrow> None | r # tmp \<Rightarrow> Some (sort_collect ts (slot_list r) tmp)) })"

section \<open>Removal and insertion\<close>

lemma remove_rrl_ok:
  assumes "distinct (map lnode l)" and "e \<in> set l"
  shows "remove_rrl (lnode e) l = Some (filter (\<lambda>x. x \<noteq> e) l)"
  using assms
proof (induction l)
  case (Cons x l)
  show ?case
  proof (cases "lnode x = lnode e")
    case True
    with Cons.prems have "x = e" "e \<notin> set l" by (auto simp: rev_image_eqI)
    moreover from this have "filter (\<lambda>x. x \<noteq> e) l = l" by (intro filter_True) auto
    ultimately show ?thesis by simp
  qed (use Cons in auto)
qed simp

text \<open>Inserting keeps a list that is ordered by time stamp ordered.\<close>

lemma insert_back_split:
  assumes "\<And>x. x \<in> set l \<Longrightarrow> tsof x = Some (key x)"
  shows "\<exists>us vs. l = us @ vs \<and> insert_back tsof ts ne l = Some (us @ ne # vs) \<and>
    (\<forall>u \<in> set us. ts < key u) \<and> (vs = [] \<or> key (hd vs) \<le> ts)"
  using assms
proof (induction l)
  case (Cons le l)
  show ?case
  proof (cases "ts \<ge> key le")
    case True
    with Cons.prems show ?thesis by (intro exI [of _ "[]"] exI [of _ "le # l"]) auto
  next
    case False
    from Cons obtain us vs where l: "l = us @ vs" "insert_back tsof ts ne l = Some (us @ ne # vs)"
      "\<forall>u \<in> set us. ts < key u" "vs = [] \<or> key (hd vs) \<le> ts" by auto
    with Cons.prems False show ?thesis by (intro exI [of _ "le # us"] exI [of _ vs]) auto
  qed
qed simp

lemma insert_sorted_split:
  assumes "\<forall>x \<in> set l. tsof x = Some (key x)" and "tsof ne = Some (key ne)"
  shows "\<exists>us vs. l = us @ vs \<and> insert_sorted tsof ne l = Some (us @ ne # vs) \<and>
    (\<forall>v \<in> set vs. key ne < key v) \<and> (us = [] \<or> key (last us) \<le> key ne)"
proof -
  have "\<exists>us vs. rev l = us @ vs \<and> insert_back tsof (key ne) ne (rev l) = Some (us @ ne # vs) \<and>
    (\<forall>u \<in> set us. key ne < key u) \<and> (vs = [] \<or> key (hd vs) \<le> key ne)"
    using assms by (intro insert_back_split) auto
  then obtain us vs where
    l: "rev l = us @ vs" "insert_back tsof (key ne) ne (rev l) = Some (us @ ne # vs)"
    "\<forall>u \<in> set us. key ne < key u" "vs = [] \<or> key (hd vs) \<le> key ne" by blast
  have "l = rev vs @ rev us" using arg_cong [OF l(1), of rev] by simp
  with l assms(2) show ?thesis
    by (intro exI [of _ "rev vs"] exI [of _ "rev us"]) (auto simp: insert_sorted_def last_rev)
qed

lemma insert_sorted_sorted:
  assumes "\<forall>x \<in> set l. tsof x = Some (key x)" and "tsof ne = Some (key ne)" and "sorted (map key l)"
  shows "ok (insert_sorted tsof ne l) (\<lambda>l'. sorted (map key l') \<and> mset l' = add_mset ne (mset l))"
proof -
  obtain us vs where l: "l = us @ vs" "insert_sorted tsof ne l = Some (us @ ne # vs)"
    "\<forall>v \<in> set vs. key ne < key v" "us = [] \<or> key (last us) \<le> key ne"
    using insert_sorted_split [OF assms(1,2)] by metis
  have "\<forall>u \<in> set us. key u \<le> key ne"
  proof (cases us rule: rev_cases)
    case (snoc ws w)
    with l assms(3) show ?thesis by (auto simp: sorted_append intro: order_trans)
  qed simp
  with l assms(3) show ?thesis by (auto simp: sorted_append less_imp_le)
qed

section \<open>The merge sort sorts\<close>

lemma mset_listmerge: "mset (listmerge ts p q) = mset p + mset q"
  by (induction ts p q rule: listmerge.induct) auto

lemma set_listmerge: "set (listmerge ts p q) = set p \<union> set q"
  by (metis mset_listmerge set_mset_mset set_mset_union)

lemma sorted_listmerge: "sorted (map ts p) \<Longrightarrow> sorted (map ts q) \<Longrightarrow> sorted (map ts (listmerge ts p q))"
  by (induction ts p q rule: listmerge.induct) (fastforce simp: set_listmerge)+

text \<open>Records with the same time stamp keep their order.\<close>

lemma listmerge_stable:
  assumes "sorted (map ts p)"
  shows "filter (\<lambda>x. ts x = k) (listmerge ts p q) = filter (\<lambda>x. ts x = k) p @ filter (\<lambda>x. ts x = k) q"
  using assms
proof (induction ts p q rule: listmerge.induct)
  case (3 ts x p y q)
  have "filter (\<lambda>z. ts z = ts y) (x # p) = []" if "ts y < ts x"
    using 3(3) that by (auto simp: filter_empty_conv)
  with 3 show ?case by (auto split: if_splits)
qed auto

lemma listmerge_sort: "listmerge ts (sort_key ts p) (sort_key ts q) = sort_key ts (p @ q)"
proof (rule properties_for_sort_key [symmetric])
  fix k
  show "filter (\<lambda>x. ts k = ts x) (listmerge ts (sort_key ts p) (sort_key ts q)) = filter (\<lambda>x. ts k = ts x) (p @ q)"
    using listmerge_stable [of ts "sort_key ts p" "ts k" "sort_key ts q"]
    by (simp add: sort_key_stable eq_commute [of "ts k"])
qed (simp_all add: mset_listmerge sorted_listmerge)

text \<open>
  The slots: slot \<open>i\<close> is empty or holds the sorted records of a segment of length \<open>2 ^ i\<close>, and the segments
  from the last slot to the first make up the part of the list taken so far.
\<close>

fun slots_ok :: "('e \<Rightarrow> int) \<Rightarrow> nat \<Rightarrow> 'e list option list \<Rightarrow> 'e list \<Rightarrow> bool" where
  "slots_ok ts i [] l \<longleftrightarrow> l = []"
| "slots_ok ts i (None # tmp) l \<longleftrightarrow> slots_ok ts (i + 1) tmp l"
| "slots_ok ts i (Some run # tmp) l \<longleftrightarrow>
     (\<exists>us vs. l = us @ vs \<and> length vs = 2 ^ i \<and> run = sort_key ts vs \<and> slots_ok ts (i + 1) tmp us)"

lemma slots_ok_length: "slots_ok ts i tmp l \<Longrightarrow> tmp \<noteq> [] \<Longrightarrow> last tmp \<noteq> None \<Longrightarrow> 2 ^ (i + length tmp) \<le> 2 * length l"
proof (induction ts i tmp l rule: slots_ok.induct)
  case (2 ts i tmp l)
  then show ?case by (cases "tmp = []") auto
next
  case (3 ts i run tmp l)
  then obtain us vs where l: "l = us @ vs" "length vs = 2 ^ i" "slots_ok ts (i + 1) tmp us" by auto
  show ?case
  proof (cases "tmp = []")
    case False
    with 3 l have "2 ^ (i + 1 + length tmp) \<le> 2 * length us" by auto
    with l show ?thesis by simp
  qed (use l in simp)
qed simp

lemma sort_carry_ok:
  assumes "slots_ok ts i tmp l" and "length vs = 2 ^ i" and "length l + length vs < 2 ^ NTMPSORT"
    and "tmp = [] \<or> last tmp \<noteq> None"
  shows "ok (sort_carry ts i tmp (sort_key ts vs)) (\<lambda>tmp'. slots_ok ts i tmp' (l @ vs) \<and> tmp' \<noteq> [] \<and> last tmp' \<noteq> None)"
  using assms
proof (induction ts i tmp "sort_key ts vs" arbitrary: l vs rule: sort_carry.induct)
  case (1 ts i)
  have "2 ^ i < (2 :: nat) ^ NTMPSORT" using "1.prems"(2,3) by linarith
  then have "i \<noteq> NTMPSORT" by auto
  with 1 show ?case by (auto simp: ok_simps)
next
  case (2 ts i tmp)
  have "2 ^ i < (2 :: nat) ^ NTMPSORT" using "2.prems"(2,3) by linarith
  then have "i \<noteq> NTMPSORT" by auto
  with 2 show ?case by (auto simp: ok_simps)
next
  case (3 ts i run tmp)
  then obtain us ws where l: "l = us @ ws" "length ws = 2 ^ i" "run = sort_key ts ws" "slots_ok ts (i + 1) tmp us" by auto
  have m: "listmerge ts run (sort_key ts vs) = sort_key ts (ws @ vs)"
    by (simp only: l listmerge_sort)
  have "ok (sort_carry ts (i + 1) tmp (sort_key ts (ws @ vs)))
    (\<lambda>tmp'. slots_ok ts (i + 1) tmp' (us @ ws @ vs) \<and> tmp' \<noteq> [] \<and> last tmp' \<noteq> None)"
    using 3 l by (intro 3(1)) (auto simp: listmerge_sort)
  then show ?case by (auto simp: listmerge_sort l ok_simps elim!: ok_mono)
qed

lemma sort_fill_ok:
  assumes "slots_ok ts 0 tmp l" and "length l + length rem < 2 ^ NTMPSORT" and "tmp = [] \<or> last tmp \<noteq> None"
  shows "ok (sort_fill ts tmp rem) (\<lambda>tmp'. slots_ok ts 0 tmp' (l @ rem))"
  using assms
proof (induction rem arbitrary: tmp l)
  case (Cons x rem)
  then have "ok (sort_carry ts 0 tmp (sort_key ts [x])) (\<lambda>tmp'. slots_ok ts 0 tmp' (l @ [x]) \<and> tmp' \<noteq> [] \<and> last tmp' \<noteq> None)"
    by (intro sort_carry_ok) auto
  then obtain tmp' where t: "sort_carry ts 0 tmp [x] = Some tmp'" "slots_ok ts 0 tmp' (l @ [x])" "last tmp' \<noteq> None"
    by (auto elim: okE)
  with Cons.IH [of tmp' "l @ [x]"] Cons.prems show ?case by simp
qed simp

lemma sort_collect_ok:
  "slots_ok ts i tmp l \<Longrightarrow> sort_collect ts (sort_key ts vs) tmp = sort_key ts (l @ vs)"
proof (induction ts i tmp l arbitrary: vs rule: slots_ok.induct)
  case (3 ts i run tmp l)
  then obtain us ws where l: "l = us @ ws" "run = sort_key ts ws" "slots_ok ts (i + 1) tmp us" by auto
  with 3 listmerge_sort [of ts ws vs] show ?case by (simp add: slot_list_def)
qed (auto simp: slot_list_def)

lemma listmerge_Nil2 [simp]: "listmerge ts p [] = p"
  by (cases p) auto

lemma sort_list_ok:
  assumes "length l < 2 ^ NTMPSORT"
  shows "sort_list ts l = Some (sort_key ts l)"
proof (cases "length l < 2")
  case True
  then have "sort_key ts l = l" by (cases l; cases "tl l") auto
  with True show ?thesis by (simp add: sort_list_def)
next
  case False
  from sort_fill_ok [of ts "[]" "[]" l] assms obtain tmp where "sort_fill ts [] l = Some tmp" "slots_ok ts 0 tmp l"
    by (auto elim: okE)
  with False sort_collect_ok [of ts 0 tmp l "[]"] show ?thesis by (cases tmp) (auto simp: sort_list_def)
qed

section \<open>Properties\<close>

text \<open>
  C27. The merge sort of \<open>sort_rrl\<close> computes the stable sort of the list by time stamp, for all
  lists of fewer than \<open>2 ^ 32\<close> nodes: in particular its array of \<open>NTMPSORT\<close> slots does not overflow, the list
  is a permutation of the old one, and nodes with equal time stamps keep their order.
\<close>

theorem sort_rrl_sorts:
  assumes "length l < 2 ^ 32"
  shows "sort_list ts l = Some (sort_key ts l)"
  using assms by (intro sort_list_ok) (simp add: NTMPSORT_def)

theorem sort_rrl_sorts_witness:
  "sort_list fst [(3, 0), (1, 1), (3, 2), (1, 3), (2, 4 :: nat)] = Some [(1, 1), (1, 3), (2, 4), (3, 0), (3, 2)]"
  using sort_rrl_sorts [of "[(3, 0), (1, 1), (3, 2), (1, 3), (2, 4 :: nat)]" fst] by simp

end
