(* ===== verification/Cents.thy ===== *)
theory Cents
  imports RRTypes RRList
begin

text \<open>
  Cache entries (\<^verbatim>\<open>dns_cent_t\<close> of \<^verbatim>\<open>src/cache.h\<close>) and the operations of \<^verbatim>\<open>src/cache.c\<close> on a single entry:
  building, copying, negating, deleting record sets, freeing.

  Record sets of an entry that is in the cache are linked with nodes of the list \<open>rrset_l\<close>, so the
  operations that free record sets also work on that list.
\<close>

section \<open>Data\<close>

text \<open>\<open>lent\<close> is the address of the list node or \<open>None\<close>. A bucket is its data; \<^verbatim>\<open>rdlen\<close> is the length of it.\<close>

record rr_set =
  lent :: "nat option"
  ttl :: int
  ts :: int
  flags :: "16 word"
  rrs :: "bytes list"

text \<open>The union in \<^verbatim>\<open>dns_cent_t\<close>. The flag \<open>DF_NEGATIVE\<close> tells which part is valid; reading the other
  one is a fault.\<close>

datatype cent_body =
    is_Neg: Neg (neg_lent: "nat option") (neg_ttl: int) (neg_ts: int)
  | RR (rrmu: "rr_set option list") (rrext: "rr_set option list option")

record dns_cent =
  qname :: bytes
  cs :: nat
  num_rrs :: nat
  cflags :: "16 word"
  body :: cent_body
  c_ns :: byte
  c_soa :: byte

definition cundef :: byte where "cundef = 0xff"

definition CF_NEGATIVE :: "16 word" where "CF_NEGATIVE = 1"
definition CF_LOCAL :: "16 word" where "CF_LOCAL = 2"
definition CF_AUTH :: "16 word" where "CF_AUTH = 4"
definition CF_NOCACHE :: "16 word" where "CF_NOCACHE = 8"
definition CF_ADDITIONAL :: "16 word" where "CF_ADDITIONAL = 16"
definition CF_NOPURGE :: "16 word" where "CF_NOPURGE = 32"
definition CF_ROOTSERV :: "16 word" where "CF_ROOTSERV = 64"

definition DF_NEGATIVE :: "16 word" where "DF_NEGATIVE = 1"
definition DF_LOCAL :: "16 word" where "DF_LOCAL = 2"
definition DF_AUTH :: "16 word" where "DF_AUTH = 4"
definition DF_NOCACHE :: "16 word" where "DF_NOCACHE = 8"
definition DF_WILD :: "16 word" where "DF_WILD = 16"

definition has :: "16 word \<Rightarrow> 16 word \<Rightarrow> bool" where
  "has fl f \<longleftrightarrow> fl AND f \<noteq> 0"

text \<open>Sizes of the structures on a 64-bit platform.\<close>

definition sizeof_dns_cent :: nat where "sizeof_dns_cent = 104"
definition sizeof_rr_set :: nat where "sizeof_rr_set = 40"
definition sizeof_rr_bucket :: nat where "sizeof_rr_bucket = 16"
definition sizeof_rrext :: nat where "sizeof_rrext = 8 * NRREXT"

section \<open>Access by index and by type\<close>

definition is_neg :: "dns_cent \<Rightarrow> bool" where
  "is_neg c \<longleftrightarrow> has (cflags c) DF_NEGATIVE"

definition RRARR_LEN :: "dns_cent \<Rightarrow> nat option" where
  "RRARR_LEN c = (if is_neg c then Some 0 else (case body c of Neg _ _ _ \<Rightarrow> None
     | RR mu ext \<Rightarrow> Some (if ext \<noteq> None then NRRTOT else NRRMU)))"

definition RRARR_INDEX :: "dns_cent \<Rightarrow> nat \<Rightarrow> rr_set option option" where
  "RRARR_INDEX c i = (case body c of Neg _ _ _ \<Rightarrow> None
     | RR mu ext \<Rightarrow> if i < NRRMU then rd mu i else (case ext of None \<Rightarrow> None | Some e \<Rightarrow> rd e (i - NRRMU)))"

definition RRARR_INDEX_TESTEXT :: "dns_cent \<Rightarrow> nat \<Rightarrow> rr_set option option" where
  "RRARR_INDEX_TESTEXT c i = (if is_neg c then Some None else (case body c of Neg _ _ _ \<Rightarrow> None
     | RR mu ext \<Rightarrow> if i < NRRMU then rd mu i
         else (case ext of None \<Rightarrow> Some None | Some e \<Rightarrow> rd e (i - NRRMU))))"

text \<open>Storing through \<^verbatim>\<open>RRARR_INDEX_PA\<close>.\<close>

definition RRARR_set :: "dns_cent \<Rightarrow> nat \<Rightarrow> rr_set option \<Rightarrow> dns_cent option" where
  "RRARR_set c i r = (case body c of Neg _ _ _ \<Rightarrow> None
     | RR mu ext \<Rightarrow> if i < NRRMU then map_option (\<lambda>mu. c\<lparr>body := RR mu ext\<rparr>) (wr mu i r)
         else (case ext of None \<Rightarrow> None
           | Some e \<Rightarrow> map_option (\<lambda>e. c\<lparr>body := RR mu (Some e)\<rparr>) (wr e (i - NRRMU) r)))"

definition getrrset_eff :: "dns_cent \<Rightarrow> nat \<Rightarrow> rr_set option option" where
  "getrrset_eff c tp = do {
     t \<leftarrow> usub tp T_MIN;
     idx \<leftarrow> rd rrlkuptab t;
     (case body c of Neg _ _ _ \<Rightarrow> None
      | RR mu ext \<Rightarrow> if idx < NRRMU then rd mu idx
          else if idx - NRRMU < NRREXT then (case ext of None \<Rightarrow> Some None | Some e \<Rightarrow> rd e (idx - NRRMU))
          else Some None) }"

definition getrrset :: "dns_cent \<Rightarrow> int \<Rightarrow> rr_set option option" where
  "getrrset c tp = (if is_neg c then Some None
     else let tpi = tp - int T_MIN in
       if 0 \<le> tpi \<and> tpi < int T_NUM then getrrset_eff c (nat tp) else Some None)"

definition have_rr :: "dns_cent \<Rightarrow> nat \<Rightarrow> bool option" where
  "have_rr c tp = (if is_neg c then Some False else do {
     r \<leftarrow> getrrset_eff c tp;
     Some (case r of None \<Rightarrow> False | Some rs \<Rightarrow> rrs rs \<noteq> []) })"

section \<open>Building entries\<close>

definition empty_rr :: cent_body where
  "empty_rr = RR (replicate NRRMU None) None"

text \<open>The result is \<open>None\<close> inside when the allocation fails.\<close>

definition init_cent :: "bytes \<Rightarrow> int \<Rightarrow> int \<Rightarrow> 16 word \<Rightarrow> allocs \<Rightarrow> (dns_cent option \<times> allocs) option" where
  "init_cent qn ttl0 ts0 fl al = do {
     namesz \<leftarrow> rhnlen qn;
     let (mem, al) = malloc al;
     if \<not> mem then Some (None, al)
     else do {
       nm \<leftarrow> (if namesz \<le> length qn then Some (take namesz qn) else None);
       Some (Some \<lparr>qname = nm, cs = sizeof_dns_cent + namesz, num_rrs = 0, cflags = fl,
         body = (if has fl DF_NEGATIVE then Neg None ttl0 ts0 else empty_rr),
         c_ns = cundef, c_soa = cundef\<rparr>, al) } }"

text \<open>Turning a negative entry into one without record sets.\<close>

definition unnegate :: "dns_cent \<Rightarrow> rrl \<Rightarrow> (dns_cent \<times> rrl) option" where
  "unnegate c l = (if is_neg c then (case body c of RR _ _ \<Rightarrow> None
     | Neg le _ _ \<Rightarrow> do {
         l \<leftarrow> (case le of None \<Rightarrow> Some l | Some n \<Rightarrow> remove_rrl n l);
         Some (c\<lparr>cflags := cflags c AND NOT DF_NEGATIVE, body := empty_rr\<rparr>, l) })
   else Some (c, l))"

definition ensure_ext :: "dns_cent \<Rightarrow> nat \<Rightarrow> allocs \<Rightarrow> (bool \<times> dns_cent \<times> allocs) option" where
  "ensure_ext c idx al = (if idx < NRRMU then Some (True, c, al)
     else do {
       _ \<leftarrow> pdnsd_assert (idx - NRRMU < NRREXT);
       (case body c of Neg _ _ _ \<Rightarrow> None
        | RR mu (Some e) \<Rightarrow> Some (True, c, al)
        | RR mu None \<Rightarrow> let (mem, al) = malloc al in
            if mem then Some (True, c\<lparr>body := RR mu (Some (replicate NRREXT None)), cs := cs c + sizeof_rrext\<rparr>, al)
            else Some (False, c, al)) })"

definition add_cent_rrset_by_index ::
  "dns_cent \<Rightarrow> nat \<Rightarrow> int \<Rightarrow> int \<Rightarrow> 16 word \<Rightarrow> rrl \<Rightarrow> allocs \<Rightarrow> (bool \<times> dns_cent \<times> rrl \<times> allocs) option" where
  "add_cent_rrset_by_index c idx ttl0 ts0 fl l al = do {
     (c, l) \<leftarrow> unnegate c l;
     (r, c, al) \<leftarrow> ensure_ext c idx al;
     if \<not> r then Some (False, c, l, al)
     else let (mem, al) = malloc al in
       if \<not> mem then do { c \<leftarrow> RRARR_set c idx None; Some (False, c, l, al) }
       else do {
         c \<leftarrow> RRARR_set c idx (Some \<lparr>lent = None, ttl = ttl0, ts = ts0, flags = fl, rrs = []\<rparr>);
         Some (True, c\<lparr>cs := cs c + sizeof_rr_set, num_rrs := num_rrs c + 1\<rparr>, l, al) } }"

definition add_cent_rrset_by_type ::
  "dns_cent \<Rightarrow> nat \<Rightarrow> int \<Rightarrow> int \<Rightarrow> 16 word \<Rightarrow> rrl \<Rightarrow> allocs \<Rightarrow> (bool \<times> dns_cent \<times> rrl \<times> allocs) option" where
  "add_cent_rrset_by_type c tp ttl0 ts0 fl l al = do {
     _ \<leftarrow> pdnsd_assert (tp \<ge> T_MIN \<and> tp - T_MIN < T_NUM);
     idx \<leftarrow> rd rrlkuptab (tp - T_MIN);
     add_cent_rrset_by_index c idx ttl0 ts0 fl l al }"

text \<open>\<open>rtail\<close> is the position of the bucket \<^verbatim>\<open>*rtail\<close> points to in the record set, or \<open>None\<close>. The new bucket
  is linked in front of all others, or behind that bucket.\<close>

definition link_rr :: "bytes list \<Rightarrow> nat option \<Rightarrow> bytes \<Rightarrow> (bytes list \<times> nat) option" where
  "link_rr bs rtail rr = (case rtail of None \<Rightarrow> Some (rr # bs, 0)
     | Some k \<Rightarrow> if k < length bs then Some (take (k + 1) bs @ rr # drop (k + 1) bs, k + 1) else None)"

definition add_cent_rr_int ::
  "dns_cent \<Rightarrow> nat \<Rightarrow> int \<Rightarrow> int \<Rightarrow> 16 word \<Rightarrow> bytes \<Rightarrow> nat option \<Rightarrow> rrl \<Rightarrow> allocs \<Rightarrow>
   (bool \<times> nat option \<times> dns_cent \<times> rrl \<times> allocs) option" where
  "add_cent_rr_int c idx ttl0 ts0 fl dat rtail l al = do {
     let (mem, al) = malloc al;
     if \<not> mem then Some (False, rtail, c, l, al)
     else do {
       rs \<leftarrow> RRARR_INDEX_TESTEXT c idx;
       (r, c, l, al) \<leftarrow> (if rtail = None \<and> rs = None then add_cent_rrset_by_index c idx ttl0 ts0 fl l al
         else Some (True, c, l, al));
       if \<not> r then Some (False, rtail, c, l, al)
       else do {
         rs \<leftarrow> RRARR_INDEX c idx;
         (case rs of None \<Rightarrow> None
          | Some rs \<Rightarrow> do {
              (bs, k) \<leftarrow> link_rr (rrs rs) rtail dat;
              c \<leftarrow> RRARR_set c idx (Some (rs\<lparr>rrs := bs\<rparr>));
              Some (True, Some k, c\<lparr>cs := cs c + (sizeof_rr_bucket + length dat)\<rparr>, l, al) }) } } }"

definition add_cent_rr ::
  "dns_cent \<Rightarrow> nat \<Rightarrow> int \<Rightarrow> int \<Rightarrow> 16 word \<Rightarrow> bytes \<Rightarrow> rrl \<Rightarrow> allocs \<Rightarrow> (bool \<times> dns_cent \<times> rrl \<times> allocs) option" where
  "add_cent_rr c tp ttl0 ts0 fl dat l al =
     (if has (cflags c) DF_LOCAL \<and> \<not> has fl CF_LOCAL then Some (True, c, l, al)
      else do {
        _ \<leftarrow> pdnsd_assert (tp \<ge> T_MIN \<and> tp - T_MIN < T_NUM);
        idx \<leftarrow> rd rrlkuptab (tp - T_MIN);
        _ \<leftarrow> pdnsd_assert (idx < NRRTOT);
        r \<leftarrow> RRARR_INDEX_TESTEXT c idx;
        c \<leftarrow> (case r of None \<Rightarrow> Some c
          | Some rs \<Rightarrow> if ttl0 < ttl rs then RRARR_set c idx (Some (rs\<lparr>ttl := ttl0\<rparr>)) else Some c);
        let bs = (case r of None \<Rightarrow> [] | Some rs \<Rightarrow> rrs rs);
        if dat \<in> set bs then Some (True, c, l, al)
        else do {
          (r, rtail, c, l, al) \<leftarrow> add_cent_rr_int c idx ttl0 ts0 fl dat
            (if bs = [] then None else Some (length bs - 1)) l al;
          Some (r, c, l, al) } })"

section \<open>Freeing and negating\<close>

definition rrset_size :: "rr_set \<Rightarrow> nat" where
  "rrset_size rs = sizeof_rr_set + sum_list (map (\<lambda>b. sizeof_rr_bucket + length b) (rrs rs))"

definition del_rrset :: "rr_set \<Rightarrow> rrl \<Rightarrow> (nat \<times> rrl) option" where
  "del_rrset rs l = do {
     l \<leftarrow> (case lent rs of None \<Rightarrow> Some l | Some n \<Rightarrow> remove_rrl n l);
     Some (rrset_size rs, l) }"

definition del_cent_rrset_by_index :: "dns_cent \<Rightarrow> nat \<Rightarrow> rrl \<Rightarrow> (nat \<times> dns_cent \<times> rrl) option" where
  "del_cent_rrset_by_index c i l = do {
     r \<leftarrow> RRARR_INDEX_TESTEXT c i;
     (case r of None \<Rightarrow> Some (0, c, l)
      | Some rs \<Rightarrow> do {
          (rv, l) \<leftarrow> del_rrset rs l;
          c \<leftarrow> RRARR_set c i None;
          n \<leftarrow> usub (num_rrs c) 1;
          sz \<leftarrow> usub (cs c) rv;
          Some (rv, c\<lparr>num_rrs := n, cs := sz, cflags := cflags c AND NOT DF_AUTH\<rparr>, l) }) }"

text \<open>The loops of \<open>free_cent\<close> and \<open>negate_cent\<close> over one array of record sets: the sum of the sizes freed.\<close>

fun del_rrsets :: "rr_set option list \<Rightarrow> rrl \<Rightarrow> (nat \<times> rrl) option" where
  "del_rrsets [] l = Some (0, l)"
| "del_rrsets (None # rss) l = del_rrsets rss l"
| "del_rrsets (Some rs # rss) l = do {
     (n, l) \<leftarrow> del_rrset rs l;
     (m, l) \<leftarrow> del_rrsets rss l;
     Some (n + m, l) }"

definition free_cent :: "dns_cent \<Rightarrow> rrl \<Rightarrow> rrl option" where
  "free_cent c l = (if is_neg c then (case body c of RR _ _ \<Rightarrow> None
       | Neg le _ _ \<Rightarrow> (case le of None \<Rightarrow> Some l | Some n \<Rightarrow> remove_rrl n l))
     else (case body c of Neg _ _ _ \<Rightarrow> None
       | RR mu ext \<Rightarrow> do {
           (_, l) \<leftarrow> del_rrsets mu l;
           (case ext of None \<Rightarrow> Some l | Some e \<Rightarrow> map_option snd (del_rrsets e l)) }))"

definition negate_cent :: "dns_cent \<Rightarrow> int \<Rightarrow> int \<Rightarrow> rrl \<Rightarrow> (dns_cent \<times> rrl) option" where
  "negate_cent c ttl0 ts0 l = (if \<not> is_neg c then (case body c of Neg _ _ _ \<Rightarrow> None
       | RR mu ext \<Rightarrow> do {
           (n, l) \<leftarrow> del_rrsets mu l;
           (m, l) \<leftarrow> (case ext of None \<Rightarrow> Some (0, l)
             | Some e \<Rightarrow> do { (m, l) \<leftarrow> del_rrsets e l; Some (m + sizeof_rrext, l) });
           sz \<leftarrow> usub (cs c) (n + m);
           Some (c\<lparr>cs := sz, num_rrs := 0, cflags := cflags c OR DF_NEGATIVE, body := Neg None ttl0 ts0\<rparr>, l) })
     else (case body c of RR _ _ \<Rightarrow> None
       | Neg le _ _ \<Rightarrow> Some (c\<lparr>body := Neg le ttl0 ts0\<rparr>, l)))"

section \<open>Copying\<close>

text \<open>The allocations for the buckets of one record set.\<close>

fun copy_rrs :: "bytes list \<Rightarrow> allocs \<Rightarrow> bool \<times> allocs" where
  "copy_rrs [] al = (True, al)"
| "copy_rrs (b # bs) al = (let (mem, al) = malloc al in if mem then copy_rrs bs al else (False, al))"

definition copy_rrset :: "rr_set \<Rightarrow> allocs \<Rightarrow> rr_set option \<times> allocs" where
  "copy_rrset rs al = (let (mem, al) = malloc al in
     if \<not> mem then (None, al)
     else let (r, al) = copy_rrs (rrs rs) al in (if r then Some (rs\<lparr>lent := None\<rparr>) else None, al))"

fun copy_rrsets :: "rr_set option list \<Rightarrow> allocs \<Rightarrow> rr_set option list option \<times> allocs" where
  "copy_rrsets [] al = (Some [], al)"
| "copy_rrsets (None # rss) al = (let (r, al) = copy_rrsets rss al in (map_option ((#) None) r, al))"
| "copy_rrsets (Some rs # rss) al = (let (c, al) = copy_rrset rs al in
     (case c of None \<Rightarrow> (None, al)
      | Some c \<Rightarrow> let (r, al) = copy_rrsets rss al in (map_option ((#) (Some c)) r, al)))"

text \<open>The arrays are copied in one loop over all indices; the copy is abandoned as a whole when an
  allocation fails. The copied sets are not in the list \<open>rrset_l\<close>.\<close>

definition copy_body :: "cent_body \<Rightarrow> allocs \<Rightarrow> cent_body option \<times> allocs" where
  "copy_body b al = (case b of Neg _ t s \<Rightarrow> (Some (Neg None t s), al)
     | RR mu None \<Rightarrow> let (r, al) = copy_rrsets mu al in (map_option (\<lambda>mu. RR mu None) r, al)
     | RR mu (Some e) \<Rightarrow> let (mem, al) = malloc al in
         if \<not> mem then (None, al)
         else let (r, al) = copy_rrsets (mu @ e) al in
           (map_option (\<lambda>rss. RR (take NRRMU rss) (Some (drop NRRMU rss))) r, al))"

definition copy_cent :: "dns_cent \<Rightarrow> allocs \<Rightarrow> (dns_cent option \<times> allocs) option" where
  "copy_cent c al = (let (mem, al) = malloc al in
     if \<not> mem then Some (None, al)
     else do {
       namesz \<leftarrow> rhnlen (qname c);
       let (mem, al) = malloc al;
       if \<not> mem then Some (None, al)
       else do {
         nm \<leftarrow> (if namesz \<le> length (qname c) then Some (take namesz (qname c)) else None);
         if is_Neg (body c) \<noteq> is_neg c then None
         else let (b, al) = copy_body (body c) al in
           Some (map_option (\<lambda>b. c\<lparr>qname := nm, body := b\<rparr>) b, al) } })"

section \<open>Well-formed entries\<close>

text \<open>All record sets of an entry as one sequence, and as a function of the index.\<close>

definition slots :: "dns_cent \<Rightarrow> rr_set option list" where
  "slots c = (case body c of Neg _ _ _ \<Rightarrow> [] | RR mu ext \<Rightarrow> mu @ (case ext of None \<Rightarrow> [] | Some e \<Rightarrow> e))"

definition rr :: "dns_cent \<Rightarrow> nat \<Rightarrow> rr_set option" where
  "rr c i = (if i < length (slots c) then slots c ! i else None)"

definition opt_size :: "rr_set option \<Rightarrow> nat" where
  "opt_size r = (case r of None \<Rightarrow> 0 | Some rs \<Rightarrow> rrset_size rs)"

definition opt_count :: "rr_set option \<Rightarrow> nat" where
  "opt_count r = (if r = None then 0 else 1)"

definition ext_size :: "dns_cent \<Rightarrow> nat" where
  "ext_size c = (case body c of RR _ (Some _) \<Rightarrow> sizeof_rrext | _ \<Rightarrow> 0)"

definition tot :: "(rr_set option \<Rightarrow> nat) \<Rightarrow> dns_cent \<Rightarrow> nat" where
  "tot f c = sum_list (map f (slots c))"

definition shape_ok :: "dns_cent \<Rightarrow> bool" where
  "shape_ok c \<longleftrightarrow> (case body c of Neg _ _ _ \<Rightarrow> is_neg c
     | RR mu ext \<Rightarrow> \<not> is_neg c \<and> length mu = NRRMU \<and> (case ext of None \<Rightarrow> True | Some e \<Rightarrow> length e = NRREXT))"

text \<open>
  The invariant: the union agrees with the flag, the arrays have their sizes, the name is a wire-encoded
  name, \<open>cs\<close> is the memory the entry takes and \<open>num_rrs\<close> the number of its record sets.
\<close>

definition cent_ok :: "dns_cent \<Rightarrow> bool" where
  "cent_ok c \<longleftrightarrow> shape_ok c \<and> (\<exists>ls. wf_name ls \<and> qname c = wire ls) \<and>
     cs c = sizeof_dns_cent + length (qname c) + ext_size c + tot opt_size c \<and> num_rrs c = tot opt_count c"

text \<open>The list nodes that belong to the entry at address \<open>a\<close>.\<close>

definition slot_node :: "nat \<Rightarrow> nat \<Rightarrow> rr_set option \<Rightarrow> rr_lent set" where
  "slot_node a i r = (case r of None \<Rightarrow> {} | Some rs \<Rightarrow>
     (case lent rs of None \<Rightarrow> {} | Some n \<Rightarrow> {\<lparr>lnode = n, lrrset = True, lcent = a, lidx = int i\<rparr>}))"

definition neg_node :: "nat \<Rightarrow> nat option \<Rightarrow> rr_lent set" where
  "neg_node a le = (case le of None \<Rightarrow> {} | Some n \<Rightarrow> {\<lparr>lnode = n, lrrset = False, lcent = a, lidx = - 1\<rparr>})"

definition nodes :: "nat \<Rightarrow> dns_cent \<Rightarrow> rr_lent set" where
  "nodes a c = (case body c of Neg le _ _ \<Rightarrow> neg_node a le | RR _ _ \<Rightarrow> (\<Union>i. slot_node a i (rr c i)))"

text \<open>The list consists of the nodes of this entry and of nodes \<open>F\<close> of other entries.\<close>

definition linked :: "rr_lent set \<Rightarrow> nat \<Rightarrow> dns_cent \<Rightarrow> rrl \<Rightarrow> bool" where
  "linked F a c l \<longleftrightarrow> set l = F \<union> nodes a c \<and> distinct (map lnode l) \<and> (\<forall>e \<in> F. lcent e \<noteq> a)"

lemma lcent_slot_node: "e \<in> slot_node a i r \<Longrightarrow> lcent e = a \<and> lidx e = int i"
  by (auto simp: slot_node_def split: option.splits)

lemma lcent_nodes: "e \<in> nodes a c \<Longrightarrow> lcent e = a"
  by (auto simp: nodes_def neg_node_def dest: lcent_slot_node split: cent_body.splits option.splits)

lemma shape_RR:
  assumes "shape_ok c" and "\<not> is_neg c"
  obtains mu ext where "body c = RR mu ext" "length mu = 8" "ext \<noteq> None \<Longrightarrow> length (the ext) = 39"
  using assms that
  by (cases "body c") (auto simp: shape_ok_def NRRMU_def NRREXT_def split: option.splits)

lemma shape_Neg:
  assumes "shape_ok c" and "is_neg c"
  obtains le t s where "body c = Neg le t s"
  using assms by (cases "body c") (auto simp: shape_ok_def)

lemma rr_neg: "shape_ok c \<Longrightarrow> is_neg c \<Longrightarrow> rr c i = None"
  by (erule shape_Neg) (auto simp: rr_def slots_def)

lemmas nrr_defs = NRRMU_def NRREXT_def NRRTOT_def

lemma length_slots:
  assumes "shape_ok c" and "\<not> is_neg c"
  shows "RRARR_LEN c = Some (length (slots c))" "length (slots c) = 8 \<or> length (slots c) = 47"
    "ext_size c = (if length (slots c) = 47 then sizeof_rrext else 0)"
  by (rule shape_RR [OF assms]; auto simp: RRARR_LEN_def slots_def assms(2) nrr_defs ext_size_def split: option.splits)+

lemma RRARR_INDEX_TESTEXT_eq:
  assumes "shape_ok c" and "i < NRRTOT"
  shows "RRARR_INDEX_TESTEXT c i = Some (rr c i)"
proof (cases "is_neg c")
  case True
  with rr_neg [OF assms(1)] show ?thesis by (simp add: RRARR_INDEX_TESTEXT_def)
next
  case False
  show ?thesis
    by (rule shape_RR [OF assms(1) False])
      (use assms(2) False in \<open>auto simp: RRARR_INDEX_TESTEXT_def rr_def slots_def nrr_defs nth_append rd_def split: option.splits\<close>)
qed

lemma RRARR_INDEX_eq:
  assumes "shape_ok c" and "i < length (slots c)"
  shows "RRARR_INDEX c i = Some (rr c i)"
proof -
  have "\<not> is_neg c" using assms by (auto elim: shape_Neg simp: slots_def)
  with assms show ?thesis
    by (rule_tac shape_RR [OF assms(1)])
      (auto simp: RRARR_INDEX_def rr_def slots_def nrr_defs nth_append rd_def split: option.splits)
qed

text \<open>Storing a record set.\<close>

lemma RRARR_set_eq:
  assumes "shape_ok c" and "i < length (slots c)"
  obtains c' where "RRARR_set c i r = Some c'" "slots c' = (slots c)[i := r]" "shape_ok c'" "ext_size c' = ext_size c"
    "c' = c\<lparr>body := body c'\<rparr>" "is_Neg (body c') = is_Neg (body c)"
proof -
  have nn: "\<not> is_neg c" using assms by (auto elim: shape_Neg simp: slots_def)
  obtain mu ext where b: "body c = RR mu ext" "length mu = 8" "ext \<noteq> None \<Longrightarrow> length (the ext) = 39"
    using shape_RR [OF assms(1) nn] by blast
  show thesis
  proof (cases "i < 8")
    case True
    with b nn assms show thesis
      by (intro that [of "c\<lparr>body := RR (mu[i := r]) ext\<rparr>"])
        (auto simp: RRARR_set_def nrr_defs slots_def shape_ok_def is_neg_def ext_size_def list_update_append split: option.splits)
  next
    case False
    with assms(2) b obtain e where e: "ext = Some e" "length e = 39" by (cases ext) (auto simp: slots_def)
    with False b nn assms show thesis
      by (intro that [of "c\<lparr>body := RR mu (Some (e[i - 8 := r]))\<rparr>"])
        (auto simp: RRARR_set_def nrr_defs slots_def shape_ok_def is_neg_def ext_size_def list_update_append)
  qed
qed

lemma rr_update: "slots c' = (slots c)[i := r] \<Longrightarrow> i < length (slots c) \<Longrightarrow> rr c' = (rr c)(i := r)"
  by (auto simp: rr_def fun_eq_iff)

lemma tot_update:
  assumes "slots c' = (slots c)[i := r]" and "i < length (slots c)"
  shows "tot f c' + f (rr c i) = tot f c + f r"
proof -
  have "map f (slots c') = (map f (slots c))[i := f r]" using assms by (simp add: map_update)
  moreover have "f (rr c i) \<le> sum_list (map f (slots c))"
    using assms by (auto simp: rr_def intro!: member_le_sum_list)
  ultimately show ?thesis
    using assms by (simp add: tot_def sum_list_update rr_def)
qed

lemma slot_node_disjoint: "i \<noteq> j \<Longrightarrow> slot_node a i r \<inter> slot_node a j r' = {}"
  by (auto dest!: lcent_slot_node)

lemma nodes_update:
  assumes "\<not> is_Neg (body c)" and "\<not> is_Neg (body c')" and "rr c' = (rr c)(i := r)"
  shows "nodes a c' = (nodes a c - slot_node a i (rr c i)) \<union> slot_node a i r"
proof -
  have n: "nodes a c = (\<Union>i. slot_node a i (rr c i))" "nodes a c' = (\<Union>i. slot_node a i (rr c' i))"
    using assms by (auto simp: nodes_def split: cent_body.splits)
  have "e \<in> slot_node a j (rr c j) \<Longrightarrow> j \<noteq> i \<Longrightarrow> e \<notin> slot_node a i x" for e j x
    using slot_node_disjoint [of j i a "rr c j" x] by auto
  then show ?thesis unfolding n assms(3) by (auto split: if_splits)
qed

lemma linked_distinct: "linked F a c l \<Longrightarrow> distinct (map lnode l)"
  by (simp add: linked_def)

lemma distinct_filter_nodes: "distinct (map lnode l) \<Longrightarrow> distinct (map lnode (filter P l))"
  by (simp add: distinct_map_filter)

lemma slot_nodes_in: "\<not> is_Neg (body c) \<Longrightarrow> slot_node a i (rr c i) \<subseteq> nodes a c"
  by (auto simp: nodes_def split: cent_body.splits)

section \<open>Lemmas on the operations\<close>

lemma init_cent_ok:
  assumes "wf_name ls"
  shows "ok (init_cent (wire ls @ r) ttl0 ts0 fl al) (\<lambda>(c, al'). case c of None \<Rightarrow> al \<noteq> []
    | Some c \<Rightarrow> cent_ok c \<and> qname c = wire ls \<and> cflags c = fl \<and> nodes a c = {} \<and> rr c = (\<lambda>_. None) \<and>
        c_ns c = cundef \<and> c_soa c = cundef \<and> body c = (if has fl DF_NEGATIVE then Neg None ttl0 ts0 else empty_rr))"
proof -
  have len: "rhnlen (wire ls @ r) = Some (length (wire ls))" using assms by (simp add: rhnlen_wire wf_name_labels)
  obtain mem al' where m: "malloc al = (mem, al')" by (cases "malloc al")
  have "al \<noteq> []" if "\<not> mem" using m that by (cases al) auto
  with assms m show ?thesis
    by (auto simp: init_cent_def len Let_def ok_simps cent_ok_def shape_ok_def is_neg_def empty_rr_def nrr_defs
        ext_size_def tot_def slots_def nodes_def neg_node_def rr_def slot_node_def opt_size_def opt_count_def fun_eq_iff
        nth_append sum_list_replicate map_replicate_const)
qed

lemma del_rrset_ok:
  assumes "distinct (map lnode l)" and "slot_node a i (Some rs) \<subseteq> set l"
  shows "del_rrset rs l = Some (rrset_size rs, filter (\<lambda>e. e \<notin> slot_node a i (Some rs)) l)"
  using assms remove_rrl_ok [OF assms(1)]
  by (cases "lent rs") (force simp: del_rrset_def slot_node_def)+

lemma cent_ok_update:
  assumes ok: "cent_ok c" and i: "i < length (slots c)"
    and c': "slots c' = (slots c)[i := r]" "shape_ok c'" "ext_size c' = ext_size c" "qname c' = qname c"
    and sz: "cs c' + opt_size (rr c i) = cs c + opt_size r" "num_rrs c' + opt_count (rr c i) = num_rrs c + opt_count r"
  shows "cent_ok c'"
  using ok c'(2-4) sz tot_update [OF c'(1) i, of opt_size] tot_update [OF c'(1) i, of opt_count]
  by (auto simp: cent_ok_def)

lemma has_clear_other: "has (fl AND NOT DF_AUTH) DF_NEGATIVE = has fl DF_NEGATIVE"
proof -
  have "(fl AND NOT DF_AUTH) AND DF_NEGATIVE = fl AND DF_NEGATIVE"
    by (rule bit_word_eqI) (auto simp: bit_simps DF_AUTH_def DF_NEGATIVE_def bit_1_iff)
  then show ?thesis by (simp add: has_def)
qed

lemma has_or: "f \<noteq> 0 \<Longrightarrow> has (fl OR f) f"
proof -
  have "(fl OR f) AND f = f" by (rule bit_word_eqI) (auto simp: bit_simps)
  then show "f \<noteq> 0 \<Longrightarrow> ?thesis" by (simp add: has_def)
qed

lemma has_clear: "\<not> has (fl AND NOT f) f"
proof -
  have "(fl AND NOT f) AND f = 0" by (rule bit_word_eqI) (auto simp: bit_simps)
  then show ?thesis by (simp add: has_def)
qed

lemma del_cent_rrset_by_index_ok:
  assumes ok: "cent_ok c" and l: "linked F a c l" and i: "i < NRRTOT"
  shows "ok (del_cent_rrset_by_index c i l) (\<lambda>(rv, c', l'). cent_ok c' \<and> linked F a c' l' \<and>
    rr c' = (rr c)(i := None) \<and> rv = opt_size (rr c i) \<and> cs c' + rv = cs c \<and> qname c' = qname c \<and> is_neg c' = is_neg c \<and>
    l' = filter (\<lambda>e. e \<notin> slot_node a i (rr c i)) l \<and> ext_size c' = ext_size c \<and>
    cflags c' = (if rr c i = None then cflags c else cflags c AND NOT DF_AUTH) \<and> c_ns c' = c_ns c \<and> c_soa c' = c_soa c \<and>
    (is_Neg (body c) \<longrightarrow> body c' = body c) \<and> length (slots c') = length (slots c))"
proof (cases "rr c i")
  case None
  then show ?thesis
    using assms RRARR_INDEX_TESTEXT_eq [of c i]
    by (auto simp: del_cent_rrset_by_index_def cent_ok_def opt_size_def slot_node_def fun_eq_iff)
next
  case (Some rs)
  have shape: "shape_ok c" using ok by (simp add: cent_ok_def)
  have il: "i < length (slots c)" using Some by (auto simp: rr_def split: if_splits)
  have nneg: "\<not> is_Neg (body c)" "\<not> is_neg c"
    using il shape by (auto simp: slots_def shape_ok_def split: cent_body.splits)
  have "slot_node a i (rr c i) \<subseteq> set l" using slot_nodes_in [OF nneg(1)] l by (auto simp: linked_def)
  then have d: "del_rrset rs l = Some (rrset_size rs, filter (\<lambda>e. e \<notin> slot_node a i (rr c i)) l)"
    using del_rrset_ok l Some by (simp add: linked_def)
  obtain c1 where c1: "RRARR_set c i None = Some c1" "slots c1 = (slots c)[i := None]" "shape_ok c1" "ext_size c1 = ext_size c"
    "c1 = c\<lparr>body := body c1\<rparr>" "is_Neg (body c1) = is_Neg (body c)"
    using RRARR_set_eq [OF shape il] by metis
  have f1: "cs c1 = cs c" "num_rrs c1 = num_rrs c" "qname c1 = qname c" "cflags c1 = cflags c" "c_ns c1 = c_ns c" "c_soa c1 = c_soa c"
    using c1(5) by (metis dns_cent.select_convs dns_cent.surjective dns_cent.update_convs(5))+
  have "opt_size (rr c i) \<le> tot opt_size c" "opt_count (rr c i) \<le> tot opt_count c"
    using tot_update [OF c1(2) il, of opt_size] tot_update [OF c1(2) il, of opt_count]
    by (simp_all add: opt_size_def opt_count_def)
  then have le: "rrset_size rs \<le> cs c" "1 \<le> num_rrs c"
    using ok Some by (auto simp: cent_ok_def opt_size_def opt_count_def)
  define c' where "c' = c1\<lparr>num_rrs := num_rrs c - 1, cs := cs c - rrset_size rs, cflags := cflags c AND NOT DF_AUTH\<rparr>"
  have res: "del_cent_rrset_by_index c i l = Some (rrset_size rs, c', filter (\<lambda>e. e \<notin> slot_node a i (rr c i)) l)"
    using RRARR_INDEX_TESTEXT_eq [OF shape i] Some d c1(1) le by (simp add: del_cent_rrset_by_index_def f1 c'_def)
  have c'f: "slots c' = (slots c)[i := None]" "shape_ok c'" "ext_size c' = ext_size c" "qname c' = qname c" "body c' = body c1"
    "is_neg c' = is_neg c"
    using c1 f1 has_clear_other by (auto simp: c'_def slots_def shape_ok_def ext_size_def is_neg_def split: cent_body.splits)
  have rr': "rr c' = (rr c)(i := None)" using rr_update [OF c'f(1) il] .
  have "cent_ok c'"
    by (rule cent_ok_update [OF ok il c'f(1-4)]) (use le Some in \<open>simp_all add: c'_def opt_size_def opt_count_def\<close>)
  moreover have "nodes a c' = nodes a c - slot_node a i (rr c i)"
    using nodes_update [of c c' i None a] nneg c1(6) c'f(5) rr' by (simp add: slot_node_def)
  then have "linked F a c' (filter (\<lambda>e. e \<notin> slot_node a i (rr c i)) l)"
    using l lcent_slot_node by (auto simp: linked_def distinct_filter_nodes)
  ultimately show ?thesis
    unfolding res using rr' c'f Some le nneg f1 by (simp add: opt_size_def c'_def)
qed

text \<open>The nodes of a part of the record sets, from index \<open>k\<close> on.\<close>

fun list_nodes :: "nat \<Rightarrow> nat \<Rightarrow> rr_set option list \<Rightarrow> rr_lent set" where
  "list_nodes a k [] = {}"
| "list_nodes a k (r # rss) = slot_node a k r \<union> list_nodes a (Suc k) rss"

lemma list_nodes_append: "list_nodes a k (xs @ ys) = list_nodes a k xs \<union> list_nodes a (k + length xs) ys"
  by (induction xs arbitrary: k) auto

lemma list_nodes_idx: "e \<in> list_nodes a k rss \<Longrightarrow> int k \<le> lidx e"
  by (induction rss arbitrary: k) (fastforce dest: lcent_slot_node)+

lemma list_nodes_iff: "e \<in> list_nodes a k rss \<longleftrightarrow> (\<exists>i < length rss. e \<in> slot_node a (k + i) (rss ! i))"
proof (induction rss arbitrary: k)
  case (Cons r rss)
  show ?case
    unfolding list_nodes.simps Un_iff Cons.IH by (auto simp: less_Suc_eq_0_disj)
qed simp

lemma nodes_list: "\<not> is_Neg (body c) \<Longrightarrow> nodes a c = list_nodes a 0 (slots c)"
  by (auto simp: nodes_def list_nodes_iff rr_def slot_node_def split: cent_body.splits if_splits)

lemma del_rrsets_ok:
  assumes "distinct (map lnode l)" and "list_nodes a k rss \<subseteq> set l"
  shows "del_rrsets rss l = Some (sum_list (map opt_size rss), filter (\<lambda>e. e \<notin> list_nodes a k rss) l)"
  using assms
proof (induction rss arbitrary: k l)
  case (Cons r rss)
  show ?case
  proof (cases r)
    case None
    with Cons.IH [of l "Suc k"] Cons.prems show ?thesis by (simp add: slot_node_def opt_size_def)
  next
    case (Some rs)
    let ?l = "filter (\<lambda>e. e \<notin> slot_node a k (Some rs)) l"
    have "del_rrset rs l = Some (rrset_size rs, ?l)"
      using del_rrset_ok [of l a k rs] Cons.prems Some by simp
    moreover have "list_nodes a (Suc k) rss \<subseteq> set ?l"
      using Cons.prems(2) list_nodes_idx [of _ a "Suc k" rss] lcent_slot_node by fastforce
    ultimately show ?thesis
      using Cons.IH [of ?l "Suc k"] Cons.prems Some by (simp add: distinct_filter_nodes opt_size_def conj_commute)
  qed
qed simp

lemma remove_neg:
  assumes "distinct (map lnode l)" and "neg_node a le \<subseteq> set l"
  shows "(case le of None \<Rightarrow> Some l | Some n \<Rightarrow> remove_rrl n l) = Some (filter (\<lambda>e. e \<notin> neg_node a le) l)"
  using assms remove_rrl_ok [OF assms(1)] by (cases le) (force simp: neg_node_def)+

lemma del_body:
  assumes "distinct (map lnode l)" and "list_nodes a 0 (mu @ e) \<subseteq> set l"
  obtains l1 where "del_rrsets mu l = Some (sum_list (map opt_size mu), l1)"
    "del_rrsets e l1 = Some (sum_list (map opt_size e), filter (\<lambda>x. x \<notin> list_nodes a 0 (mu @ e)) l)"
proof
  let ?l = "filter (\<lambda>x. x \<notin> list_nodes a 0 mu) l"
  show "del_rrsets mu l = Some (sum_list (map opt_size mu), ?l)"
    using assms by (intro del_rrsets_ok) (auto simp: list_nodes_append)
  have "list_nodes a (length mu) e \<inter> list_nodes a 0 mu = {}"
    by (auto simp: list_nodes_iff dest!: lcent_slot_node)
  then have "list_nodes a (length mu) e \<subseteq> set ?l" using assms(2) by (auto simp: list_nodes_append)
  then show "del_rrsets e ?l = Some (sum_list (map opt_size e), filter (\<lambda>x. x \<notin> list_nodes a 0 (mu @ e)) l)"
    using del_rrsets_ok [of ?l a "length mu" e] assms(1)
    by (simp add: distinct_filter_nodes list_nodes_append conj_commute)
qed

lemma del_rrsets_Nil: "del_rrsets [] l = Some (0, l)"
  by simp

lemma free_cent_ok:
  assumes "shape_ok c" and "linked F a c l"
  shows "free_cent c l = Some (filter (\<lambda>e. e \<notin> nodes a c) l)"
proof (cases "is_neg c")
  case True
  then obtain le t s where b: "body c = Neg le t s" using shape_Neg assms(1) by blast
  then show ?thesis
    using remove_neg [of l a le] assms(2) True by (simp add: free_cent_def nodes_def linked_def)
next
  case False
  then obtain mu ext where b: "body c = RR mu ext" using shape_RR assms(1) by blast
  define e where "e = (case ext of None \<Rightarrow> [] | Some e \<Rightarrow> e)"
  have s: "slots c = mu @ e" "nodes a c = list_nodes a 0 (mu @ e)"
    using nodes_list [of c a] b by (auto simp: slots_def e_def)
  obtain l1 where "del_rrsets mu l = Some (sum_list (map opt_size mu), l1)"
    "del_rrsets e l1 = Some (sum_list (map opt_size e), filter (\<lambda>x. x \<notin> list_nodes a 0 (mu @ e)) l)"
    using del_body [of l a mu e] assms(2) s unfolding linked_def by blast
  with b False s show ?thesis by (cases ext) (auto simp: free_cent_def e_def)
qed

lemma negate_cent_ok:
  assumes ok: "cent_ok c" and l: "linked F a c l"
  shows "ok (negate_cent c ttl0 ts0 l) (\<lambda>(c', l'). cent_ok c' \<and> linked F a c' l' \<and> is_neg c' \<and> qname c' = qname c \<and>
    rr c' = (\<lambda>_. None) \<and> body c' = Neg (if is_neg c then neg_lent (body c) else None) ttl0 ts0 \<and>
    cs c' = sizeof_dns_cent + length (qname c) \<and> cflags c' = cflags c OR DF_NEGATIVE)"
proof (cases "is_neg c")
  case True
  then obtain le t s where b: "body c = Neg le t s" using shape_Neg ok unfolding cent_ok_def by blast
  have "cflags c OR DF_NEGATIVE = cflags c"
    using True by (intro bit_word_eqI) (auto simp: bit_simps is_neg_def has_def DF_NEGATIVE_def bit_1_iff and_one_eq bit_0 even_iff_mod_2_eq_zero)
  with True b ok l show ?thesis
    by (auto simp: negate_cent_def cent_ok_def shape_ok_def is_neg_def ext_size_def tot_def slots_def linked_def nodes_def rr_def)
next
  case False
  then obtain mu ext where b: "body c = RR mu ext" using shape_RR ok unfolding cent_ok_def by blast
  define e where "e = (case ext of None \<Rightarrow> [] | Some e \<Rightarrow> e)"
  have s: "slots c = mu @ e" "nodes a c = list_nodes a 0 (mu @ e)"
    using nodes_list [of c a] b by (auto simp: slots_def e_def)
  obtain l1 where d: "del_rrsets mu l = Some (sum_list (map opt_size mu), l1)"
    "del_rrsets e l1 = Some (sum_list (map opt_size e), filter (\<lambda>x. x \<notin> nodes a c) l)"
    using del_body [of l a mu e] l s unfolding linked_def by auto
  have neg: "has (cflags c OR DF_NEGATIVE) DF_NEGATIVE"
    by (rule has_or) (simp add: DF_NEGATIVE_def)
  have "linked F a (c\<lparr>cs := sz, num_rrs := 0, cflags := cflags c OR DF_NEGATIVE, body := Neg None ttl0 ts0\<rparr>)
    (filter (\<lambda>x. x \<notin> nodes a c) l)" for sz
    using l lcent_nodes [of _ a c] by (auto simp: linked_def distinct_filter_nodes nodes_def [of a "c\<lparr>cs := sz, num_rrs := 0, cflags := cflags c OR DF_NEGATIVE, body := Neg None ttl0 ts0\<rparr>"] neg_node_def)
  then show ?thesis
    using b False s d neg ok
    by (cases ext) (auto simp: negate_cent_def e_def cent_ok_def ext_size_def tot_def ok_simps shape_ok_def is_neg_def
        slots_def rr_def fun_eq_iff)
qed

lemma unnegate_ok:
  assumes ok: "cent_ok c" and l: "linked F a c l"
  shows "ok (unnegate c l) (\<lambda>(c', l'). cent_ok c' \<and> linked F a c' l' \<and> \<not> is_neg c' \<and> rr c' = rr c \<and>
    qname c' = qname c \<and> cflags c' = cflags c AND NOT DF_NEGATIVE \<and> c_ns c' = c_ns c \<and> c_soa c' = c_soa c \<and>
    l' = filter (\<lambda>e. e \<notin> nodes a c \<or> e \<in> nodes a c') l \<and> (\<not> is_neg c \<longrightarrow> c' = c) \<and> cs c' = cs c)"
proof (cases "is_neg c")
  case False
  then have "cflags c AND NOT DF_NEGATIVE = cflags c"
    by (intro bit_word_eqI) (auto simp: bit_simps is_neg_def has_def DF_NEGATIVE_def bit_1_iff and_one_eq bit_0 even_iff_mod_2_eq_zero)
  moreover have "filter (\<lambda>e. e \<notin> nodes a c \<or> e \<in> nodes a c) l = l" by (intro filter_True) auto
  ultimately show ?thesis using False assms by (simp add: unnegate_def)
next
  case True
  then obtain le t s where b: "body c = Neg le t s" using shape_Neg ok unfolding cent_ok_def by blast
  let ?c = "c\<lparr>cflags := cflags c AND NOT DF_NEGATIVE, body := empty_rr\<rparr>"
  have nodes: "nodes a c = neg_node a le" "nodes a ?c = {}"
    using b by (auto simp: nodes_def empty_rr_def rr_def slots_def slot_node_def)
  have "linked F a ?c (filter (\<lambda>e. e \<notin> neg_node a le) l)"
    using l nodes by (auto simp: linked_def distinct_filter_nodes neg_node_def split: option.splits)
  moreover have "(case le of None \<Rightarrow> Some l | Some n \<Rightarrow> remove_rrl n l) = Some (filter (\<lambda>e. e \<notin> neg_node a le) l)"
    using remove_neg [of l a le] l nodes by (simp add: linked_def)
  moreover have "cent_ok ?c" "rr ?c = rr c" "\<not> is_neg ?c"
    using ok b has_clear [of "cflags c" DF_NEGATIVE]
    by (auto simp: cent_ok_def shape_ok_def is_neg_def empty_rr_def nrr_defs ext_size_def tot_def slots_def opt_size_def
        opt_count_def rr_def fun_eq_iff)
  ultimately show ?thesis using True b nodes by (simp add: unnegate_def)
qed

lemma ensure_ext_ok:
  assumes ok: "cent_ok c" and l: "linked F a c l" and nneg: "\<not> is_neg c" and i: "idx < NRRTOT"
  shows "ok (ensure_ext c idx al) (\<lambda>(r, c', al'). cent_ok c' \<and> linked F a c' l \<and> \<not> is_neg c' \<and> rr c' = rr c \<and>
    qname c' = qname c \<and> cflags c' = cflags c \<and> c_ns c' = c_ns c \<and> c_soa c' = c_soa c \<and> nodes a c' = nodes a c \<and>
    (r \<longrightarrow> idx < length (slots c')) \<and> (al = [] \<longrightarrow> r \<and> al' = []))"
proof -
  obtain mu ext where b: "body c = RR mu ext" "length mu = 8" "ext \<noteq> None \<Longrightarrow> length (the ext) = 39"
    using shape_RR ok nneg unfolding cent_ok_def by blast
  show ?thesis
  proof (cases "idx < 8 \<or> ext \<noteq> None")
    case True
    then have "idx < length (slots c)" using b i by (auto simp: slots_def nrr_defs)
    with True b assms show ?thesis by (auto simp: ensure_ext_def nrr_defs ok_simps split: option.splits)
  next
    case False
    then have e: "ext = None" "\<not> idx < 8" by auto
    let ?c = "c\<lparr>body := RR mu (Some (replicate NRREXT None)), cs := cs c + sizeof_rrext\<rparr>"
    have rr: "rr ?c = rr c" using b e by (auto simp: rr_def slots_def fun_eq_iff nth_append)
    then have nodes: "nodes a ?c = nodes a c" using b by (simp add: nodes_def)
    have "cent_ok ?c" using ok b e nneg
      by (auto simp: cent_ok_def shape_ok_def is_neg_def nrr_defs ext_size_def tot_def slots_def opt_size_def opt_count_def sum_list_replicate)
    moreover have "linked F a ?c l" using l nodes by (simp add: linked_def)
    moreover have "idx < length (slots ?c)" using b i by (simp add: slots_def nrr_defs)
    moreover obtain mem al' where m: "malloc al = (mem, al')" by (cases "malloc al")
    moreover have "al = [] \<Longrightarrow> mem \<and> al' = []" using m by auto
    ultimately show ?thesis
      using b e rr nodes assms by (auto simp: ensure_ext_def nrr_defs is_neg_def ok_simps)
  qed
qed

text \<open>Adding an empty record set in a free place.\<close>

definition new_rrset :: "int \<Rightarrow> int \<Rightarrow> 16 word \<Rightarrow> rr_set" where
  "new_rrset ttl0 ts0 fl = \<lparr>lent = None, ttl = ttl0, ts = ts0, flags = fl, rrs = []\<rparr>"

lemma add_cent_rrset_by_index_ok:
  assumes ok: "cent_ok c" and l: "linked F a c l" and i: "idx < NRRTOT" and free: "rr c idx = None"
  shows "ok (add_cent_rrset_by_index c idx ttl0 ts0 fl l al) (\<lambda>(r, c', l', al'). cent_ok c' \<and> linked F a c' l' \<and>
    \<not> is_neg c' \<and> rr c' = (if r then (rr c)(idx := Some (new_rrset ttl0 ts0 fl)) else rr c) \<and>
    qname c' = qname c \<and> cflags c' = cflags c AND NOT DF_NEGATIVE \<and> c_ns c' = c_ns c \<and> c_soa c' = c_soa c \<and>
    (r \<longrightarrow> idx < length (slots c')) \<and> l' = filter (\<lambda>e. e \<notin> nodes a c \<or> e \<in> nodes a c') l \<and> (al = [] \<longrightarrow> r \<and> al' = []))"
proof -
  from unnegate_ok [OF ok l] obtain c1 l1 where u: "unnegate c l = Some (c1, l1)" and
    c1: "cent_ok c1" "linked F a c1 l1" "\<not> is_neg c1" "rr c1 = rr c" "qname c1 = qname c"
      "cflags c1 = cflags c AND NOT DF_NEGATIVE" "c_ns c1 = c_ns c" "c_soa c1 = c_soa c"
      "l1 = filter (\<lambda>e. e \<notin> nodes a c \<or> e \<in> nodes a c1) l"
    by (auto elim!: okE)
  from ensure_ext_ok [OF c1(1,2,3) i, of al] obtain r c2 al2 where e: "ensure_ext c1 idx al = Some (r, c2, al2)" and
    c2: "cent_ok c2" "linked F a c2 l1" "\<not> is_neg c2" "rr c2 = rr c1" "qname c2 = qname c1" "cflags c2 = cflags c1"
      "c_ns c2 = c_ns c1" "c_soa c2 = c_soa c1" "nodes a c2 = nodes a c1" "r \<longrightarrow> idx < length (slots c2)" "al = [] \<longrightarrow> r \<and> al2 = []"
    by (auto elim!: okE)
  obtain mem al3 where m: "malloc al2 = (mem, al3)" by (cases "malloc al2")
  have m0: "al2 = [] \<Longrightarrow> mem \<and> al3 = []" using m by auto
  show ?thesis
  proof (cases r)
    case False
    then show ?thesis using u e c1 c2 by (simp add: add_cent_rrset_by_index_def)
  next
    case True
    have sh: "shape_ok c2" using c2(1) by (simp add: cent_ok_def)
    have il: "idx < length (slots c2)" using c2 True by simp
    define x where "x = (if mem then Some (new_rrset ttl0 ts0 fl) else None)"
    obtain c3 where c3: "RRARR_set c2 idx x = Some c3" "slots c3 = (slots c2)[idx := x]" "shape_ok c3"
      "ext_size c3 = ext_size c2" "c3 = c2\<lparr>body := body c3\<rparr>" "is_Neg (body c3) = is_Neg (body c2)"
      using RRARR_set_eq [OF sh il] by metis
    have f3: "cs c3 = cs c2" "num_rrs c3 = num_rrs c2" "qname c3 = qname c2" "cflags c3 = cflags c2" "c_ns c3 = c_ns c2" "c_soa c3 = c_soa c2"
      using c3(5) by (metis dns_cent.select_convs dns_cent.surjective dns_cent.update_convs(5))+
    define c' where "c' = (if mem then c3\<lparr>cs := cs c3 + sizeof_rr_set, num_rrs := num_rrs c3 + 1\<rparr> else c3)"
    have res: "add_cent_rrset_by_index c idx ttl0 ts0 fl l al = Some (mem, c', l1, al3)"
      using u e m True c3(1) by (auto simp: add_cent_rrset_by_index_def c'_def x_def new_rrset_def)
    have b': "body c' = body c3" and s': "slots c' = slots c3" "ext_size c' = ext_size c3" "shape_ok c'" and q': "qname c' = qname c2"
      using c3(3) f3 by (auto simp: c'_def slots_def ext_size_def shape_ok_def is_neg_def split: cent_body.splits)
    have rr': "rr c' = (rr c2)(idx := x)" using rr_update [of c' c2 idx x] c3(2) s' il by simp
    have "cent_ok c'"
      by (rule cent_ok_update [OF c2(1) il, of c' x])
        (use c3 s' q' f3 free c2(4) c1(4) in \<open>auto simp: c'_def x_def opt_size_def opt_count_def new_rrset_def rrset_size_def\<close>)
    moreover have nn: "\<not> is_Neg (body c2)" using sh c2(3) by (auto simp: shape_ok_def split: cent_body.splits)
    have "nodes a c' = nodes a c2"
      using nodes_update [OF nn _ rr', of a] c3(6) b' nn free c2(4) c1(4) by (simp add: slot_node_def x_def new_rrset_def)
    moreover have "\<not> is_neg c'" using s'(3) b' c3(6) nn by (auto simp: shape_ok_def split: cent_body.splits)
    ultimately show ?thesis
      unfolding res using c1 c2 f3 rr' q' s' il c3(2) m0 free True
      by (auto simp: linked_def c'_def x_def fun_eq_iff)
  qed
qed

text \<open>Replacing a record set by one with the same list node.\<close>

lemma set_rrset_ok:
  assumes ok: "cent_ok c" and l: "linked F a c l" and rs: "rr c i = Some rs" and rs': "lent rs' = lent rs"
    and n: "rrset_size rs' = rrset_size rs + n"
  obtains c' where "RRARR_set c i (Some rs') = Some c'" "cent_ok (c'\<lparr>cs := cs c' + n\<rparr>)" "linked F a (c'\<lparr>cs := cs c' + n\<rparr>) l"
    "rr (c'\<lparr>cs := cs c' + n\<rparr>) = (rr c)(i := Some rs')" "qname c' = qname c" "cflags c' = cflags c" "c_ns c' = c_ns c"
    "c_soa c' = c_soa c" "nodes a (c'\<lparr>cs := cs c' + n\<rparr>) = nodes a c" "length (slots c') = length (slots c)"
proof -
  have sh: "shape_ok c" using ok by (simp add: cent_ok_def)
  have il: "i < length (slots c)" using rs by (auto simp: rr_def split: if_splits)
  have nn: "\<not> is_Neg (body c)" using il by (auto simp: slots_def split: cent_body.splits)
  obtain c1 where c1: "RRARR_set c i (Some rs') = Some c1" "slots c1 = (slots c)[i := Some rs']" "shape_ok c1" "ext_size c1 = ext_size c"
    "c1 = c\<lparr>body := body c1\<rparr>" "is_Neg (body c1) = is_Neg (body c)"
    using RRARR_set_eq [OF sh il] by metis
  have f1: "cs c1 = cs c" "num_rrs c1 = num_rrs c" "qname c1 = qname c" "cflags c1 = cflags c" "c_ns c1 = c_ns c" "c_soa c1 = c_soa c"
    using c1(5) by (metis dns_cent.select_convs dns_cent.surjective dns_cent.update_convs(5))+
  let ?c = "c1\<lparr>cs := cs c1 + n\<rparr>"
  have c': "slots ?c = slots c1" "ext_size ?c = ext_size c" "shape_ok ?c" "body ?c = body c1"
    using c1(3,4) by (auto simp: slots_def ext_size_def shape_ok_def is_neg_def split: cent_body.splits)
  have rr': "rr ?c = (rr c)(i := Some rs')" using rr_update [of ?c c i] c1(2) c'(1) il by simp
  have okc: "cent_ok ?c"
    by (rule cent_ok_update [OF ok il, of ?c "Some rs'"])
      (use c'(1-3) c1(2) f1(1-3) rs n in \<open>simp_all add: opt_size_def opt_count_def\<close>)
  have nodes: "nodes a ?c = nodes a c"
  proof -
    have "slot_node a i (Some rs') = slot_node a i (rr c i)" using rs rs' by (simp add: slot_node_def)
    then show ?thesis
      using nodes_update [OF nn _ rr', of a] c1(6) c'(4) nn slot_nodes_in [OF nn, of a i] by auto
  qed
  have lk: "linked F a ?c l" using l nodes by (simp add: linked_def)
  have "length (slots c1) = length (slots c)" using c1(2) by simp
  then show thesis by (rule that [OF c1(1) okc lk rr' f1(3-6) nodes])
qed

lemma link_rr_size:
  assumes "link_rr bs rtail d = Some (bs', k)"
  shows "sum_list (map (\<lambda>b. f b) bs') = sum_list (map f bs) + (f d :: nat)"
proof (cases rtail)
  case (Some j)
  with assms have j: "bs' = take (j + 1) bs @ d # drop (j + 1) bs" by (auto simp: link_rr_def split: if_splits)
  have "sum_list (map f bs) = sum_list (map f (take (j + 1) bs)) + sum_list (map f (drop (j + 1) bs))"
    by (metis append_take_drop_id map_append sum_list_append)
  then show ?thesis unfolding j by simp
qed (use assms in \<open>auto simp: link_rr_def\<close>)

text \<open>Adding a record: behind the bucket \<open>rtail\<close> of an existing record set, or to a new record set.\<close>

definition old_rrset :: "dns_cent \<Rightarrow> nat \<Rightarrow> int \<Rightarrow> int \<Rightarrow> 16 word \<Rightarrow> rr_set" where
  "old_rrset c idx ttl0 ts0 fl = (case rr c idx of None \<Rightarrow> new_rrset ttl0 ts0 fl | Some rs \<Rightarrow> rs)"

lemma add_cent_rr_int_ok:
  assumes ok: "cent_ok c" and l: "linked F a c l" and i: "idx < NRRTOT"
    and tail: "link_rr (rrs (old_rrset c idx ttl0 ts0 fl)) rtail d = Some (bs, k)"
  shows "ok (add_cent_rr_int c idx ttl0 ts0 fl d rtail l al) (\<lambda>(r, rt, c', l', al'). cent_ok c' \<and> linked F a c' l' \<and>
    (r \<longrightarrow> rr c' = (rr c)(idx := Some ((old_rrset c idx ttl0 ts0 fl)\<lparr>rrs := bs\<rparr>)) \<and> rt = Some k) \<and>
    (\<not> r \<longrightarrow> rr c' = rr c) \<and>
    qname c' = qname c \<and> c_ns c' = c_ns c \<and> c_soa c' = c_soa c \<and> (r \<longrightarrow> \<not> is_neg c') \<and>
    (rr c idx \<noteq> None \<longrightarrow> cflags c' = cflags c \<and> nodes a c' = nodes a c \<and> l' = l) \<and>
    (cflags c' = cflags c \<or> cflags c' = cflags c AND NOT DF_NEGATIVE) \<and>
    l' = filter (\<lambda>e. e \<notin> nodes a c \<or> e \<in> nodes a c') l \<and>
    (al = [] \<longrightarrow> r \<and> al' = []))"
proof -
  have sh: "shape_ok c" using ok by (simp add: cent_ok_def)
  note idx = RRARR_INDEX_TESTEXT_eq [OF sh i]
  obtain mem al1 where m: "malloc al = (mem, al1)" by (cases "malloc al")
  have m0: "al = [] \<Longrightarrow> mem \<and> al1 = []" using m by auto
  have all: "filter (\<lambda>e. e \<notin> nodes a c \<or> e \<in> nodes a c) l = l" by (intro filter_True) auto
  have size: "rrset_size (rs\<lparr>rrs := bs\<rparr>) = rrset_size rs + (sizeof_rr_bucket + length d)"
    if "rrs rs = rrs (old_rrset c idx ttl0 ts0 fl)" for rs
    using link_rr_size [OF tail, of "\<lambda>b. sizeof_rr_bucket + length b"] that by (simp add: rrset_size_def)
  show ?thesis
  proof (cases mem)
    case False
    then show ?thesis using ok l m m0 all by (auto simp: add_cent_rr_int_def)
  next
    case mem: True
    show ?thesis
    proof (cases "rr c idx")
      case (Some rs)
      have old: "old_rrset c idx ttl0 ts0 fl = rs" using Some by (simp add: old_rrset_def)
      have il: "idx < length (slots c)" using Some by (auto simp: rr_def split: if_splits)
      have nneg: "\<not> is_neg c" using rr_neg [OF sh, of idx] Some by auto
      obtain c1 where c1: "RRARR_set c idx (Some (rs\<lparr>rrs := bs\<rparr>)) = Some c1"
        "cent_ok (c1\<lparr>cs := cs c1 + (sizeof_rr_bucket + length d)\<rparr>)"
        "linked F a (c1\<lparr>cs := cs c1 + (sizeof_rr_bucket + length d)\<rparr>) l"
        "rr (c1\<lparr>cs := cs c1 + (sizeof_rr_bucket + length d)\<rparr>) = (rr c)(idx := Some (rs\<lparr>rrs := bs\<rparr>))"
        "qname c1 = qname c" "cflags c1 = cflags c" "c_ns c1 = c_ns c" "c_soa c1 = c_soa c"
        "nodes a (c1\<lparr>cs := cs c1 + (sizeof_rr_bucket + length d)\<rparr>) = nodes a c"
      proof -
        have "lent (rs\<lparr>rrs := bs\<rparr>) = lent rs" "rrset_size (rs\<lparr>rrs := bs\<rparr>) = rrset_size rs + (sizeof_rr_bucket + length d)"
          using size [of rs] old by simp_all
        from set_rrset_ok [OF ok l Some this] show thesis using that by blast
      qed
      have "add_cent_rr_int c idx ttl0 ts0 fl d rtail l al =
        Some (True, Some k, c1\<lparr>cs := cs c1 + (sizeof_rr_bucket + length d)\<rparr>, l, al1)"
        using m mem idx Some RRARR_INDEX_eq [OF sh il] tail old c1(1) by (auto simp: add_cent_rr_int_def)
      with c1 nneg m0 old Some all show ?thesis by (auto simp: is_neg_def)
    next
      case None
      from None have tl: "rtail = None" using tail by (auto simp: link_rr_def old_rrset_def new_rrset_def split: option.splits if_splits)
      from add_cent_rrset_by_index_ok [OF ok l i None, of ttl0 ts0 fl al1] obtain r c1 l1 al2 where
        add: "add_cent_rrset_by_index c idx ttl0 ts0 fl l al1 = Some (r, c1, l1, al2)" and
        c1: "cent_ok c1" "linked F a c1 l1" "\<not> is_neg c1" "rr c1 = (if r then (rr c)(idx := Some (new_rrset ttl0 ts0 fl)) else rr c)"
          "qname c1 = qname c" "cflags c1 = cflags c AND NOT DF_NEGATIVE" "c_ns c1 = c_ns c" "c_soa c1 = c_soa c"
          "r \<longrightarrow> idx < length (slots c1)" "l1 = filter (\<lambda>e. e \<notin> nodes a c \<or> e \<in> nodes a c1) l" "al1 = [] \<longrightarrow> r \<and> al2 = []"
        by (auto elim!: okE)
      show ?thesis
      proof (cases r)
        case False
        then have "add_cent_rr_int c idx ttl0 ts0 fl d rtail l al = Some (False, rtail, c1, l1, al2)"
          using m mem idx None tl add by (simp add: add_cent_rr_int_def)
        with False c1 m0 None show ?thesis by auto
      next
        case True
        let ?rs = "new_rrset ttl0 ts0 fl"
        have old: "old_rrset c idx ttl0 ts0 fl = ?rs" using None by (simp add: old_rrset_def)
        have sh1: "shape_ok c1" using c1(1) by (simp add: cent_ok_def)
        have rr1: "rr c1 idx = Some ?rs" using c1(4) True by simp
        obtain c2 where c2: "RRARR_set c1 idx (Some (?rs\<lparr>rrs := bs\<rparr>)) = Some c2"
          "cent_ok (c2\<lparr>cs := cs c2 + (sizeof_rr_bucket + length d)\<rparr>)"
          "linked F a (c2\<lparr>cs := cs c2 + (sizeof_rr_bucket + length d)\<rparr>) l1"
          "rr (c2\<lparr>cs := cs c2 + (sizeof_rr_bucket + length d)\<rparr>) = (rr c1)(idx := Some (?rs\<lparr>rrs := bs\<rparr>))"
          "qname c2 = qname c1" "cflags c2 = cflags c1" "c_ns c2 = c_ns c1" "c_soa c2 = c_soa c1"
          "nodes a (c2\<lparr>cs := cs c2 + (sizeof_rr_bucket + length d)\<rparr>) = nodes a c1"
        proof -
          have "lent (?rs\<lparr>rrs := bs\<rparr>) = lent ?rs" "rrset_size (?rs\<lparr>rrs := bs\<rparr>) = rrset_size ?rs + (sizeof_rr_bucket + length d)"
            using size [of ?rs] old by simp_all
          from set_rrset_ok [OF c1(1,2) rr1 this] show thesis using that by blast
        qed
        have "add_cent_rr_int c idx ttl0 ts0 fl d rtail l al =
          Some (True, Some k, c2\<lparr>cs := cs c2 + (sizeof_rr_bucket + length d)\<rparr>, l1, al2)"
          using m mem idx None tl add True RRARR_INDEX_eq [OF sh1] c1(9) rr1 tail old c2(1)
          by (simp add: add_cent_rr_int_def)
        with c1 c2 True m0 None old show ?thesis by (auto simp: is_neg_def fun_eq_iff)
      qed
    qed
  qed
qed

text \<open>The record set after adding the record \<open>d\<close>: the smaller time to live, and \<open>d\<close> at the end unless it is there.\<close>

definition rrset_add :: "rr_set \<Rightarrow> int \<Rightarrow> bytes \<Rightarrow> rr_set" where
  "rrset_add rs ttl0 d = rs\<lparr>ttl := min (ttl rs) ttl0, rrs := if d \<in> set (rrs rs) then rrs rs else rrs rs @ [d]\<rparr>"

lemma lower_ttl_ok:
  assumes ok: "cent_ok c" and l: "linked F a c l" and rs: "rr c i = Some rs"
  obtains c' where "(if ttl0 < ttl rs then RRARR_set c i (Some (rs\<lparr>ttl := ttl0\<rparr>)) else Some c) = Some c'" "cent_ok c'"
    "linked F a c' l" "rr c' = (rr c)(i := Some (rs\<lparr>ttl := min (ttl rs) ttl0\<rparr>))" "qname c' = qname c" "cflags c' = cflags c"
    "nodes a c' = nodes a c" "c_ns c' = c_ns c" "c_soa c' = c_soa c"
proof (cases "ttl0 < ttl rs")
  case True
  have "lent (rs\<lparr>ttl := ttl0\<rparr>) = lent rs" "rrset_size (rs\<lparr>ttl := ttl0\<rparr>) = rrset_size rs + 0" by (simp_all add: rrset_size_def)
  from set_rrset_ok [OF ok l rs this] obtain c' where c': "RRARR_set c i (Some (rs\<lparr>ttl := ttl0\<rparr>)) = Some c'"
    "cent_ok (c'\<lparr>cs := cs c' + 0\<rparr>)" "linked F a (c'\<lparr>cs := cs c' + 0\<rparr>) l"
    "rr (c'\<lparr>cs := cs c' + 0\<rparr>) = (rr c)(i := Some (rs\<lparr>ttl := ttl0\<rparr>))" "qname c' = qname c" "cflags c' = cflags c"
    "c_ns c' = c_ns c" "c_soa c' = c_soa c" "nodes a (c'\<lparr>cs := cs c' + 0\<rparr>) = nodes a c" by blast
  have "c'\<lparr>cs := cs c' + 0\<rparr> = c'" by simp
  with True c' show thesis by (intro that [of c']) simp_all
next
  case False
  then have "rs\<lparr>ttl := min (ttl rs) ttl0\<rparr> = rs" by simp
  with False assms show thesis by (intro that [of c]) (auto simp: fun_eq_iff)
qed

lemma cached_type:
  assumes "\<not> PDNSD_NOT_CACHED_TYPE tp"
  shows "T_MIN \<le> tp" "tp - T_MIN < T_NUM" "rd rrlkuptab (tp - T_MIN) = Some (rrlkuptab ! (tp - T_MIN))"
    "rrlkuptab ! (tp - T_MIN) < NRRTOT"
  using assms by (auto simp: PDNSD_NOT_CACHED_TYPE_def T_MIN_def T_MAX_def T_NUM_def length_rrlkuptab rd_def not_le)

lemma add_cent_rr_ok:
  assumes ok: "cent_ok c" and l: "linked F a c l" and tp: "\<not> PDNSD_NOT_CACHED_TYPE tp"
    and idx: "idx = rrlkuptab ! (tp - T_MIN)" and skip: "\<not> (has (cflags c) DF_LOCAL \<and> \<not> has fl CF_LOCAL)"
  shows "ok (add_cent_rr c tp ttl0 ts0 fl d l al) (\<lambda>(r, c', l', al'). cent_ok c' \<and> linked F a c' l' \<and>
    (r \<longrightarrow> rr c' = (rr c)(idx := Some (rrset_add (old_rrset c idx ttl0 ts0 fl) ttl0 d))) \<and>
    (\<not> r \<longrightarrow> rr c' = (rr c)(idx := map_option (\<lambda>rs. rs\<lparr>ttl := min (ttl rs) ttl0\<rparr>) (rr c idx))) \<and>
    qname c' = qname c \<and> c_ns c' = c_ns c \<and> c_soa c' = c_soa c \<and>
    (cflags c' = cflags c \<or> cflags c' = cflags c AND NOT DF_NEGATIVE) \<and>
    (l = [] \<longrightarrow> l' = []) \<and> (al = [] \<longrightarrow> r \<and> al' = []))"
proof -
  have sh: "shape_ok c" using ok by (simp add: cent_ok_def)
  have i: "idx < NRRTOT" using cached_type(4) [OF tp] idx by simp
  note R = RRARR_INDEX_TESTEXT_eq [OF sh i]
  define bs where "bs = (case rr c idx of None \<Rightarrow> [] | Some rs \<Rightarrow> rrs rs)"
  have "\<exists>c1. (case rr c idx of None \<Rightarrow> Some c | Some rs \<Rightarrow>
      if ttl0 < ttl rs then RRARR_set c idx (Some (rs\<lparr>ttl := ttl0\<rparr>)) else Some c) = Some c1 \<and> cent_ok c1 \<and> linked F a c1 l \<and>
    rr c1 = (rr c)(idx := map_option (\<lambda>rs. rs\<lparr>ttl := min (ttl rs) ttl0\<rparr>) (rr c idx)) \<and> qname c1 = qname c \<and>
    cflags c1 = cflags c \<and> c_ns c1 = c_ns c \<and> c_soa c1 = c_soa c"
  proof (cases "rr c idx")
    case (Some rs)
    show ?thesis unfolding Some option.case option.map by (rule lower_ttl_ok [OF ok l Some, of ttl0]) blast
  qed (use ok l in \<open>auto simp: fun_eq_iff\<close>)
  then obtain c1 where c1: "(case rr c idx of None \<Rightarrow> Some c | Some rs \<Rightarrow>
      if ttl0 < ttl rs then RRARR_set c idx (Some (rs\<lparr>ttl := ttl0\<rparr>)) else Some c) = Some c1" "cent_ok c1" "linked F a c1 l"
    "rr c1 = (rr c)(idx := map_option (\<lambda>rs. rs\<lparr>ttl := min (ttl rs) ttl0\<rparr>) (rr c idx))" "qname c1 = qname c"
    "cflags c1 = cflags c" "c_ns c1 = c_ns c" "c_soa c1 = c_soa c" by blast
  let ?rt = "if bs = [] then None else Some (length bs - 1)"
  have run: "add_cent_rr c tp ttl0 ts0 fl d l al = (if d \<in> set bs then Some (True, c1, l, al)
      else do { (r, rt, c, l, al) \<leftarrow> add_cent_rr_int c1 idx ttl0 ts0 fl d ?rt l al; Some (r, c, l, al) })"
    unfolding add_cent_rr_def if_not_P [OF skip]
    using cached_type [OF tp] R c1(1) by (cases "rr c idx") (simp_all add: idx [symmetric] bs_def cong: if_cong)
  show ?thesis
  proof (cases "d \<in> set bs")
    case True
    then obtain rs where rs: "rr c idx = Some rs" "rrs rs = bs" by (cases "rr c idx") (auto simp: bs_def)
    from True run have "add_cent_rr c tp ttl0 ts0 fl d l al = Some (True, c1, l, al)" by simp
    moreover have "rrset_add rs ttl0 d = rs\<lparr>ttl := min (ttl rs) ttl0\<rparr>"
      using rs(2) True by (cases rs) (simp add: rrset_add_def)
    ultimately show ?thesis using True rs c1(2-8) by (simp add: old_rrset_def)
  next
    case False
    have old: "rrs (old_rrset c1 idx ttl0 ts0 fl) = bs"
      using c1(4) by (cases "rr c idx") (auto simp: old_rrset_def bs_def new_rrset_def)
    have "link_rr bs ?rt d = Some (bs @ [d], length bs)" by (auto simp: link_rr_def)
    then have tail: "link_rr (rrs (old_rrset c1 idx ttl0 ts0 fl)) ?rt d = Some (bs @ [d], length bs)" by (simp only: old)
    from add_cent_rr_int_ok [OF c1(2,3) i tail, of al]
    obtain r rt c2 l2 al2 where add: "add_cent_rr_int c1 idx ttl0 ts0 fl d ?rt l al = Some (r, rt, c2, l2, al2)" and
      c2: "cent_ok c2" "linked F a c2 l2" "r \<longrightarrow> rr c2 = (rr c1)(idx := Some ((old_rrset c1 idx ttl0 ts0 fl)\<lparr>rrs := bs @ [d]\<rparr>))"
        "\<not> r \<longrightarrow> rr c2 = rr c1" "qname c2 = qname c1" "c_ns c2 = c_ns c1" "c_soa c2 = c_soa c1"
        "cflags c2 = cflags c1 \<or> cflags c2 = cflags c1 AND NOT DF_NEGATIVE"
        "l2 = filter (\<lambda>e. e \<notin> nodes a c1 \<or> e \<in> nodes a c2) l" "al = [] \<longrightarrow> r \<and> al2 = []"
      by (rule ok5E) blast
    have "(old_rrset c1 idx ttl0 ts0 fl)\<lparr>rrs := bs @ [d]\<rparr> = rrset_add (old_rrset c idx ttl0 ts0 fl) ttl0 d"
      using c1(4) False by (cases "rr c idx") (auto simp: old_rrset_def rrset_add_def bs_def new_rrset_def)
    moreover have "add_cent_rr c tp ttl0 ts0 fl d l al = Some (r, c2, l2, al2)" using run False add by simp
    ultimately show ?thesis using c1(2-8) c2 by simp
  qed
qed

text \<open>Copying.\<close>

definition unlinked :: "rr_set option \<Rightarrow> rr_set option" where
  "unlinked r = map_option (\<lambda>rs. rs\<lparr>lent := None\<rparr>) r"

lemma copy_rrs_mem: "copy_rrs bs [] = (True, [])"
  by (induction bs) auto

lemma copy_rrset_mem: "copy_rrset rs [] = (Some (rs\<lparr>lent := None\<rparr>), [])"
  by (simp add: copy_rrset_def copy_rrs_mem)

lemma copy_rrset_cases: "copy_rrset rs al = (r, al') \<Longrightarrow> r = None \<or> r = Some (rs\<lparr>lent := None\<rparr>)"
  by (auto simp: copy_rrset_def Let_def split: prod.splits if_splits)

lemma copy_rrsets_mem: "copy_rrsets rss [] = (Some (map unlinked rss), [])"
proof (induction rss)
  case (Cons r rss)
  then show ?case by (cases r) (auto simp: copy_rrset_mem unlinked_def)
qed simp

lemma copy_rrsets_cases: "copy_rrsets rss al = (r, al') \<Longrightarrow> r = None \<or> r = Some (map unlinked rss)"
proof (induction rss arbitrary: al r al')
  case (Cons x rss)
  then show ?case
    by (cases x) (fastforce simp: unlinked_def dest: copy_rrset_cases split: prod.splits option.splits)+
qed simp

lemma copy_body_cases:
  assumes "copy_body b al = (r, al')" and "\<And>mu ext. b = RR mu ext \<Longrightarrow> length mu = NRRMU"
  shows "r = None \<or> r = Some (case b of Neg _ t s \<Rightarrow> Neg None t s
    | RR mu ext \<Rightarrow> RR (map unlinked mu) (map_option (map unlinked) ext))"
proof (cases b)
  case (RR mu ext)
  with assms show ?thesis
    by (cases ext) (auto simp: copy_body_def Let_def dest!: copy_rrsets_cases split: prod.splits if_splits)
qed (use assms in \<open>auto simp: copy_body_def\<close>)

lemma opt_size_unlinked [simp]: "opt_size (unlinked r) = opt_size r" "opt_count (unlinked r) = opt_count r"
  by (auto simp: opt_size_def unlinked_def rrset_size_def opt_count_def split: option.splits)

lemma copy_cent_ok:
  assumes ok: "cent_ok c"
  shows "ok (copy_cent c al) (\<lambda>(r, al'). (al = [] \<longrightarrow> r \<noteq> None \<and> al' = []) \<and> (case r of None \<Rightarrow> True
    | Some c' \<Rightarrow> cent_ok c' \<and> nodes a c' = {} \<and> rr c' = unlinked \<circ> rr c \<and> qname c' = qname c \<and> cs c' = cs c \<and>
        num_rrs c' = num_rrs c \<and> cflags c' = cflags c \<and> c_ns c' = c_ns c \<and> c_soa c' = c_soa c \<and>
        (is_neg c \<longrightarrow> neg_ttl (body c') = neg_ttl (body c) \<and> neg_ts (body c') = neg_ts (body c))))"
proof -
  obtain ls where ls: "wf_name ls" "qname c = wire ls" using ok by (auto simp: cent_ok_def)
  have len: "rhnlen (qname c) = Some (length (qname c))"
    using rhnlen_wire [of ls "[]"] ls by (simp add: wf_name_labels)
  have sh: "shape_ok c" using ok by (simp add: cent_ok_def)
  then have tag: "is_Neg (body c) = is_neg c" and mu: "\<And>mu ext. body c = RR mu ext \<Longrightarrow> length mu = NRRMU"
    by (auto simp: shape_ok_def split: cent_body.splits)
  obtain m1 al1 where m1: "malloc al = (m1, al1)" by (cases "malloc al")
  obtain m2 al2 where m2: "malloc al1 = (m2, al2)" by (cases "malloc al1")
  obtain b al3 where b: "copy_body (body c) al2 = (b, al3)" by (cases "copy_body (body c) al2")
  have "al = [] \<Longrightarrow> m1 \<and> m2 \<and> b \<noteq> None \<and> al3 = []"
    using m1 m2 b by (auto simp: copy_body_def copy_rrsets_mem Let_def split: cent_body.splits option.splits)
  moreover have "case b of None \<Rightarrow> True | Some b \<Rightarrow> (let c' = c\<lparr>qname := qname c, body := b\<rparr> in cent_ok c' \<and> nodes a c' = {} \<and>
      rr c' = unlinked \<circ> rr c \<and> (is_neg c \<longrightarrow> neg_ttl b = neg_ttl (body c) \<and> neg_ts b = neg_ts (body c)))"
    using copy_body_cases [OF b mu]
  proof
    assume "b = Some (case body c of Neg _ t s \<Rightarrow> Neg None t s | RR mu ext \<Rightarrow> RR (map unlinked mu) (map_option (map unlinked) ext))"
    then show ?thesis
      using ok tag
      by (cases "body c")
        (auto simp: cent_ok_def shape_ok_def is_neg_def ext_size_def tot_def slots_def rr_def fun_eq_iff nodes_def neg_node_def
          slot_node_def unlinked_def nth_append comp_def opt_size_unlinked [unfolded unlinked_def] split: option.splits)
  next
    assume "b = None"
    then show ?thesis by (simp only: option.case)
  qed
  ultimately show ?thesis
    using m1 m2 b len tag by (auto simp: copy_cent_def Let_def split: option.splits)
qed

end
