(* ===== verification/Hash.thy ===== *)
theory Hash
  imports Names
begin

text \<open>
  The hash table of the cache (\<^verbatim>\<open>src/hash.c\<close>, \<^verbatim>\<open>src/hash.h\<close>): 1024 chains of entries,
  each chain ordered by a second, longer hash.

  The table stores pointers to cache entries; their names are read through the heap, here the
  argument \<open>qn\<close>: the name of the entry at an address, \<open>None\<close> for a dangling pointer. The
  abstract view is a finite map from names, up to case, to addresses; the locale \<open>name_map\<close>
  states the laws of such a map, and the hash table is an instance of it.
\<close>

section \<open>The hash functions\<close>

definition HASH_SZ :: nat where "HASH_SZ = 10"
definition HASH_NUM_BUCKETS :: nat where "HASH_NUM_BUCKETS = 1024"
definition HASH_BITMASK :: "32 word" where "HASH_BITMASK = 0x3ff"

text \<open>One byte \<open>c\<close> at index \<open>i\<close>: \<^verbatim>\<open>s+=c<<(i%(HASH_SZ-5))\<close> and the same on
  \<^verbatim>\<open>unsigned long\<close>.\<close>

definition hash_byte :: "nat \<Rightarrow> byte \<Rightarrow> 32 word \<times> 64 word \<Rightarrow> 32 word \<times> 64 word" where
  "hash_byte i c = (\<lambda>(s, r).
     (s + push_bit (i mod (HASH_SZ - 5)) (ucast c), r + push_bit (i mod (8 * 8 - 7)) (ucast c)))"

fun dns_hash_seg :: "bytes \<Rightarrow> nat \<Rightarrow> nat \<Rightarrow> 32 word \<times> 64 word \<Rightarrow> (32 word \<times> 64 word) option" where
  "dns_hash_seg str i 0 h = Some h"
| "dns_hash_seg str i (Suc lb) h = do {
     c \<leftarrow> rd str i;
     dns_hash_seg str (i + 1) lb (hash_byte i (toupper c) h) }"

function dns_hash_loop :: "bytes \<Rightarrow> nat \<Rightarrow> 32 word \<times> 64 word \<Rightarrow> (32 word \<times> 64 word) option" where
  "dns_hash_loop str i h = do {
     lb \<leftarrow> rd str i;
     if lb = 0 then Some h
     else do {
       h \<leftarrow> dns_hash_seg str (i + 1) (unat lb) (hash_byte i lb h);
       dns_hash_loop str (i + 1 + unat lb) h } }"
  by pat_completeness auto
termination
  by (relation "measure (\<lambda>(str, i, h). length str - i)") (auto simp: rd_eq_Some_iff)

text \<open>\<^verbatim>\<open>s=(s&HASH_BITMASK)+((s&(~HASH_BITMASK))>>HASH_SZ)\<close>\<close>

definition hash_fold :: "32 word \<Rightarrow> 32 word" where
  "hash_fold s = (s AND HASH_BITMASK) + drop_bit HASH_SZ (s AND NOT HASH_BITMASK)"

definition dns_hash :: "bytes \<Rightarrow> (nat \<times> 64 word) option" where
  "dns_hash str = do {
     (s, r) \<leftarrow> dns_hash_loop str 0 (0, 0);
     Some (unat (hash_fold (hash_fold s) AND HASH_BITMASK), r) }"

declare dns_hash_loop.simps [simp del]

section \<open>The table\<close>

record dns_hash_ent =
  rhash :: "64 word"
  data :: nat

type_synonym buckets = "dns_hash_ent list list"

text \<open>\<^verbatim>\<open>dns_hash_loc_t\<close>: the bucket, the position in its chain, and the long hash\<close>

record dns_hash_loc =
  loc_bucket :: nat
  loc_pos :: nat
  loc_rhash :: "64 word"

definition mk_dns_hash :: buckets where
  "mk_dns_hash = replicate HASH_NUM_BUCKETS []"

text \<open>
  The loop of \<open>dns_lookup\<close> over a chain: it stops at an entry for the name, or behind all
  entries with a hash up to \<open>rh\<close>.
\<close>

fun lookup_chain :: "(nat \<rightharpoonup> bytes) \<Rightarrow> bytes \<Rightarrow> 64 word \<Rightarrow> nat \<Rightarrow> dns_hash_ent list \<Rightarrow> (nat option \<times> nat) option" where
  "lookup_chain qn key rh pos [] = Some (None, pos)"
| "lookup_chain qn key rh pos (he # hes) =
     (if rhash he \<le> rh then do {
        hit \<leftarrow> (if rhash he = rh then do { nm \<leftarrow> qn (data he); rhnicmp key nm } else Some False);
        if hit then Some (Some (data he), pos) else lookup_chain qn key rh (pos + 1) hes }
      else Some (None, pos))"

definition dns_lookup :: "(nat \<rightharpoonup> bytes) \<Rightarrow> buckets \<Rightarrow> bytes \<Rightarrow> (nat option \<times> dns_hash_loc) option" where
  "dns_lookup qn t key = do {
     (idx, rh) \<leftarrow> dns_hash key;
     chain \<leftarrow> rd t idx;
     (res, pos) \<leftarrow> lookup_chain qn key rh 0 chain;
     Some (res, \<lparr>loc_bucket = idx, loc_pos = pos, loc_rhash = rh\<rparr>) }"

text \<open>Inserting at a location; \<open>mem\<close> is the outcome of the allocation.\<close>

definition add_dns_hash :: "buckets \<Rightarrow> nat \<Rightarrow> dns_hash_loc \<Rightarrow> bool \<Rightarrow> (bool \<times> buckets) option" where
  "add_dns_hash t a loc mem =
     (if \<not> mem then Some (False, t)
      else do {
        chain \<leftarrow> rd t (loc_bucket loc);
        if loc_pos loc \<le> length chain then
          Some (True, t[loc_bucket loc := take (loc_pos loc) chain @
            \<lparr>rhash = loc_rhash loc, data = a\<rparr> # drop (loc_pos loc) chain])
        else None })"

definition del_dns_hash_ent :: "buckets \<Rightarrow> dns_hash_loc \<Rightarrow> (nat \<times> buckets) option" where
  "del_dns_hash_ent t loc = do {
     chain \<leftarrow> rd t (loc_bucket loc);
     he \<leftarrow> rd chain (loc_pos loc);
     Some (data he, t[loc_bucket loc := take (loc_pos loc) chain @ drop (loc_pos loc + 1) chain]) }"

fun del_chain :: "(nat \<rightharpoonup> bytes) \<Rightarrow> bytes \<Rightarrow> 64 word \<Rightarrow> dns_hash_ent list \<Rightarrow> (nat option \<times> dns_hash_ent list) option" where
  "del_chain qn key rh [] = Some (None, [])"
| "del_chain qn key rh (he # hes) =
     (if rhash he \<le> rh then do {
        hit \<leftarrow> (if rhash he = rh then do { nm \<leftarrow> qn (data he); rhnicmp key nm } else Some False);
        if hit then Some (Some (data he), hes)
        else do { (res, hes) \<leftarrow> del_chain qn key rh hes; Some (res, he # hes) } }
      else Some (None, he # hes))"

definition del_dns_hash :: "(nat \<rightharpoonup> bytes) \<Rightarrow> buckets \<Rightarrow> bytes \<Rightarrow> (nat option \<times> buckets) option" where
  "del_dns_hash qn t key = do {
     (idx, rh) \<leftarrow> dns_hash key;
     chain \<leftarrow> rd t idx;
     (res, chain) \<leftarrow> del_chain qn key rh chain;
     Some (res, t[idx := chain]) }"

text \<open>
  Iterating over the table: \<^verbatim>\<open>dns_hash_pos_t\<close> is the bucket and the rest of its chain. The
  loop over the buckets is shared by \<open>fetch_first\<close> (from bucket 0) and \<open>fetch_next\<close>.
\<close>

type_synonym dns_hash_pos = "nat \<times> dns_hash_ent list"

function fetch_from :: "buckets \<Rightarrow> nat \<Rightarrow> (nat \<times> dns_hash_pos) option option" where
  "fetch_from t i =
     (if i < HASH_NUM_BUCKETS then do {
        chain \<leftarrow> rd t i;
        (case chain of he # hes \<Rightarrow> Some (Some (data he, i, hes)) | [] \<Rightarrow> fetch_from t (i + 1)) }
      else Some None)"
  by pat_completeness auto
termination
  by (relation "measure (\<lambda>(t, i). HASH_NUM_BUCKETS - i)") auto

definition fetch_first :: "buckets \<Rightarrow> (nat \<times> dns_hash_pos) option option" where
  "fetch_first t = fetch_from t 0"

definition fetch_next :: "buckets \<Rightarrow> dns_hash_pos \<Rightarrow> (nat \<times> dns_hash_pos) option option" where
  "fetch_next t pos = (case snd pos of
     he # hes \<Rightarrow> Some (Some (data he, fst pos, hes))
   | [] \<Rightarrow> fetch_from t (fst pos + 1))"

declare fetch_from.simps [simp del]

lemma fetch_from_bucket: "fetch_from t i = Some (Some (a, b, hes)) \<Longrightarrow> i \<le> b \<and> b < HASH_NUM_BUCKETS"
proof (induction t i rule: fetch_from.induct)
  case (1 t i)
  note unf = fetch_from.simps [of t i]
  from "1.prems" have i: "i < HASH_NUM_BUCKETS" by (auto simp: unf split: if_splits)
  with "1.prems" obtain chain where chain: "rd t i = Some chain" by (auto simp: unf bind_eq_Some_conv)
  show ?case
  proof (cases chain)
    case Nil
    with "1.prems" i chain have "fetch_from t (i + 1) = Some (Some (a, b, hes))" by (simp add: unf)
    with "1.IH" [OF i chain Nil] show ?thesis by simp
  next
    case (Cons he hes')
    with "1.prems" i chain show ?thesis by (simp add: unf)
  qed
qed

text \<open>\<^verbatim>\<open>for (le=fetch_first(&pos); le; le=fetch_next(&pos))\<close>, collecting the addresses\<close>

function fetch_rest :: "buckets \<Rightarrow> dns_hash_pos \<Rightarrow> nat list option" where
  "fetch_rest t pos = do {
     r \<leftarrow> fetch_next t pos;
     (case r of None \<Rightarrow> Some []
      | Some (a, pos') \<Rightarrow> do { xs \<leftarrow> fetch_rest t pos'; Some (a # xs) }) }"
  by pat_completeness auto
termination
  by (relation "measures [\<lambda>(t, pos). HASH_NUM_BUCKETS - fst pos, \<lambda>(t, pos). length (snd pos)]")
    (auto simp: fetch_next_def dest: fetch_from_bucket split: list.splits)

definition fetch_all :: "buckets \<Rightarrow> nat list option" where
  "fetch_all t = do {
     r \<leftarrow> fetch_first t;
     (case r of None \<Rightarrow> Some []
      | Some (a, pos) \<Rightarrow> do { xs \<leftarrow> fetch_rest t pos; Some (a # xs) }) }"

declare fetch_rest.simps [simp del]

section \<open>The hash of a name\<close>

lemma HASH_BITMASK_mask: "HASH_BITMASK = mask 10"
  by (simp add: HASH_BITMASK_def mask_eq_exp_minus_1)

lemma unat_and_HASH_BITMASK: "unat (w AND HASH_BITMASK) < HASH_NUM_BUCKETS"
proof -
  have "unat (w AND HASH_BITMASK) = take_bit 10 (unat w)"
    by (simp only: HASH_BITMASK_mask take_bit_eq_mask [symmetric] unsigned_take_bit_eq)
  then show ?thesis
    using take_bit_nat_less_exp [of 10 "unat w"] by (simp add: HASH_NUM_BUCKETS_def)
qed

text \<open>The hash values as a function of the bytes: length bytes as they are, others in upper case.\<close>

fun hash_bytes :: "nat \<Rightarrow> bytes \<Rightarrow> 32 word \<times> 64 word \<Rightarrow> 32 word \<times> 64 word" where
  "hash_bytes i [] h = h"
| "hash_bytes i (c # cs) h = hash_bytes (i + 1) cs (hash_byte i (toupper c) h)"

fun hash_labels :: "nat \<Rightarrow> label list \<Rightarrow> 32 word \<times> 64 word \<Rightarrow> 32 word \<times> 64 word" where
  "hash_labels i [] h = h"
| "hash_labels i (l # ls) h =
     hash_labels (i + 1 + length l) ls (hash_bytes (i + 1) l (hash_byte i (of_nat (length l)) h))"

definition name_hash :: "label list \<Rightarrow> nat \<times> 64 word" where
  "name_hash ls = (let (s, r) = hash_labels 0 ls (0, 0) in
     (unat (hash_fold (hash_fold s) AND HASH_BITMASK), r))"

lemma dns_hash_seg_bytes:
  "drop i str = l @ rest \<Longrightarrow> dns_hash_seg str i (length l) h = Some (hash_bytes i l h)"
proof (induction l arbitrary: i h)
  case (Cons c l)
  then have "rd str i = Some c"
    by (metis append_Cons drop_eq_Nil list.distinct(1) not_le nth_via_drop rd_Some)
  moreover have "drop (Suc i) str = l @ rest"
    using Cons.prems by (metis append_Cons drop_Suc list.sel(3) tl_drop)
  ultimately show ?case using Cons.IH [of "Suc i"] by simp
qed simp

lemma dns_hash_loop_wire:
  "list_all wf_label ls \<Longrightarrow> drop i str = wire ls @ rest \<Longrightarrow>
   dns_hash_loop str i h = Some (hash_labels i ls h)"
proof (induction ls arbitrary: i h)
  case Nil
  then have "rd str i = Some 0"
    by (metis append_Cons drop_eq_Nil list.distinct(1) not_le nth_via_drop rd_Some wire.simps(1))
  then show ?case by (simp add: dns_hash_loop.simps)
next
  case (Cons l ls)
  then have "rd str i = Some (of_nat (length l))"
    by (metis append_Cons drop_eq_Nil list.distinct(1) not_le nth_via_drop rd_Some wire.simps(2))
  moreover have dr: "drop (Suc i) str = l @ wire ls @ rest"
    using Cons.prems by (metis append.assoc append_Cons drop_Suc list.sel(3) tl_drop wire.simps(2))
  moreover from dr have "drop (Suc (i + length l)) str = wire ls @ rest"
    by (metis add.commute add_Suc_right append_eq_conv_conj drop_drop)
  ultimately show ?case
    using Cons dns_hash_seg_bytes [OF dr] by (simp add: dns_hash_loop.simps [of str i] wf_label_unat wf_label_nz)
qed

lemma dns_hash_wire [name_simps]:
  "list_all wf_label ls \<Longrightarrow> dns_hash (wire ls @ rest) = Some (name_hash ls)"
  using dns_hash_loop_wire [of ls 0 "wire ls @ rest" rest "(0, 0)"]
  by (simp add: dns_hash_def name_hash_def Let_def split: prod.split)

lemma name_hash_bound: "fst (name_hash ls) < HASH_NUM_BUCKETS"
  by (simp add: name_hash_def Let_def unat_and_HASH_BITMASK split: prod.split)

lemma hash_bytes_case:
  "map tolower xs = map tolower ys \<Longrightarrow> hash_bytes i xs h = hash_bytes i ys h"
proof (induction xs arbitrary: ys i h)
  case (Cons x xs)
  then obtain y ys' where "ys = y # ys'" "toupper x = toupper y" "map tolower xs = map tolower ys'"
    by (auto simp: tolower_eq_iff_toupper [symmetric])
  with Cons.IH [of ys'] show ?case by simp
qed simp

text \<open>The hash does not depend on the case of letters.\<close>

lemma hash_labels_case: "fold_name xs = fold_name ys \<Longrightarrow> hash_labels i xs h = hash_labels i ys h"
proof (induction xs arbitrary: ys i h)
  case (Cons x xs)
  then obtain y ys' where ys: "ys = y # ys'" "map tolower x = map tolower y" "fold_name xs = fold_name ys'"
    by (cases ys) auto
  then have "length x = length y" by (metis length_map)
  with ys Cons.IH [of ys'] hash_bytes_case [OF ys(2)] show ?case by simp
qed (simp add: fold_name_def)

lemma name_hash_case: "fold_name xs = fold_name ys \<Longrightarrow> name_hash xs = name_hash ys"
  using hash_labels_case [of xs ys 0 "(0, 0)"] by (simp add: name_hash_def)

section \<open>Maps from names\<close>

text \<open>
  What the cache relies on: looking up a name finds the address that was last stored under a
  name that differs in case only. \<open>find\<close> says where a name is, \<open>ins\<close> adds a name that
  is not there, \<open>del\<close> removes one. \<open>heap\<close> is the part of the heap the table depends on.
\<close>

locale name_map =
  fixes inv :: "'h \<Rightarrow> 't \<Rightarrow> bool"
    and find :: "'h \<Rightarrow> 't \<Rightarrow> label list \<Rightarrow> nat option"
    and empty :: 't
    and alloc :: "'h \<Rightarrow> nat \<Rightarrow> label list \<Rightarrow> 'h"
    and fresh :: "'h \<Rightarrow> nat \<Rightarrow> bool"
    and ins :: "'h \<Rightarrow> 't \<Rightarrow> label list \<Rightarrow> nat \<Rightarrow> 't option"
    and del :: "'h \<Rightarrow> 't \<Rightarrow> label list \<Rightarrow> (nat option \<times> 't) option"
  assumes inv_empty: "inv h empty" and find_empty: "find h empty k = None"
    and find_case: "inv h t \<Longrightarrow> fold_name k = fold_name k' \<Longrightarrow> find h t k = find h t k'"
    and ins_ok: "inv h t \<Longrightarrow> wf_name k \<Longrightarrow> find h t k = None \<Longrightarrow> fresh h a \<Longrightarrow>
      ok (ins h t k a) (\<lambda>t'. inv (alloc h a k) t' \<and> (\<forall>k'. wf_name k' \<longrightarrow>
        find (alloc h a k) t' k' = (if fold_name k' = fold_name k then Some a else find h t k')))"
    and del_ok: "inv h t \<Longrightarrow> wf_name k \<Longrightarrow> ok (del h t k) (\<lambda>(r, t'). inv h t' \<and> r = find h t k \<and>
      (\<forall>k'. wf_name k' \<longrightarrow> find h t' k' = (if fold_name k' = fold_name k then None else find h t k')))"
begin

text \<open>Deleting what was just inserted restores the map.\<close>

lemma ins_del:
  assumes "inv h t" and "wf_name k" and "find h t k = None" and "fresh h a"
  shows "ok (ins h t k a) (\<lambda>t'. ok (del (alloc h a k) t' k) (\<lambda>(r, t'').
    r = Some a \<and> (\<forall>k'. wf_name k' \<longrightarrow> find (alloc h a k) t'' k' = find h t k')))"
proof -
  from ins_ok [OF assms] obtain t' where t': "ins h t k a = Some t'" "inv (alloc h a k) t'"
    and look: "\<And>k'. wf_name k' \<Longrightarrow> find (alloc h a k) t' k' = (if fold_name k' = fold_name k then Some a else find h t k')"
    by (auto elim: okE)
  from del_ok [OF t'(2) assms(2)] obtain r t'' where t'': "del (alloc h a k) t' k = Some (r, t'')"
    "r = find (alloc h a k) t' k"
    "\<And>k'. wf_name k' \<Longrightarrow> find (alloc h a k) t'' k' = (if fold_name k' = fold_name k then None else find (alloc h a k) t' k')"
    by (auto elim!: okE)
  have "fold_name k' = fold_name k \<Longrightarrow> find h t k' = None" for k'
    using find_case [OF assms(1)] assms(3) by metis
  with t' t'' look assms(2) show ?thesis by auto
qed

end

section \<open>The table is such a map\<close>

text \<open>The entry's name is \<open>k\<close> up to case.\<close>

definition named :: "(nat \<rightharpoonup> bytes) \<Rightarrow> nat \<Rightarrow> label list \<Rightarrow> bool" where
  "named qn a k \<longleftrightarrow> (\<exists>ls. qn a = Some (wire ls) \<and> wf_name ls \<and> fold_name ls = fold_name k)"

lemma named_same: "named qn a k \<Longrightarrow> named qn a k' \<Longrightarrow> fold_name k = fold_name k'"
  unfolding named_def by (metis option.inject wire_inj wf_name_labels)

text \<open>An entry of bucket \<open>b\<close> refers to a live name with the right hash values.\<close>

definition ent_ok :: "(nat \<rightharpoonup> bytes) \<Rightarrow> nat \<Rightarrow> dns_hash_ent \<Rightarrow> bool" where
  "ent_ok qn b he \<longleftrightarrow> (\<exists>ls. qn (data he) = Some (wire ls) \<and> wf_name ls \<and> name_hash ls = (b, rhash he))"

definition same_name :: "(nat \<rightharpoonup> bytes) \<Rightarrow> dns_hash_ent \<Rightarrow> dns_hash_ent \<Rightarrow> bool" where
  "same_name qn x y \<longleftrightarrow> (\<exists>k. named qn (data x) k \<and> named qn (data y) k)"

definition chain_ok :: "(nat \<rightharpoonup> bytes) \<Rightarrow> nat \<Rightarrow> dns_hash_ent list \<Rightarrow> bool" where
  "chain_ok qn b chain \<longleftrightarrow> list_all (ent_ok qn b) chain \<and>
     sorted_wrt (\<lambda>x y. rhash x \<le> rhash y \<and> \<not> same_name qn x y) chain"

definition hash_inv :: "(nat \<rightharpoonup> bytes) \<Rightarrow> buckets \<Rightarrow> bool" where
  "hash_inv qn t \<longleftrightarrow> length t = HASH_NUM_BUCKETS \<and> (\<forall>b < HASH_NUM_BUCKETS. chain_ok qn b (t ! b))"

definition hash_find :: "(nat \<rightharpoonup> bytes) \<Rightarrow> buckets \<Rightarrow> label list \<Rightarrow> nat option" where
  "hash_find qn t k = map_option data (List.find (\<lambda>he. named qn (data he) k) (t ! fst (name_hash k)))"

lemma same_name_sym: "same_name qn x y \<Longrightarrow> same_name qn y x"
  by (auto simp: same_name_def)

lemma ent_ok_hit:
  assumes "ent_ok qn b he" and "wf_name k"
  shows "(if rhash he = snd (name_hash k) then do { nm \<leftarrow> qn (data he); rhnicmp (wire k @ r) nm } else Some False) =
    Some (rhash he = snd (name_hash k) \<and> named qn (data he) k)"
proof -
  from assms(1) obtain ls where ls: "qn (data he) = Some (wire ls)" "wf_name ls" by (auto simp: ent_ok_def)
  have "named qn (data he) k \<longleftrightarrow> fold_name k = fold_name ls"
    using ls wire_inj [OF wf_name_labels wf_name_labels] by (auto simp: named_def)
  with ls assms(2) rhnicmp_wire [of k ls r "[]"] show ?thesis by (simp add: wf_name_labels)
qed

lemma named_hash: "ent_ok qn b he \<Longrightarrow> named qn (data he) k \<Longrightarrow> name_hash k = (b, rhash he)"
  using wire_inj [OF wf_name_labels wf_name_labels]
  by (auto simp: ent_ok_def named_def) (metis name_hash_case)

text \<open>The walk along a chain finds an entry for the name if there is one, and otherwise stops at
  the place where one belongs.\<close>

definition walk_post ::
  "(nat \<rightharpoonup> bytes) \<Rightarrow> label list \<Rightarrow> dns_hash_ent list \<Rightarrow> nat option \<Rightarrow> nat \<Rightarrow> bool" where
  "walk_post qn k chain res j \<longleftrightarrow> j \<le> length chain \<and>
     (\<forall>he \<in> set (take j chain). rhash he \<le> snd (name_hash k) \<and> \<not> named qn (data he) k) \<and>
     (case res of Some a \<Rightarrow> j < length chain \<and> data (chain ! j) = a \<and> named qn a k
      | None \<Rightarrow> \<forall>he \<in> set (drop j chain). snd (name_hash k) < rhash he)"

lemma walk_post_Suc:
  "walk_post qn k chain res j \<Longrightarrow> rhash he \<le> snd (name_hash k) \<Longrightarrow> \<not> named qn (data he) k \<Longrightarrow>
   walk_post qn k (he # chain) res (Suc j)"
  by (auto simp: walk_post_def split: option.splits)

lemma lookup_chain_ok:
  assumes "chain_ok qn b chain" and "wf_name k"
  shows "ok (lookup_chain qn (wire k @ r) (snd (name_hash k)) p chain) (\<lambda>(res, pos).
    \<exists>j. pos = p + j \<and> walk_post qn k chain res j)"
  using assms
proof (induction chain arbitrary: p)
  case (Cons he chain)
  then have ent: "ent_ok qn b he" and ch: "chain_ok qn b chain"
    and le: "\<forall>x \<in> set chain. rhash he \<le> rhash x" by (auto simp: chain_ok_def)
  note hit = ent_ok_hit [OF ent Cons.prems(2), of r]
  consider "\<not> rhash he \<le> snd (name_hash k)" | "rhash he \<le> snd (name_hash k)" "named qn (data he) k"
    | "rhash he \<le> snd (name_hash k)" "\<not> named qn (data he) k" by blast
  then show ?case
  proof cases
    case 1
    with le show ?thesis by (force simp: walk_post_def)
  next
    case 2
    with named_hash [OF ent 2(2)] hit show ?thesis
      by (simp add: walk_post_def)
  next
    case 3
    then have "lookup_chain qn (wire k @ r) (snd (name_hash k)) p (he # chain) =
        lookup_chain qn (wire k @ r) (snd (name_hash k)) (Suc p) chain"
      using hit by simp
    then show ?thesis
      using Cons.IH [OF ch Cons.prems(2), of "Suc p"] walk_post_Suc [OF _ 3]
      by (fastforce elim!: ok_mono)
  qed
qed (simp add: walk_post_def)

lemma find_walk:
  assumes "chain_ok qn b chain" and "walk_post qn k chain res j" and "\<forall>he \<in> set chain. named qn (data he) k \<longrightarrow> rhash he = snd (name_hash k)"
  shows "map_option data (List.find (\<lambda>he. named qn (data he) k) chain) = res"
proof (cases res)
  case None
  have "\<not> named qn (data he) k" if "he \<in> set chain" for he
  proof
    assume named: "named qn (data he) k"
    with assms(3) that have eq: "rhash he = snd (name_hash k)" by blast
    from that have "he \<in> set (take j chain) \<or> he \<in> set (drop j chain)"
      by (metis Un_iff append_take_drop_id set_append)
    with assms(2) None named eq show False by (auto simp: walk_post_def)
  qed
  with None show ?thesis by (simp add: find_None_iff)
next
  case (Some a)
  with assms(2) have j: "j < length chain" "named qn (data (chain ! j)) k" "data (chain ! j) = a"
    and before: "\<forall>he \<in> set (take j chain). \<not> named qn (data he) k"
    by (simp_all add: walk_post_def)
  have "\<not> named qn (data (chain ! i)) k" if "i < j" for i
  proof -
    from that j(1) have "take j chain ! i \<in> set (take j chain)" by (intro nth_mem) simp
    with that before show ?thesis by simp
  qed
  with j have "List.find (\<lambda>he. named qn (data he) k) chain = Some (chain ! j)"
    unfolding find_Some_iff by blast
  with Some j show ?thesis by simp
qed

lemma hash_inv_chain:
  "hash_inv qn t \<Longrightarrow> fst (name_hash k) < length t \<and> chain_ok qn (fst (name_hash k)) (t ! fst (name_hash k))"
  using name_hash_bound [of k] by (simp add: hash_inv_def)

lemma chain_named_hash:
  "chain_ok qn b chain \<Longrightarrow> he \<in> set chain \<Longrightarrow> named qn (data he) k \<Longrightarrow> name_hash k = (b, rhash he)"
  by (auto simp: chain_ok_def list_all_iff intro: named_hash)

lemma dns_lookup_ok:
  assumes inv: "hash_inv qn t" and wf: "wf_name k"
  shows "ok (dns_lookup qn t (wire k @ r)) (\<lambda>(res, loc). res = hash_find qn t k \<and>
    loc_bucket loc = fst (name_hash k) \<and> loc_rhash loc = snd (name_hash k) \<and>
    walk_post qn k (t ! fst (name_hash k)) res (loc_pos loc))"
proof -
  obtain b rh where h: "name_hash k = (b, rh)" by (cases "name_hash k")
  from hash_inv_chain [OF inv, of k] h have ch: "b < length t" "chain_ok qn b (t ! b)" by auto
  have "\<forall>he \<in> set (t ! b). named qn (data he) k \<longrightarrow> rhash he = snd (name_hash k)"
    using chain_named_hash [OF ch(2)] by auto
  note find_walk [OF ch(2) _ this]
  with lookup_chain_ok [OF ch(2) wf, of r 0] show ?thesis
    using ch h wf by (auto simp: dns_lookup_def dns_hash_wire wf_name_labels ok_simps hash_find_def elim!: ok_mono)
qed

subsection \<open>Entries of the table\<close>

lemma ent_ok_same_name: "ent_ok qn b he \<Longrightarrow> same_name qn he he"
  by (auto simp: ent_ok_def same_name_def named_def)

lemma chain_named_unique:
  assumes ch: "chain_ok qn b chain" and i: "i < length chain" "j < length chain"
    and "named qn (data (chain ! i)) k" "named qn (data (chain ! j)) k"
  shows "i = j"
proof (rule ccontr)
  assume "i \<noteq> j"
  then consider "i < j" | "j < i" by linarith
  then show False
    using assms by cases (auto simp: chain_ok_def sorted_wrt_iff_nth_less same_name_def)
qed

lemma chain_find_iff:
  assumes ch: "chain_ok qn b chain"
  shows "map_option data (List.find (\<lambda>he. named qn (data he) k) chain) = Some a \<longleftrightarrow>
    (\<exists>he \<in> set chain. data he = a \<and> named qn a k)"
proof
  assume "map_option data (List.find (\<lambda>he. named qn (data he) k) chain) = Some a"
  then show "\<exists>he \<in> set chain. data he = a \<and> named qn a k"
    by (auto simp: find_Some_iff)
next
  assume "\<exists>he \<in> set chain. data he = a \<and> named qn a k"
  then obtain i where i: "i < length chain" "data (chain ! i) = a" "named qn a k"
    by (auto simp: in_set_conv_nth)
  then have "List.find (\<lambda>he. named qn (data he) k) chain = Some (chain ! i)"
    unfolding find_Some_iff using chain_named_unique [OF ch _ i(1)] by (metis less_irrefl less_trans)
  with i show "map_option data (List.find (\<lambda>he. named qn (data he) k) chain) = Some a" by simp
qed

lemma hash_find_iff:
  "hash_inv qn t \<Longrightarrow> hash_find qn t k = Some a \<longleftrightarrow>
     (\<exists>he \<in> set (t ! fst (name_hash k)). data he = a \<and> named qn a k)"
  unfolding hash_find_def using chain_find_iff hash_inv_chain by blast

lemma hash_find_None:
  "hash_inv qn t \<Longrightarrow> hash_find qn t k = None \<longleftrightarrow> (\<forall>he \<in> set (t ! fst (name_hash k)). \<not> named qn (data he) k)"
  by (auto simp: hash_find_def find_None_iff)

text \<open>Replacing one chain.\<close>

lemma hash_find_update:
  assumes inv: "hash_inv qn t" and inv': "hash_inv qn' (t[b := chain])" and b: "b < length t"
    and same: "\<And>b' he. b' < length t \<Longrightarrow> b' \<noteq> b \<Longrightarrow> he \<in> set (t ! b') \<Longrightarrow> named qn' (data he) k = named qn (data he) k"
    and chain: "fst (name_hash k) = b \<Longrightarrow> (\<exists>he \<in> set chain. data he = a \<and> named qn' a k) \<longleftrightarrow> Q"
    and other: "fst (name_hash k) \<noteq> b \<Longrightarrow> Q \<longleftrightarrow> hash_find qn t k = Some a"
  shows "hash_find qn' (t[b := chain]) k = Some a \<longleftrightarrow> Q"
proof (cases "fst (name_hash k) = b")
  case True
  with chain b show ?thesis by (simp add: hash_find_iff [OF inv'])
next
  case False
  moreover have "fst (name_hash k) < length t" using hash_inv_chain [OF inv] by simp
  ultimately show ?thesis
    using other same by (auto simp: hash_find_iff [OF inv'] hash_find_iff [OF inv])
qed

subsection \<open>Adding\<close>

lemma named_cong: "qn' a = qn a \<Longrightarrow> named qn' a k = named qn a k"
  by (simp add: named_def)

lemma chain_ok_cong:
  assumes "\<And>he. he \<in> set chain \<Longrightarrow> qn' (data he) = qn (data he)" and "chain_ok qn b chain"
  shows "chain_ok qn' b chain"
proof -
  have nm: "named qn' (data he) k = named qn (data he) k" if "he \<in> set chain" for he k
    using assms(1) [OF that] by (rule named_cong)
  have "same_name qn' x y = same_name qn x y" if "x \<in> set chain" "y \<in> set chain" for x y
    using nm that by (simp add: same_name_def)
  moreover have "ent_ok qn' b he = ent_ok qn b he" if "he \<in> set chain" for he
    using assms(1) [OF that] by (simp add: ent_ok_def)
  ultimately show ?thesis
    using assms(2) sorted_wrt_mono_rel [of chain "\<lambda>x y. rhash x \<le> rhash y \<and> \<not> same_name qn x y"
        "\<lambda>x y. rhash x \<le> rhash y \<and> \<not> same_name qn' x y"]
    by (simp add: chain_ok_def list_all_iff)
qed

lemma chain_ok_live: "chain_ok qn b chain \<Longrightarrow> he \<in> set chain \<Longrightarrow> qn (data he) \<noteq> None"
  by (auto simp: chain_ok_def list_all_iff ent_ok_def)

definition hash_put :: "(nat \<rightharpoonup> bytes) \<Rightarrow> buckets \<Rightarrow> label list \<Rightarrow> nat \<Rightarrow> buckets option" where
  "hash_put qn t k a = do {
     (res, loc) \<leftarrow> dns_lookup qn t (wire k);
     (r, t') \<leftarrow> add_dns_hash t a loc True;
     Some t' }"

lemma chain_ok_insert:
  assumes ch: "chain_ok qn b chain" and h: "name_hash k = (b, rh)" and wf: "wf_name k" and new: "qn a = None"
    and walk: "walk_post qn k chain None j"
  shows "chain_ok (qn(a \<mapsto> wire k)) b (take j chain @ \<lparr>rhash = rh, data = a\<rparr> # drop j chain)"
proof -
  let ?qn = "qn(a \<mapsto> wire k)" and ?new = "\<lparr>rhash = rh, data = a\<rparr>"
  have live: "data he \<noteq> a" if "he \<in> set chain" for he using chain_ok_live [OF ch that] new by auto
  have old: "chain_ok ?qn b chain" by (rule chain_ok_cong [OF _ ch]) (use live in auto)
  have no: "\<not> named qn (data he) k" if "he \<in> set chain" for he
    using find_walk [OF ch walk] chain_named_hash [OF ch] h that
    by (metis find_None_iff map_option_is_None snd_conv)
  have new_same: "\<not> same_name ?qn he ?new" if "he \<in> set chain" for he
  proof
    assume "same_name ?qn he ?new"
    then obtain k' where "named ?qn (data he) k'" "named ?qn a k'" by (auto simp: same_name_def)
    moreover have "named ?qn a k' \<Longrightarrow> fold_name k' = fold_name k"
      using wire_inj [OF wf_name_labels wf_name_labels] wf by (auto simp: named_def)
    ultimately have "named qn (data he) k" using live [OF that] by (simp add: named_def)
    with no [OF that] show False by simp
  qed
  have ent: "ent_ok ?qn b ?new" using h wf by (auto simp: ent_ok_def)
  have "sorted_wrt (\<lambda>x y. rhash x \<le> rhash y \<and> \<not> same_name ?qn x y) (take j chain @ drop j chain)"
    using old by (simp add: chain_ok_def)
  moreover have "rhash he \<le> rh" "\<not> same_name ?qn he ?new" if "he \<in> set (take j chain)" for he
    using that walk h new_same by (auto simp: walk_post_def dest: in_set_takeD)
  moreover have "rh \<le> rhash he" "\<not> same_name ?qn ?new he" if "he \<in> set (drop j chain)" for he
    using that walk h new_same [OF in_set_dropD [OF that]] same_name_sym [of ?qn ?new he]
    by (auto simp: walk_post_def)
  ultimately have "sorted_wrt (\<lambda>x y. rhash x \<le> rhash y \<and> \<not> same_name ?qn x y) (take j chain @ ?new # drop j chain)"
    by (auto simp: sorted_wrt_append simp del: append_take_drop_id)
  moreover have "list_all (ent_ok ?qn b) (take j chain @ ?new # drop j chain)"
    using old ent by (auto simp: chain_ok_def list_all_iff dest: in_set_takeD in_set_dropD)
  ultimately show ?thesis by (simp add: chain_ok_def)
qed

lemma add_dns_hash_ok:
  assumes inv: "hash_inv qn t" and h: "name_hash k = (b, rh)" and wf: "wf_name k" and new: "qn a = None"
    and walk: "walk_post qn k (t ! b) None j" and none: "hash_find qn t k = None"
  shows "ok (add_dns_hash t a \<lparr>loc_bucket = b, loc_pos = j, loc_rhash = rh\<rparr> True) (\<lambda>(r, t'). r \<and>
    hash_inv (qn(a \<mapsto> wire k)) t' \<and> (\<forall>k'. wf_name k' \<longrightarrow>
      hash_find (qn(a \<mapsto> wire k)) t' k' = (if fold_name k' = fold_name k then Some a else hash_find qn t k')))"
proof -
  let ?qn = "qn(a \<mapsto> wire k)" and ?new = "\<lparr>rhash = rh, data = a\<rparr>"
  let ?chain = "take j (t ! b) @ ?new # drop j (t ! b)"
  from hash_inv_chain [OF inv, of k] h have b: "b < length t" and ch: "chain_ok qn b (t ! b)" by auto
  have live: "data he \<noteq> a" if "he \<in> set (t ! b')" "b' < length t" for he b'
    using inv that new chain_ok_live [of qn b' "t ! b'" he] by (auto simp: hash_inv_def)
  have inv': "hash_inv ?qn (t[b := ?chain])"
    unfolding hash_inv_def
  proof (intro conjI allI impI)
    show "length (t[b := ?chain]) = HASH_NUM_BUCKETS" using inv by (simp add: hash_inv_def)
    fix b' assume b': "b' < HASH_NUM_BUCKETS"
    show "chain_ok ?qn b' (t[b := ?chain] ! b')"
    proof (cases "b' = b")
      case True
      with chain_ok_insert [OF ch h wf new walk] b show ?thesis by simp
    next
      case False
      with b' inv live show ?thesis
        by (auto simp: hash_inv_def intro!: chain_ok_cong [of _ ?qn qn])
    qed
  qed
  have set: "set ?chain = insert ?new (set (t ! b))"
    by (metis Un_insert_right append_take_drop_id list.set(2) set_append)
  have new_named: "named ?qn a k' \<longleftrightarrow> fold_name k' = fold_name k" for k'
    using wire_inj [OF wf_name_labels wf_name_labels] wf by (auto simp: named_def)
  have old_named: "named ?qn (data he) k' = named qn (data he) k'" if "he \<in> set (t ! b')" "b' < length t" for he b' k'
    using live [OF that] by (simp add: named_def)
  have "hash_find ?qn (t[b := ?chain]) k' = (if fold_name k' = fold_name k then Some a else hash_find qn t k')" for k'
  proof -
    have none': "fold_name k' = fold_name k \<Longrightarrow> he \<in> set (t ! b) \<Longrightarrow> \<not> named qn (data he) k'" for he
      using none hash_find_None [OF inv, of k] h by (auto simp: named_def)
    have "hash_find ?qn (t[b := ?chain]) k' = Some a' \<longleftrightarrow>
        (if fold_name k' = fold_name k then a' = a else hash_find qn t k' = Some a')" for a'
    proof (rule hash_find_update [OF inv inv' b])
      assume hk: "fst (name_hash k') = b"
      have mem: "(\<exists>he \<in> set (t ! b). data he = a' \<and> named ?qn a' k') \<longleftrightarrow> (\<exists>he \<in> set (t ! b). data he = a' \<and> named qn a' k')"
        using old_named [OF _ b] by auto
      show "(\<exists>he \<in> set ?chain. data he = a' \<and> named ?qn a' k') \<longleftrightarrow>
          (if fold_name k' = fold_name k then a' = a else hash_find qn t k' = Some a')"
        using hk none' new_named [of k'] mem unfolding set by (auto simp: hash_find_iff [OF inv])
    next
      assume "fst (name_hash k') \<noteq> b"
      with h name_hash_case [of k' k] show "(if fold_name k' = fold_name k then a' = a else hash_find qn t k' = Some a') \<longleftrightarrow>
          hash_find qn t k' = Some a'" by auto
    qed (use old_named in auto)
    then show ?thesis
      by (cases "hash_find ?qn (t[b := ?chain]) k'"; cases "hash_find qn t k'") (auto split: if_splits, metis+)
  qed
  moreover have "j \<le> length (t ! b)" using walk by (simp add: walk_post_def)
  ultimately show ?thesis
    using b inv' by (simp add: add_dns_hash_def ok_simps)
qed

lemma hash_put_ok:
  assumes inv: "hash_inv qn t" and wf: "wf_name k" and none: "hash_find qn t k = None" and new: "qn a = None"
  shows "ok (hash_put qn t k a) (\<lambda>t'. hash_inv (qn(a \<mapsto> wire k)) t' \<and> (\<forall>k'. wf_name k' \<longrightarrow>
    hash_find (qn(a \<mapsto> wire k)) t' k' = (if fold_name k' = fold_name k then Some a else hash_find qn t k')))"
proof -
  from dns_lookup_ok [OF inv wf, of "[]"] obtain loc where l: "dns_lookup qn t (wire k) = Some (None, loc)"
    "loc_bucket loc = fst (name_hash k)" "loc_rhash loc = snd (name_hash k)"
    "walk_post qn k (t ! fst (name_hash k)) None (loc_pos loc)"
    by (auto simp: none elim!: okE)
  obtain b rh where h: "name_hash k = (b, rh)" by (cases "name_hash k")
  have loc: "loc = \<lparr>loc_bucket = b, loc_pos = loc_pos loc, loc_rhash = rh\<rparr>" using l h by simp
  have "ok (add_dns_hash t a loc True) (\<lambda>(r, t'). r \<and> hash_inv (qn(a \<mapsto> wire k)) t' \<and> (\<forall>k'. wf_name k' \<longrightarrow>
      hash_find (qn(a \<mapsto> wire k)) t' k' = (if fold_name k' = fold_name k then Some a else hash_find qn t k')))"
    by (subst loc, rule add_dns_hash_ok [OF inv h wf new _ none]) (use l h in simp)
  then show ?thesis
    unfolding hash_put_def l by (auto simp: ok_simps elim!: ok_mono)
qed

subsection \<open>Deleting\<close>

definition drop_nth :: "nat \<Rightarrow> 'a list \<Rightarrow> 'a list" where
  "drop_nth j xs = take j xs @ drop (Suc j) xs"

lemma lookup_chain_pos: "lookup_chain qn key rh p chain = Some (res, q) \<Longrightarrow> p \<le> q"
  by (induction chain arbitrary: p) (force simp: bind_eq_Some_conv split: if_splits)+

lemma del_chain_lookup:
  "lookup_chain qn key rh p chain = Some (res, p + j) \<Longrightarrow>
   del_chain qn key rh chain = Some (res, if res = None then chain else drop_nth j chain)"
proof (induction chain arbitrary: p j)
  case (Cons he chain)
  show ?case
  proof (cases "rhash he \<le> rh")
    case False
    with Cons.prems show ?thesis by simp
  next
    case True
    with Cons.prems obtain hit where hit:
      "(if rhash he = rh then do { nm \<leftarrow> qn (data he); rhnicmp key nm } else Some False) = Some hit"
      by (auto simp: bind_eq_Some_conv split: if_splits)
    show ?thesis
    proof (cases hit)
      case True
      with hit Cons.prems \<open>rhash he \<le> rh\<close> show ?thesis by (auto simp: drop_nth_def)
    next
      case False
      with hit Cons.prems \<open>rhash he \<le> rh\<close> have l: "lookup_chain qn key rh (Suc p) chain = Some (res, p + j)" by simp
      then obtain i where "j = Suc i"
        using lookup_chain_pos [OF l] by (cases j) auto
      with l Cons.IH [of "Suc p" i] hit False \<open>rhash he \<le> rh\<close> show ?thesis
        by (simp add: drop_nth_def)
    qed
  qed
qed simp

lemma sorted_wrt_drop_nth: "sorted_wrt P xs \<Longrightarrow> sorted_wrt P (drop_nth j xs)"
  unfolding drop_nth_def
  by (metis append_take_drop_id drop_drop plus_1_eq_Suc sorted_wrt_append sorted_wrt_drop sorted_wrt_take
      in_set_dropD)

lemma set_drop_nth: "set (drop_nth j xs) \<subseteq> set xs"
  unfolding drop_nth_def by (auto dest: in_set_takeD in_set_dropD)

lemma set_drop_nth_other: "j < length xs \<Longrightarrow> x \<in> set xs \<Longrightarrow> x \<noteq> xs ! j \<Longrightarrow> x \<in> set (drop_nth j xs)"
  unfolding drop_nth_def by (metis Un_iff id_take_nth_drop in_set_conv_decomp list.set_intros(1) set_ConsD set_append)

lemma chain_ok_drop_nth: "chain_ok qn b chain \<Longrightarrow> chain_ok qn b (drop_nth j chain)"
  using sorted_wrt_drop_nth set_drop_nth [of j chain] by (auto simp: chain_ok_def list_all_iff)

lemma named_drop_nth:
  assumes ch: "chain_ok qn b chain" and j: "j < length chain" and "named qn (data (chain ! j)) k"
    and he: "he \<in> set (drop_nth j chain)"
  shows "\<not> named qn (data he) k"
proof
  assume nm: "named qn (data he) k"
  have "sorted_wrt (\<lambda>x y. rhash x \<le> rhash y \<and> \<not> same_name qn x y) (take j chain @ chain ! j # drop (Suc j) chain)"
    using ch j by (simp add: chain_ok_def id_take_nth_drop [symmetric])
  with he have "\<not> same_name qn he (chain ! j)"
    by (auto simp: drop_nth_def sorted_wrt_append dest: same_name_sym)
  with nm assms(3) show False by (auto simp: same_name_def)
qed

lemma hash_del_ok:
  assumes inv: "hash_inv qn t" and wf: "wf_name k" and h: "name_hash k = (b, rh)"
    and walk: "walk_post qn k (t ! b) (Some a) j"
  shows "hash_inv qn (t[b := drop_nth j (t ! b)]) \<and> (\<forall>k'. wf_name k' \<longrightarrow>
    hash_find qn (t[b := drop_nth j (t ! b)]) k' = (if fold_name k' = fold_name k then None else hash_find qn t k'))"
proof -
  let ?t = "t[b := drop_nth j (t ! b)]"
  from hash_inv_chain [OF inv, of k] h have b: "b < length t" and ch: "chain_ok qn b (t ! b)" by auto
  from walk have j: "j < length (t ! b)" "data (t ! b ! j) = a" "named qn (data (t ! b ! j)) k"
    by (simp_all add: walk_post_def)
  have inv': "hash_inv qn ?t"
    unfolding hash_inv_def
  proof (intro conjI allI impI)
    fix b' assume "b' < HASH_NUM_BUCKETS"
    with inv chain_ok_drop_nth [OF ch, of j] b show "chain_ok qn b' (?t ! b')"
      by (cases "b' = b") (simp_all add: hash_inv_def)
  qed (use inv in \<open>simp add: hash_inv_def\<close>)
  have "hash_find qn ?t k' = (if fold_name k' = fold_name k then None else hash_find qn t k')" for k'
  proof -
    have same: "named qn x k' = named qn x k" if "fold_name k' = fold_name k" for x
      using that by (simp add: named_def)
    have "hash_find qn ?t k' = Some a' \<longleftrightarrow> fold_name k' \<noteq> fold_name k \<and> hash_find qn t k' = Some a'" for a'
    proof (rule hash_find_update [OF inv inv' b])
      assume hk: "fst (name_hash k') = b"
      show "(\<exists>he \<in> set (drop_nth j (t ! b)). data he = a' \<and> named qn a' k') \<longleftrightarrow>
          fold_name k' \<noteq> fold_name k \<and> hash_find qn t k' = Some a'"
      proof (cases "fold_name k' = fold_name k")
        case True
        have "\<not> named qn (data he) k'" if "he \<in> set (drop_nth j (t ! b))" for he
          using named_drop_nth [OF ch j(1,3) that] same [OF True] by simp
        with True show ?thesis by blast
      next
        case False
        then have "\<not> named qn (data (t ! b ! j)) k'" using named_same [OF j(3)] by metis
        then have mem: "he \<in> set (drop_nth j (t ! b)) \<longleftrightarrow> he \<in> set (t ! b)" if "named qn (data he) k'" for he
          using that set_drop_nth_other [OF j(1), of he] set_drop_nth [of j "t ! b"] by blast
        show ?thesis
          unfolding hash_find_iff [OF inv] hk using False mem by blast
      qed
    next
      assume "fst (name_hash k') \<noteq> b"
      with h name_hash_case [of k' k]
      show "(fold_name k' \<noteq> fold_name k \<and> hash_find qn t k' = Some a') \<longleftrightarrow> hash_find qn t k' = Some a'" by auto
    qed simp
    then show ?thesis
      by (metis (full_types) not_None_eq)
  qed
  with inv' show ?thesis by blast
qed

lemma del_dns_hash_ok:
  assumes inv: "hash_inv qn t" and wf: "wf_name k"
  shows "ok (del_dns_hash qn t (wire k @ r)) (\<lambda>(res, t'). res = hash_find qn t k \<and> hash_inv qn t' \<and>
    (\<forall>k'. wf_name k' \<longrightarrow> hash_find qn t' k' = (if fold_name k' = fold_name k then None else hash_find qn t k')))"
proof -
  obtain b rh where h: "name_hash k = (b, rh)" by (cases "name_hash k")
  from hash_inv_chain [OF inv, of k] h have b: "b < length t" and ch: "chain_ok qn b (t ! b)" by auto
  from lookup_chain_ok [OF ch wf, of r 0] obtain res j where
    l: "lookup_chain qn (wire k @ r) rh 0 (t ! b) = Some (res, 0 + j)" and walk: "walk_post qn k (t ! b) res j"
    by (auto simp: h elim!: okE)
  note d = del_chain_lookup [OF l]
  have "\<forall>he \<in> set (t ! b). named qn (data he) k \<longrightarrow> rhash he = snd (name_hash k)"
    using chain_named_hash [OF ch] by auto
  from find_walk [OF ch walk this] h have res: "res = hash_find qn t k" by (simp add: hash_find_def)
  have run: "del_dns_hash qn t (wire k @ r) = Some (res, t[b := if res = None then t ! b else drop_nth j (t ! b)])"
    using b h d wf by (simp add: del_dns_hash_def dns_hash_wire wf_name_labels)
  show ?thesis
  proof (cases res)
    case None
    have "hash_find qn t k' = None" if "fold_name k' = fold_name k" for k'
      using None res name_hash_case [OF that] that by (simp add: hash_find_def named_def)
    with None run res inv show ?thesis by simp
  next
    case (Some a)
    with run have run': "del_dns_hash qn t (wire k @ r) = Some (res, t[b := drop_nth j (t ! b)])" by simp
    from walk Some have "walk_post qn k (t ! b) (Some a) j" by simp
    from hash_del_ok [OF inv wf h this] res show ?thesis unfolding run' by simp
  qed
qed

lemma del_dns_hash_ent_ok:
  assumes inv: "hash_inv qn t" and wf: "wf_name k"
    and loc: "loc_bucket loc = fst (name_hash k)" "walk_post qn k (t ! fst (name_hash k)) (Some a) (loc_pos loc)"
  shows "ok (del_dns_hash_ent t loc) (\<lambda>(x, t'). x = a \<and> hash_inv qn t' \<and>
    (\<forall>k'. wf_name k' \<longrightarrow> hash_find qn t' k' = (if fold_name k' = fold_name k then None else hash_find qn t k')))"
proof -
  obtain b rh where h: "name_hash k = (b, rh)" by (cases "name_hash k")
  from hash_inv_chain [OF inv, of k] h have b: "b < length t" by simp
  from loc h have w: "walk_post qn k (t ! b) (Some a) (loc_pos loc)" by simp
  then have "loc_pos loc < length (t ! b)" "data (t ! b ! loc_pos loc) = a" by (auto simp: walk_post_def)
  with hash_del_ok [OF inv wf h w] b loc h show ?thesis
    by (simp add: del_dns_hash_ent_def drop_nth_def)
qed

lemma mk_dns_hash_inv: "hash_inv qn mk_dns_hash"
  by (simp add: hash_inv_def mk_dns_hash_def chain_ok_def)

lemma mk_dns_hash_find: "hash_find qn mk_dns_hash k = None"
  using hash_find_None [OF mk_dns_hash_inv] name_hash_bound [of k] by (simp add: mk_dns_hash_def)

interpretation ht: name_map hash_inv hash_find mk_dns_hash "\<lambda>qn a k. qn(a \<mapsto> wire k)" "\<lambda>qn a. qn a = None"
  hash_put "\<lambda>qn t k. del_dns_hash qn t (wire k)"
proof
  fix qn t and k k' :: "label list"
  assume "fold_name k = fold_name k'"
  with name_hash_case [OF this] show "hash_find qn t k = hash_find qn t k'"
    by (simp add: hash_find_def named_def)
next
  fix qn t and k :: "label list"
  assume "hash_inv qn t" "wf_name k"
  from del_dns_hash_ok [OF this, of "[]"] show "ok (del_dns_hash qn t (wire k)) (\<lambda>(r, t'). hash_inv qn t' \<and>
      r = hash_find qn t k \<and> (\<forall>k'. wf_name k' \<longrightarrow>
        hash_find qn t' k' = (if fold_name k' = fold_name k then None else hash_find qn t k')))"
    by (auto elim!: ok_mono)
qed (auto simp: mk_dns_hash_inv mk_dns_hash_find hash_put_ok)

section \<open>Iterating over the table\<close>

lemma fetch_from_ok:
  assumes "length t = HASH_NUM_BUCKETS"
  shows "(fetch_from t i = Some None \<and> concat (drop i t) = []) \<or>
    (\<exists>he b hes. fetch_from t i = Some (Some (data he, b, hes)) \<and> b < HASH_NUM_BUCKETS \<and>
      concat (drop i t) = he # hes @ concat (drop (Suc b) t))"
  using assms
proof (induction t i rule: fetch_from.induct)
  case (1 t i)
  show ?case
  proof (cases "i < HASH_NUM_BUCKETS")
    case True
    with 1 have i: "i < length t" "rd t i = Some (t ! i)" by simp_all
    then have dr: "drop i t = t ! i # drop (Suc i) t" by (simp add: Cons_nth_drop_Suc)
    show ?thesis
    proof (cases "t ! i")
      case Nil
      with 1 i True dr show ?thesis by (simp add: fetch_from.simps [of t i])
    next
      case (Cons he hes)
      with i True dr show ?thesis by (auto simp: fetch_from.simps [of t i])
    qed
  next
    case False
    with 1 show ?thesis by (simp add: fetch_from.simps)
  qed
qed

lemma fetch_rest_ok:
  "length t = HASH_NUM_BUCKETS \<Longrightarrow>
   fetch_rest t pos = Some (map data (snd pos @ concat (drop (Suc (fst pos)) t)))"
proof (induction t pos rule: fetch_rest.induct)
  case (1 t pos)
  show ?case
  proof (cases "snd pos")
    case (Cons he hes)
    with 1 show ?thesis by (simp add: fetch_rest.simps [of t pos] fetch_next_def)
  next
    case Nil
    with 1 fetch_from_ok [OF "1.prems", of "Suc (fst pos)"] show ?thesis
      by (auto simp: fetch_rest.simps [of t pos] fetch_next_def)
  qed
qed

lemma fetch_all_ok: "length t = HASH_NUM_BUCKETS \<Longrightarrow> fetch_all t = Some (map data (concat t))"
  using fetch_from_ok [of t 0] fetch_rest_ok [of t] by (auto simp: fetch_all_def fetch_first_def)

section \<open>Properties\<close>

text \<open>
  C30. The hash of a name, bucket and long hash, does not depend on the case of its letters nor
  on what follows it in memory, and the bucket is always one of the 1024.
\<close>

theorem dns_hash_ignores_case:
  assumes "wf_name xs" and "wf_name ys" and "fold_name xs = fold_name ys"
  shows "dns_hash (wire xs @ r) = dns_hash (wire ys @ s) \<and>
    ok (dns_hash (wire xs @ r)) (\<lambda>(idx, rh). idx < HASH_NUM_BUCKETS)"
  using assms name_hash_case [OF assms(3)] name_hash_bound [of ys]
  by (cases "name_hash ys") (simp add: dns_hash_wire wf_name_labels)

theorem dns_hash_ignores_case_witness:
  "dns_hash (wire [[65, 98]] @ []) = dns_hash (wire [[97, 66]] @ [3]) \<and>
    ok (dns_hash (wire [[65, 98]] @ [])) (\<lambda>(idx, rh). idx < HASH_NUM_BUCKETS)"
  using dns_hash_ignores_case [of "[[65, 98]]" "[[97, 66]]" "[]" "[3]"]
  by (auto simp: wf_name_def wf_label_def DNSNAMEBUFSIZE_def tolower_def)

text \<open>
  C28. A name added to the table at the place \<open>dns_lookup\<close> gave for it is found from then on
  under every spelling, every other name is found as before, and the chains stay ordered and
  free of duplicates.
\<close>

theorem add_dns_hash_lookup:
  assumes "hash_inv qn t" and "wf_name k" and "hash_find qn t k = None" and "qn a = None"
  shows "ok (dns_lookup qn t (wire k)) (\<lambda>(res, loc). res = None \<and>
    ok (add_dns_hash t a loc True) (\<lambda>(r, t'). r \<and> hash_inv (qn(a \<mapsto> wire k)) t' \<and>
      (\<forall>k'. wf_name k' \<longrightarrow> ok (dns_lookup (qn(a \<mapsto> wire k)) t' (wire k')) (\<lambda>(res', loc').
        res' = (if fold_name k' = fold_name k then Some a else hash_find qn t k')))))"
proof -
  from ht.ins_ok [OF assms] obtain t' where put: "hash_put qn t k a = Some t'"
    and inv': "hash_inv (qn(a \<mapsto> wire k)) t'"
    and look: "\<And>k'. wf_name k' \<Longrightarrow>
      hash_find (qn(a \<mapsto> wire k)) t' k' = (if fold_name k' = fold_name k then Some a else hash_find qn t k')"
    by (auto elim: okE)
  from dns_lookup_ok [OF assms(1,2), of "[]"] assms(3) obtain loc
    where l: "dns_lookup qn t (wire k) = Some (None, loc)" by (auto elim!: okE)
  with put obtain r where add: "add_dns_hash t a loc True = Some (r, t')"
    by (auto simp: hash_put_def bind_eq_Some_conv)
  then have "r" by (auto simp: add_dns_hash_def bind_eq_Some_conv split: if_splits)
  moreover have "ok (dns_lookup (qn(a \<mapsto> wire k)) t' (wire k')) (\<lambda>(res', loc').
      res' = (if fold_name k' = fold_name k then Some a else hash_find qn t k'))" if "wf_name k'" for k'
    using dns_lookup_ok [OF inv' that, of "[]"] look [OF that] by (auto elim!: ok_mono)
  ultimately show ?thesis using l add inv' by simp
qed

theorem add_dns_hash_lookup_witness:
  "ok (dns_lookup Map.empty mk_dns_hash (wire [[97]])) (\<lambda>(res, loc). res = None \<and>
    ok (add_dns_hash mk_dns_hash 5 loc True) (\<lambda>(r, t'). r \<and>
      ok (dns_lookup [5 \<mapsto> wire [[97]]] t' (wire [[65]])) (\<lambda>(res', loc'). res' = Some 5)))"
proof -
  have "wf_name [[97]]" "wf_name [[65]]" "fold_name [[65]] = fold_name [[97]]"
    by (simp_all add: wf_name_def wf_label_def DNSNAMEBUFSIZE_def tolower_def)
  with add_dns_hash_lookup [of Map.empty mk_dns_hash "[[97]]" 5] show ?thesis
    by (fastforce simp: mk_dns_hash_inv mk_dns_hash_find elim!: ok_mono)
qed

text \<open>
  C29. \<open>del_dns_hash\<close> returns the entry found under the name, if there is one; afterwards the
  name is not found under any spelling, every other name is found as before, and iterating with
  \<open>fetch_first\<close> and \<open>fetch_next\<close> visits exactly the remaining entries.
\<close>

theorem del_dns_hash_lookup:
  assumes "hash_inv qn t" and "wf_name k"
  shows "ok (del_dns_hash qn t (wire k)) (\<lambda>(r, t'). r = hash_find qn t k \<and> hash_inv qn t' \<and>
    fetch_all t' = Some (map data (concat t')) \<and>
    (\<forall>k'. wf_name k' \<longrightarrow> hash_find qn t' k' = (if fold_name k' = fold_name k then None else hash_find qn t k')))"
  using ht.del_ok [OF assms] by (auto simp: hash_inv_def fetch_all_ok elim!: ok_mono)

theorem del_dns_hash_lookup_witness:
  "ok (del_dns_hash Map.empty mk_dns_hash (wire [[97]])) (\<lambda>(r, t'). r = None \<and> fetch_all t' = Some (map data (concat t')))"
  using del_dns_hash_lookup [of Map.empty mk_dns_hash "[[97]]"]
  by (auto simp: mk_dns_hash_inv mk_dns_hash_find wf_name_def wf_label_def DNSNAMEBUFSIZE_def elim!: ok_mono)

end
