(* ===== verification/Cache.thy ===== *)
theory Cache
  imports Cents Hash DomainMatch "HOL-Library.Signed_Division"
begin

text \<open>
  The cache (\<^verbatim>\<open>src/cache.c\<close>, and the routines of \<^verbatim>\<open>src/hash.c\<close> that free whole parts of the table): adding,
  looking up, invalidating, purging and deleting entries.

  Each operation works under the lock of theory \<open>CacheLock\<close>, so it is a function on the state. The heap
  of entries is a map from addresses; using an address that is not allocated is a fault. The time
  of day is the argument \<open>now\<close>, and the configuration values used are those of \<^verbatim>\<open>globparm_t\<close>.
\<close>

section \<open>State\<close>

record cache =
  hash_buckets :: buckets
  cents :: "nat \<rightharpoonup> dns_cent"
  rrset_l :: rrl
  cache_size :: int
  ent_num :: int
  insert_sort :: bool
  fresh :: nat

record globparm =
  perm_cache :: int
  min_ttl :: int
  max_ttl :: int
  neg_ttl_g :: int

definition MCSZ :: int where "MCSZ = 10240"
definition CACHE_LAT :: int where "CACHE_LAT = 120"

definition CLAT_ADJ :: "int \<Rightarrow> int" where
  "CLAT_ADJ t = (if t < CACHE_LAT then CACHE_LAT else t)"

text \<open>
  The value of an expression of type \<^verbatim>\<open>time_t\<close>, a signed integer of 64 bits. The time stamps come unchecked from
  the cache file, so the sums can overflow. ISO C does not define that; the model takes what
  the machine computes, the sum in two's complement.
\<close>

definition time_t :: "int \<Rightarrow> int" where
  "time_t x = signed_take_bit 63 x"

definition timedout :: "int \<Rightarrow> rr_set \<Rightarrow> bool" where
  "timedout now rs \<longleftrightarrow> time_t (ts rs + CLAT_ADJ (ttl rs)) < now"

definition timedout_nxdom :: "int \<Rightarrow> dns_cent \<Rightarrow> bool option" where
  "timedout_nxdom now c = (case body c of RR _ _ \<Rightarrow> None | Neg _ t s \<Rightarrow> Some (time_t (s + CLAT_ADJ t) < now))"

definition qn :: "cache \<Rightarrow> nat \<rightharpoonup> bytes" where
  "qn s a = map_option qname (cents s a)"

definition lookup :: "cache \<Rightarrow> bytes \<Rightarrow> (nat option \<times> dns_hash_loc) option" where
  "lookup s name = dns_lookup (qn s) (hash_buckets s) name"

definition init_cache :: cache where
  "init_cache = \<lparr>hash_buckets = mk_dns_hash, cents = Map.empty, rrset_l = [], cache_size = 0, ent_num = 0,
     insert_sort = True, fresh = 0\<rparr>"

fun foldM :: "('a \<Rightarrow> 's \<Rightarrow> 's option) \<Rightarrow> 'a list \<Rightarrow> 's \<Rightarrow> 's option" where
  "foldM f [] s = Some s"
| "foldM f (x # xs) s = do { s \<leftarrow> f x s; foldM f xs s }"

section \<open>The list of record sets by age\<close>

definition get_rrlent_ts :: "(nat \<rightharpoonup> dns_cent) \<Rightarrow> rr_lent \<Rightarrow> int option" where
  "get_rrlent_ts h le = do {
     c \<leftarrow> h (lcent le);
     if lrrset le then do { r \<leftarrow> RRARR_INDEX c (nat (lidx le)); map_option ts r }
     else (case body c of RR _ _ \<Rightarrow> None | Neg _ _ s \<Rightarrow> Some s) }"

text \<open>\<open>idx\<close> is \<open>None\<close> for a negatively cached domain (the code passes a null pointer and -1).\<close>

definition insert_rrl :: "nat \<Rightarrow> nat option \<Rightarrow> cache \<Rightarrow> allocs \<Rightarrow> (bool \<times> cache \<times> allocs) option" where
  "insert_rrl a idx s al = do {
     c \<leftarrow> cents s a;
     rs \<leftarrow> (case idx of None \<Rightarrow> Some None | Some i \<Rightarrow> RRARR_INDEX c i);
     if (case rs of None \<Rightarrow> False | Some rs \<Rightarrow> has (flags rs) CF_LOCAL) \<or> has (cflags c) DF_LOCAL then Some (True, s, al)
     else let (mem, al) = malloc al in
       if \<not> mem then Some (False, s, al)
       else do {
         let ne = \<lparr>lnode = fresh s, lrrset = (rs \<noteq> None), lcent = a,
           lidx = (case idx of None \<Rightarrow> - 1 | Some i \<Rightarrow> int i)\<rparr>;
         l \<leftarrow> (if insert_sort s then insert_sorted (get_rrlent_ts (cents s)) ne (rrset_l s) else Some (rrset_l s @ [ne]));
         c \<leftarrow> (case (idx, rs) of
             (Some i, Some rs) \<Rightarrow> RRARR_set c i (Some (rs\<lparr>lent := Some (fresh s)\<rparr>))
           | _ \<Rightarrow> (case body c of RR _ _ \<Rightarrow> None | Neg _ t x \<Rightarrow> Some (c\<lparr>body := Neg (Some (fresh s)) t x\<rparr>)));
         Some (True, s\<lparr>rrset_l := l, cents := (cents s)(a \<mapsto> c), fresh := fresh s + 1\<rparr>, al) } }"

definition sort_rrl :: "cache \<Rightarrow> cache option" where
  "sort_rrl s = (if \<forall>le \<in> set (rrset_l s). get_rrlent_ts (cents s) le \<noteq> None then do {
     l \<leftarrow> sort_list (\<lambda>le. the (get_rrlent_ts (cents s) le)) (rrset_l s);
     Some (s\<lparr>rrset_l := l\<rparr>) } else None)"

section \<open>Deleting\<close>

text \<open>An operation on one entry and the list.\<close>

definition del_set :: "nat \<Rightarrow> nat \<Rightarrow> cache \<Rightarrow> (nat \<times> cache) option" where
  "del_set a i s = do {
     c \<leftarrow> cents s a;
     (rv, c, l) \<leftarrow> del_cent_rrset_by_index c i (rrset_l s);
     Some (rv, s\<lparr>cents := (cents s)(a \<mapsto> c), rrset_l := l\<rparr>) }"

definition del_cent :: "nat \<Rightarrow> cache \<Rightarrow> cache option" where
  "del_cent a s = do {
     c \<leftarrow> cents s a;
     l \<leftarrow> free_cent c (rrset_l s);
     Some (s\<lparr>cache_size := cache_size s - int (cs c), rrset_l := l, cents := (cents s)(a := None),
       ent_num := ent_num s - 1\<rparr>) }"

definition del_cache_ent :: "nat \<Rightarrow> dns_hash_loc option \<Rightarrow> cache \<Rightarrow> cache option" where
  "del_cache_ent a loc s = do {
     c \<leftarrow> cents s a;
     t \<leftarrow> (case loc of Some loc \<Rightarrow> map_option snd (del_dns_hash_ent (hash_buckets s) loc)
       | None \<Rightarrow> map_option snd (del_dns_hash (qn s) (hash_buckets s) (qname c)));
     del_cent a (s\<lparr>hash_buckets := t\<rparr>) }"

definition del_cache :: "bytes \<Rightarrow> cache \<Rightarrow> cache option" where
  "del_cache name s = do {
     (r, t) \<leftarrow> del_dns_hash (qn s) (hash_buckets s) name;
     (case r of None \<Rightarrow> Some (s\<lparr>hash_buckets := t\<rparr>) | Some a \<Rightarrow> del_cent a (s\<lparr>hash_buckets := t\<rparr>)) }"

fun free_chain :: "dns_hash_ent list \<Rightarrow> cache \<Rightarrow> cache option" where
  "free_chain [] s = Some s"
| "free_chain (he # hes) s = do { s \<leftarrow> del_cent (data he) s; free_chain hes s }"

definition free_dns_hash_bucket :: "nat \<Rightarrow> cache \<Rightarrow> cache option" where
  "free_dns_hash_bucket i s = do {
     chain \<leftarrow> rd (hash_buckets s) i;
     free_chain chain (s\<lparr>hash_buckets := (hash_buckets s)[i := []]\<rparr>) }"

definition free_dns_hash :: "cache \<Rightarrow> cache option" where
  "free_dns_hash s = foldM free_dns_hash_bucket [0..<HASH_NUM_BUCKETS] s"

text \<open>An include/exclude list (\<^verbatim>\<open>slist_t\<close> of \<^verbatim>\<open>src/conff.h\<close>); \<open>included\<close> is \<^verbatim>\<open>rule==C_INCLUDED\<close>.\<close>

record slist =
  sl_domain :: bytes
  exact :: bool
  included :: bool

fun selected :: "bytes \<Rightarrow> slist list \<Rightarrow> bool option" where
  "selected name [] = Some False"
| "selected name (sl # sla) = do {
     (_, nrem, lrem) \<leftarrow> domain_match name (sl_domain sl);
     if lrem = 0 \<and> (\<not> exact sl \<or> nrem = 0) then Some (included sl) else selected name sla }"

text \<open>The result is the rest of the chain.\<close>

fun free_chain_selected :: "slist list \<Rightarrow> dns_hash_ent list \<Rightarrow> cache \<Rightarrow> (dns_hash_ent list \<times> cache) option" where
  "free_chain_selected sla [] s = Some ([], s)"
| "free_chain_selected sla (he # hes) s = do {
     c \<leftarrow> cents s (data he);
     del \<leftarrow> selected (qname c) sla;
     if del then do { s \<leftarrow> del_cent (data he) s; free_chain_selected sla hes s }
     else do { (hes, s) \<leftarrow> free_chain_selected sla hes s; Some (he # hes, s) } }"

definition free_dns_hash_selected :: "slist list \<Rightarrow> nat \<Rightarrow> cache \<Rightarrow> cache option" where
  "free_dns_hash_selected sla i s = do {
     chain \<leftarrow> rd (hash_buckets s) i;
     (chain, s) \<leftarrow> free_chain_selected sla chain s;
     Some (s\<lparr>hash_buckets := (hash_buckets s)[i := chain]\<rparr>) }"

text \<open>\<open>empty_cache\<close> once it has the lock (\<open>locked\<close>: the outcome of \<open>timedlock_cache_rw\<close>). Between two buckets
  other threads may work on the cache; \<open>env i\<close> is their effect after bucket \<open>i\<close>.\<close>

definition empty_step :: "slist list option \<Rightarrow> (nat \<Rightarrow> cache \<Rightarrow> cache) \<Rightarrow> nat \<Rightarrow> cache \<Rightarrow> cache option" where
  "empty_step sla env i s = do {
     s \<leftarrow> (case sla of Some sla \<Rightarrow> free_dns_hash_selected sla i s | None \<Rightarrow> free_dns_hash_bucket i s);
     Some (if i + 1 \<ge> HASH_NUM_BUCKETS then s else env i s) }"

definition empty_cache :: "bool \<Rightarrow> slist list option \<Rightarrow> (nat \<Rightarrow> cache \<Rightarrow> cache) \<Rightarrow> cache \<Rightarrow> (bool \<times> cache) option" where
  "empty_cache locked sla env s = (if \<not> locked then Some (False, s)
     else map_option (Pair True) (foldM (empty_step sla env) [0..<HASH_NUM_BUCKETS] s))"

section \<open>Purging\<close>

definition purgeable :: "int \<Rightarrow> rr_set \<Rightarrow> bool" where
  "purgeable now rs \<longleftrightarrow> \<not> (has (flags rs) CF_NOPURGE \<or> has (flags rs) CF_LOCAL) \<and> timedout now rs"

definition purge_rrset :: "int \<Rightarrow> nat \<Rightarrow> nat \<Rightarrow> bool \<Rightarrow> cache \<Rightarrow> (bool \<times> cache) option" where
  "purge_rrset now a idx test s = do {
     c \<leftarrow> cents s a;
     r \<leftarrow> RRARR_INDEX_TESTEXT c idx;
     (case r of None \<Rightarrow> Some (False, s)
      | Some rs \<Rightarrow> if purgeable now rs then
          (if test then Some (True, s)
           else do { (rv, s) \<leftarrow> del_set a idx s; Some (True, s\<lparr>cache_size := cache_size s - int rv\<rparr>) })
        else Some (False, s)) }"

text \<open>The loop of \<open>purge_all_rrsets\<close>: the state, \<open>rv\<close>, \<open>numrrs\<close> and \<open>numrrext\<close>.\<close>

definition purge_all_step :: "int \<Rightarrow> nat \<Rightarrow> bool \<Rightarrow> nat \<Rightarrow> cache \<times> nat \<times> nat \<times> nat \<Rightarrow> (cache \<times> nat \<times> nat \<times> nat) option" where
  "purge_all_step now a test i st = (case st of (s, rv, numrrs, numrrext) \<Rightarrow> do {
     c \<leftarrow> cents s a;
     r \<leftarrow> RRARR_INDEX c i;
     (case r of None \<Rightarrow> Some (s, rv, numrrs, numrrext)
      | Some rs \<Rightarrow> if purgeable now rs then do {
            s \<leftarrow> (if test then Some s else do { (n, s) \<leftarrow> del_set a i s; Some (s\<lparr>cache_size := cache_size s - int n\<rparr>) });
            Some (s, rv + 1, numrrs, numrrext) }
          else Some (s, rv, numrrs + 1, if i \<ge> NRRMU then numrrext + 1 else numrrext)) })"

text \<open>Freeing the array of the less used types.\<close>

definition drop_ext :: "nat \<Rightarrow> cache \<Rightarrow> cache option" where
  "drop_ext a s = do {
     c \<leftarrow> cents s a;
     (case body c of Neg _ _ _ \<Rightarrow> None
      | RR mu ext \<Rightarrow> do {
          n \<leftarrow> usub (cs c) sizeof_rrext;
          Some (s\<lparr>cents := (cents s)(a \<mapsto> c\<lparr>body := RR mu None, cs := n\<rparr>),
            cache_size := cache_size s - int sizeof_rrext\<rparr>) }) }"

definition purge_all_rrsets :: "int \<Rightarrow> nat \<Rightarrow> bool \<Rightarrow> cache \<Rightarrow> (nat \<times> nat \<times> cache) option" where
  "purge_all_rrsets now a test s = do {
     c \<leftarrow> cents s a;
     if is_neg c then Some (0, 0, s)
     else do {
       ilim \<leftarrow> RRARR_LEN c;
       (s, rv, numrrs, numrrext) \<leftarrow> foldM (purge_all_step now a test) [0..<ilim] (s, 0, 0, 0);
       if ilim = NRRTOT \<and> numrrext = 0 then do {
         s \<leftarrow> (if test then Some s else drop_ext a s);
         Some (rv + 1, numrrs, s) }
       else Some (rv, numrrs, s) } }"

definition GET_RRSMU :: "dns_cent \<Rightarrow> nat \<Rightarrow> rr_set option option" where
  "GET_RRSMU c i = (if is_neg c then Some None else (case body c of Neg _ _ _ \<Rightarrow> None | RR mu _ \<Rightarrow> rd mu i))"

text \<open>Whether the reference \<open>cn\<close> (\<open>c_ns\<close> or \<open>c_soa\<close>) of an entry whose name has \<open>scnt\<close> labels is stale;
  \<open>mui\<close> is the index of the record type.\<close>

definition stale_ref :: "int \<Rightarrow> cache \<Rightarrow> nat \<Rightarrow> nat \<Rightarrow> byte \<Rightarrow> nat \<Rightarrow> bool option" where
  "stale_ref now s a scnt cn mui = (if cn = cundef then Some False else do {
     c \<leftarrow> cents s a;
     rrset \<leftarrow> (if unat cn = scnt then GET_RRSMU c mui
       else if unat cn < scnt then do {
         nm \<leftarrow> skipsegs (qname c) (scnt - unat cn);
         (r, _) \<leftarrow> lookup s nm;
         (case r of None \<Rightarrow> Some None | Some b \<Rightarrow> do { ce \<leftarrow> cents s b; GET_RRSMU ce mui }) }
       else Some None);
     Some (case rrset of None \<Rightarrow> True
       | Some rs \<Rightarrow> rrs rs = [] \<or> (\<not> has (flags rs) CF_LOCAL \<and> timedout now rs)) })"

definition purge_refs :: "int \<Rightarrow> nat \<Rightarrow> bool \<Rightarrow> cache \<Rightarrow> (nat \<times> cache) option" where
  "purge_refs now a test s = do {
     c \<leftarrow> cents s a;
     if has (cflags c) DF_LOCAL then Some (0, s)
     else do {
       scnt \<leftarrow> rhnsegcnt (qname c);
       ns \<leftarrow> stale_ref now s a scnt (c_ns c) 1;
       let s = (if ns \<and> \<not> test then s\<lparr>cents := (cents s)(a \<mapsto> c\<lparr>c_ns := cundef\<rparr>)\<rparr> else s);
       c \<leftarrow> cents s a;
       soa \<leftarrow> stale_ref now s a scnt (c_soa c) 3;
       let s = (if soa \<and> \<not> test then s\<lparr>cents := (cents s)(a \<mapsto> c\<lparr>c_soa := cundef\<rparr>)\<rparr> else s);
       Some (of_bool ns + of_bool soa, s) } }"

definition expired :: "int \<Rightarrow> dns_cent \<Rightarrow> bool option" where
  "expired now c = (if \<not> is_neg c then Some True
     else if has (cflags c) DF_LOCAL then Some False else timedout_nxdom now c)"

definition purge_cent :: "int \<Rightarrow> nat \<Rightarrow> bool \<Rightarrow> bool \<Rightarrow> cache \<Rightarrow> (int \<times> cache) option" where
  "purge_cent now a delete test s = do {
     (npurge, numrrs, s) \<leftarrow> purge_all_rrsets now a test s;
     c \<leftarrow> cents s a;
     gone \<leftarrow> (if delete \<and> numrrs = 0 then expired now c else Some False);
     if gone then do {
       s \<leftarrow> (if test then Some s else del_cache_ent a None s);
       Some (- 1, s) }
     else do {
       (n, s) \<leftarrow> purge_refs now a test s;
       Some (int (npurge + n), s) } }"

text \<open>The node at an address, and the address of its successor.\<close>

fun node_at :: "nat \<Rightarrow> rrl \<Rightarrow> (rr_lent \<times> nat option) option" where
  "node_at p [] = None"
| "node_at p (e # es) = (if lnode e = p then Some (e, case es of [] \<Rightarrow> None | x # _ \<Rightarrow> Some (lnode x)) else node_at p es)"

text \<open>A walk along the list: the successor is read before the body, which may free the node. The first
  argument bounds the number of steps; the number of nodes is enough.\<close>

fun purge_walk :: "nat \<Rightarrow> (rr_lent \<Rightarrow> cache \<Rightarrow> cache option) \<Rightarrow> (cache \<Rightarrow> bool) \<Rightarrow> nat option \<Rightarrow> cache \<Rightarrow> cache option" where
  "purge_walk n f go None s = Some s"
| "purge_walk 0 f go (Some p) s = (if go s then None else Some s)"
| "purge_walk (Suc n) f go (Some p) s = (if \<not> go s then Some s
     else do {
       (le, nxt) \<leftarrow> node_at p (rrset_l s);
       s \<leftarrow> f le s;
       purge_walk n f go nxt s })"

definition list_head :: "rrl \<Rightarrow> nat option" where
  "list_head l = (case l of [] \<Rightarrow> None | e # _ \<Rightarrow> Some (lnode e))"

definition local_node :: "rr_lent \<Rightarrow> cache \<Rightarrow> bool option" where
  "local_node le s = do {
     c \<leftarrow> cents s (lcent le);
     r \<leftarrow> (if lrrset le then RRARR_INDEX c (nat (lidx le)) else Some None);
     Some ((case r of None \<Rightarrow> False | Some rs \<Rightarrow> has (flags rs) CF_LOCAL) \<or> has (cflags c) DF_LOCAL) }"

definition purge_old :: "int \<Rightarrow> rr_lent \<Rightarrow> cache \<Rightarrow> cache option" where
  "purge_old now le s = do {
     loc \<leftarrow> local_node le s;
     if loc then Some s
     else do {
       s \<leftarrow> (if lrrset le then map_option snd (purge_rrset now (lcent le) (nat (lidx le)) False s) else Some s);
       c \<leftarrow> cents s (lcent le);
       gone \<leftarrow> (if num_rrs c = 0 then expired now c else Some False);
       if gone then del_cache_ent (lcent le) None s else Some s } }"

definition purge_any :: "rr_lent \<Rightarrow> cache \<Rightarrow> cache option" where
  "purge_any le s = do {
     loc \<leftarrow> local_node le s;
     if loc then Some s
     else do {
       s \<leftarrow> (if lrrset le then do {
           (rv, s) \<leftarrow> del_set (lcent le) (nat (lidx le)) s;
           Some (s\<lparr>cache_size := cache_size s - int rv\<rparr>) } else Some s);
       c \<leftarrow> cents s (lcent le);
       if num_rrs c = 0 then del_cache_ent (lcent le) None s else Some s } }"

definition purge_cache :: "int \<Rightarrow> int \<Rightarrow> bool \<Rightarrow> cache \<Rightarrow> cache option" where
  "purge_cache now sz lazy s = do {
     s \<leftarrow> purge_walk (length (rrset_l s)) (purge_old now) (\<lambda>s. \<not> lazy \<or> cache_size s > sz) (list_head (rrset_l s)) s;
     if cache_size s \<le> sz then Some s
     else do {
       s \<leftarrow> (if insert_sort s then Some s else map_option (\<lambda>s. s\<lparr>insert_sort := True\<rparr>) (sort_rrl s));
       purge_walk (length (rrset_l s)) purge_any (\<lambda>s. cache_size s > sz) (list_head (rrset_l s)) s } }"

section \<open>Adding entries\<close>

text \<open>The conflicting record sets: the number of them and the sum of their remaining lifetimes;
  \<open>None\<close> inside when one of them is local.\<close>

fun cr_sum :: "int \<Rightarrow> nat \<Rightarrow> dns_cent \<Rightarrow> nat list \<Rightarrow> nat \<Rightarrow> int \<Rightarrow> (nat \<times> int) option option" where
  "cr_sum now idx c [] ncf nttl = Some (Some (ncf, nttl))"
| "cr_sum now idx c (i # is) ncf nttl = do {
     r \<leftarrow> RRARR_INDEX c i;
     (case r of None \<Rightarrow> cr_sum now idx c is ncf nttl
      | Some rs \<Rightarrow> if \<not> has (flags rs) CF_NEGATIVE \<and> rr_conflict idx i then
          (if has (flags rs) CF_LOCAL then Some None
           else let rttl = time_t (time_t (ttl rs + ts rs) - now) in
             cr_sum now idx c is (ncf + 1) (if rttl > 0 then time_t (nttl + rttl) else nttl))
        else cr_sum now idx c is ncf nttl) }"

definition cr_del_step :: "nat \<Rightarrow> nat \<Rightarrow> nat \<Rightarrow> cache \<Rightarrow> cache option" where
  "cr_del_step idx a i s = do {
     c \<leftarrow> cents s a;
     r \<leftarrow> RRARR_INDEX c i;
     (case r of None \<Rightarrow> Some s
      | Some rs \<Rightarrow> if \<not> has (flags rs) CF_NEGATIVE \<and> rr_conflict idx i then map_option snd (del_set a i s) else Some s) }"

definition cr_check_add :: "int \<Rightarrow> nat \<Rightarrow> nat \<Rightarrow> int \<Rightarrow> 16 word \<Rightarrow> cache \<Rightarrow> (bool \<times> cache) option" where
  "cr_check_add now a idx ttl0 fl s = (if has fl CF_NEGATIVE then Some (True, s)
     else do {
       c \<leftarrow> cents s a;
       ilim \<leftarrow> RRARR_LEN c;
       if \<not> has fl CF_LOCAL then
         (if has (cflags c) DF_LOCAL then Some (False, s)
          else do {
            r \<leftarrow> cr_sum now idx c [0..<ilim] 0 0;
            (case r of None \<Rightarrow> Some (False, s)
             | Some (ncf, nttl) \<Rightarrow>
                 if ncf = 0 then Some (True, s)
                 else if ttl0 > nttl sdiv int ncf then
                   map_option (Pair True) (foldM (cr_del_step idx a) [0..<ilim] s)
                 else Some (False, s)) })
       else map_option (Pair True) (foldM (cr_del_step idx a) [0..<ilim] s) })"

definition adjust_ttl :: "globparm \<Rightarrow> rr_set \<Rightarrow> rr_set" where
  "adjust_ttl g rs = (if has (flags rs) CF_NOCACHE then rs\<lparr>flags := flags rs AND NOT CF_NOCACHE, ttl := 0\<rparr>
     else let mn = (if has (flags rs) CF_NEGATIVE \<and> neg_ttl_g g < min_ttl g then neg_ttl_g g else min_ttl g)
       in if ttl rs < mn then rs\<lparr>ttl := mn\<rparr> else if ttl rs > max_ttl g then rs\<lparr>ttl := max_ttl g\<rparr> else rs)"

definition adjust_dom_ttl :: "globparm \<Rightarrow> dns_cent \<Rightarrow> dns_cent option" where
  "adjust_dom_ttl g c = (case body c of RR _ _ \<Rightarrow> None | Neg le t s \<Rightarrow>
     Some (if has (cflags c) DF_NOCACHE then c\<lparr>cflags := cflags c AND NOT DF_NOCACHE, body := Neg le 0 s\<rparr>
       else let mn = (if neg_ttl_g g < min_ttl g then neg_ttl_g g else min_ttl g)
         in if t < mn then c\<lparr>body := Neg le mn s\<rparr> else if t > max_ttl g then c\<lparr>body := Neg le (max_ttl g) s\<rparr> else c))"

definition adjust_set :: "globparm \<Rightarrow> nat \<Rightarrow> nat \<Rightarrow> cache \<Rightarrow> cache option" where
  "adjust_set g a i s = do {
     c \<leftarrow> cents s a;
     r \<leftarrow> RRARR_INDEX c i;
     (case r of None \<Rightarrow> None
      | Some rs \<Rightarrow> do { c \<leftarrow> RRARR_set c i (Some (adjust_ttl g rs)); Some (s\<lparr>cents := (cents s)(a \<mapsto> c)\<rparr>) }) }"

text \<open>The loop over the record sets of a new entry; it stops when an allocation fails.\<close>

fun add_new_sets :: "globparm \<Rightarrow> nat \<Rightarrow> nat list \<Rightarrow> cache \<Rightarrow> allocs \<Rightarrow> (bool \<times> cache \<times> allocs) option" where
  "add_new_sets g a [] s al = Some (True, s, al)"
| "add_new_sets g a (i # is) s al = do {
     c \<leftarrow> cents s a;
     r \<leftarrow> RRARR_INDEX c i;
     (case r of None \<Rightarrow> add_new_sets g a is s al
      | Some rs \<Rightarrow> do {
          s \<leftarrow> adjust_set g a i s;
          (r, s, al) \<leftarrow> insert_rrl a (Some i) s al;
          if r then add_new_sets g a is s al else Some (False, s, al) }) }"

text \<open>A new entry. The first component of the result is false when the memory is exhausted; then the copy is freed.\<close>

definition add_new :: "globparm \<Rightarrow> dns_cent \<Rightarrow> dns_hash_loc \<Rightarrow> cache \<Rightarrow> allocs \<Rightarrow> (bool \<times> cache \<times> allocs) option" where
  "add_new g cent loc s al = do {
     (ce, al) \<leftarrow> copy_cent cent al;
     (case ce of None \<Rightarrow> Some (False, s, al)
      | Some ce \<Rightarrow> do {
          let a = fresh s;
          let s = s\<lparr>cents := (cents s)(a \<mapsto> ce), fresh := a + 1\<rparr>;
          (r, s, al) \<leftarrow> (if \<not> is_neg ce then do {
              ilim \<leftarrow> RRARR_LEN ce;
              add_new_sets g a [0..<ilim] s al }
            else do {
              ce \<leftarrow> adjust_dom_ttl g ce;
              insert_rrl a None (s\<lparr>cents := (cents s)(a \<mapsto> ce)\<rparr>) al });
          let (mem, al) = (if r then malloc al else (False, al));
          (r, t) \<leftarrow> (if r then add_dns_hash (hash_buckets s) a loc mem else Some (False, hash_buckets s));
          ce \<leftarrow> cents s a;
          if r then Some (True, s\<lparr>hash_buckets := t, ent_num := ent_num s + 1, cache_size := cache_size s + int (cs ce)\<rparr>, al)
          else do { l \<leftarrow> free_cent ce (rrset_l s); Some (False, s\<lparr>rrset_l := l, cents := (cents s)(a := None)\<rparr>, al) } }) }"

text \<open>Local records have precedence, records from answer sections over additional ones, and those from
  root servers over additional ones of other servers.\<close>

definition old_precedes :: "int \<Rightarrow> rr_set \<Rightarrow> rr_set \<Rightarrow> bool" where
  "old_precedes now new old \<longleftrightarrow> (\<not> has (flags new) CF_LOCAL \<and> has (flags old) CF_LOCAL) \<or>
     (has (flags new) CF_ADDITIONAL \<and>
      (\<not> has (flags old) CF_ADDITIONAL \<or> (\<not> has (flags new) CF_ROOTSERV \<and> has (flags old) CF_ROOTSERV)) \<and>
      \<not> timedout now old)"

fun add_rrs :: "nat \<Rightarrow> nat \<Rightarrow> rr_set \<Rightarrow> bytes list \<Rightarrow> nat option \<Rightarrow> cache \<Rightarrow> allocs \<Rightarrow> (bool \<times> cache \<times> allocs) option" where
  "add_rrs a i new [] rtail s al = Some (True, s, al)"
| "add_rrs a i new (b # bs) rtail s al = do {
     c \<leftarrow> cents s a;
     (r, rtail, c, l, al) \<leftarrow> add_cent_rr_int c i (ttl new) (ts new) (flags new) b rtail (rrset_l s) al;
     let s = s\<lparr>cents := (cents s)(a \<mapsto> c), rrset_l := l\<rparr>;
     if r then add_rrs a i new bs rtail s al else Some (False, s, al) }"

text \<open>The body of the loop over the record sets added to an existing entry. False: the memory is exhausted.\<close>

definition add_set :: "globparm \<Rightarrow> int \<Rightarrow> nat \<Rightarrow> nat \<Rightarrow> rr_set \<Rightarrow> cache \<Rightarrow> allocs \<Rightarrow> (bool \<times> cache \<times> allocs) option" where
  "add_set g now a i new s al = do {
     c \<leftarrow> cents s a;
     old \<leftarrow> RRARR_INDEX_TESTEXT c i;
     if (case old of None \<Rightarrow> False | Some old \<Rightarrow> old_precedes now new old) then Some (True, s, al)
     else do {
       (_, s) \<leftarrow> del_set a i s;
       (r, s) \<leftarrow> cr_check_add now a i (ttl new) (flags new) s;
       if \<not> r then Some (True, s, al)
       else do {
         c \<leftarrow> cents s a;
         (r, c, l, al) \<leftarrow> add_cent_rrset_by_index c i (ttl new) (ts new) (flags new) (rrset_l s) al;
         let s = s\<lparr>cents := (cents s)(a \<mapsto> c), rrset_l := l\<rparr>;
         if \<not> r then Some (False, s, al)
         else do {
           (r, s, al) \<leftarrow> add_rrs a i new (rrs new) None s al;
           (r, s, al) \<leftarrow> (if r then do { s \<leftarrow> adjust_set g a i s; insert_rrl a (Some i) s al } else Some (False, s, al));
           if r then Some (True, s, al)
           else do { (_, s) \<leftarrow> del_set a i s; Some (False, s, al) } } } } }"

fun add_sets :: "globparm \<Rightarrow> int \<Rightarrow> nat \<Rightarrow> dns_cent \<Rightarrow> nat list \<Rightarrow> cache \<Rightarrow> allocs \<Rightarrow> (bool \<times> cache \<times> allocs) option" where
  "add_sets g now a cent [] s al = Some (True, s, al)"
| "add_sets g now a cent (i # is) s al = do {
     r \<leftarrow> RRARR_INDEX cent i;
     (case r of None \<Rightarrow> add_sets g now a cent is s al
      | Some new \<Rightarrow> do {
          (r, s, al) \<leftarrow> add_set g now a i new s al;
          if r then add_sets g now a cent is s al else Some (False, s, al) }) }"

definition better_ref :: "byte \<Rightarrow> byte \<Rightarrow> byte" where
  "better_ref new old = (if new \<noteq> cundef \<and> (old = cundef \<or> old < new) then new else old)"

definition add_existing :: "globparm \<Rightarrow> int \<Rightarrow> dns_cent \<Rightarrow> nat \<Rightarrow> cache \<Rightarrow> allocs \<Rightarrow> (bool \<times> cache \<times> allocs) option" where
  "add_existing g now cent a s al = do {
     (_, s) \<leftarrow> purge_cent now a False False s;
     ce \<leftarrow> cents s a;
     let s = s\<lparr>cache_size := cache_size s - int (cs ce)\<rparr>;
     ilim \<leftarrow> RRARR_LEN cent;
     (r, s, al) \<leftarrow> add_sets g now a cent [0..<ilim] s al;
     ce \<leftarrow> cents s a;
     let s = s\<lparr>cache_size := cache_size s + int (cs ce)\<rparr>;
     if r then Some (True, s\<lparr>cents := (cents s)(a \<mapsto> ce\<lparr>cflags := cflags ce OR (cflags cent AND (DF_AUTH OR DF_WILD)),
         c_ns := better_ref (c_ns cent) (c_ns ce), c_soa := better_ref (c_soa cent) (c_soa ce)\<rparr>)\<rparr>, al)
     else Some (False, s, al) }"

fun any_local :: "dns_cent \<Rightarrow> nat list \<Rightarrow> bool option" where
  "any_local c [] = Some False"
| "any_local c (i # is) = do {
     r \<leftarrow> RRARR_INDEX c i;
     if (case r of None \<Rightarrow> False | Some rs \<Rightarrow> has (flags rs) CF_LOCAL) then Some True else any_local c is }"

definition purge_limit :: "globparm \<Rightarrow> int" where
  "purge_limit g = perm_cache g * 1024 + MCSZ"

text \<open>The argument \<open>n\<close> bounds the number of passes through the label \<^verbatim>\<open>retry\<close>; two are enough.\<close>

fun add_cache_try :: "nat \<Rightarrow> globparm \<Rightarrow> int \<Rightarrow> dns_cent \<Rightarrow> cache \<Rightarrow> allocs \<Rightarrow> (cache \<times> allocs) option" where
  "add_cache_try 0 g now cent s al = None"
| "add_cache_try (Suc n) g now cent s al = do {
     (r, loc) \<leftarrow> lookup s (qname cent);
     (case r of
       None \<Rightarrow>
         if num_rrs cent = 0 \<and> \<not> is_neg cent then do { s \<leftarrow> purge_cache now (purge_limit g) True s; Some (s, al) }
         else do {
           (r, s, al) \<leftarrow> add_new g cent loc s al;
           s \<leftarrow> (if r then purge_cache now (purge_limit g) True s else Some s);
           Some (s, al) }
     | Some a \<Rightarrow>
         if is_neg cent then do {
           ce \<leftarrow> cents s a;
           ilim \<leftarrow> RRARR_LEN ce;
           loc_rr \<leftarrow> any_local ce [0..<ilim];
           if loc_rr then Some (s, al)
           else do { s \<leftarrow> del_cache_ent a (Some loc) s; add_cache_try n g now cent s al } }
         else do {
           (r, s, al) \<leftarrow> add_existing g now cent a s al;
           s \<leftarrow> (if r then purge_cache now (purge_limit g) True s else Some s);
           Some (s, al) }) }"

definition add_cache :: "globparm \<Rightarrow> int \<Rightarrow> dns_cent \<Rightarrow> cache \<Rightarrow> allocs \<Rightarrow> (cache \<times> allocs) option" where
  "add_cache g now cent s al = add_cache_try 2 g now cent s al"

section \<open>Changing and looking up entries\<close>

definition invalidate_step :: "nat \<Rightarrow> dns_cent \<Rightarrow> dns_cent option" where
  "invalidate_step i c = do {
     r \<leftarrow> RRARR_INDEX c i;
     (case r of None \<Rightarrow> Some c
      | Some rs \<Rightarrow> RRARR_set c i (Some (rs\<lparr>ts := 0, flags := flags rs AND NOT CF_AUTH\<rparr>))) }"

definition invalidate_record :: "bytes \<Rightarrow> cache \<Rightarrow> cache option" where
  "invalidate_record name s = do {
     (r, _) \<leftarrow> lookup s name;
     (case r of None \<Rightarrow> Some s
      | Some a \<Rightarrow> do {
          c \<leftarrow> cents s a;
          c \<leftarrow> (if \<not> is_neg c then do {
              ilim \<leftarrow> RRARR_LEN c;
              foldM invalidate_step [0..<ilim] c }
            else (case body c of RR _ _ \<Rightarrow> None | Neg le t _ \<Rightarrow> Some (c\<lparr>body := Neg le t 0\<rparr>)));
          Some (s\<lparr>cents := (cents s)(a \<mapsto> c\<lparr>cflags := cflags c AND NOT DF_AUTH\<rparr>)\<rparr>) }) }"

definition set_cent_flags :: "bytes \<Rightarrow> 16 word \<Rightarrow> cache \<Rightarrow> (bool \<times> cache) option" where
  "set_cent_flags name fl s = do {
     (r, _) \<leftarrow> lookup s name;
     (case r of None \<Rightarrow> Some (False, s)
      | Some a \<Rightarrow> do {
          c \<leftarrow> cents s a;
          Some (True, s\<lparr>cents := (cents s)(a \<mapsto> c\<lparr>cflags := cflags c OR fl\<rparr>)\<rparr>) }) }"

text \<open>Walking up the name: the next tail, or \<open>None\<close> inside at the root. A pointer into a name is the rest of it.\<close>

definition next_tail :: "bytes \<Rightarrow> bytes option option" where
  "next_tail nm = do {
     lb \<leftarrow> rd nm 0;
     if lb = 0 then Some None
     else do {
       let nm = drop (unat lb + 1) nm;
       lb \<leftarrow> rd nm 0;
       Some (if lb = 0 then None else Some nm) } }"

lemma next_tail_shorter: "next_tail nm = Some (Some nm') \<Longrightarrow> length nm' < length nm"
  by (auto simp: next_tail_def bind_eq_Some_conv rd_eq_Some_iff Let_def split: if_splits)

function getlocalowner :: "bytes \<Rightarrow> nat \<Rightarrow> cache \<Rightarrow> bytes option option" where
  "getlocalowner name tp s = (case next_tail name of None \<Rightarrow> None | Some None \<Rightarrow> Some None
     | Some (Some nm) \<Rightarrow> do {
         (r, _) \<leftarrow> lookup s nm;
         (case r of None \<Rightarrow> getlocalowner nm tp s
          | Some a \<Rightarrow> do {
              ce \<leftarrow> cents s a;
              if \<not> has (cflags ce) DF_LOCAL then Some None
              else do {
                h \<leftarrow> have_rr ce tp;
                if h then Some (Some nm) else getlocalowner nm tp s } }) })"
  by pat_completeness auto
termination by (relation "measure (\<lambda>(name, _). length name)") (auto dest: next_tail_shorter)

datatype wildness = NotWild | w_wild | w_neg | w_locnerr

text \<open>The search up the name hierarchy for a negative, wildcard or local entry.\<close>

function wild_search :: "cache \<Rightarrow> bytes \<Rightarrow> (nat option \<times> wildness) option" where
  "wild_search s name = (case next_tail name of None \<Rightarrow> None | Some None \<Rightarrow> Some (None, NotWild)
     | Some (Some nm) \<Rightarrow> do {
         (r, _) \<leftarrow> lookup s nm;
         (case r of None \<Rightarrow> wild_search s nm
          | Some a \<Rightarrow> do {
              ce \<leftarrow> cents s a;
              if is_neg ce then Some (Some a, w_neg)
              else if has (cflags ce) DF_WILD then do {
                (_, rest) \<leftarrow> rhncpy (replicate (DNSNAMEBUFSIZE - 2) 0) nm;
                (r, _) \<leftarrow> lookup s (1 # 42 # rest);
                Some (r, if r = None then NotWild else w_wild) }
              else if has (cflags ce) DF_LOCAL then Some (Some a, w_locnerr)
              else Some (None, NotWild) }) })"
  by pat_completeness auto
termination by (relation "measure (\<lambda>(_, name). length name)") (auto dest: next_tail_shorter)

declare getlocalowner.simps [simp del] wild_search.simps [simp del]

definition find_entry :: "cache \<Rightarrow> bytes \<Rightarrow> bool \<Rightarrow> (nat option \<times> wildness) option" where
  "find_entry s name wild = do {
     (r, _) \<leftarrow> lookup s name;
     if wild \<and> r = None then wild_search s name else Some (r, NotWild) }"

text \<open>
  The first part of \<open>lookup_cache\<close>, under the read lock; the result is the copy, or \<open>None\<close> inside when something has to be
  purged first, or when there is no entry or no memory. The second part runs under the write lock;
  in between other threads may change the cache (\<open>env\<close>).
\<close>

definition lookup_cache_r :: "int \<Rightarrow> bytes \<Rightarrow> bool \<Rightarrow> cache \<Rightarrow> allocs \<Rightarrow> (bool \<times> dns_cent option \<times> wildness \<times> allocs) option" where
  "lookup_cache_r now name wild s al = do {
     (r, w) \<leftarrow> find_entry s name wild;
     (case r of None \<Rightarrow> Some (False, None, w, al)
      | Some a \<Rightarrow> do {
          (purge, _) \<leftarrow> purge_cent now a True True s;
          if purge \<noteq> 0 then Some (True, None, w, al)
          else do {
            c \<leftarrow> cents s a;
            (c, al) \<leftarrow> copy_cent c al;
            Some (False, c, w, al) } }) }"

definition lookup_cache_rw :: "int \<Rightarrow> bytes \<Rightarrow> bool \<Rightarrow> cache \<Rightarrow> allocs \<Rightarrow> (dns_cent option \<times> wildness \<times> cache \<times> allocs) option" where
  "lookup_cache_rw now name wild s al = do {
     (r, w) \<leftarrow> find_entry s name wild;
     (case r of None \<Rightarrow> Some (None, w, s, al)
      | Some a \<Rightarrow> do {
          (purge, s) \<leftarrow> purge_cent now a True False s;
          if purge < 0 then Some (None, w, s, al)
          else do {
            c \<leftarrow> cents s a;
            (c, al) \<leftarrow> copy_cent c al;
            Some (c, w, s, al) } }) }"

definition lookup_cache ::
  "int \<Rightarrow> (cache \<Rightarrow> cache) \<Rightarrow> bytes \<Rightarrow> bool \<Rightarrow> cache \<Rightarrow> allocs \<Rightarrow> (dns_cent option \<times> wildness \<times> cache \<times> allocs) option" where
  "lookup_cache now env name wild s al = do {
     (purge, c, w, al) \<leftarrow> lookup_cache_r now name wild s al;
     if purge then lookup_cache_rw now name wild (env s) al else Some (c, w, s, al) }"

definition lookup_cache_local_rrset :: "bytes \<Rightarrow> int \<Rightarrow> cache \<Rightarrow> allocs \<Rightarrow> (rr_set option \<times> allocs) option" where
  "lookup_cache_local_rrset name tp s al = do {
     (r, _) \<leftarrow> lookup s name;
     (case r of None \<Rightarrow> Some (None, al)
      | Some a \<Rightarrow> do {
          c \<leftarrow> cents s a;
          r \<leftarrow> getrrset c tp;
          Some (case r of None \<Rightarrow> (None, al)
            | Some rs \<Rightarrow> if has (flags rs) CF_LOCAL then copy_rrset rs al else (None, al)) }) }"

end
