(* ===== verification/CacheInv.thy ===== *)
theory CacheInv
  imports Cache
begin

text \<open>
  The invariant of the cache and its preservation: the heap of entries, the hash table, the list by age and
  the two counters agree. In particular no operation uses memory that is freed, and the sizes never
  underflow.
\<close>

section \<open>The invariant\<close>

definition all_nodes :: "(nat \<rightharpoonup> dns_cent) \<Rightarrow> rr_lent set" where
  "all_nodes h = (\<Union>a \<in> dom h. nodes a (the (h a)))"

text \<open>The entries are well formed and the list consists of exactly the nodes they refer to.\<close>

definition core :: "cache \<Rightarrow> bool" where
  "core s \<longleftrightarrow> finite (dom (cents s)) \<and> (\<forall>a c. cents s a = Some c \<longrightarrow> cent_ok c \<and> a < fresh s) \<and>
     distinct (map lnode (rrset_l s)) \<and> set (rrset_l s) = all_nodes (cents s) \<and>
     (\<forall>e \<in> set (rrset_l s). lnode e < fresh s)"

text \<open>The hash table refers to the entries in the set \<open>D\<close>.\<close>

definition table :: "cache \<Rightarrow> nat set \<Rightarrow> bool" where
  "table s D \<longleftrightarrow> hash_inv (qn s) (hash_buckets s) \<and> data ` set (concat (hash_buckets s)) = D"

definition total_cs :: "(nat \<rightharpoonup> dns_cent) \<Rightarrow> int" where
  "total_cs h = (\<Sum>a \<in> dom h. int (cs (the (h a))))"

definition cache_inv :: "cache \<Rightarrow> bool" where
  "cache_inv s \<longleftrightarrow> core s \<and> table s (dom (cents s)) \<and> cache_size s = total_cs (cents s) \<and>
     ent_num s = int (card (dom (cents s)))"

lemma all_nodes_upd: "all_nodes (h(a \<mapsto> c)) = all_nodes (h(a := None)) \<union> nodes a c"
proof -
  have "all_nodes (h(a := None)) = (\<Union>b \<in> dom h - {a}. nodes b (the ((h(a \<mapsto> c)) b)))" by (simp add: all_nodes_def)
  then show ?thesis by (simp add: all_nodes_def insert_Diff_single [symmetric, of a "dom h"] Un_commute del: insert_Diff_single)
qed

lemma all_nodes_split: "h a = Some c \<Longrightarrow> all_nodes h = all_nodes (h(a := None)) \<union> nodes a c"
  by (auto simp: all_nodes_def domIff split: if_splits)

lemma all_nodes_other: "e \<in> all_nodes (h(a := None)) \<Longrightarrow> lcent e \<noteq> a"
  by (auto simp: all_nodes_def dest: lcent_nodes split: if_splits)

lemma total_upd:
  assumes "finite (dom h)"
  shows "total_cs (h(a \<mapsto> c)) = total_cs (h(a := None)) + int (cs c)"
proof -
  have "total_cs (h(a \<mapsto> c)) = (\<Sum>b \<in> insert a (dom h - {a}). int (cs (the ((h(a \<mapsto> c)) b))))"
    by (simp add: total_cs_def)
  also have "\<dots> = int (cs c) + (\<Sum>b \<in> dom h - {a}. int (cs (the ((h(a \<mapsto> c)) b))))"
    using assms by (subst sum.insert) auto
  also have "(\<Sum>b \<in> dom h - {a}. int (cs (the ((h(a \<mapsto> c)) b)))) = total_cs (h(a := None))"
    by (auto simp: total_cs_def intro!: sum.cong)
  finally show ?thesis by (simp only: add.commute)
qed

lemma total_split: "finite (dom h) \<Longrightarrow> h a = Some c \<Longrightarrow> total_cs h = total_cs (h(a := None)) + int (cs c)"
  using total_upd [of h a c] by (simp add: fun_upd_idem)

lemma core_linked:
  assumes "core s" and "cents s a = Some c"
  shows "linked (all_nodes ((cents s)(a := None))) a c (rrset_l s)" "cent_ok c" "a < fresh s"
  using assms all_nodes_split [of "cents s" a c] all_nodes_other [of _ "cents s" a]
  by (auto simp: core_def linked_def)

lemma core_upd:
  assumes "core s" and "cents s a = Some c" and "cent_ok c'" and "linked (all_nodes ((cents s)(a := None))) a c' l"
    and "cents s' = (cents s)(a \<mapsto> c')" and "rrset_l s' = l" and "fresh s \<le> fresh s'" and "\<forall>e \<in> set l. lnode e < fresh s'"
  shows "core s'"
  unfolding core_def assms(5,6)
proof (intro conjI allI impI)
  show "finite (dom ((cents s)(a \<mapsto> c')))" using assms(1) by (simp add: core_def)
  fix b x assume "((cents s)(a \<mapsto> c')) b = Some x"
  then show "cent_ok x" "b < fresh s'"
    using assms(1,2,3,7) by (auto simp: core_def split: if_splits dest: less_le_trans)
next
  show "distinct (map lnode l)" "set l = all_nodes ((cents s)(a \<mapsto> c'))"
    using assms(4) by (auto simp: linked_def all_nodes_upd)
qed (rule assms(8))

lemma core_keep:
  assumes "core s" and "cents s a = Some c" and "cent_ok c'" and "linked (all_nodes ((cents s)(a := None))) a c' l"
    and "set l \<subseteq> set (rrset_l s)"
  shows "core (s\<lparr>cents := (cents s)(a \<mapsto> c'), rrset_l := l\<rparr>)"
  using assms(5) assms(1) by (intro core_upd [OF assms(1-4)]) (auto simp: core_def)

lemma core_cong: "core s \<Longrightarrow> cents s' = cents s \<Longrightarrow> rrset_l s' = rrset_l s \<Longrightarrow> fresh s' = fresh s \<Longrightarrow> core s'"
  by (simp add: core_def)

lemma dom_upd_same: "h a = Some c \<Longrightarrow> dom (h(a \<mapsto> c')) = dom h"
  by auto

lemma qn_upd:
  assumes "cents s a = Some c" and "cents s' = (cents s)(a \<mapsto> c')" and "qname c' = qname c"
  shows "qn s' = qn s"
  using assms by (auto simp: qn_def)

section \<open>Lookups\<close>

lemma table_hash_inv: "table s D \<Longrightarrow> hash_inv (qn s) (hash_buckets s)"
  by (simp add: table_def)

lemma hash_find_in:
  assumes "table s D" and "hash_find (qn s) (hash_buckets s) k = Some a"
  shows "a \<in> D" "named (qn s) a k"
proof -
  have inv: "hash_inv (qn s) (hash_buckets s)" using assms(1) by (rule table_hash_inv)
  from assms(2) obtain he where he: "he \<in> set (hash_buckets s ! fst (name_hash k))" "data he = a" "named (qn s) a k"
    unfolding hash_find_iff [OF inv] by blast
  have "fst (name_hash k) < length (hash_buckets s)" using inv name_hash_bound [of k] by (simp add: hash_inv_def)
  then have "hash_buckets s ! fst (name_hash k) \<in> set (hash_buckets s)" by simp
  with he assms(1) show "a \<in> D" "named (qn s) a k" by (auto simp: table_def)
qed

lemma lookup_ok:
  assumes "table s D" and "wf_name k"
  shows "ok (lookup s (wire k @ r)) (\<lambda>(res, loc). res = hash_find (qn s) (hash_buckets s) k \<and>
    loc_bucket loc = fst (name_hash k) \<and> loc_rhash loc = snd (name_hash k) \<and>
    walk_post (qn s) k (hash_buckets s ! fst (name_hash k)) res (loc_pos loc))"
  unfolding lookup_def by (rule dns_lookup_ok [OF table_hash_inv [OF assms(1)] assms(2)])

text \<open>An entry of the table is found under its own name.\<close>

lemma find_own:
  assumes t: "table s D" and a: "a \<in> D" "qn s a = Some (wire k)" and wf: "wf_name k"
  shows "hash_find (qn s) (hash_buckets s) k = Some a"
proof -
  have inv: "hash_inv (qn s) (hash_buckets s)" using t by (rule table_hash_inv)
  from a t obtain b he where b: "b < length (hash_buckets s)" "he \<in> set (hash_buckets s ! b)" "data he = a"
    unfolding table_def by (force simp: in_set_conv_nth)
  then have "ent_ok (qn s) b he"
    using inv by (auto simp: hash_inv_def chain_ok_def list_all_iff)
  moreover have nm: "named (qn s) (data he) k" using a(2) b(3) wf by (auto simp: named_def)
  ultimately have "name_hash k = (b, rhash he)" by (rule named_hash)
  with b nm show ?thesis unfolding hash_find_iff [OF inv] by auto
qed

section \<open>Deleting record sets and entries\<close>

text \<open>What an operation on the entry at address \<open>a\<close> may change.\<close>

definition same_table :: "cache \<Rightarrow> cache \<Rightarrow> bool" where
  "same_table s s' \<longleftrightarrow> hash_buckets s' = hash_buckets s \<and> qn s' = qn s \<and> dom (cents s') = dom (cents s) \<and>
     ent_num s' = ent_num s \<and> insert_sort s' = insert_sort s"

lemma qn_simps [simp]: "qn (s\<lparr>cache_size := x\<rparr>) = qn s" "qn (s\<lparr>hash_buckets := t\<rparr>) = qn s" "qn (s\<lparr>rrset_l := l\<rparr>) = qn s"
  "qn (s\<lparr>ent_num := x\<rparr>) = qn s" "qn (s\<lparr>fresh := n\<rparr>) = qn s" "qn (s\<lparr>insert_sort := b\<rparr>) = qn s"
  by (simp_all add: qn_def fun_eq_iff)

lemma same_table_size [simp]: "same_table s (s'\<lparr>cache_size := x\<rparr>) = same_table s s'"
  by (simp add: same_table_def)

lemma same_table_table: "same_table s s' \<Longrightarrow> table s D \<Longrightarrow> table s' D"
  by (simp add: same_table_def table_def)

lemma same_table_refl: "same_table s s"
  by (simp add: same_table_def)

lemma same_table_trans: "same_table s s' \<Longrightarrow> same_table s' s'' \<Longrightarrow> same_table s s''"
  by (simp add: same_table_def)

lemma del_set_ok:
  assumes c: "core s" and a: "cents s a = Some c" and i: "i < NRRTOT"
  shows "ok (del_set a i s) (\<lambda>(rv, s'). core s' \<and> same_table s s' \<and> cache_size s' = cache_size s \<and> fresh s' = fresh s \<and>
    total_cs (cents s') = total_cs (cents s) - int rv \<and> rrset_l s' = filter (\<lambda>e. e \<notin> slot_node a i (rr c i)) (rrset_l s) \<and>
    (\<exists>c'. cents s' = (cents s)(a \<mapsto> c') \<and> rr c' = (rr c)(i := None) \<and> qname c' = qname c \<and> is_neg c' = is_neg c \<and>
      ext_size c' = ext_size c \<and> cflags c' = (if rr c i = None then cflags c else cflags c AND NOT DF_AUTH) \<and>
      (is_Neg (body c) \<longrightarrow> body c' = body c) \<and> length (slots c') = length (slots c) \<and> c_ns c' = c_ns c \<and> c_soa c' = c_soa c))"
proof -
  note l = core_linked [OF c a]
  from del_cent_rrset_by_index_ok [OF l(2,1) i] obtain rv c' l' where d: "del_cent_rrset_by_index c i (rrset_l s) = Some (rv, c', l')"
    and c': "cent_ok c'" "linked (all_nodes ((cents s)(a := None))) a c' l'" "rr c' = (rr c)(i := None)" "cs c' + rv = cs c"
      "qname c' = qname c" "is_neg c' = is_neg c" "l' = filter (\<lambda>e. e \<notin> slot_node a i (rr c i)) (rrset_l s)" "ext_size c' = ext_size c"
      "cflags c' = (if rr c i = None then cflags c else cflags c AND NOT DF_AUTH)" "is_Neg (body c) \<longrightarrow> body c' = body c"
      "length (slots c') = length (slots c)" "c_ns c' = c_ns c" "c_soa c' = c_soa c"
    by (rule ok3E) blast
  let ?s = "s\<lparr>cents := (cents s)(a \<mapsto> c'), rrset_l := l'\<rparr>"
  have res: "del_set a i s = Some (rv, ?s)" using a d by (simp add: del_set_def)
  have "core ?s" by (rule core_keep [OF c a c'(1,2)]) (simp add: c'(7))
  moreover have "same_table s ?s"
    using a qn_upd [OF a, of ?s c'] c'(5) by (simp add: same_table_def insert_absorb domI)
  moreover have "total_cs (cents ?s) = total_cs (cents s) - int rv"
    using total_upd [of "cents s" a c'] total_split [of "cents s" a c] c a c'(4) by (simp add: core_def)
  ultimately show ?thesis unfolding res using c' by auto
qed

lemma del_cent_ok:
  assumes c: "core s" and a: "cents s a = Some c"
  shows "ok (del_cent a s) (\<lambda>s'. core s' \<and> cents s' = (cents s)(a := None) \<and> hash_buckets s' = hash_buckets s \<and>
    cache_size s' = cache_size s - int (cs c) \<and> total_cs (cents s') = total_cs (cents s) - int (cs c) \<and> ent_num s' = ent_num s - 1 \<and>
    fresh s' = fresh s \<and> insert_sort s' = insert_sort s \<and> rrset_l s' = filter (\<lambda>e. e \<notin> nodes a c) (rrset_l s))"
proof -
  note l = core_linked [OF c a]
  have f: "free_cent c (rrset_l s) = Some (filter (\<lambda>e. e \<notin> nodes a c) (rrset_l s))"
    using free_cent_ok [OF _ l(1)] l(2) by (simp add: cent_ok_def)
  let ?l = "filter (\<lambda>e. e \<notin> nodes a c) (rrset_l s)"
  have "set ?l = all_nodes ((cents s)(a := None))"
    using l(1) all_nodes_other [of _ "cents s" a] lcent_nodes [of _ a c] by (auto simp: linked_def)
  then have "core (s\<lparr>cache_size := cache_size s - int (cs c), rrset_l := ?l, cents := (cents s)(a := None), ent_num := ent_num s - 1\<rparr>)"
    using c by (auto simp: core_def distinct_filter_nodes)
  moreover have "total_cs ((cents s)(a := None)) = total_cs (cents s) - int (cs c)"
    using total_split [of "cents s" a c] c a by (simp add: core_def)
  ultimately show ?thesis using a f by (simp add: del_cent_def)
qed

text \<open>The addresses in a table are those that a lookup can find.\<close>

lemma table_data:
  assumes inv: "hash_inv q t"
  shows "data ` set (concat t) = {a. \<exists>k. wf_name k \<and> hash_find q t k = Some a}"
proof (intro set_eqI iffI)
  fix a assume "a \<in> data ` set (concat t)"
  then obtain b he where b: "b < length t" "he \<in> set (t ! b)" "data he = a" by (force simp: in_set_conv_nth)
  then have ent: "ent_ok q b he" using inv by (auto simp: hash_inv_def chain_ok_def list_all_iff)
  then obtain k where k: "q a = Some (wire k)" "wf_name k" "name_hash k = (b, rhash he)" using b(3) by (auto simp: ent_ok_def)
  then have "named q a k" by (auto simp: named_def)
  with b k show "a \<in> {a. \<exists>k. wf_name k \<and> hash_find q t k = Some a}"
    using hash_find_iff [OF inv, of k a] by auto
next
  fix a assume "a \<in> {a. \<exists>k. wf_name k \<and> hash_find q t k = Some a}"
  then obtain k he where "he \<in> set (t ! fst (name_hash k))" "data he = a" using hash_find_iff [OF inv] by blast
  moreover have "t ! fst (name_hash k) \<in> set t" using inv name_hash_bound [of k] by (simp add: hash_inv_def)
  ultimately show "a \<in> data ` set (concat t)" by auto
qed

lemma hash_inv_cong:
  assumes inv: "hash_inv q t" and same: "\<And>a. a \<in> data ` set (concat t) \<Longrightarrow> q' a = q a"
  shows "hash_inv q' t"
  unfolding hash_inv_def
proof (intro conjI allI impI)
  show len: "length t = HASH_NUM_BUCKETS" using inv by (simp add: hash_inv_def)
  fix b assume b: "b < HASH_NUM_BUCKETS"
  show "chain_ok q' b (t ! b)"
  proof (rule chain_ok_cong)
    fix he assume "he \<in> set (t ! b)"
    moreover have "t ! b \<in> set t" using b len by simp
    ultimately have "data he \<in> data ` set (concat t)" by auto
    then show "q' (data he) = q (data he)" by (rule same)
  qed (use inv b in \<open>simp add: hash_inv_def\<close>)
qed

lemma hash_find_cong:
  assumes inv: "hash_inv q t" and same: "\<And>a. a \<in> data ` set (concat t) \<Longrightarrow> q' a = q a"
  shows "hash_find q' t k = hash_find q t k"
proof -
  have "q' (data he) = q (data he)" if "he \<in> set (t ! fst (name_hash k))" for he
  proof (rule same)
    have "t ! fst (name_hash k) \<in> set t" using inv name_hash_bound [of k] by (simp add: hash_inv_def)
    with that show "data he \<in> data ` set (concat t)" by auto
  qed
  then have "named q' (data he) k = named q (data he) k" if "he \<in> set (t ! fst (name_hash k))" for he
    using that by (intro named_cong)
  then show ?thesis unfolding hash_find_def by (metis (mono_tags, lifting) find_cong)
qed

text \<open>Removing the entry at \<open>a\<close> with the name \<open>k\<close>.\<close>

lemma table_remove:
  assumes t: "table s D" and k: "wf_name k" "qn s a = Some (wire k)" "a \<in> D"
    and inv': "hash_inv (qn s) t'"
    and find': "\<And>k'. wf_name k' \<Longrightarrow> hash_find (qn s) t' k' = (if fold_name k' = fold_name k then None else hash_find (qn s) (hash_buckets s) k')"
    and s': "hash_buckets s' = t'" "qn s' = (qn s)(a := None)"
  shows "table s' (D - {a}) \<and> (\<forall>k'. wf_name k' \<longrightarrow> hash_find (qn s') t' k' =
    (if fold_name k' = fold_name k then None else hash_find (qn s) (hash_buckets s) k'))"
proof -
  have own: "hash_find (qn s) (hash_buckets s) k = Some a" by (rule find_own [OF t k(3,2,1)])
  have inv: "hash_inv (qn s) (hash_buckets s)" using t by (rule table_hash_inv)
  have D: "D = {b. \<exists>k'. wf_name k' \<and> hash_find (qn s) (hash_buckets s) k' = Some b}"
    using t table_data [OF inv] by (simp add: table_def)
  have same: "hash_find (qn s) (hash_buckets s) k' = Some a \<longleftrightarrow> fold_name k' = fold_name k" if "wf_name k'" for k'
  proof
    assume "hash_find (qn s) (hash_buckets s) k' = Some a"
    then have "named (qn s) a k'" using hash_find_in [OF t] by blast
    moreover have "named (qn s) a k" using k by (auto simp: named_def)
    ultimately show "fold_name k' = fold_name k" by (rule named_same)
  next
    assume "fold_name k' = fold_name k"
    with own show "hash_find (qn s) (hash_buckets s) k' = Some a"
      by (simp add: hash_find_def named_def name_hash_case [of k' k])
  qed
  have data': "data ` set (concat t') = D - {a}"
    unfolding table_data [OF inv'] D
  proof (intro set_eqI iffI)
    fix b assume "b \<in> {b. \<exists>k'. wf_name k' \<and> hash_find (qn s) t' k' = Some b}"
    then obtain k' where k': "wf_name k'" "hash_find (qn s) t' k' = Some b" by blast
    then have "fold_name k' \<noteq> fold_name k" "hash_find (qn s) (hash_buckets s) k' = Some b" using find' [OF k'(1)] by (auto split: if_splits)
    with k'(1) same show "b \<in> {b. \<exists>k'. wf_name k' \<and> hash_find (qn s) (hash_buckets s) k' = Some b} - {a}" by auto
  next
    fix b assume "b \<in> {b. \<exists>k'. wf_name k' \<and> hash_find (qn s) (hash_buckets s) k' = Some b} - {a}"
    then obtain k' where k': "wf_name k'" "hash_find (qn s) (hash_buckets s) k' = Some b" "b \<noteq> a" by blast
    then have "fold_name k' \<noteq> fold_name k" using same [OF k'(1)] by auto
    with find' [OF k'(1)] k' show "b \<in> {b. \<exists>k'. wf_name k' \<and> hash_find (qn s) t' k' = Some b}" by auto
  qed
  then have ne: "((qn s)(a := None)) b = qn s b" if "b \<in> data ` set (concat t')" for b
    using that by auto
  have "hash_inv (qn s') t'" unfolding s' by (rule hash_inv_cong [OF inv' ne])
  moreover have "hash_find (qn s') t' k' = hash_find (qn s) t' k'" for k' unfolding s' by (rule hash_find_cong [OF inv' ne])
  ultimately show ?thesis using data' find' s'(1) by (simp add: table_def)
qed

text \<open>The invariant except for the cache size, which is off by \<open>x\<close> in the middle of an operation.\<close>

definition inv_but :: "int \<Rightarrow> cache \<Rightarrow> bool" where
  "inv_but x s \<longleftrightarrow> core s \<and> table s (dom (cents s)) \<and> cache_size s = total_cs (cents s) + x \<and>
     ent_num s = int (card (dom (cents s)))"

lemma cache_inv_but: "cache_inv s \<longleftrightarrow> inv_but 0 s"
  by (simp add: cache_inv_def inv_but_def)

lemma inv_but_core: "inv_but x s \<Longrightarrow> core s" and inv_but_table: "inv_but x s \<Longrightarrow> table s (dom (cents s))"
  by (simp_all add: inv_but_def)

text \<open>The names of the entries.\<close>

lemma entry_name:
  assumes "core s" and "cents s a = Some c"
  obtains k where "wf_name k" "qname c = wire k" "qn s a = Some (wire k)"
  using core_linked(2) [OF assms] assms(2) that by (auto simp: cent_ok_def qn_def)

definition found :: "cache \<Rightarrow> label list \<Rightarrow> nat option" where
  "found s k = hash_find (qn s) (hash_buckets s) k"

lemma found_entry:
  assumes "inv_but x s" and "found s k = Some a"
  obtains c where "cents s a = Some c" "cent_ok c" "a < fresh s"
proof -
  have "a \<in> dom (cents s)" using hash_find_in(1) [OF inv_but_table [OF assms(1)]] assms(2) by (simp add: found_def)
  then obtain c where "cents s a = Some c" by blast
  with core_linked(2,3) [OF inv_but_core [OF assms(1)]] show thesis using that by blast
qed

definition removed :: "nat \<Rightarrow> dns_cent \<Rightarrow> label list \<Rightarrow> cache \<Rightarrow> cache \<Rightarrow> bool" where
  "removed a c k s s' \<longleftrightarrow> cents s' = (cents s)(a := None) \<and> fresh s' = fresh s \<and> insert_sort s' = insert_sort s \<and>
     rrset_l s' = filter (\<lambda>e. e \<notin> nodes a c) (rrset_l s) \<and> cache_size s' = cache_size s - int (cs c) \<and>
     (\<forall>k'. wf_name k' \<longrightarrow> found s' k' = (if fold_name k' = fold_name k then None else found s k'))"

lemma del_cent_table_ok:
  assumes inv: "inv_but x s" and a: "cents s a = Some c" and k: "wf_name k" "qname c = wire k"
    and inv': "hash_inv (qn s) t'"
    and find': "\<And>k'. wf_name k' \<Longrightarrow> hash_find (qn s) t' k' = (if fold_name k' = fold_name k then None else hash_find (qn s) (hash_buckets s) k')"
  shows "ok (del_cent a (s\<lparr>hash_buckets := t'\<rparr>)) (\<lambda>s'. inv_but x s' \<and> removed a c k s s')"
proof -
  have c: "core (s\<lparr>hash_buckets := t'\<rparr>)" using core_cong [OF inv_but_core [OF inv]] by simp
  from del_cent_ok [OF c, of a c] a obtain s' where d: "del_cent a (s\<lparr>hash_buckets := t'\<rparr>) = Some s'" and
    s': "core s'" "cents s' = (cents s)(a := None)" "hash_buckets s' = t'" "cache_size s' = cache_size s - int (cs c)"
      "total_cs (cents s') = total_cs (cents s) - int (cs c)" "ent_num s' = ent_num s - 1" "fresh s' = fresh s"
      "insert_sort s' = insert_sort s" "rrset_l s' = filter (\<lambda>e. e \<notin> nodes a c) (rrset_l s)"
    by (auto elim!: okE)
  have q: "qn s a = Some (wire k)" "qn s' = (qn s)(a := None)" using a k s'(2) by (auto simp: qn_def fun_eq_iff)
  have ad: "a \<in> dom (cents s)" using a by blast
  note T = table_remove [OF inv_but_table [OF inv] k(1) q(1) ad inv' find' s'(3) q(2)]
  have "dom (cents s') = dom (cents s) - {a}" using s'(2) by simp
  moreover have "finite (dom (cents s))" "ent_num s = int (card (dom (cents s)))" using inv by (auto simp: inv_but_def core_def)
  then have "ent_num s' = int (card (dom (cents s) - {a}))"
    using s'(6) ad card_Suc_Diff1 [of "dom (cents s)" a] by simp
  ultimately show ?thesis
    using T s' inv unfolding d by (simp add: inv_but_def removed_def found_def)
qed

lemma del_cache_ent_ok:
  assumes inv: "inv_but x s" and a: "cents s a = Some c" and k: "wf_name k" "qname c = wire k"
    and loc: "case loc of None \<Rightarrow> True | Some loc \<Rightarrow> loc_bucket loc = fst (name_hash k') \<and> wf_name k' \<and> fold_name k' = fold_name k \<and>
      walk_post (qn s) k' (hash_buckets s ! fst (name_hash k')) (Some a) (loc_pos loc)"
  shows "ok (del_cache_ent a loc s) (\<lambda>s'. inv_but x s' \<and> removed a c k s s')"
proof -
  note h = table_hash_inv [OF inv_but_table [OF inv]]
  have "\<exists>t'. (case loc of Some loc \<Rightarrow> map_option snd (del_dns_hash_ent (hash_buckets s) loc)
       | None \<Rightarrow> map_option snd (del_dns_hash (qn s) (hash_buckets s) (qname c))) = Some t' \<and> hash_inv (qn s) t' \<and>
    (\<forall>k'. wf_name k' \<longrightarrow> hash_find (qn s) t' k' = (if fold_name k' = fold_name k then None else hash_find (qn s) (hash_buckets s) k'))"
  proof (cases loc)
    case None
    from del_dns_hash_ok [OF h k(1), of "[]"] k(2) None show ?thesis by (auto simp: ok_def)
  next
    case (Some l)
    with loc have l: "loc_bucket l = fst (name_hash k')" "wf_name k'" "fold_name k' = fold_name k"
      "walk_post (qn s) k' (hash_buckets s ! fst (name_hash k')) (Some a) (loc_pos l)" by auto
    from del_dns_hash_ent_ok [OF h l(2,1,4)] l(3) Some show ?thesis by (auto simp: ok_def)
  qed
  then obtain t' where t': "(case loc of Some loc \<Rightarrow> map_option snd (del_dns_hash_ent (hash_buckets s) loc)
       | None \<Rightarrow> map_option snd (del_dns_hash (qn s) (hash_buckets s) (qname c))) = Some t'" "hash_inv (qn s) t'"
    "\<And>k'. wf_name k' \<Longrightarrow> hash_find (qn s) t' k' = (if fold_name k' = fold_name k then None else hash_find (qn s) (hash_buckets s) k')"
    by blast
  have "del_cache_ent a loc s = del_cent a (s\<lparr>hash_buckets := t'\<rparr>)" using a t'(1) by (simp add: del_cache_ent_def)
  with del_cent_table_ok [OF inv a k t'(2,3)] show ?thesis by simp
qed

text \<open>Deleting by name.\<close>

lemma del_cache_ok:
  assumes inv: "inv_but x s" and k: "wf_name k"
  shows "ok (del_cache (wire k @ r) s) (\<lambda>s'. inv_but x s' \<and> (\<forall>a. found s k \<noteq> Some a \<longrightarrow> cents s' a = cents s a) \<and>
    (\<forall>k'. wf_name k' \<longrightarrow> found s' k' = (if fold_name k' = fold_name k then None else found s k')))"
proof -
  note h = table_hash_inv [OF inv_but_table [OF inv]]
  from del_dns_hash_ok [OF h k, of r] obtain res t' where d: "del_dns_hash (qn s) (hash_buckets s) (wire k @ r) = Some (res, t')"
    and t': "res = hash_find (qn s) (hash_buckets s) k" "hash_inv (qn s) t'"
      "\<And>k'. wf_name k' \<Longrightarrow> hash_find (qn s) t' k' = (if fold_name k' = fold_name k then None else hash_find (qn s) (hash_buckets s) k')"
    by (auto elim!: okE)
  show ?thesis
  proof (cases res)
    case None
    have f: "hash_find (qn s) t' k' = hash_find (qn s) (hash_buckets s) k'" if "wf_name k'" for k'
      using t'(1,3) None that by (auto simp: hash_find_def named_def dest: name_hash_case)
    have "data ` set (concat t') = dom (cents s)"
      unfolding table_data [OF t'(2)] using f inv_but_table [OF inv] table_data [OF h] by (auto simp: table_def)
    then have "inv_but x (s\<lparr>hash_buckets := t'\<rparr>)"
      using inv t'(2) core_cong [of s "s\<lparr>hash_buckets := t'\<rparr>"] by (simp add: inv_but_def table_def qn_def [abs_def])
    with d None t'(3) show ?thesis by (simp add: del_cache_def found_def qn_def [abs_def])
  next
    case (Some a)
    with t'(1) found_entry [OF inv, of k a] obtain c where c: "cents s a = Some c" "cent_ok c" by (auto simp: found_def)
    from entry_name [OF inv_but_core [OF inv] c(1)] obtain k1 where k1: "wf_name k1" "qname c = wire k1" "qn s a = Some (wire k1)" by blast
    have "named (qn s) a k" using hash_find_in(2) [OF inv_but_table [OF inv]] t'(1) Some by simp
    moreover have "named (qn s) a k1" using k1 by (auto simp: named_def)
    ultimately have e: "fold_name k = fold_name k1" by (rule named_same)
    from del_cent_table_ok [OF inv c(1) k1(1,2) t'(2)] t'(3) e
    have "ok (del_cent a (s\<lparr>hash_buckets := t'\<rparr>)) (\<lambda>s'. inv_but x s' \<and> removed a c k1 s s')" by simp
    moreover have "found s k = Some a" using t'(1) Some by (simp add: found_def)
    ultimately show ?thesis using d Some e by (auto simp: del_cache_def removed_def elim!: ok_mono)
  qed
qed

section \<open>Purging one entry\<close>

lemma foldM_append: "foldM f (xs @ ys) s = Option.bind (foldM f xs s) (foldM f ys)"
  by (induction xs arbitrary: s) (auto split: bind_splits)

text \<open>The rule for loops \<^verbatim>\<open>for(i=0; i<n; ++i)\<close>.\<close>

lemma foldM_upt:
  assumes "P 0 s" and "\<And>i s. i < n \<Longrightarrow> P i s \<Longrightarrow> ok (f i s) (P (Suc i))"
  shows "ok (foldM f [0..<n] s) (P n)"
  using assms(2)
proof (induction n)
  case (Suc n)
  then have "ok (foldM f [0..<n] s) (P n)" by simp
  then obtain s1 where "foldM f [0..<n] s = Some s1" "P n s1" by (auto elim: okE)
  moreover have "ok (f n s1) (P (Suc n))" using Suc.prems [of n s1] \<open>P n s1\<close> by simp
  ultimately show ?case by (auto simp: foldM_append ok_simps elim!: ok_mono)
qed (use assms(1) in simp)

definition kept :: "int \<Rightarrow> dns_cent \<Rightarrow> nat \<Rightarrow> bool" where
  "kept now c i \<longleftrightarrow> (\<exists>rs. rr c i = Some rs \<and> \<not> purgeable now rs)"

text \<open>Only record sets are removed from the entry, and their nodes from the list.\<close>

definition shrink :: "dns_cent \<Rightarrow> dns_cent \<Rightarrow> bool" where
  "shrink c c' \<longleftrightarrow> (\<forall>i. rr c' i = rr c i \<or> rr c' i = None) \<and> is_neg c' = is_neg c \<and> qname c' = qname c \<and>
     (is_neg c \<longrightarrow> body c' = body c) \<and> cflags c' AND NOT DF_AUTH = cflags c AND NOT DF_AUTH \<and> c_ns c' = c_ns c \<and> c_soa c' = c_soa c"

definition shrunk :: "nat \<Rightarrow> dns_cent \<Rightarrow> cache \<Rightarrow> dns_cent \<Rightarrow> cache \<Rightarrow> bool" where
  "shrunk a c s c' s' \<longleftrightarrow> same_table s s' \<and> fresh s' = fresh s \<and> cents s a = Some c \<and> cents s' = (cents s)(a \<mapsto> c') \<and>
     shrink c c' \<and> rrset_l s' = filter (\<lambda>e. e \<notin> nodes a c \<or> e \<in> nodes a c') (rrset_l s)"

lemma shrink_refl: "shrink c c"
  by (simp add: shrink_def)

lemma shrink_trans: "shrink c c' \<Longrightarrow> shrink c' c'' \<Longrightarrow> shrink c c''"
  unfolding shrink_def by metis

lemma nodes_body:
  assumes "body c' = body c"
  shows "nodes a c' = nodes a c" "rr c' = rr c" "slots c' = slots c"
proof -
  show "slots c' = slots c" using assms by (simp add: slots_def)
  then show rr: "rr c' = rr c" by (simp add: rr_def fun_eq_iff)
  show "nodes a c' = nodes a c" unfolding nodes_def assms rr ..
qed

lemma shrink_nodes:
  assumes "shrink c c'" and "shape_ok c" and "shape_ok c'"
  shows "nodes a c' \<subseteq> nodes a c"
proof (cases "is_neg c")
  case True
  with assms(1) have "body c' = body c" by (simp add: shrink_def)
  from nodes_body(1) [OF this] show ?thesis by simp
next
  case False
  then have nn: "\<not> is_Neg (body c)" "\<not> is_Neg (body c')"
    using assms by (auto simp: shrink_def shape_ok_def split: cent_body.splits)
  have "slot_node a i (rr c' i) \<subseteq> slot_node a i (rr c i)" for i
    using assms(1) by (cases "rr c' i = rr c i") (auto simp: shrink_def slot_node_def split: option.splits)
  then show ?thesis using nn unfolding nodes_def by (auto split: cent_body.splits)
qed

lemma shrunk_refl: "cents s a = Some c \<Longrightarrow> shrunk a c s c s"
  by (auto simp: shrunk_def same_table_refl shrink_refl fun_upd_idem intro!: filter_True [symmetric])

lemma shrunk_trans:
  assumes 1: "shrunk a c s c' s'" and 2: "shrunk a c' s' c'' s''" and sh: "shape_ok c" "shape_ok c'" "shape_ok c''"
  shows "shrunk a c s c'' s''"
proof -
  have "nodes a c' \<subseteq> nodes a c" "nodes a c'' \<subseteq> nodes a c'"
    using shrink_nodes 1 2 sh unfolding shrunk_def by blast+
  then have "rrset_l s'' = filter (\<lambda>e. e \<notin> nodes a c \<or> e \<in> nodes a c'') (rrset_l s)"
    using 1 2 unfolding shrunk_def by (auto simp: filter_filter intro!: filter_cong)
  with 1 2 show ?thesis
    unfolding shrunk_def by (auto intro: same_table_trans shrink_trans)
qed

lemma clear_auth_twice: "(f AND NOT DF_AUTH) AND NOT DF_AUTH = f AND NOT DF_AUTH"
  by (simp add: and.assoc)

lemma del_set_shrunk:
  assumes c: "core s" and a: "cents s a = Some c" and i: "i < NRRTOT"
  shows "ok (del_set a i s) (\<lambda>(rv, s'). core s' \<and> cache_size s' = cache_size s \<and> total_cs (cents s') = total_cs (cents s) - int rv \<and>
    (\<exists>c'. shrunk a c s c' s' \<and> rr c' = (rr c)(i := None) \<and> length (slots c') = length (slots c)))"
proof -
  have ok: "cent_ok c" using core_linked [OF c a] by blast
  from del_set_ok [OF c a i] obtain rv s' c' where d: "del_set a i s = Some (rv, s')" "core s'" "same_table s s'"
    "cache_size s' = cache_size s" "fresh s' = fresh s" "total_cs (cents s') = total_cs (cents s) - int rv"
    "rrset_l s' = filter (\<lambda>e. e \<notin> slot_node a i (rr c i)) (rrset_l s)" and
    c': "cents s' = (cents s)(a \<mapsto> c')" "rr c' = (rr c)(i := None)" "qname c' = qname c" "is_neg c' = is_neg c"
      "cflags c' = (if rr c i = None then cflags c else cflags c AND NOT DF_AUTH)" "is_Neg (body c) \<longrightarrow> body c' = body c"
      "length (slots c') = length (slots c)" "c_ns c' = c_ns c" "c_soa c' = c_soa c"
    by (rule ok2E) blast
  have tag: "is_Neg (body c) = is_neg c" using ok by (auto simp: cent_ok_def shape_ok_def split: cent_body.splits)
  have "shrink c c'"
    using c' tag clear_auth_twice by (auto simp: shrink_def)
  moreover have "rrset_l s' = filter (\<lambda>e. e \<notin> nodes a c \<or> e \<in> nodes a c') (rrset_l s)"
  proof (cases "is_neg c")
    case True
    then have "rr c i = None" using rr_neg ok by (simp add: cent_ok_def)
    moreover have "nodes a c' = nodes a c" using True tag c'(6) by (intro nodes_body) simp
    ultimately show ?thesis using d(7) by (auto simp: slot_node_def intro!: filter_cong)
  next
    case False
    have ok': "shape_ok c'" using core_linked(2) [OF d(2), of a c'] c'(1) by (simp add: cent_ok_def)
    have "\<not> is_Neg (body c')" using False c'(4) ok' by (auto simp: shape_ok_def split: cent_body.splits)
    then have "nodes a c' = nodes a c - slot_node a i (rr c i)"
      using nodes_update [of c c' i None a] False tag c'(2) by (simp add: slot_node_def)
    then show ?thesis
      using d(7) slot_nodes_in [of c a i] False tag by (auto intro!: filter_cong)
  qed
  ultimately show ?thesis using d c' a by (auto simp: shrunk_def)
qed

definition counted :: "int \<Rightarrow> dns_cent \<Rightarrow> nat \<Rightarrow> nat \<times> nat \<times> nat \<Rightarrow> bool" where
  "counted now c i n \<longleftrightarrow> n = (card {j. j < i \<and> rr c j \<noteq> None \<and> \<not> kept now c j}, card {j. j < i \<and> kept now c j},
     card {j. j < i \<and> NRRMU \<le> j \<and> kept now c j})"

lemma card_less_Suc: "card {j. j < Suc i \<and> P j} = card {j. j < i \<and> P j} + of_bool (P i)"
proof -
  have "{j. j < Suc i \<and> P j} = (if P i then insert i {j. j < i \<and> P j} else {j. j < i \<and> P j})"
    by (auto simp: less_Suc_eq)
  then show ?thesis by simp
qed

lemma slots_le: "shape_ok c \<Longrightarrow> length (slots c) \<le> NRRTOT"
  by (auto simp: shape_ok_def slots_def nrr_defs split: cent_body.splits option.splits)

lemma purge_all_step_ok:
  assumes c0: "cents s0 a = Some c0" and ok0: "shape_ok c0" and c: "core s" and sh: "shrunk a c0 s0 c s" and i: "i < length (slots c0)"
    and len: "length (slots c) = length (slots c0)"
    and rr: "rr c = (\<lambda>j. if j < i \<and> \<not> kept now c0 j \<and> \<not> test then None else rr c0 j)"
    and n: "counted now c0 i n"
  shows "ok (purge_all_step now a test i (s, n)) (\<lambda>(s', n'). core s' \<and> counted now c0 (Suc i) n' \<and>
    cache_size s' - total_cs (cents s') = cache_size s - total_cs (cents s) \<and> (test \<longrightarrow> s' = s) \<and>
    (\<exists>c'. shrunk a c0 s0 c' s' \<and> length (slots c') = length (slots c0) \<and>
      rr c' = (\<lambda>j. if j < Suc i \<and> \<not> kept now c0 j \<and> \<not> test then None else rr c0 j)))"
proof -
  obtain rv nr ne where n3: "n = (rv, nr, ne)" by (cases n)
  have a: "cents s a = Some c" using sh by (simp add: shrunk_def)
  have okc: "shape_ok c" using core_linked(2) [OF c a] by (simp add: cent_ok_def)
  have iN: "i < NRRTOT" using i slots_le [OF ok0] by simp
  have R: "RRARR_INDEX c i = Some (rr c0 i)" using RRARR_INDEX_eq [OF okc] i len rr by simp
  show ?thesis
  proof (cases "rr c0 i = None \<or> kept now c0 i")
    case True
    then have "rr c = (\<lambda>j. if j < Suc i \<and> \<not> kept now c0 j \<and> \<not> test then None else rr c0 j)"
      unfolding rr by (auto simp: fun_eq_iff less_Suc_eq)
    moreover obtain n' where "purge_all_step now a test i (s, n) = Some (s, n')" "counted now c0 (Suc i) n'"
    proof (cases "rr c0 i")
      case None
      then have "purge_all_step now a test i (s, n) = Some (s, n)" using a R n3 by (simp add: purge_all_step_def)
      moreover have "counted now c0 (Suc i) n" using n None by (simp add: counted_def card_less_Suc kept_def)
      ultimately show thesis by (rule that)
    next
      case (Some rs)
      with True have k: "kept now c0 i" "\<not> purgeable now rs" by (auto simp: kept_def)
      have "purge_all_step now a test i (s, n) = Some (s, rv, nr + 1, if i \<ge> NRRMU then ne + 1 else ne)"
        using a R n3 Some k(2) by (simp add: purge_all_step_def)
      moreover have "counted now c0 (Suc i) (rv, nr + 1, if i \<ge> NRRMU then ne + 1 else ne)"
        using n n3 k(1) by (simp add: counted_def card_less_Suc)
      ultimately show thesis by (rule that)
    qed
    ultimately show ?thesis using c sh len by (intro okI [of _ "(s, n')"]) (simp only: prod.case, blast)+
  next
    case False
    then obtain rs where rs: "rr c0 i = Some rs" "purgeable now rs" by (auto simp: kept_def)
    have cnt: "counted now c0 (Suc i) (rv + 1, nr, ne)"
      using n n3 False by (simp add: counted_def card_less_Suc)
    show ?thesis
    proof (cases test)
      case True
      then have "purge_all_step now a test i (s, n) = Some (s, rv + 1, nr, ne)"
        using a R rs n3 by (simp add: purge_all_step_def)
      moreover have "rr c = (\<lambda>j. if j < Suc i \<and> \<not> kept now c0 j \<and> \<not> test then None else rr c0 j)" using rr True by simp
      ultimately show ?thesis using c sh len cnt by (intro okI [of _ "(s, rv + 1, nr, ne)"]) (simp only: prod.case, blast)+
    next
      case ntest: False
      from del_set_shrunk [OF c a iN] obtain m s1 c1 where d: "del_set a i s = Some (m, s1)" "core s1" "cache_size s1 = cache_size s"
        "total_cs (cents s1) = total_cs (cents s) - int m" "shrunk a c s c1 s1" "rr c1 = (rr c)(i := None)" "length (slots c1) = length (slots c)"
        by (rule ok2E) blast
      let ?s = "s1\<lparr>cache_size := cache_size s1 - int m\<rparr>"
      have ok1: "shape_ok c1" using core_linked(2) [OF d(2), of a c1] d(5) by (simp add: shrunk_def cent_ok_def)
      have "shrunk a c s c1 ?s" using d(5) by (simp add: shrunk_def)
      then have sh1: "shrunk a c0 s0 c1 ?s" by (rule shrunk_trans [OF sh _ ok0 okc ok1])
      have rr1: "rr c1 = (\<lambda>j. if j < Suc i \<and> \<not> kept now c0 j \<and> \<not> test then None else rr c0 j)"
        unfolding d(6) rr using False ntest by (auto simp: fun_eq_iff less_Suc_eq)
      have core1: "core ?s" by (rule core_cong [OF d(2)]) simp_all
      have sz: "cache_size ?s - total_cs (cents ?s) = cache_size s - total_cs (cents s)" using d(3,4) by simp
      have step: "purge_all_step now a test i (s, n) = Some (?s, rv + 1, nr, ne)"
        using a R rs ntest d(1) n3 by (simp add: purge_all_step_def)
      show ?thesis
        unfolding step ok_Some prod.case
        by (intro conjI exI [of _ c1] core1 cnt sz sh1 rr1) (use ntest d(7) len in simp_all)
    qed
  qed
qed

text \<open>The entry after purging: the record sets that are kept, and no array of the less used types unless one of
  them is kept.\<close>

lemma drop_ext_ok:
  assumes c: "core s" and a: "cents s a = Some c" and len: "length (slots c) = 47" and none: "\<And>j. NRRMU \<le> j \<Longrightarrow> rr c j = None"
  shows "ok (drop_ext a s) (\<lambda>s'. core s' \<and> cache_size s' - total_cs (cents s') = cache_size s - total_cs (cents s) \<and>
    (\<exists>c'. shrunk a c s c' s' \<and> rr c' = rr c \<and> length (slots c') = 8))"
proof -
  have ok: "cent_ok c" and l: "linked (all_nodes ((cents s)(a := None))) a c (rrset_l s)" using core_linked [OF c a] by auto
  have nneg: "\<not> is_neg c" using ok len by (auto simp: cent_ok_def shape_ok_def slots_def split: cent_body.splits)
  then obtain mu ext where b: "body c = RR mu ext" "length mu = 8" "ext \<noteq> None \<Longrightarrow> length (the ext) = 39"
    using shape_RR ok unfolding cent_ok_def by blast
  with len obtain e where e: "ext = Some e" "length e = 39" by (cases ext) (auto simp: slots_def)
  have en: "e = replicate 39 None"
  proof (rule nth_equalityI)
    fix j assume "j < length e"
    then show "e ! j = replicate 39 None ! j" using none [of "8 + j"] b e by (simp add: rr_def slots_def nrr_defs nth_append)
  qed (use e in simp)
  have sz: "sizeof_rrext \<le> cs c" using ok b e by (simp add: cent_ok_def ext_size_def)
  let ?c = "c\<lparr>body := RR mu None, cs := cs c - sizeof_rrext\<rparr>"
  have rr: "rr ?c = rr c" using b e en by (auto simp: rr_def slots_def fun_eq_iff nth_append)
  have nodes: "nodes a ?c = nodes a c" using b rr by (simp add: nodes_def)
  have okc: "cent_ok ?c" using ok b e en nneg
    by (auto simp: cent_ok_def shape_ok_def is_neg_def ext_size_def tot_def slots_def opt_size_def opt_count_def sum_list_replicate)
  let ?s = "s\<lparr>cents := (cents s)(a \<mapsto> ?c), cache_size := cache_size s - int sizeof_rrext\<rparr>"
  have "core ?s" by (rule core_upd [OF c a okc, of "rrset_l s"]) (use l nodes c in \<open>auto simp: linked_def core_def\<close>)
  moreover have "shrunk a c s ?c ?s"
    using a rr nodes nneg qn_upd [OF a, of ?s ?c]
    by (auto simp: shrunk_def same_table_def shrink_def is_neg_def intro!: filter_True [symmetric])
  moreover have "total_cs (cents ?s) = total_cs (cents s) - int sizeof_rrext"
    using total_upd [of "cents s" a ?c] total_split [of "cents s" a c] c a sz by (simp add: core_def)
  moreover have "drop_ext a s = Some ?s" using a b sz by (simp add: drop_ext_def)
  ultimately show ?thesis using rr b by (auto simp: slots_def)
qed

definition purged :: "int \<Rightarrow> dns_cent \<Rightarrow> dns_cent \<Rightarrow> bool" where
  "purged now c c' \<longleftrightarrow> rr c' = (\<lambda>j. if kept now c j then rr c j else None)"

definition num_kept :: "int \<Rightarrow> dns_cent \<Rightarrow> nat" where
  "num_kept now c = card {j. kept now c j}"

definition num_purged :: "int \<Rightarrow> dns_cent \<Rightarrow> nat" where
  "num_purged now c = card {j. rr c j \<noteq> None \<and> \<not> kept now c j} +
     of_bool (length (slots c) = NRRTOT \<and> (\<forall>j \<ge> NRRMU. \<not> kept now c j))"

lemma rr_bound: "rr c j \<noteq> None \<Longrightarrow> j < length (slots c)"
  by (auto simp: rr_def split: if_splits)

lemma kept_bound: "kept now c j \<Longrightarrow> j < length (slots c)"
  by (auto simp: kept_def intro: rr_bound)

lemma counted_all:
  assumes "counted now c (length (slots c)) (rv, nr, ne)"
  shows "rv = card {j. rr c j \<noteq> None \<and> \<not> kept now c j}" "nr = num_kept now c" "ne = 0 \<longleftrightarrow> (\<forall>j \<ge> NRRMU. \<not> kept now c j)"
proof -
  have eq: "{j. j < length (slots c) \<and> rr c j \<noteq> None \<and> \<not> kept now c j} = {j. rr c j \<noteq> None \<and> \<not> kept now c j}"
    "{j. j < length (slots c) \<and> kept now c j} = {j. kept now c j}" using rr_bound kept_bound by auto
  then show "rv = card {j. rr c j \<noteq> None \<and> \<not> kept now c j}" "nr = num_kept now c"
    using assms by (simp_all add: counted_def num_kept_def)
  have "ne = card {j. j < length (slots c) \<and> NRRMU \<le> j \<and> kept now c j}" using assms by (simp add: counted_def)
  then show "ne = 0 \<longleftrightarrow> (\<forall>j \<ge> NRRMU. \<not> kept now c j)" using kept_bound [of now c] by auto
qed

lemma num_kept_0: "num_kept now c = 0 \<longleftrightarrow> (\<forall>j. \<not> kept now c j)"
proof -
  have "finite {j. kept now c j}" using kept_bound [of now c] by (auto intro: finite_subset [of _ "{..<length (slots c)}"])
  then show ?thesis by (auto simp: num_kept_def)
qed

text \<open>The invariant of the loop over the record sets.\<close>

definition purging :: "int \<Rightarrow> bool \<Rightarrow> nat \<Rightarrow> dns_cent \<Rightarrow> cache \<Rightarrow> nat \<Rightarrow> cache \<times> nat \<times> nat \<times> nat \<Rightarrow> bool" where
  "purging now test a c s i st \<longleftrightarrow> core (fst st) \<and> counted now c i (snd st) \<and>
     cache_size (fst st) - total_cs (cents (fst st)) = cache_size s - total_cs (cents s) \<and> (test \<longrightarrow> fst st = s) \<and>
     (\<exists>c'. shrunk a c s c' (fst st) \<and> length (slots c') = length (slots c) \<and>
        rr c' = (\<lambda>j. if j < i \<and> \<not> kept now c j \<and> \<not> test then None else rr c j))"

lemma purging_loop:
  assumes co: "core s" and a: "cents s a = Some c"
  shows "ok (foldM (purge_all_step now a test) [0..<length (slots c)] (s, 0, 0, 0)) (purging now test a c s (length (slots c)))"
proof (rule foldM_upt [where P = "purging now test a c s"])
  show "purging now test a c s 0 (s, 0, 0, 0)"
    using co shrunk_refl [OF a] by (auto simp: purging_def counted_def)
  fix i st assume i: "i < length (slots c)" and P: "purging now test a c s i st"
  have ok: "shape_ok c" using core_linked(2) [OF co a] by (simp add: cent_ok_def)
  obtain s1 n where st: "st = (s1, n)" by (cases st)
  from P obtain c1 where 1: "core s1" "counted now c i n" "cache_size s1 - total_cs (cents s1) = cache_size s - total_cs (cents s)"
    "test \<longrightarrow> s1 = s" "shrunk a c s c1 s1" "length (slots c1) = length (slots c)"
    "rr c1 = (\<lambda>j. if j < i \<and> \<not> kept now c j \<and> \<not> test then None else rr c j)" unfolding st purging_def fst_conv snd_conv by blast
  show "ok (purge_all_step now a test i st) (purging now test a c s (Suc i))"
    unfolding st
  proof (rule ok_mono [OF purge_all_step_ok [OF a ok 1(1,5) i 1(6,7,2)]])
    fix x assume x: "case x of (s', n') \<Rightarrow> core s' \<and> counted now c (Suc i) n' \<and>
      cache_size s' - total_cs (cents s') = cache_size s1 - total_cs (cents s1) \<and> (test \<longrightarrow> s' = s1) \<and>
      (\<exists>c'. shrunk a c s c' s' \<and> length (slots c') = length (slots c) \<and>
        rr c' = (\<lambda>j. if j < Suc i \<and> \<not> kept now c j \<and> \<not> test then None else rr c j))"
    obtain s2 n2 where "x = (s2, n2)" by (cases x)
    with x 1(3,4) show "purging now test a c s (Suc i) x" by (simp add: purging_def)
  qed
qed

lemma purge_all_rrsets_ok:
  assumes inv: "inv_but x s" and a: "cents s a = Some c" and nneg: "\<not> is_neg c"
  shows "ok (purge_all_rrsets now a test s) (\<lambda>(rv, nr, s'). rv = num_purged now c \<and> nr = num_kept now c \<and>
    (if test then s' = s else inv_but x s' \<and> (\<exists>c'. shrunk a c s c' s' \<and> purged now c c')))"
proof -
  have co: "core s" using inv by (rule inv_but_core)
  have ok: "shape_ok c" using core_linked(2) [OF co a] by (simp add: cent_ok_def)
  let ?n = "length (slots c)"
  from purging_loop [OF co a] obtain st where f0: "foldM (purge_all_step now a test) [0..<?n] (s, 0, 0, 0) = Some st" and
    P: "purging now test a c s ?n st" by (rule okE)
  obtain s1 rv nr ne where st: "st = (s1, rv, nr, ne)" by (cases st)
  note f = f0 [unfolded st]
  from P obtain c1 where 1: "core s1" "counted now c ?n (rv, nr, ne)" "cache_size s1 - total_cs (cents s1) = cache_size s - total_cs (cents s)"
    "test \<longrightarrow> s1 = s" "shrunk a c s c1 s1" "length (slots c1) = ?n"
    "rr c1 = (\<lambda>j. if j < ?n \<and> \<not> kept now c j \<and> \<not> test then None else rr c j)" unfolding st purging_def fst_conv snd_conv by blast
  note cnt = counted_all [OF 1(2)]
  have p1: "purged now c c1" if "\<not> test" unfolding purged_def fun_eq_iff
  proof
    fix j show "rr c1 j = (if kept now c j then rr c j else None)" using 1(7) that rr_bound [of c j] by (cases "rr c j") auto
  qed
  have inv1: "inv_but x s'" if "core s'" "cache_size s' - total_cs (cents s') = cache_size s - total_cs (cents s)" "same_table s s'" for s'
    using inv that same_table_table [OF that(3)] by (simp add: inv_but_def same_table_def)
  have L: "RRARR_LEN c = Some ?n" "?n = 8 \<or> ?n = 47" using length_slots [OF ok nneg] by auto
  show ?thesis
  proof (cases "?n = NRRTOT \<and> ne = 0")
    case False
    then have "purge_all_rrsets now a test s = Some (rv, nr, s1)"
      using a nneg L f by (auto simp: purge_all_rrsets_def)
    moreover have "rv = num_purged now c" using cnt False by (auto simp: num_purged_def)
    ultimately show ?thesis using cnt(2) 1 p1 inv1 [of s1] by (auto simp: shrunk_def)
  next
    case True
    have rv: "rv + 1 = num_purged now c" using cnt True by (simp add: num_purged_def)
    show ?thesis
    proof (cases test)
      case test: True
      then have "purge_all_rrsets now a test s = Some (rv + 1, nr, s)"
        using a nneg L f True 1(4) by (simp add: purge_all_rrsets_def)
      then show ?thesis using rv cnt(2) test by simp
    next
      case ntest: False
      have none: "rr c1 j = None" if "NRRMU \<le> j" for j using p1 ntest cnt(3) True that by (simp add: purged_def)
      have a1: "cents s1 a = Some c1" using 1(5) by (simp add: shrunk_def)
      have len: "length (slots c1) = 47" using 1(6) True by (simp add: nrr_defs)
      from drop_ext_ok [OF 1(1) a1 len none] obtain s2 c2 where d: "drop_ext a s1 = Some s2" "core s2"
        "cache_size s2 - total_cs (cents s2) = cache_size s1 - total_cs (cents s1)" "shrunk a c1 s1 c2 s2" "rr c2 = rr c1"
        by (rule okE) blast+
      have sh: "shape_ok c1" "shape_ok c2"
        using core_linked(2) [OF 1(1) a1] core_linked(2) [OF d(2), of a c2] d(4) by (auto simp: cent_ok_def shrunk_def)
      have s2: "shrunk a c s c2 s2" by (rule shrunk_trans [OF 1(5) d(4) ok sh])
      have "purge_all_rrsets now a test s = Some (rv + 1, nr, s2)"
        using a nneg L f True ntest d(1) by (simp add: purge_all_rrsets_def)
      moreover have "purged now c c2" using p1 ntest d(5) by (simp add: purged_def)
      moreover have "inv_but x s2" using inv1 [OF d(2)] d(3) 1(3) s2 by (simp add: shrunk_def)
      ultimately show ?thesis using rv cnt(2) s2 ntest by auto
    qed
  qed
qed

end
