(* ===== verification/CachePurge.thy ===== *)
theory CachePurge
  imports CacheInv
begin

text \<open>
  Purging (\<^verbatim>\<open>purge_rrset\<close>, \<^verbatim>\<open>purge_cent\<close> and \<^verbatim>\<open>purge_cache\<close> of \<^verbatim>\<open>src/cache.c\<close>): what is removed from an entry, that the
  test mode of \<open>purge_cent\<close> predicts the result, and that \<open>purge_cache\<close> brings the cache below its limit.
\<close>

section \<open>Removing one record set\<close>

lemma inv_same:
  assumes "inv_but x s" and "core s'" and "same_table s s'"
    and "cache_size s' - total_cs (cents s') = cache_size s - total_cs (cents s)"
  shows "inv_but x s'"
  using assms same_table_table [OF assms(3)] unfolding inv_but_def same_table_def by simp

lemma same_table_found: "same_table s s' \<Longrightarrow> found s' = found s"
  by (rule ext) (simp add: same_table_def found_def)

lemma del_sized_ok:
  assumes inv: "inv_but x s" and a: "cents s a = Some c" and i: "i < NRRTOT"
  shows "ok (do { (rv, s) \<leftarrow> del_set a i s; Some (s\<lparr>cache_size := cache_size s - int rv\<rparr>) }) (\<lambda>s'. inv_but x s' \<and>
    cache_size s' \<le> cache_size s \<and> (\<exists>c'. shrunk a c s c' s' \<and> rr c' = (rr c)(i := None) \<and> cent_ok c'))"
proof -
  from del_set_shrunk [OF inv_but_core [OF inv] a i] obtain rv s1 c1 where d: "del_set a i s = Some (rv, s1)" "core s1"
    "cache_size s1 = cache_size s" "total_cs (cents s1) = total_cs (cents s) - int rv" "shrunk a c s c1 s1" "rr c1 = (rr c)(i := None)"
    by (rule ok2E) blast
  let ?s = "s1\<lparr>cache_size := cache_size s1 - int rv\<rparr>"
  have sh: "shrunk a c s c1 ?s" using d(5) by (simp add: shrunk_def)
  have "core ?s" by (rule core_cong [OF d(2)]) simp_all
  then have "inv_but x ?s"
    by (rule inv_same [OF inv]) (use d(3,4) sh in \<open>simp_all add: shrunk_def del: same_table_size\<close>)
  moreover have "cent_ok c1" using core_linked(2) [OF d(2), of a c1] d(5) by (simp add: shrunk_def)
  ultimately show ?thesis using d sh by auto
qed

definition outdated :: "int \<Rightarrow> dns_cent \<Rightarrow> nat \<Rightarrow> bool" where
  "outdated now c i \<longleftrightarrow> rr c i \<noteq> None \<and> \<not> kept now c i"

lemma purge_rrset_ok:
  assumes inv: "inv_but x s" and a: "cents s a = Some c" and i: "i < NRRTOT"
  shows "ok (purge_rrset now a i test s) (\<lambda>(r, s'). r = outdated now c i \<and>
    (if r \<and> \<not> test then inv_but x s' \<and> cache_size s' \<le> cache_size s \<and>
       (\<exists>c'. shrunk a c s c' s' \<and> rr c' = (rr c)(i := None) \<and> cent_ok c') else s' = s))"
proof -
  have "shape_ok c" using core_linked(2) [OF inv_but_core [OF inv] a] by (simp add: cent_ok_def)
  then have R: "RRARR_INDEX_TESTEXT c i = Some (rr c i)" using i by (rule RRARR_INDEX_TESTEXT_eq)
  show ?thesis
  proof (cases "outdated now c i")
    case False
    then have "purge_rrset now a i test s = Some (False, s)"
      using a R by (cases "rr c i") (auto simp: purge_rrset_def outdated_def kept_def)
    with False show ?thesis by simp
  next
    case True
    then obtain rs where rs: "rr c i = Some rs" "purgeable now rs" by (auto simp: outdated_def kept_def)
    from del_sized_ok [OF inv a i] obtain s' where d: "do { (rv, s) \<leftarrow> del_set a i s; Some (s\<lparr>cache_size := cache_size s - int rv\<rparr>) } = Some s'"
      "inv_but x s'" "cache_size s' \<le> cache_size s" "\<exists>c'. shrunk a c s c' s' \<and> rr c' = (rr c)(i := None) \<and> cent_ok c'"
      by (rule okE) blast
    from d(1) have "purge_rrset now a i test s = Some (True, if test then s else s')"
      using a R rs by (auto simp: purge_rrset_def bind_eq_Some_conv)
    with True d show ?thesis by simp
  qed
qed

section \<open>References to name servers and zone data\<close>

lemma GET_RRSMU_eq:
  assumes "shape_ok c" and "i < NRRMU"
  shows "GET_RRSMU c i = Some (rr c i)"
proof (cases "is_neg c")
  case True
  then show ?thesis using rr_neg [OF assms(1)] by (simp add: GET_RRSMU_def)
next
  case False
  then obtain mu ext where "body c = RR mu ext" "length mu = 8" using shape_RR [OF assms(1)] by blast
  then show ?thesis using False assms(2) by (simp add: GET_RRSMU_def rr_def slots_def nrr_defs nth_append)
qed

definition stale :: "int \<Rightarrow> rr_set option \<Rightarrow> bool" where
  "stale now r = (case r of None \<Rightarrow> True | Some rs \<Rightarrow> rrs rs = [] \<or> (\<not> has (flags rs) CF_LOCAL \<and> timedout now rs))"

text \<open>The record set that a reference denotes: \<open>cn\<close> is the number of labels of the name it is found under.\<close>

definition ref_target :: "cache \<Rightarrow> dns_cent \<Rightarrow> label list \<Rightarrow> byte \<Rightarrow> nat \<Rightarrow> rr_set option" where
  "ref_target s c k cn i = (if unat cn = length k then rr c i
     else if unat cn < length k then
       (case found s (drop (length k - unat cn) k) of None \<Rightarrow> None | Some b \<Rightarrow> rr (the (cents s b)) i)
     else None)"

definition stale_at :: "int \<Rightarrow> cache \<Rightarrow> dns_cent \<Rightarrow> label list \<Rightarrow> byte \<Rightarrow> nat \<Rightarrow> bool" where
  "stale_at now s c k cn i \<longleftrightarrow> cn \<noteq> cundef \<and> stale now (ref_target s c k cn i)"

lemma wf_name_drop: "wf_name k \<Longrightarrow> wf_name (drop n k)"
proof (induction k arbitrary: n)
  case (Cons l ls)
  then show ?case using wf_name_Cons [of l ls] by (cases n) auto
qed simp

lemma lookup_found:
  assumes "table s D" and "wf_name k"
  obtains loc where "lookup s (wire k @ r) = Some (found s k, loc)"
proof -
  from lookup_ok [OF assms, of r] obtain res loc where "lookup s (wire k @ r) = Some (res, loc)" "res = found s k"
    unfolding found_def by (rule ok2E) blast
  then show thesis using that by blast
qed

lemma stale_ref_eq:
  assumes inv: "inv_but x s" and a: "cents s a = Some c" and k: "wf_name k" "qname c = wire k" and i: "i < NRRMU"
  shows "stale_ref now s a (length k) cn i = Some (stale_at now s c k cn i)"
proof -
  have wf: "list_all wf_label k" using k(1) by (rule wf_name_labels)
  have sh: "shape_ok c" using core_linked(2) [OF inv_but_core [OF inv] a] by (simp add: cent_ok_def)
  have st: "stale now r = (case r of None \<Rightarrow> True | Some rs \<Rightarrow> rrs rs = [] \<or> (\<not> has (flags rs) CF_LOCAL \<and> timedout now rs))" for r
    by (simp add: stale_def)
  consider (undef) "cn = cundef" | (own) "cn \<noteq> cundef" "unat cn = length k" | (up) "cn \<noteq> cundef" "unat cn < length k"
    | (none) "cn \<noteq> cundef" "unat cn > length k" by linarith
  then show ?thesis
  proof cases
    case up
    let ?k = "drop (length k - unat cn) k"
    have sk: "skipsegs (qname c) (length k - unat cn) = Some (wire ?k)"
      using skipsegs_wire [OF wf, of "[]"] k(2) by simp
    obtain loc where l: "lookup s (wire ?k) = Some (found s ?k, loc)"
      using lookup_found [OF inv_but_table [OF inv] wf_name_drop [OF k(1)], of _ "[]"] by auto
    show ?thesis
    proof (cases "found s ?k")
      case None
      then show ?thesis using up a sk l by (simp add: stale_ref_def stale_at_def ref_target_def st)
    next
      case (Some b)
      then obtain ce where b: "cents s b = Some ce" "cent_ok ce" using found_entry [OF inv] by blast
      then have "GET_RRSMU ce i = Some (rr ce i)" using GET_RRSMU_eq [OF _ i] by (simp add: cent_ok_def)
      then show ?thesis using up a sk l Some b by (simp add: stale_ref_def stale_at_def ref_target_def st)
    qed
  qed (use a GET_RRSMU_eq [OF sh i] in \<open>simp_all add: stale_ref_def stale_at_def ref_target_def st\<close>)
qed

definition set_refs :: "bool \<Rightarrow> bool \<Rightarrow> dns_cent \<Rightarrow> dns_cent" where
  "set_refs ns soa c = c\<lparr>c_ns := if ns then cundef else c_ns c, c_soa := if soa then cundef else c_soa c\<rparr>"

lemma set_refs_simps [simp]:
  "qname (set_refs ns soa c) = qname c" "body (set_refs ns soa c) = body c" "cs (set_refs ns soa c) = cs c"
  "cflags (set_refs ns soa c) = cflags c" "num_rrs (set_refs ns soa c) = num_rrs c"
  "is_neg (set_refs ns soa c) = is_neg c"
  by (simp_all add: set_refs_def is_neg_def)

lemma rr_body: "body c' = body c \<Longrightarrow> rr c' = rr c"
  by (rule nodes_body(2))

lemma cent_ok_body:
  assumes "cent_ok c" and "body c' = body c" "qname c' = qname c" "cs c' = cs c" "num_rrs c' = num_rrs c" "is_neg c' = is_neg c"
  shows "cent_ok c'"
  using assms nodes_body(3) [OF assms(2)]
  by (auto simp: cent_ok_def shape_ok_def ext_size_def tot_def split: cent_body.splits)

text \<open>Changing fields of an entry that the list and the sizes do not depend on.\<close>

lemma upd_fields_ok:
  assumes inv: "inv_but x s" and a: "cents s a = Some c"
    and c': "body c' = body c" "qname c' = qname c" "cs c' = cs c" "num_rrs c' = num_rrs c" "is_neg c' = is_neg c"
    and s': "s' = s\<lparr>cents := (cents s)(a \<mapsto> c')\<rparr>"
  shows "inv_but x s'" "same_table s s'" "found s' = found s"
proof -
  have co: "core s" using inv by (rule inv_but_core)
  note l = core_linked [OF co a]
  have nd: "nodes a c' = nodes a c" using c'(1) by (rule nodes_body(1))
  have "core s'"
    unfolding s' by (rule core_upd [OF co a cent_ok_body [OF l(2) c'], of "rrset_l s"])
      (use l nd co in \<open>auto simp: linked_def core_def\<close>)
  moreover show st: "same_table s s'"
    unfolding s' using a qn_upd [OF a, of "s\<lparr>cents := (cents s)(a \<mapsto> c')\<rparr>" c'] c'(2) by (simp add: same_table_def insert_absorb domI)
  moreover have "total_cs (cents s') = total_cs (cents s)"
    using total_upd [of "cents s" a c'] total_split [of "cents s" a c] co a c'(3) by (simp add: core_def s')
  ultimately show "inv_but x s'" by (intro inv_same [OF inv]) (simp_all add: s')
  show "found s' = found s" using st by (rule same_table_found)
qed

lemma ref_target_upd:
  assumes "cents s a = Some c" and "body c' = body c" and "found s' = found s" and "cents s' = (cents s)(a \<mapsto> c')"
  shows "ref_target s' c' k cn i = ref_target s c k cn i"
proof -
  have rr: "rr c' = rr c" using assms(2) by (rule rr_body)
  then have "rr (the (cents s' b)) = rr (the (cents s b))" for b using assms by (simp add: fun_upd_def)
  with rr show ?thesis by (simp add: ref_target_def assms(3) split: option.split)
qed

definition stale_count :: "int \<Rightarrow> cache \<Rightarrow> dns_cent \<Rightarrow> label list \<Rightarrow> nat" where
  "stale_count now s c k = (if has (cflags c) DF_LOCAL then 0
     else of_bool (stale_at now s c k (c_ns c) 1) + of_bool (stale_at now s c k (c_soa c) 3))"

definition fresh_refs :: "int \<Rightarrow> cache \<Rightarrow> label list \<Rightarrow> dns_cent \<Rightarrow> dns_cent" where
  "fresh_refs now s k c = (if has (cflags c) DF_LOCAL then c
     else set_refs (stale_at now s c k (c_ns c) 1) (stale_at now s c k (c_soa c) 3) c)"

lemma purge_refs_eq:
  assumes inv: "inv_but x s" and a: "cents s a = Some c" and k: "wf_name k" "qname c = wire k"
  shows "purge_refs now a test s =
    Some (stale_count now s c k, if test then s else s\<lparr>cents := (cents s)(a \<mapsto> fresh_refs now s k c)\<rparr>)"
proof (cases "has (cflags c) DF_LOCAL")
  case True
  then show ?thesis using a by (simp add: purge_refs_def stale_count_def fresh_refs_def fun_upd_idem)
next
  case False
  have seg: "rhnsegcnt (qname c) = Some (length k)"
    using rhnsegcnt_wire [OF wf_name_labels [OF k(1)], of "[]"] k(2) by simp
  let ?ns = "stale_at now s c k (c_ns c) 1" let ?soa = "stale_at now s c k (c_soa c) 3"
  have ns: "stale_ref now s a (length k) (c_ns c) 1 = Some ?ns" by (rule stale_ref_eq [OF inv a k]) (simp add: nrr_defs)
  define c1 where "c1 = (if ?ns \<and> \<not> test then c\<lparr>c_ns := cundef\<rparr> else c)"
  define s1 where "s1 = s\<lparr>cents := (cents s)(a \<mapsto> c1)\<rparr>"
  have b: "body c1 = body c" "qname c1 = qname c" "cs c1 = cs c" "num_rrs c1 = num_rrs c" "is_neg c1 = is_neg c" "c_soa c1 = c_soa c"
    by (simp_all add: is_neg_def c1_def)
  note u = upd_fields_ok [OF inv a b(1-5) s1_def]
  have a1: "cents s1 a = Some c1" by (simp add: s1_def)
  have "stale_ref now s1 a (length k) (c_soa c1) 3 = Some (stale_at now s1 c1 k (c_soa c1) 3)"
    by (rule stale_ref_eq [OF u(1) a1]) (use k b in \<open>simp_all add: nrr_defs\<close>)
  moreover have "stale_at now s1 c1 k (c_soa c1) 3 = ?soa"
    using ref_target_upd [OF a b(1) u(3), of k _ 3] b(6) by (simp add: stale_at_def s1_def)
  ultimately have soa: "stale_ref now s1 a (length k) (c_soa c1) 3 = Some ?soa" by simp
  have s1: "(if ?ns \<and> \<not> test then s\<lparr>cents := (cents s)(a \<mapsto> c\<lparr>c_ns := cundef\<rparr>)\<rparr> else s) = s1"
    using a by (simp add: s1_def c1_def fun_upd_idem)
  have "purge_refs now a test s = Some (of_bool ?ns + of_bool ?soa,
    if ?soa \<and> \<not> test then s1\<lparr>cents := (cents s1)(a \<mapsto> c1\<lparr>c_soa := cundef\<rparr>)\<rparr> else s1)"
    unfolding purge_refs_def a bind.bind_lunit if_not_P [OF False] seg ns s1 Let_def a1 soa ..
  moreover have "(if ?soa \<and> \<not> test then s1\<lparr>cents := (cents s1)(a \<mapsto> c1\<lparr>c_soa := cundef\<rparr>)\<rparr> else s1) =
    (if test then s else s\<lparr>cents := (cents s)(a \<mapsto> fresh_refs now s k c)\<rparr>)"
    using a False by (simp add: s1_def c1_def fresh_refs_def set_refs_def fun_upd_idem)
  ultimately show ?thesis using False by (simp add: stale_count_def)
qed

section \<open>Purging an entry\<close>

text \<open>The entry goes away: no record set is kept, and if the domain is negated the negation has expired.\<close>

definition dead :: "int \<Rightarrow> dns_cent \<Rightarrow> bool" where
  "dead now c \<longleftrightarrow> (\<forall>j. \<not> kept now c j) \<and>
     (is_neg c \<longrightarrow> \<not> has (cflags c) DF_LOCAL \<and> time_t (neg_ts (body c) + CLAT_ADJ (neg_ttl (body c))) < now)"

text \<open>What remains of an entry that is purged.\<close>

definition purged_cent :: "int \<Rightarrow> cache \<Rightarrow> label list \<Rightarrow> dns_cent \<Rightarrow> dns_cent \<Rightarrow> bool" where
  "purged_cent now s k c c' \<longleftrightarrow> shrink (fresh_refs now s k c) c' \<and> purged now c c'"

lemma expired_eq:
  assumes "shape_ok c"
  shows "expired now c = Some (is_neg c \<longrightarrow> \<not> has (cflags c) DF_LOCAL \<and> time_t (neg_ts (body c) + CLAT_ADJ (neg_ttl (body c))) < now)"
proof (cases "is_neg c")
  case True
  then obtain le t s where "body c = Neg le t s" using shape_Neg [OF assms] by blast
  with True show ?thesis by (simp add: expired_def timedout_nxdom_def)
qed (simp add: expired_def)

lemma has_DF_LOCAL_clear: "has (f AND NOT DF_AUTH) DF_LOCAL = has f DF_LOCAL"
proof -
  have "(f AND NOT DF_AUTH) AND DF_LOCAL = f AND DF_LOCAL"
    by (rule bit_word_eqI) (auto simp: bit_simps DF_AUTH_def DF_LOCAL_def bit_numeral_rec split: nat.splits)
  then show ?thesis by (simp add: has_def)
qed

lemma shrink_local: "shrink c c' \<Longrightarrow> has (cflags c') DF_LOCAL = has (cflags c) DF_LOCAL"
  using has_DF_LOCAL_clear [of "cflags c"] has_DF_LOCAL_clear [of "cflags c'"] by (simp add: shrink_def)

lemma expired_shrink: "shape_ok c \<Longrightarrow> shape_ok c' \<Longrightarrow> shrink c c' \<Longrightarrow> expired now c' = expired now c"
  using shrink_local [of c c'] by (auto simp: expired_eq shrink_def)

text \<open>Staleness does not depend on whether expired record sets have been removed.\<close>

lemma stale_purged: "purged now c c' \<Longrightarrow> stale now (rr c' i) = stale now (rr c i)"
  by (cases "rr c i") (auto simp: purged_def kept_def purgeable_def stale_def)

lemma ref_target_purged:
  assumes "cents s a = Some c" and "purged now c c'" and "found s' = found s" and "cents s' = (cents s)(a \<mapsto> c')"
  shows "stale now (ref_target s' c' k cn i) = stale now (ref_target s c k cn i)"
proof -
  have "stale now (rr (the (cents s' b)) i) = stale now (rr (the (cents s b)) i)" for b
    using assms stale_purged [OF assms(2)] by (simp add: fun_upd_def)
  then show ?thesis using stale_purged [OF assms(2)] by (simp add: ref_target_def assms(3) split: option.split)
qed

lemma stale_at_purged:
  assumes "cents s a = Some c" and "purged now c c'" and "shrink c c'" and "found s' = found s" and "cents s' = (cents s)(a \<mapsto> c')"
  shows "stale_at now s' c' k cn i = stale_at now s c k cn i"
  using ref_target_purged [OF assms(1,2,4,5)] by (simp add: stale_at_def)

text \<open>The record sets are purged, then the references.\<close>

lemma purge_all_any_ok:
  assumes inv: "inv_but x s" and a: "cents s a = Some c"
  shows "ok (purge_all_rrsets now a test s) (\<lambda>(rv, nr, s'). nr = num_kept now c \<and> (rv = 0 \<longrightarrow> (\<forall>j. \<not> outdated now c j)) \<and>
    rv = (if is_neg c then 0 else num_purged now c) \<and>
    (if test then s' = s else inv_but x s' \<and> (\<exists>c'. shrunk a c s c' s' \<and> purged now c c' \<and> cent_ok c')))"
proof (cases "is_neg c")
  case True
  have "cent_ok c" using core_linked(2) [OF inv_but_core [OF inv] a] .
  then have none: "rr c j = None" for j using rr_neg True by (simp add: cent_ok_def)
  then have "num_kept now c = 0" "purged now c c" by (simp_all add: num_kept_def kept_def purged_def fun_eq_iff)
  moreover have "purge_all_rrsets now a test s = Some (0, 0, s)" using a True by (simp add: purge_all_rrsets_def)
  moreover have "\<exists>c'. shrunk a c s c' s \<and> purged now c c' \<and> cent_ok c'"
    using shrunk_refl [OF a] \<open>purged now c c\<close> \<open>cent_ok c\<close> by blast
  moreover have "\<not> outdated now c j" for j using none by (simp add: outdated_def)
  ultimately show ?thesis using inv True by simp
next
  case False
  have "{j. rr c j \<noteq> None \<and> \<not> kept now c j} \<subseteq> {..<length (slots c)}" using rr_bound [of c] by blast
  then have fin: "finite {j. rr c j \<noteq> None \<and> \<not> kept now c j}" by (rule finite_subset) simp
  from purge_all_rrsets_ok [OF inv a False, of now test] obtain rv nr s' where r: "purge_all_rrsets now a test s = Some (rv, nr, s')"
    "rv = num_purged now c" "nr = num_kept now c"
    "if test then s' = s else inv_but x s' \<and> (\<exists>c'. shrunk a c s c' s' \<and> purged now c c')" by (rule ok3E) blast
  have "cent_ok c'" if "inv_but x s'" "shrunk a c s c' s'" for c'
  proof (rule core_linked(2) [OF inv_but_core [OF that(1)]])
    show "cents s' a = Some c'" using that(2) by (simp add: shrunk_def)
  qed
  then have "if test then s' = s else inv_but x s' \<and> (\<exists>c'. shrunk a c s c' s' \<and> purged now c c' \<and> cent_ok c')"
    using r(4) by (cases test) (simp, simp only: if_False, blast)
  moreover have "\<not> outdated now c j" if "num_purged now c = 0" for j
  proof -
    have "{j. rr c j \<noteq> None \<and> \<not> kept now c j} = {}" using that fin by (simp add: num_purged_def)
    then show ?thesis unfolding outdated_def by blast
  qed
  ultimately show ?thesis unfolding r(1) ok_Some prod.case using r(2,3) False by simp
qed

definition purge_count :: "int \<Rightarrow> cache \<Rightarrow> dns_cent \<Rightarrow> label list \<Rightarrow> nat" where
  "purge_count now s c k = (if is_neg c then 0 else num_purged now c) + stale_count now s c k"

text \<open>The entry at address \<open>a\<close> with the name \<open>k\<close> has been deleted, or changed.\<close>

definition gone :: "nat \<Rightarrow> dns_cent \<Rightarrow> label list \<Rightarrow> cache \<Rightarrow> cache \<Rightarrow> bool" where
  "gone a c k s s' \<longleftrightarrow> cents s' = (cents s)(a := None) \<and> fresh s' = fresh s \<and> insert_sort s' = insert_sort s \<and>
     rrset_l s' = filter (\<lambda>e. e \<notin> nodes a c) (rrset_l s) \<and>
     (\<forall>k'. wf_name k' \<longrightarrow> found s' k' = (if fold_name k' = fold_name k then None else found s k'))"

definition changed :: "nat \<Rightarrow> dns_cent \<Rightarrow> dns_cent \<Rightarrow> cache \<Rightarrow> cache \<Rightarrow> bool" where
  "changed a c c' s s' \<longleftrightarrow> same_table s s' \<and> fresh s' = fresh s \<and> cents s' = (cents s)(a \<mapsto> c') \<and>
     rrset_l s' = filter (\<lambda>e. e \<notin> nodes a c \<or> e \<in> nodes a c') (rrset_l s)"

lemma shrunk_changed: "shrunk a c s c' s' \<Longrightarrow> changed a c c' s s' \<and> shrink c c'"
  by (simp add: shrunk_def changed_def)

lemma removed_gone: "removed a c k s s' \<Longrightarrow> gone a c k s s'"
  by (simp add: removed_def gone_def)

lemma shrunk_gone:
  assumes "shrunk a c s c1 s1" and "gone a c1 k s1 s2" and "shape_ok c" "shape_ok c1"
  shows "gone a c k s s2"
proof -
  have "nodes a c1 \<subseteq> nodes a c" using shrink_nodes [OF _ assms(3,4)] assms(1) by (simp add: shrunk_def)
  then have "rrset_l s2 = filter (\<lambda>e. e \<notin> nodes a c) (rrset_l s)"
    using assms(1,2) by (auto simp: shrunk_def gone_def filter_filter intro!: filter_cong)
  moreover have st: "same_table s s1" using assms(1) by (simp add: shrunk_def)
  note same_table_found [OF st]
  moreover have "insert_sort s1 = insert_sort s" using st by (simp add: same_table_def)
  ultimately show ?thesis using assms(1,2) by (simp add: shrunk_def gone_def)
qed

lemma shrink_set_refs: "shrink c c' \<Longrightarrow> shrink (set_refs ns soa c) (set_refs ns soa c')"
  using rr_body [of "set_refs ns soa c" c] rr_body [of "set_refs ns soa c'" c']
  by (simp add: shrink_def) (simp add: set_refs_def)

lemma fresh_refs_purged:
  assumes "cents s a = Some c" and "purged now c c'" and "shrink c c'" and "found s' = found s" and "cents s' = (cents s)(a \<mapsto> c')"
  shows "stale_count now s' c' k = stale_count now s c k" "shrink (fresh_refs now s k c) (fresh_refs now s' k c')"
proof -
  have refs: "c_ns c' = c_ns c" "c_soa c' = c_soa c" using assms(3) by (simp_all add: shrink_def)
  show "stale_count now s' c' k = stale_count now s c k"
    by (simp add: stale_count_def refs shrink_local [OF assms(3)] stale_at_purged [OF assms])
  show "shrink (fresh_refs now s k c) (fresh_refs now s' k c')"
    using shrink_set_refs [OF assms(3)] assms(3)
    by (simp add: fresh_refs_def refs shrink_local [OF assms(3)] stale_at_purged [OF assms])
qed

lemma fresh_refs_fields: "body (fresh_refs now s k c) = body c" "qname (fresh_refs now s k c) = qname c" "cs (fresh_refs now s k c) = cs c"
  "num_rrs (fresh_refs now s k c) = num_rrs c" "is_neg (fresh_refs now s k c) = is_neg c" "cflags (fresh_refs now s k c) = cflags c"
  by (simp_all add: fresh_refs_def)

lemma purge_cent_test:
  assumes inv: "inv_but x s" and a: "cents s a = Some c" and k: "wf_name k" "qname c = wire k"
  shows "purge_cent now a delete True s = Some (if delete \<and> dead now c then - 1 else int (purge_count now s c k), s)"
proof -
  have sh: "shape_ok c" using core_linked(2) [OF inv_but_core [OF inv] a] by (simp add: cent_ok_def)
  from purge_all_any_ok [OF inv a, of now True] obtain rv nr where p: "purge_all_rrsets now a True s = Some (rv, nr, s)"
    "nr = num_kept now c" "rv = (if is_neg c then 0 else num_purged now c)" by (rule ok3E) simp
  have d: "(if delete \<and> nr = 0 then expired now c else Some False) = Some (delete \<and> dead now c)"
    using p(2) num_kept_0 [of now c] by (auto simp: expired_eq [OF sh] dead_def)
  show ?thesis
  proof (cases "delete \<and> dead now c")
    case True
    with p(1) a d show ?thesis by (simp add: purge_cent_def)
  next
    case False
    with p a d purge_refs_eq [OF inv a k, of now True] show ?thesis by (simp add: purge_cent_def purge_count_def)
  qed
qed

lemma purge_cent_ok:
  assumes inv: "inv_but x s" and a: "cents s a = Some c" and k: "wf_name k" "qname c = wire k"
  shows "ok (purge_cent now a delete False s) (\<lambda>(r, s'). inv_but x s' \<and>
    r = (if delete \<and> dead now c then - 1 else int (purge_count now s c k)) \<and>
    (if delete \<and> dead now c then gone a c k s s' else \<exists>c'. changed a c c' s s' \<and> purged_cent now s k c c' \<and> cent_ok c'))"
proof -
  have sh: "shape_ok c" using core_linked(2) [OF inv_but_core [OF inv] a] by (simp add: cent_ok_def)
  from purge_all_any_ok [OF inv a, of now False] obtain rv nr s1 c1 where p: "purge_all_rrsets now a False s = Some (rv, nr, s1)"
    "nr = num_kept now c" "rv = (if is_neg c then 0 else num_purged now c)" "inv_but x s1"
    and c1: "shrunk a c s c1 s1" "purged now c c1" "cent_ok c1" by (rule ok3E) (simp only: if_False, blast)
  have a1: "cents s1 a = Some c1" "cents s1 = (cents s)(a \<mapsto> c1)" "shrink c c1" "found s1 = found s"
    using c1(1) same_table_found by (simp_all add: shrunk_def)
  have k1: "qname c1 = wire k" and sh1: "shape_ok c1" using a1(3) k(2) c1(3) by (simp_all add: shrink_def cent_ok_def)
  have d: "(if delete \<and> nr = 0 then expired now c1 else Some False) = Some (delete \<and> dead now c)"
    using p(2) num_kept_0 [of now c] by (auto simp: expired_shrink [OF sh sh1 a1(3)] expired_eq [OF sh] dead_def)
  show ?thesis
  proof (cases "delete \<and> dead now c")
    case True
    from del_cache_ent_ok [OF p(4) a1(1) k(1) k1, where loc = None] obtain s2 where s2: "del_cache_ent a None s1 = Some s2" "inv_but x s2"
      "removed a c1 k s1 s2" by (auto elim: okE)
    have "gone a c k s s2" by (rule shrunk_gone [OF c1(1) removed_gone [OF s2(3)] sh sh1])
    with True p(1) a1 d s2 show ?thesis by (simp add: purge_cent_def)
  next
    case False
    let ?c = "fresh_refs now s1 k c1" let ?s = "s1\<lparr>cents := (cents s1)(a \<mapsto> ?c)\<rparr>"
    note u = upd_fields_ok [OF p(4) a1(1) fresh_refs_fields(1-5) [of now s1 k c1] refl]
    note f = fresh_refs_purged [OF a c1(2) a1(3,4,2), of k]
    have "purge_cent now a delete False s = Some (int (rv + stale_count now s1 c1 k), ?s)"
      using p(1) a1(1) d False purge_refs_eq [OF p(4) a1(1) k(1) k1, of now False] by (simp add: purge_cent_def)
    moreover have "changed a c ?c s ?s"
      using c1(1) u(2) nodes_body(1) [OF fresh_refs_fields(1)] a1(2)
      by (auto simp: shrunk_def changed_def intro: same_table_trans)
    moreover have "purged_cent now s k c ?c"
      using f(2) c1(2) rr_body [OF fresh_refs_fields(1)] by (simp add: purged_cent_def purged_def)
    moreover have "cent_ok ?c" by (rule cent_ok_body [OF c1(3) fresh_refs_fields(1-5)])
    ultimately show ?thesis using u(1) False p(3) f(1) unfolding purge_count_def by auto
  qed
qed

section \<open>Walking along the list\<close>

lemma node_entry:
  assumes "core s" and "e \<in> set (rrset_l s)"
  obtains c where "cents s (lcent e) = Some c" "cent_ok c" "e \<in> nodes (lcent e) c"
proof -
  from assms obtain a where a: "a \<in> dom (cents s)" "e \<in> nodes a (the (cents s a))" by (auto simp: core_def all_nodes_def)
  then have "lcent e = a" by (blast dest: lcent_nodes)
  with a core_linked(2) [OF assms(1)] show thesis using that by (metis domD option.sel)
qed

text \<open>A node stands for a record set of its entry, or for the entry if that is negated.\<close>

lemma node_cases:
  assumes ok: "cent_ok c" and e: "e \<in> nodes a c"
  obtains (rrset) i rs where "lrrset e" "lidx e = int i" "i < length (slots c)" "i < NRRTOT" "rr c i = Some rs"
      "slot_node a i (rr c i) = {e}" "\<not> is_neg c"
    | (neg) "\<not> lrrset e" "is_neg c" "nodes a c = {e}" "num_rrs c = 0"
proof (cases "is_neg c")
  case True
  have sh: "shape_ok c" using ok by (simp add: cent_ok_def)
  then obtain le t s where b: "body c = Neg le t s" using shape_Neg True by blast
  then obtain n where "le = Some n" "e = \<lparr>lnode = n, lrrset = False, lcent = a, lidx = - 1\<rparr>"
    using e by (cases le) (auto simp: nodes_def neg_node_def)
  then show thesis using neg b True ok by (simp add: nodes_def neg_node_def cent_ok_def tot_def slots_def)
next
  case False
  have sh: "shape_ok c" using ok by (simp add: cent_ok_def)
  obtain mu ext where b: "body c = RR mu ext" using shape_RR [OF sh False] by blast
  then obtain i where i: "e \<in> slot_node a i (rr c i)" using e by (auto simp: nodes_def)
  then obtain rs n where rs: "rr c i = Some rs" "lent rs = Some n" "e = \<lparr>lnode = n, lrrset = True, lcent = a, lidx = int i\<rparr>"
    by (auto simp: slot_node_def split: option.splits)
  have "i < length (slots c)" by (rule rr_bound) (simp add: rs)
  with rs slots_le [OF sh] show thesis using rrset False by (simp add: slot_node_def)
qed

lemma num_rrs_0: "cent_ok c \<Longrightarrow> num_rrs c = 0 \<longleftrightarrow> (\<forall>i. rr c i = None)"
proof -
  assume "cent_ok c"
  then have "num_rrs c = 0 \<longleftrightarrow> (\<forall>r \<in> set (slots c). opt_count r = 0)" by (auto simp: cent_ok_def tot_def)
  also have "\<dots> \<longleftrightarrow> (\<forall>r \<in> set (slots c). r = None)" by (simp add: opt_count_def)
  also have "\<dots> \<longleftrightarrow> (\<forall>i. rr c i = None)"
    unfolding all_set_conv_all_nth by (auto simp: rr_def split: if_splits)
  finally show ?thesis .
qed

text \<open>A walk along the list whose body removes at most the current node visits every node.\<close>

lemma list_head_Cons [simp]: "list_head (e # es) = Some (lnode e)" "list_head [] = None"
  by (simp_all add: list_head_def)

lemma node_at_split:
  "distinct (map lnode (pre @ e # post)) \<Longrightarrow> node_at (lnode e) (pre @ e # post) = Some (e, list_head post)"
  by (induction pre) (auto simp: list_head_def split: list.split)

lemma filter_split:
  "distinct (map lnode (pre @ e # post)) \<Longrightarrow> filter (\<lambda>y. y \<noteq> e) (pre @ e # post) = pre @ post"
proof -
  assume "distinct (map lnode (pre @ e # post))"
  then have "filter (\<lambda>y. y \<noteq> e) pre = pre" "filter (\<lambda>y. y \<noteq> e) post = post" by (auto simp: filter_id_conv)
  then show ?thesis by simp
qed

lemma purge_walk_ok:
  assumes step: "\<And>s e. inv_but x s \<Longrightarrow> e \<in> set (rrset_l s) \<Longrightarrow> ok (f e s) (\<lambda>s'. inv_but x s' \<and> R s s' \<and>
        (rrset_l s' = rrset_l s \<and> P s' e \<or> rrset_l s' = filter (\<lambda>y. y \<noteq> e) (rrset_l s)))"
    and refl: "\<And>s. R s s" and trans: "\<And>s s' s''. R s s' \<Longrightarrow> R s' s'' \<Longrightarrow> R s s''"
    and stable: "\<And>s s' e. inv_but x s \<Longrightarrow> inv_but x s' \<Longrightarrow> R s s' \<Longrightarrow> e \<in> set (rrset_l s) \<Longrightarrow> e \<in> set (rrset_l s') \<Longrightarrow> P s e \<Longrightarrow> P s' e"
  shows "inv_but x s \<Longrightarrow> rrset_l s = pre @ post \<Longrightarrow> length post \<le> n \<Longrightarrow> \<forall>e \<in> set pre. P s e \<Longrightarrow>
    ok (purge_walk n f go (list_head post) s) (\<lambda>s'. inv_but x s' \<and> R s s' \<and> (go s' \<longrightarrow> (\<forall>e \<in> set (rrset_l s'). P s' e)))"
proof (induction n arbitrary: s pre post)
  case 0
  then show ?case using refl by simp
next
  case (Suc n)
  show ?case
  proof (cases "post = [] \<or> \<not> go s")
    case True
    then show ?thesis using Suc.prems refl by (cases post) auto
  next
    case False
    then obtain e es where post: "post = e # es" and go: "go s" by (cases post) auto
    have dist: "distinct (map lnode (pre @ e # es))"
      using inv_but_core [OF Suc.prems(1)] Suc.prems(2) post by (simp add: core_def)
    have "e \<in> set (rrset_l s)" using Suc.prems(2) post by simp
    from step [OF Suc.prems(1) this] obtain s1 where s1: "f e s = Some s1" "inv_but x s1" "R s s1"
      "rrset_l s1 = rrset_l s \<and> P s1 e \<or> rrset_l s1 = filter (\<lambda>y. y \<noteq> e) (rrset_l s)" by (rule okE) blast
    define pre1 where "pre1 = (if rrset_l s1 = rrset_l s \<and> P s1 e then pre @ [e] else pre)"
    have l1: "rrset_l s1 = pre1 @ es"
      using s1(4) filter_split [OF dist] Suc.prems(2) post by (auto simp: pre1_def)
    have pre1: "\<forall>y \<in> set pre1. P s1 y"
    proof
      fix y assume y: "y \<in> set pre1"
      show "P s1 y"
      proof (cases "y \<in> set pre")
        case True
        then have "y \<in> set (rrset_l s)" "y \<in> set (rrset_l s1)" "P s y" using Suc.prems(2,4) l1 y by auto
        then show ?thesis by (rule stable [OF Suc.prems(1) s1(2,3)])
      next
        case False
        with y show ?thesis by (simp add: pre1_def split: if_splits)
      qed
    qed
    have "length es \<le> n" using Suc.prems(3) post by simp
    from Suc.IH [OF s1(2) l1 this pre1] have "ok (purge_walk n f go (list_head es) s1)
      (\<lambda>s'. inv_but x s' \<and> R s s' \<and> (go s' \<longrightarrow> (\<forall>e \<in> set (rrset_l s'). P s' e)))"
      using trans [OF s1(3)] by (auto elim!: ok_mono)
    then show ?thesis using post go node_at_split [OF dist] Suc.prems(2) s1(1) by simp
  qed
qed

section \<open>Purging the cache\<close>

text \<open>
  Entries are deleted or lose record sets; nothing is added. What is certainly kept is given by \<open>K\<close>: the entries, and
  the record sets of an entry, that must survive.
\<close>

definition survives :: "(dns_cent \<Rightarrow> bool) \<Rightarrow> (dns_cent \<Rightarrow> nat \<Rightarrow> bool) \<Rightarrow> cache \<Rightarrow> cache \<Rightarrow> bool" where
  "survives E K s s' \<longleftrightarrow> (insert_sort s \<longrightarrow> insert_sort s') \<and> fresh s' = fresh s \<and> cache_size s' \<le> cache_size s \<and>
     length (rrset_l s') \<le> length (rrset_l s) \<and>
     (\<forall>b c'. cents s' b = Some c' \<longrightarrow> (\<exists>c. cents s b = Some c \<and> shrink c c' \<and> (\<forall>i. K c i \<longrightarrow> rr c' i = rr c i))) \<and>
     (\<forall>b c. cents s b = Some c \<longrightarrow> E c \<longrightarrow> cents s' b \<noteq> None)"

lemma survives_refl: "survives E K s s"
  by (auto simp: survives_def shrink_refl)

text \<open>\<open>E\<close> and \<open>K\<close> depend on what survives only.\<close>

definition hereditary :: "(dns_cent \<Rightarrow> bool) \<Rightarrow> (dns_cent \<Rightarrow> nat \<Rightarrow> bool) \<Rightarrow> bool" where
  "hereditary E K \<longleftrightarrow> (\<forall>c c'. shrink c c' \<longrightarrow> (\<forall>i. K c i \<longrightarrow> rr c' i = rr c i) \<longrightarrow>
     (E c \<longrightarrow> E c') \<and> (\<forall>i. K c i \<longrightarrow> K c' i))"

lemma survives_trans:
  assumes h: "hereditary E K" and 1: "survives E K s s'" and 2: "survives E K s' s''"
  shows "survives E K s s''"
  unfolding survives_def
proof (intro conjI allI impI)
  show "insert_sort s \<Longrightarrow> insert_sort s''" "fresh s'' = fresh s" "cache_size s'' \<le> cache_size s"
    "length (rrset_l s'') \<le> length (rrset_l s)"
    using 1 2 by (auto simp: survives_def)
next
  fix b c2 assume "cents s'' b = Some c2"
  then obtain c1 where c1: "cents s' b = Some c1" "shrink c1 c2" "\<forall>i. K c1 i \<longrightarrow> rr c2 i = rr c1 i" using 2 unfolding survives_def by blast
  then obtain c where c: "cents s b = Some c" "shrink c c1" "\<forall>i. K c i \<longrightarrow> rr c1 i = rr c i" using 1 unfolding survives_def by blast
  have "\<forall>i. K c i \<longrightarrow> rr c2 i = rr c i" using c1(3) c h unfolding hereditary_def by metis
  then show "\<exists>c. cents s b = Some c \<and> shrink c c2 \<and> (\<forall>i. K c i \<longrightarrow> rr c2 i = rr c i)"
    using c(1) shrink_trans [OF c(2) c1(2)] by blast
next
  fix b c assume c: "cents s b = Some c" "E c"
  then have "cents s' b \<noteq> None" using 1 unfolding survives_def by blast
  then obtain c1 where c1: "cents s' b = Some c1" by blast
  then obtain c0 where "cents s b = Some c0" "shrink c0 c1" "\<forall>i. K c0 i \<longrightarrow> rr c1 i = rr c0 i" using 1 unfolding survives_def by blast
  then have "E c1" using c h unfolding hereditary_def by (metis option.sel)
  then show "cents s'' b \<noteq> None" using c1 2 unfolding survives_def by blast
qed

lemma survives_mono:
  assumes "survives E K s s'" and "\<And>c. E' c \<Longrightarrow> E c" and "\<And>c i. K' c i \<Longrightarrow> K c i"
  shows "survives E' K' s s'"
  using assms unfolding survives_def by meson

lemma shrunk_survives:
  assumes "shrunk a c s c' s'" and "cache_size s' \<le> cache_size s" and "\<And>i. K c i \<Longrightarrow> rr c' i = rr c i"
  shows "survives E K s s'"
  using assms shrink_refl by (auto simp: survives_def shrunk_def same_table_def)

lemma removed_survives:
  assumes "removed a c k s s'" and "cents s a = Some c" and "\<not> E c"
  shows "survives E K s s'"
  using assms shrink_refl by (auto simp: survives_def removed_def split: if_splits)

lemma drop_entry_ok:
  assumes inv: "inv_but x s" and a: "cents s a = Some c"
  shows "ok (del_cache_ent a None s) (\<lambda>s'. inv_but x s' \<and> (\<exists>k. removed a c k s s'))"
proof -
  obtain k where k: "wf_name k" "qname c = wire k" using entry_name [OF inv_but_core [OF inv] a] by blast
  from del_cache_ent_ok [OF inv a k, where loc = None] show ?thesis by (auto elim!: ok_mono)
qed

lemma removed_list:
  assumes "removed a c k s s'" and "cent_ok c" and "num_rrs c = 0" and "\<not> is_neg c"
  shows "rrset_l s' = rrset_l s"
proof -
  have "rr c i = None" for i using num_rrs_0 [OF assms(2)] assms(3) by simp
  moreover have "\<not> is_Neg (body c)" using assms(2,4) by (auto simp: cent_ok_def shape_ok_def split: cent_body.splits)
  ultimately have "nodes a c = {}" by (auto simp: nodes_def slot_node_def split: cent_body.splits)
  then show ?thesis using assms(1) by (simp add: removed_def)
qed

text \<open>Removing the record set of a node removes this node only, even if the entry goes with it.\<close>

lemma shrunk_list:
  assumes "shrunk a c s c1 s1" and "rr c1 = (rr c)(i := None)" and "slot_node a i (rr c i) = {e}" and "cent_ok c" "cent_ok c1"
    and "\<not> is_neg c"
  shows "rrset_l s1 = filter (\<lambda>y. y \<noteq> e) (rrset_l s)" "\<not> is_neg c1"
proof -
  show nn: "\<not> is_neg c1" using assms(1,6) by (simp add: shrunk_def shrink_def)
  have "\<not> is_Neg (body c)" "\<not> is_Neg (body c1)"
    using assms(4,5,6) nn by (auto simp: cent_ok_def shape_ok_def split: cent_body.splits)
  then have "nodes a c1 = nodes a c - {e}" "e \<in> nodes a c"
    using nodes_update [of c c1 i None a] assms(2,3) slot_nodes_in [of c a i] by (auto simp: slot_node_def)
  then show "rrset_l s1 = filter (\<lambda>y. y \<noteq> e) (rrset_l s)" using assms(1) by (auto simp: shrunk_def intro!: filter_cong)
qed

definition node_local :: "cache \<Rightarrow> rr_lent \<Rightarrow> bool" where
  "node_local s e \<longleftrightarrow> (case cents s (lcent e) of None \<Rightarrow> False | Some c \<Rightarrow> has (cflags c) DF_LOCAL \<or>
     lrrset e \<and> (\<exists>rs. rr c (nat (lidx e)) = Some rs \<and> has (flags rs) CF_LOCAL))"

lemma local_node_eq:
  assumes "core s" and "e \<in> set (rrset_l s)"
  shows "local_node e s = Some (node_local s e)"
proof -
  obtain c where c: "cents s (lcent e) = Some c" "cent_ok c" "e \<in> nodes (lcent e) c" using node_entry [OF assms] .
  have sh: "shape_ok c" using c(2) by (simp add: cent_ok_def)
  show ?thesis
  proof (rule node_cases [OF c(2,3)])
    fix i rs assume "lrrset e" "lidx e = int i" "i < length (slots c)" "rr c i = Some rs"
    then show ?thesis using c(1) RRARR_INDEX_eq [OF sh, of i] by (auto simp: local_node_def node_local_def)
  qed (use c(1) in \<open>simp add: local_node_def node_local_def\<close>)
qed

text \<open>Local record sets and entries are never purged.\<close>

definition local_rr :: "dns_cent \<Rightarrow> nat \<Rightarrow> bool" where
  "local_rr c i \<longleftrightarrow> (\<exists>rs. rr c i = Some rs \<and> (has (flags rs) CF_LOCAL \<or> has (cflags c) DF_LOCAL))"

definition has_local :: "dns_cent \<Rightarrow> bool" where
  "has_local c \<longleftrightarrow> has (cflags c) DF_LOCAL \<or> (\<exists>i. local_rr c i)"

lemma hereditary_local: "hereditary has_local local_rr"
  unfolding hereditary_def
proof (intro allI impI conjI)
  fix c c' assume sh: "shrink c c'" and K: "\<forall>i. local_rr c i \<longrightarrow> rr c' i = rr c i"
  then have k: "local_rr c i \<Longrightarrow> local_rr c' i" for i using shrink_local [OF sh] by (simp add: local_rr_def)
  then show "local_rr c i \<Longrightarrow> local_rr c' i" for i .
  show "has_local c \<Longrightarrow> has_local c'" using k shrink_local [OF sh] by (auto simp: has_local_def)
qed

text \<open>The first pass removes what has expired.\<close>

definition alive :: "int \<Rightarrow> dns_cent \<Rightarrow> bool" where
  "alive now c \<longleftrightarrow> \<not> dead now c"

lemma kept_shrink: "shrink c c' \<Longrightarrow> kept now c' i \<Longrightarrow> kept now c i"
  unfolding shrink_def kept_def by (metis option.distinct(1))

lemma hereditary_alive: "hereditary (alive now) (kept now)"
  unfolding hereditary_def
proof (intro allI impI conjI)
  fix c c' assume sh: "shrink c c'" and K: "\<forall>i. kept now c i \<longrightarrow> rr c' i = rr c i"
  then have k: "kept now c i \<Longrightarrow> kept now c' i" for i by (simp add: kept_def)
  then show "kept now c i \<Longrightarrow> kept now c' i" for i .
  have "dead now c' \<Longrightarrow> dead now c"
    using k shrink_local [OF sh] sh by (auto simp: dead_def shrink_def)
  then show "alive now c \<Longrightarrow> alive now c'" by (auto simp: alive_def)
qed

definition keep_cent :: "int \<Rightarrow> dns_cent \<Rightarrow> bool" where
  "keep_cent now c \<longleftrightarrow> alive now c \<or> has_local c"

definition keep_rr :: "int \<Rightarrow> dns_cent \<Rightarrow> nat \<Rightarrow> bool" where
  "keep_rr now c i \<longleftrightarrow> kept now c i \<or> local_rr c i"

lemma hereditary_keep: "hereditary (keep_cent now) (keep_rr now)"
  using hereditary_alive [of now] hereditary_local unfolding hereditary_def keep_cent_def keep_rr_def by meson

text \<open>Whether the first pass has to remove a node.\<close>

definition node_old :: "int \<Rightarrow> cache \<Rightarrow> rr_lent \<Rightarrow> bool" where
  "node_old now s e \<longleftrightarrow> (case cents s (lcent e) of None \<Rightarrow> False
     | Some c \<Rightarrow> if lrrset e then outdated now c (nat (lidx e)) else dead now c)"

lemma purge_old_ok:
  assumes inv: "inv_but x s" and e: "e \<in> set (rrset_l s)"
  shows "ok (purge_old now e s) (\<lambda>s'. inv_but x s' \<and> survives (keep_cent now) (keep_rr now) s s' \<and>
    (rrset_l s' = rrset_l s \<and> (node_local s' e \<or> \<not> node_old now s' e) \<or> rrset_l s' = filter (\<lambda>y. y \<noteq> e) (rrset_l s)))"
proof (cases "node_local s e")
  case True
  then show ?thesis
    using local_node_eq [OF inv_but_core [OF inv] e] inv survives_refl by (simp add: purge_old_def)
next
  case False
  have loc: "local_node e s = Some False" using local_node_eq [OF inv_but_core [OF inv] e] False by simp
  let ?a = "lcent e" let ?E = "keep_cent now" let ?K = "keep_rr now"
  obtain c where c: "cents s ?a = Some c" "cent_ok c" "e \<in> nodes ?a c" using node_entry [OF inv_but_core [OF inv] e] .
  have sh: "shape_ok c" using c(2) by (simp add: cent_ok_def)
  have nl: "\<not> has (cflags c) DF_LOCAL" using False c(1) by (simp add: node_local_def)
  show ?thesis
  proof (rule node_cases [OF c(2,3)])
    assume neg: "\<not> lrrset e" "is_neg c" "nodes ?a c = {e}" "num_rrs c = 0"
    have K: "\<not> kept now c i" for i using rr_neg [OF sh neg(2)] by (simp add: kept_def)
    have ex: "expired now c = Some (dead now c)" using K by (auto simp: expired_eq [OF sh] dead_def)
    show ?thesis
    proof (cases "dead now c")
      case False
      then show ?thesis using loc c(1) neg ex inv survives_refl by (simp add: purge_old_def node_old_def)
    next
      case True
      from drop_entry_ok [OF inv c(1)] obtain s1 k where s1: "del_cache_ent ?a None s = Some s1" "inv_but x s1" "removed ?a c k s s1"
        by (rule okE) blast
      have "survives ?E ?K s s1" by (rule removed_survives [OF s1(3) c(1)]) (use True nl rr_neg [OF sh neg(2)] in \<open>simp add: keep_cent_def alive_def has_local_def local_rr_def\<close>)
      moreover have "rrset_l s1 = filter (\<lambda>y. y \<noteq> e) (rrset_l s)" using s1(3) neg(3) by (simp add: removed_def)
      ultimately show ?thesis using loc c(1) neg ex True s1 by (simp add: purge_old_def)
    qed
  next
    fix i rs assume rs: "lrrset e" "lidx e = int i" "i < length (slots c)" "i < NRRTOT" "rr c i = Some rs"
      "slot_node ?a i (rr c i) = {e}" "\<not> is_neg c"
    from purge_rrset_ok [OF inv c(1) rs(4), of now False] obtain r s1 where p: "purge_rrset now ?a i False s = Some (r, s1)"
      "r = outdated now c i" "if r then inv_but x s1 \<and> cache_size s1 \<le> cache_size s \<and>
         (\<exists>c'. shrunk ?a c s c' s1 \<and> rr c' = (rr c)(i := None) \<and> cent_ok c') else s1 = s" by (rule ok2E) simp
    show ?thesis
    proof (cases r)
      case False
      have "num_rrs c \<noteq> 0" using num_rrs_0 [OF c(2)] rs(5) by auto
      with False p show ?thesis using loc c(1) rs inv survives_refl by (simp add: purge_old_def node_old_def)
    next
      case True
      with p obtain c1 where c1: "inv_but x s1" "cache_size s1 \<le> cache_size s" "shrunk ?a c s c1 s1" "rr c1 = (rr c)(i := None)" "cent_ok c1"
        by auto
      note l1 = shrunk_list [OF c1(3,4) rs(6) c(2) c1(5) rs(7)]
      have "\<not> local_rr c i" using \<open>\<not> node_local s e\<close> c(1) rs nl by (simp add: node_local_def local_rr_def)
      then have K: "keep_rr now c j \<Longrightarrow> rr c1 j = rr c j" for j using True p(2) c1(4) by (auto simp: outdated_def keep_rr_def)
      have sv: "survives ?E ?K s s1" by (rule shrunk_survives [OF c1(3,2) K])
      have a1: "cents s1 ?a = Some c1" using c1(3) by (simp add: shrunk_def)
      have pre: "purge_old now e s = (if num_rrs c1 = 0 then del_cache_ent ?a None s1 else Some s1)"
        using loc c(1) rs p(1) a1 l1(2) by (auto simp: purge_old_def expired_def)
      show ?thesis
      proof (cases "num_rrs c1 = 0")
        case False
        then show ?thesis using pre c1(1) sv l1(1) by simp
      next
        case z: True
        from drop_entry_ok [OF c1(1) a1] obtain s2 k where s2: "del_cache_ent ?a None s1 = Some s2" "inv_but x s2" "removed ?a c1 k s1 s2"
          by (rule okE) blast
        have "\<not> has (cflags c1) DF_LOCAL" using nl shrink_local [of c c1] c1(3) by (simp add: shrunk_def)
        then have "\<not> keep_cent now c1"
          using num_rrs_0 [OF c1(5)] z l1(2) by (simp add: keep_cent_def alive_def dead_def kept_def has_local_def local_rr_def)
        then have "survives ?E ?K s1 s2" by (rule removed_survives [OF s2(3) a1])
        then have "survives ?E ?K s s2" by (rule survives_trans [OF hereditary_keep sv])
        then show ?thesis using pre z s2 removed_list [OF s2(3) c1(5) z l1(2)] l1(1) by simp
      qed
    qed
  qed
qed

text \<open>The second pass removes whatever is not local.\<close>

lemma purge_any_ok:
  assumes inv: "inv_but x s" and e: "e \<in> set (rrset_l s)"
  shows "ok (purge_any e s) (\<lambda>s'. inv_but x s' \<and> survives has_local local_rr s s' \<and>
    (rrset_l s' = rrset_l s \<and> node_local s' e \<or> rrset_l s' = filter (\<lambda>y. y \<noteq> e) (rrset_l s)))"
proof (cases "node_local s e")
  case True
  then show ?thesis
    using local_node_eq [OF inv_but_core [OF inv] e] inv survives_refl by (simp add: purge_any_def)
next
  case False
  have loc: "local_node e s = Some False" using local_node_eq [OF inv_but_core [OF inv] e] False by simp
  let ?a = "lcent e" let ?E = "has_local" let ?K = "local_rr"
  obtain c where c: "cents s ?a = Some c" "cent_ok c" "e \<in> nodes ?a c" using node_entry [OF inv_but_core [OF inv] e] .
  have sh: "shape_ok c" using c(2) by (simp add: cent_ok_def)
  have nl: "\<not> has (cflags c) DF_LOCAL" using False c(1) by (simp add: node_local_def)
  show ?thesis
  proof (rule node_cases [OF c(2,3)])
    assume neg: "\<not> lrrset e" "is_neg c" "nodes ?a c = {e}" "num_rrs c = 0"
    from drop_entry_ok [OF inv c(1)] obtain s1 k where s1: "del_cache_ent ?a None s = Some s1" "inv_but x s1" "removed ?a c k s s1"
      by (rule okE) blast
    have "survives ?E ?K s s1"
      by (rule removed_survives [OF s1(3) c(1)]) (use nl rr_neg [OF sh neg(2)] in \<open>simp add: has_local_def local_rr_def\<close>)
    moreover have "rrset_l s1 = filter (\<lambda>y. y \<noteq> e) (rrset_l s)" using s1(3) neg(3) by (simp add: removed_def)
    ultimately show ?thesis using loc c(1) neg s1 by (simp add: purge_any_def)
  next
    fix i rs assume rs: "lrrset e" "lidx e = int i" "i < length (slots c)" "i < NRRTOT" "rr c i = Some rs"
      "slot_node ?a i (rr c i) = {e}" "\<not> is_neg c"
    from del_sized_ok [OF inv c(1) rs(4)] obtain s1 c1 where d: "do { (rv, s) \<leftarrow> del_set ?a i s; Some (s\<lparr>cache_size := cache_size s - int rv\<rparr>) } = Some s1"
      and c1: "inv_but x s1" "cache_size s1 \<le> cache_size s" "shrunk ?a c s c1 s1" "rr c1 = (rr c)(i := None)" "cent_ok c1"
      by (rule okE) blast
    note l1 = shrunk_list [OF c1(3,4) rs(6) c(2) c1(5) rs(7)]
    have "\<not> local_rr c i" using False c(1) rs nl by (simp add: node_local_def local_rr_def)
    then have K: "local_rr c j \<Longrightarrow> rr c1 j = rr c j" for j using c1(4) by auto
    have sv: "survives ?E ?K s s1" by (rule shrunk_survives [OF c1(3,2) K])
    have a1: "cents s1 ?a = Some c1" "shrink c c1" using c1(3) by (simp_all add: shrunk_def)
    have pre: "purge_any e s = (if num_rrs c1 = 0 then del_cache_ent ?a None s1 else Some s1)"
      using loc rs(1,2) d a1 by (simp add: purge_any_def bind_assoc)
    show ?thesis
    proof (cases "num_rrs c1 = 0")
      case False
      then show ?thesis using pre c1(1) sv l1(1) by simp
    next
      case z: True
      from drop_entry_ok [OF c1(1) a1(1)] obtain s2 k where s2: "del_cache_ent ?a None s1 = Some s2" "inv_but x s2" "removed ?a c1 k s1 s2"
        by (rule okE) blast
      have "\<not> has_local c1" using num_rrs_0 [OF c1(5)] z nl shrink_local [OF a1(2)] by (simp add: has_local_def local_rr_def)
      then have "survives ?E ?K s1 s2" by (rule removed_survives [OF s2(3) a1(1)])
      then have "survives ?E ?K s s2" by (rule survives_trans [OF hereditary_local sv])
      then show ?thesis using pre z s2 removed_list [OF s2(3) c1(5) z l1(2)] l1(1) by simp
    qed
  qed
qed

text \<open>A node that is still in the list denotes the same record set.\<close>

lemma node_local_stable:
  assumes inv: "inv_but x s" "inv_but x s'" and sv: "survives E K s s'" and e: "e \<in> set (rrset_l s)" "e \<in> set (rrset_l s')"
    and l: "node_local s e"
  shows "node_local s' e"
proof -
  obtain c where c: "cents s (lcent e) = Some c" "cent_ok c" "e \<in> nodes (lcent e) c" using node_entry [OF inv_but_core [OF inv(1)] e(1)] .
  obtain c' where c': "cents s' (lcent e) = Some c'" "cent_ok c'" "e \<in> nodes (lcent e) c'" using node_entry [OF inv_but_core [OF inv(2)] e(2)] .
  have sh: "shrink c c'" using sv c(1) c'(1) unfolding survives_def by (metis option.sel)
  have fl: "has (cflags c') DF_LOCAL = has (cflags c) DF_LOCAL" using sh by (rule shrink_local)
  show ?thesis
  proof (rule node_cases [OF c'(2,3)])
    fix i rs assume i: "lrrset e" "lidx e = int i" "rr c' i = Some rs"
    then have "rr c i = Some rs" using sh by (metis shrink_def option.distinct(1))
    then show ?thesis using l i c(1) c'(1) fl by (simp add: node_local_def)
  qed (use l c(1) c'(1) fl in \<open>simp add: node_local_def\<close>)
qed

lemma node_old_stable:
  assumes inv: "inv_but x s" "inv_but x s'" and sv: "survives E K s s'" and e: "e \<in> set (rrset_l s)" "e \<in> set (rrset_l s')"
    and l: "\<not> node_old now s e"
  shows "\<not> node_old now s' e"
proof -
  obtain c where c: "cents s (lcent e) = Some c" "cent_ok c" "e \<in> nodes (lcent e) c" using node_entry [OF inv_but_core [OF inv(1)] e(1)] .
  obtain c' where c': "cents s' (lcent e) = Some c'" "cent_ok c'" "e \<in> nodes (lcent e) c'" using node_entry [OF inv_but_core [OF inv(2)] e(2)] .
  have sh: "shrink c c'" using sv c(1) c'(1) unfolding survives_def by (metis option.sel)
  show ?thesis
  proof (rule node_cases [OF c'(2,3)])
    fix i rs assume i: "lrrset e" "lidx e = int i" "rr c' i = Some rs"
    then have "rr c i = Some rs" using sh by (metis shrink_def option.distinct(1))
    then show ?thesis using l i c(1) c'(1) by (simp add: node_old_def outdated_def kept_def)
  next
    assume n: "\<not> lrrset e" "is_neg c'"
    then have n': "is_neg c" "body c' = body c" using sh by (auto simp: shrink_def)
    have "rr c i = None" "rr c' i = None" for i using rr_neg c(2) c'(2) n n' by (simp_all add: cent_ok_def)
    then show ?thesis using l n n' c(1) c'(1) shrink_local [OF sh] by (simp add: node_old_def dead_def kept_def)
  qed
qed

text \<open>Every node has a time stamp.\<close>

lemma node_ts:
  assumes co: "core s" and e: "e \<in> set (rrset_l s)"
  shows "get_rrlent_ts (cents s) e \<noteq> None"
proof -
  obtain c where c: "cents s (lcent e) = Some c" "cent_ok c" "e \<in> nodes (lcent e) c" using node_entry [OF co e] .
  have sh: "shape_ok c" using c(2) by (simp add: cent_ok_def)
  show ?thesis
  proof (rule node_cases [OF c(2,3)])
    fix i rs assume "lrrset e" "lidx e = int i" "i < length (slots c)" "rr c i = Some rs"
    then show ?thesis using c(1) RRARR_INDEX_eq [OF sh, of i] by (simp add: get_rrlent_ts_def)
  next
    assume n: "\<not> lrrset e" "is_neg c"
    obtain le t u where "body c = Neg le t u" using shape_Neg [OF sh n(2)] .
    then show ?thesis using n c(1) by (simp add: get_rrlent_ts_def)
  qed
qed

text \<open>Sorting the list changes its order only.\<close>

lemma sort_rrl_ok:
  assumes inv: "inv_but x s" and len: "length (rrset_l s) < 2 ^ NTMPSORT"
  shows "ok (sort_rrl s) (\<lambda>s'. inv_but x (s'\<lparr>insert_sort := True\<rparr>) \<and> (\<exists>f :: rr_lent \<Rightarrow> int. s' = s\<lparr>rrset_l := sort_key f (rrset_l s)\<rparr>))"
proof -
  have co: "core s" using inv by (rule inv_but_core)
  note ts = node_ts [OF co]
  let ?f = "\<lambda>le. the (get_rrlent_ts (cents s) le)"
  let ?l = "sort_key ?f (rrset_l s)"
  have "sort_rrl s = Some (s\<lparr>rrset_l := ?l\<rparr>)" using ts sort_list_ok [OF len] by (simp add: sort_rrl_def)
  moreover have "distinct (map lnode (rrset_l s))" using co by (simp add: core_def)
  then have "distinct (map lnode ?l)" by (simp add: distinct_map)
  then have "core (s\<lparr>rrset_l := ?l, insert_sort := True\<rparr>)" using co by (simp add: core_def)
  then have "inv_but x (s\<lparr>rrset_l := ?l, insert_sort := True\<rparr>)" using inv by (simp add: inv_but_def table_def)
  ultimately show ?thesis by (intro okI) (assumption, blast)
qed

lemma purge_cache_ok:
  assumes inv: "inv_but x s" and len: "length (rrset_l s) < 2 ^ NTMPSORT"
  shows "ok (purge_cache now sz lazy s) (\<lambda>s'. inv_but x s' \<and> survives has_local local_rr s s' \<and>
    (cache_size s' \<le> sz \<or> (\<forall>e \<in> set (rrset_l s'). node_local s' e)) \<and>
    (\<exists>s1. survives (keep_cent now) (keep_rr now) s s1 \<and> (\<not> lazy \<longrightarrow> (\<forall>e \<in> set (rrset_l s1). node_local s1 e \<or> \<not> node_old now s1 e)) \<and>
       (cache_size s1 \<le> sz \<longrightarrow> s' = s1)) \<and> (lazy \<and> cache_size s \<le> sz \<longrightarrow> s' = s))"
proof -
  let ?R1 = "survives (keep_cent now) (keep_rr now)" and ?P1 = "\<lambda>s e. node_local s e \<or> \<not> node_old now s e"
  let ?R2 = "survives has_local local_rr" and ?go = "\<lambda>s. \<not> lazy \<or> cache_size s > sz"
  have w1: "ok (purge_walk (length (rrset_l s)) (purge_old now) ?go (list_head (rrset_l s)) s)
    (\<lambda>s'. inv_but x s' \<and> ?R1 s s' \<and> (?go s' \<longrightarrow> (\<forall>e \<in> set (rrset_l s'). ?P1 s' e)))"
    by (rule purge_walk_ok [where pre = "[]"])
      (use inv in \<open>auto intro: purge_old_ok survives_refl survives_trans [OF hereditary_keep] dest: node_local_stable node_old_stable\<close>)
  then obtain s1 where s1: "purge_walk (length (rrset_l s)) (purge_old now) ?go (list_head (rrset_l s)) s = Some s1"
    "inv_but x s1" "?R1 s s1" "?go s1 \<longrightarrow> (\<forall>e \<in> set (rrset_l s1). ?P1 s1 e)" by (rule okE) blast
  have R2: "?R2 s s1" using s1(3) by (rule survives_mono) (simp_all add: keep_cent_def keep_rr_def)
  have same: "s1 = s" if "lazy" "cache_size s \<le> sz"
    using s1(1) that by (cases "rrset_l s"; cases "length (rrset_l s)") simp_all
  show ?thesis
  proof (cases "cache_size s1 \<le> sz")
    case True
    then have "purge_cache now sz lazy s = Some s1" using s1(1) by (simp add: purge_cache_def)
    then show ?thesis using s1 R2 True same by auto
  next
    case False
    have len1: "length (rrset_l s1) < 2 ^ NTMPSORT" using len s1(3) by (simp add: survives_def)
    have "ok (if insert_sort s1 then Some s1 else map_option (\<lambda>s. s\<lparr>insert_sort := True\<rparr>) (sort_rrl s1)) (\<lambda>s2. inv_but x s2 \<and> ?R2 s1 s2)"
      using sort_rrl_ok [OF s1(2) len1] s1(2) survives_refl [of has_local local_rr s1]
      by (auto simp: ok_simps survives_def elim!: ok_mono)
    then obtain s2 where s2: "(if insert_sort s1 then Some s1 else map_option (\<lambda>s. s\<lparr>insert_sort := True\<rparr>) (sort_rrl s1)) = Some s2"
      "inv_but x s2" "?R2 s1 s2" by (rule okE) blast
    have "ok (purge_walk (length (rrset_l s2)) purge_any (\<lambda>s. cache_size s > sz) (list_head (rrset_l s2)) s2)
      (\<lambda>s'. inv_but x s' \<and> ?R2 s2 s' \<and> (cache_size s' > sz \<longrightarrow> (\<forall>e \<in> set (rrset_l s'). node_local s' e)))"
      by (rule purge_walk_ok [where pre = "[]"])
        (use s2(2) in \<open>auto intro: purge_any_ok survives_refl survives_trans [OF hereditary_local] dest: node_local_stable\<close>)
    then obtain s3 where s3: "purge_walk (length (rrset_l s2)) purge_any (\<lambda>s. cache_size s > sz) (list_head (rrset_l s2)) s2 = Some s3"
      "inv_but x s3" "?R2 s2 s3" "cache_size s3 > sz \<longrightarrow> (\<forall>e \<in> set (rrset_l s3). node_local s3 e)" by (rule okE) blast
    have "purge_cache now sz lazy s = Some s3" using s1(1) False s2(1) s3(1) by (simp add: purge_cache_def)
    moreover have "?R2 s s3" using R2 s2(3) s3(3) survives_trans [OF hereditary_local] by blast
    moreover have "cache_size s3 \<le> sz \<or> (\<forall>e \<in> set (rrset_l s3). node_local s3 e)" using s3(4) by linarith
    moreover have "\<not> (lazy \<and> cache_size s \<le> sz)" using same False by auto
    ultimately show ?thesis using s1 s3(2) False by auto
  qed
qed


end
