(* ===== verification/CacheAdd.thy ===== *)
theory CacheAdd
  imports CachePurge
begin

text \<open>
  Adding to the cache (\<^verbatim>\<open>add_cache\<close> and \<^verbatim>\<open>cr_check_add\<close> of \<^verbatim>\<open>src/cache.c\<close>): the invariant is kept, whatever allocation fails, and the record
  sets of the entry afterwards are those an abstract merge of record sets gives.
\<close>

section \<open>Changing one entry\<close>

text \<open>The entry at \<open>a\<close> becomes \<open>c'\<close>; the list follows, the table and the counters stay.\<close>

definition touch :: "nat \<Rightarrow> dns_cent \<Rightarrow> cache \<Rightarrow> cache \<Rightarrow> bool" where
  "touch a c' s s' \<longleftrightarrow> core s' \<and> same_table s s' \<and> cache_size s' = cache_size s \<and> fresh s \<le> fresh s' \<and>
     cents s' = (cents s)(a \<mapsto> c')"

lemma touch_refl: "core s \<Longrightarrow> cents s a = Some c \<Longrightarrow> touch a c s s"
  by (simp add: touch_def same_table_refl fun_upd_idem)

lemma touch_trans: "touch a c s s' \<Longrightarrow> touch a c' s' s'' \<Longrightarrow> touch a c' s s''"
  by (auto simp: touch_def intro: same_table_trans)

lemma touch_entry: "touch a c' s s' \<Longrightarrow> cents s' a = Some c'" "touch a c' s s' \<Longrightarrow> cent_ok c'" "touch a c' s s' \<Longrightarrow> core s'"
  by (auto simp: touch_def intro!: core_linked(2) [of s' a])

lemma touchI:
  assumes c: "core s" and a: "cents s a = Some c" and c': "cent_ok c'" "linked (all_nodes ((cents s)(a := None))) a c' l" "qname c' = qname c"
    and l: "\<forall>e \<in> set l. lnode e < n" and n: "fresh s \<le> n"
  shows "touch a c' s (s\<lparr>cents := (cents s)(a \<mapsto> c'), rrset_l := l, fresh := n\<rparr>)"
proof -
  let ?s = "s\<lparr>cents := (cents s)(a \<mapsto> c'), rrset_l := l, fresh := n\<rparr>"
  have "core ?s" by (rule core_upd [OF c a c'(1,2)]) (use l n in simp_all)
  moreover have "same_table s ?s" using a qn_upd [OF a, of ?s c'] c'(3) by (simp add: same_table_def insert_absorb domI)
  ultimately show ?thesis using n by (simp add: touch_def)
qed

text \<open>The same when no node is added.\<close>

lemma touchI_sub:
  assumes c: "core s" and a: "cents s a = Some c" and c': "cent_ok c'" "linked (all_nodes ((cents s)(a := None))) a c' l" "qname c' = qname c"
    and l: "set l \<subseteq> set (rrset_l s)"
  shows "touch a c' s (s\<lparr>cents := (cents s)(a \<mapsto> c'), rrset_l := l\<rparr>)"
proof -
  have "\<forall>e \<in> set l. lnode e < fresh s" using c l by (auto simp: core_def)
  then show ?thesis using touchI [OF c a c', of "fresh s"] by simp
qed

lemma linked_refl:
  assumes "core s" and "cents s a = Some c" and "nodes a c' = nodes a c"
  shows "linked (all_nodes ((cents s)(a := None))) a c' (rrset_l s)"
  using core_linked(1) [OF assms(1,2)] assms(3) by (simp add: linked_def)

section \<open>Entries of which the list knows everything\<close>

text \<open>
  Every record set has a node in the list, and a negated domain has one; only local data, which are never purged, need none.
\<close>

definition set_tracked :: "dns_cent \<Rightarrow> rr_set \<Rightarrow> bool" where
  "set_tracked c rs \<longleftrightarrow> has (cflags c) DF_LOCAL \<or> has (flags rs) CF_LOCAL \<or> lent rs \<noteq> None"

definition tracked :: "dns_cent \<Rightarrow> bool" where
  "tracked c \<longleftrightarrow> (\<forall>i rs. rr c i = Some rs \<longrightarrow> set_tracked c rs) \<and>
     (is_neg c \<longrightarrow> has (cflags c) DF_LOCAL \<or> neg_lent (body c) \<noteq> None)"

lemma tracked_shrink:
  assumes "shrink c c'" and "tracked c"
  shows "tracked c'"
proof -
  have "set_tracked c' rs" if "rr c' i = Some rs" for i rs
  proof -
    have "rr c i = Some rs" using assms(1) that by (metis shrink_def option.distinct(1))
    then show ?thesis using assms(2) shrink_local [OF assms(1)] by (simp add: tracked_def set_tracked_def)
  qed
  then show ?thesis using assms shrink_local [OF assms(1)] by (simp add: tracked_def shrink_def)
qed

lemma tracked_body: "body c' = body c \<Longrightarrow> is_neg c' = is_neg c \<Longrightarrow> has (cflags c') DF_LOCAL = has (cflags c) DF_LOCAL \<Longrightarrow> tracked c' = tracked c"
  using rr_body [of c' c] by (simp add: tracked_def set_tracked_def)

section \<open>Inserting into the list\<close>

lemma insert_list:
  assumes c: "core s" and ts: "get_rrlent_ts (cents s) ne = Some t"
  obtains us vs where "rrset_l s = us @ vs"
    "(if insert_sort s then insert_sorted (get_rrlent_ts (cents s)) ne (rrset_l s) else Some (rrset_l s @ [ne])) = Some (us @ ne # vs)"
proof (cases "insert_sort s")
  case True
  let ?key = "\<lambda>e. the (get_rrlent_ts (cents s) e)"
  have k: "\<forall>e \<in> set (rrset_l s). get_rrlent_ts (cents s) e = Some (?key e)" using node_ts [OF c] by auto
  have "get_rrlent_ts (cents s) ne = Some (?key ne)" using ts by simp
  from insert_sorted_split [OF k this] obtain us vs where "rrset_l s = us @ vs"
    "insert_sorted (get_rrlent_ts (cents s)) ne (rrset_l s) = Some (us @ ne # vs)" by blast
  then show thesis using that True by simp
next
  case False
  then show thesis using that [of "rrset_l s" "[]"] by simp
qed

lemma linked_insert:
  assumes l: "linked F a c (us @ vs)" and n: "nodes a c' = insert ne (nodes a c)" "\<forall>e \<in> set (us @ vs). lnode e < lnode ne" "lcent ne = a"
  shows "linked F a c' (us @ ne # vs)"
  using assms by (auto simp: linked_def)

lemma insert_rrl_ok:
  assumes co: "core s" and a: "cents s a = Some c" and rs: "rr c i = Some rs" "lent rs = None"
  shows "ok (insert_rrl a (Some i) s al) (\<lambda>(r, s', al'). (al = [] \<longrightarrow> r \<and> al' = []) \<and> length (rrset_l s') \<le> length (rrset_l s) + 1 \<and>
    (\<exists>c' le. touch a c' s s' \<and> rr c' = (rr c)(i := Some (rs\<lparr>lent := le\<rparr>)) \<and> cflags c' = cflags c \<and> qname c' = qname c \<and>
      cs c' = cs c \<and> num_rrs c' = num_rrs c \<and> c_ns c' = c_ns c \<and> c_soa c' = c_soa c \<and> \<not> is_neg c' \<and> length (slots c') = length (slots c) \<and>
      (r \<longrightarrow> set_tracked c' (rs\<lparr>lent := le\<rparr>))))"
proof -
  note l = core_linked [OF co a]
  have sh: "shape_ok c" using l(2) by (simp add: cent_ok_def)
  have il: "i < length (slots c)" by (rule rr_bound) (simp add: rs)
  have nn: "\<not> is_Neg (body c)" "\<not> is_neg c" using il sh by (auto simp: slots_def shape_ok_def split: cent_body.splits)
  have R: "RRARR_INDEX c i = Some (Some rs)" using RRARR_INDEX_eq [OF sh il] rs by simp
  let ?loc = "has (flags rs) CF_LOCAL \<or> has (cflags c) DF_LOCAL"
  have same: "\<exists>c' le. touch a c' s s \<and> rr c' = (rr c)(i := Some (rs\<lparr>lent := le\<rparr>)) \<and> cflags c' = cflags c \<and> qname c' = qname c \<and>
      cs c' = cs c \<and> num_rrs c' = num_rrs c \<and> c_ns c' = c_ns c \<and> c_soa c' = c_soa c \<and> \<not> is_neg c' \<and> length (slots c') = length (slots c) \<and>
      (?loc \<longrightarrow> set_tracked c' (rs\<lparr>lent := le\<rparr>))"
    using touch_refl [OF co a] rs nn by (intro exI [of _ c] exI [of _ None]) (auto simp: fun_upd_idem set_tracked_def)
  obtain mem al' where m: "malloc al = (mem, al')" by (cases "malloc al")
  have m0: "al = [] \<Longrightarrow> mem \<and> al' = []" using m by auto
  show ?thesis
  proof (cases "?loc \<or> \<not> mem")
    case True
    then have res: "insert_rrl a (Some i) s al = Some (if ?loc then (True, s, al) else (False, s, al'))"
      using a R m by (auto simp: insert_rrl_def)
    show ?thesis
    proof (cases ?loc)
      case True
      then show ?thesis unfolding res using same by simp
    next
      case False
      with same show ?thesis unfolding res using True m0 by (simp del: not_None_eq) blast
    qed
  next
    case False
    let ?n = "fresh s" let ?ne = "\<lparr>lnode = ?n, lrrset = True, lcent = a, lidx = int i\<rparr>" let ?rs = "rs\<lparr>lent := Some ?n\<rparr>"
    have "get_rrlent_ts (cents s) ?ne = Some (ts rs)" using a R by (simp add: get_rrlent_ts_def)
    then obtain us vs where uv: "rrset_l s = us @ vs"
      "(if insert_sort s then insert_sorted (get_rrlent_ts (cents s)) ?ne (rrset_l s) else Some (rrset_l s @ [?ne])) = Some (us @ ?ne # vs)"
      using insert_list [OF co] by metis
    obtain c1 where c1: "RRARR_set c i (Some ?rs) = Some c1" "slots c1 = (slots c)[i := Some ?rs]" "shape_ok c1" "ext_size c1 = ext_size c"
      "c1 = c\<lparr>body := body c1\<rparr>" "is_Neg (body c1) = is_Neg (body c)" using RRARR_set_eq [OF sh il] by metis
    have f1: "cs c1 = cs c" "num_rrs c1 = num_rrs c" "qname c1 = qname c" "cflags c1 = cflags c" "c_ns c1 = c_ns c" "c_soa c1 = c_soa c"
      using c1(5) by (metis dns_cent.select_convs dns_cent.surjective dns_cent.update_convs(5))+
    have rr1: "rr c1 = (rr c)(i := Some ?rs)" by (rule rr_update [OF c1(2) il])
    have ok1: "cent_ok c1"
      by (rule cent_ok_update [OF l(2) il c1(2,3,4) f1(3)]) (use f1 rs in \<open>simp_all add: opt_size_def opt_count_def rrset_size_def\<close>)
    have "nodes a c1 = insert ?ne (nodes a c)"
      using nodes_update [OF nn(1) _ rr1, of a] c1(6) nn(1) rs by (simp add: slot_node_def)
    moreover have "\<forall>e \<in> set (us @ vs). lnode e < ?n" using co uv(1) by (simp add: core_def)
    ultimately have lk: "linked (all_nodes ((cents s)(a := None))) a c1 (us @ ?ne # vs)"
      using linked_insert [of _ a c us vs c1 ?ne] l(1) uv(1) by simp
    have "s\<lparr>rrset_l := us @ ?ne # vs, cents := (cents s)(a \<mapsto> c1), fresh := ?n + 1\<rparr> =
      s\<lparr>cents := (cents s)(a \<mapsto> c1), rrset_l := us @ ?ne # vs, fresh := ?n + 1\<rparr>" by simp
    moreover have "touch a c1 s (s\<lparr>cents := (cents s)(a \<mapsto> c1), rrset_l := us @ ?ne # vs, fresh := ?n + 1\<rparr>)"
    proof (rule touchI [OF co a ok1 lk f1(3)])
      have "\<forall>e \<in> set (us @ vs). lnode e < ?n" using co uv(1) by (simp add: core_def)
      then show "\<forall>e \<in> set (us @ ?ne # vs). lnode e < ?n + 1" by (simp add: ball_Un less_Suc_eq)
    qed simp
    moreover have "insert_rrl a (Some i) s al = Some (True, s\<lparr>rrset_l := us @ ?ne # vs, cents := (cents s)(a \<mapsto> c1), fresh := ?n + 1\<rparr>, al')"
      using a R False m uv(2) c1(1) by (simp add: insert_rrl_def)
    moreover have "\<not> is_neg c1" using c1(3,6) nn(1) by (auto simp: shape_ok_def split: cent_body.splits)
    ultimately have res: "insert_rrl a (Some i) s al = Some (True, s\<lparr>cents := (cents s)(a \<mapsto> c1), rrset_l := us @ ?ne # vs, fresh := ?n + 1\<rparr>, al')"
      and t: "touch a c1 s (s\<lparr>cents := (cents s)(a \<mapsto> c1), rrset_l := us @ ?ne # vs, fresh := ?n + 1\<rparr>)" and n1: "\<not> is_neg c1" by simp_all
    show ?thesis unfolding res ok_Some prod.case
      by (intro conjI exI [of _ c1] exI [of _ "Some ?n"] t rr1 f1 n1) (use m0 uv(1) c1(2) in \<open>simp_all add: set_tracked_def\<close>)
  qed
qed

lemma insert_rrl_neg_ok:
  assumes co: "core s" and a: "cents s a = Some c" and neg: "is_neg c" "body c = Neg None t u"
  shows "ok (insert_rrl a None s al) (\<lambda>(r, s', al'). (al = [] \<longrightarrow> r \<and> al' = []) \<and> length (rrset_l s') \<le> length (rrset_l s) + 1 \<and>
    (\<exists>le. touch a (c\<lparr>body := Neg le t u\<rparr>) s s' \<and> (r \<longrightarrow> has (cflags c) DF_LOCAL \<or> le \<noteq> None)))"
proof -
  note l = core_linked [OF co a]
  have "c\<lparr>body := Neg None t u\<rparr> = c" using neg(2) by (cases c) simp
  then have same: "touch a (c\<lparr>body := Neg None t u\<rparr>) s s" using touch_refl [OF co a] by simp
  obtain mem al' where m: "malloc al = (mem, al')" by (cases "malloc al")
  have m0: "al = [] \<Longrightarrow> mem \<and> al' = []" using m by auto
  show ?thesis
  proof (cases "has (cflags c) DF_LOCAL \<or> \<not> mem")
    case True
    then have res: "insert_rrl a None s al = Some (if has (cflags c) DF_LOCAL then (True, s, al) else (False, s, al'))"
      using a m by (auto simp: insert_rrl_def)
    show ?thesis unfolding res using same True m0 by (auto intro!: exI [of _ None])
  next
    case False
    let ?n = "fresh s" let ?ne = "\<lparr>lnode = ?n, lrrset = False, lcent = a, lidx = - 1\<rparr>" let ?c = "c\<lparr>body := Neg (Some ?n) t u\<rparr>"
    have "get_rrlent_ts (cents s) ?ne = Some u" using a neg(2) by (simp add: get_rrlent_ts_def)
    then obtain us vs where uv: "rrset_l s = us @ vs"
      "(if insert_sort s then insert_sorted (get_rrlent_ts (cents s)) ?ne (rrset_l s) else Some (rrset_l s @ [?ne])) = Some (us @ ?ne # vs)"
      using insert_list [OF co] by metis
    have fr: "\<forall>e \<in> set (us @ vs). lnode e < ?n" using co uv(1) by (simp add: core_def)
    have "nodes a ?c = insert ?ne (nodes a c)" using neg(2) by (simp add: nodes_def neg_node_def)
    then have lk: "linked (all_nodes ((cents s)(a := None))) a ?c (us @ ?ne # vs)"
      using linked_insert [of _ a c us vs ?c ?ne] l(1) uv(1) fr by simp
    have okc: "cent_ok ?c" using l(2) neg by (simp add: cent_ok_def shape_ok_def is_neg_def ext_size_def tot_def slots_def)
    have t: "touch a ?c s (s\<lparr>cents := (cents s)(a \<mapsto> ?c), rrset_l := us @ ?ne # vs, fresh := ?n + 1\<rparr>)"
      by (rule touchI [OF co a okc lk]) (use fr in \<open>simp_all add: ball_Un less_Suc_eq\<close>)
    have "insert_rrl a None s al = Some (True, s\<lparr>rrset_l := us @ ?ne # vs, cents := (cents s)(a \<mapsto> ?c), fresh := ?n + 1\<rparr>, al')"
      using a False m uv(2) neg by (simp add: insert_rrl_def)
    then have res: "insert_rrl a None s al = Some (True, s\<lparr>cents := (cents s)(a \<mapsto> ?c), rrset_l := us @ ?ne # vs, fresh := ?n + 1\<rparr>, al')"
      by simp
    show ?thesis unfolding res ok_Some prod.case
      by (intro conjI exI [of _ "Some ?n"] t) (use m0 uv(1) in simp_all)
  qed
qed

section \<open>Record sets without their list nodes\<close>

type_synonym rrview = "nat \<Rightarrow> rr_set option"

definition view :: "dns_cent \<Rightarrow> rrview" where
  "view c i = unlinked (rr c i)"

text \<open>The record sets that conflict with one of index \<open>i\<close>.\<close>

definition conflicting :: "nat \<Rightarrow> rrview \<Rightarrow> nat \<Rightarrow> bool" where
  "conflicting i V j \<longleftrightarrow> (case V j of None \<Rightarrow> False | Some rs \<Rightarrow> \<not> has (flags rs) CF_NEGATIVE \<and> rr_conflict i j)"

definition conflicts :: "nat \<Rightarrow> rrview \<Rightarrow> nat list" where
  "conflicts i V = filter (conflicting i V) [0..<NRRTOT]"

definition is_local :: "rr_set option \<Rightarrow> bool" where
  "is_local r = (case r of None \<Rightarrow> False | Some rs \<Rightarrow> has (flags rs) CF_LOCAL)"

definition rest_ttl :: "int \<Rightarrow> rr_set option \<Rightarrow> int" where
  "rest_ttl now r = (case r of None \<Rightarrow> 0 | Some rs \<Rightarrow> max 0 (time_t (ttl rs + ts rs - now)))"

text \<open>
  Whether a new record set is accepted: negative ones always are, local ones displace what conflicts, others only if no
  conflicting one is local and if they live longer than the conflicting ones do on average.
\<close>

definition accepts :: "int \<Rightarrow> bool \<Rightarrow> rrview \<Rightarrow> nat \<Rightarrow> int \<Rightarrow> 16 word \<Rightarrow> bool" where
  "accepts now dloc V i ttl0 fl \<longleftrightarrow> has fl CF_NEGATIVE \<or> has fl CF_LOCAL \<or>
     (\<not> dloc \<and> (\<forall>j \<in> set (conflicts i V). \<not> is_local (V j)) \<and>
      (conflicts i V = [] \<or> ttl0 > time_t (sum_list (map (\<lambda>j. rest_ttl now (V j)) (conflicts i V))) sdiv int (length (conflicts i V))))"

text \<open>What is left of the other record sets.\<close>

definition displace :: "rrview \<Rightarrow> nat \<Rightarrow> 16 word \<Rightarrow> rrview" where
  "displace V i fl j = (if \<not> has fl CF_NEGATIVE \<and> conflicting i V j then None else V j)"

definition precedes :: "int \<Rightarrow> rr_set \<Rightarrow> rr_set option \<Rightarrow> bool" where
  "precedes now new old = (case old of None \<Rightarrow> False | Some old \<Rightarrow> old_precedes now new old)"

definition merge_set :: "globparm \<Rightarrow> int \<Rightarrow> bool \<Rightarrow> nat \<Rightarrow> rr_set \<Rightarrow> rrview \<Rightarrow> rrview" where
  "merge_set g now dloc i new V = (if precedes now new (V i) then V
     else let V = V(i := None) in
       if accepts now dloc V i (ttl new) (flags new)
       then (displace V i (flags new))(i := Some ((adjust_ttl g new)\<lparr>lent := None\<rparr>)) else V)"

lemma unlinked_simps [simp]: "unlinked None = None" "unlinked (Some rs) = Some (rs\<lparr>lent := None\<rparr>)" "unlinked r = None \<longleftrightarrow> r = None"
  by (simp_all add: unlinked_def)

lemma conflicting_view: "conflicting i (view c) j \<longleftrightarrow> (\<exists>rs. rr c j = Some rs \<and> \<not> has (flags rs) CF_NEGATIVE \<and> rr_conflict i j)"
  by (cases "rr c j") (auto simp: conflicting_def view_def)

lemma conflicts_view:
  assumes "shape_ok c"
  shows "conflicts i (view c) = filter (conflicting i (view c)) [0..<length (slots c)]"
proof -
  obtain k where k: "NRRTOT = length (slots c) + k" using slots_le [OF assms] le_Suc_ex by blast
  have "\<not> conflicting i (view c) j" if "length (slots c) \<le> j" for j using that by (simp add: conflicting_view rr_def)
  then have "filter (conflicting i (view c)) [length (slots c)..<length (slots c) + k] = []" by (intro filter_False) simp
  then show ?thesis unfolding conflicts_def k upt_add_eq_append [OF le0] by simp
qed

lemma is_local_view: "is_local (view c j) = is_local (rr c j)" and rest_ttl_view: "rest_ttl now (view c j) = rest_ttl now (rr c j)"
  by (cases "rr c j"; simp add: is_local_def rest_ttl_def view_def)+

section \<open>Conflict resolution\<close>

lemma time_t_wrap [simp]: "time_t (time_t x + y) = time_t (x + y)" "time_t (x + time_t y) = time_t (x + y)"
  "time_t (time_t x - y) = time_t (x - y)" "time_t (time_t x) = time_t x" "time_t 0 = 0"
proof -
  have add: "time_t (time_t x + y) = time_t (x + y)" for x y
    using signed_take_bit_add [of 63 "signed_take_bit 63 x" y] signed_take_bit_add [of 63 x y] by (simp add: time_t_def)
  then show "time_t (time_t x + y) = time_t (x + y)" "time_t (x + time_t y) = time_t (x + y)"
    using add [of y x] by (simp_all add: add.commute)
  show "time_t (time_t x - y) = time_t (x - y)" using add [of x "- y"] by simp
qed (simp_all add: time_t_def)

lemma cr_sum_eq:
  assumes sh: "shape_ok c" and "\<And>j. j \<in> set js \<Longrightarrow> j < length (slots c)"
  shows "cr_sum now i c js ncf (time_t nttl) = Some (if \<exists>j \<in> set (filter (conflicting i (view c)) js). is_local (rr c j) then None
    else Some (ncf + length (filter (conflicting i (view c)) js),
      time_t (nttl + sum_list (map (\<lambda>j. rest_ttl now (rr c j)) (filter (conflicting i (view c)) js)))))"
  using assms(2)
proof (induction js arbitrary: ncf nttl)
  case (Cons j js)
  let ?js = "filter (conflicting i (view c)) js"
  have R: "RRARR_INDEX c j = Some (rr c j)" using RRARR_INDEX_eq [OF sh] Cons.prems by simp
  have IH: "cr_sum now i c js ncf (time_t nttl) = Some (if \<exists>j \<in> set ?js. is_local (rr c j) then None
      else Some (ncf + length ?js, time_t (nttl + sum_list (map (\<lambda>j. rest_ttl now (rr c j)) ?js))))" for ncf nttl
    by (rule Cons.IH) (use Cons.prems in simp)
  show ?case
  proof (cases "conflicting i (view c) j")
    case False
    then have "cr_sum now i c (j # js) ncf (time_t nttl) = cr_sum now i c js ncf (time_t nttl)"
      using R by (cases "rr c j") (auto simp: conflicting_view)
    with IH show ?thesis unfolding filter.simps if_not_P [OF False] by simp
  next
    case True
    then obtain rs where rs: "rr c j = Some rs" "\<not> has (flags rs) CF_NEGATIVE" "rr_conflict i j" by (auto simp: conflicting_view)
    show ?thesis
    proof (cases "has (flags rs) CF_LOCAL")
      case True
      then show ?thesis using R rs \<open>conflicting i (view c) j\<close> by (simp add: is_local_def)
    next
      case nl: False
      have eq: "cr_sum now i c (j # js) ncf (time_t nttl) = cr_sum now i c js (ncf + 1) (time_t (nttl + rest_ttl now (rr c j)))"
        using R rs nl by (simp add: rest_ttl_def Let_def max_def)
      have "(\<exists>j \<in> set (j # ?js). is_local (rr c j)) = (\<exists>j \<in> set ?js. is_local (rr c j))" using nl rs by (simp add: is_local_def)
      then show ?thesis unfolding eq IH filter.simps if_P [OF True]
        by (simp only: list.size list.map sum_list.Cons) (auto simp: add.assoc)
    qed
  qed
qed simp

lemma shrunk_touch:
  assumes "core s'" and "cache_size s' = cache_size s" and "shrunk a c s c' s'"
  shows "touch a c' s s'" "shrink c c'" "length (rrset_l s') \<le> length (rrset_l s)"
  using assms by (simp_all add: touch_def shrunk_def)

lemma del_set_touch:
  assumes c: "core s" and a: "cents s a = Some c" and i: "i < NRRTOT"
  shows "ok (del_set a i s) (\<lambda>(rv, s'). length (rrset_l s') \<le> length (rrset_l s) \<and>
    (\<exists>c'. touch a c' s s' \<and> shrink c c' \<and> rr c' = (rr c)(i := None) \<and> length (slots c') = length (slots c)))"
proof -
  from del_set_shrunk [OF assms] obtain rv s' c' where d: "del_set a i s = Some (rv, s')" "core s'" "cache_size s' = cache_size s"
    "shrunk a c s c' s'" "rr c' = (rr c)(i := None)" "length (slots c') = length (slots c)" by (rule ok2E) blast
  show ?thesis unfolding d(1) ok_Some prod.case
    by (intro conjI exI [of _ c'] shrunk_touch [OF d(2-4)] d(5,6))
qed

text \<open>The loop that removes the conflicting record sets.\<close>

definition displacing :: "nat \<Rightarrow> nat \<Rightarrow> dns_cent \<Rightarrow> cache \<Rightarrow> nat \<Rightarrow> cache \<Rightarrow> bool" where
  "displacing i a c s n s' \<longleftrightarrow> length (rrset_l s') \<le> length (rrset_l s) \<and>
     (\<exists>c'. touch a c' s s' \<and> shrink c c' \<and> length (slots c') = length (slots c) \<and>
        rr c' = (\<lambda>j. if j < n \<and> conflicting i (view c) j then None else rr c j))"

lemma cr_del_loop:
  assumes co: "core s" and a: "cents s a = Some c"
  shows "ok (foldM (cr_del_step i a) [0..<length (slots c)] s) (displacing i a c s (length (slots c)))"
proof (rule foldM_upt [where P = "displacing i a c s"])
  show "displacing i a c s 0 s" using touch_refl [OF co a] shrink_refl by (auto simp: displacing_def)
  fix n s1 assume n: "n < length (slots c)" and "displacing i a c s n s1"
  then obtain c1 where 1: "length (rrset_l s1) \<le> length (rrset_l s)" "touch a c1 s s1" "shrink c c1" "length (slots c1) = length (slots c)"
    "rr c1 = (\<lambda>j. if j < n \<and> conflicting i (view c) j then None else rr c j)" unfolding displacing_def by blast
  note t = touch_entry [OF 1(2)]
  have sh: "shape_ok c1" using t(2) by (simp add: cent_ok_def)
  have R: "RRARR_INDEX c1 n = Some (rr c n)" using RRARR_INDEX_eq [OF sh, of n] n 1(4,5) by simp
  show "ok (cr_del_step i a n s1) (displacing i a c s (Suc n))"
  proof (cases "conflicting i (view c) n")
    case False
    then have "cr_del_step i a n s1 = Some s1" using t(1) R by (cases "rr c n") (auto simp: cr_del_step_def conflicting_view)
    moreover have "rr c1 = (\<lambda>j. if j < Suc n \<and> conflicting i (view c) j then None else rr c j)"
      unfolding 1(5) using False by (auto simp: fun_eq_iff less_Suc_eq)
    ultimately show ?thesis using 1 unfolding displacing_def by auto
  next
    case True
    then obtain rs where rs: "rr c n = Some rs" "\<not> has (flags rs) CF_NEGATIVE" "rr_conflict i n" by (auto simp: conflicting_view)
    have nN: "n < NRRTOT" using n slots_le [OF sh] 1(4) by simp
    from del_set_touch [OF t(3,1) nN] obtain rv s2 c2 where 2: "del_set a n s1 = Some (rv, s2)" "length (rrset_l s2) \<le> length (rrset_l s1)"
      "touch a c2 s1 s2" "shrink c1 c2" "rr c2 = (rr c1)(n := None)" "length (slots c2) = length (slots c1)" by (rule ok2E) blast
    have "rr c2 = (\<lambda>j. if j < Suc n \<and> conflicting i (view c) j then None else rr c j)"
      unfolding 2(5) 1(5) using True by (auto simp: fun_eq_iff less_Suc_eq)
    then have "displacing i a c s (Suc n) s2"
      using touch_trans [OF 1(2) 2(3)] shrink_trans [OF 1(3) 2(4)] 1(1,4) 2(2,6) unfolding displacing_def by auto
    moreover have "cr_del_step i a n s1 = Some s2" using t(1) R rs 2(1) by (simp add: cr_del_step_def)
    ultimately show ?thesis by simp
  qed
qed

lemma displacing_displace:
  assumes "displacing i a c s (length (slots c)) s'"
  obtains c' where "touch a c' s s'" "shrink c c'" "length (rrset_l s') \<le> length (rrset_l s)"
    "rr c' = (\<lambda>j. if conflicting i (view c) j then None else rr c j)"
proof -
  from assms obtain c' where c': "length (rrset_l s') \<le> length (rrset_l s)" "touch a c' s s'" "shrink c c'"
    "rr c' = (\<lambda>j. if j < length (slots c) \<and> conflicting i (view c) j then None else rr c j)" unfolding displacing_def by blast
  have "conflicting i (view c) j \<Longrightarrow> j < length (slots c)" for j using rr_bound [of c j] by (auto simp: conflicting_view)
  then have "(\<lambda>j. if j < length (slots c) \<and> conflicting i (view c) j then None else rr c j) =
    (\<lambda>j. if conflicting i (view c) j then None else rr c j)" by auto
  then show thesis using that [OF c'(2,3,1)] c'(4) by simp
qed

lemma cr_check_add_ok:
  fixes now ttl0 :: int and i :: nat and fl :: "16 word"
  assumes co: "core s" and a: "cents s a = Some c"
  defines "acc \<equiv> accepts now (has (cflags c) DF_LOCAL) (view c) i ttl0 fl"
  shows "ok (cr_check_add now a i ttl0 fl s) (\<lambda>(r, s'). r = acc \<and> length (rrset_l s') \<le> length (rrset_l s) \<and>
    (\<exists>c'. touch a c' s s' \<and> shrink c c' \<and> view c' = (if r then displace (view c) i fl else view c)))"
proof (cases "has fl CF_NEGATIVE")
  case True
  then have "displace (view c) i fl = view c" "acc" by (auto simp: displace_def fun_eq_iff acc_def accepts_def)
  then show ?thesis using True touch_refl [OF co a] shrink_refl by (auto simp: cr_check_add_def)
next
  case pos: False
  have sh: "shape_ok c" using core_linked(2) [OF co a] by (simp add: cent_ok_def)
  let ?n = "length (slots c)"
  have L: "RRARR_LEN c = Some ?n"
  proof (cases "is_neg c")
    case True
    then obtain le t u where "body c = Neg le t u" using shape_Neg [OF sh] by blast
    then show ?thesis using True by (simp add: RRARR_LEN_def slots_def)
  qed (rule length_slots(1) [OF sh])
  have eqC: "filter (conflicting i (view c)) [0..<?n] = conflicts i (view c)" using conflicts_view [OF sh] by simp
  have sum: "cr_sum now i c [0..<?n] 0 0 = Some (if \<exists>j \<in> set (conflicts i (view c)). is_local (rr c j) then None
    else Some (length (conflicts i (view c)), time_t (sum_list (map (\<lambda>j. rest_ttl now (rr c j)) (conflicts i (view c))))))"
    using cr_sum_eq [OF sh, of "[0..<?n]" now i 0 0] unfolding eqC by simp
  from cr_del_loop [OF co a, of i] obtain s1 where s1: "foldM (cr_del_step i a) [0..<?n] s = Some s1" "displacing i a c s ?n s1" by (rule okE)
  obtain c1 where c1: "touch a c1 s s1" "shrink c c1" "length (rrset_l s1) \<le> length (rrset_l s)"
    "rr c1 = (\<lambda>j. if conflicting i (view c) j then None else rr c j)" using displacing_displace [OF s1(2)] .
  have v1: "view c1 = displace (view c) i fl" using pos by (auto simp: view_def displace_def c1(4) fun_eq_iff)
  have none: "displace (view c) i fl = view c" if "conflicts i (view c) = []"
  proof -
    have "\<not> conflicting i (view c) j" for j
      using that rr_bound [of c j] slots_le [OF sh] by (auto simp: conflicts_def filter_empty_conv conflicting_view)
    then show ?thesis by (simp add: displace_def fun_eq_iff)
  qed
  have keep: "\<exists>c'. touch a c' s s \<and> shrink c c' \<and> view c' = view c" using touch_refl [OF co a] shrink_refl by blast
  have del: "\<exists>c'. touch a c' s s1 \<and> shrink c c' \<and> view c' = displace (view c) i fl" using c1 v1 by blast
  consider (local) "has fl CF_LOCAL" | (dloc) "\<not> has fl CF_LOCAL" "has (cflags c) DF_LOCAL"
    | (old) "\<not> has fl CF_LOCAL" "\<not> has (cflags c) DF_LOCAL" "\<exists>j \<in> set (conflicts i (view c)). is_local (rr c j)"
    | (free) "\<not> has fl CF_LOCAL" "\<not> has (cflags c) DF_LOCAL" "conflicts i (view c) = []"
    | (cmp) "\<not> has fl CF_LOCAL" "\<not> has (cflags c) DF_LOCAL" "\<not> (\<exists>j \<in> set (conflicts i (view c)). is_local (rr c j))"
        "conflicts i (view c) \<noteq> []" by blast
  then show ?thesis
  proof cases
    case local
    then show ?thesis using pos a L s1(1) c1(3) del by (simp add: cr_check_add_def acc_def accepts_def)
  next
    case dloc
    then show ?thesis using pos a L keep by (simp add: cr_check_add_def acc_def accepts_def)
  next
    case old
    then show ?thesis using pos a L sum keep by (simp add: cr_check_add_def acc_def accepts_def is_local_view)
  next
    case free
    then show ?thesis using pos a L sum keep none by (simp add: cr_check_add_def acc_def accepts_def)
  next
    case cmp
    then show ?thesis using pos a L sum keep del s1(1) c1(3)
      by (cases "acc") (simp_all add: cr_check_add_def acc_def accepts_def is_local_view rest_ttl_view)
  qed
qed

section \<open>Adding a record set to an entry\<close>

lemma has_clear_disjoint:
  assumes "g AND h = 0"
  shows "has (f AND NOT g) h = has f h"
proof -
  have "bit g n \<Longrightarrow> \<not> bit h n" for n using assms by (metis bit_and_iff bit_0_eq bot_apply bot_bool_def)
  then have "(f AND NOT g) AND h = f AND h" by (intro bit_word_eqI) (auto simp: bit_simps)
  then show ?thesis by (simp add: has_def)
qed

text \<open>What adding does not change.\<close>

definition meta :: "dns_cent \<Rightarrow> dns_cent \<Rightarrow> bool" where
  "meta c c' \<longleftrightarrow> qname c' = qname c \<and> c_ns c' = c_ns c \<and> c_soa c' = c_soa c \<and>
     has (cflags c') DF_LOCAL = has (cflags c) DF_LOCAL \<and> has (cflags c') DF_WILD = has (cflags c) DF_WILD"

lemma meta_refl: "meta c c"
  by (simp add: meta_def)

lemma meta_trans: "meta c c' \<Longrightarrow> meta c' c'' \<Longrightarrow> meta c c''"
  by (simp add: meta_def)

lemma flags_meta:
  assumes "qname c' = qname c" "c_ns c' = c_ns c" "c_soa c' = c_soa c"
    and "cflags c' = cflags c \<or> cflags c' = cflags c AND NOT DF_NEGATIVE"
  shows "meta c c'"
  using assms has_clear_disjoint [of DF_NEGATIVE DF_LOCAL "cflags c"] has_clear_disjoint [of DF_NEGATIVE DF_WILD "cflags c"]
  by (auto simp: meta_def DF_NEGATIVE_def DF_LOCAL_def DF_WILD_def)

lemma shrink_meta: "shrink c c' \<Longrightarrow> meta c c'"
proof -
  assume sh: "shrink c c'"
  have w: "has (f AND NOT DF_AUTH) DF_WILD = has f DF_WILD" for f
    by (rule has_clear_disjoint) (simp add: DF_AUTH_def DF_WILD_def)
  have "cflags c' AND NOT DF_AUTH = cflags c AND NOT DF_AUTH" using sh by (simp add: shrink_def)
  then have "has (cflags c') DF_WILD = has (cflags c) DF_WILD" using w [of "cflags c"] w [of "cflags c'"] by simp
  then show ?thesis using sh shrink_local [OF sh] by (simp add: meta_def shrink_def)
qed

lemma RRARR_set_fields:
  "RRARR_set c i r = Some c' \<Longrightarrow> cs c' = cs c \<and> num_rrs c' = num_rrs c \<and> cflags c' = cflags c"
  by (auto simp: RRARR_set_def bind_eq_Some_conv split: cent_body.splits if_splits option.splits)

lemma adjust_set_ok:
  assumes co: "core s" and a: "cents s a = Some c" and rs: "rr c i = Some rs"
  shows "ok (adjust_set g a i s) (\<lambda>s'. rrset_l s' = rrset_l s \<and> (\<exists>c'. touch a c' s s' \<and> meta c c' \<and>
    rr c' = (rr c)(i := Some (adjust_ttl g rs)) \<and> cs c' = cs c \<and> num_rrs c' = num_rrs c \<and> length (slots c') = length (slots c)))"
proof -
  note l = core_linked [OF co a]
  have sh: "shape_ok c" using l(2) by (simp add: cent_ok_def)
  have il: "i < length (slots c)" by (rule rr_bound) (simp add: rs)
  have R: "RRARR_INDEX c i = Some (Some rs)" using RRARR_INDEX_eq [OF sh il] rs by simp
  have e: "lent (adjust_ttl g rs) = lent rs" "rrset_size (adjust_ttl g rs) = rrset_size rs + 0"
    by (simp_all add: adjust_ttl_def rrset_size_def Let_def)
  obtain c1 where c1: "RRARR_set c i (Some (adjust_ttl g rs)) = Some c1" "cent_ok (c1\<lparr>cs := cs c1 + 0\<rparr>)"
    "linked (all_nodes ((cents s)(a := None))) a (c1\<lparr>cs := cs c1 + 0\<rparr>) (rrset_l s)"
    "rr (c1\<lparr>cs := cs c1 + 0\<rparr>) = (rr c)(i := Some (adjust_ttl g rs))" "qname c1 = qname c" "cflags c1 = cflags c" "c_ns c1 = c_ns c"
    "c_soa c1 = c_soa c" "length (slots c1) = length (slots c)" using set_rrset_ok [OF l(2,1) rs e] by metis
  have id: "c1\<lparr>cs := cs c1 + 0\<rparr> = c1" by simp
  have ok1: "cent_ok c1" and rr1: "rr c1 = (rr c)(i := Some (adjust_ttl g rs))" using c1(2,4) unfolding id .
  have t: "touch a c1 s (s\<lparr>cents := (cents s)(a \<mapsto> c1)\<rparr>)"
    using touchI_sub [OF co a ok1 c1(3) [unfolded id] c1(5)] by simp
  have "cs c1 = cs c" "num_rrs c1 = num_rrs c" using RRARR_set_fields [OF c1(1)] by auto
  moreover have "meta c c1" by (rule flags_meta) (use c1 in simp_all)
  ultimately show ?thesis using a R c1(1,9) t rr1 by (auto simp: adjust_set_def)
qed

text \<open>The position of the last record that was added.\<close>

definition tail_of :: "bytes list \<Rightarrow> nat option" where
  "tail_of bs = (if bs = [] then None else Some (length bs - 1))"

lemma link_tail: "link_rr bs (tail_of bs) d = Some (bs @ [d], length bs)"
  by (cases bs rule: rev_cases) (auto simp: link_rr_def tail_of_def)

lemma add_rrs_ok:
  assumes "core s" and "cents s a = Some c" and "rr c i = Some rs" and "lent rs = None"
  shows "ok (add_rrs a i new bs (tail_of (rrs rs)) s al) (\<lambda>(r, s', al'). (al = [] \<longrightarrow> r \<and> al' = []) \<and> rrset_l s' = rrset_l s \<and>
    (\<exists>c' rs'. touch a c' s s' \<and> meta c c' \<and> \<not> is_neg c' \<and> rr c' = (rr c)(i := Some rs') \<and> lent rs' = None \<and>
      (r \<longrightarrow> rs' = rs\<lparr>rrs := rrs rs @ bs\<rparr>)))"
  using assms
proof (induction bs arbitrary: s c rs al)
  case Nil
  have "i < length (slots c)" using rr_bound [of c i] Nil.prems(3) by simp
  moreover have "shape_ok c" using core_linked(2) [OF Nil.prems(1,2)] by (simp add: cent_ok_def)
  ultimately have "\<not> is_neg c" by (auto elim: shape_Neg simp: slots_def)
  then show ?case using Nil.prems touch_refl [OF Nil.prems(1,2)] meta_refl
    by (auto intro!: exI [of _ c] exI [of _ rs] simp: fun_upd_idem)
next
  case (Cons b bs)
  note l = core_linked [OF Cons.prems(1,2)]
  have il: "i < length (slots c)" using rr_bound [of c i] Cons.prems(3) by simp
  have sh: "shape_ok c" using l(2) by (simp add: cent_ok_def)
  have nn: "\<not> is_neg c" using sh il by (auto elim: shape_Neg simp: slots_def)
  have iN: "i < NRRTOT" using il slots_le [OF sh] by simp
  have old: "old_rrset c i t u f = rs" for t u f using Cons.prems(3) by (simp add: old_rrset_def)
  from add_cent_rr_int_ok [OF l(2,1) iN, of "ttl new" "ts new" "flags new" "tail_of (rrs rs)" b, unfolded old, OF link_tail, of al]
  obtain r rt c1 l1 al1 where 1: "add_cent_rr_int c i (ttl new) (ts new) (flags new) b (tail_of (rrs rs)) (rrset_l s) al = Some (r, rt, c1, l1, al1)"
    "cent_ok c1" "linked (all_nodes ((cents s)(a := None))) a c1 l1" "r \<longrightarrow> rr c1 = (rr c)(i := Some (rs\<lparr>rrs := rrs rs @ [b]\<rparr>)) \<and> rt = Some (length (rrs rs))"
    "\<not> r \<longrightarrow> rr c1 = rr c" "qname c1 = qname c" "c_ns c1 = c_ns c" "c_soa c1 = c_soa c" "r \<longrightarrow> \<not> is_neg c1" "cflags c1 = cflags c" "l1 = rrset_l s"
    "al = [] \<longrightarrow> r \<and> al1 = []" using Cons.prems(3) by (rule_tac ok5E) (assumption, auto)
  let ?s = "s\<lparr>cents := (cents s)(a \<mapsto> c1), rrset_l := l1\<rparr>"
  have t: "touch a c1 s ?s" by (rule touchI_sub [OF Cons.prems(1,2) 1(2,3,6)]) (simp add: 1(11))
  have m: "meta c c1" by (rule flags_meta) (use 1 in simp_all)
  show ?case
  proof (cases r)
    case False
    have "\<not> is_neg c1" using nn 1(10) by (simp add: is_neg_def)
    then show ?thesis using False 1 t m Cons.prems
      by (auto intro!: exI [of _ c1] exI [of _ rs] simp: fun_upd_idem)
  next
    case True
    let ?rs = "rs\<lparr>rrs := rrs rs @ [b]\<rparr>"
    have rt: "rt = tail_of (rrs ?rs)" using 1(4) True by (simp add: tail_of_def)
    have "rr c1 i = Some ?rs" "lent ?rs = None" using 1(4) True Cons.prems(4) by simp_all
    from Cons.IH [OF touch_entry(3,1) [OF t] this, of al1] have
      "ok (add_rrs a i new bs rt ?s al1) (\<lambda>(r, s', al'). (al1 = [] \<longrightarrow> r \<and> al' = []) \<and> rrset_l s' = rrset_l ?s \<and>
       (\<exists>c' rs'. touch a c' ?s s' \<and> meta c1 c' \<and> \<not> is_neg c' \<and> rr c' = (rr c1)(i := Some rs') \<and> lent rs' = None \<and>
          (r \<longrightarrow> rs' = ?rs\<lparr>rrs := rrs ?rs @ bs\<rparr>)))" unfolding rt .
    then obtain r2 s2 al2 c2 rs2 where 2: "add_rrs a i new bs rt ?s al1 = Some (r2, s2, al2)" "al1 = [] \<longrightarrow> r2 \<and> al2 = []"
      "rrset_l s2 = rrset_l ?s" "touch a c2 ?s s2" "meta c1 c2" "\<not> is_neg c2" "rr c2 = (rr c1)(i := Some rs2)" "lent rs2 = None"
      "r2 \<longrightarrow> rs2 = ?rs\<lparr>rrs := rrs ?rs @ bs\<rparr>" by (rule ok3E) blast
    have res: "add_rrs a i new (b # bs) (tail_of (rrs rs)) s al = Some (r2, s2, al2)"
      using Cons.prems(2) 1(1) True 2(1) by simp
    show ?thesis unfolding res ok_Some prod.case
      by (intro conjI exI [of _ c2] exI [of _ rs2] touch_trans [OF t 2(4)] meta_trans [OF m 2(5)] 2(6,8))
        (use True 1(4,11,12) 2(2,3,7,9) in \<open>simp_all\<close>)
  qed
qed

lemma precedes_view: "precedes now new (view c i) = (case rr c i of None \<Rightarrow> False | Some old \<Rightarrow> old_precedes now new old)"
  by (cases "rr c i") (simp_all add: precedes_def view_def old_precedes_def timedout_def)

lemma view_upd: "rr c' = (rr c)(i := r) \<Longrightarrow> view c' = (view c)(i := unlinked r)"
  by (auto simp: view_def fun_eq_iff)

lemma adjust_unlinked: "(adjust_ttl g (rs\<lparr>lent := le\<rparr>))\<lparr>lent := le'\<rparr> = (adjust_ttl g rs)\<lparr>lent := le'\<rparr>"
  by (simp add: adjust_ttl_def Let_def)

lemma adjust_lent: "lent (adjust_ttl g rs) = lent rs"
  by (simp add: adjust_ttl_def Let_def)

lemma rr_not_neg: "cent_ok c \<Longrightarrow> rr c i = Some rs \<Longrightarrow> \<not> is_neg c"
  using rr_neg [of c i] by (auto simp: cent_ok_def)

lemma tracked_upd:
  assumes "meta c c'" and "\<not> is_neg c'" and "tracked c" and "rr c' = (rr c)(i := r)" and "\<forall>rs. r = Some rs \<longrightarrow> set_tracked c' rs"
  shows "tracked c'"
proof -
  have "has (cflags c') DF_LOCAL = has (cflags c) DF_LOCAL" using assms(1) by (simp add: meta_def)
  then show ?thesis using assms(2-5) by (auto simp: tracked_def set_tracked_def)
qed

text \<open>The last step: filling the new record set and linking it, or removing it again.\<close>

definition fill_set :: "globparm \<Rightarrow> nat \<Rightarrow> nat \<Rightarrow> rr_set \<Rightarrow> cache \<Rightarrow> allocs \<Rightarrow> (bool \<times> cache \<times> allocs) option" where
  "fill_set g a i new s al = do {
     (r, s, al) \<leftarrow> add_rrs a i new (rrs new) None s al;
     (r, s, al) \<leftarrow> (if r then do { s \<leftarrow> adjust_set g a i s; insert_rrl a (Some i) s al } else Some (False, s, al));
     if r then Some (True, s, al)
     else do { (_, s) \<leftarrow> del_set a i s; Some (False, s, al) } }"

lemma fill_set_ok:
  assumes co: "core s" and a: "cents s a = Some c" and i: "i < NRRTOT" and rs: "rr c i = Some (new_rrset (ttl new) (ts new) (flags new))"
  shows "ok (fill_set g a i new s al) (\<lambda>(r, s', al'). (al = [] \<longrightarrow> r \<and> al' = []) \<and> length (rrset_l s') \<le> length (rrset_l s) + 1 \<and>
    (\<exists>c'. touch a c' s s' \<and> meta c c' \<and>
      view c' = (view c)(i := if r then Some ((adjust_ttl g new)\<lparr>lent := None\<rparr>) else None) \<and>
      \<not> is_neg c' \<and> (\<exists>r'. rr c' = (rr c)(i := r') \<and> (\<forall>rs. r' = Some rs \<longrightarrow> set_tracked c' rs))))"
proof -
  let ?rs = "new_rrset (ttl new) (ts new) (flags new)"
  have "tail_of (rrs ?rs) = None" "lent ?rs = None" by (simp_all add: tail_of_def new_rrset_def)
  with add_rrs_ok [OF co a rs, of new "rrs new" al] obtain r s1 al1 c1 rs1 where 1: "add_rrs a i new (rrs new) None s al = Some (r, s1, al1)"
    "al = [] \<longrightarrow> r \<and> al1 = []" "rrset_l s1 = rrset_l s" "touch a c1 s s1" "meta c c1" "rr c1 = (rr c)(i := Some rs1)" "lent rs1 = None"
    "r \<longrightarrow> rs1 = ?rs\<lparr>rrs := rrs ?rs @ rrs new\<rparr>" by simp (rule ok3E, assumption, blast)
  have r1: "rr c1 i = Some rs1" using 1(6) by simp
  have "ok (if r then do { s \<leftarrow> adjust_set g a i s1; insert_rrl a (Some i) s al1 } else Some (False, s1, al1))
    (\<lambda>(r2, s2, al2). (r \<longrightarrow> al1 = [] \<longrightarrow> r2 \<and> al2 = []) \<and> (r2 \<longrightarrow> r) \<and> length (rrset_l s2) \<le> length (rrset_l s) + 1 \<and>
      (\<exists>c2 rs2. touch a c2 s s2 \<and> meta c c2 \<and> rr c2 = (rr c)(i := Some rs2) \<and> (r2 \<longrightarrow> rs2\<lparr>lent := None\<rparr> = (adjust_ttl g new)\<lparr>lent := None\<rparr>) \<and>
        (r2 \<longrightarrow> set_tracked c2 rs2)))"
  proof (cases r)
    case False
    then show ?thesis using 1 by auto
  next
    case True
    from adjust_set_ok [OF touch_entry(3,1) [OF 1(4)] r1, of g] obtain s2 c2 where 2: "adjust_set g a i s1 = Some s2" "rrset_l s2 = rrset_l s1"
      "touch a c2 s1 s2" "meta c1 c2" "rr c2 = (rr c1)(i := Some (adjust_ttl g rs1))" by (rule okE) blast
    have r2: "rr c2 i = Some (adjust_ttl g rs1)" "lent (adjust_ttl g rs1) = None" using 2(5) 1(7) by (simp_all add: adjust_lent)
    from insert_rrl_ok [OF touch_entry(3,1) [OF 2(3)] r2, of al1] obtain r3 s3 al3 c3 le where 3: "insert_rrl a (Some i) s2 al1 = Some (r3, s3, al3)"
      "al1 = [] \<longrightarrow> r3 \<and> al3 = []" "length (rrset_l s3) \<le> length (rrset_l s2) + 1" "touch a c3 s2 s3"
      "rr c3 = (rr c2)(i := Some ((adjust_ttl g rs1)\<lparr>lent := le\<rparr>))" "cflags c3 = cflags c2" "qname c3 = qname c2" "c_ns c3 = c_ns c2" "c_soa c3 = c_soa c2"
      "r3 \<longrightarrow> set_tracked c3 ((adjust_ttl g rs1)\<lparr>lent := le\<rparr>)" by (rule ok3E) blast
    have m: "meta c c3" by (rule meta_trans [OF meta_trans [OF 1(5) 2(4)] flags_meta]) (use 3 in simp_all)
    have "rs1 = new\<lparr>lent := None\<rparr>" using 1(8) True by (simp add: new_rrset_def)
    then have e: "((adjust_ttl g rs1)\<lparr>lent := le\<rparr>)\<lparr>lent := None\<rparr> = (adjust_ttl g new)\<lparr>lent := None\<rparr>" using adjust_unlinked by simp
    have rr3: "rr c3 = (rr c)(i := Some ((adjust_ttl g rs1)\<lparr>lent := le\<rparr>))" using 3(5) 2(5) 1(6) by simp
    have t: "touch a c3 s s3" using touch_trans 1(4) 2(3) 3(4) by blast
    have res: "(if r then do { s \<leftarrow> adjust_set g a i s1; insert_rrl a (Some i) s al1 } else Some (False, s1, al1)) = Some (r3, s3, al3)"
      using True 2(1) 3(1) by simp
    show ?thesis unfolding res ok_Some prod.case
      by (intro conjI exI [of _ c3] exI [of _ "(adjust_ttl g rs1)\<lparr>lent := le\<rparr>"] t m rr3 impI e) (use True 3(2,3,10) 2(2) 1(3) in simp_all)
  qed
  then obtain r2 s2 al2 c2 rs2 where 2: "(if r then do { s \<leftarrow> adjust_set g a i s1; insert_rrl a (Some i) s al1 } else Some (False, s1, al1)) = Some (r2, s2, al2)"
    "r \<longrightarrow> al1 = [] \<longrightarrow> r2 \<and> al2 = []" "r2 \<longrightarrow> r" "length (rrset_l s2) \<le> length (rrset_l s) + 1" "touch a c2 s s2" "meta c c2" "rr c2 = (rr c)(i := Some rs2)"
    "r2 \<longrightarrow> rs2\<lparr>lent := None\<rparr> = (adjust_ttl g new)\<lparr>lent := None\<rparr>" "r2 \<longrightarrow> set_tracked c2 rs2" by (rule ok3E) blast
  have nn: "\<not> is_neg c2" by (rule rr_not_neg [OF touch_entry(2) [OF 2(5)], of i rs2]) (simp add: 2(7))
  show ?thesis
  proof (cases r2)
    case True
    then have res: "fill_set g a i new s al = Some (True, s2, al2)" using 1(1) 2(1) by (simp add: fill_set_def)
    show ?thesis unfolding res ok_Some prod.case
      by (intro conjI exI [of _ c2] exI [of _ "Some rs2"] 2(5-7) nn) (use True 1(2) 2(2,3,4,8,9) view_upd [OF 2(7)] in auto)
  next
    case False
    from del_set_touch [OF touch_entry(3,1) [OF 2(5)] i] obtain rv s3 c3 where 3: "del_set a i s2 = Some (rv, s3)"
      "length (rrset_l s3) \<le> length (rrset_l s2)" "touch a c3 s2 s3" "shrink c2 c3" "rr c3 = (rr c2)(i := None)" by (rule ok2E) blast
    have res: "fill_set g a i new s al = Some (False, s3, al2)" using 1(1) 2(1) 3(1) False by (simp add: fill_set_def)
    have rr3: "rr c3 = (rr c)(i := None)" using 3(5) 2(7) by simp
    have n3: "\<not> is_neg c3" using nn 3(4) by (simp add: shrink_def)
    show ?thesis unfolding res ok_Some prod.case
      by (intro conjI exI [of _ c3] exI [of _ None] rr3 n3 touch_trans [OF 2(5) 3(3)] meta_trans [OF 2(6) shrink_meta [OF 3(4)]])
        (use False 1(2) 2(2,4) 3(2) view_upd [OF rr3] in auto)
  qed
qed

lemma add_set_ok:
  assumes co: "core s" and a: "cents s a = Some c" and i: "i < NRRTOT" and dl: "dl = has (cflags c) DF_LOCAL"
  shows "ok (add_set g now a i new s al) (\<lambda>(r, s', al'). (al = [] \<longrightarrow> r \<and> al' = []) \<and> length (rrset_l s') \<le> length (rrset_l s) + 1 \<and>
    (\<not> r \<longrightarrow> \<not> precedes now new (view c i)) \<and>
    (\<exists>c'. touch a c' s s' \<and> meta c c' \<and> view c' = (if r then merge_set g now dl i new (view c) else (merge_set g now dl i new (view c))(i := None)) \<and>
      (tracked c \<longrightarrow> tracked c')))"
proof -
  have sh: "shape_ok c" using core_linked(2) [OF co a] by (simp add: cent_ok_def)
  have T: "RRARR_INDEX_TESTEXT c i = Some (rr c i)" using RRARR_INDEX_TESTEXT_eq [OF sh i] .
  let ?M = "merge_set g now dl i new (view c)" let ?V = "(view c)(i := None)" let ?fl = "flags new"
  show ?thesis
  proof (cases "precedes now new (view c i)")
    case True
    then have "add_set g now a i new s al = Some (True, s, al)" using a T by (simp add: add_set_def precedes_view)
    moreover have "?M = view c" using True by (simp add: merge_set_def)
    ultimately show ?thesis using True touch_refl [OF co a] meta_refl by auto
  next
    case np: False
    from del_set_touch [OF co a i] obtain rv s1 c1 where 1: "del_set a i s = Some (rv, s1)" "length (rrset_l s1) \<le> length (rrset_l s)"
      "touch a c1 s s1" "shrink c c1" "rr c1 = (rr c)(i := None)" by (rule ok2E) blast
    have v1: "view c1 = ?V" using view_upd [OF 1(5)] by simp
    have dl1: "has (cflags c1) DF_LOCAL = dl" using shrink_local [OF 1(4)] dl by simp
    let ?acc = "accepts now dl ?V i (ttl new) ?fl"
    from cr_check_add_ok [OF touch_entry(3,1) [OF 1(3)], of now i "ttl new" ?fl, unfolded v1 dl1] obtain s2 c2
      where 2: "cr_check_add now a i (ttl new) ?fl s1 = Some (?acc, s2)" "length (rrset_l s2) \<le> length (rrset_l s1)" "touch a c2 s1 s2"
        "shrink c1 c2" "view c2 = (if ?acc then displace ?V i ?fl else ?V)" by (rule ok2E) blast
    have t2: "touch a c2 s s2" and m2: "meta c c2"
      using touch_trans [OF 1(3) 2(3)] meta_trans [OF shrink_meta [OF 1(4)] shrink_meta [OF 2(4)]] .
    have k2: "tracked c2" if "tracked c" using tracked_shrink [OF 2(4) tracked_shrink [OF 1(4) that]] .
    have M: "?M = (if ?acc then (displace ?V i ?fl)(i := Some ((adjust_ttl g new)\<lparr>lent := None\<rparr>)) else ?V)"
      using np by (simp add: merge_set_def)
    have pre: "(case rr c i of None \<Rightarrow> False | Some old \<Rightarrow> old_precedes now new old) = False" using np precedes_view by simp
    show ?thesis
    proof (cases ?acc)
      case False
      then have "add_set g now a i new s al = Some (True, s2, al)" using a T pre 1(1) 2(1) by (simp add: add_set_def)
      then show ?thesis using np False 2(2,5) 1(2) t2 m2 M k2 by auto
    next
      case True
      have free: "rr c2 i = None" using 2(4) 1(5) by (metis fun_upd_same shrink_def)
      have Vi: "displace ?V i ?fl i = None" by (simp add: displace_def)
      note l = core_linked [OF touch_entry(3,1) [OF t2]]
      from add_cent_rrset_by_index_ok [OF l(2,1) i free, of "ttl new" "ts new" ?fl al] obtain r c3 l3 al3 where
        3: "add_cent_rrset_by_index c2 i (ttl new) (ts new) ?fl (rrset_l s2) al = Some (r, c3, l3, al3)" "cent_ok c3"
          "linked (all_nodes ((cents s2)(a := None))) a c3 l3" "rr c3 = (if r then (rr c2)(i := Some (new_rrset (ttl new) (ts new) ?fl)) else rr c2)"
          "qname c3 = qname c2" "cflags c3 = cflags c2 AND NOT DF_NEGATIVE" "c_ns c3 = c_ns c2" "c_soa c3 = c_soa c2"
          "l3 = filter (\<lambda>e. e \<notin> nodes a c2 \<or> e \<in> nodes a c3) (rrset_l s2)" "al = [] \<longrightarrow> r \<and> al3 = []" by (rule ok4E) blast
      let ?s3 = "s2\<lparr>cents := (cents s2)(a \<mapsto> c3), rrset_l := l3\<rparr>"
      have "touch a c3 s2 ?s3" by (rule touchI_sub [OF touch_entry(3,1) [OF t2] 3(2,3,5)]) (simp add: 3(9))
      then have t3: "touch a c3 s ?s3" by (rule touch_trans [OF t2])
      have m3: "meta c c3" by (rule meta_trans [OF m2 flags_meta]) (use 3 in simp_all)
      have n3: "\<not> is_neg c3" using has_clear [of "cflags c2" DF_NEGATIVE] 3(6) by (simp add: is_neg_def)
      have m23: "meta c2 c3" by (rule flags_meta) (use 3 in simp_all)
      have len3: "length l3 \<le> length (rrset_l s)" using 3(9) 1(2) 2(2) length_filter_le by (metis order_trans)
      show ?thesis
      proof (cases r)
        case False
        then have "add_set g now a i new s al = Some (False, ?s3, al3)"
          using a T pre 1(1) 2(1) True touch_entry(1) [OF t2] 3(1) by (simp add: add_set_def)
        moreover have "view c3 = ?M(i := None)" using 3(4) False 2(5) True M Vi by (auto simp: view_def fun_eq_iff)
        moreover have "tracked c3" if "tracked c" by (rule tracked_upd [OF m23 n3 k2 [OF that], of i "rr c2 i"]) (use 3(4) False free in auto)
        ultimately show ?thesis using np False t3 m3 len3 3(10) by auto
      next
        case r: True
        have r3: "rr c3 i = Some (new_rrset (ttl new) (ts new) ?fl)" using 3(4) r by simp
        from fill_set_ok [OF touch_entry(3,1) [OF t3] i r3, of g al3] obtain r4 s4 al4 c4 where
          4: "fill_set g a i new ?s3 al3 = Some (r4, s4, al4)" "al3 = [] \<longrightarrow> r4 \<and> al4 = []" "length (rrset_l s4) \<le> length (rrset_l ?s3) + 1"
            "touch a c4 ?s3 s4" "meta c3 c4" "view c4 = (view c3)(i := if r4 then Some ((adjust_ttl g new)\<lparr>lent := None\<rparr>) else None)"
            "\<not> is_neg c4" "\<exists>r'. rr c4 = (rr c3)(i := r') \<and> (\<forall>rs. r' = Some rs \<longrightarrow> set_tracked c4 rs)" by (rule ok3E) blast
        obtain r' where r': "rr c4 = (rr c2)(i := r')" "\<forall>rs. r' = Some rs \<longrightarrow> set_tracked c4 rs" using 4(8) 3(4) r by auto
        have k4: "tracked c4" if "tracked c" by (rule tracked_upd [OF meta_trans [OF m23 4(5)] 4(7) k2 [OF that] r'])
        have "add_set g now a i new s al = Some (r4, s4, al4)"
          using a T pre 1(1) 2(1) True touch_entry(1) [OF t2] 3(1) r 4(1) by (simp add: add_set_def fill_set_def)
        moreover have "view c3 = (displace ?V i ?fl)(i := unlinked (Some (new_rrset (ttl new) (ts new) ?fl)))"
          using view_upd [of c3 c2 i "Some (new_rrset (ttl new) (ts new) ?fl)"] 3(4) r 2(5) True by simp
        then have "view c4 = (if r4 then ?M else ?M(i := None))" using 4(6) M True by simp
        ultimately show ?thesis using np touch_trans [OF t3 4(4)] meta_trans [OF m3 4(5)] len3 3(10) 4(2,3) k4 by auto
      qed
    qed
  qed
qed

section \<open>Adding to an existing entry\<close>

fun merge_sets :: "globparm \<Rightarrow> int \<Rightarrow> bool \<Rightarrow> rrview \<Rightarrow> nat list \<Rightarrow> rrview \<Rightarrow> rrview" where
  "merge_sets g now dl N [] V = V"
| "merge_sets g now dl N (i # is) V =
     merge_sets g now dl N is (case N i of None \<Rightarrow> V | Some new \<Rightarrow> merge_set g now dl i new V)"

text \<open>When an allocation fails the record sets before have been merged, and the one in hand is missing.\<close>

definition cut_off :: "globparm \<Rightarrow> int \<Rightarrow> bool \<Rightarrow> rrview \<Rightarrow> nat list \<Rightarrow> rrview \<Rightarrow> rrview \<Rightarrow> bool" where
  "cut_off g now dl N is V V' \<longleftrightarrow> (\<exists>is1 i is2 new. is = is1 @ i # is2 \<and> N i = Some new \<and>
     \<not> precedes now new (merge_sets g now dl N is1 V i) \<and>
     V' = (merge_set g now dl i new (merge_sets g now dl N is1 V))(i := None))"

lemma cut_off_Cons:
  "cut_off g now dl N is (case N i of None \<Rightarrow> V | Some new \<Rightarrow> merge_set g now dl i new V) V' \<Longrightarrow> cut_off g now dl N (i # is) V V'"
  unfolding cut_off_def
proof (elim exE conjE)
  fix is1 j is2 new assume "is = is1 @ j # is2" "N j = Some new"
    "\<not> precedes now new (merge_sets g now dl N is1 (case N i of None \<Rightarrow> V | Some new \<Rightarrow> merge_set g now dl i new V) j)"
    "V' = (merge_set g now dl j new (merge_sets g now dl N is1 (case N i of None \<Rightarrow> V | Some new \<Rightarrow> merge_set g now dl i new V)))(j := None)"
  then show "\<exists>is1 j is2 new. i # is = is1 @ j # is2 \<and> N j = Some new \<and> \<not> precedes now new (merge_sets g now dl N is1 V j) \<and>
     V' = (merge_set g now dl j new (merge_sets g now dl N is1 V))(j := None)"
    by (intro exI [of _ "i # is1"] exI [of _ j] exI [of _ is2] exI [of _ new]) simp
qed

lemma cut_off_hd: "N i = Some new \<Longrightarrow> \<not> precedes now new (V i) \<Longrightarrow> cut_off g now dl N (i # is) V ((merge_set g now dl i new V)(i := None))"
  unfolding cut_off_def by (intro exI [of _ "[]"] exI [of _ i] exI [of _ "is"] exI [of _ new]) simp

lemma meta_local: "meta c c' \<Longrightarrow> has (cflags c') DF_LOCAL = has (cflags c) DF_LOCAL"
  by (simp add: meta_def)

lemma add_sets_ok:
  assumes sh: "shape_ok cent"
  shows "core s \<Longrightarrow> cents s a = Some c \<Longrightarrow> dl = has (cflags c) DF_LOCAL \<Longrightarrow> \<forall>i \<in> set is. i < length (slots cent) \<Longrightarrow>
    ok (add_sets g now a cent is s al) (\<lambda>(r, s', al'). (al = [] \<longrightarrow> r \<and> al' = []) \<and> length (rrset_l s') \<le> length (rrset_l s) + length is \<and>
      (\<exists>c'. touch a c' s s' \<and> meta c c' \<and> (tracked c \<longrightarrow> tracked c') \<and>
        (if r then view c' = merge_sets g now dl (rr cent) is (view c) else cut_off g now dl (rr cent) is (view c) (view c'))))"
proof (induction "is" arbitrary: s c al)
  case Nil
  then show ?case using touch_refl [OF Nil.prems(1,2)] meta_refl [of c] by auto
next
  case (Cons i "is")
  have R: "RRARR_INDEX cent i = Some (rr cent i)" using RRARR_INDEX_eq [OF sh] Cons.prems(4) by simp
  have iN: "i < NRRTOT" using slots_le [OF sh] Cons.prems(4) by auto
  show ?case
  proof (cases "rr cent i")
    case None
    then have eq: "add_sets g now a cent (i # is) s al = add_sets g now a cent is s al" using R by simp
    have "\<forall>j \<in> set is. j < length (slots cent)" using Cons.prems(4) by simp
    from Cons.IH [OF Cons.prems(1-3) this, of al] obtain r s' al' c' where o: "add_sets g now a cent is s al = Some (r, s', al')"
      "al = [] \<longrightarrow> r \<and> al' = []" "length (rrset_l s') \<le> length (rrset_l s) + length is" "touch a c' s s'" "meta c c'"
      "if r then view c' = merge_sets g now dl (rr cent) is (view c) else cut_off g now dl (rr cent) is (view c) (view c')" "tracked c \<longrightarrow> tracked c'" by (rule ok3E) blast
    have "if r then view c' = merge_sets g now dl (rr cent) (i # is) (view c) else cut_off g now dl (rr cent) (i # is) (view c) (view c')"
      using o(6) None cut_off_Cons [of g now dl "rr cent" "is" "view c" i "view c'"] by (cases r) simp_all
    then show ?thesis unfolding eq o(1) ok_Some prod.case using o(2-5,7) by auto
  next
    case (Some new)
    from add_set_ok [OF Cons.prems(1,2) iN Cons.prems(3), of g now new al] obtain r s1 al1 c1 where
      1: "add_set g now a i new s al = Some (r, s1, al1)" "al = [] \<longrightarrow> r \<and> al1 = []" "length (rrset_l s1) \<le> length (rrset_l s) + 1"
        "\<not> r \<longrightarrow> \<not> precedes now new (view c i)" "touch a c1 s s1" "meta c c1"
        "view c1 = (if r then merge_set g now dl i new (view c) else (merge_set g now dl i new (view c))(i := None))"
        "tracked c \<longrightarrow> tracked c1" by (rule ok3E) blast
    show ?thesis
    proof (cases r)
      case False
      then have "add_sets g now a cent (i # is) s al = Some (False, s1, al1)" using R Some 1(1) by simp
      moreover have "cut_off g now dl (rr cent) (i # is) (view c) (view c1)"
        using cut_off_hd [of "rr cent" i new now "view c" g dl "is"] Some 1(4,7) False by simp
      ultimately show ?thesis using 1 False by auto
    next
      case True
      then have eq: "add_sets g now a cent (i # is) s al = add_sets g now a cent is s1 al1" using R Some 1(1) by simp
      have "dl = has (cflags c1) DF_LOCAL" "\<forall>j \<in> set is. j < length (slots cent)" using Cons.prems(3,4) meta_local [OF 1(6)] by auto
      from Cons.IH [OF touch_entry(3,1) [OF 1(5)] this, of al1] obtain r' s' al' c' where o: "add_sets g now a cent is s1 al1 = Some (r', s', al')"
        "al1 = [] \<longrightarrow> r' \<and> al' = []" "length (rrset_l s') \<le> length (rrset_l s1) + length is" "touch a c' s1 s'" "meta c1 c'"
        "if r' then view c' = merge_sets g now dl (rr cent) is (view c1) else cut_off g now dl (rr cent) is (view c1) (view c')"
        "tracked c1 \<longrightarrow> tracked c'" by (rule ok3E) blast
      have "if r' then view c' = merge_sets g now dl (rr cent) (i # is) (view c) else cut_off g now dl (rr cent) (i # is) (view c) (view c')"
        using o(6) Some 1(7) True cut_off_Cons [of g now dl "rr cent" "is" "view c" i "view c'"] by (cases r') simp_all
      then show ?thesis unfolding eq o(1) ok_Some prod.case
        using o(2,3,7) touch_trans [OF 1(5) o(4)] meta_trans [OF 1(6) o(5)] 1(2,3,8) True by auto
    qed
  qed
qed

text \<open>What is left of the record sets of an entry when the expired ones are purged.\<close>

definition unexpired :: "int \<Rightarrow> dns_cent \<Rightarrow> rrview" where
  "unexpired now c i = (if kept now c i then view c i else None)"

lemma purged_view: "purged now c c' \<Longrightarrow> view c' = unexpired now c"
  by (auto simp: purged_def view_def unexpired_def fun_eq_iff)

text \<open>The outcome of an operation that changes the entry at \<open>a\<close>, for the whole cache.\<close>

lemma touch_inv:
  assumes inv: "inv_but x s" and a: "cents s a = Some c" and t: "touch a c' (s\<lparr>cache_size := cache_size s - int (cs c)\<rparr>) s'"
  shows "inv_but x (s'\<lparr>cache_size := cache_size s' + int (cs c')\<rparr>)" "same_table s (s'\<lparr>cache_size := cache_size s' + int (cs c')\<rparr>)"
proof -
  have st: "same_table s s'" using t a by (auto simp: touch_def same_table_def)
  then show "same_table s (s'\<lparr>cache_size := cache_size s' + int (cs c')\<rparr>)" by simp
  have fin: "finite (dom (cents s))" using inv_but_core [OF inv] by (simp add: core_def)
  have "core (s'\<lparr>cache_size := cache_size s' + int (cs c')\<rparr>)" using t core_cong [of s'] by (simp add: touch_def)
  then show "inv_but x (s'\<lparr>cache_size := cache_size s' + int (cs c')\<rparr>)"
    by (rule inv_same [OF inv _ \<open>same_table s (s'\<lparr>cache_size := cache_size s' + int (cs c')\<rparr>)\<close>])
      (use t total_upd [OF fin, of a c'] total_split [OF fin a] in \<open>simp add: touch_def\<close>)
qed

lemma RRARR_LEN_slots:
  assumes "shape_ok c"
  shows "RRARR_LEN c = Some (length (slots c))"
proof (cases "is_neg c")
  case True
  then obtain le t u where "body c = Neg le t u" using shape_Neg [OF assms] by blast
  then show ?thesis using True by (simp add: RRARR_LEN_def slots_def)
qed (rule length_slots(1) [OF assms])

lemma or_fields:
  assumes "DF_NEGATIVE AND m = 0"
  shows "has (f OR m) DF_NEGATIVE = has f DF_NEGATIVE"
proof -
  have "(f OR m) AND DF_NEGATIVE = (f AND DF_NEGATIVE) OR (m AND DF_NEGATIVE)" by (rule and.left_commute | simp add: bit.conj_disj_distrib2)
  then show ?thesis using assms by (simp add: has_def and.commute)
qed

lemma has_or_disjoint: "m AND g = 0 \<Longrightarrow> has (f OR m) g = has f g"
  by (simp add: has_def bit.conj_disj_distrib2)

lemma add_existing_ok:
  assumes inv: "inv_but x s" and a: "cents s a = Some c" and k: "wf_name k" "qname c = wire k" and cent: "cent_ok cent" "\<not> is_neg cent"
    and dl: "dl = has (cflags c) DF_LOCAL"
  shows "ok (add_existing g now cent a s al) (\<lambda>(r, s', al'). inv_but x s' \<and> (al = [] \<longrightarrow> r \<and> al' = []) \<and>
    length (rrset_l s') \<le> length (rrset_l s) + NRRTOT \<and> same_table s s' \<and>
    (\<exists>c'. cents s' = (cents s)(a \<mapsto> c') \<and> has (cflags c') DF_LOCAL = dl \<and> (tracked c \<longrightarrow> tracked c') \<and>
      (if r then view c' = merge_sets g now dl (rr cent) [0..<length (slots cent)] (unexpired now c)
       else cut_off g now dl (rr cent) [0..<length (slots cent)] (unexpired now c) (view c'))))"
proof -
  have shc: "shape_ok cent" using cent(1) by (simp add: cent_ok_def)
  from purge_cent_ok [OF inv a k, of now False] obtain n s1 c1 where 1: "purge_cent now a False False s = Some (n, s1)" "inv_but x s1"
    "changed a c c1 s s1" "purged_cent now s k c c1" by (rule ok2E) (simp, blast)
  have c1: "cents s1 a = Some c1" "cents s1 = (cents s)(a \<mapsto> c1)" "same_table s s1" "length (rrset_l s1) \<le> length (rrset_l s)"
    using 1(3) by (simp_all add: changed_def)
  have "shrink (fresh_refs now s k c) c1" using 1(4) by (simp add: purged_cent_def)
  then have dl1: "dl = has (cflags c1) DF_LOCAL" using shrink_local fresh_refs_fields(6) dl by metis
  have k1: "tracked c1" if "tracked c"
    using tracked_shrink [OF \<open>shrink (fresh_refs now s k c) c1\<close>] tracked_body [of "fresh_refs now s k c" c] that by (simp add: fresh_refs_fields)
  have v1: "view c1 = unexpired now c" using 1(4) purged_view by (simp add: purged_cent_def)
  let ?s1 = "s1\<lparr>cache_size := cache_size s1 - int (cs c1)\<rparr>"
  have co1: "core ?s1" using core_cong [OF inv_but_core [OF 1(2)]] by simp
  have a1: "cents ?s1 a = Some c1" using c1(1) by simp
  have ub: "\<forall>i \<in> set [0..<length (slots cent)]. i < length (slots cent)" by simp
  from add_sets_ok [OF shc co1 a1 dl1 ub, of g now al] obtain r s2 al2 c2 where 2: "add_sets g now a cent [0..<length (slots cent)] ?s1 al = Some (r, s2, al2)"
    "al = [] \<longrightarrow> r \<and> al2 = []" "length (rrset_l s2) \<le> length (rrset_l ?s1) + length [0..<length (slots cent)]" "touch a c2 ?s1 s2" "meta c1 c2"
    "if r then view c2 = merge_sets g now dl (rr cent) [0..<length (slots cent)] (unexpired now c)
       else cut_off g now dl (rr cent) [0..<length (slots cent)] (unexpired now c) (view c2)" "tracked c1 \<longrightarrow> tracked c2"
    unfolding v1 by (rule ok3E) blast
  let ?s2 = "s2\<lparr>cache_size := cache_size s2 + int (cs c2)\<rparr>"
  note i2 = touch_inv [OF 1(2) c1(1) 2(4)]
  have a2: "cents ?s2 a = Some c2" "cents s2 a = Some c2" "cents ?s2 = (cents s)(a \<mapsto> c2)" using 2(4) c1(2) by (simp_all add: touch_def)
  have len2: "length (rrset_l ?s2) \<le> length (rrset_l s) + NRRTOT" using 2(3) c1(4) slots_le [OF shc] by simp
  let ?c3 = "c2\<lparr>cflags := cflags c2 OR (cflags cent AND (DF_AUTH OR DF_WILD)),
    c_ns := better_ref (c_ns cent) (c_ns c2), c_soa := better_ref (c_soa cent) (c_soa c2)\<rparr>"
  have "DF_NEGATIVE AND (cflags cent AND (DF_AUTH OR DF_WILD)) = 0"
    by (rule bit_word_eqI) (auto simp: bit_simps DF_NEGATIVE_def DF_AUTH_def DF_WILD_def bit_1_iff)
  then have n3: "is_neg ?c3 = is_neg c2" using or_fields by (simp add: is_neg_def)
  have i3: "inv_but x (?s2\<lparr>cents := (cents ?s2)(a \<mapsto> ?c3)\<rparr>)" "same_table ?s2 (?s2\<lparr>cents := (cents ?s2)(a \<mapsto> ?c3)\<rparr>)"
    using upd_fields_ok(1,2) [OF i2(1) a2(1), of ?c3, OF _ _ _ _ n3 refl] by simp_all
  have dl2: "has (cflags c2) DF_LOCAL = dl" using meta_local [OF 2(5)] dl1 by simp
  have "(cflags cent AND (DF_AUTH OR DF_WILD)) AND DF_LOCAL = 0"
    by (rule bit_word_eqI) (auto simp: bit_simps DF_LOCAL_def DF_AUTH_def DF_WILD_def bit_numeral_rec split: nat.splits)
  then have dl3: "has (cflags ?c3) DF_LOCAL = dl" using has_or_disjoint dl2 by simp
  have k2: "tracked c \<longrightarrow> tracked c2" using k1 2(7) by blast
  have k3: "tracked ?c3 = tracked c2" by (rule tracked_body) (use n3 dl2 dl3 in simp_all)
  have v3: "view ?c3 = view c2" using rr_body [of ?c3 c2] by (simp add: view_def fun_eq_iff)
  show ?thesis
  proof (cases r)
    case False
    then have res: "add_existing g now cent a s al = Some (False, ?s2, al2)"
      using 1(1) c1(1) RRARR_LEN_slots [OF shc] 2(1) a2(2) by (simp add: add_existing_def)
    have st: "same_table s ?s2" by (rule same_table_trans [OF c1(3) i2(2)])
    have "\<exists>c'. cents ?s2 = (cents s)(a \<mapsto> c') \<and> has (cflags c') DF_LOCAL = dl \<and> (tracked c \<longrightarrow> tracked c') \<and>
      cut_off g now dl (rr cent) [0..<length (slots cent)] (unexpired now c) (view c')"
      by (intro exI [of _ c2] conjI a2(3) dl2 k2) (use 2(6) False in simp)
    then show ?thesis unfolding res ok_Some prod.case using False i2(1) 2(2) len2 st by simp
  next
    case True
    let ?s3 = "?s2\<lparr>cents := (cents ?s2)(a \<mapsto> ?c3)\<rparr>"
    have "add_existing g now cent a s al = Some (True, ?s3, al2)"
      using 1(1) c1(1) RRARR_LEN_slots [OF shc] 2(1) a2(2) True by (simp add: add_existing_def)
    then have res: "add_existing g now cent a s al = Some (True, ?s3, al2)" .
    have st: "same_table s ?s3" by (rule same_table_trans [OF same_table_trans [OF c1(3) i2(2)] i3(2)])
    have "cents ?s3 = (cents s)(a \<mapsto> ?c3)" using a2(3) by simp
    moreover have "view ?c3 = merge_sets g now dl (rr cent) [0..<length (slots cent)] (unexpired now c)" using 2(6) True v3 by simp
    moreover have "tracked c \<longrightarrow> tracked ?c3" using k2 k3 by simp
    ultimately have "\<exists>c'. cents ?s3 = (cents s)(a \<mapsto> c') \<and> has (cflags c') DF_LOCAL = dl \<and> (tracked c \<longrightarrow> tracked c') \<and>
      view c' = merge_sets g now dl (rr cent) [0..<length (slots cent)] (unexpired now c)" using dl3 by blast
    moreover have "length (rrset_l ?s3) \<le> length (rrset_l s) + NRRTOT" using len2 by simp
    ultimately show ?thesis unfolding res ok_Some prod.case using i3(1) 2(2) st by (simp only: if_True simp_thms) simp
  qed
qed

end
