(* ===== verification/CacheOps.thy ===== *)
theory CacheOps
  imports CacheAdd
begin

text \<open>
  The operations on the whole cache that other parts of the program call (\<^verbatim>\<open>add_cache\<close>, \<^verbatim>\<open>lookup_cache\<close>, \<^verbatim>\<open>del_cache\<close>,
  \<^verbatim>\<open>invalidate_record\<close> and others of \<^verbatim>\<open>src/cache.c\<close>): none of them faults, each keeps the invariant, and what they do is stated on the
  abstract content of the cache.
\<close>

section \<open>Adding a new entry\<close>

lemma core_add:
  assumes co: "core s" and a: "a = fresh s" and c: "cent_ok c" "nodes a c = {}"
  shows "core (s\<lparr>cents := (cents s)(a \<mapsto> c), fresh := a + 1\<rparr>)" "cents s a = None"
proof -
  show n: "cents s a = None" using co a by (metis core_def less_irrefl option.exhaust)
  have "all_nodes ((cents s)(a \<mapsto> c)) = all_nodes (cents s)"
    using all_nodes_upd [of "cents s" a c] c(2) n by (simp add: fun_upd_idem)
  then show "core (s\<lparr>cents := (cents s)(a \<mapsto> c), fresh := a + 1\<rparr>)"
    using co a c(1) by (auto simp: core_def less_Suc_eq)
qed

lemma core_drop:
  assumes co: "core s" and a: "cents s a = Some c"
  shows "free_cent c (rrset_l s) = Some (filter (\<lambda>e. e \<notin> nodes a c) (rrset_l s))"
    "core (s\<lparr>rrset_l := filter (\<lambda>e. e \<notin> nodes a c) (rrset_l s), cents := (cents s)(a := None)\<rparr>)"
proof -
  have sh: "shape_ok c" using core_linked(2) [OF co a] by (simp add: cent_ok_def)
  show "free_cent c (rrset_l s) = Some (filter (\<lambda>e. e \<notin> nodes a c) (rrset_l s))"
    by (rule free_cent_ok [OF sh core_linked(1) [OF co a]])
  from del_cent_ok [OF co a] have "ok (del_cent a s) (\<lambda>s'. core s' \<and> cents s' = (cents s)(a := None) \<and> fresh s' = fresh s \<and>
    rrset_l s' = filter (\<lambda>e. e \<notin> nodes a c) (rrset_l s))" by (rule ok_mono) simp
  then obtain s' where s': "core s'" "cents s' = (cents s)(a := None)" "fresh s' = fresh s"
    "rrset_l s' = filter (\<lambda>e. e \<notin> nodes a c) (rrset_l s)" by (auto elim!: okE)
  show "core (s\<lparr>rrset_l := filter (\<lambda>e. e \<notin> nodes a c) (rrset_l s), cents := (cents s)(a := None)\<rparr>)"
    by (rule core_cong [OF s'(1)]) (use s' in simp_all)
qed

definition fresh_set :: "globparm \<Rightarrow> rr_set option \<Rightarrow> rr_set option" where
  "fresh_set g r = map_option (\<lambda>rs. (adjust_ttl g rs)\<lparr>lent := None\<rparr>) r"

lemma unlinked_unlinked: "unlinked (unlinked r) = unlinked r"
  by (cases r) simp_all

lemma add_new_sets_ok:
  "core s \<Longrightarrow> cents s a = Some c \<Longrightarrow> distinct is \<Longrightarrow> \<forall>i \<in> set is. i < length (slots c) \<and> (\<forall>rs. rr c i = Some rs \<longrightarrow> lent rs = None) \<Longrightarrow>
   ok (add_new_sets g a is s al) (\<lambda>(r, s', al'). (al = [] \<longrightarrow> r \<and> al' = []) \<and> length (rrset_l s') \<le> length (rrset_l s) + length is \<and>
     (\<exists>c'. touch a c' s s' \<and> meta c c' \<and> is_neg c' = is_neg c \<and> cs c' = cs c \<and> num_rrs c' = num_rrs c \<and>
       (r \<longrightarrow> view c' = (\<lambda>i. if i \<in> set is then fresh_set g (rr c i) else view c i)) \<and>
       (\<forall>j. j \<notin> set is \<longrightarrow> rr c' j = rr c j) \<and> (r \<longrightarrow> (\<forall>j \<in> set is. \<forall>rs. rr c' j = Some rs \<longrightarrow> set_tracked c' rs))))"
proof (induction "is" arbitrary: s c al)
  case Nil
  then show ?case using touch_refl [OF Nil.prems(1,2)] meta_refl [of c] by auto
next
  case (Cons i "is")
  have sh: "shape_ok c" using core_linked(2) [OF Cons.prems(1,2)] by (simp add: cent_ok_def)
  have R: "RRARR_INDEX c i = Some (rr c i)" using RRARR_INDEX_eq [OF sh] Cons.prems(4) by simp
  show ?case
  proof (cases "rr c i")
    case None
    then have eq: "add_new_sets g a (i # is) s al = add_new_sets g a is s al" using R Cons.prems(2) by simp
    have v: "view c i = fresh_set g (rr c i)" using None by (simp add: view_def fresh_set_def)
    from Cons.IH [OF Cons.prems(1,2), of al] Cons.prems(3,4) obtain r s' al' c' where o: "add_new_sets g a is s al = Some (r, s', al')"
      "al = [] \<longrightarrow> r \<and> al' = []" "length (rrset_l s') \<le> length (rrset_l s) + length is" "touch a c' s s'" "meta c c'" "is_neg c' = is_neg c"
      "cs c' = cs c" "num_rrs c' = num_rrs c" "r \<longrightarrow> view c' = (\<lambda>i. if i \<in> set is then fresh_set g (rr c i) else view c i)"
      "\<forall>j. j \<notin> set is \<longrightarrow> rr c' j = rr c j" "r \<longrightarrow> (\<forall>j \<in> set is. \<forall>rs. rr c' j = Some rs \<longrightarrow> set_tracked c' rs)" by simp (rule ok3E, assumption, blast)
    have "rr c' i = None" using o(10) Cons.prems(3) None by simp
    then have k: "\<forall>j. j \<notin> set (i # is) \<longrightarrow> rr c' j = rr c j" "r \<longrightarrow> (\<forall>j \<in> set (i # is). \<forall>rs. rr c' j = Some rs \<longrightarrow> set_tracked c' rs)"
      using o(10,11) by auto
    have "r \<longrightarrow> view c' = (\<lambda>j. if j \<in> set (i # is) then fresh_set g (rr c j) else view c j)" using o(9) v by (auto simp: fun_eq_iff)
    then show ?thesis unfolding eq o(1) ok_Some prod.case
      by (intro conjI exI [of _ c'] o(2,4-8) k) (use o(3) in auto)
  next
    case (Some rs)
    have lent: "lent rs = None" using Cons.prems(4) Some by simp
    from adjust_set_ok [OF Cons.prems(1,2) Some, of g] obtain s1 c1 where 1: "adjust_set g a i s = Some s1" "rrset_l s1 = rrset_l s"
      "touch a c1 s s1" "meta c c1" "rr c1 = (rr c)(i := Some (adjust_ttl g rs))" "cs c1 = cs c" "num_rrs c1 = num_rrs c"
      "length (slots c1) = length (slots c)" by (rule okE) blast
    have r1: "rr c1 i = Some (adjust_ttl g rs)" "lent (adjust_ttl g rs) = None" using 1(5) lent by (simp_all add: adjust_lent)
    from insert_rrl_ok [OF touch_entry(3,1) [OF 1(3)] r1, of al] obtain r2 s2 al2 c2 le where 2: "insert_rrl a (Some i) s1 al = Some (r2, s2, al2)"
      "al = [] \<longrightarrow> r2 \<and> al2 = []" "length (rrset_l s2) \<le> length (rrset_l s1) + 1" "touch a c2 s1 s2"
      "rr c2 = (rr c1)(i := Some ((adjust_ttl g rs)\<lparr>lent := le\<rparr>))" "cflags c2 = cflags c1" "qname c2 = qname c1" "cs c2 = cs c1" "num_rrs c2 = num_rrs c1"
      "c_ns c2 = c_ns c1" "c_soa c2 = c_soa c1" "\<not> is_neg c2" "length (slots c2) = length (slots c1)"
      "r2 \<longrightarrow> set_tracked c2 ((adjust_ttl g rs)\<lparr>lent := le\<rparr>)" by (rule ok3E) blast
    have t2: "touch a c2 s s2" by (rule touch_trans [OF 1(3) 2(4)])
    have m2: "meta c c2" by (rule meta_trans [OF 1(4) flags_meta]) (use 2 in simp_all)
    have "i < length (slots c)" using Cons.prems(4) by simp
    then have nn: "\<not> is_neg c" using sh by (auto elim: shape_Neg simp: slots_def)
    have rr2: "rr c2 = (rr c)(i := Some ((adjust_ttl g rs)\<lparr>lent := le\<rparr>))" using 2(5) 1(5) by simp
    show ?thesis
    proof (cases r2)
      case False
      then have res: "add_new_sets g a (i # is) s al = Some (False, s2, al2)" using R Some Cons.prems(2) 1(1) 2(1) by simp
      show ?thesis unfolding res ok_Some prod.case
        by (intro conjI exI [of _ c2] t2 m2) (use False 1 2 nn rr2 in auto)
    next
      case True
      then have eq: "add_new_sets g a (i # is) s al = add_new_sets g a is s2 al2" using R Some Cons.prems(2) 1(1) 2(1) by simp
      have sh2: "shape_ok c2" using touch_entry(2) [OF t2] by (simp add: cent_ok_def)
      have other: "rr c2 j = rr c j" if "j \<in> set is" for j using rr2 Cons.prems(3) that by auto
      have pre: "\<forall>j \<in> set is. j < length (slots c2) \<and> (\<forall>rs. rr c2 j = Some rs \<longrightarrow> lent rs = None)"
        using Cons.prems(4) other 1(8) 2(13) by auto
      from Cons.IH [OF touch_entry(3,1) [OF t2] _ pre, of al2] Cons.prems(3) obtain r s' al' c' where o: "add_new_sets g a is s2 al2 = Some (r, s', al')"
        "al2 = [] \<longrightarrow> r \<and> al' = []" "length (rrset_l s') \<le> length (rrset_l s2) + length is" "touch a c' s2 s'" "meta c2 c'" "is_neg c' = is_neg c2"
        "cs c' = cs c2" "num_rrs c' = num_rrs c2" "r \<longrightarrow> view c' = (\<lambda>i. if i \<in> set is then fresh_set g (rr c2 i) else view c2 i)"
        "\<forall>j. j \<notin> set is \<longrightarrow> rr c' j = rr c2 j" "r \<longrightarrow> (\<forall>j \<in> set is. \<forall>rs. rr c' j = Some rs \<longrightarrow> set_tracked c' rs)"
        by simp (rule ok3E, assumption, blast)
      have "view c2 = (view c)(i := fresh_set g (rr c i))" using view_upd [OF rr2] Some by (simp add: fresh_set_def)
      then have v: "r \<longrightarrow> view c' = (\<lambda>j. if j \<in> set (i # is) then fresh_set g (rr c j) else view c j)"
        using o(9) other Cons.prems(3) by (auto simp: fun_eq_iff)
      have "rr c' i = Some ((adjust_ttl g rs)\<lparr>lent := le\<rparr>)" using o(10) Cons.prems(3) rr2 by simp
      moreover have "set_tracked c' ((adjust_ttl g rs)\<lparr>lent := le\<rparr>)" using 2(14) True o(5) by (simp add: set_tracked_def meta_def)
      ultimately have k: "\<forall>j. j \<notin> set (i # is) \<longrightarrow> rr c' j = rr c j" "r \<longrightarrow> (\<forall>j \<in> set (i # is). \<forall>rs. rr c' j = Some rs \<longrightarrow> set_tracked c' rs)"
        using o(10,11) rr2 by auto
      show ?thesis unfolding eq o(1) ok_Some prod.case
        by (intro conjI exI [of _ c'] touch_trans [OF t2 o(4)] meta_trans [OF m2 o(5)] v k) (use o(2,3,6,7,8) 1 2 nn True in auto)
    qed
  qed
qed

text \<open>An entry that was added to the table.\<close>

lemma table_add:
  assumes t: "table s D" and a: "a \<notin> D" "qn s a = None" and k: "wf_name k" and none: "found s k = None"
    and loc: "loc_bucket loc = fst (name_hash k)" "loc_rhash loc = snd (name_hash k)"
      "walk_post (qn s) k (hash_buckets s ! fst (name_hash k)) None (loc_pos loc)"
  shows "ok (add_dns_hash (hash_buckets s) a loc True) (\<lambda>(r, t'). r \<and>
    (\<forall>s'. hash_buckets s' = t' \<longrightarrow> qn s' = (qn s)(a \<mapsto> wire k) \<longrightarrow> table s' (insert a D) \<and>
      (\<forall>k'. wf_name k' \<longrightarrow> found s' k' = (if fold_name k' = fold_name k then Some a else found s k'))))"
proof -
  have inv: "hash_inv (qn s) (hash_buckets s)" using t by (rule table_hash_inv)
  obtain b rh where h: "name_hash k = (b, rh)" by (cases "name_hash k")
  have l: "loc = \<lparr>loc_bucket = b, loc_pos = loc_pos loc, loc_rhash = rh\<rparr>" using loc(1,2) h by simp
  have "ok (add_dns_hash (hash_buckets s) a loc True) (\<lambda>(r, t'). r \<and> hash_inv ((qn s)(a \<mapsto> wire k)) t' \<and> (\<forall>k'. wf_name k' \<longrightarrow>
      hash_find ((qn s)(a \<mapsto> wire k)) t' k' = (if fold_name k' = fold_name k then Some a else hash_find (qn s) (hash_buckets s) k')))"
    by (subst l, rule add_dns_hash_ok [OF inv h k a(2)]) (use loc(3) h none in \<open>simp_all add: found_def\<close>)
  then obtain t' where t': "add_dns_hash (hash_buckets s) a loc True = Some (True, t')" "hash_inv ((qn s)(a \<mapsto> wire k)) t'"
    "\<And>k'. wf_name k' \<Longrightarrow> hash_find ((qn s)(a \<mapsto> wire k)) t' k' = (if fold_name k' = fold_name k then Some a else hash_find (qn s) (hash_buckets s) k')"
    by (auto elim!: okE)
  have "data ` set (concat t') = insert a D"
  proof -
    have D: "D = {a. \<exists>k. wf_name k \<and> hash_find (qn s) (hash_buckets s) k = Some a}" using t table_data [OF inv] by (simp add: table_def)
    have no: "hash_find (qn s) (hash_buckets s) k' = None" if "fold_name k' = fold_name k" for k'
      using none that name_hash_case [OF that] by (simp add: found_def hash_find_def named_def)
    have "(\<exists>k'. wf_name k' \<and> hash_find ((qn s)(a \<mapsto> wire k)) t' k' = Some a') \<longleftrightarrow> a' \<in> insert a D" for a'
    proof
      assume "\<exists>k'. wf_name k' \<and> hash_find ((qn s)(a \<mapsto> wire k)) t' k' = Some a'"
      then show "a' \<in> insert a D" using t'(3) by (auto simp: D split: if_splits)
    next
      assume "a' \<in> insert a D"
      then show "\<exists>k'. wf_name k' \<and> hash_find ((qn s)(a \<mapsto> wire k)) t' k' = Some a'"
      proof
        assume "a' = a"
        then show ?thesis using t'(3) [OF k] k by auto
      next
        assume "a' \<in> D"
        then obtain k' where k': "wf_name k'" "hash_find (qn s) (hash_buckets s) k' = Some a'" by (auto simp: D)
        then have "fold_name k' \<noteq> fold_name k" using no by auto
        then show ?thesis using t'(3) [OF k'(1)] k' by auto
      qed
    qed
    then show ?thesis unfolding table_data [OF t'(2)] by auto
  qed
  then show ?thesis unfolding t'(1) using t'(2,3) by (simp add: table_def found_def)
qed

text \<open>The entry that \<open>add_new\<close> makes of its argument.\<close>

definition new_entry :: "globparm \<Rightarrow> dns_cent \<Rightarrow> dns_cent \<Rightarrow> bool" where
  "new_entry g cent c \<longleftrightarrow> qname c = qname cent \<and> is_neg c = is_neg cent \<and> view c = (\<lambda>i. fresh_set g (rr cent i)) \<and>
     has (cflags c) DF_LOCAL = has (cflags cent) DF_LOCAL \<and> (is_neg cent \<longrightarrow> neg_ts (body c) = neg_ts (body cent)) \<and> tracked c"

lemma has_clear_NOCACHE: "has (f AND NOT DF_NOCACHE) DF_LOCAL = has f DF_LOCAL" "has (f AND NOT DF_NOCACHE) DF_NEGATIVE = has f DF_NEGATIVE"
  by (rule has_clear_disjoint, simp add: DF_NOCACHE_def DF_LOCAL_def DF_NEGATIVE_def)+

lemma adjust_dom_ttl_ok:
  assumes "body c = Neg le t u"
  obtains t' f where "adjust_dom_ttl g c = Some (c\<lparr>cflags := f, body := Neg le t' u\<rparr>)"
    "has f DF_LOCAL = has (cflags c) DF_LOCAL" "has f DF_NEGATIVE = has (cflags c) DF_NEGATIVE"
proof (cases "has (cflags c) DF_NOCACHE")
  case True
  then show thesis using that [of 0 "cflags c AND NOT DF_NOCACHE"] assms has_clear_NOCACHE by (simp add: adjust_dom_ttl_def)
next
  case False
  let ?mn = "if neg_ttl_g g < min_ttl g then neg_ttl_g g else min_ttl g"
  let ?t = "if t < ?mn then ?mn else if t > max_ttl g then max_ttl g else t"
  have "c\<lparr>cflags := cflags c, body := Neg le t u\<rparr> = c" using assms by (cases c) simp
  then have "adjust_dom_ttl g c = Some (c\<lparr>cflags := cflags c, body := Neg le ?t u\<rparr>)"
    using False assms by (simp add: adjust_dom_ttl_def Let_def)
  then show thesis using that by blast
qed

text \<open>Linking the record sets, or the entry itself if it is negative, into the list.\<close>

definition link_new :: "globparm \<Rightarrow> nat \<Rightarrow> dns_cent \<Rightarrow> cache \<Rightarrow> allocs \<Rightarrow> (bool \<times> cache \<times> allocs) option" where
  "link_new g a ce s al = (if \<not> is_neg ce then do {
       ilim \<leftarrow> RRARR_LEN ce;
       add_new_sets g a [0..<ilim] s al }
     else do {
       ce \<leftarrow> adjust_dom_ttl g ce;
       insert_rrl a None (s\<lparr>cents := (cents s)(a \<mapsto> ce)\<rparr>) al })"

definition copy_of :: "dns_cent \<Rightarrow> dns_cent \<Rightarrow> bool" where
  "copy_of c ce \<longleftrightarrow> rr ce = unlinked \<circ> rr c \<and> qname ce = qname c \<and> cs ce = cs c \<and> cflags ce = cflags c \<and> c_ns ce = c_ns c \<and> c_soa ce = c_soa c \<and>
     (is_neg c \<longrightarrow> neg_ttl (body ce) = neg_ttl (body c) \<and> neg_ts (body ce) = neg_ts (body c))"

lemma copy_of_neg: "copy_of c ce \<Longrightarrow> is_neg ce = is_neg c"
  by (simp add: copy_of_def is_neg_def)

lemma fresh_set_unlinked: "fresh_set g (unlinked r) = fresh_set g r"
  by (cases r) (simp_all add: fresh_set_def adjust_unlinked)

lemma link_new_ok:
  assumes co: "core s" and a: "cents s a = Some ce" and n: "nodes a ce = {}" and cp: "copy_of cent ce"
  shows "ok (link_new g a ce s al) (\<lambda>(r, s', al'). (al = [] \<longrightarrow> r \<and> al' = []) \<and> length (rrset_l s') \<le> length (rrset_l s) + NRRTOT \<and>
    (\<exists>c'. touch a c' s s' \<and> qname c' = qname cent \<and> (r \<longrightarrow> new_entry g cent c')))"
proof -
  have okc: "cent_ok ce" using core_linked(2) [OF co a] .
  then have sh: "shape_ok ce" by (simp add: cent_ok_def)
  show ?thesis
  proof (cases "is_neg ce")
    case False
    let ?is = "[0..<length (slots ce)]"
    have "lent rs = None" if "rr ce i = Some rs" for i rs using cp that by (auto simp: copy_of_def unlinked_def)
    then have pre: "\<forall>i \<in> set ?is. i < length (slots ce) \<and> (\<forall>rs. rr ce i = Some rs \<longrightarrow> lent rs = None)" by auto
    from add_new_sets_ok [OF co a _ pre, of g al] obtain r s' al' c' where o: "add_new_sets g a ?is s al = Some (r, s', al')"
      "al = [] \<longrightarrow> r \<and> al' = []" "length (rrset_l s') \<le> length (rrset_l s) + length ?is" "touch a c' s s'" "meta ce c'" "is_neg c' = is_neg ce"
      "r \<longrightarrow> view c' = (\<lambda>i. if i \<in> set ?is then fresh_set g (rr ce i) else view ce i)"
      "\<forall>j. j \<notin> set ?is \<longrightarrow> rr c' j = rr ce j" "r \<longrightarrow> (\<forall>j \<in> set ?is. \<forall>rs. rr c' j = Some rs \<longrightarrow> set_tracked c' rs)" by (auto elim!: okE)
    have "set_tracked c' rs" if r "rr c' j = Some rs" for j rs
    proof -
      have "j \<in> set ?is" using o(8) that(2) rr_bound [of ce j] by (cases "j \<in> set ?is") auto
      then show ?thesis using o(9) that by blast
    qed
    then have tr: "r \<longrightarrow> tracked c'" using o(6) False by (auto simp: tracked_def)
    have "(\<lambda>i. if i \<in> set ?is then fresh_set g (rr ce i) else view ce i) = (\<lambda>i. fresh_set g (rr cent i))"
    proof
      fix i show "(if i \<in> set ?is then fresh_set g (rr ce i) else view ce i) = fresh_set g (rr cent i)"
      proof (cases "i < length (slots ce)")
        case True
        then show ?thesis using cp by (simp add: copy_of_def fresh_set_unlinked)
      next
        case False
        then have "rr ce i = None" by (simp add: rr_def)
        moreover from this have "rr cent i = None" using cp by (simp add: copy_of_def)
        ultimately show ?thesis using False by (simp add: view_def fresh_set_def)
      qed
    qed
    then have "r \<longrightarrow> new_entry g cent c'"
      using o(5,6,7) tr cp False copy_of_neg [OF cp] by (simp add: new_entry_def meta_def copy_of_def)
    moreover have "qname c' = qname cent" using o(5) cp by (simp add: meta_def copy_of_def)
    moreover have "link_new g a ce s al = Some (r, s', al')" using False o(1) RRARR_LEN_slots [OF sh] by (simp add: link_new_def)
    ultimately show ?thesis using o(2,3,4) slots_le [OF sh] by auto
  next
    case True
    obtain le t u where b: "body ce = Neg le t u" using shape_Neg [OF sh True] .
    have le: "le = None" using n b by (cases le) (simp_all add: nodes_def neg_node_def)
    obtain t' f where ad: "adjust_dom_ttl g ce = Some (ce\<lparr>cflags := f, body := Neg None t' u\<rparr>)" "has f DF_LOCAL = has (cflags ce) DF_LOCAL"
      "has f DF_NEGATIVE = has (cflags ce) DF_NEGATIVE" using adjust_dom_ttl_ok [OF b, of g] unfolding le .
    let ?c = "ce\<lparr>cflags := f, body := Neg None t' u\<rparr>" let ?s = "s\<lparr>cents := (cents s)(a \<mapsto> ?c)\<rparr>"
    have neg: "is_neg ?c" "body ?c = Neg None t' u" using True ad(3) by (simp_all add: is_neg_def)
    have okc': "cent_ok ?c" using okc neg True b by (simp add: cent_ok_def shape_ok_def ext_size_def tot_def slots_def)
    have "linked (all_nodes ((cents s)(a := None))) a ?c (rrset_l s)"
      by (rule linked_refl [OF co a]) (use n in \<open>simp add: nodes_def neg_node_def\<close>)
    from touchI_sub [OF co a okc' this] have t1: "touch a ?c s ?s" by simp
    from insert_rrl_neg_ok [OF touch_entry(3,1) [OF t1] neg, of al] obtain r s' al' le' where o: "insert_rrl a None ?s al = Some (r, s', al')"
      "al = [] \<longrightarrow> r \<and> al' = []" "length (rrset_l s') \<le> length (rrset_l ?s) + 1" "touch a (?c\<lparr>body := Neg le' t' u\<rparr>) ?s s'"
      "r \<longrightarrow> has (cflags ?c) DF_LOCAL \<or> le' \<noteq> None" by (rule ok3E) blast
    have res: "link_new g a ce s al = Some (r, s', al')" using True ad(1) o(1) by (simp add: link_new_def)
    let ?c' = "?c\<lparr>body := Neg le' t' u\<rparr>"
    have "rr ce i = None" for i using rr_neg [OF sh True] .
    then have "rr cent i = None" for i using cp by (metis comp_apply copy_of_def unlinked_simps(3))
    moreover have no: "rr ?c' i = None" for i by (simp add: rr_def slots_def)
    moreover have "r \<longrightarrow> tracked ?c'" using o(5) no by (auto simp: tracked_def)
    ultimately have "r \<longrightarrow> new_entry g cent ?c'"
      using cp copy_of_neg [OF cp] True neg(1) ad(2) b
      by (simp add: new_entry_def copy_of_def is_neg_def view_def fresh_set_def fun_eq_iff)
    moreover have "qname ?c' = qname cent" using cp by (simp add: copy_of_def)
    ultimately show ?thesis unfolding res ok_Some prod.case using o(2,3) touch_trans [OF t1 o(4)] by (auto simp: nrr_defs)
  qed
qed

text \<open>The place for a name that \<open>dns_lookup\<close> has found.\<close>

definition place :: "cache \<Rightarrow> label list \<Rightarrow> nat option \<Rightarrow> dns_hash_loc \<Rightarrow> bool" where
  "place s k res loc \<longleftrightarrow> loc_bucket loc = fst (name_hash k) \<and> loc_rhash loc = snd (name_hash k) \<and>
     walk_post (qn s) k (hash_buckets s ! fst (name_hash k)) res (loc_pos loc)"

lemma lookup_place:
  assumes "table s D" and "wf_name k"
  obtains loc where "lookup s (wire k @ r) = Some (found s k, loc)" "place s k (found s k) loc"
proof -
  from lookup_ok [OF assms, of r] obtain res loc where "lookup s (wire k @ r) = Some (res, loc)" "res = found s k" "place s k res loc"
    unfolding found_def place_def by (rule ok2E) blast
  then show thesis using that by blast
qed

definition added :: "nat \<Rightarrow> dns_cent \<Rightarrow> label list \<Rightarrow> cache \<Rightarrow> cache \<Rightarrow> bool" where
  "added a c k s s' \<longleftrightarrow> cents s a = None \<and> cents s' = (cents s)(a \<mapsto> c) \<and> insert_sort s' = insert_sort s \<and>
     (\<forall>k'. wf_name k' \<longrightarrow> found s' k' = (if fold_name k' = fold_name k then Some a else found s k'))"

lemma add_new_fail:
  assumes inv: "inv_but x s" and a: "a = fresh s" "cents s a = None" and t: "touch a c (s\<lparr>cents := (cents s)(a \<mapsto> ce), fresh := a + 1\<rparr>) s1"
  shows "ok (do { l \<leftarrow> free_cent c (rrset_l s1); Some (False, s1\<lparr>rrset_l := l, cents := (cents s1)(a := None)\<rparr>, al') })
    (\<lambda>(r, s', al''). \<not> r \<and> al'' = al' \<and> inv_but x s' \<and> same_table s s' \<and> cents s' = cents s \<and> length (rrset_l s') \<le> length (rrset_l s1))"
proof -
  note d = core_drop [OF touch_entry(3,1) [OF t]]
  let ?l = "filter (\<lambda>e. e \<notin> nodes a c) (rrset_l s1)" let ?s = "s1\<lparr>rrset_l := ?l, cents := (cents s1)(a := None)\<rparr>"
  have c: "cents ?s = cents s" using t a(2) by (auto simp: touch_def)
  have "qn ?s = qn s" using c by (simp add: qn_def fun_eq_iff)
  then have st: "same_table s ?s" using t c by (simp add: touch_def same_table_def)
  have "inv_but x ?s" by (rule inv_same [OF inv d(2) st]) (use t c in \<open>simp add: touch_def\<close>)
  then show ?thesis using d(1) c st by (simp add: length_filter_le)
qed

lemma add_new_ok:
  assumes inv: "inv_but x s" and k: "wf_name k" "qname cent = wire k" and cent: "cent_ok cent" and none: "found s k = None" and loc: "place s k None loc"
  shows "ok (add_new g cent loc s al) (\<lambda>(r, s', al'). inv_but x s' \<and> (al = [] \<longrightarrow> r \<and> al' = []) \<and>
    length (rrset_l s') \<le> length (rrset_l s) + NRRTOT \<and>
    (if r then \<exists>a c. added a c k s s' \<and> new_entry g cent c else same_table s s' \<and> cents s' = cents s))"
proof -
  let ?a = "fresh s"
  from copy_cent_ok [OF cent, of al ?a] obtain r0 al1 where 0: "copy_cent cent al = Some (r0, al1)" "al = [] \<longrightarrow> r0 \<noteq> None \<and> al1 = []"
    "case r0 of None \<Rightarrow> True | Some ce \<Rightarrow> cent_ok ce \<and> nodes ?a ce = {} \<and> copy_of cent ce"
    unfolding copy_of_def by (auto elim!: okE split: option.splits)
  show ?thesis
  proof (cases r0)
    case None
    then show ?thesis using 0 inv same_table_refl by (auto simp: add_new_def)
  next
    case (Some ce)
    with 0(3) have ce: "cent_ok ce" "nodes ?a ce = {}" "copy_of cent ce" by simp_all
    let ?s0 = "s\<lparr>cents := (cents s)(?a \<mapsto> ce), fresh := ?a + 1\<rparr>"
    note c0 = core_add [OF inv_but_core [OF inv] refl ce(1,2)]
    have a0: "cents ?s0 ?a = Some ce" by simp
    from link_new_ok [OF c0(1) a0 ce(2,3), of g al1] obtain r1 s1 al2 c1 where 1: "link_new g ?a ce ?s0 al1 = Some (r1, s1, al2)"
      "al1 = [] \<longrightarrow> r1 \<and> al2 = []" "length (rrset_l s1) \<le> length (rrset_l ?s0) + NRRTOT" "touch ?a c1 ?s0 s1" "qname c1 = qname cent"
      "r1 \<longrightarrow> new_entry g cent c1" by (rule ok3E) blast
    define mem where "mem = (r1 \<and> fst (malloc al2))"
    define al3 where "al3 = (if r1 then snd (malloc al2) else al2)"
    have m: "(if r1 then malloc al2 else (False, al2)) = (mem, al3)" by (simp add: mem_def al3_def)
    have m0: "al = [] \<longrightarrow> mem \<and> al3 = []" using 0(2) 1(2) by (simp add: mem_def al3_def)
    have hb: "hash_buckets s1 = hash_buckets s" "cache_size s1 = cache_size s" "ent_num s1 = ent_num s" "insert_sort s1 = insert_sort s"
      "cents s1 = (cents s)(?a \<mapsto> c1)" "cents s1 ?a = Some c1" using 1(4) by (auto simp: touch_def same_table_def)
    have pre: "add_new g cent loc s al = do {
      (r, t) \<leftarrow> (if r1 then add_dns_hash (hash_buckets s1) ?a loc mem else Some (False, hash_buckets s1));
      if r then Some (True, s1\<lparr>hash_buckets := t, ent_num := ent_num s1 + 1, cache_size := cache_size s1 + int (cs c1)\<rparr>, al3)
      else do { l \<leftarrow> free_cent c1 (rrset_l s1); Some (False, s1\<lparr>rrset_l := l, cents := (cents s1)(?a := None)\<rparr>, al3) } }"
      by (simp only: add_new_def 0(1) Some bind.bind_lunit prod.case option.case Let_def 1(1) [unfolded link_new_def] m hb(6))
    show ?thesis
    proof (cases mem)
      case False
      then have eq: "add_new g cent loc s al = do { l \<leftarrow> free_cent c1 (rrset_l s1); Some (False, s1\<lparr>rrset_l := l, cents := (cents s1)(?a := None)\<rparr>, al3) }"
        unfolding pre by (simp add: add_dns_hash_def)
      from add_new_fail [OF inv refl c0(2) 1(4), of al3] show ?thesis
        unfolding eq by (rule ok_mono) (use False m0 1(3) in auto)
    next
      case True
      then have r1: "r1" by (simp add: mem_def)
      have qa: "qn s ?a = None" using c0(2) by (simp add: qn_def)
      have nd: "?a \<notin> dom (cents s)" using c0(2) by auto
      from loc have l: "loc_bucket loc = fst (name_hash k)" "loc_rhash loc = snd (name_hash k)"
        "walk_post (qn s) k (hash_buckets s ! fst (name_hash k)) None (loc_pos loc)" by (simp_all add: place_def)
      from table_add [OF inv_but_table [OF inv] nd qa k(1) none l] obtain t' where t': "add_dns_hash (hash_buckets s) ?a loc True = Some (True, t')"
        "\<And>s'. hash_buckets s' = t' \<Longrightarrow> qn s' = (qn s)(?a \<mapsto> wire k) \<Longrightarrow> table s' (insert ?a (dom (cents s))) \<and>
          (\<forall>k'. wf_name k' \<longrightarrow> found s' k' = (if fold_name k' = fold_name k then Some ?a else found s k'))" by (auto elim!: okE)
      let ?s = "s1\<lparr>hash_buckets := t', ent_num := ent_num s1 + 1, cache_size := cache_size s1 + int (cs c1)\<rparr>"
      have res: "add_new g cent loc s al = Some (True, ?s, al3)" unfolding pre using r1 True t'(1) hb(1) by simp
      have "qn ?s = (qn s)(?a \<mapsto> wire k)" using hb(5) 1(5) k(2) by (auto simp: qn_def fun_eq_iff)
      note T = t'(2) [of ?s, OF _ this]
      have cs: "cents ?s = (cents s)(?a \<mapsto> c1)" using hb(5) by simp
      have fin: "finite (dom (cents s))" using inv_but_core [OF inv] by (simp add: core_def)
      have co: "core ?s" by (rule core_cong [OF touch_entry(3) [OF 1(4)]]) simp_all
      have tot: "total_cs (cents ?s) = total_cs (cents s) + int (cs c1)" unfolding cs total_upd [OF fin] using c0(2) by (simp add: fun_upd_idem)
      have dm: "dom (cents ?s) = insert ?a (dom (cents s))" using cs by simp
      have "cache_size ?s = total_cs (cents ?s) + x" "ent_num ?s = int (card (dom (cents ?s)))"
        using inv hb(2,3) tot dm fin nd by (simp_all add: inv_but_def)
      then have "inv_but x ?s" using co T dm unfolding inv_but_def by simp
      moreover have "added ?a c1 k s ?s" using c0(2) cs T hb(4) by (simp add: added_def)
      ultimately show ?thesis unfolding res ok_Some prod.case using 1(3,6) r1 m0 by auto
    qed
  qed
qed

section \<open>Adding to the cache\<close>

lemma any_local_eq:
  assumes "shape_ok c" and "\<forall>i \<in> set is. i < length (slots c)"
  shows "any_local c is = Some (\<exists>i \<in> set is. is_local (rr c i))"
  using assms(2)
proof (induction "is")
  case (Cons i "is")
  then have "RRARR_INDEX c i = Some (rr c i)" using RRARR_INDEX_eq [OF assms(1)] by simp
  with Cons show ?case by (cases "rr c i") (auto simp: is_local_def)
qed simp

lemma any_local_all:
  assumes "shape_ok c"
  shows "any_local c [0..<length (slots c)] = Some (\<exists>i. is_local (rr c i))"
proof -
  have "is_local (rr c i) \<Longrightarrow> i < length (slots c)" for i using rr_bound [of c i] by (auto simp: is_local_def split: option.splits)
  then have "(\<exists>i \<in> set [0..<length (slots c)]. is_local (rr c i)) = (\<exists>i. is_local (rr c i))" by auto
  then show ?thesis using any_local_eq [OF assms, of "[0..<length (slots c)]"] by simp
qed

text \<open>The outcome before purging; \<open>r\<close> is false when an allocation has failed.\<close>

definition renamed :: "nat \<Rightarrow> nat \<Rightarrow> dns_cent \<Rightarrow> label list \<Rightarrow> cache \<Rightarrow> cache \<Rightarrow> bool" where
  "renamed a a' c k s s' \<longleftrightarrow> (a' = a \<or> cents s a' = None) \<and> cents s' = ((cents s)(a := None))(a' \<mapsto> c) \<and>
     (\<forall>k'. wf_name k' \<longrightarrow> found s' k' = (if fold_name k' = fold_name k then Some a' else found s k'))"

definition dropped :: "nat \<Rightarrow> label list \<Rightarrow> cache \<Rightarrow> cache \<Rightarrow> bool" where
  "dropped a k s s' \<longleftrightarrow> cents s' = (cents s)(a := None) \<and>
     (\<forall>k'. wf_name k' \<longrightarrow> found s' k' = (if fold_name k' = fold_name k then None else found s k'))"

definition add_outcome :: "globparm \<Rightarrow> int \<Rightarrow> dns_cent \<Rightarrow> label list \<Rightarrow> bool \<Rightarrow> cache \<Rightarrow> cache \<Rightarrow> bool" where
  "add_outcome g now cent k r s s' \<longleftrightarrow> (case found s k of
     None \<Rightarrow> if num_rrs cent = 0 \<and> \<not> is_neg cent then s' = s
       else if r then \<exists>a c. added a c k s s' \<and> new_entry g cent c
       else same_table s s' \<and> cents s' = cents s
   | Some a \<Rightarrow>
       if is_neg cent then
         (if \<exists>i. is_local (rr (the (cents s a)) i) then s' = s
          else if r then \<exists>a' c'. renamed a a' c' k s s' \<and> new_entry g cent c' else dropped a k s s')
       else same_table s s' \<and> (\<exists>c'. cents s' = (cents s)(a \<mapsto> c') \<and>
         has (cflags c') DF_LOCAL = has (cflags (the (cents s a))) DF_LOCAL \<and> (tracked (the (cents s a)) \<longrightarrow> tracked c') \<and>
         (let dl = has (cflags (the (cents s a))) DF_LOCAL; V = unexpired now (the (cents s a)) in
          if r then view c' = merge_sets g now dl (rr cent) [0..<length (slots cent)] V
          else cut_off g now dl (rr cent) [0..<length (slots cent)] V (view c'))))"

definition settled :: "globparm \<Rightarrow> bool \<Rightarrow> cache \<Rightarrow> cache \<Rightarrow> bool" where
  "settled g r s1 s' \<longleftrightarrow> inv_but 0 s1 \<and> (if r then survives has_local local_rr s1 s' \<and> (cache_size s1 \<le> purge_limit g \<longrightarrow> s' = s1) \<and>
     (cache_size s' \<le> purge_limit g \<or> s' = s1 \<or> (\<forall>e \<in> set (rrset_l s'). node_local s' e)) else s' = s1)"

lemma purge_settled:
  assumes "inv_but 0 s1" and "length (rrset_l s1) < 2 ^ NTMPSORT"
  shows "ok (purge_cache now (purge_limit g) True s1) (\<lambda>s'. inv_but 0 s' \<and> settled g True s1 s')"
  using purge_cache_ok [OF assms, of now "purge_limit g" True] by (rule ok_mono) (use assms(1) in \<open>auto simp: settled_def\<close>)

lemma settled_length: "settled g r s1 s' \<Longrightarrow> length (rrset_l s') \<le> length (rrset_l s1)"
  by (auto simp: settled_def survives_def split: if_splits)

lemma named_found:
  assumes inv: "inv_but x s" and a: "found s k = Some a"
  obtains c k1 where "cents s a = Some c" "cent_ok c" "wf_name k1" "qname c = wire k1" "fold_name k = fold_name k1"
proof -
  obtain c where c: "cents s a = Some c" "cent_ok c" using found_entry [OF inv a] by blast
  obtain k1 where k1: "wf_name k1" "qname c = wire k1" "qn s a = Some (wire k1)" using entry_name [OF inv_but_core [OF inv] c(1)] by blast
  have "named (qn s) a k" using hash_find_in(2) [OF inv_but_table [OF inv]] a by (simp add: found_def)
  moreover have "named (qn s) a k1" using k1 by (auto simp: named_def)
  ultimately have "fold_name k = fold_name k1" by (rule named_same)
  then show thesis using that c k1 by blast
qed

lemma add_step_new:
  assumes inv: "inv_but 0 s" and k: "wf_name k" "qname cent = wire k" and cent: "cent_ok cent" and none: "found s k = None"
    and ne: "\<not> (num_rrs cent = 0 \<and> \<not> is_neg cent)" and len: "length (rrset_l s) + NRRTOT < 2 ^ NTMPSORT"
  shows "ok (add_cache_try (Suc n) g now cent s al) (\<lambda>(s', al'). inv_but 0 s' \<and> length (rrset_l s') \<le> length (rrset_l s) + NRRTOT \<and> (\<exists>r s1. (al = [] \<longrightarrow> r \<and> al' = []) \<and> settled g r s1 s' \<and>
    (if r then \<exists>a c. added a c k s s1 \<and> new_entry g cent c else same_table s s1 \<and> cents s1 = cents s)))"
proof -
  obtain loc where l: "lookup s (qname cent) = Some (None, loc)" "place s k None loc"
    using lookup_place [OF inv_but_table [OF inv] k(1), of "[]"] none k(2) by auto
  from add_new_ok [OF inv k cent none l(2), of g al] obtain r s1 al1 where 1: "add_new g cent loc s al = Some (r, s1, al1)" "inv_but 0 s1"
    "al = [] \<longrightarrow> r \<and> al1 = []" "length (rrset_l s1) \<le> length (rrset_l s) + NRRTOT"
    "if r then \<exists>a c. added a c k s s1 \<and> new_entry g cent c else same_table s s1 \<and> cents s1 = cents s" by (rule ok3E) blast
  show ?thesis
  proof (cases r)
    case False
    then have eq: "add_cache_try (Suc n) g now cent s al = Some (s1, al1)" using l(1) ne 1(1) by auto
    show ?thesis unfolding eq ok_Some prod.case
      by (intro conjI exI [of _ False] exI [of _ s1]) (use 1 False in \<open>simp_all add: settled_def\<close>)
  next
    case True
    have "length (rrset_l s1) < 2 ^ NTMPSORT" using 1(4) len by simp
    from purge_settled [OF 1(2) this, of now g] obtain s2 where 2: "purge_cache now (purge_limit g) True s1 = Some s2" "inv_but 0 s2" "settled g True s1 s2"
      by (rule okE) blast
    have eq: "add_cache_try (Suc n) g now cent s al = Some (s2, al1)" using l(1) ne 1(1) True 2(1) by auto
    show ?thesis unfolding eq ok_Some prod.case
      by (intro conjI exI [of _ True] exI [of _ s1] 2(2,3)) (use 1(3,4,5) settled_length [OF 2(3)] True in simp_all)
  qed
qed

lemma add_step_old:
  assumes inv: "inv_but 0 s" and k: "wf_name k" "qname cent = wire k" and cent: "cent_ok cent" "\<not> is_neg cent" and a: "found s k = Some a"
    and len: "length (rrset_l s) + NRRTOT < 2 ^ NTMPSORT"
  shows "ok (add_cache_try (Suc n) g now cent s al) (\<lambda>(s', al'). inv_but 0 s' \<and> length (rrset_l s') \<le> length (rrset_l s) + NRRTOT \<and> (\<exists>r s1. (al = [] \<longrightarrow> r \<and> al' = []) \<and> settled g r s1 s' \<and>
    add_outcome g now cent k r s s1))"
proof -
  obtain loc where l: "lookup s (qname cent) = Some (Some a, loc)"
    using lookup_place [OF inv_but_table [OF inv] k(1), of "[]"] a k(2) by auto
  obtain c k1 where c: "cents s a = Some c" "cent_ok c" "wf_name k1" "qname c = wire k1" using named_found [OF inv a] by blast
  from add_existing_ok [OF inv c(1,3,4) cent refl, of g now al] obtain r s1 al1 c' where 1: "add_existing g now cent a s al = Some (r, s1, al1)"
    "inv_but 0 s1" "al = [] \<longrightarrow> r \<and> al1 = []" "length (rrset_l s1) \<le> length (rrset_l s) + NRRTOT" "same_table s s1" "cents s1 = (cents s)(a \<mapsto> c')"
    "has (cflags c') DF_LOCAL = has (cflags c) DF_LOCAL"
    "if r then view c' = merge_sets g now (has (cflags c) DF_LOCAL) (rr cent) [0..<length (slots cent)] (unexpired now c)
       else cut_off g now (has (cflags c) DF_LOCAL) (rr cent) [0..<length (slots cent)] (unexpired now c) (view c')"
    "tracked c \<longrightarrow> tracked c'" by (rule ok3E) blast
  have out: "add_outcome g now cent k r s s1"
    unfolding add_outcome_def a option.case if_not_P [OF cent(2)] c(1) option.sel Let_def by (intro conjI exI [of _ c'] 1(5-9))
  show ?thesis
  proof (cases r)
    case False
    then have eq: "add_cache_try (Suc n) g now cent s al = Some (s1, al1)" using l cent(2) 1(1) by simp
    show ?thesis unfolding eq ok_Some prod.case
      by (intro conjI exI [of _ r] exI [of _ s1] 1(2,4) out) (use 1(2,3) False in \<open>simp_all add: settled_def\<close>)
  next
    case True
    have "length (rrset_l s1) < 2 ^ NTMPSORT" using 1(4) len by simp
    from purge_settled [OF 1(2) this, of now g] obtain s2 where 2: "purge_cache now (purge_limit g) True s1 = Some s2" "inv_but 0 s2" "settled g True s1 s2"
      by (rule okE) blast
    have eq: "add_cache_try (Suc n) g now cent s al = Some (s2, al1)" using l cent(2) 1(1) True 2(1) by simp
    show ?thesis unfolding eq ok_Some prod.case
      by (intro conjI exI [of _ r] exI [of _ s1] 2(2) out) (use 1(3,4) 2(3) settled_length [OF 2(3)] True in simp_all)
  qed
qed

lemma removed_added:
  assumes "removed a c k1 s s1" and "added a' c' k s1 s2" and "fold_name k = fold_name k1"
  shows "renamed a a' c' k s s2"
  using assms by (auto simp: removed_def added_def renamed_def split: if_splits)

lemma removed_dropped:
  assumes "removed a c k1 s s1" and "same_table s1 s2" "cents s2 = cents s1" and "fold_name k = fold_name k1"
  shows "dropped a k s s2"
  using assms same_table_found [OF assms(2)] by (auto simp: removed_def dropped_def)

lemma add_step_neg:
  assumes inv: "inv_but 0 s" and k: "wf_name k" "qname cent = wire k" and cent: "cent_ok cent" "is_neg cent" and a: "found s k = Some a"
    and len: "length (rrset_l s) + NRRTOT < 2 ^ NTMPSORT"
  shows "ok (add_cache_try (Suc (Suc n)) g now cent s al) (\<lambda>(s', al'). inv_but 0 s' \<and> length (rrset_l s') \<le> length (rrset_l s) + NRRTOT \<and> (\<exists>r s1. (al = [] \<longrightarrow> r \<and> al' = []) \<and> settled g r s1 s' \<and>
    add_outcome g now cent k r s s1))"
proof -
  obtain loc where l: "lookup s (qname cent) = Some (Some a, loc)" "place s k (Some a) loc"
    using lookup_place [OF inv_but_table [OF inv] k(1), of "[]"] a k(2) by auto
  obtain c k1 where c: "cents s a = Some c" "cent_ok c" "wf_name k1" "qname c = wire k1" "fold_name k = fold_name k1" using named_found [OF inv a] .
  have sh: "shape_ok c" using c(2) by (simp add: cent_ok_def)
  note al = any_local_all [OF sh] RRARR_LEN_slots [OF sh]
  show ?thesis
  proof (cases "\<exists>i. is_local (rr c i)")
    case True
    then have "add_cache_try (Suc (Suc n)) g now cent s al = Some (s, al)" using l(1) cent(2) c(1) al by simp
    moreover have "add_outcome g now cent k True s s" using a c(1) cent(2) True by (auto simp: add_outcome_def)
    moreover have "settled g True s s" using survives_refl inv by (simp add: settled_def)
    ultimately show ?thesis using inv by auto
  next
    case False
    have "case Some loc of None \<Rightarrow> True | Some loc \<Rightarrow> loc_bucket loc = fst (name_hash k) \<and> wf_name k \<and> fold_name k = fold_name k1 \<and>
      walk_post (qn s) k (hash_buckets s ! fst (name_hash k)) (Some a) (loc_pos loc)" using l(2) k(1) c(5) by (simp add: place_def)
    from del_cache_ent_ok [OF inv c(1,3,4) this] obtain s1 where 1: "del_cache_ent a (Some loc) s = Some s1" "inv_but 0 s1" "removed a c k1 s s1"
      by (rule okE) blast
    have eq: "add_cache_try (Suc (Suc n)) g now cent s al = add_cache_try (Suc n) g now cent s1 al" using l(1) cent(2) c(1) al False 1(1) by simp
    have f1: "found s1 k = None" using 1(3) k(1) c(5) by (simp add: removed_def)
    have "length (rrset_l s1) \<le> length (rrset_l s)" using 1(3) by (simp add: removed_def)
    then have len1: "length (rrset_l s1) + NRRTOT < 2 ^ NTMPSORT" using len by simp
    have ne: "\<not> (num_rrs cent = 0 \<and> \<not> is_neg cent)" using cent(2) by simp
    from add_step_new [OF 1(2) k cent(1) f1 ne len1, of n g now al] obtain s' al' r s2 where 2: "add_cache_try (Suc n) g now cent s1 al = Some (s', al')"
      "inv_but 0 s'" "length (rrset_l s') \<le> length (rrset_l s1) + NRRTOT" "al = [] \<longrightarrow> r \<and> al' = []" "settled g r s2 s'"
      "if r then \<exists>a c. added a c k s1 s2 \<and> new_entry g cent c else same_table s1 s2 \<and> cents s2 = cents s1" by (rule ok2E) blast
    have "add_outcome g now cent k r s s2"
    proof (cases r)
      case True
      with 2(6) obtain a' c' where "added a' c' k s1 s2" "new_entry g cent c'" by auto
      then have "\<exists>a' c'. renamed a a' c' k s s2 \<and> new_entry g cent c'" using removed_added [OF 1(3) _ c(5)] by blast
      then show ?thesis using a cent(2) c(1) False True by (simp add: add_outcome_def)
    next
      case r: False
      then have "dropped a k s s2" using removed_dropped [OF 1(3) _ _ c(5)] 2(6) by simp
      then show ?thesis using a cent(2) c(1) False r by (simp add: add_outcome_def)
    qed
    then show ?thesis unfolding eq 2(1) using 2(2,3,4,5) \<open>length (rrset_l s1) \<le> length (rrset_l s)\<close> by auto
  qed
qed

lemma add_cache_ok:
  assumes inv: "inv_but 0 s" and k: "wf_name k" "qname cent = wire k" and cent: "cent_ok cent" and len: "length (rrset_l s) + NRRTOT < 2 ^ NTMPSORT"
  shows "ok (add_cache g now cent s al) (\<lambda>(s', al'). inv_but 0 s' \<and> length (rrset_l s') \<le> length (rrset_l s) + NRRTOT \<and> (\<exists>r s1. (al = [] \<longrightarrow> r \<and> al' = []) \<and> settled g r s1 s' \<and>
    add_outcome g now cent k r s s1))"
  unfolding add_cache_def numeral_2_eq_2
proof (cases "found s k")
  case (Some a)
  show "ok (add_cache_try (Suc (Suc 0)) g now cent s al) (\<lambda>(s', al'). inv_but 0 s' \<and> length (rrset_l s') \<le> length (rrset_l s) + NRRTOT \<and> (\<exists>r s1. (al = [] \<longrightarrow> r \<and> al' = []) \<and> settled g r s1 s' \<and> add_outcome g now cent k r s s1))"
  proof (cases "is_neg cent")
    case True
    from add_step_neg [OF inv k cent True Some len] show ?thesis .
  next
    case False
    from add_step_old [OF inv k cent False Some len] show ?thesis .
  qed
next
  case None
  show "ok (add_cache_try (Suc (Suc 0)) g now cent s al) (\<lambda>(s', al'). inv_but 0 s' \<and> length (rrset_l s') \<le> length (rrset_l s) + NRRTOT \<and> (\<exists>r s1. (al = [] \<longrightarrow> r \<and> al' = []) \<and> settled g r s1 s' \<and> add_outcome g now cent k r s s1))"
  proof (cases "num_rrs cent = 0 \<and> \<not> is_neg cent")
    case False
    from add_step_new [OF inv k cent None False len, of "Suc 0" g now al] obtain s' al' r s1 where
      1: "add_cache_try (Suc (Suc 0)) g now cent s al = Some (s', al')" "inv_but 0 s'" "length (rrset_l s') \<le> length (rrset_l s) + NRRTOT" "al = [] \<longrightarrow> r \<and> al' = []" "settled g r s1 s'"
        "if r then \<exists>a c. added a c k s s1 \<and> new_entry g cent c else same_table s s1 \<and> cents s1 = cents s" by (rule ok2E) blast
    have "add_outcome g now cent k r s s1"
      unfolding add_outcome_def None option.case if_not_P [OF False] using 1(6) .
    then show ?thesis unfolding 1(1) ok_Some prod.case using 1(2,3,4,5) by blast
  next
    case True
    obtain loc where l: "lookup s (qname cent) = Some (None, loc)"
      using lookup_place [OF inv_but_table [OF inv] k(1), of "[]"] None k(2) by auto
    have "length (rrset_l s) < 2 ^ NTMPSORT" using len by simp
    from purge_settled [OF inv this, of now g] obtain s2 where 2: "purge_cache now (purge_limit g) True s = Some s2" "inv_but 0 s2" "settled g True s s2"
      by (rule okE) blast
    have "add_cache_try (Suc (Suc 0)) g now cent s al = Some (s2, al)" using l True 2(1) by simp
    moreover have "add_outcome g now cent k True s s" unfolding add_outcome_def None option.case if_P [OF True] ..
    ultimately show ?thesis using 2(2,3) trans_le_add1 [OF settled_length [OF 2(3)]] by (simp only: ok_Some prod.case) blast
  qed
qed

end
