(* ===== verification/CacheLookup.thy ===== *)
theory CacheLookup
  imports CacheOps
begin

text \<open>
  Looking up (\<^verbatim>\<open>lookup_cache\<close> and its relatives of \<^verbatim>\<open>src/cache.c\<close>), invalidating and changing flags: which entry is found,
  with the search up the name hierarchy for wildcards, and which record sets of it are handed out.
\<close>

section \<open>Which entry is found\<close>

fun wild_find :: "cache \<Rightarrow> label list \<Rightarrow> nat option \<times> wildness" where
  "wild_find s [] = (None, NotWild)"
| "wild_find s (l # ls) = (if ls = [] then (None, NotWild)
     else case found s ls of None \<Rightarrow> wild_find s ls
       | Some a \<Rightarrow> let c = the (cents s a) in
           if is_neg c then (Some a, w_neg)
           else if has (cflags c) DF_WILD then
             (case found s ([42] # ls) of None \<Rightarrow> (None, NotWild) | Some b \<Rightarrow> (Some b, w_wild))
           else if has (cflags c) DF_LOCAL then (Some a, w_locnerr)
           else (None, NotWild))"

definition locate :: "cache \<Rightarrow> label list \<Rightarrow> bool \<Rightarrow> nat option \<times> wildness" where
  "locate s k wild = (case found s k of Some a \<Rightarrow> (Some a, NotWild) | None \<Rightarrow> if wild then wild_find s k else (None, NotWild))"

lemma next_tail_wire:
  assumes "list_all wf_label (l # ls)"
  shows "next_tail (wire (l # ls) @ r) = Some (if ls = [] then None else Some (wire ls @ r))" "next_tail (wire [] @ r) = Some None"
proof -
  have l: "wf_label l" using assms by simp
  have "drop (unat (of_nat (length l) :: byte) + 1) (wire (l # ls) @ r) = wire ls @ r" using wf_label_unat [OF l] by simp
  moreover have "rd (wire ls @ r) 0 = Some (if ls = [] then 0 else of_nat (length (hd ls)))" by (cases ls) simp_all
  moreover have "ls \<noteq> [] \<Longrightarrow> (of_nat (length (hd ls)) :: byte) \<noteq> 0" using assms wf_label_nz by (cases ls) auto
  ultimately show "next_tail (wire (l # ls) @ r) = Some (if ls = [] then None else Some (wire ls @ r))"
    using wf_label_nz [OF l] unfolding next_tail_def rd_wire by (auto simp: Let_def)
  show "next_tail (wire [] @ r) = Some None" by (simp add: next_tail_def)
qed

text \<open>The name \<^verbatim>\<open>*\<close> in front of a proper tail fits into the buffer.\<close>

lemma wildcard_fits:
  assumes "wf_name (l # ls)"
  shows "wf_name ([42] # ls)" "length (wire ls) \<le> DNSNAMEBUFSIZE - 2"
proof -
  have "1 \<le> length l" using assms by (simp add: wf_name_def wf_label_def Suc_le_eq)
  then show "wf_name ([42] # ls)" "length (wire ls) \<le> DNSNAMEBUFSIZE - 2"
    using assms by (auto simp: wf_name_def wf_label_def)
qed

lemma wild_search_ok:
  assumes inv: "inv_but x s" and wf: "wf_name k"
  shows "wild_search s (wire k @ r) = Some (wild_find s k)"
  using wf
proof (induction k)
  case Nil
  have "next_tail (wire [] @ r) = Some None" by (simp add: next_tail_def)
  then show ?case by (subst wild_search.simps) simp
next
  case (Cons l ls)
  have wf: "wf_name ls" using wf_name_Cons [OF Cons.prems] by simp
  note nt = next_tail_wire(1) [OF wf_name_labels [OF Cons.prems], of r]
  show ?case
  proof (cases "ls = []")
    case True
    then show ?thesis using nt by (subst wild_search.simps) simp
  next
    case False
    obtain loc where l: "lookup s (wire ls @ r) = Some (found s ls, loc)" using lookup_found [OF inv_but_table [OF inv] wf] by blast
    show ?thesis
    proof (cases "found s ls")
      case None
      then show ?thesis using nt False l Cons.IH [OF wf] by (subst wild_search.simps) simp
    next
      case (Some a)
      then obtain c where c: "cents s a = Some c" using found_entry [OF inv] by blast
      note w = wildcard_fits [OF Cons.prems]
      have cp: "rhncpy (replicate (DNSNAMEBUFSIZE - 2) 0) (wire ls @ r) =
        Some (length (wire ls), wire ls @ drop (length (wire ls)) (replicate (DNSNAMEBUFSIZE - 2) 0))"
        using rhncpy_wire [OF wf, of "replicate (DNSNAMEBUFSIZE - 2) 0" r] w(2) by simp
      let ?r = "drop (length (wire ls)) (replicate (DNSNAMEBUFSIZE - 2) (0 :: byte))"
      obtain loc' where "lookup s (wire ([42] # ls) @ ?r) = Some (found s ([42] # ls), loc')"
        using lookup_found [OF inv_but_table [OF inv] w(1)] by blast
      then have "lookup s (1 # 42 # wire ls @ ?r) = Some (found s ([42] # ls), loc')" by simp
      with nt False l Some c cp show ?thesis by (subst wild_search.simps) (auto simp: Let_def split: option.split)
    qed
  qed
qed

lemma find_entry_ok:
  assumes inv: "inv_but x s" and wf: "wf_name k"
  shows "find_entry s (wire k @ r) wild = Some (locate s k wild)"
proof -
  obtain loc where "lookup s (wire k @ r) = Some (found s k, loc)" using lookup_found [OF inv_but_table [OF inv] wf] by blast
  then show ?thesis using wild_search_ok [OF assms, of r] by (cases "found s k") (simp_all add: find_entry_def locate_def)
qed

lemma wild_find_entry:
  assumes "inv_but x s" and "wf_name k" and "wild_find s k = (Some a, w)"
  shows "\<exists>k'. wf_name k' \<and> found s k' = Some a"
  using assms(2,3)
proof (induction k)
  case (Cons l ls)
  have wf: "wf_name ls" using wf_name_Cons [OF Cons.prems(1)] by simp
  show ?case
    using Cons.prems(2) Cons.IH [OF wf] wf wildcard_fits(1) [OF Cons.prems(1)]
    by (auto simp: Let_def split: if_splits option.splits)
qed simp

lemma locate_entry:
  assumes inv: "inv_but x s" and wf: "wf_name k" and l: "locate s k wild = (Some a, w)"
  obtains c k' where "cents s a = Some c" "cent_ok c" "wf_name k'" "qname c = wire k'"
proof -
  obtain k1 where "found s k1 = Some a"
    using l wild_find_entry [OF inv wf] by (auto simp: locate_def split: option.splits if_splits)
  then show thesis using named_found [OF inv] that by metis
qed

section \<open>What is handed out\<close>

text \<open>The copy has the unexpired record sets of the entry.\<close>

definition served :: "int \<Rightarrow> dns_cent \<Rightarrow> dns_cent \<Rightarrow> bool" where
  "served now c c' \<longleftrightarrow> view c' = unexpired now c \<and> rr c' = view c' \<and> is_neg c' = is_neg c \<and> qname c' = qname c \<and> cent_ok c'"

lemma copy_served:
  assumes "cent_ok c" and "cent_ok ce" and "copy_of c ce" and "view c = unexpired now c0" and "is_neg c = is_neg c0" "qname c = qname c0"
  shows "served now c0 ce"
proof -
  have "view ce = view c" "rr ce = view ce" using assms(3) by (auto simp: copy_of_def view_def fun_eq_iff unlinked_unlinked)
  then show ?thesis using assms copy_of_neg [OF assms(3)] by (simp add: served_def copy_of_def)
qed

lemma copy_ok:
  assumes "cent_ok c"
  shows "ok (copy_cent c al) (\<lambda>(r, al'). (al = [] \<longrightarrow> r \<noteq> None \<and> al' = []) \<and> (\<forall>ce. r = Some ce \<longrightarrow> cent_ok ce \<and> copy_of c ce))"
  using copy_cent_ok [OF assms, of al undefined] unfolding copy_of_def by (auto elim!: ok_mono split: option.splits)

lemma unexpired_all:
  assumes "\<forall>j. \<not> outdated now c j"
  shows "unexpired now c = view c"
proof
  fix j show "unexpired now c j = view c j" using spec [OF assms, of j] by (cases "rr c j") (auto simp: unexpired_def view_def outdated_def)
qed

lemma purge_count_0:
  assumes ok: "cent_ok c" and z: "purge_count now s c k = 0"
  shows "unexpired now c = view c"
proof (rule unexpired_all)
  have sh: "shape_ok c" using ok by (simp add: cent_ok_def)
  show "\<forall>j. \<not> outdated now c j"
  proof (cases "is_neg c")
    case True
    then show ?thesis using rr_neg [OF sh] by (simp add: outdated_def)
  next
    case False
    then have "num_purged now c = 0" using z by (simp add: purge_count_def)
    then have e: "card {j. rr c j \<noteq> None \<and> \<not> kept now c j} = 0" by (simp add: num_purged_def)
    have "{j. rr c j \<noteq> None \<and> \<not> kept now c j} \<subseteq> {..<length (slots c)}" using rr_bound [of c] by blast
    then have "finite {j. rr c j \<noteq> None \<and> \<not> kept now c j}" by (rule finite_subset) simp
    with e have "{j. rr c j \<noteq> None \<and> \<not> kept now c j} = {}" by simp
    then show ?thesis unfolding outdated_def by blast
  qed
qed

text \<open>The result of a lookup, for the state it was looked up in.\<close>

definition answer :: "int \<Rightarrow> cache \<Rightarrow> label list \<Rightarrow> bool \<Rightarrow> allocs \<Rightarrow> dns_cent option \<Rightarrow> wildness \<Rightarrow> bool" where
  "answer now s k wild al res w \<longleftrightarrow> w = snd (locate s k wild) \<and> (case fst (locate s k wild) of None \<Rightarrow> res = None
     | Some a \<Rightarrow> (case res of None \<Rightarrow> dead now (the (cents s a)) \<or> al \<noteq> []
         | Some c' \<Rightarrow> \<not> dead now (the (cents s a)) \<and> served now (the (cents s a)) c'))"

lemma lookup_cache_r_ok:
  assumes inv: "inv_but x s" and wf: "wf_name k"
  shows "ok (lookup_cache_r now (wire k @ r) wild s al) (\<lambda>(purge, res, w, al'). if purge then al' = al else answer now s k wild al res w)"
proof -
  obtain fa w where l: "locate s k wild = (fa, w)" by (cases "locate s k wild")
  note fe = find_entry_ok [OF inv wf, of r wild, unfolded l]
  show ?thesis
  proof (cases fa)
    case None
    then show ?thesis using fe l by (simp add: lookup_cache_r_def answer_def)
  next
    case (Some a)
    with l obtain c k' where c: "cents s a = Some c" "cent_ok c" "wf_name k'" "qname c = wire k'" using locate_entry [OF inv wf] by blast
    note pc = purge_cent_test [OF inv c(1,3,4), of now True]
    show ?thesis
    proof (cases "dead now c \<or> purge_count now s c k' \<noteq> 0")
      case True
      then have "lookup_cache_r now (wire k @ r) wild s al = Some (True, None, w, al)"
        using fe Some pc by (auto simp: lookup_cache_r_def)
      then show ?thesis by simp
    next
      case False
      from copy_ok [OF c(2), of al] obtain res al' where cp: "copy_cent c al = Some (res, al')" "al = [] \<longrightarrow> res \<noteq> None"
        "\<forall>ce. res = Some ce \<longrightarrow> cent_ok ce \<and> copy_of c ce" by (rule ok2E) blast
      have "lookup_cache_r now (wire k @ r) wild s al = Some (False, res, w, al')"
        using fe Some pc False c(1) cp(1) by (simp add: lookup_cache_r_def)
      moreover have "served now c ce" if "res = Some ce" for ce
        using copy_served [of c ce now c] cp(3) that c(2) purge_count_0 [OF c(2), of now s k'] False by simp
      ultimately show ?thesis using l Some c(1) cp(2) False by (auto simp: answer_def split: option.split)
    qed
  qed
qed

lemma purged_view_cent: "purged_cent now s k c c' \<Longrightarrow> view c' = unexpired now c \<and> is_neg c' = is_neg c \<and> qname c' = qname c"
  using purged_view [of now c c'] by (simp add: purged_cent_def shrink_def fresh_refs_fields)

lemma lookup_cache_rw_ok:
  assumes inv: "inv_but x s" and wf: "wf_name k"
  shows "ok (lookup_cache_rw now (wire k @ r) wild s al) (\<lambda>(res, w, s', al'). inv_but x s' \<and> answer now s k wild al res w)"
proof -
  obtain fa w where l: "locate s k wild = (fa, w)" by (cases "locate s k wild")
  note fe = find_entry_ok [OF inv wf, of r wild, unfolded l]
  show ?thesis
  proof (cases fa)
    case None
    then show ?thesis using fe l inv by (simp add: lookup_cache_rw_def answer_def)
  next
    case (Some a)
    with l obtain c k' where c: "cents s a = Some c" "cent_ok c" "wf_name k'" "qname c = wire k'" using locate_entry [OF inv wf] by blast
    from purge_cent_ok [OF inv c(1,3,4), of now True] obtain n s1 where p: "purge_cent now a True False s = Some (n, s1)" "inv_but x s1"
      "n = (if dead now c then - 1 else int (purge_count now s c k'))"
      "if dead now c then gone a c k' s s1 else \<exists>c'. changed a c c' s s1 \<and> purged_cent now s k' c c' \<and> cent_ok c'" by (rule ok2E) simp
    show ?thesis
    proof (cases "dead now c")
      case True
      then have "lookup_cache_rw now (wire k @ r) wild s al = Some (None, w, s1, al)" using fe Some p by (simp add: lookup_cache_rw_def)
      then show ?thesis using l Some c(1) True p(2) by (simp add: answer_def)
    next
      case False
      with p(4) obtain c1 where c1: "changed a c c1 s s1" "purged_cent now s k' c c1" "cent_ok c1" by auto
      have a1: "cents s1 a = Some c1" using c1(1) by (simp add: changed_def)
      from copy_ok [OF c1(3), of al] obtain res al' where cp: "copy_cent c1 al = Some (res, al')" "al = [] \<longrightarrow> res \<noteq> None"
        "\<forall>ce. res = Some ce \<longrightarrow> cent_ok ce \<and> copy_of c1 ce" by (rule ok2E) blast
      have "lookup_cache_rw now (wire k @ r) wild s al = Some (res, w, s1, al')"
        using fe Some p False a1 cp(1) by (simp add: lookup_cache_rw_def)
      moreover have "served now c ce" if "res = Some ce" for ce
        using copy_served [OF c1(3), of ce now c] cp(3) that purged_view_cent [OF c1(2)] by simp
      ultimately show ?thesis using l Some c(1) cp(2) False p(2) by (auto simp: answer_def split: option.split)
    qed
  qed
qed

lemma lookup_cache_ok:
  assumes inv: "inv_but x s" "inv_but x (env s)" and wf: "wf_name k"
  shows "ok (lookup_cache now env (wire k @ r) wild s al) (\<lambda>(res, w, s', al'). inv_but x s' \<and>
    (answer now s k wild al res w \<or> answer now (env s) k wild al res w))"
proof -
  from lookup_cache_r_ok [OF inv(1) wf, of now r wild al] obtain pg res w al' where
    1: "lookup_cache_r now (wire k @ r) wild s al = Some (pg, res, w, al')" "if pg then al' = al else answer now s k wild al res w" by (rule ok4E)
  show ?thesis
  proof (cases pg)
    case False
    then show ?thesis using 1 inv(1) by (simp add: lookup_cache_def)
  next
    case True
    from lookup_cache_rw_ok [OF inv(2) wf, of now r wild al'] show ?thesis
      using 1 True by (auto simp: lookup_cache_def elim!: ok_mono)
  qed
qed

section \<open>Invalidating, flags and owners\<close>

definition invalid :: "rr_set \<Rightarrow> rr_set" where
  "invalid rs = rs\<lparr>ts := 0, flags := flags rs AND NOT CF_AUTH\<rparr>"

definition invalidating :: "nat \<Rightarrow> rr_lent set \<Rightarrow> rrl \<Rightarrow> dns_cent \<Rightarrow> nat \<Rightarrow> dns_cent \<Rightarrow> bool" where
  "invalidating a F l c n c' \<longleftrightarrow> cent_ok c' \<and> linked F a c' l \<and> meta c c' \<and> cs c' = cs c \<and> num_rrs c' = num_rrs c \<and> cflags c' = cflags c \<and>
     length (slots c') = length (slots c) \<and> rr c' = (\<lambda>j. if j < n then map_option invalid (rr c j) else rr c j)"

lemma invalidate_loop:
  assumes ok: "cent_ok c" and l: "linked F a c l"
  shows "ok (foldM invalidate_step [0..<length (slots c)] c) (invalidating a F l c (length (slots c)))"
proof (rule foldM_upt [where P = "invalidating a F l c"])
  show "invalidating a F l c 0 c" using ok l meta_refl by (simp add: invalidating_def)
  fix n c1 assume n: "n < length (slots c)" and "invalidating a F l c n c1"
  then have 1: "cent_ok c1" "linked F a c1 l" "meta c c1" "cs c1 = cs c" "num_rrs c1 = num_rrs c" "cflags c1 = cflags c"
    "length (slots c1) = length (slots c)" "rr c1 = (\<lambda>j. if j < n then map_option invalid (rr c j) else rr c j)" unfolding invalidating_def by blast+
  have sh: "shape_ok c1" using 1(1) by (simp add: cent_ok_def)
  have R: "RRARR_INDEX c1 n = Some (rr c n)" using RRARR_INDEX_eq [OF sh, of n] n 1(7,8) by simp
  show "ok (invalidate_step n c1) (invalidating a F l c (Suc n))"
  proof (cases "rr c n")
    case None
    then have "rr c1 = (\<lambda>j. if j < Suc n then map_option invalid (rr c j) else rr c j)" unfolding 1(8) by (auto simp: fun_eq_iff less_Suc_eq)
    then show ?thesis using R None 1 by (simp add: invalidate_step_def invalidating_def)
  next
    case (Some rs)
    have rs: "rr c1 n = Some rs" using 1(8) Some by simp
    have e: "lent (invalid rs) = lent rs" "rrset_size (invalid rs) = rrset_size rs + 0" by (simp_all add: invalid_def rrset_size_def)
    obtain c2 where c2: "RRARR_set c1 n (Some (invalid rs)) = Some c2" "cent_ok (c2\<lparr>cs := cs c2 + 0\<rparr>)" "linked F a (c2\<lparr>cs := cs c2 + 0\<rparr>) l"
      "rr (c2\<lparr>cs := cs c2 + 0\<rparr>) = (rr c1)(n := Some (invalid rs))" "qname c2 = qname c1" "cflags c2 = cflags c1" "c_ns c2 = c_ns c1" "c_soa c2 = c_soa c1"
      "length (slots c2) = length (slots c1)" using set_rrset_ok [OF 1(1,2) rs e] by metis
    have id: "c2\<lparr>cs := cs c2 + 0\<rparr> = c2" by simp
    have "rr c2 = (\<lambda>j. if j < Suc n then map_option invalid (rr c j) else rr c j)"
      using c2(4) Some unfolding id 1(8) by (auto simp: fun_eq_iff less_Suc_eq)
    moreover have "meta c c2" by (rule meta_trans [OF 1(3) flags_meta]) (use c2 in simp_all)
    moreover note RRARR_set_fields [OF c2(1)]
    ultimately have "invalidating a F l c (Suc n) c2" using c2(2,3,6,9) 1 unfolding id by (simp add: invalidating_def)
    then show ?thesis using R Some c2(1) by (simp add: invalidate_step_def invalid_def)
  qed
qed

text \<open>The effect on the entry.\<close>

definition invalidated :: "dns_cent \<Rightarrow> dns_cent \<Rightarrow> bool" where
  "invalidated c c' \<longleftrightarrow> rr c' = (\<lambda>j. map_option invalid (rr c j)) \<and> cflags c' = cflags c AND NOT DF_AUTH \<and> is_neg c' = is_neg c \<and>
     (is_neg c \<longrightarrow> neg_ts (body c') = 0 \<and> neg_ttl (body c') = neg_ttl (body c))"

lemma upd_entry_ok:
  assumes inv: "inv_but x s" and a: "cents s a = Some c" and c': "cent_ok c'" "linked (all_nodes ((cents s)(a := None))) a c' (rrset_l s)"
      "qname c' = qname c" "cs c' = cs c"
  shows "inv_but x (s\<lparr>cents := (cents s)(a \<mapsto> c')\<rparr>)" "same_table s (s\<lparr>cents := (cents s)(a \<mapsto> c')\<rparr>)"
proof -
  have co: "core s" using inv by (rule inv_but_core)
  have t: "touch a c' s (s\<lparr>cents := (cents s)(a \<mapsto> c')\<rparr>)" using touchI_sub [OF co a c'(1-3)] by simp
  then show st: "same_table s (s\<lparr>cents := (cents s)(a \<mapsto> c')\<rparr>)" by (simp add: touch_def)
  have fin: "finite (dom (cents s))" using co by (simp add: core_def)
  show "inv_but x (s\<lparr>cents := (cents s)(a \<mapsto> c')\<rparr>)"
    by (rule inv_same [OF inv touch_entry(3) [OF t] st])
      (use total_upd [OF fin, of a c'] total_split [OF fin a] c'(4) in simp)
qed

lemma invalidate_record_ok:
  assumes inv: "inv_but x s" and wf: "wf_name k"
  shows "ok (invalidate_record (wire k @ r) s) (\<lambda>s'. inv_but x s' \<and> (case found s k of None \<Rightarrow> s' = s
    | Some a \<Rightarrow> same_table s s' \<and> (\<exists>c'. cents s' = (cents s)(a \<mapsto> c') \<and> invalidated (the (cents s a)) c')))"
proof -
  obtain loc where l: "lookup s (wire k @ r) = Some (found s k, loc)" using lookup_found [OF inv_but_table [OF inv] wf] by blast
  show ?thesis
  proof (cases "found s k")
    case None
    then show ?thesis using l inv by (simp add: invalidate_record_def)
  next
    case (Some a)
    then obtain c where c: "cents s a = Some c" "cent_ok c" using found_entry [OF inv] by blast
    have sh: "shape_ok c" using c(2) by (simp add: cent_ok_def)
    note lk = core_linked(1) [OF inv_but_core [OF inv] c(1)]
    let ?F = "all_nodes ((cents s)(a := None))" let ?l = "rrset_l s"
    have "\<exists>c1. (if \<not> is_neg c then do { ilim \<leftarrow> RRARR_LEN c; foldM invalidate_step [0..<ilim] c }
        else (case body c of RR _ _ \<Rightarrow> None | Neg le t _ \<Rightarrow> Some (c\<lparr>body := Neg le t 0\<rparr>))) = Some c1 \<and> cent_ok c1 \<and> linked ?F a c1 ?l \<and>
        qname c1 = qname c \<and> cs c1 = cs c \<and> num_rrs c1 = num_rrs c \<and> rr c1 = (\<lambda>j. map_option invalid (rr c j)) \<and> cflags c1 = cflags c \<and>
        (is_neg c \<longrightarrow> neg_ts (body c1) = 0 \<and> neg_ttl (body c1) = neg_ttl (body c))"
    proof (cases "is_neg c")
      case False
      from invalidate_loop [OF c(2) lk] obtain c1 where c1: "foldM invalidate_step [0..<length (slots c)] c = Some c1"
        "invalidating a ?F ?l c (length (slots c)) c1" by (rule okE)
      have "(\<lambda>j. if j < length (slots c) then map_option invalid (rr c j) else rr c j) = (\<lambda>j. map_option invalid (rr c j))"
        by (auto simp: fun_eq_iff rr_def)
      then show ?thesis using False c1 RRARR_LEN_slots [OF sh] by (intro exI [of _ c1]) (simp add: invalidating_def meta_def)
    next
      case True
      obtain le t u where b: "body c = Neg le t u" using shape_Neg [OF sh True] .
      let ?c = "c\<lparr>body := Neg le t 0\<rparr>"
      have "nodes a ?c = nodes a c" using b by (simp add: nodes_def)
      then have "linked ?F a ?c ?l" using lk by (simp add: linked_def)
      moreover have "cent_ok ?c" using c(2) b by (simp add: cent_ok_def shape_ok_def is_neg_def ext_size_def tot_def slots_def)
      moreover have "rr ?c = (\<lambda>j. map_option invalid (rr c j))" using b by (simp add: rr_def slots_def fun_eq_iff)
      ultimately show ?thesis using True b by (intro exI [of _ ?c]) simp
    qed
    then obtain c1 where c1: "(if \<not> is_neg c then do { ilim \<leftarrow> RRARR_LEN c; foldM invalidate_step [0..<ilim] c }
        else (case body c of RR _ _ \<Rightarrow> None | Neg le t _ \<Rightarrow> Some (c\<lparr>body := Neg le t 0\<rparr>))) = Some c1" "cent_ok c1" "linked ?F a c1 ?l"
        "qname c1 = qname c" "cs c1 = cs c" "num_rrs c1 = num_rrs c" "rr c1 = (\<lambda>j. map_option invalid (rr c j))" "cflags c1 = cflags c"
        "is_neg c \<longrightarrow> neg_ts (body c1) = 0 \<and> neg_ttl (body c1) = neg_ttl (body c)" by blast
    let ?c = "c1\<lparr>cflags := cflags c1 AND NOT DF_AUTH\<rparr>" let ?s = "s\<lparr>cents := (cents s)(a \<mapsto> ?c)\<rparr>"
    have n: "is_neg ?c = is_neg c1" "is_neg c1 = is_neg c" using c1(8) has_clear_other by (simp_all add: is_neg_def)
    have ok: "cent_ok ?c" by (rule cent_ok_body [OF c1(2)]) (use n in simp_all)
    have "linked ?F a ?c ?l" using c1(3) nodes_body(1) [of ?c c1 a] by (simp add: linked_def)
    note u = upd_entry_ok [OF inv c(1) ok this]
    have "invalidated c ?c" using c1 n rr_body [of ?c c1] by (simp add: invalidated_def)
    moreover have "invalidate_record (wire k @ r) s = Some ?s" using l Some c(1) c1(1) by (simp add: invalidate_record_def)
    ultimately show ?thesis using u c1(4,5) Some c(1) by auto
  qed
qed

lemma set_cent_flags_ok:
  assumes inv: "inv_but x s" and wf: "wf_name k" and fl: "DF_NEGATIVE AND fl = 0"
  shows "ok (set_cent_flags (wire k @ r) fl s) (\<lambda>(b, s'). inv_but x s' \<and> b = (found s k \<noteq> None) \<and> (case found s k of None \<Rightarrow> s' = s
    | Some a \<Rightarrow> s' = s\<lparr>cents := (cents s)(a \<mapsto> (the (cents s a))\<lparr>cflags := cflags (the (cents s a)) OR fl\<rparr>)\<rparr>))"
proof -
  obtain loc where l: "lookup s (wire k @ r) = Some (found s k, loc)" using lookup_found [OF inv_but_table [OF inv] wf] by blast
  show ?thesis
  proof (cases "found s k")
    case None
    then show ?thesis using l inv by (simp add: set_cent_flags_def)
  next
    case (Some a)
    then obtain c where c: "cents s a = Some c" using found_entry [OF inv] by blast
    have "is_neg (c\<lparr>cflags := cflags c OR fl\<rparr>) = is_neg c" using or_fields [OF fl] by (simp add: is_neg_def)
    from upd_fields_ok(1) [OF inv c _ _ _ _ this refl] show ?thesis using l Some c by (simp add: set_cent_flags_def)
  qed
qed

end
