(* ===== verification/CacheProps.thy ===== *)
theory CacheProps
  imports CacheLookup
begin

text \<open>
  The properties of the cache as its clients see it, stated on the abstract content: a map from names (up to case) to the
  record sets stored for them, without list nodes and addresses.
\<close>

section \<open>The abstract content\<close>

definition content :: "cache \<Rightarrow> label list \<Rightarrow> (bool \<times> rrview) option" where
  "content s k = (case found s k of None \<Rightarrow> None
     | Some a \<Rightarrow> Some (has (cflags (the (cents s a))) DF_LOCAL, view (the (cents s a))))"

definition live_rrs :: "int \<Rightarrow> rrview \<Rightarrow> rrview" where
  "live_rrs now V i = (case V i of None \<Rightarrow> None | Some rs \<Rightarrow> if purgeable now rs then None else Some rs)"

definition fresh_content :: "globparm \<Rightarrow> dns_cent \<Rightarrow> bool \<times> rrview" where
  "fresh_content g cent = (has (cflags cent) DF_LOCAL, \<lambda>i. fresh_set g (rr cent i))"

text \<open>Adding an entry, abstractly.\<close>

definition abs_add :: "globparm \<Rightarrow> int \<Rightarrow> dns_cent \<Rightarrow> (bool \<times> rrview) option \<Rightarrow> (bool \<times> rrview) option" where
  "abs_add g now cent e = (case e of
     None \<Rightarrow> if num_rrs cent = 0 \<and> \<not> is_neg cent then None else Some (fresh_content g cent)
   | Some (dl, V) \<Rightarrow>
       if is_neg cent then (if \<exists>i. is_local (V i) then Some (dl, V) else Some (fresh_content g cent))
       else Some (dl, merge_sets g now dl (rr cent) [0..<length (slots cent)] (live_rrs now V)))"

lemma unexpired_live: "unexpired now c = live_rrs now (view c)"
proof
  fix i show "unexpired now c i = live_rrs now (view c) i"
    by (cases "rr c i") (simp_all add: unexpired_def live_rrs_def view_def kept_def purgeable_def timedout_def)
qed

lemma found_fold: "fold_name k = fold_name k' \<Longrightarrow> found s k = found s k'"
  using name_hash_case [of k k'] by (simp add: found_def hash_find_def named_def)

lemma content_fold: "fold_name k = fold_name k' \<Longrightarrow> content s k = content s k'"
  by (simp add: content_def found_fold [of k k' s])

lemma content_same: "same_table s s' \<Longrightarrow> cents s' = cents s \<Longrightarrow> content s' = content s"
  by (rule ext) (simp add: content_def same_table_found split: option.split)

lemma same_entry_name:
  assumes inv: "inv_but x s" and a: "found s k = Some a" "found s k' = Some a"
  shows "fold_name k = fold_name k'"
proof -
  have "named (qn s) a k" "named (qn s) a k'" using hash_find_in(2) [OF inv_but_table [OF inv]] a by (simp_all add: found_def)
  then show ?thesis by (rule named_same)
qed

text \<open>Evicting leaves the place of an entry unless it is deleted.\<close>

lemma survives_found:
  assumes inv: "inv_but x s" "inv_but x s'" and sv: "survives E K s s'" and a: "found s k = Some a" "cents s' a = Some c'"
  shows "found s' k = Some a"
proof -
  obtain c k1 where c: "cents s a = Some c" "cent_ok c" "wf_name k1" "qname c = wire k1" "fold_name k = fold_name k1" using named_found [OF inv(1) a(1)] .
  have "shrink c c'" using sv a(2) c(1) unfolding survives_def by (metis option.sel)
  then have "qn s' a = Some (wire k1)" using a(2) c(4) by (simp add: qn_def shrink_def)
  then have "found s' k1 = Some a" using find_own [OF inv_but_table [OF inv(2)] _ _ c(3)] a(2) unfolding found_def by blast
  then show ?thesis using found_fold [OF c(5)] by simp
qed

section \<open>Adding refines the abstract operation\<close>

lemma is_local_bound: "shape_ok c \<Longrightarrow> is_local (rr c i) \<Longrightarrow> i < NRRTOT"
  using rr_bound [of c i] slots_le [of c] by (auto simp: is_local_def split: option.splits)

lemma content_eq:
  assumes "found s1 k = found s k" and "\<And>b. found s k = Some b \<Longrightarrow> cents s1 b = cents s b"
  shows "content s1 k = content s k"
  using assms by (cases "found s k") (simp_all add: content_def)

lemma content_added:
  assumes inv: "inv_but x s" and ad: "added a c k s s1" and k': "wf_name k'"
  shows "content s1 k' = (if fold_name k' = fold_name k then Some (has (cflags c) DF_LOCAL, view c) else content s k')"
proof (cases "fold_name k' = fold_name k")
  case True
  then show ?thesis using ad k' by (simp add: content_def added_def)
next
  case False
  have "content s1 k' = content s k'"
  proof (rule content_eq)
    show "found s1 k' = found s k'" using ad k' False by (simp add: added_def)
    fix b assume "found s k' = Some b"
    then have "cents s b \<noteq> None" using found_entry [OF inv] by (metis option.distinct(1))
    then show "cents s1 b = cents s b" using ad by (auto simp: added_def)
  qed
  with False show ?thesis by simp
qed

lemma content_renamed:
  assumes inv: "inv_but x s" and a: "found s k = Some a" and rn: "renamed a a' c k s s1" and a': "a' = a \<or> cents s a' = None" and k': "wf_name k'"
  shows "content s1 k' = (if fold_name k' = fold_name k then Some (has (cflags c) DF_LOCAL, view c) else content s k')"
proof (cases "fold_name k' = fold_name k")
  case True
  then show ?thesis using rn k' by (simp add: content_def renamed_def)
next
  case False
  have "content s1 k' = content s k'"
  proof (rule content_eq)
    show "found s1 k' = found s k'" using rn k' False by (simp add: renamed_def)
    fix b assume b: "found s k' = Some b"
    then have "cents s b \<noteq> None" using found_entry [OF inv] by (metis option.distinct(1))
    moreover have "b \<noteq> a" using same_entry_name [OF inv, of k' b k] b a False by auto
    ultimately show "cents s1 b = cents s b" using rn a' by (auto simp: renamed_def)
  qed
  with False show ?thesis by simp
qed

lemma content_upd:
  assumes inv: "inv_but x s" and a: "found s k = Some a" and st: "same_table s s1" and c: "cents s1 = (cents s)(a \<mapsto> c)" and k': "wf_name k'"
  shows "content s1 k' = (if fold_name k' = fold_name k then Some (has (cflags c) DF_LOCAL, view c) else content s k')"
proof (cases "fold_name k' = fold_name k")
  case True
  then have "found s1 k' = Some a" using found_fold [OF True] a same_table_found [OF st] by simp
  then show ?thesis using True c by (simp add: content_def)
next
  case False
  have "content s1 k' = content s k'"
  proof (rule content_eq)
    show "found s1 k' = found s k'" using same_table_found [OF st] by simp
    fix b assume "found s k' = Some b"
    then have "b \<noteq> a" using same_entry_name [OF inv, of k' b k] a False by auto
    then show "cents s1 b = cents s b" using c by simp
  qed
  with False show ?thesis by simp
qed

lemma new_content: "new_entry g cent c \<Longrightarrow> (has (cflags c) DF_LOCAL, view c) = fresh_content g cent"
  by (simp add: new_entry_def fresh_content_def)

lemma content_outcome:
  assumes inv: "inv_but 0 s" and out: "add_outcome g now cent k True s s1" and k': "wf_name k'"
  shows "content s1 k' = (if fold_name k' = fold_name k then abs_add g now cent (content s k) else content s k')"
proof (cases "found s k")
  case None
  then have "content s k = None" by (simp add: content_def)
  moreover have "content s k' = None" if "fold_name k' = fold_name k" using content_fold [OF that, of s] \<open>content s k = None\<close> by simp
  ultimately show ?thesis
    using out None content_added [OF inv _ k'] new_content by (auto simp: add_outcome_def abs_add_def split: if_splits)
next
  case (Some a)
  let ?c = "the (cents s a)" let ?dl = "has (cflags ?c) DF_LOCAL"
  have ct: "content s k = Some (?dl, view ?c)" using Some by (simp add: content_def)
  have same: "fold_name k' = fold_name k \<Longrightarrow> content s k' = content s k" using content_fold by blast
  have loc: "(\<exists>i. is_local (view ?c i)) = (\<exists>i. is_local (rr ?c i))" by (simp add: is_local_view)
  show ?thesis
  proof (cases "is_neg cent")
    case True
    show ?thesis
    proof (cases "\<exists>i. is_local (rr ?c i)")
      case l: True
      then have "s1 = s" using out Some True by (simp add: add_outcome_def)
      then show ?thesis using same ct l loc True by (simp add: abs_add_def)
    next
      case False
      then obtain a' c' where r: "renamed a a' c' k s s1" "new_entry g cent c'" using out Some True by (auto simp: add_outcome_def)
      then have "a' = a \<or> cents s a' = None" by (simp add: renamed_def)
      then show ?thesis using content_renamed [OF inv Some r(1) _ k'] new_content [OF r(2)] ct False loc True by (simp add: abs_add_def)
    qed
  next
    case False
    then obtain c' where c': "same_table s s1" "cents s1 = (cents s)(a \<mapsto> c')" "has (cflags c') DF_LOCAL = ?dl"
      "view c' = merge_sets g now ?dl (rr cent) [0..<length (slots cent)] (unexpired now ?c)" using out Some by (auto simp: add_outcome_def Let_def)
    then show ?thesis using content_upd [OF inv Some c'(1,2) k'] ct False unexpired_live by (simp add: abs_add_def)
  qed
qed

text \<open>Evicting removes record sets and entries that are not local.\<close>

definition evicted :: "(bool \<times> rrview) option \<Rightarrow> (bool \<times> rrview) option \<Rightarrow> bool" where
  "evicted e e' \<longleftrightarrow> (case e of None \<Rightarrow> e' = None
     | Some (dl, V) \<Rightarrow> (case e' of None \<Rightarrow> \<not> dl \<and> (\<forall>i. \<not> is_local (V i))
       | Some (dl', V') \<Rightarrow> dl' = dl \<and> (\<forall>i. V' i = V i \<or> V' i = None \<and> \<not> dl \<and> \<not> is_local (V i))))"

lemma evicted_refl: "evicted e e"
  by (simp add: evicted_def split: option.split)

lemma survives_back:
  assumes inv: "inv_but x s" "inv_but x s'" and sv: "survives E K s s'" and b: "found s' k = Some b"
  shows "found s k = Some b"
proof -
  obtain c' k1 where c': "cents s' b = Some c'" "wf_name k1" "qname c' = wire k1" "fold_name k = fold_name k1" using named_found [OF inv(2) b] by metis
  obtain c where c: "cents s b = Some c" "shrink c c'" using sv c'(1) unfolding survives_def by blast
  then have "qn s b = Some (wire k1)" using c'(3) by (simp add: qn_def shrink_def)
  then have "found s k1 = Some b" using find_own [OF inv_but_table [OF inv(1)] _ _ c'(2)] c(1) unfolding found_def by blast
  then show ?thesis using found_fold [OF c'(4), of s] by simp
qed

lemma survives_evicted:
  assumes inv: "inv_but x s" "inv_but x s'" and sv: "survives has_local local_rr s s'"
  shows "evicted (content s k) (content s' k)"
proof (cases "found s k")
  case None
  then have "found s' k = None" using survives_back [OF inv sv, of k] by (cases "found s' k") auto
  then show ?thesis using None by (simp add: content_def evicted_def)
next
  case (Some a)
  obtain c where c: "cents s a = Some c" using named_found [OF inv(1) Some] by metis
  show ?thesis
  proof (cases "cents s' a")
    case None
    have "found s' k = None"
    proof (cases "found s' k")
      case b: (Some b)
      then have "b = a" using survives_back [OF inv sv b] Some by simp
      then show ?thesis using named_found [OF inv(2) b] None by (metis option.distinct(1))
    qed
    moreover have "\<not> has_local c" using sv c None unfolding survives_def by blast
    then have "\<not> has (cflags c) DF_LOCAL" "\<not> is_local (rr c i)" for i
      by (auto simp: has_local_def local_rr_def is_local_def split: option.splits)
    ultimately show ?thesis using Some c by (simp add: content_def evicted_def is_local_view)
  next
    case c': (Some c')
    have f: "found s' k = Some a" by (rule survives_found [OF inv sv Some c'])
    have sh: "shrink c c'" and K: "\<forall>i. local_rr c i \<longrightarrow> rr c' i = rr c i" using sv c c' unfolding survives_def by (metis option.sel)+
    have "view c' i = view c i \<or> view c' i = None \<and> \<not> has (cflags c) DF_LOCAL \<and> \<not> is_local (view c i)" for i
    proof (cases "local_rr c i")
      case False
      then have "rr c i = None \<or> \<not> has (cflags c) DF_LOCAL \<and> \<not> is_local (rr c i)"
        by (auto simp: local_rr_def is_local_def split: option.splits)
      moreover have "rr c' i = rr c i \<or> rr c' i = None" using sh by (simp add: shrink_def)
      ultimately show ?thesis unfolding is_local_view by (auto simp: view_def)
    qed (simp add: K view_def)
    then show ?thesis using Some c f c' shrink_local [OF sh] by (simp add: content_def evicted_def)
  qed
qed

section \<open>What adding keeps\<close>

lemma has_adjust: "has (flags (adjust_ttl g rs)) CF_NEGATIVE = has (flags rs) CF_NEGATIVE"
proof -
  have "has (f AND NOT CF_NOCACHE) CF_NEGATIVE = has f CF_NEGATIVE" for f
    by (rule has_clear_disjoint) (simp add: CF_NOCACHE_def CF_NEGATIVE_def)
  then show ?thesis by (simp add: adjust_ttl_def Let_def)
qed

definition no_local :: "rrview \<Rightarrow> bool" where
  "no_local N \<longleftrightarrow> (\<forall>i. \<not> is_local (N i))"

lemma merge_set_local:
  assumes "\<not> has (flags new) CF_LOCAL" and "is_local (V j)" and "j < NRRTOT"
  shows "merge_set g now dl i new V j = V j"
proof (cases "precedes now new (V i)")
  case False
  have ij: "i \<noteq> j"
  proof
    assume "i = j"
    then have "precedes now new (V i)" using assms by (auto simp: precedes_def old_precedes_def is_local_def split: option.splits)
    with False show False ..
  qed
  let ?V = "V(i := None)"
  have "\<not> conflicting i ?V j" if "accepts now dl ?V i (ttl new) (flags new)" "\<not> has (flags new) CF_NEGATIVE"
    using that assms ij by (auto simp: accepts_def conflicts_def)
  then show ?thesis using False ij by (auto simp: merge_set_def displace_def Let_def)
qed (simp add: merge_set_def)

lemma merge_sets_local:
  assumes "no_local N" and "j < NRRTOT"
  shows "is_local (V j) \<Longrightarrow> merge_sets g now dl N is V j = V j"
proof (induction "is" arbitrary: V)
  case (Cons i "is")
  have "(case N i of None \<Rightarrow> V | Some new \<Rightarrow> merge_set g now dl i new V) j = V j"
  proof (cases "N i")
    case (Some new)
    then have "\<not> has (flags new) CF_LOCAL" using assms(1) by (auto simp: no_local_def is_local_def split: option.splits dest: spec [of _ i])
    then show ?thesis using merge_set_local [of new V j g now dl i] Cons.prems assms(2) Some by simp
  qed simp
  then show ?case using Cons.IH [of "case N i of None \<Rightarrow> V | Some new \<Rightarrow> merge_set g now dl i new V"] Cons.prems by simp
qed simp

lemma cut_off_local:
  assumes "no_local N" and "j < NRRTOT" and "is_local (V j)" and "cut_off g now dl N is V V'"
  shows "V' j = V j"
proof -
  obtain is1 i is2 new where c: "N i = Some new" "\<not> precedes now new (merge_sets g now dl N is1 V i)"
    "V' = (merge_set g now dl i new (merge_sets g now dl N is1 V))(i := None)" using assms(4) unfolding cut_off_def by blast
  have nl: "\<not> has (flags new) CF_LOCAL" using assms(1) c(1) by (auto simp: no_local_def is_local_def split: option.splits dest: spec [of _ i])
  note m = merge_sets_local [where V = V, OF assms(1,2,3), of g now dl is1]
  have "i \<noteq> j"
  proof
    assume "i = j"
    then have "precedes now new (merge_sets g now dl N is1 V i)"
      using nl assms(3) m by (auto simp: precedes_def old_precedes_def is_local_def split: option.splits)
    with c(2) show False ..
  qed
  moreover have "merge_set g now dl i new (merge_sets g now dl N is1 V) j = V j" using merge_set_local [of new "merge_sets g now dl N is1 V" j g now dl i] nl assms(2) m assms(3) by simp
  ultimately show ?thesis using c(3) by simp
qed

text \<open>No two record sets of an entry contradict each other, as an alias and other data would.\<close>

definition compatible :: "rrview \<Rightarrow> bool" where
  "compatible V \<longleftrightarrow> (\<forall>i < NRRTOT. \<forall>j < NRRTOT. i \<noteq> j \<longrightarrow> V i \<noteq> None \<longrightarrow> conflicting i V j \<longrightarrow> has (flags (the (V i))) CF_NEGATIVE)"

lemma compatible_sub:
  assumes "compatible V" and "\<And>i. V' i = V i \<or> V' i = None"
  shows "compatible V'"
  unfolding compatible_def
proof (intro allI impI)
  fix i j assume h: "i < NRRTOT" "j < NRRTOT" "i \<noteq> j" "V' i \<noteq> None" "conflicting i V' j"
  then have e: "V' i = V i" "V' j = V j" using assms(2) [of i] assms(2) [of j] by (auto simp: conflicting_def)
  then have "conflicting i V j" using h(5) by (simp add: conflicting_def)
  then show "has (flags (the (V' i))) CF_NEGATIVE" using assms(1) h e by (auto simp: compatible_def)
qed

lemma compatible_put:
  assumes V: "compatible V" and n: "V i = None" "has (flags rs) CF_NEGATIVE \<or> (\<forall>j < NRRTOT. \<not> conflicting i V j)"
  shows "compatible (V(i := Some rs))"
  unfolding compatible_def
proof (intro allI impI)
  fix a b assume h: "a < NRRTOT" "b < NRRTOT" "a \<noteq> b" "(V(i := Some rs)) a \<noteq> None" "conflicting a (V(i := Some rs)) b"
  show "has (flags (the ((V(i := Some rs)) a))) CF_NEGATIVE"
  proof (cases "a = i")
    case True
    then have "conflicting i V b" using h by (simp add: conflicting_def)
    then show ?thesis using n(2) h True by auto
  next
    case a: False
    then have Va: "V a \<noteq> None" using h(4) by simp
    show ?thesis
    proof (cases "b = i")
      case False
      then have "conflicting a V b" using h(5) by (simp add: conflicting_def)
      then show ?thesis using V h(1-3) a Va by (simp add: compatible_def)
    next
      case True
      then have "\<not> has (flags rs) CF_NEGATIVE" "rr_conflict a i" using h(5) by (simp_all add: conflicting_def)
      moreover have "\<not> conflicting i V a" using n(2) calculation(1) h(1) by blast
      ultimately have "has (flags (the (V a))) CF_NEGATIVE" using Va rr_conflict_sym [of a i] by (auto simp: conflicting_def)
      then show ?thesis using a by simp
    qed
  qed
qed

lemma merge_set_compatible:
  assumes "compatible V"
  shows "compatible (merge_set g now dl i new V)"
proof (cases "precedes now new (V i)")
  case False
  let ?V = "V(i := None)" let ?n = "(adjust_ttl g new)\<lparr>lent := None\<rparr>"
  have V: "compatible ?V" by (rule compatible_sub [OF assms]) simp
  show ?thesis
  proof (cases "accepts now dl ?V i (ttl new) (flags new)")
    case True
    let ?D = "displace ?V i (flags new)"
    have D: "compatible ?D" by (rule compatible_sub [OF V]) (simp add: displace_def)
    have "has (flags ?n) CF_NEGATIVE \<or> (\<forall>j < NRRTOT. \<not> conflicting i ?D j)"
      using has_adjust by (auto simp: displace_def conflicting_def)
    moreover have "?D i = None" by (simp add: displace_def)
    ultimately have "compatible (?D(i := Some ?n))" using compatible_put [OF D] by blast
    then show ?thesis using False True by (simp add: merge_set_def)
  qed (use False V in \<open>simp add: merge_set_def\<close>)
qed (simp add: merge_set_def assms)

lemma merge_sets_compatible: "compatible V \<Longrightarrow> compatible (merge_sets g now dl N is V)"
  by (induction "is" arbitrary: V) (auto simp: merge_set_compatible split: option.split)

lemma cut_off_compatible:
  assumes "compatible V" and "cut_off g now dl N is V V'"
  shows "compatible V'"
proof -
  obtain is1 i new where "V' = (merge_set g now dl i new (merge_sets g now dl N is1 V))(i := None)" using assms(2) unfolding cut_off_def by blast
  moreover have "compatible (merge_set g now dl i new (merge_sets g now dl N is1 V))"
    by (rule merge_set_compatible [OF merge_sets_compatible [OF assms(1)]])
  ultimately show ?thesis using compatible_sub by (metis fun_upd_apply)
qed

lemma fresh_compatible:
  assumes "compatible N"
  shows "compatible (\<lambda>i. fresh_set g (N i))"
  unfolding compatible_def
proof (intro allI impI)
  fix i j assume h: "i < NRRTOT" "j < NRRTOT" "i \<noteq> j" "fresh_set g (N i) \<noteq> None" "conflicting i (\<lambda>i. fresh_set g (N i)) j"
  then have "N i \<noteq> None" "conflicting i N j" by (auto simp: fresh_set_def conflicting_def has_adjust split: option.splits)
  then have "has (flags (the (N i))) CF_NEGATIVE" using assms h by (auto simp: compatible_def)
  then show "has (flags (the (fresh_set g (N i)))) CF_NEGATIVE" using \<open>N i \<noteq> None\<close> by (auto simp: fresh_set_def has_adjust)
qed

section \<open>An example\<close>

lemma init_cache_inv: "cache_inv init_cache"
  by (simp add: cache_inv_def core_def table_def init_cache_def all_nodes_def total_cs_def qn_def mk_dns_hash_inv)
    (simp add: mk_dns_hash_def)

lemma init_cache_content: "content init_cache k = None"
  by (simp add: content_def found_def init_cache_def mk_dns_hash_find)

text \<open>An entry with one record, as the configuration file defines them for local names; and one from a server.\<close>

definition sample_rrset :: "16 word \<Rightarrow> rr_set" where
  "sample_rrset fl = \<lparr>lent = None, ttl = 86400, ts = 1000, flags = fl, rrs = [[127, 0, 0, 1]]\<rparr>"

definition sample_cent :: "16 word \<Rightarrow> dns_cent" where
  "sample_cent fl = \<lparr>qname = wire [[97]], cs = 167, num_rrs = 1, cflags = 0,
     body = RR [Some (sample_rrset fl), None, None, None, None, None, None, None] None, c_ns = cundef, c_soa = cundef\<rparr>"

definition sample_parms :: globparm where
  "sample_parms = \<lparr>perm_cache = 100, min_ttl = 120, max_ttl = 604800, neg_ttl_g = 900\<rparr>"

lemma sample_name: "wf_name [[97]]" "qname (sample_cent fl) = wire [[97]]"
  by (simp_all add: wf_name_def wf_label_def sample_cent_def DNSNAMEBUFSIZE_def)

lemma sample_ok: "cent_ok (sample_cent fl)" "\<not> is_neg (sample_cent fl)" "slots (sample_cent fl) = [Some (sample_rrset fl), None, None, None, None, None, None, None]"
proof -
  show n: "\<not> is_neg (sample_cent fl)" by (simp add: is_neg_def has_def sample_cent_def)
  show s: "slots (sample_cent fl) = [Some (sample_rrset fl), None, None, None, None, None, None, None]" by (simp add: slots_def sample_cent_def)
  have "shape_ok (sample_cent fl)" using n by (simp add: shape_ok_def sample_cent_def NRRMU_def)
  moreover have "\<exists>ls. wf_name ls \<and> qname (sample_cent fl) = wire ls" using sample_name by blast
  ultimately show "cent_ok (sample_cent fl)" unfolding cent_ok_def tot_def s
    by (simp add: sample_cent_def sample_rrset_def ext_size_def opt_size_def opt_count_def rrset_size_def sizeof_dns_cent_def sizeof_rr_set_def sizeof_rr_bucket_def)
qed

lemma sample_rr: "rr (sample_cent fl) i = (if i = 0 then Some (sample_rrset fl) else None)"
proof (cases "i < 8")
  case True
  then have "i \<in> {0, 1, 2, 3, 4, 5, 6, 7}" by auto
  then show ?thesis unfolding rr_def sample_ok by auto
qed (simp add: rr_def sample_ok)

lemma sample_compatible: "compatible (rr (sample_cent fl))"
  by (simp add: compatible_def sample_rr conflicting_def)

lemma sample_small: "length (rrset_l init_cache) + NRRTOT < 2 ^ NTMPSORT"
  by (simp add: init_cache_def NRRTOT_def NTMPSORT_def)

text \<open>A cache in which the sample entry is stored.\<close>

lemma outcome_cache:
  assumes "settled g r s1 s'" and "inv_but 0 s'"
  shows "evicted (content s1 k) (content s' k)"
proof (cases r)
  case True
  then show ?thesis using survives_evicted [of 0 s1 s'] assms by (simp add: settled_def)
next
  case False
  then show ?thesis using assms(1) evicted_refl by (simp add: settled_def)
qed

lemma add_to_init:
  assumes "wf_name k" "qname c = wire k" "cent_ok c" "num_rrs c \<noteq> 0" "compatible (rr c)"
  obtains s where "cache_inv s" "length (rrset_l s) + NRRTOT < 2 ^ NTMPSORT" "evicted (Some (fresh_content g c)) (content s k)"
    "\<forall>k dl V. wf_name k \<longrightarrow> content s k = Some (dl, V) \<longrightarrow> compatible V"
proof -
  note inv = init_cache_inv [unfolded cache_inv_but]
  from add_cache_ok [OF inv assms(1-3) sample_small, of g 0 "[]"]
  obtain s' r s1 where o: "inv_but 0 s'" "length (rrset_l s') \<le> length (rrset_l init_cache) + NRRTOT" "r" "settled g r s1 s'"
    "add_outcome g 0 c k r init_cache s1" by (rule ok2E) blast
  have "add_outcome g 0 c k True init_cache s1" using o(3,5) by simp
  from content_outcome [OF inv this] have c1: "content s1 k' = (if fold_name k' = fold_name k then Some (fresh_content g c) else None)"
    if "wf_name k'" for k' using that assms(4) by (simp add: init_cache_content abs_add_def)
  note ev = outcome_cache [OF o(4,1)]
  have cp: "compatible W" if k: "wf_name k'" and W: "content s' k' = Some (d, W)" for k' d W
  proof -
    have "\<forall>i. W i = fresh_set g (rr c i) \<or> W i = None" using ev [of k'] c1 [OF k] W by (auto simp: evicted_def fresh_content_def split: if_splits)
    then show ?thesis using compatible_sub [OF fresh_compatible [OF assms(5)]] by blast
  qed
  have "length (rrset_l s') + NRRTOT < 2 ^ NTMPSORT" using o(2) by (simp add: init_cache_def NRRTOT_def NTMPSORT_def)
  moreover have "evicted (Some (fresh_content g c)) (content s' k)" using ev [of k] c1 [OF assms(1)] by simp
  ultimately show thesis using that [of s'] o(1) cp unfolding cache_inv_but by blast
qed

lemma sample_local: "is_local (fresh_set g (rr (sample_cent CF_LOCAL) 0))"
proof -
  have "has (CF_LOCAL AND NOT CF_NOCACHE) CF_LOCAL = has CF_LOCAL CF_LOCAL"
    by (rule has_clear_disjoint) (simp add: CF_NOCACHE_def CF_LOCAL_def)
  moreover have "has CF_LOCAL CF_LOCAL" by (simp add: has_def CF_LOCAL_def)
  ultimately show ?thesis by (simp add: sample_rr sample_rrset_def fresh_set_def adjust_ttl_def is_local_def Let_def)
qed

lemma example_cache:
  obtains s dl V where "cache_inv s" "length (rrset_l s) + NRRTOT < 2 ^ NTMPSORT" "content s [[97]] = Some (dl, V)" "is_local (V 0)"
    "\<forall>k dl V. wf_name k \<longrightarrow> content s k = Some (dl, V) \<longrightarrow> compatible V"
proof -
  let ?c = "sample_cent CF_LOCAL" fix g :: globparm
  have "num_rrs ?c \<noteq> 0" by (simp add: sample_cent_def)
  then obtain s where s: "cache_inv s" "length (rrset_l s) + NRRTOT < 2 ^ NTMPSORT" "evicted (Some (fresh_content g ?c)) (content s [[97]])"
    "\<forall>k dl V. wf_name k \<longrightarrow> content s k = Some (dl, V) \<longrightarrow> compatible V" using add_to_init [OF sample_name sample_ok(1) _ sample_compatible] by blast
  obtain dl V where "content s [[97]] = Some (dl, V)" "is_local (V 0)"
    using s(3) sample_local [of g] by (auto simp: evicted_def fresh_content_def split: option.splits dest: spec [of _ 0])
  then show thesis using that s by blast
qed

lemma outcome_step:
  assumes inv: "inv_but 0 s" and out: "add_outcome g now cent k r s s1" and k': "wf_name k'" and c: "content s k' = Some (dl, V)"
  shows "content s1 k' = Some (dl, V) \<or> content s1 k' = Some (dl, merge_sets g now dl (rr cent) [0..<length (slots cent)] (live_rrs now V)) \<or>
    (\<exists>V'. content s1 k' = Some (dl, V') \<and> cut_off g now dl (rr cent) [0..<length (slots cent)] (live_rrs now V) V') \<or>
    is_neg cent \<and> (\<forall>i. \<not> is_local (V i)) \<and> (content s1 k' = None \<or> content s1 k' = Some (fresh_content g cent))"
proof (cases "found s k")
  case None
  have f: "fold_name k' \<noteq> fold_name k" using found_fold [of k' k s] None c by (auto simp: content_def split: option.splits)
  have "content s1 k' = content s k'"
    using out None content_added [OF inv _ k'] content_same [of s s1] f by (auto simp: add_outcome_def split: if_splits)
  then show ?thesis using c by simp
next
  case (Some a)
  let ?c = "the (cents s a)" let ?dl = "has (cflags ?c) DF_LOCAL"
  have V: "dl = ?dl \<and> V = view ?c" if "fold_name k' = fold_name k" using content_fold [OF that, of s] c Some by (simp add: content_def)
  show ?thesis
  proof (cases "is_neg cent")
    case False
    then obtain c' where c': "same_table s s1" "cents s1 = (cents s)(a \<mapsto> c')" "has (cflags c') DF_LOCAL = ?dl"
      "if r then view c' = merge_sets g now ?dl (rr cent) [0..<length (slots cent)] (unexpired now ?c)
       else cut_off g now ?dl (rr cent) [0..<length (slots cent)] (unexpired now ?c) (view c')" using out Some by (auto simp: add_outcome_def Let_def)
    from content_upd [OF inv Some c'(1,2) k'] show ?thesis using c c'(3,4) V unexpired_live by (cases r) auto
  next
    case neg: True
    show ?thesis
    proof (cases "\<exists>i. is_local (rr ?c i)")
      case True
      then have "s1 = s" using out Some neg by (simp add: add_outcome_def)
      then show ?thesis using c by simp
    next
      case False
      have nl: "\<forall>i. \<not> is_local (V i)" if "fold_name k' = fold_name k" using V [OF that] False by (simp add: is_local_view)
      show ?thesis
      proof (cases r)
        case True
        then obtain a' c' where rn: "renamed a a' c' k s s1" "new_entry g cent c'" using out Some neg False by (auto simp: add_outcome_def)
        then have "a' = a \<or> cents s a' = None" by (simp add: renamed_def)
        from content_renamed [OF inv Some rn(1) this k'] show ?thesis using c nl neg new_content [OF rn(2)] by auto
      next
        case r: False
        then have d: "dropped a k s s1" using out Some neg False by (simp add: add_outcome_def)
        show ?thesis
        proof (cases "fold_name k' = fold_name k")
          case True
          then have "content s1 k' = None" using d k' by (simp add: content_def dropped_def)
          then show ?thesis using nl neg True by simp
        next
          case f: False
          have "content s1 k' = content s k'"
          proof (rule content_eq)
            show "found s1 k' = found s k'" using d k' f by (simp add: dropped_def)
            fix b assume "found s k' = Some b"
            then have "b \<noteq> a" using same_entry_name [OF inv, of k' b k] Some f by auto
            then show "cents s1 b = cents s b" using d by (simp add: dropped_def)
          qed
          then show ?thesis using c by simp
        qed
      qed
    qed
  qed
qed

lemma outcome_new:
  assumes inv: "inv_but 0 s" and out: "add_outcome g now cent k r s s1" and k': "wf_name k'" and c: "content s k' = None"
  shows "content s1 k' = None \<or> fold_name k' = fold_name k \<and> content s1 k' = Some (fresh_content g cent)"
proof (cases "fold_name k' = fold_name k")
  case True
  then have n: "found s k = None" using c found_fold [OF True, of s] by (auto simp: content_def split: option.splits)
  then show ?thesis
    using True out content_added [OF inv _ k'] new_content content_same [of s s1] c by (auto simp: add_outcome_def split: if_splits)
next
  case False
  have fn: "found s k' = None" using c by (auto simp: content_def split: option.splits)
  have "found s1 k' = None"
    using out False k' fn same_table_found [of s s1]
    by (auto simp: add_outcome_def added_def renamed_def dropped_def Let_def split: option.splits if_splits)
  then show ?thesis by (simp add: content_def)
qed

lemma outcome_local:
  assumes inv: "inv_but 0 s" and out: "add_outcome g now cent k r s s1" and nl: "no_local (rr cent)"
    and k': "wf_name k'" and c: "content s k' = Some (dl, V)" and i: "is_local (V i)"
  shows "\<exists>V'. content s1 k' = Some (dl, V') \<and> V' i = V i"
proof -
  obtain a where a: "found s k' = Some a" "V = view (the (cents s a))" using c by (auto simp: content_def split: option.splits)
  obtain c' where c': "cents s a = Some c'" "cent_ok c'" using found_entry [OF inv a(1)] by blast
  have iN: "i < NRRTOT" using is_local_bound [of c' i] c' i a(2) by (simp add: cent_ok_def is_local_view)
  have l: "live_rrs now V i = V i" using i by (auto simp: live_rrs_def is_local_def purgeable_def split: option.splits)
  then have li: "is_local (live_rrs now V i)" using i by simp
  from outcome_step [OF inv out k' c] show ?thesis
    using merge_sets_local [where V = "live_rrs now V", OF nl iN li, of g now dl "[0..<length (slots cent)]"]
      cut_off_local [where V = "live_rrs now V", OF nl iN li] l i by auto
qed

lemma compatible_live: "compatible V \<Longrightarrow> compatible (live_rrs now V)"
  by (rule compatible_sub) (auto simp: live_rrs_def split: option.split)

definition compat_at :: "cache \<Rightarrow> label list \<Rightarrow> bool" where
  "compat_at s k \<longleftrightarrow> (\<forall>dl V. content s k = Some (dl, V) \<longrightarrow> compatible V)"

lemma neg_compatible: "cent_ok c \<Longrightarrow> is_neg c \<Longrightarrow> compatible (rr c)"
  by (simp add: compatible_def cent_ok_def rr_neg)

lemma outcome_compatible:
  assumes inv: "inv_but 0 s" and out: "add_outcome g now cent k r s s1" and cent: "cent_ok cent"
    and N: "compatible (rr cent) \<or> fold_name k' \<noteq> fold_name k \<or> content s k \<noteq> None"
    and cp: "compat_at s k'" and k': "wf_name k'" and c: "content s1 k' = Some (dl, V)"
  shows "compatible V"
proof -
  have new: "compatible V" if "content s1 k' = Some (fresh_content g cent)" "compatible (rr cent)"
    using that c fresh_compatible [of "rr cent" g] by (simp add: fresh_content_def)
  show ?thesis
  proof (cases "content s k'")
    case None
    with outcome_new [OF inv out k'] c have "fold_name k' = fold_name k" "content s1 k' = Some (fresh_content g cent)" by auto
    with None N content_fold [of k' k s] new show ?thesis by simp
  next
    case (Some e)
    then obtain d W where e: "content s k' = Some (d, W)" by (cases e) simp
    then have W: "compatible W" using cp by (simp add: compat_at_def)
    from outcome_step [OF inv out k' e] show ?thesis
      using W merge_sets_compatible [OF compatible_live [OF W]] cut_off_compatible [OF compatible_live [OF W]] c
        new neg_compatible [OF cent] by auto
  qed
qed

lemma fresh_compatible_iff: "compatible (\<lambda>i. fresh_set g (N i)) \<longleftrightarrow> compatible N"
  by (simp add: compatible_def conflicting_def fresh_set_def has_adjust option.case_eq_if option.map_sel)

text \<open>
  The entry of a name that the cache does not have yet is copied as it is: what is stored, before the
  final purge, contradicts itself if the added entry does.
\<close>

lemma add_cache_new_unchecked:
  assumes "cache_inv s" and "wf_name k" and "qname cent = wire k" and "cent_ok cent" and "length (rrset_l s) + NRRTOT < 2 ^ NTMPSORT"
    and "content s k = None" and "num_rrs cent \<noteq> 0" and "\<not> compatible (rr cent)"
  shows "ok (add_cache g now cent s []) (\<lambda>(s', _). \<exists>s1. \<not> compat_at s1 k \<and> (cache_size s1 \<le> purge_limit g \<longrightarrow> s' = s1))"
proof -
  have inv: "inv_but 0 s" using assms(1) by (simp add: cache_inv_but)
  from add_cache_ok [OF inv assms(2-5), of g now "[]"] obtain s' al' r s1 where o: "add_cache g now cent s [] = Some (s', al')" "r"
    "settled g r s1 s'" "add_outcome g now cent k r s s1" by (rule ok2E) blast
  have out: "add_outcome g now cent k True s s1" using o(2,4) by simp
  have "content s1 k = Some (fresh_content g cent)"
    using content_outcome [OF inv out assms(2)] assms(6,7) by (simp add: abs_add_def)
  then have "\<not> compat_at s1 k" using assms(8) by (simp add: compat_at_def fresh_content_def fresh_compatible_iff)
  then show ?thesis unfolding o(1) ok_Some prod.case using o(2,3) by (auto simp: settled_def)
qed

lemma add_cache_try_mono: "add_cache_try n g now cent s al = Some r \<Longrightarrow> add_cache_try (Suc n) g now cent s al = Some r"
proof (induction n arbitrary: s al)
  case (Suc n)
  obtain r0 loc where l: "lookup s (qname cent) = Some (r0, loc)" using Suc.prems by (cases "lookup s (qname cent)") auto
  show ?case
  proof (cases "r0 = None \<or> \<not> is_neg cent")
    case True
    then show ?thesis using Suc.prems l by (cases r0) simp_all
  next
    case False
    then obtain a where a: "r0 = Some a" "is_neg cent" by auto
    obtain ce ilim b where c: "cents s a = Some ce" "RRARR_LEN ce = Some ilim" "any_local ce [0..<ilim] = Some b"
      using Suc.prems l a by (auto simp: bind_eq_Some_conv)
    show ?thesis
    proof (cases b)
      case True
      then show ?thesis using Suc.prems l a c by simp
    next
      case nb: False
      then obtain s1 where s1: "del_cache_ent a (Some loc) s = Some s1" "add_cache_try n g now cent s1 al = Some r"
        using Suc.prems l a c by (auto simp: bind_eq_Some_conv)
      from Suc.IH [OF s1(2)] show ?thesis using l a c nb s1(1) by simp
    qed
  qed
qed simp

lemma add_cache_try_more: "add_cache_try n g now cent s al = Some r \<Longrightarrow> add_cache_try (m + n) g now cent s al = Some r"
  by (induction m) (simp_all add: add_cache_try_mono del: add_cache_try.simps)

lemma time_t_exact: "- (2 ^ 63) \<le> x \<Longrightarrow> x < 2 ^ 63 \<Longrightarrow> time_t x = x"
  by (simp add: time_t_def signed_take_bit_int_eq_self)

text \<open>A record set that has come into existence at the end of time is taken for one that has long expired.\<close>

lemma timedout_overflow: "0 \<le> now \<Longrightarrow> timedout now \<lparr>lent = None, ttl = 300, ts = 2 ^ 63 - 1, flags = 0, rrs = rs\<rparr>"
proof -
  have "time_t (2 ^ 63 - 1 + CLAT_ADJ 300) < 0" by (simp add: time_t_def CLAT_ADJ_def CACHE_LAT_def signed_take_bit_code mask_eq_exp_minus_1 not_int_def)
  then show "0 \<le> now \<Longrightarrow> ?thesis" by (simp add: timedout_def)
qed

lemma CLAT_ADJ_time: "CLAT_ADJ t < now \<Longrightarrow> time_t (CLAT_ADJ t) < now"
proof -
  have "- (2 ^ 63) \<le> CLAT_ADJ t" by (simp add: CLAT_ADJ_def CACHE_LAT_def)
  then have "time_t (CLAT_ADJ t) \<le> CLAT_ADJ t" by (simp add: time_t_def signed_take_bit_int_less_eq_self_iff)
  then show "CLAT_ADJ t < now \<Longrightarrow> time_t (CLAT_ADJ t) < now" by simp
qed

lemma live_none: "(\<forall>i. live_rrs now V i = None) \<longleftrightarrow> (\<forall>i rs. V i = Some rs \<longrightarrow> purgeable now rs)"
  by (auto simp: live_rrs_def split: option.splits)

lemma dead_live:
  assumes "\<not> is_neg c"
  shows "dead now c \<longleftrightarrow> (\<forall>i. live_rrs now (view c) i = None)"
proof -
  have "live_rrs now (view c) i = None \<longleftrightarrow> \<not> kept now c i" for i by (simp add: unexpired_live [symmetric] unexpired_def kept_def view_def) auto
  then show ?thesis using assms by (simp add: dead_def)
qed

section \<open>What the list of record sets knows\<close>

text \<open>All data that are not local have a node in the list, so that purging can reach them. The operations keep this.\<close>

definition all_tracked :: "cache \<Rightarrow> bool" where
  "all_tracked s \<longleftrightarrow> (\<forall>a c. cents s a = Some c \<longrightarrow> tracked c)"

text \<open>Nothing is left in an entry but local data.\<close>

definition only_local :: "dns_cent \<Rightarrow> bool" where
  "only_local c \<longleftrightarrow> has (cflags c) DF_LOCAL \<or> (\<not> is_neg c \<and> (\<forall>i rs. rr c i = Some rs \<longrightarrow> has (flags rs) CF_LOCAL))"

lemma init_cache_tracked: "all_tracked init_cache"
  by (simp add: all_tracked_def init_cache_def)

lemma survives_tracked: "survives E K s s' \<Longrightarrow> all_tracked s \<Longrightarrow> all_tracked s'"
  unfolding all_tracked_def survives_def using tracked_shrink by metis

lemma outcome_tracked:
  assumes inv: "inv_but 0 s" and out: "add_outcome g now cent k r s s1" and s: "all_tracked s"
  shows "all_tracked s1"
proof (cases "found s k")
  case None
  with out s show ?thesis
    by (auto simp: add_outcome_def added_def new_entry_def all_tracked_def split: if_splits)
next
  case (Some a)
  then obtain c where c: "cents s a = Some c" using found_entry [OF inv] by blast
  with s have k: "tracked c" by (simp add: all_tracked_def)
  show ?thesis
  proof (cases "is_neg cent")
    case True
    with out Some s show ?thesis
      by (auto simp: add_outcome_def renamed_def dropped_def new_entry_def all_tracked_def split: if_splits)
  next
    case False
    with out Some c k obtain c' where "cents s1 = (cents s)(a \<mapsto> c')" "tracked c'" by (auto simp: add_outcome_def)
    with s show ?thesis by (simp add: all_tracked_def)
  qed
qed

lemma add_cache_tracked:
  assumes "cache_inv s" and "wf_name k" and "qname cent = wire k" and "cent_ok cent" and "length (rrset_l s) + NRRTOT < 2 ^ NTMPSORT"
    and "all_tracked s"
  shows "ok (add_cache g now cent s al) (\<lambda>(s', _). all_tracked s')"
proof -
  have inv: "inv_but 0 s" using assms(1) by (simp add: cache_inv_but)
  from add_cache_ok [OF inv assms(2-5), of g now al] obtain s' al' r s1 where o: "add_cache g now cent s al = Some (s', al')"
    "settled g r s1 s'" "add_outcome g now cent k r s s1" by (rule ok2E) blast
  have "all_tracked s1" by (rule outcome_tracked [OF inv o(3) assms(6)])
  then have "all_tracked s'" using o(2) survives_tracked by (auto simp: settled_def split: if_splits)
  then show ?thesis unfolding o(1) by simp
qed

text \<open>If all nodes of the list are local, so is all of the cache.\<close>

lemma tracked_only_local:
  assumes co: "core s" and a: "cents s a = Some c" and k: "tracked c" and nl: "\<forall>e \<in> set (rrset_l s). node_local s e"
  shows "only_local c"
proof (cases "has (cflags c) DF_LOCAL")
  case True
  then show ?thesis by (simp add: only_local_def)
next
  case dl: False
  have sh: "shape_ok c" using core_linked(2) [OF co a] by (simp add: cent_ok_def)
  have l: "node_local s e" if "e \<in> nodes a c" for e using core_linked(1) [OF co a] nl that by (simp add: linked_def)
  have neg: "\<not> is_neg c"
  proof
    assume n: "is_neg c"
    then obtain le t u where b: "body c = Neg le t u" using shape_Neg [OF sh] by blast
    with k n dl obtain m where "le = Some m" by (auto simp: tracked_def)
    with b have "\<lparr>lnode = m, lrrset = False, lcent = a, lidx = - 1\<rparr> \<in> nodes a c" by (simp add: nodes_def neg_node_def)
    from l [OF this] a dl show False by (simp add: node_local_def)
  qed
  moreover have "has (flags rs) CF_LOCAL" if rs: "rr c i = Some rs" for i rs
  proof (rule ccontr)
    assume nf: "\<not> has (flags rs) CF_LOCAL"
    with k rs dl obtain m where "lent rs = Some m" by (auto simp: tracked_def set_tracked_def)
    then have "\<lparr>lnode = m, lrrset = True, lcent = a, lidx = int i\<rparr> \<in> slot_node a i (rr c i)" using rs by (simp add: slot_node_def)
    moreover obtain mu ext where "body c = RR mu ext" using shape_RR [OF sh neg] by metis
    ultimately have "\<lparr>lnode = m, lrrset = True, lcent = a, lidx = int i\<rparr> \<in> nodes a c" by (auto simp: nodes_def)
    from l [OF this] a dl rs nf show False by (simp add: node_local_def)
  qed
  ultimately show ?thesis by (simp add: only_local_def)
qed

text \<open>A cache with one entry, which is not local.\<close>

lemma plain_cache:
  obtains s where "cache_inv s" "all_tracked s" "length (rrset_l s) < 2 ^ NTMPSORT" "content s [[97]] = Some (fresh_content g (sample_cent 0))"
proof -
  note inv = init_cache_inv [unfolded cache_inv_but]
  have none: "found init_cache [[97]] = None" by (simp add: found_def init_cache_def mk_dns_hash_find)
  obtain loc where loc: "place init_cache [[97]] None loc" using lookup_place [OF inv_but_table [OF inv] sample_name(1), of "[]"] none by metis
  from add_new_ok [OF inv sample_name(1) sample_name(2) [of 0] sample_ok(1) none loc, where g = g and al = "[]"] obtain r s al' where o: "inv_but 0 s" "r"
    "length (rrset_l s) \<le> length (rrset_l init_cache) + NRRTOT"
    "if r then \<exists>a c. added a c [[97]] init_cache s \<and> new_entry g (sample_cent 0) c else same_table init_cache s \<and> cents s = cents init_cache"
    by (rule ok3E) blast
  then obtain a c where c: "added a c [[97]] init_cache s" "new_entry g (sample_cent 0) c" by auto
  have "all_tracked s" using c by (simp add: all_tracked_def added_def new_entry_def init_cache_def)
  moreover have "content s [[97]] = Some (fresh_content g (sample_cent 0))" using content_added [OF inv c(1) sample_name(1)] new_content [OF c(2)] by simp
  ultimately show thesis using that [of s] o(1,3) sample_small unfolding cache_inv_but by simp
qed

section \<open>Properties\<close>

text \<open>
  C1. \<^verbatim>\<open>add_cache\<close> (\<^verbatim>\<open>src/cache.c\<close>) refines the abstract operation on the content of the cache. On a consistent cache it runs without
  a memory fault or a failed assertion; before the final purge the content is that of the old cache, with the entry of the name (up to case)
  replaced by the merge \<open>abs_add\<close> of the old and the new record sets; the purge removes only entries and record sets
  that are not local, and does nothing while the size of the cache is within its limit.
\<close>

theorem add_cache_refines:
  assumes "cache_inv s" and "wf_name k" and "qname cent = wire k" and "cent_ok cent" and "length (rrset_l s) + NRRTOT < 2 ^ NTMPSORT"
  shows "ok (add_cache g now cent s []) (\<lambda>(s', _). cache_inv s' \<and> (\<exists>s1. cache_inv s1 \<and>
    (\<forall>k'. wf_name k' \<longrightarrow> content s1 k' = (if fold_name k' = fold_name k then abs_add g now cent (content s k) else content s k')) \<and>
    (\<forall>k'. evicted (content s1 k') (content s' k')) \<and> (cache_size s1 \<le> purge_limit g \<longrightarrow> s' = s1)))"
proof -
  have inv: "inv_but 0 s" using assms(1) by (simp add: cache_inv_but)
  from add_cache_ok [OF inv assms(2-5), of g now "[]"] obtain s' al' r s1 where o: "add_cache g now cent s [] = Some (s', al')" "inv_but 0 s'" "r"
    "settled g r s1 s'" "add_outcome g now cent k r s s1" by (rule ok2E) blast
  have out: "add_outcome g now cent k True s s1" using o(3,5) by simp
  show ?thesis unfolding o(1) ok_Some prod.case cache_inv_but
    by (intro conjI exI [of _ s1] allI impI o(2) content_outcome [OF inv out] outcome_cache [OF o(4,2)])
      (use o(3,4) in \<open>auto simp: settled_def\<close>)
qed

theorem add_cache_refines_witness:
  "ok (add_cache sample_parms 0 (sample_cent 0) init_cache []) (\<lambda>(s', _). cache_inv s' \<and>
    (\<exists>s1. cache_inv s1 \<and> (\<forall>k'. wf_name k' \<longrightarrow> content s1 k' = (if fold_name k' = fold_name [[97]]
      then abs_add sample_parms 0 (sample_cent 0) (content init_cache [[97]]) else content init_cache k')) \<and>
    (\<forall>k'. evicted (content s1 k') (content s' k')) \<and>
    (cache_size s1 \<le> purge_limit sample_parms \<longrightarrow> s' = s1)))"
  by (rule add_cache_refines [OF init_cache_inv sample_name sample_ok(1) sample_small])

text \<open>
  C7. Local records are never lost: whatever entry without local records \<^verbatim>\<open>add_cache\<close> is given, also a negative one,
  whatever allocations fail and however much has to be purged, a local record set of any name is still there afterwards, unchanged.
\<close>

theorem add_cache_keeps_local:
  assumes "cache_inv s" and "wf_name k" and "qname cent = wire k" and "cent_ok cent" and "length (rrset_l s) + NRRTOT < 2 ^ NTMPSORT"
    and "no_local (rr cent)" and "wf_name k'" and "content s k' = Some (dl, V)" and "is_local (V i)"
  shows "ok (add_cache g now cent s al) (\<lambda>(s', _). \<exists>V'. content s' k' = Some (dl, V') \<and> V' i = V i)"
proof -
  have inv: "inv_but 0 s" using assms(1) by (simp add: cache_inv_but)
  from add_cache_ok [OF inv assms(2-5), of g now al] obtain s' al' r s1 where o: "add_cache g now cent s al = Some (s', al')" "inv_but 0 s'"
    "settled g r s1 s'" "add_outcome g now cent k r s s1" by (rule ok2E) blast
  from outcome_local [OF inv o(4) assms(6-9)] obtain V1 where V1: "content s1 k' = Some (dl, V1)" "V1 i = V i" by blast
  have "evicted (Some (dl, V1)) (content s' k')" using outcome_cache [OF o(3,2), of k'] V1(1) by simp
  then show ?thesis unfolding o(1) ok_Some prod.case using V1(2) assms(9)
    by (auto simp: evicted_def split: option.splits) (metis option.distinct(1))+
qed

theorem add_cache_keeps_local_witness:
  "\<exists>s dl V. content s [[97]] = Some (dl, V) \<and> is_local (V 0) \<and>
    ok (add_cache sample_parms 2000 (sample_cent 0) s [False]) (\<lambda>(s', _). \<exists>V'. content s' [[97]] = Some (dl, V') \<and> V' 0 = V 0)"
proof -
  obtain s dl V where s: "cache_inv s" "length (rrset_l s) + NRRTOT < 2 ^ NTMPSORT" "content s [[97]] = Some (dl, V)" "is_local (V 0)"
    using example_cache .
  have "no_local (rr (sample_cent 0))" by (simp add: no_local_def sample_rr is_local_def sample_rrset_def has_def)
  from add_cache_keeps_local [OF s(1) sample_name sample_ok(1) s(2) this sample_name(1) s(3,4), of sample_parms 2000 "[False]"] s(3,4) show ?thesis by blast
qed

text \<open>
  C9. \<^verbatim>\<open>add_cache\<close> brings no contradiction into an entry that is already in the cache, whatever record sets it is given: if the record sets stored for a name do not
  contradict each other (as an alias and other data would), those stored for it afterwards do not either, also
  if allocations fail, and the added record sets may contradict the stored ones and each other. The one case in which the added entry
  must be free of contradictions is that of a new name, whose entry \<^verbatim>\<open>add_cache\<close> copies without a check
  (\<open>add_cache_new_unchecked\<close>).
\<close>

theorem add_cache_compatible:
  assumes "cache_inv s" and "wf_name k" and "qname cent = wire k" and "cent_ok cent" and "length (rrset_l s) + NRRTOT < 2 ^ NTMPSORT"
  shows "ok (add_cache g now cent s al) (\<lambda>(s', _). \<forall>k'. wf_name k' \<longrightarrow> compat_at s k' \<longrightarrow>
    (content s k = None \<longrightarrow> fold_name k' = fold_name k \<longrightarrow> compatible (rr cent)) \<longrightarrow> compat_at s' k')"
proof -
  have inv: "inv_but 0 s" using assms(1) by (simp add: cache_inv_but)
  from add_cache_ok [OF inv assms(2-5), of g now al] obtain s' al' r s1 where o: "add_cache g now cent s al = Some (s', al')" "inv_but 0 s'"
    "settled g r s1 s'" "add_outcome g now cent k r s s1" by (rule ok2E) blast
  have "compat_at s' k'" if k': "wf_name k'" and cp: "compat_at s k'"
    and N: "content s k = None \<longrightarrow> fold_name k' = fold_name k \<longrightarrow> compatible (rr cent)" for k'
    unfolding compat_at_def
  proof (intro allI impI)
    fix dl V assume c: "content s' k' = Some (dl, V)"
    from outcome_cache [OF o(3,2), of k'] c have "\<exists>V1. content s1 k' = Some (dl, V1) \<and> (\<forall>i. V i = V1 i \<or> V i = None)"
      by (auto simp: evicted_def split: option.splits) (metis option.distinct(1))
    then obtain V1 where V1: "content s1 k' = Some (dl, V1)" "\<forall>i. V i = V1 i \<or> V i = None" by blast
    from outcome_compatible [OF inv o(4) assms(4) _ cp k' V1(1)] N have "compatible V1" by blast
    then show "compatible V" using compatible_sub V1(2) by blast
  qed
  then show ?thesis unfolding o(1) ok_Some prod.case by blast
qed

text \<open>An entry with an address and an alias for one name.\<close>

definition clash_cent :: dns_cent where
  "clash_cent = \<lparr>qname = wire [[97]], cs = 226, num_rrs = 2, cflags = 0, body = RR
     [Some (sample_rrset 0), None, Some \<lparr>lent = None, ttl = 86400, ts = 1000, flags = 0, rrs = [[1, 98, 0]]\<rparr>, None, None, None, None, None] None,
     c_ns = cundef, c_soa = cundef\<rparr>"

lemma clash_ok: "qname clash_cent = wire [[97]]" "cent_ok clash_cent" "\<not> compatible (rr clash_cent)"
proof -
  show q: "qname clash_cent = wire [[97]]" by (simp add: clash_cent_def)
  have n: "\<not> is_neg clash_cent" by (simp add: is_neg_def has_def clash_cent_def)
  have sl: "slots clash_cent = [Some (sample_rrset 0), None, Some \<lparr>lent = None, ttl = 86400, ts = 1000, flags = 0, rrs = [[1, 98, 0]]\<rparr>, None, None, None, None, None]"
    by (simp add: slots_def clash_cent_def)
  have "shape_ok clash_cent" using n by (simp add: shape_ok_def clash_cent_def NRRMU_def)
  moreover have "\<exists>ls. wf_name ls \<and> qname clash_cent = wire ls" using q sample_name(1) by blast
  ultimately show "cent_ok clash_cent" unfolding cent_ok_def tot_def sl
    by (simp add: clash_cent_def sample_rrset_def ext_size_def opt_size_def opt_count_def rrset_size_def sizeof_dns_cent_def sizeof_rr_set_def sizeof_rr_bucket_def)
  have "rr clash_cent 0 = Some (sample_rrset 0)" "rr clash_cent 2 \<noteq> None" "conflicting 0 (rr clash_cent) 2"
    by (simp_all add: rr_def sl conflicting_def rr_conflict_def rr_info_def rr_record_def rr_alias_def RRCL_RECORD_def RRCL_ALIAS_def RRCL_PTR_def has_def)
  moreover have "(0 :: nat) < NRRTOT" "(2 :: nat) < NRRTOT" "\<not> has (flags (sample_rrset 0)) CF_NEGATIVE"
    by (simp_all add: NRRTOT_def sample_rrset_def has_def)
  ultimately show "\<not> compatible (rr clash_cent)"
    unfolding compatible_def by (metis option.sel option.discI zero_neq_numeral)
qed

theorem add_cache_compatible_witness:
  "\<not> compatible (rr clash_cent) \<and> (\<exists>s. cache_inv s \<and> content s [[97]] \<noteq> None \<and>
    ok (add_cache sample_parms 2000 clash_cent s []) (\<lambda>(s', _). compat_at s' [[97]]))"
proof -
  obtain s dl V where s: "cache_inv s" "length (rrset_l s) + NRRTOT < 2 ^ NTMPSORT" "content s [[97]] = Some (dl, V)"
    "\<forall>k dl V. wf_name k \<longrightarrow> content s k = Some (dl, V) \<longrightarrow> compatible V" using example_cache by metis
  have cp: "compat_at s [[97]]" using s(4) sample_name(1) by (simp add: compat_at_def)
  from add_cache_compatible [OF s(1) sample_name(1) clash_ok(1,2) s(2), of sample_parms 2000 "[]"]
  have "ok (add_cache sample_parms 2000 clash_cent s []) (\<lambda>(s', _). compat_at s' [[97]])"
    by (rule ok_mono) (use s(3) cp sample_name(1) in auto)
  with s(1,3) clash_ok(3) show ?thesis by blast
qed

text \<open>
  C12. \<^verbatim>\<open>purge_cache\<close> runs without a fault and leaves a cache within the size asked for, unless nothing but local data is left: no record set
  and no negated domain in it that could be purged. It removes nothing that is local, and in lazy mode leaves a cache that is small enough as it is. It
  relies on all data that are not local being in the list it walks; it keeps this, and \<^verbatim>\<open>add_cache\<close> does (\<open>add_cache_tracked\<close>).
\<close>

theorem purge_cache_bound:
  assumes "cache_inv s" and "all_tracked s" and "length (rrset_l s) < 2 ^ NTMPSORT"
  shows "ok (purge_cache now sz lazy s) (\<lambda>s'. cache_inv s' \<and> all_tracked s' \<and>
    (cache_size s' \<le> sz \<or> (\<forall>a c. cents s' a = Some c \<longrightarrow> only_local c)) \<and>
    cache_size s' \<le> cache_size s \<and> (\<forall>k. evicted (content s k) (content s' k)) \<and> (lazy \<and> cache_size s \<le> sz \<longrightarrow> s' = s))"
proof -
  have inv: "inv_but 0 s" using assms(1) by (simp add: cache_inv_but)
  from purge_cache_ok [OF inv assms(3), of now sz lazy] obtain s' where o: "purge_cache now sz lazy s = Some s'" "inv_but 0 s'"
    "survives has_local local_rr s s'" "cache_size s' \<le> sz \<or> (\<forall>e \<in> set (rrset_l s'). node_local s' e)" "lazy \<and> cache_size s \<le> sz \<longrightarrow> s' = s"
    by (rule okE) blast
  have "cache_size s' \<le> cache_size s" using o(3) by (simp add: survives_def)
  moreover have k: "all_tracked s'" by (rule survives_tracked [OF o(3) assms(2)])
  moreover have "only_local c" if "\<not> cache_size s' \<le> sz" "cents s' a = Some c" for a c
    using tracked_only_local [OF inv_but_core [OF o(2)] that(2)] o(4) that k by (simp add: all_tracked_def)
  ultimately show ?thesis unfolding o(1) ok_Some cache_inv_but using o(2,5) survives_evicted [OF inv o(2,3)] by blast
qed

theorem purge_cache_bound_witness:
  "\<exists>s dl V rs. content s [[97]] = Some (dl, V) \<and> V 0 = Some rs \<and> \<not> has (flags rs) CF_LOCAL \<and>
    ok (purge_cache 9000000 0 False s) (\<lambda>s'. cache_inv s' \<and> (cache_size s' \<le> 0 \<or> (\<forall>a c. cents s' a = Some c \<longrightarrow> only_local c)))"
proof -
  obtain s where s: "cache_inv s" "all_tracked s" "length (rrset_l s) < 2 ^ NTMPSORT" "content s [[97]] = Some (fresh_content sample_parms (sample_cent 0))"
    by (rule plain_cache)
  have "ok (purge_cache 9000000 0 False s) (\<lambda>s'. cache_inv s' \<and> (cache_size s' \<le> 0 \<or> (\<forall>a c. cents s' a = Some c \<longrightarrow> only_local c)))"
    using purge_cache_bound [OF s(1,2,3), of 9000000 0 False] by (rule ok_mono) blast
  moreover have "\<exists>rs. fresh_set sample_parms (rr (sample_cent 0) 0) = Some rs \<and> \<not> has (flags rs) CF_LOCAL"
    by (simp add: sample_rr sample_rrset_def fresh_set_def adjust_ttl_def has_def Let_def)
  ultimately show ?thesis using s(4) unfolding fresh_content_def by blast
qed



text \<open>
  C14. The loop of \<^verbatim>\<open>add_cache\<close> through the label \<^verbatim>\<open>retry\<close> ends after at most two passes: on a consistent cache the function returns,
  and allowing more passes does not change the result.
\<close>

theorem add_cache_two_passes:
  assumes "cache_inv s" and "wf_name k" and "qname cent = wire k" and "cent_ok cent" and "length (rrset_l s) + NRRTOT < 2 ^ NTMPSORT"
  shows "\<exists>r. add_cache g now cent s al = Some r \<and> (\<forall>n. add_cache_try (n + 2) g now cent s al = Some r)"
proof -
  from add_cache_ok [OF assms(1) [unfolded cache_inv_but] assms(2-5), of g now al] obtain r where r: "add_cache g now cent s al = Some r"
    by (rule ok2E) blast
  then show ?thesis using add_cache_try_more [of 2 g now cent s al r] by (simp add: add_cache_def del: add_cache_try.simps)
qed

theorem add_cache_two_passes_witness:
  "\<exists>r. add_cache sample_parms 0 (sample_cent 0) init_cache [True, False] = Some r \<and>
    (\<forall>n. add_cache_try (n + 2) sample_parms 0 (sample_cent 0) init_cache [True, False] = Some r)"
  by (rule add_cache_two_passes [OF init_cache_inv sample_name sample_ok(1) sample_small])

text \<open>
  C8. \<^verbatim>\<open>lookup_cache\<close> answers from the state before or after the step in which it exchanges the read lock for the write lock. There it
  follows the specification \<open>locate\<close> of the search through the name hierarchy, and returns a copy with exactly the unexpired record sets
  of the entry, none of which can be purged. It returns nothing only if there is no entry, if the entry has expired as a whole or if an allocation fails.
\<close>

theorem lookup_cache_serves:
  assumes "cache_inv s" and "cache_inv (env s)" and "wf_name k"
  shows "ok (lookup_cache now env (wire k @ r) wild s al) (\<lambda>(res, w, s', _). cache_inv s' \<and>
    (\<exists>s0 \<in> {s, env s}. w = snd (locate s0 k wild) \<and> (case fst (locate s0 k wild) of None \<Rightarrow> res = None
      | Some a \<Rightarrow> (case res of None \<Rightarrow> dead now (the (cents s0 a)) \<or> al \<noteq> []
          | Some c \<Rightarrow> rr c = live_rrs now (view (the (cents s0 a))) \<and> is_neg c = is_neg (the (cents s0 a)) \<and>
              qname c = qname (the (cents s0 a)) \<and> cent_ok c \<and> \<not> dead now (the (cents s0 a))))) \<and>
    (\<forall>c i rs. res = Some c \<longrightarrow> rr c i = Some rs \<longrightarrow> \<not> purgeable now rs))"
proof -
  from lookup_cache_ok [where env = env, OF assms(1,2) [unfolded cache_inv_but] assms(3), of now r wild al] obtain res w s' al' where
    o: "lookup_cache now env (wire k @ r) wild s al = Some (res, w, s', al')" "inv_but 0 s'" "answer now s k wild al res w \<or> answer now (env s) k wild al res w"
    by (rule ok4E) blast
  have a: "w = snd (locate s0 k wild) \<and> (case fst (locate s0 k wild) of None \<Rightarrow> res = None
      | Some a \<Rightarrow> (case res of None \<Rightarrow> dead now (the (cents s0 a)) \<or> al \<noteq> []
          | Some c \<Rightarrow> rr c = live_rrs now (view (the (cents s0 a))) \<and> is_neg c = is_neg (the (cents s0 a)) \<and>
              qname c = qname (the (cents s0 a)) \<and> cent_ok c \<and> \<not> dead now (the (cents s0 a))))" if "answer now s0 k wild al res w" for s0
    using that by (auto simp: answer_def served_def unexpired_live split: option.splits)
  have p: "\<not> purgeable now rs" if "answer now s0 k wild al res w" "res = Some c" "rr c i = Some rs" for s0 c i rs
    using that by (auto simp: answer_def served_def unexpired_live live_rrs_def split: option.splits if_splits)
  show ?thesis unfolding o(1) ok_Some prod.case cache_inv_but using o(2,3) a [of s] a [of "env s"] p [of s] p [of "env s"] by blast
qed

theorem lookup_cache_serves_witness:
  "\<exists>s. content s [[97]] \<noteq> None \<and> ok (lookup_cache 2000 (\<lambda>_. init_cache) (wire [[97]] @ []) True s []) (\<lambda>(res, w, s', _). cache_inv s' \<and>
    (\<exists>s0 \<in> {s, init_cache}. w = snd (locate s0 [[97]] True) \<and> (case fst (locate s0 [[97]] True) of None \<Rightarrow> res = None
      | Some a \<Rightarrow> (case res of None \<Rightarrow> dead 2000 (the (cents s0 a)) \<or> ([] :: allocs) \<noteq> []
          | Some c \<Rightarrow> rr c = live_rrs 2000 (view (the (cents s0 a))) \<and> is_neg c = is_neg (the (cents s0 a)) \<and>
              qname c = qname (the (cents s0 a)) \<and> cent_ok c \<and> \<not> dead 2000 (the (cents s0 a))))) \<and>
    (\<forall>c i rs. res = Some c \<longrightarrow> rr c i = Some rs \<longrightarrow> \<not> purgeable 2000 rs))"
proof -
  obtain s dl V where s: "cache_inv s" "content s [[97]] = Some (dl, V)" using example_cache by metis
  show ?thesis by (rule exI [of _ s], rule conjI)
    (use s(2) in simp, rule lookup_cache_serves [where env = "\<lambda>_. init_cache", OF s(1) init_cache_inv sample_name(1)])
qed

text \<open>
  C15. \<^verbatim>\<open>del_cache\<close> removes the entry of the given name, if there is one, and nothing else, and keeps the cache consistent.
\<close>

theorem del_cache_content:
  assumes "cache_inv s" and "wf_name k"
  shows "ok (del_cache (wire k @ r) s) (\<lambda>s'. cache_inv s' \<and>
    (\<forall>k'. wf_name k' \<longrightarrow> content s' k' = (if fold_name k' = fold_name k then None else content s k')))"
proof -
  have inv: "inv_but 0 s" using assms(1) by (simp add: cache_inv_but)
  from del_cache_ok [OF inv assms(2), of r] obtain s' where o: "del_cache (wire k @ r) s = Some s'" "inv_but 0 s'"
    "\<forall>a. found s k \<noteq> Some a \<longrightarrow> cents s' a = cents s a"
    "\<forall>k'. wf_name k' \<longrightarrow> found s' k' = (if fold_name k' = fold_name k then None else found s k')" by (rule okE) blast
  have "content s' k' = (if fold_name k' = fold_name k then None else content s k')" if k': "wf_name k'" for k'
  proof (cases "fold_name k' = fold_name k")
    case False
    have "content s' k' = content s k'"
    proof (rule content_eq)
      show "found s' k' = found s k'" using o(4) k' False by simp
      fix b assume "found s k' = Some b"
      then have "found s k \<noteq> Some b" using same_entry_name [OF inv, of k' b k] False by auto
      then show "cents s' b = cents s b" using o(3) by blast
    qed
    with False show ?thesis by simp
  qed (use o(4) k' in \<open>simp add: content_def\<close>)
  then show ?thesis unfolding o(1) ok_Some cache_inv_but using o(2) by blast
qed

theorem del_cache_content_witness:
  "\<exists>s. content s [[97]] \<noteq> None \<and> ok (del_cache (wire [[65]] @ []) s) (\<lambda>s'. cache_inv s' \<and>
    (\<forall>k'. wf_name k' \<longrightarrow> content s' k' = (if fold_name k' = fold_name [[65]] then None else content s k')))"
proof -
  obtain s dl V where s: "cache_inv s" "content s [[97]] = Some (dl, V)" using example_cache by metis
  have "wf_name [[65]]" by (simp add: wf_name_def wf_label_def DNSNAMEBUFSIZE_def)
  from del_cache_content [OF s(1) this, of "[]"] s(2) show ?thesis by blast
qed

text \<open>
  C16. \<^verbatim>\<open>invalidate_record\<close> gives every record set of the entry the time stamp 0 and takes away the authority flags; other names
  and the consistency of the cache are not affected. So from the time on at which the longest lifetime counted from 0 is over, only
  records that are local or marked as not to be purged are still handed out.
\<close>

theorem invalidate_record_content:
  assumes "cache_inv s" and "wf_name k" and "content s k = Some (dl, V)" and "\<forall>i rs. V i = Some rs \<longrightarrow> CLAT_ADJ (ttl rs) < now"
  shows "ok (invalidate_record (wire k @ r) s) (\<lambda>s'. cache_inv s' \<and>
    (\<forall>k'. wf_name k' \<longrightarrow> content s' k' = (if fold_name k' = fold_name k then Some (dl, \<lambda>i. map_option invalid (V i)) else content s k')) \<and>
    (\<forall>i rs. live_rrs now (\<lambda>i. map_option invalid (V i)) i = Some rs \<longrightarrow> has (flags rs) CF_LOCAL \<or> has (flags rs) CF_NOPURGE))"
proof -
  have inv: "inv_but 0 s" using assms(1) by (simp add: cache_inv_but)
  obtain a where a: "found s k = Some a" "dl = has (cflags (the (cents s a))) DF_LOCAL" "V = view (the (cents s a))"
    using assms(3) by (auto simp: content_def split: option.splits)
  from invalidate_record_ok [OF inv assms(2), of r] a(1) obtain s' c' where o: "invalidate_record (wire k @ r) s = Some s'" "inv_but 0 s'"
    "same_table s s'" "cents s' = (cents s)(a \<mapsto> c')" "invalidated (the (cents s a)) c'" by (auto elim!: okE)
  have "has (cflags c') DF_LOCAL = dl" using o(5) a(2) has_DF_LOCAL_clear by (simp add: invalidated_def)
  moreover have "view c' = (\<lambda>i. map_option invalid (V i))"
  proof
    fix i show "view c' i = map_option invalid (V i)"
      using o(5) a(3) by (cases "rr (the (cents s a)) i") (simp_all add: invalidated_def view_def invalid_def)
  qed
  ultimately have "content s' k' = (if fold_name k' = fold_name k then Some (dl, \<lambda>i. map_option invalid (V i)) else content s k')" if "wf_name k'" for k'
    using content_upd [OF inv a(1) o(3,4) that] by simp
  moreover have "has (flags rs) CF_LOCAL \<or> has (flags rs) CF_NOPURGE" if "live_rrs now (\<lambda>i. map_option invalid (V i)) i = Some rs" for i rs
    using that assms(4) CLAT_ADJ_time by (fastforce simp: live_rrs_def purgeable_def timedout_def invalid_def split: option.splits if_splits)
  ultimately show ?thesis unfolding o(1) ok_Some cache_inv_but using o(2) by blast
qed

lemma sample_lifetime:
  assumes "evicted (Some (fresh_content sample_parms (sample_cent fl))) (Some (dl, V))" and "V i = Some rs"
  shows "CLAT_ADJ (ttl rs) < 9000000"
proof -
  have "V i = fresh_set sample_parms (rr (sample_cent fl) i)" using assms by (auto simp: evicted_def fresh_content_def dest: spec [of _ i])
  then have "ttl rs = ttl (adjust_ttl sample_parms (sample_rrset fl))" using assms(2) by (auto simp: sample_rr fresh_set_def split: if_splits)
  then show ?thesis by (simp add: CLAT_ADJ_def CACHE_LAT_def adjust_ttl_def sample_rrset_def sample_parms_def Let_def)
qed

theorem invalidate_record_content_witness:
  "\<exists>s dl V. content s [[97]] = Some (dl, V) \<and> ok (invalidate_record (wire [[97]] @ []) s) (\<lambda>s'. cache_inv s' \<and>
    (\<forall>k'. wf_name k' \<longrightarrow> content s' k' = (if fold_name k' = fold_name [[97]] then Some (dl, \<lambda>i. map_option invalid (V i)) else content s k')) \<and>
    (\<forall>i rs. live_rrs 9000000 (\<lambda>i. map_option invalid (V i)) i = Some rs \<longrightarrow> has (flags rs) CF_LOCAL \<or> has (flags rs) CF_NOPURGE))"
proof -
  have "num_rrs (sample_cent CF_LOCAL) \<noteq> 0" by (simp add: sample_cent_def)
  then obtain s where s: "cache_inv s" "evicted (Some (fresh_content sample_parms (sample_cent CF_LOCAL))) (content s [[97]])"
    by (rule add_to_init [OF sample_name sample_ok(1) _ sample_compatible])
  have "is_local (fresh_set sample_parms (rr (sample_cent CF_LOCAL) 0))" using sample_local .
  then obtain dl V where V: "content s [[97]] = Some (dl, V)" using s(2) by (auto simp: evicted_def fresh_content_def split: option.splits)
  then have "\<forall>i rs. V i = Some rs \<longrightarrow> CLAT_ADJ (ttl rs) < 9000000" using sample_lifetime s(2) by metis
  from invalidate_record_content [OF s(1) sample_name(1) V this, of "[]"] V show ?thesis by blast
qed

end
