(* ===== verification/DiskCache.thy ===== *)
theory DiskCache
  imports CacheProps
begin

text \<open>
  The cache file (\<^verbatim>\<open>read_disk_cache\<close>, \<^verbatim>\<open>write_rrset\<close> and \<^verbatim>\<open>write_disk_cache\<close> of \<^verbatim>\<open>src/cache.c\<close>): writing the entries that are not
  local when the program ends, and reading them back when it starts.

  A file is the list of its bytes. The structures are written as they are in memory, on a little-endian machine with a
  \<^verbatim>\<open>time_t\<close> and an \<^verbatim>\<open>unsigned long\<close> of 8 bytes; those with the attribute \<^verbatim>\<open>packed\<close> have no padding.
\<close>

section \<open>Structures in the file\<close>

fun le_bytes :: "nat \<Rightarrow> nat \<Rightarrow> bytes" where
  "le_bytes 0 x = []"
| "le_bytes (Suc n) x = of_nat x # le_bytes n (x div 256)"

fun le_val :: "bytes \<Rightarrow> nat" where
  "le_val [] = 0"
| "le_val (b # bs) = unat b + 256 * le_val bs"

definition put_time :: "int \<Rightarrow> bytes" where
  "put_time t = le_bytes 8 (nat (t mod 2 ^ 64))"

definition get_time :: "bytes \<Rightarrow> int" where
  "get_time bs = (let x = int (le_val bs) in if x < 2 ^ 63 then x else x - 2 ^ 64)"

definition cachverid :: bytes where
  "cachverid = [0x70, 0x64, 0x31, 0x33]"

record rr_fset =
  f_tp :: nat
  f_num_rr :: nat
  f_flags :: "16 word"
  f_ttl :: int
  f_ts :: int

definition put_fset :: "rr_fset \<Rightarrow> bytes" where
  "put_fset sh = le_bytes 1 (f_tp sh) @ le_bytes 1 (f_num_rr sh) @ le_bytes 2 (unat (f_flags sh)) @ put_time (f_ttl sh) @ put_time (f_ts sh)"

definition get_fset :: "bytes \<Rightarrow> rr_fset" where
  "get_fset b = \<lparr>f_tp = le_val (take 1 b), f_num_rr = le_val (take 1 (drop 1 b)), f_flags = of_nat (le_val (take 2 (drop 2 b))),
     f_ttl = get_time (take 8 (drop 4 b)), f_ts = get_time (take 8 (drop 12 b))\<rparr>"

record dns_file =
  f_qlen :: nat
  f_num_rrs :: nat
  f_cflags :: "16 word"
  f_c_ns :: byte
  f_c_soa :: byte

definition put_file :: "dns_file \<Rightarrow> bytes" where
  "put_file fe = le_bytes 1 (f_qlen fe) @ le_bytes 1 (f_num_rrs fe) @ le_bytes 2 (unat (f_cflags fe)) @ [f_c_ns fe, f_c_soa fe]"

definition get_file :: "bytes \<Rightarrow> dns_file" where
  "get_file b = \<lparr>f_qlen = le_val (take 1 b), f_num_rrs = le_val (take 1 (drop 1 b)), f_cflags = of_nat (le_val (take 2 (drop 2 b))),
     f_c_ns = of_nat (le_val (take 1 (drop 4 b))), f_c_soa = of_nat (le_val (take 1 (drop 5 b)))\<rparr>"

section \<open>Reading\<close>

text \<open>\<^verbatim>\<open>fread(buf,n,1,f)\<close>; \<open>None\<close> when it does not return 1.\<close>

definition fread :: "nat \<Rightarrow> bytes \<Rightarrow> (bytes \<times> bytes) option" where
  "fread n f = (if n \<le> length f then Some (take n f, drop n f) else None)"

text \<open>The labels at which reading ends; those that free the entry in hand carry it.\<close>

datatype stop = free_cent_data_fclose dns_cent | free_data_fclose | free_cent_data_fclose_exit dns_cent | free_data_fclose_exit

text \<open>What is left of the file, the size of the buffer \<^verbatim>\<open>data\<close> and the outcomes of the allocations to come.\<close>

record rstate =
  rfile :: bytes
  dtsz :: nat
  rmem :: allocs

fun read_rrs :: "rr_fset \<Rightarrow> nat \<Rightarrow> dns_cent \<Rightarrow> rstate \<Rightarrow> ((stop + dns_cent) \<times> rstate) option" where
  "read_rrs sh 0 ce st = Some (Inr ce, st)"
| "read_rrs sh (Suc n) ce st = (case fread 2 (rfile st) of
     None \<Rightarrow> Some (Inl (free_cent_data_fclose ce), st)
   | Some (b, f) \<Rightarrow>
       let rdlen = le_val b; (mem, al) = (if rdlen > dtsz st then malloc (rmem st) else (True, rmem st)) in
       if \<not> mem then Some (Inl (free_cent_data_fclose_exit ce), \<lparr>rfile = f, dtsz = rdlen, rmem = al\<rparr>)
       else (case (if rdlen = 0 then Some ([], f) else fread rdlen f) of
         None \<Rightarrow> Some (Inl (free_cent_data_fclose ce), \<lparr>rfile = f, dtsz = max (dtsz st) rdlen, rmem = al\<rparr>)
       | Some (dat, f) \<Rightarrow> do {
           (r, ce, _, al) \<leftarrow> add_cent_rr ce (f_tp sh) (f_ttl sh) (f_ts sh) (f_flags sh) dat [] al;
           let st = \<lparr>rfile = f, dtsz = max (dtsz st) rdlen, rmem = al\<rparr>;
           if r then read_rrs sh n ce st else Some (Inl (free_cent_data_fclose_exit ce), st) }))"

text \<open>The entry in hand is not in the cache, so the list \<open>rrset_l\<close> does not matter for it.\<close>

fun read_rrsets :: "nat \<Rightarrow> nat \<Rightarrow> dns_cent \<Rightarrow> rstate \<Rightarrow> ((stop + dns_cent) \<times> rstate) option" where
  "read_rrsets 0 prevtp ce st = Some (Inr ce, st)"
| "read_rrsets (Suc n) prevtp ce st = (case fread 20 (rfile st) of
     None \<Rightarrow> Some (Inl (free_cent_data_fclose ce), st)
   | Some (b, f) \<Rightarrow>
       let sh = get_fset b; st = st\<lparr>rfile := f\<rparr> in
       if PDNSD_NOT_CACHED_TYPE (f_tp sh) then Some (Inl free_data_fclose, st)
       else if f_tp sh \<le> prevtp then Some (Inl free_data_fclose, st)
       else do {
         (r, ce, _, al) \<leftarrow> add_cent_rrset_by_type ce (f_tp sh) (f_ttl sh) (f_ts sh) (f_flags sh) [] (rmem st);
         let st = st\<lparr>rmem := al\<rparr>;
         if \<not> r then Some (Inl (free_cent_data_fclose_exit ce), st)
         else do {
           (x, st) \<leftarrow> read_rrs sh (f_num_rr sh) ce st;
           (case x of Inl e \<Rightarrow> Some (Inl e, st) | Inr ce \<Rightarrow> read_rrsets n (f_tp sh) ce st) } })"

text \<open>The check of the domain name.\<close>

function check_qname :: "bytes \<Rightarrow> nat \<Rightarrow> nat \<Rightarrow> bool option" where
  "check_qname nb qlen i = (if i < qlen then do {
       lb \<leftarrow> rd nb i;
       if lb = 0 \<or> lb > 63 \<or> i + (unat lb + 1) > qlen then Some False else check_qname nb qlen (i + (unat lb + 1)) }
     else Some True)"
  by pat_completeness auto
termination by (relation "measure (\<lambda>(nb, qlen, i). qlen - i)") auto

declare check_qname.simps [simp del]

definition read_name :: "nat \<Rightarrow> bytes \<Rightarrow> (bytes \<times> bytes) option option" where
  "read_name qlen f = (if qlen = 0 then Some (Some ([], f))
     else (case fread qlen f of None \<Rightarrow> Some None
       | Some (nb, f) \<Rightarrow> do {
           r \<leftarrow> check_qname nb qlen 0;
           Some (if r then Some (nb, f) else None) }))"

definition read_entry :: "rstate \<Rightarrow> ((stop + dns_cent) \<times> rstate) option" where
  "read_entry st = (case fread 6 (rfile st) of None \<Rightarrow> Some (Inl free_data_fclose, st)
   | Some (b, f) \<Rightarrow> let fe = get_file b in
     (case (if has (f_cflags fe) DF_NEGATIVE then fread 16 f else Some (replicate 16 0, f)) of
        None \<Rightarrow> Some (Inl free_data_fclose, st\<lparr>rfile := f\<rparr>)
      | Some (tb, f) \<Rightarrow> do {
          nm \<leftarrow> read_name (f_qlen fe) f;
          (case nm of None \<Rightarrow> Some (Inl free_data_fclose, st\<lparr>rfile := f\<rparr>)
           | Some (nb, f) \<Rightarrow> do {
               (ce, al) \<leftarrow> init_cent (nb @ [0]) (get_time (take 8 tb)) (get_time (drop 8 tb)) (f_cflags fe) (rmem st);
               let st = st\<lparr>rfile := f, rmem := al\<rparr>;
               (case ce of None \<Rightarrow> Some (Inl free_data_fclose_exit, st)
                | Some ce \<Rightarrow> read_rrsets (f_num_rrs fe) 0 (ce\<lparr>c_ns := f_c_ns fe, c_soa := f_c_soa fe\<rparr>) st) }) }))"

text \<open>\<open>clock n\<close> is the time at which the entry is added after which \<open>n\<close> more are to be read.\<close>

fun read_entries :: "globparm \<Rightarrow> (nat \<Rightarrow> int) \<Rightarrow> nat \<Rightarrow> cache \<Rightarrow> rstate \<Rightarrow> ((stop + unit) \<times> cache \<times> rstate) option" where
  "read_entries g clock 0 s st = Some (Inr (), s, st)"
| "read_entries g clock (Suc n) s st = do {
     (x, st) \<leftarrow> read_entry st;
     (case x of Inl e \<Rightarrow> Some (Inl e, s, st)
      | Inr ce \<Rightarrow> do {
          (s, al) \<leftarrow> add_cache g (clock n) ce s (rmem st);
          _ \<leftarrow> free_cent ce [];
          read_entries g clock n s (st\<lparr>rmem := al\<rparr>) }) }"

definition read_file :: "globparm \<Rightarrow> (nat \<Rightarrow> int) \<Rightarrow> cache \<Rightarrow> rstate \<Rightarrow> ((stop + unit) \<times> cache \<times> rstate) option" where
  "read_file g clock s st = (case fread (length cachverid) (rfile st) of None \<Rightarrow> Some (Inl free_data_fclose, s, st)
   | Some (b, f) \<Rightarrow> if b \<noteq> cachverid then Some (Inl free_data_fclose, s, st)
     else (case fread 8 f of None \<Rightarrow> Some (Inl free_data_fclose, s, st)
       | Some (b, f) \<Rightarrow> read_entries g clock (le_val b) s (st\<lparr>rfile := f\<rparr>)))"

definition sort_after_read :: "cache \<Rightarrow> cache option" where
  "sort_after_read s = (if \<not> insert_sort s then do { s \<leftarrow> sort_rrl s; Some (s\<lparr>insert_sort := True\<rparr>) } else Some s)"

text \<open>The first component of the result is false if the program exits for lack of memory; \<open>file\<close> is \<open>None\<close> if the file cannot be opened.\<close>

definition read_disk_cache :: "globparm \<Rightarrow> (nat \<Rightarrow> int) \<Rightarrow> bytes option \<Rightarrow> cache \<Rightarrow> allocs \<Rightarrow> (bool \<times> cache) option" where
  "read_disk_cache g clock file s al = (case file of None \<Rightarrow> Some (True, s)
   | Some f \<Rightarrow> let (mem, al) = malloc al in
     if \<not> mem then Some (False, s)
     else do {
       (x, s, st) \<leftarrow> read_file g clock (s\<lparr>insert_sort := False\<rparr>) \<lparr>rfile = f, dtsz = 512, rmem = al\<rparr>;
       (case x of
          Inr _ \<Rightarrow> map_option (Pair True) (sort_after_read s)
        | Inl free_data_fclose \<Rightarrow> map_option (Pair True) (sort_after_read s)
        | Inl (free_cent_data_fclose ce) \<Rightarrow> do { _ \<leftarrow> free_cent ce []; map_option (Pair True) (sort_after_read s) }
        | Inl (free_cent_data_fclose_exit ce) \<Rightarrow> do { _ \<leftarrow> free_cent ce []; Some (False, s) }
        | Inl free_data_fclose_exit \<Rightarrow> Some (False, s)) })"

section \<open>Writing\<close>

text \<open>The file so far, and the outcomes of the calls of \<^verbatim>\<open>fwrite\<close> to come. After a failure nothing more is written.\<close>

type_synonym wstate = "bytes \<times> bool list"

definition fwrite :: "bytes \<Rightarrow> wstate \<Rightarrow> bool \<times> wstate" where
  "fwrite b w = (let (r, ws) = malloc (snd w) in (r, if r then fst w @ b else fst w, ws))"

fun write_rrs :: "bytes list \<Rightarrow> wstate \<Rightarrow> bool \<times> wstate" where
  "write_rrs [] w = (True, w)"
| "write_rrs (d # ds) w = (let rdlen = length d mod 2 ^ 16; (r, w) = fwrite (le_bytes 2 rdlen) w in
     if \<not> r then (False, w)
     else let (r, w) = (if rdlen = 0 then (True, w) else fwrite (take rdlen d) w) in
       if r then write_rrs ds w else (False, w))"

definition write_rrset :: "nat \<Rightarrow> rr_set \<Rightarrow> wstate \<Rightarrow> bool \<times> wstate" where
  "write_rrset tp rs w = (let num_rr = min 255 (length (rrs rs));
       (r, w) = fwrite (put_fset \<lparr>f_tp = tp, f_num_rr = num_rr, f_flags = flags rs, f_ttl = ttl rs, f_ts = ts rs\<rparr>) w in
     if r then write_rrs (take num_rr (rrs rs)) w else (False, w))"

fun any_foreign :: "dns_cent \<Rightarrow> nat list \<Rightarrow> bool option" where
  "any_foreign c [] = Some False"
| "any_foreign c (i # is) = do {
     r \<leftarrow> RRARR_INDEX c i;
     if (case r of None \<Rightarrow> False | Some rs \<Rightarrow> \<not> has (flags rs) CF_LOCAL) then Some True else any_foreign c is }"

text \<open>Whether the entry is written.\<close>

definition to_write :: "dns_cent \<Rightarrow> bool option" where
  "to_write c = (if is_neg c then Some (\<not> has (cflags c) DF_LOCAL)
     else do { jlim \<leftarrow> RRARR_LEN c; any_foreign c [0..<jlim] })"

fun count_entries :: "cache \<Rightarrow> nat list \<Rightarrow> nat option" where
  "count_entries s [] = Some 0"
| "count_entries s (a # as) = do {
     c \<leftarrow> cents s a;
     b \<leftarrow> to_write c;
     n \<leftarrow> count_entries s as;
     Some (if b then n + 1 else n) }"

fun count_foreign :: "dns_cent \<Rightarrow> nat list \<Rightarrow> nat option" where
  "count_foreign c [] = Some 0"
| "count_foreign c (i # is) = do {
     r \<leftarrow> RRARR_INDEX c i;
     n \<leftarrow> count_foreign c is;
     Some (case r of None \<Rightarrow> n | Some rs \<Rightarrow> if has (flags rs) CF_LOCAL then n else n + 1) }"

definition NRRITERLIST :: "dns_cent \<Rightarrow> nat option" where
  "NRRITERLIST c = RRARR_LEN c"

definition RRITERLIST :: "dns_cent \<Rightarrow> nat list option" where
  "RRITERLIST c = (if is_neg c then Some [] else (case body c of Neg _ _ _ \<Rightarrow> None
     | RR mu ext \<Rightarrow> Some (if ext \<noteq> None then rrcachiterlist else rrmuiterlist)))"

fun write_rrsets :: "dns_cent \<Rightarrow> nat list \<Rightarrow> wstate \<Rightarrow> (bool \<times> wstate) option" where
  "write_rrsets c [] w = Some (True, w)"
| "write_rrsets c (tp # tps) w = do {
     r \<leftarrow> getrrset_eff c tp;
     (case r of None \<Rightarrow> write_rrsets c tps w
      | Some rs \<Rightarrow> if has (flags rs) CF_LOCAL then write_rrsets c tps w
          else let (r, w) = write_rrset tp rs w in if r then write_rrsets c tps w else Some (False, w)) }"

definition write_entry :: "dns_cent \<Rightarrow> wstate \<Rightarrow> (bool \<times> wstate) option" where
  "write_entry c w = do {
     n \<leftarrow> rhnlen (qname c);
     n \<leftarrow> usub n 1;
     let qlen = n mod 256;
     jlim \<leftarrow> RRARR_LEN c;
     num_rrs \<leftarrow> count_foreign c [0..<jlim];
     let (r, w) = fwrite (put_file \<lparr>f_qlen = qlen, f_num_rrs = num_rrs, f_cflags = cflags c, f_c_ns = c_ns c, f_c_soa = c_soa c\<rparr>) w;
     if \<not> r then Some (False, w)
     else do {
       (r, w) \<leftarrow> (if is_neg c then (case body c of RR _ _ \<Rightarrow> None | Neg _ t u \<Rightarrow> Some (fwrite (put_time t @ put_time u) w)) else Some (True, w));
       if \<not> r then Some (False, w)
       else do {
         nm \<leftarrow> (if qlen \<le> length (qname c) then Some (take qlen (qname c)) else None);
         let (r, w) = (if qlen = 0 then (True, w) else fwrite nm w);
         if \<not> r then Some (False, w)
         else do {
           j \<leftarrow> NRRITERLIST c;
           iterlist \<leftarrow> RRITERLIST c;
           write_rrsets c (take j iterlist) w } } } }"

fun write_entries :: "cache \<Rightarrow> nat list \<Rightarrow> wstate \<Rightarrow> (bool \<times> wstate) option" where
  "write_entries s [] w = Some (True, w)"
| "write_entries s (a # as) w = do {
     c \<leftarrow> cents s a;
     b \<leftarrow> to_write c;
     if b then do {
       (r, w) \<leftarrow> write_entry c w;
       if r then write_entries s as w else Some (False, w) }
     else write_entries s as w }"

text \<open>
  \<open>locks\<close> are the outcomes of \<^verbatim>\<open>softlock_cache_rw\<close>, \<^verbatim>\<open>softunlock_cache_rw\<close> and \<^verbatim>\<open>softlock_cache_r\<close>, \<open>env\<close> is the effect
  of other threads between the two locks, \<open>opened\<close> the outcome of \<^verbatim>\<open>fopen\<close>. The result is the cache, whether the file is complete, and the file
  unless it is not touched.
\<close>

definition write_file :: "cache \<Rightarrow> bool list \<Rightarrow> (bool \<times> bytes) option" where
  "write_file s ws = (let (r, w) = fwrite cachverid ([], ws) in
     if \<not> r then Some (False, fst w)
     else do {
       as \<leftarrow> fetch_all (hash_buckets s);
       en \<leftarrow> count_entries s as;
       let (r, w) = fwrite (le_bytes 8 en) w;
       if \<not> r then Some (False, fst w)
       else do {
         as \<leftarrow> fetch_all (hash_buckets s);
         (r, w) \<leftarrow> write_entries s as w;
         Some (r, fst w) } })"

definition write_disk_cache :: "globparm \<Rightarrow> int \<Rightarrow> bool \<times> bool \<times> bool \<Rightarrow> (cache \<Rightarrow> cache) \<Rightarrow> bool \<Rightarrow> bool list \<Rightarrow> cache \<Rightarrow>
   (cache \<times> (bool \<times> bytes) option) option" where
  "write_disk_cache g now locks env opened ws s = (case locks of (l1, l2, l3) \<Rightarrow>
     if \<not> l1 then Some (s, None)
     else do {
       s \<leftarrow> purge_cache now (perm_cache g * 1024) False s;
       if \<not> l2 then Some (s, None)
       else let s = env s in
         if \<not> l3 \<or> \<not> opened then Some (s, None)
         else do { r \<leftarrow> write_file s ws; Some (s, Some r) } })"

section \<open>The structures can be read back\<close>

lemma length_le_bytes [simp]: "length (le_bytes n x) = n"
  by (induction n arbitrary: x) simp_all

lemma le_val_bytes: "le_val (le_bytes n x) = x mod 256 ^ n"
proof (induction n arbitrary: x)
  case (Suc n)
  have "x mod 256 ^ Suc n = x mod 256 + 256 * (x div 256 mod 256 ^ n)" using mod_mult2_eq [of x 256 "256 ^ n"] by (simp add: mult.commute)
  then show ?case using Suc by (simp add: unat_of_nat)
qed simp

lemma le_val_lt: "le_val bs < 256 ^ length bs"
proof (induction bs)
  case (Cons b bs)
  have "unat b < 256" using unsigned_less [of b] by simp
  then show ?case using Cons by simp
qed simp

lemma le_val_bytes_id [simp]: "x < 256 ^ n \<Longrightarrow> le_val (le_bytes n x) = x"
  by (simp add: le_val_bytes)

definition in_time :: "int \<Rightarrow> bool" where
  "in_time t \<longleftrightarrow> - (2 ^ 63) \<le> t \<and> t < 2 ^ 63"

lemma length_put_time [simp]: "length (put_time t) = 8"
  by (simp add: put_time_def)

lemma get_put_time [simp]:
  assumes "in_time t"
  shows "get_time (put_time t) = t"
proof -
  have "nat (t mod 2 ^ 64) < 256 ^ 8" by (simp add: nat_less_iff)
  then have v: "int (le_val (put_time t)) = t mod 2 ^ 64" by (simp add: put_time_def)
  show ?thesis
  proof (cases "0 \<le> t")
    case True
    then have "t mod 2 ^ 64 = t" using assms by (intro mod_pos_pos_trivial) (simp_all add: in_time_def)
    then show ?thesis using v assms by (simp add: get_time_def in_time_def)
  next
    case False
    then have "(t + 2 ^ 64) mod 2 ^ 64 = t + 2 ^ 64" using assms by (intro mod_pos_pos_trivial) (simp_all add: in_time_def)
    then have "t mod 2 ^ 64 = t + 2 ^ 64" by simp
    then show ?thesis using v assms False by (simp add: get_time_def in_time_def)
  qed
qed

lemma length_put_fset [simp]: "length (put_fset sh) = 20"
  by (simp add: put_fset_def)

lemma length_put_file [simp]: "length (put_file fe) = 6"
  by (simp add: put_file_def)

lemma flags_bytes: "(of_nat (le_val (le_bytes 2 (unat (w :: 16 word)))) :: 16 word) = w"
proof -
  have "unat w < 2 ^ LENGTH(16)" by (rule unsigned_less)
  then show ?thesis by simp
qed

lemma byte_bytes: "(of_nat (le_val [b]) :: byte) = b"
  by simp

lemma get_put_fset [simp]:
  assumes "f_tp sh < 256" and "f_num_rr sh < 256" and "in_time (f_ttl sh)" and "in_time (f_ts sh)"
  shows "get_fset (put_fset sh) = sh"
  unfolding get_fset_def put_fset_def using assms flags_bytes [of "f_flags sh"]
  by (cases sh) (simp del: le_bytes.simps)

lemma get_put_file [simp]:
  assumes "f_qlen fe < 256" and "f_num_rrs fe < 256"
  shows "get_file (put_file fe) = fe"
  unfolding get_file_def put_file_def using assms flags_bytes [of "f_cflags fe"]
  by (cases fe) (simp del: le_bytes.simps)

lemma fread_append [simp]: "length xs = n \<Longrightarrow> fread n (xs @ f) = Some (xs, f)"
  by (auto simp: fread_def)

section \<open>Reading any file\<close>

text \<open>An entry that is not linked with the cache.\<close>

definition loose :: "dns_cent \<Rightarrow> bool" where
  "loose c \<longleftrightarrow> cent_ok c \<and> nodes 0 c = {}"

lemma loose_linked: "loose c \<longleftrightarrow> cent_ok c \<and> linked {} 0 c []"
  by (simp add: loose_def linked_def) auto

lemma loose_free: "loose c \<Longrightarrow> free_cent c [] = Some []"
  using free_cent_ok [of c "{}" 0 "[]"] by (simp add: loose_linked cent_ok_def)

abbreviation tidx :: "nat \<Rightarrow> nat" where
  "tidx tp \<equiv> rrlkuptab ! (tp - T_MIN)"

lemma tidx_inj:
  assumes "\<not> PDNSD_NOT_CACHED_TYPE tp" "\<not> PDNSD_NOT_CACHED_TYPE tp'" "tidx tp = tidx tp'"
  shows "tp = tp'"
proof -
  have "tp - T_MIN < length rrlkuptab" "tp' - T_MIN < length rrlkuptab" using cached_type(2) assms(1,2) by (simp_all add: length_rrlkuptab)
  then have "tp - T_MIN = tp' - T_MIN" using nth_eq_iff_index_eq [OF distinct_rrlkuptab] assms(3) by blast
  then show ?thesis using cached_type(1) [OF assms(1)] cached_type(1) [OF assms(2)] by simp
qed

lemma clear_absent:
  assumes "\<not> has f DF_NEGATIVE"
  shows "f AND NOT DF_NEGATIVE = f"
proof -
  have "f = (f AND DF_NEGATIVE) OR (f AND NOT DF_NEGATIVE)" by (rule bit_word_eqI) (auto simp: bit_simps)
  then show ?thesis using assms by (simp add: has_def)
qed

lemma loose_add_rr:
  assumes c: "loose c" and tp: "\<not> PDNSD_NOT_CACHED_TYPE tp"
  shows "ok (add_cent_rr c tp ttl0 ts0 fl d [] al) (\<lambda>(r, c', _, al'). loose c' \<and> qname c' = qname c \<and> (\<forall>j. j \<noteq> tidx tp \<longrightarrow> rr c' j = rr c j) \<and>
    (al = [] \<longrightarrow> r \<and> al' = []))"
proof (cases "has (cflags c) DF_LOCAL \<and> \<not> has fl CF_LOCAL")
  case True
  then show ?thesis using c by (simp add: add_cent_rr_def)
next
  case False
  have "cent_ok c" "linked {} 0 c []" using c by (simp_all add: loose_linked)
  from add_cent_rr_ok [OF this tp refl False, of ttl0 ts0 d al] obtain r c' l' al' where o: "add_cent_rr c tp ttl0 ts0 fl d [] al = Some (r, c', l', al')"
    "cent_ok c'" "linked {} 0 c' l'" "r \<longrightarrow> rr c' = (rr c)(tidx tp := Some (rrset_add (old_rrset c (tidx tp) ttl0 ts0 fl) ttl0 d))"
    "\<not> r \<longrightarrow> rr c' = (rr c)(tidx tp := map_option (\<lambda>rs. rs\<lparr>ttl := min (ttl rs) ttl0\<rparr>) (rr c (tidx tp)))" "qname c' = qname c" "l' = []"
    "al = [] \<longrightarrow> r \<and> al' = []" by (rule ok4E) blast
  then show ?thesis by (cases r) (simp_all add: loose_linked)
qed

lemma loose_add_rrset:
  assumes c: "loose c" and tp: "\<not> PDNSD_NOT_CACHED_TYPE tp" and free: "rr c (tidx tp) = None"
  shows "ok (add_cent_rrset_by_type c tp ttl0 ts0 fl [] al) (\<lambda>(r, c', _, al'). loose c' \<and> qname c' = qname c \<and>
    rr c' = (if r then (rr c)(tidx tp := Some (new_rrset ttl0 ts0 fl)) else rr c) \<and> \<not> is_neg c' \<and>
    cflags c' = cflags c AND NOT DF_NEGATIVE \<and> c_ns c' = c_ns c \<and> c_soa c' = c_soa c \<and> (al = [] \<longrightarrow> r \<and> al' = []))"
proof -
  note t = cached_type [OF tp]
  have "cent_ok c" "linked {} 0 c []" using c by (simp_all add: loose_linked)
  from add_cent_rrset_by_index_ok [OF this t(4) free, of ttl0 ts0 fl al] obtain r c' l' al' where
    o: "add_cent_rrset_by_index c (tidx tp) ttl0 ts0 fl [] al = Some (r, c', l', al')" "cent_ok c'" "linked {} 0 c' l'" "\<not> is_neg c'"
      "rr c' = (if r then (rr c)(tidx tp := Some (new_rrset ttl0 ts0 fl)) else rr c)" "qname c' = qname c" "cflags c' = cflags c AND NOT DF_NEGATIVE"
      "c_ns c' = c_ns c" "c_soa c' = c_soa c" "l' = filter (\<lambda>e. e \<notin> nodes 0 c \<or> e \<in> nodes 0 c') []" "al = [] \<longrightarrow> r \<and> al' = []" by (rule ok4E) blast
  have "add_cent_rrset_by_type c tp ttl0 ts0 fl [] al = Some (r, c', l', al')" using o(1) t by (simp add: add_cent_rrset_by_type_def)
  then show ?thesis using o by (simp add: loose_linked)
qed

definition stop_ok :: "stop \<Rightarrow> bool" where
  "stop_ok e = (case e of free_cent_data_fclose ce \<Rightarrow> loose ce | free_cent_data_fclose_exit ce \<Rightarrow> loose ce | _ \<Rightarrow> True)"

lemma stop_ok_simps [simp]: "stop_ok (free_cent_data_fclose ce) = loose ce" "stop_ok (free_cent_data_fclose_exit ce) = loose ce"
  "stop_ok free_data_fclose" "stop_ok free_data_fclose_exit"
  by (simp_all add: stop_ok_def)

text \<open>Nothing is read twice, and while memory is available it stays so and the program does not exit.\<close>

definition shorter :: "rstate \<Rightarrow> rstate \<Rightarrow> bool" where
  "shorter st st' \<longleftrightarrow> length (rfile st') \<le> length (rfile st) \<and> (rmem st = [] \<longrightarrow> rmem st' = [])"

fun exits :: "stop \<Rightarrow> bool" where
  "exits (free_cent_data_fclose_exit ce) = True"
| "exits free_data_fclose_exit = True"
| "exits e = False"

definition stopped :: "rstate \<Rightarrow> stop \<Rightarrow> bool" where
  "stopped st e \<longleftrightarrow> stop_ok e \<and> (rmem st = [] \<longrightarrow> \<not> exits e)"

lemma fread_Some: "fread n f = Some (b, f') \<longleftrightarrow> n \<le> length f \<and> b = take n f \<and> f' = drop n f"
  by (auto simp: fread_def)

lemma read_rrs_loose:
  "loose ce \<Longrightarrow> \<not> PDNSD_NOT_CACHED_TYPE (f_tp sh) \<Longrightarrow> ok (read_rrs sh n ce st) (\<lambda>(x, st'). shorter st st' \<and>
    (case x of Inl e \<Rightarrow> stopped st e | Inr ce' \<Rightarrow> loose ce' \<and> qname ce' = qname ce \<and> (\<forall>j. j \<noteq> tidx (f_tp sh) \<longrightarrow> rr ce' j = rr ce j)))"
proof (induction n arbitrary: ce st)
  case 0
  then show ?case by (simp add: shorter_def)
next
  case (Suc n)
  show ?case
  proof (cases "fread 2 (rfile st)")
    case None
    then show ?thesis using Suc.prems by (simp add: shorter_def stopped_def)
  next
    case (Some bf)
    obtain b f where bf: "bf = (b, f)" by (cases bf)
    obtain mem al where m: "(if le_val b > dtsz st then malloc (rmem st) else (True, rmem st)) = (mem, al)" by (cases "if le_val b > dtsz st then malloc (rmem st) else (True, rmem st)")
    have f: "length f \<le> length (rfile st)" using Some bf by (auto simp: fread_Some)
    have m0: "rmem st = [] \<longrightarrow> mem \<and> al = []" using m by (auto split: if_splits)
    note eq = read_rrs.simps(2) [of sh n ce st, unfolded Some bf option.case prod.case Let_def m]
    show ?thesis
    proof (cases "mem \<and> (if le_val b = 0 then Some ([], f) else fread (le_val b) f) \<noteq> None")
      case False
      then show ?thesis using eq Suc.prems f m0 by (cases mem; cases "fread (le_val b) f") (auto simp: shorter_def stopped_def simp del: read_rrs.simps)
    next
      case True
      then obtain dat f' where d: "(if le_val b = 0 then Some ([], f) else fread (le_val b) f) = Some (dat, f')" by auto
      then have f': "length f' \<le> length f" by (auto simp: fread_Some split: if_splits)
      let ?st = "\<lambda>al. \<lparr>rfile = f', dtsz = max (dtsz st) (le_val b), rmem = al\<rparr>"
      from loose_add_rr [OF Suc.prems, of "f_ttl sh" "f_ts sh" "f_flags sh" dat al] obtain r ce' l' al' where
        a: "add_cent_rr ce (f_tp sh) (f_ttl sh) (f_ts sh) (f_flags sh) dat [] al = Some (r, ce', l', al')" "loose ce'" "qname ce' = qname ce"
          "\<forall>j. j \<noteq> tidx (f_tp sh) \<longrightarrow> rr ce' j = rr ce j" "al = [] \<longrightarrow> r \<and> al' = []" by (rule ok4E) blast
      have e: "read_rrs sh (Suc n) ce st = (if r then read_rrs sh n ce' (?st al') else Some (Inl (free_cent_data_fclose_exit ce'), ?st al'))"
        using eq True d a(1) by simp
      show ?thesis
      proof (cases r)
        case False
        then show ?thesis unfolding e using a(2,5) f f' m0 by (auto simp: shorter_def stopped_def)
      next
        case True
        from Suc.IH [OF a(2) Suc.prems(2), of "?st al'"] obtain x st' where
          i: "read_rrs sh n ce' (?st al') = Some (x, st')" "shorter (?st al') st'"
            "case x of Inl e \<Rightarrow> stopped (?st al') e | Inr c \<Rightarrow> loose c \<and> qname c = qname ce' \<and> (\<forall>j. j \<noteq> tidx (f_tp sh) \<longrightarrow> rr c j = rr ce' j)" by (rule ok2E) blast
        have "shorter st st'" using i(2) f f' m0 a(5) by (auto simp: shorter_def)
        moreover have "rmem st = [] \<longrightarrow> rmem (?st al') = []" using m0 a(5) by auto
        ultimately show ?thesis unfolding e using True i(1,3) a(3,4) by (auto simp: stopped_def split: sum.splits)
      qed
    qed
  qed
qed

lemma get_fset_bound: "f_tp (get_fset b) < 256" "f_num_rr (get_fset b) < 256"
proof -
  have v: "le_val (take 1 bs) < 256" for bs
    using le_val_lt [of "take 1 bs"] power_increasing [of "length (take 1 bs)" 1 "256 :: nat"] by simp
  show "f_tp (get_fset b) < 256" "f_num_rr (get_fset b) < 256" using v by (simp_all add: get_fset_def)
qed

lemma read_rrsets_loose:
  "loose ce \<Longrightarrow> (\<forall>tp. \<not> PDNSD_NOT_CACHED_TYPE tp \<longrightarrow> prevtp < tp \<longrightarrow> rr ce (tidx tp) = None) \<Longrightarrow>
    ok (read_rrsets n prevtp ce st) (\<lambda>(x, st'). shorter st st' \<and> (case x of Inl e \<Rightarrow> stopped st e | Inr ce' \<Rightarrow> loose ce' \<and> qname ce' = qname ce))"
proof (induction n arbitrary: prevtp ce st)
  case 0
  then show ?case by (simp add: shorter_def)
next
  case (Suc n)
  show ?case
  proof (cases "fread 20 (rfile st)")
    case None
    then show ?thesis using Suc.prems by (simp add: shorter_def stopped_def)
  next
    case (Some bf)
    obtain b f where bf: "bf = (b, f)" by (cases bf)
    have f: "length f \<le> length (rfile st)" using Some bf by (auto simp: fread_Some)
    let ?sh = "get_fset b" let ?tp = "f_tp (get_fset b)" let ?st = "st\<lparr>rfile := f\<rparr>"
    show ?thesis
    proof (cases "PDNSD_NOT_CACHED_TYPE ?tp \<or> ?tp \<le> prevtp")
      case True
      then show ?thesis using Some bf f by (auto simp: shorter_def stopped_def Let_def)
    next
      case False
      then have tp: "\<not> PDNSD_NOT_CACHED_TYPE ?tp" and gt: "prevtp < ?tp" by simp_all
      have free: "rr ce (tidx ?tp) = None" using Suc.prems(2) tp gt by blast
      from loose_add_rrset [OF Suc.prems(1) tp free, of "f_ttl ?sh" "f_ts ?sh" "f_flags ?sh" "rmem st"] obtain r c1 l1 al1 where
        a: "add_cent_rrset_by_type ce ?tp (f_ttl ?sh) (f_ts ?sh) (f_flags ?sh) [] (rmem st) = Some (r, c1, l1, al1)" "loose c1" "qname c1 = qname ce"
          "rr c1 = (if r then (rr ce)(tidx ?tp := Some (new_rrset (f_ttl ?sh) (f_ts ?sh) (f_flags ?sh))) else rr ce)" "rmem st = [] \<longrightarrow> r \<and> al1 = []" by (rule ok4E) blast
      let ?st1 = "?st\<lparr>rmem := al1\<rparr>"
      from read_rrs_loose [OF a(2) tp, of "f_num_rr ?sh" ?st1] obtain x st2 where i: "read_rrs ?sh (f_num_rr ?sh) c1 ?st1 = Some (x, st2)" "shorter ?st1 st2"
        "case x of Inl e \<Rightarrow> stopped ?st1 e | Inr ce' \<Rightarrow> loose ce' \<and> qname ce' = qname c1 \<and> (\<forall>j. j \<noteq> tidx ?tp \<longrightarrow> rr ce' j = rr c1 j)" by (rule ok2E) blast
      have e: "read_rrsets (Suc n) prevtp ce st = (if \<not> r then Some (Inl (free_cent_data_fclose_exit c1), ?st1)
        else (case x of Inl e \<Rightarrow> Some (Inl e, st2) | Inr ce \<Rightarrow> read_rrsets n ?tp ce st2))"
        using Some bf tp gt a(1) i(1) by (simp add: Let_def)
      have sh2: "shorter st st2" "rmem st = [] \<longrightarrow> rmem ?st1 = []" using i(2) f a(5) by (auto simp: shorter_def)
      show ?thesis
      proof (cases "r \<and> (\<exists>c2. x = Inr c2)")
        case False
        then show ?thesis unfolding e using a(2,5) f i(3) sh2 by (cases x) (auto simp: shorter_def stopped_def)
      next
        case True
        then obtain c2 where x: "r" "x = Inr c2" by blast
        have "rr c2 (tidx tp) = None" if t: "\<not> PDNSD_NOT_CACHED_TYPE tp" "?tp < tp" for tp
        proof -
          have ne: "tidx tp \<noteq> tidx ?tp" using tidx_inj [OF t(1) tp] t(2) by auto
          then have "rr c2 (tidx tp) = rr ce (tidx tp)" using i(3) x a(4) by simp
          then show ?thesis using Suc.prems(2) t gt by simp
        qed
        moreover have "loose c2" "qname c2 = qname ce" using i(3) x(2) a(3) by simp_all
        ultimately have "ok (read_rrsets n ?tp c2 st2) (\<lambda>(x, st'). shorter st2 st' \<and> (case x of Inl e \<Rightarrow> stopped st2 e | Inr ce' \<Rightarrow> loose ce' \<and> qname ce' = qname c2))"
          using Suc.IH [of c2 ?tp st2] by blast
        then show ?thesis unfolding e using x sh2 \<open>qname c2 = qname ce\<close> by (auto simp: shorter_def stopped_def elim!: ok_mono split: sum.splits)
      qed
    qed
  qed
qed

lemma check_qname_ok:
  "length nb = qlen \<Longrightarrow> i \<le> qlen \<Longrightarrow> ok (check_qname nb qlen i) (\<lambda>r. r \<longrightarrow> (\<exists>ls. list_all wf_label ls \<and> drop i nb @ [0] = wire ls))"
proof (induction nb qlen i rule: check_qname.induct)
  case (1 nb qlen i)
  show ?case
  proof (cases "i < qlen")
    case False
    then have "drop i nb @ [0] = wire []" using "1.prems" by simp
    then show ?thesis using False by (subst check_qname.simps) (auto intro!: exI [of _ "[]"])
  next
    case True
    let ?lb = "nb ! i" let ?j = "i + (unat (nb ! i) + 1)"
    have r: "rd nb i = Some ?lb" using True "1.prems" by simp
    show ?thesis
    proof (cases "?lb = 0 \<or> ?lb > 63 \<or> ?j > qlen")
      case True
      then show ?thesis using r \<open>i < qlen\<close> by (subst check_qname.simps) auto
    next
      case False
      then have c: "?lb \<noteq> 0" "?lb \<le> 63" "?j \<le> qlen" by auto
      have eq: "check_qname nb qlen i = check_qname nb qlen ?j" using r True False by (subst check_qname.simps) simp
      let ?l = "take (unat ?lb) (drop (Suc i) nb)"
      have len: "length ?l = unat ?lb" using c(3) "1.prems"(1) by simp
      have "wf_label ?l" using c(1,2) len unat_gt_0 [of ?lb] by (simp add: wf_label_def word_le_nat_alt Suc_le_eq)
      moreover have dr: "drop i nb = of_nat (length ?l) # ?l @ drop ?j nb"
      proof -
        have "drop i nb = ?lb # drop (Suc i) nb" using True "1.prems"(1) by (simp add: Cons_nth_drop_Suc)
        also have "drop (Suc i) nb = ?l @ drop (unat ?lb) (drop (Suc i) nb)" by (rule append_take_drop_id [symmetric])
        also have "drop (unat ?lb) (drop (Suc i) nb) = drop ?j nb" by (simp add: add.commute)
        finally show ?thesis using len by simp
      qed
      ultimately have w: "list_all wf_label (?l # ls) \<and> drop i nb @ [0] = wire (?l # ls)" if "list_all wf_label ls" "drop ?j nb @ [0] = wire ls" for ls
        unfolding dr using that by simp
      have "ok (check_qname nb qlen ?j) (\<lambda>r. r \<longrightarrow> (\<exists>ls. list_all wf_label ls \<and> drop ?j nb @ [0] = wire ls))"
        using "1.IH" [OF True r] False "1.prems"(1) c(3) by simp
      then show ?thesis unfolding eq using w by (elim ok_mono) blast
    qed
  qed
qed

lemma read_name_ok:
  assumes "qlen < 256"
  shows "ok (read_name qlen f) (\<lambda>r. case r of None \<Rightarrow> True | Some (nb, f') \<Rightarrow> length f' \<le> length f \<and> (\<exists>ls. wf_name ls \<and> nb @ [0] = wire ls))"
proof (cases "qlen = 0 \<or> fread qlen f = None")
  case True
  then show ?thesis by (auto simp: read_name_def wf_name_def DNSNAMEBUFSIZE_def intro!: exI [of _ "[]"])
next
  case False
  then obtain nb f' where r: "fread qlen f = Some (nb, f')" by auto
  then have nb: "length nb = qlen" "length f' \<le> length f" by (auto simp: fread_Some)
  from check_qname_ok [OF nb(1) le0] obtain b where c: "check_qname nb qlen 0 = Some b" "b \<longrightarrow> (\<exists>ls. list_all wf_label ls \<and> nb @ [0] = wire ls)"
    by (auto elim!: okE)
  have "wf_name ls" if "list_all wf_label ls" "nb @ [0] = wire ls" for ls
  proof -
    have "length (wire ls) = length nb + 1" using that(2) by (metis length_append_singleton Suc_eq_plus1)
    then show ?thesis using that(1) nb(1) assms by (simp add: wf_name_def DNSNAMEBUFSIZE_def)
  qed
  then show ?thesis using False r nb(2) c by (auto simp: read_name_def)
qed

lemma get_file_bound: "f_qlen (get_file b) < 256"
  using get_fset_bound(1) [of b] by (simp add: get_file_def get_fset_def)

lemma set_refs_loose: "loose c \<Longrightarrow> loose (c\<lparr>c_ns := x, c_soa := y\<rparr>)" "rr (c\<lparr>c_ns := x, c_soa := y\<rparr>) = rr c"
proof -
  show r: "rr (c\<lparr>c_ns := x, c_soa := y\<rparr>) = rr c" by (simp add: fun_eq_iff rr_def slots_def)
  assume "loose c"
  then show "loose (c\<lparr>c_ns := x, c_soa := y\<rparr>)"
    using cent_ok_body [of c "c\<lparr>c_ns := x, c_soa := y\<rparr>"] nodes_body(1) [of "c\<lparr>c_ns := x, c_soa := y\<rparr>" c] by (simp add: loose_def is_neg_def)
qed

lemma init_cent_mem: "init_cent q a b fl [] = Some (ce, al) \<Longrightarrow> ce \<noteq> None \<and> al = []"
  by (auto simp: init_cent_def Let_def bind_eq_Some_conv split: if_splits)

lemma read_entry_loose:
  "ok (read_entry st) (\<lambda>(x, st'). case x of Inl e \<Rightarrow> stopped st e
    | Inr ce \<Rightarrow> length (rfile st') < length (rfile st) \<and> loose ce \<and> (rmem st = [] \<longrightarrow> rmem st' = []))"
proof (cases "fread 6 (rfile st)")
  case None
  then show ?thesis by (simp add: read_entry_def stopped_def)
next
  case (Some bf)
  obtain b f where bf: "bf = (b, f)" by (cases bf)
  have f: "length f < length (rfile st)" using Some bf by (auto simp: fread_Some)
  let ?fe = "get_file b"
  show ?thesis
  proof (cases "if has (f_cflags ?fe) DF_NEGATIVE then fread 16 f else Some (replicate 16 0, f)")
    case None
    then show ?thesis using Some bf by (simp add: read_entry_def stopped_def Let_def)
  next
    case tb: (Some tf)
    obtain tb f1 where tf: "tf = (tb, f1)" by (cases tf)
    have f1: "length f1 \<le> length f" using tb tf by (auto simp: fread_Some split: if_splits)
    note eq = read_entry_def [of st, unfolded Some bf option.case prod.case Let_def tb tf]
    from read_name_ok [OF get_file_bound, of b f1] obtain nm where n: "read_name (f_qlen ?fe) f1 = Some nm"
      "case nm of None \<Rightarrow> True | Some (nb, f') \<Rightarrow> length f' \<le> length f1 \<and> (\<exists>ls. wf_name ls \<and> nb @ [0] = wire ls)" by (rule okE)
    show ?thesis
    proof (cases nm)
      case None
      then show ?thesis using eq n(1) by (simp add: stopped_def)
    next
      case nm: (Some nf)
      obtain nb f2 where nf: "nf = (nb, f2)" by (cases nf)
      then obtain ls where ls: "length f2 \<le> length f1" "wf_name ls" "nb @ [0] = wire ls" using n(2) nm by auto
      from init_cent_ok [OF ls(2), of "[]" "get_time (take 8 tb)" "get_time (drop 8 tb)" "f_cflags ?fe" "rmem st" 0] obtain ce al where
        c: "init_cent (nb @ [0]) (get_time (take 8 tb)) (get_time (drop 8 tb)) (f_cflags ?fe) (rmem st) = Some (ce, al)"
          "\<forall>c. ce = Some c \<longrightarrow> cent_ok c \<and> nodes 0 c = {} \<and> rr c = (\<lambda>_. None)"
        unfolding ls(3) append_Nil2 by (rule ok2E) (auto split: option.splits)
      have c0: "rmem st = [] \<longrightarrow> ce \<noteq> None \<and> al = []" using c(1) init_cent_mem by metis
      let ?st = "st\<lparr>rfile := f2, rmem := al\<rparr>"
      show ?thesis
      proof (cases ce)
        case None
        then show ?thesis using eq n(1) nm nf c(1) c0 by (simp add: stopped_def)
      next
        case ce: (Some c0)
        let ?c = "c0\<lparr>c_ns := f_c_ns ?fe, c_soa := f_c_soa ?fe\<rparr>"
        have "loose c0" "rr c0 = (\<lambda>_. None)" using c(2) ce by (simp_all add: loose_def)
        then have "loose ?c" "\<forall>tp. \<not> PDNSD_NOT_CACHED_TYPE tp \<longrightarrow> 0 < tp \<longrightarrow> rr ?c (tidx tp) = None" using set_refs_loose by simp_all
        from read_rrsets_loose [OF this, of "f_num_rrs ?fe" ?st] obtain x st' where i: "read_rrsets (f_num_rrs ?fe) 0 ?c ?st = Some (x, st')" "shorter ?st st'"
          "case x of Inl e \<Rightarrow> stopped ?st e | Inr ce' \<Rightarrow> loose ce' \<and> qname ce' = qname ?c" by (rule ok2E) blast
        have "read_entry st = Some (x, st')" using eq n(1) nm nf c(1) ce i(1) by simp
        then show ?thesis using i(2,3) f f1 ls(1) c0 by (auto simp: shorter_def stopped_def split: sum.splits)
      qed
    qed
  qed
qed

lemma cent_ok_name: "cent_ok c \<Longrightarrow> \<exists>k. wf_name k \<and> qname c = wire k"
  by (simp add: cent_ok_def)

lemma read_entries_ok:
  "cache_inv s \<Longrightarrow> length (rrset_l s) + NRRTOT * length (rfile st) < 2 ^ NTMPSORT \<Longrightarrow>
    ok (read_entries g clock n s st) (\<lambda>(x, s', st'). cache_inv s' \<and> length (rrset_l s') < 2 ^ NTMPSORT \<and> (case x of Inl e \<Rightarrow> stopped st e | Inr _ \<Rightarrow> True))"
proof (induction n arbitrary: s st)
  case 0
  then show ?case by simp
next
  case (Suc n)
  from read_entry_loose [of st] obtain x st1 where e: "read_entry st = Some (x, st1)"
    "case x of Inl e \<Rightarrow> stopped st e | Inr ce \<Rightarrow> length (rfile st1) < length (rfile st) \<and> loose ce \<and> (rmem st = [] \<longrightarrow> rmem st1 = [])" by (rule ok2E)
  show ?case
  proof (cases x)
    case (Inl e)
    then show ?thesis using \<open>read_entry st = Some (x, st1)\<close> e(2) Suc.prems by simp
  next
    case (Inr ce)
    then have st1: "length (rfile st1) < length (rfile st)" "rmem st = [] \<longrightarrow> rmem st1 = []" and ce: "loose ce" using e(2) by simp_all
    then obtain k where k: "wf_name k" "qname ce = wire k" using cent_ok_name by (auto simp: loose_def)
    have "NRRTOT + NRRTOT * length (rfile st1) \<le> NRRTOT * length (rfile st)" using mult_le_mono2 [OF Suc_leI [OF st1(1)], of NRRTOT] by simp
    then have len: "length (rrset_l s) + NRRTOT + NRRTOT * length (rfile st1) < 2 ^ NTMPSORT" using Suc.prems(2) by simp
    then have len1: "length (rrset_l s) + NRRTOT < 2 ^ NTMPSORT" by simp
    have "cent_ok ce" using ce by (simp add: loose_def)
    from add_cache_ok [OF Suc.prems(1) [unfolded cache_inv_but] k this len1, of g "clock n" "rmem st1"]
    obtain s' al' where a: "add_cache g (clock n) ce s (rmem st1) = Some (s', al')" "inv_but 0 s'" "length (rrset_l s') \<le> length (rrset_l s) + NRRTOT"
      "rmem st1 = [] \<longrightarrow> al' = []" by (rule ok2E) blast
    let ?st = "st1\<lparr>rmem := al'\<rparr>"
    have "cache_inv s'" "length (rrset_l s') + NRRTOT * length (rfile ?st) < 2 ^ NTMPSORT" using a len by (simp_all add: cache_inv_but)
    from Suc.IH [OF this] have "ok (read_entries g clock n s' ?st) (\<lambda>(x, s', st'). cache_inv s' \<and> length (rrset_l s') < 2 ^ NTMPSORT \<and>
      (case x of Inl e \<Rightarrow> stopped ?st e | Inr _ \<Rightarrow> True))" .
    then have "ok (read_entries g clock n s' ?st) (\<lambda>(x, s', st'). cache_inv s' \<and> length (rrset_l s') < 2 ^ NTMPSORT \<and>
      (case x of Inl e \<Rightarrow> stopped st e | Inr _ \<Rightarrow> True))" by (rule ok_mono) (use st1(2) a(4) in \<open>auto simp: stopped_def split: sum.splits\<close>)
    then show ?thesis using e(1) Inr a(1) loose_free [OF ce] by simp
  qed
qed

lemma read_file_ok:
  assumes "cache_inv s" and "length (rrset_l s) + NRRTOT * length (rfile st) < 2 ^ NTMPSORT"
  shows "ok (read_file g clock s st) (\<lambda>(x, s', st'). cache_inv s' \<and> length (rrset_l s') < 2 ^ NTMPSORT \<and> (case x of Inl e \<Rightarrow> stopped st e | Inr _ \<Rightarrow> True))"
proof -
  have l: "length (rrset_l s) < 2 ^ NTMPSORT" using assms(2) by simp
  have r: "ok (read_entries g clock n s (st\<lparr>rfile := f\<rparr>)) (\<lambda>(x, s', st'). cache_inv s' \<and> length (rrset_l s') < 2 ^ NTMPSORT \<and>
    (case x of Inl e \<Rightarrow> stopped st e | Inr _ \<Rightarrow> True))" if "length f \<le> length (rfile st)" for n f
  proof -
    have "NRRTOT * length f \<le> NRRTOT * length (rfile st)" using that by (rule mult_le_mono2)
    then have "length (rrset_l s) + NRRTOT * length f < 2 ^ NTMPSORT" using assms(2) by linarith
    then have "length (rrset_l s) + NRRTOT * length (rfile (st\<lparr>rfile := f\<rparr>)) < 2 ^ NTMPSORT" by simp
    from read_entries_ok [OF assms(1) this, of g clock n] show ?thesis
      by (rule ok_mono) (auto simp: stopped_def split: sum.splits)
  qed
  have s: "stopped st free_data_fclose" by (simp add: stopped_def)
  show ?thesis
  proof (cases "fread (length cachverid) (rfile st)")
    case None
    then show ?thesis using assms(1) l s by (simp add: read_file_def)
  next
    case (Some bf)
    obtain b f where bf: "bf = (b, f)" by (cases bf)
    show ?thesis
    proof (cases "b \<noteq> cachverid \<or> fread 8 f = None")
      case True
      then show ?thesis using Some bf assms(1) l s by (auto simp: read_file_def)
    next
      case False
      then obtain b' f' where f': "b = cachverid" "fread 8 f = Some (b', f')" by auto
      have "length f' \<le> length (rfile st)" using Some bf f'(2) by (auto simp: fread_Some)
      then show ?thesis using r [of f' "le_val b'"] Some bf f' by (simp add: read_file_def)
    qed
  qed
qed

lemma sort_after_read_ok:
  assumes "cache_inv s" and "length (rrset_l s) < 2 ^ NTMPSORT"
  shows "ok (sort_after_read s) (\<lambda>s'. cache_inv s' \<and> insert_sort s')"
proof (cases "insert_sort s")
  case True
  then show ?thesis using assms(1) by (simp add: sort_after_read_def)
next
  case False
  from sort_rrl_ok [OF assms(1) [unfolded cache_inv_but] assms(2)] obtain s' where s': "sort_rrl s = Some s'" "inv_but 0 (s'\<lparr>insert_sort := True\<rparr>)"
    by (rule okE) blast
  then show ?thesis using False by (simp add: sort_after_read_def cache_inv_but)
qed

lemma insert_sort_inv: "cache_inv s \<Longrightarrow> cache_inv (s\<lparr>insert_sort := b\<rparr>)"
  by (simp add: cache_inv_def core_def table_def qn_def [abs_def])

section \<open>Writing and reading back\<close>

text \<open>The record sets the file format can hold: a count in one byte, a length in two, times in eight, and no record twice.\<close>

definition writable :: "rr_set \<Rightarrow> bool" where
  "writable rs \<longleftrightarrow> in_time (ttl rs) \<and> in_time (ts rs) \<and> length (rrs rs) \<le> 255 \<and> (\<forall>d \<in> set (rrs rs). length d < 2 ^ 16) \<and> distinct (rrs rs)"

definition enc_rrs :: "bytes list \<Rightarrow> bytes" where
  "enc_rrs ds = concat (map (\<lambda>d. le_bytes 2 (length d) @ d) ds)"

definition fset_of :: "nat \<Rightarrow> rr_set \<Rightarrow> rr_fset" where
  "fset_of tp rs = \<lparr>f_tp = tp, f_num_rr = length (rrs rs), f_flags = flags rs, f_ttl = ttl rs, f_ts = ts rs\<rparr>"

definition enc_set :: "nat \<times> rr_set \<Rightarrow> bytes" where
  "enc_set p = put_fset (fset_of (fst p) (snd p)) @ enc_rrs (rrs (snd p))"

lemma enc_set_pair: "enc_set (tp, rs) = put_fset (fset_of tp rs) @ enc_rrs (rrs rs)"
  by (simp add: enc_set_def)

lemma fwrite_mem [simp]: "fwrite b (f, []) = (True, f @ b, [])"
  by (simp add: fwrite_def)

lemma write_rrs_enc: "\<forall>d \<in> set ds. length d < 2 ^ 16 \<Longrightarrow> write_rrs ds (f, []) = (True, f @ enc_rrs ds, [])"
  by (induction ds arbitrary: f) (auto simp: enc_rrs_def Let_def)

lemma write_rrset_enc: "writable rs \<Longrightarrow> write_rrset tp rs (f, []) = (True, f @ enc_set (tp, rs), [])"
  using min.absorb2 [of "length (rrs rs)" 255]
  by (simp add: write_rrset_def writable_def write_rrs_enc enc_set_def fset_of_def Let_def)

text \<open>The record sets of an entry that are written, in the order of their types.\<close>

definition foreign :: "dns_cent \<Rightarrow> nat list \<Rightarrow> (nat \<times> rr_set) list" where
  "foreign c tps = concat (map (\<lambda>tp. case rr c (tidx tp) of None \<Rightarrow> [] | Some rs \<Rightarrow> if has (flags rs) CF_LOCAL then [] else [(tp, rs)]) tps)"

lemma foreign_simps [simp]: "foreign c [] = []"
  "foreign c (tp # tps) = (case rr c (tidx tp) of None \<Rightarrow> [] | Some rs \<Rightarrow> if has (flags rs) CF_LOCAL then [] else [(tp, rs)]) @ foreign c tps"
  by (simp_all add: foreign_def)

lemma getrrset_eff_rr:
  assumes "shape_ok c" and "\<not> is_neg c" and tp: "\<not> PDNSD_NOT_CACHED_TYPE tp"
  shows "getrrset_eff c tp = Some (rr c (tidx tp))"
proof -
  note t = cached_type [OF tp]
  obtain mu ext where b: "body c = RR mu ext" "length mu = NRRMU" "\<forall>e. ext = Some e \<longrightarrow> length e = NRREXT"
    using assms(1,2) by (auto simp: shape_ok_def split: cent_body.splits option.splits)
  have r: "rr c (tidx tp) = (if tidx tp < NRRMU then mu ! tidx tp else case ext of None \<Rightarrow> None | Some e \<Rightarrow> e ! (tidx tp - NRRMU))"
    using b t(4) by (auto simp: rr_def slots_def nth_append NRRTOT_def NRRMU_def NRREXT_def split: option.splits)
  show ?thesis using t b r by (auto simp: getrrset_eff_def NRRTOT_def NRRMU_def NRREXT_def split: option.splits)
qed

definition all_writable :: "dns_cent \<Rightarrow> bool" where
  "all_writable c \<longleftrightarrow> (\<forall>i rs. rr c i = Some rs \<longrightarrow> \<not> has (flags rs) CF_LOCAL \<longrightarrow> writable rs)"

lemma write_rrsets_enc:
  assumes "shape_ok c" and "\<not> is_neg c" and "all_writable c"
  shows "\<forall>tp \<in> set tps. \<not> PDNSD_NOT_CACHED_TYPE tp \<Longrightarrow> write_rrsets c tps (f, []) = Some (True, f @ concat (map enc_set (foreign c tps)), [])"
proof (induction tps arbitrary: f)
  case (Cons tp tps)
  have g: "getrrset_eff c tp = Some (rr c (tidx tp))" using getrrset_eff_rr [OF assms(1,2)] Cons.prems by simp
  have w: "writable rs" if "rr c (tidx tp) = Some rs" "\<not> has (flags rs) CF_LOCAL" for rs using assms(3) that by (auto simp: all_writable_def)
  show ?case using g Cons w write_rrset_enc by (auto split: option.split)
qed simp

section \<open>Reading what was written\<close>

lemma read_rrs_enc:
  assumes tp: "\<not> PDNSD_NOT_CACHED_TYPE (f_tp sh)"
  shows "loose ce \<Longrightarrow> \<not> has (cflags ce) DF_LOCAL \<Longrightarrow> \<not> is_neg ce \<Longrightarrow> rr ce (tidx (f_tp sh)) = Some rs \<Longrightarrow> ttl rs = f_ttl sh \<Longrightarrow>
    distinct (rrs rs @ ds) \<Longrightarrow> \<forall>d \<in> set ds. length d < 2 ^ 16 \<Longrightarrow> rfile st = enc_rrs ds @ rest \<Longrightarrow> rmem st = [] \<Longrightarrow>
    ok (read_rrs sh (length ds) ce st) (\<lambda>(x, st'). rfile st' = rest \<and> rmem st' = [] \<and> (\<exists>ce'. x = Inr ce' \<and> loose ce' \<and> qname ce' = qname ce \<and>
      cflags ce' = cflags ce \<and> c_ns ce' = c_ns ce \<and> c_soa ce' = c_soa ce \<and> rr ce' = (rr ce)(tidx (f_tp sh) := Some (rs\<lparr>rrs := rrs rs @ ds\<rparr>))))"
proof (induction ds arbitrary: ce st rs)
  case Nil
  then show ?case by (simp add: enc_rrs_def fun_upd_idem)
next
  case (Cons d ds)
  let ?i = "tidx (f_tp sh)"
  have fr: "fread 2 (rfile st) = Some (le_bytes 2 (length d), d @ enc_rrs ds @ rest)" using Cons.prems(8) by (simp add: enc_rrs_def)
  have v: "le_val (le_bytes 2 (length d)) = length d" using Cons.prems(7) by simp
  have nl: "\<not> (has (cflags ce) DF_LOCAL \<and> \<not> has (f_flags sh) CF_LOCAL)" using Cons.prems(2) by simp
  have "cent_ok ce" "linked {} 0 ce []" using Cons.prems(1) by (simp_all add: loose_linked)
  from add_cent_rr_ok [OF this tp refl nl, of "f_ttl sh" "f_ts sh" d "[]"] obtain r ce' l' al' where
    a: "add_cent_rr ce (f_tp sh) (f_ttl sh) (f_ts sh) (f_flags sh) d [] [] = Some (r, ce', l', al')" "cent_ok ce'" "linked {} 0 ce' l'"
      "rr ce' = (rr ce)(?i := Some (rrset_add (old_rrset ce ?i (f_ttl sh) (f_ts sh) (f_flags sh)) (f_ttl sh) d))" "qname ce' = qname ce"
      "c_ns ce' = c_ns ce" "c_soa ce' = c_soa ce" "cflags ce' = cflags ce \<or> cflags ce' = cflags ce AND NOT DF_NEGATIVE" "r" "l' = []" "al' = []" by (rule ok4E) blast
  have fl: "cflags ce' = cflags ce" using a(8) clear_absent Cons.prems(3) by (auto simp: is_neg_def)
  have rs': "rrset_add (old_rrset ce ?i (f_ttl sh) (f_ts sh) (f_flags sh)) (f_ttl sh) d = rs\<lparr>rrs := rrs rs @ [d]\<rparr>"
    using Cons.prems(4,5,6) by (simp add: rrset_add_def old_rrset_def)
  let ?st = "\<lparr>rfile = enc_rrs ds @ rest, dtsz = max (dtsz st) (length d), rmem = []\<rparr>"
  have e: "read_rrs sh (length (d # ds)) ce st = read_rrs sh (length ds) ce' ?st"
    using fr v a(1,9-11) Cons.prems(9) by (cases "d = []") (simp_all add: Let_def)
  have "ok (read_rrs sh (length ds) ce' ?st) (\<lambda>(x, st'). rfile st' = rest \<and> rmem st' = [] \<and> (\<exists>c. x = Inr c \<and> loose c \<and> qname c = qname ce' \<and>
      cflags c = cflags ce' \<and> c_ns c = c_ns ce' \<and> c_soa c = c_soa ce' \<and>
      rr c = (rr ce')(?i := Some ((rs\<lparr>rrs := rrs rs @ [d]\<rparr>)\<lparr>rrs := rrs (rs\<lparr>rrs := rrs rs @ [d]\<rparr>) @ ds\<rparr>))))"
    by (rule Cons.IH) (use a fl rs' Cons.prems in \<open>simp_all add: loose_linked is_neg_def\<close>)
  moreover have "(rr ce')(?i := Some ((rs\<lparr>rrs := rrs rs @ [d]\<rparr>)\<lparr>rrs := rrs (rs\<lparr>rrs := rrs rs @ [d]\<rparr>) @ ds\<rparr>)) = (rr ce)(?i := Some (rs\<lparr>rrs := rrs rs @ d # ds\<rparr>))"
    using a(4) by simp
  ultimately show ?case unfolding e a(5-7) fl by (simp only:)
qed

text \<open>The record sets read replace those at their indices.\<close>

definition put_sets :: "(nat \<times> rr_set) list \<Rightarrow> rrview \<Rightarrow> rrview" where
  "put_sets ps V = foldl (\<lambda>V (tp, rs). V(tidx tp := Some (rs\<lparr>lent := None\<rparr>))) V ps"

lemma put_sets_simps [simp]: "put_sets [] V = V" "put_sets ((tp, rs) # ps) V = put_sets ps (V(tidx tp := Some (rs\<lparr>lent := None\<rparr>)))"
  by (simp_all add: put_sets_def)

lemma put_sets_other: "\<forall>p \<in> set ps. tidx (fst p) \<noteq> i \<Longrightarrow> put_sets ps V i = V i"
  by (induction ps arbitrary: V) auto

lemma read_rrsets_enc:
  "loose ce \<Longrightarrow> \<not> has (cflags ce) DF_LOCAL \<Longrightarrow> \<not> is_neg ce \<Longrightarrow>
    \<forall>tp. \<not> PDNSD_NOT_CACHED_TYPE tp \<longrightarrow> prevtp < tp \<longrightarrow> rr ce (tidx tp) = None \<Longrightarrow>
    \<forall>p \<in> set ps. \<not> PDNSD_NOT_CACHED_TYPE (fst p) \<and> writable (snd p) \<and> prevtp < fst p \<Longrightarrow> sorted_wrt (<) (map fst ps) \<Longrightarrow>
    rfile st = concat (map enc_set ps) @ rest \<Longrightarrow> rmem st = [] \<Longrightarrow>
    ok (read_rrsets (length ps) prevtp ce st) (\<lambda>(x, st'). rfile st' = rest \<and> rmem st' = [] \<and> (\<exists>ce'. x = Inr ce' \<and> loose ce' \<and>
      qname ce' = qname ce \<and> cflags ce' = cflags ce \<and> c_ns ce' = c_ns ce \<and> c_soa ce' = c_soa ce \<and> rr ce' = put_sets ps (rr ce)))"
proof (induction ps arbitrary: prevtp ce st)
  case Nil
  then show ?case by simp
next
  case (Cons p ps)
  obtain tp rs where p: "p = (tp, rs)" by (cases p)
  have tp: "\<not> PDNSD_NOT_CACHED_TYPE tp" "prevtp < tp" and w: "writable rs" using Cons.prems(5) p by auto
  let ?sh = "fset_of tp rs" let ?f = "enc_rrs (rrs rs) @ concat (map enc_set ps) @ rest"
  have sh: "f_tp ?sh = tp" "f_num_rr ?sh = length (rrs rs)" "f_ttl ?sh = ttl rs" "f_ts ?sh = ts rs" "f_flags ?sh = flags rs" by (simp_all add: fset_of_def)
  have "tp < 256" using tp(1) by (simp add: PDNSD_NOT_CACHED_TYPE_def T_MAX_def)
  then have g: "get_fset (put_fset ?sh) = ?sh" using w by (intro get_put_fset) (simp_all add: sh writable_def)
  have fr: "fread 20 (rfile st) = Some (put_fset ?sh, ?f)" using Cons.prems(7) p enc_set_pair by simp
  have free: "rr ce (tidx tp) = None" using Cons.prems(4) tp by blast
  from loose_add_rrset [OF Cons.prems(1) tp(1) free, of "ttl rs" "ts rs" "flags rs" "[]"] obtain r c1 l1 al1 where
    a: "add_cent_rrset_by_type ce tp (ttl rs) (ts rs) (flags rs) [] [] = Some (r, c1, l1, al1)" "loose c1" "qname c1 = qname ce"
      "rr c1 = (if r then (rr ce)(tidx tp := Some (new_rrset (ttl rs) (ts rs) (flags rs))) else rr ce)" "\<not> is_neg c1" "cflags c1 = cflags ce AND NOT DF_NEGATIVE"
      "c_ns c1 = c_ns ce" "c_soa c1 = c_soa ce" "r" "al1 = []" by (rule ok4E) blast
  have fl: "cflags c1 = cflags ce" using a(6) clear_absent Cons.prems(3) by (simp add: is_neg_def)
  let ?st = "st\<lparr>rfile := ?f, rmem := []\<rparr>"
  have "ok (read_rrs ?sh (length (rrs rs)) c1 ?st) (\<lambda>(x, st'). rfile st' = concat (map enc_set ps) @ rest \<and> rmem st' = [] \<and> (\<exists>ce'. x = Inr ce' \<and> loose ce' \<and>
      qname ce' = qname c1 \<and> cflags ce' = cflags c1 \<and> c_ns ce' = c_ns c1 \<and> c_soa ce' = c_soa c1 \<and>
      rr ce' = (rr c1)(tidx (f_tp ?sh) := Some ((new_rrset (ttl rs) (ts rs) (flags rs))\<lparr>rrs := rrs (new_rrset (ttl rs) (ts rs) (flags rs)) @ rrs rs\<rparr>))))"
    by (rule read_rrs_enc) (use tp w a fl Cons.prems(2,8) in \<open>simp_all add: sh writable_def new_rrset_def\<close>)
  then obtain c2 st2 where r: "read_rrs ?sh (length (rrs rs)) c1 ?st = Some (Inr c2, st2)" "rfile st2 = concat (map enc_set ps) @ rest" "rmem st2 = []"
    "loose c2" "qname c2 = qname c1" "cflags c2 = cflags c1" "c_ns c2 = c_ns c1" "c_soa c2 = c_soa c1"
    "rr c2 = (rr c1)(tidx tp := Some ((new_rrset (ttl rs) (ts rs) (flags rs))\<lparr>rrs := rrs (new_rrset (ttl rs) (ts rs) (flags rs)) @ rrs rs\<rparr>))"
    unfolding sh by (rule ok2E) blast
  have e: "read_rrsets (length (p # ps)) prevtp ce st = read_rrsets (length ps) tp c2 st2"
    using fr g tp a(1,9,10) r(1) Cons.prems(8) by (simp add: Let_def sh)
  have rr2: "rr c2 = (rr ce)(tidx tp := Some (rs\<lparr>lent := None\<rparr>))" using r(9) a(4,9) by (cases rs) (simp add: new_rrset_def)
  have free2: "\<forall>tp'. \<not> PDNSD_NOT_CACHED_TYPE tp' \<longrightarrow> tp < tp' \<longrightarrow> rr c2 (tidx tp') = None"
    using Cons.prems(4) tp tidx_inj [OF _ tp(1)] unfolding rr2 by (auto dest: less_trans)
  have "ok (read_rrsets (length ps) tp c2 st2) (\<lambda>(x, st'). rfile st' = rest \<and> rmem st' = [] \<and> (\<exists>ce'. x = Inr ce' \<and> loose ce' \<and>
      qname ce' = qname c2 \<and> cflags ce' = cflags c2 \<and> c_ns ce' = c_ns c2 \<and> c_soa ce' = c_soa c2 \<and> rr ce' = put_sets ps (rr c2)))"
    by (rule Cons.IH [OF r(4) _ _ free2]) (use r fl a Cons.prems(2,3,5,6) p in \<open>auto simp: is_neg_def\<close>)
  then show ?case unfolding e using r(5-8) a(3,7,8) fl rr2 p by simp
qed

text \<open>What is stored of a record set.\<close>

definition foreign_rr :: "dns_cent \<Rightarrow> rrview" where
  "foreign_rr c i = (case rr c i of None \<Rightarrow> None | Some rs \<Rightarrow> if has (flags rs) CF_LOCAL then None else Some (rs\<lparr>lent := None\<rparr>))"

lemma length_foreign: "length (foreign c tps) = length (filter (\<lambda>i. foreign_rr c i \<noteq> None) (map tidx tps))"
  by (induction tps) (auto simp: foreign_rr_def split: option.splits)

lemma foreign_sorted: "sorted_wrt (<) tps \<Longrightarrow> sorted_wrt (<) (map fst (foreign c tps)) \<and> (\<forall>p \<in> set (foreign c tps). fst p \<in> set tps)"
proof (induction tps)
  case (Cons tp tps)
  then show ?case by (auto split: option.split)
qed simp

lemma foreign_writable: "all_writable c \<Longrightarrow> p \<in> set (foreign c tps) \<Longrightarrow> writable (snd p)"
  by (induction tps) (auto simp: all_writable_def split: option.splits if_splits)

lemma put_foreign:
  "distinct (map tidx tps) \<Longrightarrow> put_sets (foreign c tps) V i = (if i \<in> tidx ` set tps \<and> foreign_rr c i \<noteq> None then foreign_rr c i else V i)"
proof (induction tps arbitrary: V)
  case (Cons tp tps)
  then show ?case by (auto simp: foreign_rr_def split: option.splits)
qed simp

definition iterlist :: "dns_cent \<Rightarrow> nat list" where
  "iterlist c = (if is_neg c then [] else case body c of RR _ (Some _) \<Rightarrow> rrcachiterlist | _ \<Rightarrow> rrmuiterlist)"

lemma rrcachiterlist_tidx: "set (map tidx rrcachiterlist) = {..<NRRTOT}" "distinct (map tidx rrcachiterlist)" "length rrcachiterlist = NRRTOT"
  by (simp_all add: rrcachiterlist_def rrlkuptab_def T_MIN_def NRRTOT_def lessThan_nat_numeral lessThan_Suc insert_commute)

lemma rrmuiterlist_tidx: "set (map tidx rrmuiterlist) = {..<NRRMU}" "distinct (map tidx rrmuiterlist)" "length rrmuiterlist = NRRMU"
  by (simp_all add: rrmuiterlist_def rrlkuptab_def T_MIN_def NRRMU_def lessThan_nat_numeral lessThan_Suc insert_commute)

lemma iterlist_tidx:
  assumes "shape_ok c"
  shows "set (map tidx (iterlist c)) = {..<length (slots c)}" "distinct (map tidx (iterlist c))" "length (iterlist c) = length (slots c)"
  using assms rrcachiterlist_tidx rrmuiterlist_tidx
  by (auto simp: iterlist_def shape_ok_def slots_def NRRTOT_def NRRMU_def NRREXT_def split: cent_body.splits option.splits)

lemma iterlist_cached: "tp \<in> set (iterlist c) \<Longrightarrow> \<not> PDNSD_NOT_CACHED_TYPE tp" "sorted_wrt (<) (iterlist c)"
proof -
  have "\<forall>tp \<in> set rrcachiterlist. \<not> PDNSD_NOT_CACHED_TYPE tp" "set rrmuiterlist \<subseteq> set rrcachiterlist"
    by (simp_all add: rrcachiterlist_def rrmuiterlist_def PDNSD_NOT_CACHED_TYPE_def rrlkuptab_def T_MIN_def T_MAX_def NRRTOT_def)
  then show "tp \<in> set (iterlist c) \<Longrightarrow> \<not> PDNSD_NOT_CACHED_TYPE tp" by (auto simp: iterlist_def split: if_splits cent_body.splits option.splits)
  show "sorted_wrt (<) (iterlist c)" by (simp add: iterlist_def rrcachiterlist_def rrmuiterlist_def split: cent_body.split option.split)
qed

lemma put_foreign_all:
  assumes "shape_ok c"
  shows "put_sets (foreign c (iterlist c)) (\<lambda>_. None) = foreign_rr c"
proof
  fix i
  have "foreign_rr c i = None" if "\<not> i < length (slots c)" using that by (simp add: foreign_rr_def rr_def)
  then show "put_sets (foreign c (iterlist c)) (\<lambda>_. None) i = foreign_rr c i"
    using put_foreign [OF iterlist_tidx(2) [OF assms], of c "\<lambda>_. None" i] iterlist_tidx(1) [OF assms] by auto
qed

lemma count_foreign_eq:
  assumes "shape_ok c"
  shows "\<forall>i \<in> set is. i < length (slots c) \<Longrightarrow> count_foreign c is = Some (length (filter (\<lambda>i. foreign_rr c i \<noteq> None) is))"
proof (induction "is")
  case (Cons i "is")
  then show ?case using RRARR_INDEX_eq [OF assms, of i] by (auto simp: foreign_rr_def split: option.split)
qed simp

lemma count_foreign_all:
  assumes "shape_ok c"
  shows "count_foreign c [0..<length (slots c)] = Some (length (foreign c (iterlist c)))" "length (foreign c (iterlist c)) < 256"
proof -
  let ?P = "\<lambda>i. foreign_rr c i \<noteq> None"
  have "length (filter ?P (map tidx (iterlist c))) = card (set (filter ?P (map tidx (iterlist c))))"
    by (rule distinct_card [symmetric]) (use iterlist_tidx(2) [OF assms] in simp)
  also have "set (filter ?P (map tidx (iterlist c))) = set (filter ?P [0..<length (slots c)])"
    unfolding set_filter iterlist_tidx(1) [OF assms] by auto
  also have "card \<dots> = length (filter ?P [0..<length (slots c)])" by (rule distinct_card) simp
  finally have e: "length (foreign c (iterlist c)) = length (filter ?P [0..<length (slots c)])" by (simp only: length_foreign)
  then show "count_foreign c [0..<length (slots c)] = Some (length (foreign c (iterlist c)))"
    using count_foreign_eq [OF assms, of "[0..<length (slots c)]"] by simp
  have "length (filter ?P [0..<length (slots c)]) \<le> length (slots c)" using length_filter_le [of ?P "[0..<length (slots c)]"] by simp
  then show "length (foreign c (iterlist c)) < 256" using e slots_le [OF assms] by (simp add: NRRTOT_def)
qed

section \<open>Entries\<close>

definition file_of :: "dns_cent \<Rightarrow> dns_file" where
  "file_of c = \<lparr>f_qlen = length (qname c) - 1, f_num_rrs = length (foreign c (iterlist c)), f_cflags = cflags c, f_c_ns = c_ns c, f_c_soa = c_soa c\<rparr>"

definition enc_entry :: "dns_cent \<Rightarrow> bytes" where
  "enc_entry c = put_file (file_of c) @ (if is_neg c then put_time (neg_ttl (body c)) @ put_time (neg_ts (body c)) else []) @
     butlast (qname c) @ concat (map enc_set (foreign c (iterlist c)))"

lemma wire_split: "butlast (wire ls) @ [0] = wire ls" "length (wire ls) \<ge> 1"
  by (induction ls) (auto simp: butlast_append)

lemma write_entry_enc:
  assumes ok: "cent_ok c" and w: "all_writable c"
  shows "write_entry c (f, []) = Some (True, f @ enc_entry c, [])"
proof -
  have sh: "shape_ok c" using ok by (simp add: cent_ok_def)
  obtain ls where ls: "wf_name ls" "qname c = wire ls" using cent_ok_name [OF ok] by blast
  have n: "rhnlen (qname c) = Some (length (qname c))" using rhnlen_wire [of ls "[]"] ls by (simp add: wf_name_labels)
  have len: "1 \<le> length (qname c)" "length (qname c) - 1 < 256" using ls wire_split(2) [of ls] by (auto simp: wf_name_def DNSNAMEBUFSIZE_def)
  have tk: "take (length (qname c) - 1) (qname c) = butlast (qname c)" by (simp add: butlast_conv_take)
  have it: "RRITERLIST c = Some (iterlist c)" "NRRITERLIST c = Some (length (iterlist c))"
    using sh RRARR_LEN_slots [OF sh] iterlist_tidx(3) [OF sh]
    by (auto simp: RRITERLIST_def NRRITERLIST_def iterlist_def shape_ok_def split: cent_body.splits option.splits)
  have wr: "write_rrsets c (iterlist c) (f', []) = Some (True, f' @ concat (map enc_set (foreign c (iterlist c))), [])" for f'
  proof (cases "is_neg c")
    case True
    then show ?thesis by (simp add: iterlist_def)
  next
    case False
    show ?thesis by (rule write_rrsets_enc [OF sh False w]) (use iterlist_cached(1) in blast)
  qed
  have ne: "butlast (qname c) = []" if "length (qname c) - 1 = 0" using that len(1) by (cases "qname c") auto
  show ?thesis
  proof (cases "is_neg c")
    case True
    then obtain le t u where b: "body c = Neg le t u" using shape_Neg [OF sh] by blast
    then show ?thesis using n len RRARR_LEN_slots [OF sh] count_foreign_all(1) [OF sh] True it wr tk ne
      by (auto simp: write_entry_def enc_entry_def file_of_def Let_def)
  next
    case False
    then show ?thesis using n len RRARR_LEN_slots [OF sh] count_foreign_all(1) [OF sh] it wr tk ne
      by (auto simp: write_entry_def enc_entry_def file_of_def Let_def)
  qed
qed

lemma check_qname_wire:
  "list_all wf_label ls \<Longrightarrow> check_qname (p @ butlast (wire ls)) (length p + length (butlast (wire ls))) (length p) = Some True"
proof (induction ls arbitrary: p)
  case Nil
  then show ?case by (subst check_qname.simps) simp
next
  case (Cons l ls)
  have l: "wf_label l" and ls: "list_all wf_label ls" using Cons.prems by simp_all
  let ?b = "of_nat (length l) :: byte"
  have w: "butlast (wire (l # ls)) = ?b # l @ butlast (wire ls)" using wire_split(2) [of ls] by (cases "wire ls") (simp_all add: butlast_append)
  have u: "unat ?b = length l" "?b \<noteq> 0" "\<not> ?b > 63" using wf_label_unat [OF l] wf_label_nz [OF l] l by (simp_all add: wf_label_def word_less_nat_alt)
  from Cons.IH [OF ls, of "p @ ?b # l"] have "check_qname (p @ butlast (wire (l # ls))) (length p + length (butlast (wire (l # ls)))) (length p + (length l + 1)) = Some True"
    unfolding w by (simp add: add.assoc)
  then show ?case using u unfolding w by (subst check_qname.simps) (simp add: nth_append)
qed

lemma read_name_good: "check_qname nb (length nb) 0 = Some True \<Longrightarrow> read_name (length nb) (nb @ f) = Some (Some (nb, f))"
  by (simp add: read_name_def)

text \<open>The entry that is read for the entry \<open>c\<close>.\<close>

definition stored :: "dns_cent \<Rightarrow> dns_cent \<Rightarrow> bool" where
  "stored c c' \<longleftrightarrow> loose c' \<and> qname c' = qname c \<and> cflags c' = cflags c \<and> c_ns c' = c_ns c \<and> c_soa c' = c_soa c \<and> rr c' = foreign_rr c \<and>
     (is_neg c \<longrightarrow> neg_ttl (body c') = neg_ttl (body c) \<and> neg_ts (body c') = neg_ts (body c))"

lemma read_entry_enc:
  assumes ok: "cent_ok c" and w: "all_writable c" and nl: "\<not> has (cflags c) DF_LOCAL"
    and neg: "is_neg c \<longrightarrow> in_time (neg_ttl (body c)) \<and> in_time (neg_ts (body c))"
    and st: "rfile st = enc_entry c @ rest" "rmem st = []"
  shows "ok (read_entry st) (\<lambda>(x, st'). rfile st' = rest \<and> rmem st' = [] \<and> (\<exists>c'. x = Inr c' \<and> stored c c'))"
proof -
  have sh: "shape_ok c" using ok by (simp add: cent_ok_def)
  obtain ls where ls: "wf_name ls" "qname c = wire ls" using cent_ok_name [OF ok] by blast
  let ?nb = "butlast (qname c)" let ?sets = "concat (map enc_set (foreign c (iterlist c)))" let ?fe = "file_of c"
  have fe: "f_qlen ?fe = length ?nb" "f_num_rrs ?fe = length (foreign c (iterlist c))" "f_cflags ?fe = cflags c" "f_c_ns ?fe = c_ns c" "f_c_soa ?fe = c_soa c"
    by (simp_all add: file_of_def)
  have len: "length ?nb < 256" using ls wire_split(2) [of ls] by (auto simp: wf_name_def DNSNAMEBUFSIZE_def)
  have g: "get_file (put_file ?fe) = ?fe" using len count_foreign_all(2) [OF sh] by (intro get_put_file) (simp_all add: file_of_def)
  let ?tb = "if is_neg c then put_time (neg_ttl (body c)) @ put_time (neg_ts (body c)) else []"
  have r1: "fread 6 (rfile st) = Some (put_file ?fe, ?tb @ ?nb @ ?sets @ rest)" using st(1) by (simp add: enc_entry_def)
  obtain tb where tb: "(if has (cflags c) DF_NEGATIVE then fread 16 (?tb @ ?nb @ ?sets @ rest) else Some (replicate 16 0, ?tb @ ?nb @ ?sets @ rest)) = Some (tb, ?nb @ ?sets @ rest)"
    "is_neg c \<longrightarrow> get_time (take 8 tb) = neg_ttl (body c) \<and> get_time (drop 8 tb) = neg_ts (body c)"
  proof (cases "is_neg c")
    case True
    let ?t = "put_time (neg_ttl (body c)) @ put_time (neg_ts (body c))"
    have "fread 16 (?t @ ?nb @ ?sets @ rest) = Some (?t, ?nb @ ?sets @ rest)" by (rule fread_append) simp
    then show thesis using that [of ?t] True neg by (simp add: is_neg_def)
  qed (use that in \<open>simp add: is_neg_def\<close>)
  have r2: "read_name (length ?nb) (?nb @ ?sets @ rest) = Some (Some (?nb, ?sets @ rest))"
    by (rule read_name_good) (use check_qname_wire [OF wf_name_labels [OF ls(1)], of "[]"] ls(2) in simp)
  have nb0: "?nb @ [0] = wire ls" using wire_split(1) ls(2) by simp
  from init_cent_ok [OF ls(1), of "[]" "get_time (take 8 tb)" "get_time (drop 8 tb)" "cflags c" "[]" 0] obtain c0 al where
    c0: "init_cent (?nb @ [0]) (get_time (take 8 tb)) (get_time (drop 8 tb)) (cflags c) [] = Some (Some c0, al)"
      "cent_ok c0" "qname c0 = wire ls" "cflags c0 = cflags c" "nodes 0 c0 = {}" "rr c0 = (\<lambda>_. None)"
      "body c0 = (if has (cflags c) DF_NEGATIVE then Neg None (get_time (take 8 tb)) (get_time (drop 8 tb)) else empty_rr)"
    unfolding nb0 append_Nil2 by (rule ok2E) (simp split: option.splits)
  have al: "al = []" using init_cent_mem [OF c0(1)] by simp
  let ?c = "c0\<lparr>c_ns := c_ns c, c_soa := c_soa c\<rparr>" let ?st = "st\<lparr>rfile := ?sets @ rest, rmem := []\<rparr>"
  have l0: "loose c0" using c0(2,5) by (simp add: loose_def)
  have lc: "loose ?c" "rr ?c = (\<lambda>_. None)" using set_refs_loose(1) [OF l0] set_refs_loose(2) c0(6) by simp_all
  have e: "read_entry st = read_rrsets (length (foreign c (iterlist c))) 0 ?c ?st"
    using r1 g fe tb(1) r2 c0(1) al st(2) by (simp add: read_entry_def Let_def)
  show ?thesis
  proof (cases "is_neg c")
    case True
    then have "iterlist c = []" by (simp add: iterlist_def)
    moreover have "foreign_rr c = (\<lambda>_. None)" using rr_neg [OF sh True] by (simp add: foreign_rr_def fun_eq_iff)
    ultimately show ?thesis unfolding e using lc c0 ls(2) tb(2) True st(2) by (simp add: stored_def is_neg_def)
  next
    case False
    have "ok (read_rrsets (length (foreign c (iterlist c))) 0 ?c ?st) (\<lambda>(x, st'). rfile st' = rest \<and> rmem st' = [] \<and> (\<exists>ce'. x = Inr ce' \<and> loose ce' \<and>
      qname ce' = qname ?c \<and> cflags ce' = cflags ?c \<and> c_ns ce' = c_ns ?c \<and> c_soa ce' = c_soa ?c \<and> rr ce' = put_sets (foreign c (iterlist c)) (rr ?c)))"
    proof (rule read_rrsets_enc [OF lc(1)])
      show "\<forall>p \<in> set (foreign c (iterlist c)). \<not> PDNSD_NOT_CACHED_TYPE (fst p) \<and> writable (snd p) \<and> 0 < fst p"
        using foreign_sorted [OF iterlist_cached(2), of c c] iterlist_cached(1) [of _ c] foreign_writable [OF w] by (fastforce simp: PDNSD_NOT_CACHED_TYPE_def T_MIN_def)
    qed (use False nl c0(4) lc(2) foreign_sorted [OF iterlist_cached(2), of c c] in \<open>simp_all add: is_neg_def\<close>)
    then show ?thesis unfolding e lc(2) put_foreign_all [OF sh] using c0(3,4) ls(2) False by (auto simp: stored_def elim!: ok_mono)
  qed
qed

section \<open>The whole file\<close>

lemma any_foreign_eq:
  assumes "shape_ok c"
  shows "\<forall>i \<in> set is. i < length (slots c) \<Longrightarrow> any_foreign c is = Some (\<exists>i \<in> set is. foreign_rr c i \<noteq> None)"
proof (induction "is")
  case (Cons i "is")
  then show ?case using RRARR_INDEX_eq [OF assms, of i] by (auto simp: foreign_rr_def split: option.split)
qed simp

definition wanted :: "dns_cent \<Rightarrow> bool" where
  "wanted c \<longleftrightarrow> (if is_neg c then \<not> has (cflags c) DF_LOCAL else \<exists>i. foreign_rr c i \<noteq> None)"

lemma to_write_eq:
  assumes "shape_ok c"
  shows "to_write c = Some (wanted c)"
proof (cases "is_neg c")
  case False
  have "foreign_rr c i = None" if "\<not> i < length (slots c)" for i using that by (simp add: foreign_rr_def rr_def)
  then have "i \<in> set [0..<length (slots c)]" if "foreign_rr c i \<noteq> None" for i using that by (cases "i < length (slots c)") auto
  then have "(\<exists>i \<in> set [0..<length (slots c)]. foreign_rr c i \<noteq> None) = (\<exists>i. foreign_rr c i \<noteq> None)" by blast
  then show ?thesis using False any_foreign_eq [OF assms, of "[0..<length (slots c)]"] RRARR_LEN_slots [OF assms] by (simp add: to_write_def wanted_def)
qed (simp add: to_write_def wanted_def)

text \<open>The entries in the order of the hash table, and those that are written.\<close>

definition table_cents :: "cache \<Rightarrow> dns_cent list" where
  "table_cents s = map (\<lambda>he. the (cents s (data he))) (concat (hash_buckets s))"

definition kept_cents :: "cache \<Rightarrow> dns_cent list" where
  "kept_cents s = filter wanted (table_cents s)"

lemma write_entries_enc:
  assumes "\<forall>a \<in> set as. \<exists>c. cents s a = Some c \<and> cent_ok c \<and> (wanted c \<longrightarrow> all_writable c)"
  shows "count_entries s as = Some (length (filter wanted (map (\<lambda>a. the (cents s a)) as))) \<and>
    write_entries s as (f, []) = Some (True, f @ concat (map enc_entry (filter wanted (map (\<lambda>a. the (cents s a)) as))), [])"
  using assms
proof (induction "as" arbitrary: f)
  case (Cons a "as")
  then obtain c where c: "cents s a = Some c" "cent_ok c" "wanted c \<longrightarrow> all_writable c" by auto
  have t: "to_write c = Some (wanted c)" using to_write_eq c(2) by (simp add: cent_ok_def)
  show ?case using Cons c t write_entry_enc [OF c(2)] by auto
qed simp

lemma table_entry:
  assumes inv: "cache_inv s" and he: "he \<in> set (concat (hash_buckets s))"
  obtains c where "cents s (data he) = Some c" "cent_ok c"
proof -
  have "data he \<in> dom (cents s)" using inv he unfolding cache_inv_def table_def by blast
  then show thesis using inv that unfolding cache_inv_def core_def by blast
qed

lemma write_file_enc:
  assumes inv: "cache_inv s" and w: "\<forall>c \<in> set (kept_cents s). all_writable c"
  shows "write_file s [] = Some (True, cachverid @ le_bytes 8 (length (kept_cents s)) @ concat (map enc_entry (kept_cents s)))"
proof -
  have "length (hash_buckets s) = HASH_NUM_BUCKETS" using inv by (simp add: cache_inv_def table_def hash_inv_def)
  then have f: "fetch_all (hash_buckets s) = Some (map data (concat (hash_buckets s)))" by (rule fetch_all_ok)
  have m: "map (\<lambda>a. the (cents s a)) (map data (concat (hash_buckets s))) = table_cents s" by (simp only: table_cents_def map_map comp_def)
  have "\<forall>a \<in> set (map data (concat (hash_buckets s))). \<exists>c. cents s a = Some c \<and> cent_ok c \<and> (wanted c \<longrightarrow> all_writable c)"
  proof
    fix a assume "a \<in> set (map data (concat (hash_buckets s)))"
    then obtain he where he: "he \<in> set (concat (hash_buckets s))" "a = data he" unfolding set_map by blast
    obtain c where c: "cents s (data he) = Some c" "cent_ok c" using table_entry [OF inv he(1)] .
    have "the (cents s (data he)) \<in> set (table_cents s)" using he(1) unfolding table_cents_def set_map by blast
    then have "wanted c \<longrightarrow> all_writable c" using w c(1) by (simp add: kept_cents_def)
    then show "\<exists>c. cents s a = Some c \<and> cent_ok c \<and> (wanted c \<longrightarrow> all_writable c)" using he(2) c by blast
  qed
  note e = write_entries_enc [OF this, unfolded m]
  show ?thesis using f e unfolding write_file_def kept_cents_def by (simp add: Let_def del: map_concat)
qed

text \<open>Adding the entries read one after the other.\<close>

inductive adds :: "globparm \<Rightarrow> (nat \<Rightarrow> int) \<Rightarrow> dns_cent list \<Rightarrow> cache \<Rightarrow> cache \<Rightarrow> bool" for g clock where
  adds_Nil: "adds g clock [] s s"
| adds_Cons: "stored c c' \<Longrightarrow> add_cache g (clock (length xs)) c' s [] = Some (s1, []) \<Longrightarrow> adds g clock xs s1 s' \<Longrightarrow> adds g clock (c # xs) s s'"

definition storable :: "dns_cent \<Rightarrow> bool" where
  "storable c \<longleftrightarrow> cent_ok c \<and> all_writable c \<and> \<not> has (cflags c) DF_LOCAL \<and> (is_neg c \<longrightarrow> in_time (neg_ttl (body c)) \<and> in_time (neg_ts (body c)))"

lemma read_entries_enc:
  "cache_inv s \<Longrightarrow> length (rrset_l s) + NRRTOT * length xs < 2 ^ NTMPSORT \<Longrightarrow> \<forall>c \<in> set xs. storable c \<Longrightarrow>
    rfile st = concat (map enc_entry xs) @ rest \<Longrightarrow> rmem st = [] \<Longrightarrow>
    ok (read_entries g clock (length xs) s st) (\<lambda>(x, s', st'). x = Inr () \<and> cache_inv s' \<and> length (rrset_l s') < 2 ^ NTMPSORT \<and> adds g clock xs s s')"
proof (induction xs arbitrary: s st)
  case Nil
  then show ?case by (simp add: adds_Nil)
next
  case (Cons c xs)
  have c: "cent_ok c" "all_writable c" "\<not> has (cflags c) DF_LOCAL" "is_neg c \<longrightarrow> in_time (neg_ttl (body c)) \<and> in_time (neg_ts (body c))"
    using Cons.prems(3) by (simp_all add: storable_def)
  have "rfile st = enc_entry c @ concat (map enc_entry xs) @ rest" using Cons.prems(4) by simp
  from read_entry_enc [OF c this Cons.prems(5)] obtain st1 c' where r: "read_entry st = Some (Inr c', st1)" "rfile st1 = concat (map enc_entry xs) @ rest"
    "rmem st1 = []" "stored c c'" by (rule ok2E) blast
  have l: "loose c'" "cent_ok c'" using r(4) by (simp_all add: stored_def loose_def)
  obtain k where k: "wf_name k" "qname c' = wire k" using cent_ok_name [OF l(2)] by blast
  have len: "length (rrset_l s) + NRRTOT + NRRTOT * length xs < 2 ^ NTMPSORT" using Cons.prems(2) by simp
  then have len1: "length (rrset_l s) + NRRTOT < 2 ^ NTMPSORT" by simp
  from add_cache_ok [OF Cons.prems(1) [unfolded cache_inv_but] k l(2) len1, of g "clock (length xs)" "[]"] obtain s1 where
    a: "add_cache g (clock (length xs)) c' s [] = Some (s1, [])" "inv_but 0 s1" "length (rrset_l s1) \<le> length (rrset_l s) + NRRTOT" by (rule ok2E) blast
  let ?st = "st1\<lparr>rmem := []\<rparr>"
  have e: "read_entries g clock (length (c # xs)) s st = read_entries g clock (length xs) s1 ?st" using r(1,3) a(1) loose_free [OF l(1)] by simp
  have "ok (read_entries g clock (length xs) s1 ?st) (\<lambda>(x, s', st'). x = Inr () \<and> cache_inv s' \<and> length (rrset_l s') < 2 ^ NTMPSORT \<and> adds g clock xs s1 s')"
    by (rule Cons.IH) (use a len Cons.prems(3) r in \<open>simp_all add: cache_inv_but\<close>)
  then show ?case unfolding e by (rule ok_mono) (use adds_Cons [where clock = clock, OF r(4) a(1)] in auto)
qed

lemma read_file_enc:
  assumes inv: "cache_inv s" and len: "length (rrset_l s) + NRRTOT * length xs < 2 ^ NTMPSORT" and xs: "\<forall>c \<in> set xs. storable c" "length xs < 2 ^ 64"
    and st: "rfile st = cachverid @ le_bytes 8 (length xs) @ concat (map enc_entry xs)" "rmem st = []"
  shows "ok (read_file g clock s st) (\<lambda>(x, s', st'). x = Inr () \<and> cache_inv s' \<and> length (rrset_l s') < 2 ^ NTMPSORT \<and> adds g clock xs s s')"
proof -
  have r: "fread (length cachverid) (rfile st) = Some (cachverid, le_bytes 8 (length xs) @ concat (map enc_entry xs))" using st(1) by simp
  have r2: "fread 8 (le_bytes 8 (length xs) @ concat (map enc_entry xs)) = Some (le_bytes 8 (length xs), concat (map enc_entry xs))" by simp
  have v: "le_val (le_bytes 8 (length xs)) = length xs" using xs(2) by simp
  let ?st = "st\<lparr>rfile := concat (map enc_entry xs)\<rparr>"
  have e: "read_file g clock s st = read_entries g clock (length xs) s ?st" unfolding read_file_def r option.case prod.case r2 v by simp
  show ?thesis unfolding e by (rule read_entries_enc [OF inv len xs(1), of _ "[]"]) (simp_all add: st(2))
qed

lemma sort_after_read_content:
  assumes "cache_inv s" and "length (rrset_l s) < 2 ^ NTMPSORT"
  shows "ok (sort_after_read s) (\<lambda>s'. cache_inv s' \<and> insert_sort s' \<and> content s' = content s \<and> cache_size s' = cache_size s)"
proof (cases "insert_sort s")
  case True
  then show ?thesis using assms(1) by (simp add: sort_after_read_def)
next
  case False
  from sort_rrl_ok [OF assms(1) [unfolded cache_inv_but] assms(2)] obtain s' and f :: "rr_lent \<Rightarrow> int" where
    s': "sort_rrl s = Some s'" "inv_but 0 (s'\<lparr>insert_sort := True\<rparr>)" "s' = s\<lparr>rrset_l := sort_key f (rrset_l s)\<rparr>" by (rule okE) blast
  have "content (s'\<lparr>insert_sort := True\<rparr>) = content s"
    by (rule ext) (simp add: s'(3) content_def found_def qn_def [abs_def] split: option.split)
  then show ?thesis using False s' by (simp add: sort_after_read_def cache_inv_but)
qed

text \<open>A cache with one entry that is not local.\<close>

definition one_cent :: dns_cent where
  "one_cent = (sample_cent 0)\<lparr>body := RR [Some ((sample_rrset 0)\<lparr>lent := Some 1\<rparr>), None, None, None, None, None, None, None] None\<rparr>"

definition one_cache :: cache where
  "one_cache = \<lparr>hash_buckets = mk_dns_hash[fst (name_hash [[97]]) := [\<lparr>rhash = snd (name_hash [[97]]), data = 0\<rparr>]], cents = [0 \<mapsto> one_cent],
     rrset_l = [\<lparr>lnode = 1, lrrset = True, lcent = 0, lidx = 0\<rparr>], cache_size = 167, ent_num = 1, insert_sort = True, fresh = 2\<rparr>"

lemma one_cent_facts: "cent_ok one_cent" "rr one_cent i = (if i = 0 then Some ((sample_rrset 0)\<lparr>lent := Some 1\<rparr>) else None)" "cs one_cent = 167"
  "\<not> is_neg one_cent" "qname one_cent = wire [[97]]" "body one_cent = RR [Some ((sample_rrset 0)\<lparr>lent := Some 1\<rparr>), None, None, None, None, None, None, None] None"
proof -
  show b: "body one_cent = RR [Some ((sample_rrset 0)\<lparr>lent := Some 1\<rparr>), None, None, None, None, None, None, None] None" by (simp add: one_cent_def)
  show n: "\<not> is_neg one_cent" by (simp add: is_neg_def has_def one_cent_def sample_cent_def)
  have s: "slots one_cent = [Some ((sample_rrset 0)\<lparr>lent := Some 1\<rparr>), None, None, None, None, None, None, None]" by (simp add: slots_def b)
  show q: "qname one_cent = wire [[97]]" and c: "cs one_cent = 167" by (simp_all add: one_cent_def sample_cent_def)
  have "num_rrs one_cent = 1" by (simp add: one_cent_def sample_cent_def)
  moreover have "shape_ok one_cent" using n b by (simp add: shape_ok_def NRRMU_def)
  moreover have "\<exists>ls. wf_name ls \<and> qname one_cent = wire ls" using q sample_name(1) by blast
  ultimately show "cent_ok one_cent" unfolding cent_ok_def tot_def s c
    by (simp add: q b sample_rrset_def ext_size_def opt_size_def opt_count_def rrset_size_def sizeof_dns_cent_def sizeof_rr_set_def sizeof_rr_bucket_def)
  show "rr one_cent i = (if i = 0 then Some ((sample_rrset 0)\<lparr>lent := Some 1\<rparr>) else None)"
  proof (cases "i < 8")
    case True
    then have "i \<in> {0, 1, 2, 3, 4, 5, 6, 7}" by auto
    then show ?thesis unfolding rr_def s by auto
  qed (simp add: rr_def s)
qed

lemma concat_one: "b < n \<Longrightarrow> concat ((replicate n [])[b := [x]]) = [x]"
proof (induction n arbitrary: b)
  case (Suc n)
  then show ?case by (cases b) (simp_all add: concat_replicate_trivial)
qed simp

lemma one_cache_table:
  shows "hash_inv (qn one_cache) (hash_buckets one_cache)" "set (concat (hash_buckets one_cache)) = {\<lparr>rhash = snd (name_hash [[97]]), data = 0\<rparr>}"
    "length (concat (hash_buckets one_cache)) = 1"
proof -
  let ?b = "fst (name_hash [[97]])" let ?he = "\<lparr>rhash = snd (name_hash [[97]]), data = 0\<rparr> :: dns_hash_ent"
  have q: "qn one_cache 0 = Some (wire [[97]])" by (simp add: qn_def one_cache_def one_cent_facts(5) del: wire.simps)
  have b: "?b < HASH_NUM_BUCKETS" by (rule name_hash_bound)
  have t: "hash_buckets one_cache = mk_dns_hash[?b := [?he]]" by (simp add: one_cache_def)
  have "ent_ok (qn one_cache) ?b ?he" unfolding ent_ok_def by (rule exI [of _ "[[97]]"]) (simp add: q sample_name(1) del: wire.simps)
  then show "hash_inv (qn one_cache) (hash_buckets one_cache)" unfolding hash_inv_def t
    using b by (simp add: mk_dns_hash_def chain_ok_def nth_list_update)
  have "concat (hash_buckets one_cache) = [?he]" unfolding t mk_dns_hash_def using b by (rule concat_one)
  then show "set (concat (hash_buckets one_cache)) = {?he}" "length (concat (hash_buckets one_cache)) = 1" by simp_all
qed

lemma one_cache_inv: "cache_inv one_cache"
proof -
  have n: "nodes 0 one_cent = {\<lparr>lnode = 1, lrrset = True, lcent = 0, lidx = 0\<rparr>}"
    unfolding nodes_def one_cent_facts(6) cent_body.case by (auto simp: one_cent_facts(2) slot_node_def split: if_splits)
  have "core one_cache" unfolding core_def by (auto simp: one_cache_def all_nodes_def n one_cent_facts(1))
  moreover have "table one_cache (dom (cents one_cache))" unfolding table_def one_cache_table(2) using one_cache_table(1) by (simp add: one_cache_def)
  ultimately show ?thesis by (simp add: cache_inv_def one_cache_def total_cs_def one_cent_facts(3))
qed

text \<open>
  The records of a set that is not local are dropped when they are read into an entry with the flag \<^verbatim>\<open>DF_LOCAL\<close>, although they have been
  written to the file: only the empty set remains, which \<^verbatim>\<open>add_cent_rrset_by_type\<close> has added before.
\<close>

lemma read_rrs_local_drops:
  assumes "has (cflags ce) DF_LOCAL" and "\<not> has (f_flags sh) CF_LOCAL"
  shows "read_rrs sh n ce st = Some (Inr ce', st') \<Longrightarrow> ce' = ce"
proof (induction n arbitrary: st)
  case (Suc n)
  have a: "add_cent_rr ce (f_tp sh) (f_ttl sh) (f_ts sh) (f_flags sh) dat [] al = Some (True, ce, [], al)" for dat al
    using assms by (simp add: add_cent_rr_def)
  show ?case using Suc.prems Suc.IH by (auto simp: a Let_def split: option.splits prod.splits if_splits)
qed simp

text \<open>
  C10. Reading a cache file corrupts no memory, whatever the file holds: for every sequence of bytes and every outcome of the allocations
  \<^verbatim>\<open>read_disk_cache\<close> stays within its buffers, passes all assertions and leaves a consistent cache. It gives up only for
  lack of memory, and otherwise ends with the list of record sets kept sorted on insertion again. (The file must be small enough for the
  merge sort to have room for all record sets it could hold.) The time stamps of the file are used as they are, in sums of 64 bits that
  wrap around (\<open>time_t\<close>): a file with stamps near the ends of that range makes records expire at the wrong time
  (\<open>timedout_overflow\<close>), by an overflow that ISO C does not define.
\<close>

theorem read_disk_cache_robust:
  assumes "cache_inv s" and "length (rrset_l s) + NRRTOT * length f < 2 ^ NTMPSORT"
  shows "ok (read_disk_cache g clock (Some f) s al) (\<lambda>(r, s'). cache_inv s' \<and> (r \<longrightarrow> insert_sort s') \<and> (al = [] \<longrightarrow> r))"
proof -
  obtain mem al1 where m: "malloc al = (mem, al1)" by (cases "malloc al")
  have m0: "al = [] \<longrightarrow> mem \<and> al1 = []" using m by auto
  show ?thesis
  proof (cases mem)
    case False
    then show ?thesis using m m0 assms(1) by (simp add: read_disk_cache_def)
  next
    case True
    let ?st = "\<lparr>rfile = f, dtsz = 512, rmem = al1\<rparr>"
    have "length (rrset_l (s\<lparr>insert_sort := False\<rparr>)) + NRRTOT * length (rfile ?st) < 2 ^ NTMPSORT" using assms(2) by simp
    from read_file_ok [OF insert_sort_inv [OF assms(1), of False] this, of g clock] obtain x s1 st1 where
      1: "read_file g clock (s\<lparr>insert_sort := False\<rparr>) ?st = Some (x, s1, st1)" "cache_inv s1" "length (rrset_l s1) < 2 ^ NTMPSORT"
        "case x of Inl e \<Rightarrow> stopped ?st e | Inr _ \<Rightarrow> True" by (rule ok3E) blast
    from sort_after_read_ok [OF 1(2,3)] obtain s2 where 2: "sort_after_read s1 = Some s2" "cache_inv s2" "insert_sort s2" by (rule okE) blast
    show ?thesis
    proof (cases x)
      case (Inr u)
      then show ?thesis using m True 1(1) 2 by (simp add: read_disk_cache_def)
    next
      case (Inl e)
      then have e: "stop_ok e" "al = [] \<longrightarrow> \<not> exits e" using 1(4) m0 by (simp_all add: stopped_def)
      then show ?thesis using m True 1(1,2) 2 Inl loose_free by (cases e) (simp_all add: read_disk_cache_def)
    qed
  qed
qed

theorem read_disk_cache_robust_witness:
  "ok (read_disk_cache sample_parms (\<lambda>_. 0) (Some [0x70, 0x64, 0x31, 0x33, 1, 0, 0, 0, 0, 0, 0, 0, 1, 1, 0, 0, 255]) init_cache [])
    (\<lambda>(r, s'). cache_inv s' \<and> (r \<longrightarrow> insert_sort s') \<and> (([] :: allocs) = [] \<longrightarrow> r))"
  by (rule read_disk_cache_robust [OF init_cache_inv]) (simp add: init_cache_def NRRTOT_def NTMPSORT_def)

text \<open>
  C11. What is written can be read back. The file that \<^verbatim>\<open>write_disk_cache\<close> writes for a consistent cache, if all writes succeed and the record
  sets are within the limits of the format, makes \<^verbatim>\<open>read_disk_cache\<close> add, in the order of the hash table, exactly the entries that have something
  that is not local: each with its name, flags and references, its record sets that are not local with their times and
  records in order, or its lifetime if it is negative. The cache is then sorted, with the same content.
  (Entries with the flag \<^verbatim>\<open>DF_LOCAL\<close> are excluded: their other records are dropped when they are read.)
\<close>

theorem disk_cache_roundtrip:
  assumes "cache_inv s" and "\<forall>c \<in> set (kept_cents s). storable c" and "length (kept_cents s) < 2 ^ 64"
    and "cache_inv s0" and "length (rrset_l s0) + NRRTOT * length (kept_cents s) < 2 ^ NTMPSORT"
  shows "ok (write_file s []) (\<lambda>(r, f). r \<and> ok (read_disk_cache g clock (Some f) s0 []) (\<lambda>(r', s'). r' \<and> cache_inv s' \<and> insert_sort s' \<and>
    (\<exists>s1. adds g clock (kept_cents s) (s0\<lparr>insert_sort := False\<rparr>) s1 \<and> content s' = content s1 \<and> cache_size s' = cache_size s1)))"
proof -
  let ?f = "cachverid @ le_bytes 8 (length (kept_cents s)) @ concat (map enc_entry (kept_cents s))"
  let ?s = "s0\<lparr>insert_sort := False\<rparr>" let ?st = "\<lparr>rfile = ?f, dtsz = 512, rmem = []\<rparr>"
  have w: "write_file s [] = Some (True, ?f)" by (rule write_file_enc [OF assms(1)]) (use assms(2) in \<open>simp add: storable_def\<close>)
  have "ok (read_file g clock ?s ?st) (\<lambda>(x, s', st'). x = Inr () \<and> cache_inv s' \<and> length (rrset_l s') < 2 ^ NTMPSORT \<and> adds g clock (kept_cents s) ?s s')"
    by (rule read_file_enc [OF insert_sort_inv [OF assms(4)] _ assms(2,3)]) (use assms(5) in simp_all)
  then obtain s1 st1 where 1: "read_file g clock ?s ?st = Some (Inr (), s1, st1)" "cache_inv s1" "length (rrset_l s1) < 2 ^ NTMPSORT" "adds g clock (kept_cents s) ?s s1"
    by (rule ok3E) blast
  from sort_after_read_content [OF 1(2,3)] obtain s2 where 2: "sort_after_read s1 = Some s2" "cache_inv s2" "insert_sort s2" "content s2 = content s1"
    "cache_size s2 = cache_size s1" by (rule okE) blast
  have "read_disk_cache g clock (Some ?f) s0 [] = Some (True, s2)" using 1(1) 2(1) by (simp add: read_disk_cache_def)
  then show ?thesis unfolding w using 1(4) 2(2-5) by auto
qed

theorem disk_cache_roundtrip_witness:
  "one_cent \<in> set (kept_cents one_cache) \<and> ok (write_file one_cache []) (\<lambda>(r, f). r \<and> ok (read_disk_cache sample_parms (\<lambda>_. 2000) (Some f) init_cache [])
    (\<lambda>(r', s'). r' \<and> cache_inv s' \<and> insert_sort s' \<and> (\<exists>s1. adds sample_parms (\<lambda>_. 2000) (kept_cents one_cache) (init_cache\<lparr>insert_sort := False\<rparr>) s1 \<and>
      content s' = content s1 \<and> cache_size s' = cache_size s1)))"
proof -
  have w: "wanted one_cent" using one_cent_facts(4) by (auto simp: wanted_def foreign_rr_def one_cent_facts(2) sample_rrset_def has_def)
  have "storable one_cent" using one_cent_facts(1,4)
    by (auto simp: storable_def all_writable_def writable_def in_time_def one_cent_facts(2) sample_rrset_def split: if_splits)
      (simp add: one_cent_def sample_cent_def has_def)
  moreover have t: "set (table_cents one_cache) = {one_cent}" unfolding table_cents_def set_map one_cache_table(2) by (simp add: one_cache_def)
  ultimately have k: "set (kept_cents one_cache) = {one_cent}" "\<forall>c \<in> set (kept_cents one_cache). storable c" using w by (auto simp: kept_cents_def)
  have l: "length (kept_cents one_cache) \<le> 1"
    using length_filter_le [of wanted "table_cents one_cache"] one_cache_table(3) unfolding kept_cents_def table_cents_def length_map by linarith
  have "length (rrset_l init_cache) + NRRTOT * length (kept_cents one_cache) < 2 ^ NTMPSORT" "length (kept_cents one_cache) < 2 ^ 64"
    using l mult_le_mono2 [OF l, of NRRTOT] by (simp_all add: init_cache_def NRRTOT_def NTMPSORT_def)
  from disk_cache_roundtrip [OF one_cache_inv k(2) this(2) init_cache_inv this(1), of sample_parms "\<lambda>_. 2000"] k(1) show ?thesis by simp
qed

end
