(* ===== verification/Header.thy ===== *)
theory Header
  imports RRTypes Decompress
begin

text \<open>
  Message headers and the codes that go with them (\<^verbatim>\<open>src/dns.h\<close>), and \<open>dnsflags2str\<close> of
  \<^verbatim>\<open>src/dns.c\<close>.

  The C code overlays the structure \<^verbatim>\<open>dns_hdr_t\<close> on the first 12 bytes of a message. Here
  \<open>get_hdr\<close> reads the structure off the bytes and \<open>hdr_bytes\<close> lays it out, in the byte order
  of a little-endian machine, where the first bit field of the structure is the lowest bit of its byte.
\<close>

section \<open>Codes\<close>

definition RC_SERVFAIL :: nat where "RC_SERVFAIL = 2"
definition RC_NAMEERR :: nat where "RC_NAMEERR = 3"
definition RC_NOTSUPP :: nat where "RC_NOTSUPP = 4"
definition RC_BADVERS :: nat where "RC_BADVERS = 16"

definition T_MD :: nat where "T_MD = 3"
definition T_MF :: nat where "T_MF = 4"
definition T_MB :: nat where "T_MB = 7"
definition T_MG :: nat where "T_MG = 8"
definition T_MR :: nat where "T_MR = 9"
definition T_MINFO :: nat where "T_MINFO = 14"
definition T_MX :: nat where "T_MX = 15"
definition T_RP :: nat where "T_RP = 17"
definition T_AFSDB :: nat where "T_AFSDB = 18"
definition T_RT :: nat where "T_RT = 21"
definition T_PX :: nat where "T_PX = 26"
definition T_NXT :: nat where "T_NXT = 30"
definition T_SRV :: nat where "T_SRV = 33"
definition T_NAPTR :: nat where "T_NAPTR = 35"
definition T_KX :: nat where "T_KX = 36"
definition T_OPT :: nat where "T_OPT = 41"

definition QT_IXFR :: nat where "QT_IXFR = 251"
definition QT_AXFR :: nat where "QT_AXFR = 252"
definition QT_MAILB :: nat where "QT_MAILB = 253"
definition QT_MAILA :: nat where "QT_MAILA = 254"
definition QT_ALL :: nat where "QT_ALL = 255"

definition C_IN :: nat where "C_IN = 1"
definition QC_ALL :: nat where "QC_ALL = 255"

definition QR_QUERY :: bool where "QR_QUERY = False"
definition QR_RESP :: bool where "QR_RESP = True"
definition OP_QUERY :: "4 word" where "OP_QUERY = 0"

text \<open>\<^verbatim>\<open>sizeof(dns_hdr_t)\<close>, and the sizes of the fixed part of a record and of an OPT record\<close>

definition sizeof_dns_hdr :: nat where "sizeof_dns_hdr = 12"
definition sizeof_rr_hdr :: nat where "sizeof_rr_hdr = 10"
definition sizeof_opt_pseudo_rr :: nat where "sizeof_opt_pseudo_rr = 1 + sizeof_rr_hdr"
definition dnsmsghdroffset :: nat where "dnsmsghdroffset = 2"

lemmas code_defs = RC_OK_def RC_FORMAT_def RC_TRUNC_def RC_SERVFAIL_def RC_NAMEERR_def RC_NOTSUPP_def RC_BADVERS_def

lemmas hdr_sizes = sizeof_dns_hdr_def sizeof_rr_hdr_def sizeof_opt_pseudo_rr_def dnsmsghdroffset_def

section \<open>The structure and its bytes\<close>

text \<open>\<^verbatim>\<open>dns_hdr_t\<close>; \<open>h_id\<close> and the counts are in host order here.\<close>

record dns_hdr =
  h_id :: "16 word"
  h_rd :: bool
  h_tc :: bool
  h_aa :: bool
  h_opcode :: "4 word"
  h_qr :: bool
  h_rcode :: "4 word"
  h_cd :: bool
  h_ad :: bool
  h_z :: bool
  h_ra :: bool
  h_qdcount :: "16 word"
  h_ancount :: "16 word"
  h_nscount :: "16 word"
  h_arcount :: "16 word"

text \<open>The bit field \<open>opcode\<close> of the third byte.\<close>

definition opcode_of :: "byte \<Rightarrow> 4 word" where
  "opcode_of b = ucast (drop_bit 3 b)"

definition get_hdr :: "bytes \<Rightarrow> dns_hdr option" where
  "get_hdr m = do {
     (i, _) \<leftarrow> GETINT16 m 0;
     b \<leftarrow> rd m 2;
     c \<leftarrow> rd m 3;
     (qd, _) \<leftarrow> GETINT16 m 4;
     (an, _) \<leftarrow> GETINT16 m 6;
     (ns, _) \<leftarrow> GETINT16 m 8;
     (ar, _) \<leftarrow> GETINT16 m 10;
     Some \<lparr>h_id = i, h_rd = bit b 0, h_tc = bit b 1, h_aa = bit b 2, h_opcode = opcode_of b, h_qr = bit b 7,
       h_rcode = ucast c, h_cd = bit c 4, h_ad = bit c 5, h_z = bit c 6, h_ra = bit c 7,
       h_qdcount = qd, h_ancount = an, h_nscount = ns, h_arcount = ar\<rparr> }"

definition be16 :: "16 word \<Rightarrow> bytes" where
  "be16 v = [ucast (drop_bit 8 v), ucast v]"

definition be32 :: "32 word \<Rightarrow> bytes" where
  "be32 v = [ucast (drop_bit 24 v), ucast (drop_bit 16 v), ucast (drop_bit 8 v), ucast v]"

definition flags_lo :: "dns_hdr \<Rightarrow> byte" where
  "flags_lo h = of_bool (h_rd h) OR push_bit 1 (of_bool (h_tc h)) OR push_bit 2 (of_bool (h_aa h)) OR
     push_bit 3 (ucast (h_opcode h)) OR push_bit 7 (of_bool (h_qr h))"

definition flags_hi :: "dns_hdr \<Rightarrow> byte" where
  "flags_hi h = ucast (h_rcode h) OR push_bit 4 (of_bool (h_cd h)) OR push_bit 5 (of_bool (h_ad h)) OR
     push_bit 6 (of_bool (h_z h)) OR push_bit 7 (of_bool (h_ra h))"

definition hdr_bytes :: "dns_hdr \<Rightarrow> bytes" where
  "hdr_bytes h = be16 (h_id h) @ [flags_lo h, flags_hi h] @
     be16 (h_qdcount h) @ be16 (h_ancount h) @ be16 (h_nscount h) @ be16 (h_arcount h)"

text \<open>The flags of a header as text; the buffer has \<^verbatim>\<open>DNSFLAGSMAXSTRSIZE\<close> bytes.\<close>

definition DNSFLAGSMAXSTRSIZE :: nat where "DNSFLAGSMAXSTRSIZE = 7 * 3 + 1"

definition mempcpy_if :: "bool \<Rightarrow> bytes \<Rightarrow> bytes \<times> nat \<Rightarrow> (bytes \<times> nat) option" where
  "mempcpy_if f s = (\<lambda>(buf, p). if \<not> f then Some (buf, p)
     else if p + length s \<le> length buf then Some (put buf p s, p + length s) else None)"

definition dnsflags2str :: "dns_hdr \<Rightarrow> bytes \<Rightarrow> bytes option" where
  "dnsflags2str h buf = do {
     p \<leftarrow> mempcpy_if (h_aa h) [32, 65, 65] (buf, 0);
     p \<leftarrow> mempcpy_if (h_tc h) [32, 84, 67] p;
     p \<leftarrow> mempcpy_if (h_rd h) [32, 82, 68] p;
     p \<leftarrow> mempcpy_if (h_ra h) [32, 82, 65] p;
     p \<leftarrow> mempcpy_if (h_z h) [32, 90] p;
     p \<leftarrow> mempcpy_if (h_ad h) [32, 65, 68] p;
     (buf, p) \<leftarrow> mempcpy_if (h_cd h) [32, 67, 68] p;
     wr buf p 0 }"

section \<open>Lemmas\<close>

lemma length_be [simp]: "length (be16 v) = 2" "length (be32 w) = 4"
  by (simp_all add: be16_def be32_def)

lemma length_hdr_bytes [simp]: "length (hdr_bytes h) = 12"
  by (simp add: hdr_bytes_def)

lemma join16: "push_bit 8 (ucast (ucast (drop_bit 8 v) :: byte)) OR ucast (ucast v :: byte) = (v :: 16 word)"
  by (rule bit_word_eqI) (auto simp: bit_simps)

lemma GETINT16_be16: "take 2 (drop i m) = be16 v \<Longrightarrow> GETINT16 m i = Some (v, i + 2)"
proof -
  assume a: "take 2 (drop i m) = be16 v"
  then have "length (take 2 (drop i m)) = 2" by simp
  then have len: "i + 2 \<le> length m" by simp
  then have "take 2 (drop i m) = [m ! i, m ! Suc i]"
    by (intro nth_equalityI) (auto simp: less_Suc_eq numeral_2_eq_2)
  with a have "m ! i = ucast (drop_bit 8 v)" "m ! Suc i = ucast v" by (simp_all add: be16_def)
  with len show ?thesis by (simp add: GETINT16_def join16)
qed

lemma PUTINT16_be16: "i + 2 \<le> length m \<Longrightarrow> PUTINT16 v m i = Some (put m i (be16 v), i + 2)"
  using put_put [of i "[ucast (drop_bit 8 v)]" "[ucast v]" m]
  by (simp add: PUTINT16_def put_single be16_def)

lemma PUTINT32_be32: "i + 4 \<le> length m \<Longrightarrow> PUTINT32 v m i = Some (put m i (be32 v), i + 4)"
  using put_put [of i "[ucast (drop_bit 24 v)]" "[ucast (drop_bit 16 v)]" m]
    put_put [of i "[ucast (drop_bit 24 v), ucast (drop_bit 16 v)]" "[ucast (drop_bit 8 v)]" m]
    put_put [of i "[ucast (drop_bit 24 v), ucast (drop_bit 16 v), ucast (drop_bit 8 v)]" "[ucast v]" m]
  by (simp add: PUTINT32_def put_single be32_def numeral_2_eq_2 numeral_3_eq_3)

lemma GETINT16_ok: "ok (GETINT16 m i) P \<longleftrightarrow> i + 2 \<le> length m \<and> P (push_bit 8 (ucast (m ! i)) OR ucast (m ! Suc i), i + 2)"
  by (auto simp: GETINT16_def ok_simps)

lemma GETINT16_Some: "i + 2 \<le> length m \<Longrightarrow> \<exists>v. GETINT16 m i = Some (v, i + 2)"
  by (simp add: GETINT16_def)

lemma get_hdr_Some: "12 \<le> length m \<Longrightarrow> \<exists>h. get_hdr m = Some h"
proof -
  assume m: "12 \<le> length m"
  then have "rd m 0 = Some (m ! 0)" by (intro rd_Some) linarith
  with m show ?thesis by (simp add: get_hdr_def GETINT16_def)
qed

text \<open>The overlay: what is laid out is read back, whatever follows it.\<close>

lemma hdr_flag_bits:
  "bit (flags_lo h) 0 = h_rd h" "bit (flags_lo h) (Suc 0) = h_tc h" "bit (flags_lo h) 2 = h_aa h"
  "opcode_of (flags_lo h) = h_opcode h" "bit (flags_lo h) 7 = h_qr h"
  "ucast (flags_hi h) = h_rcode h" "bit (flags_hi h) 4 = h_cd h" "bit (flags_hi h) 5 = h_ad h"
  "bit (flags_hi h) 6 = h_z h" "bit (flags_hi h) 7 = h_ra h"
proof -
  have r: "\<not> bit (h_rcode h) n" if "4 \<le> n" for n using that by (auto dest: bit_imp_le_length)
  have o: "\<not> bit (h_opcode h) n" if "4 \<le> n" for n using that by (auto dest: bit_imp_le_length)
  show "bit (flags_lo h) 0 = h_rd h" "bit (flags_lo h) (Suc 0) = h_tc h" "bit (flags_lo h) 2 = h_aa h"
    "bit (flags_lo h) 7 = h_qr h"
    using o [of 4] by (simp_all add: flags_lo_def bit_simps)
  show "bit (flags_hi h) 4 = h_cd h" "bit (flags_hi h) 5 = h_ad h" "bit (flags_hi h) 6 = h_z h"
    "bit (flags_hi h) 7 = h_ra h"
    using r by (simp_all add: flags_hi_def bit_simps)
  show "opcode_of (flags_lo h) = h_opcode h"
  proof (rule bit_word_eqI)
    fix n assume "n < LENGTH(4)"
    then have "n = 0 \<or> n = 1 \<or> n = 2 \<or> n = 3" by auto
    then show "bit (opcode_of (flags_lo h)) n = bit (h_opcode h) n"
      by (auto simp: opcode_of_def flags_lo_def bit_simps)
  qed
  show "ucast (flags_hi h) = h_rcode h"
  proof (rule bit_word_eqI)
    fix n assume "n < LENGTH(4)"
    then have "n = 0 \<or> n = 1 \<or> n = 2 \<or> n = 3" by auto
    then show "bit (ucast (flags_hi h) :: 4 word) n = bit (h_rcode h) n"
      by (auto simp: flags_hi_def bit_simps)
  qed
qed

lemma get_hdr_bytes: "get_hdr (hdr_bytes h @ rest) = Some h"
  unfolding get_hdr_def hdr_bytes_def be16_def
  by (simp add: GETINT16_def rd_def nth_Cons' join16 hdr_flag_bits)

end
