(* ===== verification/Query.thy ===== *)
theory Query
  imports Header Compress
begin

text \<open>
  Reading queries: \<open>decode_query\<close> and \<open>decode_query_additional\<close> of \<^verbatim>\<open>src/dns_answer.c\<close>.

  The message is given by its bytes and the number \<open>rlen\<close> of them that count; pointers into it are
  indices. The list of questions is a list here; \<open>llist_grow\<close> frees all of it when it fails.
  The lemmas relate the two functions to a declarative reading of the sections.
\<close>

section \<open>The code\<close>

text \<open>\<^verbatim>\<open>dns_queryel_t\<close> and \<^verbatim>\<open>edns_info_t\<close>\<close>

record dns_queryel =
  qtype :: "16 word"
  qclass :: "16 word"
  query :: bytes

record edns_info =
  e_udpsize :: "16 word"
  e_rcode :: "16 word"
  e_version :: "16 word"
  e_do_flg :: bool

text \<open>The loop over the questions; \<open>n\<close> are left. The result is the return code, \<^verbatim>\<open>*ptrrem\<close>, \<^verbatim>\<open>*lenrem\<close> and the list.\<close>

fun decode_questions ::
  "nat \<Rightarrow> bytes \<Rightarrow> nat \<Rightarrow> nat \<Rightarrow> nat \<Rightarrow> dns_queryel list \<Rightarrow> allocs \<Rightarrow>
   (nat \<times> nat \<times> nat \<times> dns_queryel list \<times> allocs) option" where
  "decode_questions 0 data rlen ptr sz qp al = Some (RC_OK, ptr, sz, qp, al)"
| "decode_questions (Suc n) data rlen ptr sz qp al = do {
     d \<leftarrow> decompress_name data rlen ptr sz (replicate DNSNAMEBUFSIZE 0);
     let ptr = d_src d;
     let sz = d_sz d;
     if d_rc d = RC_TRUNC then Some (RC_TRUNC, ptr, sz, qp, al)
     else if d_rc d \<noteq> RC_OK then Some (d_rc d, ptr, sz, [], al)
     else if sz < 4 then Some (RC_TRUNC, ptr, sz, qp, al)
     else do {
       let (mem, al) = malloc al;
       if \<not> mem then Some (RC_SERVFAIL, ptr, sz, [], al)
       else do {
         qlen \<leftarrow> d_len d;
         (t, ptr) \<leftarrow> GETINT16 data ptr;
         (c, ptr) \<leftarrow> GETINT16 data ptr;
         sz \<leftarrow> usub sz 4;
         decode_questions n data rlen ptr sz
           (qp @ [\<lparr>qtype = t, qclass = c, query = take qlen (d_tgt d)\<rparr>]) al } } }"

definition decode_query ::
  "bytes \<Rightarrow> nat \<Rightarrow> allocs \<Rightarrow> (nat \<times> nat \<times> nat \<times> dns_queryel list \<times> allocs) option" where
  "decode_query data rlen al = do {
     sz \<leftarrow> usub rlen sizeof_dns_hdr;
     hdr \<leftarrow> get_hdr data;
     decode_questions (unat (h_qdcount hdr)) data rlen sizeof_dns_hdr sz [] al }"

text \<open>One record of the additional section: the type, the class, the index of the ttl field and the rest.\<close>

definition opt_info :: "bytes \<Rightarrow> 16 word \<Rightarrow> nat \<Rightarrow> edns_info option" where
  "opt_info data cls ttlp = do {
     hdr \<leftarrow> get_hdr data;
     t0 \<leftarrow> rd data ttlp;
     t1 \<leftarrow> rd data (ttlp + 1);
     t2 \<leftarrow> rd data (ttlp + 2);
     Some \<lparr>e_udpsize = cls, e_rcode = push_bit 4 (ucast t0) OR ucast (h_rcode hdr), e_version = ucast t1,
       e_do_flg = bit t2 7\<rparr> }"

text \<open>The loop over the records; the result is the return code, \<^verbatim>\<open>*numopt\<close> and \<^verbatim>\<open>*ep\<close>.\<close>

fun decode_query_additional ::
  "bytes \<Rightarrow> nat \<Rightarrow> nat \<Rightarrow> nat \<Rightarrow> nat \<Rightarrow> nat \<Rightarrow> edns_info \<Rightarrow> (nat \<times> nat \<times> edns_info) option" where
  "decode_query_additional data rlen ptr sz 0 numopt ep = Some (RC_OK, numopt, ep)"
| "decode_query_additional data rlen ptr sz (Suc numrr) numopt ep = do {
     d \<leftarrow> decompress_name data rlen ptr sz (replicate DNSNAMEBUFSIZE 0);
     let ptr = d_src d;
     let sz = d_sz d;
     if d_rc d \<noteq> RC_OK then Some (d_rc d, numopt, ep)
     else if sz < sizeof_rr_hdr then Some (RC_TRUNC, numopt, ep)
     else do {
       sz \<leftarrow> usub sz sizeof_rr_hdr;
       (type, ptr) \<leftarrow> GETINT16 data ptr;
       (class, ptr) \<leftarrow> GETINT16 data ptr;
       let ttlp = ptr;
       let ptr = ptr + 4;
       (rdlen, ptr) \<leftarrow> GETINT16 data ptr;
       if sz < unat rdlen then Some (RC_TRUNC, numopt, ep)
       else do {
         (numopt, ep) \<leftarrow> (if unat type = T_OPT then
             (if numopt = 0 then map_option (\<lambda>ep. (1, ep)) (opt_info data class ttlp)
              else Some (numopt + 1, ep))
           else Some (numopt, ep));
         sz \<leftarrow> usub sz (unat rdlen);
         decode_query_additional data rlen (ptr + unat rdlen) sz numrr numopt ep } } }"

section \<open>Reading the sections declaratively\<close>

text \<open>The name at \<open>i\<close> takes \<open>n\<close> bytes and is \<open>ls\<close>.\<close>

definition name_here :: "bytes \<Rightarrow> nat \<Rightarrow> label list \<Rightarrow> nat \<Rightarrow> bool" where
  "name_here M i ls n \<longleftrightarrow> (\<exists>h \<le> 255. decodes M i ls h) \<and> wf_name ls \<and> occupies M i n"

lemma occupies_det: "occupies M i n \<Longrightarrow> occupies M i n' \<Longrightarrow> n = n'"
proof (induction arbitrary: n' rule: occupies.induct)
  case (occupies_label i b n)
  then obtain m where m: "n' = Suc (unat b + m)" "occupies M (Suc (i + unat b)) m"
    using occupies_byte [OF occupies_label.hyps(1-3)] by blast
  from occupies_label.IH [OF m(2)] m(1) show ?case by simp
next
  case (occupies_ptr i b)
  from occupies_ptr.hyps(2) have "0x3f < b" using byte_ge_c0 by blast
  from occupies_jump [OF occupies_ptr.hyps(1) this] occupies_ptr.prems show ?case by simp
qed (simp add: occupies_zero)

lemma name_here_det: "name_here M i ls n \<Longrightarrow> name_here M i ls' n' \<Longrightarrow> ls = ls' \<and> n = n'"
  using decodes_det [of M i ls] occupies_det [of M i n n'] by (auto simp: name_here_def)

text \<open>The questions \<open>qs\<close> stand in \<open>M\<close> from \<open>i\<close> up to \<open>j\<close>.\<close>

fun has_questions :: "bytes \<Rightarrow> nat \<Rightarrow> dns_queryel list \<Rightarrow> nat \<Rightarrow> bool" where
  "has_questions M i [] j \<longleftrightarrow> i = j"
| "has_questions M i (q # qs) j \<longleftrightarrow> (\<exists>ls n. name_here M i ls n \<and> query q = wire ls \<and>
     GETINT16 M (i + n) = Some (qtype q, i + n + 2) \<and> GETINT16 M (i + n + 2) = Some (qclass q, i + n + 4) \<and>
     has_questions M (i + n + 4) qs j)"

text \<open>\<open>decompress_name\<close> at a place of which the rest of the message is left.\<close>

lemma name_here_bound: "name_here M i ls n \<Longrightarrow> i + n \<le> length M"
  using decodes_occupies [of M i ls] occupies_det [of M i n] by (auto simp: name_here_def)

lemma decompress_here:
  assumes "rlen \<le> length data" and "ptr + sz = rlen"
  defines "M \<equiv> take rlen data"
  shows "ok (decompress_name data rlen ptr sz (replicate DNSNAMEBUFSIZE 0)) (\<lambda>d.
    d_src d + d_sz d = rlen \<and>
    (d_rc d = RC_OK \<and> (\<exists>ls n. name_here M ptr ls n \<and> d_src d = ptr + n \<and>
       d_len d = Some (length (wire ls)) \<and> take (length (wire ls)) (d_tgt d) = wire ls) \<or>
     (d_rc d = RC_FORMAT \<or> d_rc d = RC_TRUNC) \<and> d_src d = ptr \<and> (\<nexists>ls n. name_here M ptr ls n)))"
proof -
  let ?b = "replicate DNSNAMEBUFSIZE (0 :: byte)"
  have "ok (decompress_name data rlen ptr sz ?b) (decompress_post M ptr sz ?b)"
    unfolding M_def using assms(1) by (intro decompress_name_ok) (simp_all add: DNSNAMEBUFSIZE_def)
  then obtain d where d: "decompress_name data rlen ptr sz ?b = Some d" and post: "decompress_post M ptr sz ?b d"
    by (rule okE)
  have within: "decodes_within M ptr sz ls h \<longleftrightarrow> decodes M ptr ls h" for ls h
    using decodes_occupies [of M ptr ls h] assms(1,2) by (fastforce simp: decodes_within_def M_def)
  have iff: "d_rc d = RC_OK \<longleftrightarrow> (\<exists>ls n. name_here M ptr ls n)"
    using post decodes_occupies [of M ptr] unfolding decompress_post_def within name_here_def by blast
  show ?thesis
  proof (cases "d_rc d = RC_OK")
    case True
    with iff obtain ls n where nh: "name_here M ptr ls n" by blast
    then obtain h where "decodes M ptr ls h" "occupies M ptr n" by (auto simp: name_here_def)
    with True post obtain n' where "occupies M ptr n'" "d_src d = ptr + n'" "d_sz d + n' = sz"
      "d_len d = Some (length (wire ls))" "take (length (wire ls)) (d_tgt d) = wire ls"
      unfolding decompress_post_def by blast
    moreover from this(1) \<open>occupies M ptr n\<close> have "n' = n" by (rule occupies_det)
    ultimately show ?thesis
      unfolding d ok_Some using True nh assms(2) by (intro conjI disjI1 exI [of _ ls] exI [of _ n]) simp_all
  next
    case False
    with decompress_name_rc [OF d] have "d_rc d = RC_FORMAT \<or> d_rc d = RC_TRUNC" by auto
    with False iff post assms(2) show ?thesis unfolding d ok_Some decompress_post_def by blast
  qed
qed

lemma GETINT16_in: "i + 2 \<le> n \<Longrightarrow> n \<le> length m \<Longrightarrow> GETINT16 (take n m) i = GETINT16 m i"
  by (simp add: GETINT16_def)

lemma has_questions_append:
  "has_questions M i (xs @ ys) j \<longleftrightarrow> (\<exists>k. has_questions M i xs k \<and> has_questions M k ys j)"
  by (induction xs arbitrary: i) auto

lemma has_questions_det:
  "has_questions M i qs j \<Longrightarrow> has_questions M i qs' j' \<Longrightarrow> length qs = length qs' \<Longrightarrow> qs = qs' \<and> j = j'"
proof (induction qs arbitrary: i qs')
  case (Cons q qs)
  then obtain q' qs'' where qs': "qs' = q' # qs''" by (cases qs') auto
  from Cons.prems(1) obtain ls n where 1: "name_here M i ls n" "query q = wire ls"
    "GETINT16 M (i + n) = Some (qtype q, i + n + 2)" "GETINT16 M (i + n + 2) = Some (qclass q, i + n + 4)"
    "has_questions M (i + n + 4) qs j" by auto
  from Cons.prems(2) obtain ls' n' where 2: "name_here M i ls' n'" "query q' = wire ls'"
    "GETINT16 M (i + n') = Some (qtype q', i + n' + 2)" "GETINT16 M (i + n' + 2) = Some (qclass q', i + n' + 4)"
    "has_questions M (i + n' + 4) qs'' j'" unfolding qs' by auto
  have "ls = ls'" "n = n'" using name_here_det [OF 1(1) 2(1)] by auto
  with 1 2 Cons.IH [OF 1(5), of qs''] Cons.prems(3) show ?case by (simp add: qs')
qed (auto simp: length_0_conv [symmetric] simp del: length_0_conv)

section \<open>Correctness of the decoder\<close>

definition no_question :: "bytes \<Rightarrow> nat \<Rightarrow> bool" where
  "no_question M i \<longleftrightarrow> (\<nexists>q k. has_questions M i [q] k)"

text \<open>What the loop returns when the questions \<open>qp\<close> have been read already.\<close>

definition questions_post ::
  "bytes \<Rightarrow> nat \<Rightarrow> nat \<Rightarrow> dns_queryel list \<Rightarrow> allocs \<Rightarrow> nat \<times> nat \<times> nat \<times> dns_queryel list \<times> allocs \<Rightarrow> bool" where
  "questions_post M ptr n qp al = (\<lambda>(res, ptr', sz', ql, al'). ptr' + sz' = length M \<and> (al = [] \<longrightarrow> al' = []) \<and>
     ((\<exists>qs. res = RC_OK \<and> ql = qp @ qs \<and> length qs = n \<and> has_questions M ptr qs ptr') \<or>
      (\<exists>qs j. res = RC_TRUNC \<and> ql = qp @ qs \<and> length qs < n \<and> has_questions M ptr qs j \<and>
         no_question M j) \<or>
      (\<exists>qs j. res = RC_FORMAT \<and> ql = [] \<and> length qs < n \<and> has_questions M ptr qs j \<and>
         no_question M j) \<or>
      res = RC_SERVFAIL \<and> ql = [] \<and> al \<noteq> []))"

lemma questions_post_step:
  assumes "has_questions M ptr [q] k" and "al = [] \<longrightarrow> al1 = []"
    and "questions_post M k n (qp @ [q]) al1 r"
  shows "questions_post M ptr (Suc n) qp al r"
proof -
  have step: "has_questions M ptr (q # qs) j" if "has_questions M k qs j" for qs j
    using assms(1) that has_questions_append [of M ptr "[q]" qs j] by auto
  obtain res ptr' sz' ql al' where r: "r = (res, ptr', sz', ql, al')" by (cases r)
  from assms(2,3) have common: "ptr' + sz' = length M" "al = [] \<longrightarrow> al' = []" by (auto simp: questions_post_def r)
  from assms(3) consider
      (ok) qs where "res = RC_OK" "ql = qp @ q # qs" "length qs = n" "has_questions M k qs ptr'"
    | (trunc) qs j where "res = RC_TRUNC" "ql = qp @ q # qs" "length qs < n" "has_questions M k qs j"
        "no_question M j"
    | (format) qs j where "res = RC_FORMAT" "ql = []" "length qs < n" "has_questions M k qs j"
        "no_question M j"
    | (mem) "res = RC_SERVFAIL" "ql = []" "al1 \<noteq> []"
    unfolding questions_post_def r by auto
  then show ?thesis
  proof cases
    case ok
    with common step show ?thesis
      unfolding questions_post_def r prod.case by (intro conjI disjI1 exI [of _ "q # qs"]) auto
  next
    case trunc
    with common step show ?thesis
      unfolding questions_post_def r prod.case
      by (intro conjI, blast, blast) (rule disjI2, rule disjI1, intro exI [of _ "q # qs"] exI [of _ j], auto)
  next
    case format
    with common step show ?thesis
      unfolding questions_post_def r prod.case
      by (intro conjI, blast, blast) (rule disjI2, rule disjI2, rule disjI1, intro exI [of _ "q # qs"] exI [of _ j], auto)
  next
    case mem
    with common assms(2) show ?thesis unfolding questions_post_def r by auto
  qed
qed

lemma has_question_iff:
  "has_questions M i [q] k \<longleftrightarrow> (\<exists>ls n. name_here M i ls n \<and> query q = wire ls \<and>
     GETINT16 M (i + n) = Some (qtype q, i + n + 2) \<and> GETINT16 M (i + n + 2) = Some (qclass q, i + n + 4) \<and> k = i + n + 4)"
  by auto

lemma decode_questions_ok:
  assumes "rlen \<le> length data" and "ptr + sz = rlen"
  shows "ok (decode_questions n data rlen ptr sz qp al) (questions_post (take rlen data) ptr n qp al)"
  using assms
proof (induction n arbitrary: ptr sz qp al)
  case 0
  then show ?case by (simp add: questions_post_def)
next
  case (Suc n)
  let ?M = "take rlen data"
  have M: "length ?M = rlen" using Suc.prems by simp
  obtain d where d: "decompress_name data rlen ptr sz (replicate DNSNAMEBUFSIZE 0) = Some d"
    and sum: "d_src d + d_sz d = rlen"
    and cases: "d_rc d = RC_OK \<and> (\<exists>ls n. name_here ?M ptr ls n \<and> d_src d = ptr + n \<and>
         d_len d = Some (length (wire ls)) \<and> take (length (wire ls)) (d_tgt d) = wire ls) \<or>
       (d_rc d = RC_FORMAT \<or> d_rc d = RC_TRUNC) \<and> d_src d = ptr \<and> (\<nexists>ls n. name_here ?M ptr ls n)"
    using decompress_here [OF Suc.prems] by (rule okE) (elim conjE, rule that)
  have stop: "questions_post ?M ptr (Suc n) qp al (rc, d_src d, d_sz d, ql, al')"
    if "rc = RC_TRUNC \<and> ql = qp \<or> rc = RC_FORMAT \<and> ql = []" "no_question ?M ptr" "al = [] \<longrightarrow> al' = []"
    for rc ql al'
    unfolding questions_post_def prod.case using that sum M
    by (intro conjI) (simp, blast, elim disjE conjE, auto intro!: exI [of _ "[]"])
  from cases show ?case
  proof (elim disjE conjE exE)
    assume "d_src d = ptr" "\<nexists>ls n. name_here ?M ptr ls n" "d_rc d = RC_FORMAT"
    with stop [of RC_FORMAT "[]" al] d show ?thesis by (auto simp: code_defs no_question_def)
  next
    assume "d_src d = ptr" "\<nexists>ls n. name_here ?M ptr ls n" "d_rc d = RC_TRUNC"
    with stop [of RC_TRUNC qp al] d show ?thesis by (auto simp: no_question_def)
  next
    fix ls m
    assume rc: "d_rc d = RC_OK" and nh: "name_here ?M ptr ls m" and src: "d_src d = ptr + m"
      and len: "d_len d = Some (length (wire ls))" "take (length (wire ls)) (d_tgt d) = wire ls"
    show ?thesis
    proof (cases "d_sz d < 4")
      case True
      have "\<not> has_questions ?M ptr [q] k" for q k
      proof
        assume "has_questions ?M ptr [q] k"
        then obtain ls' m' where "name_here ?M ptr ls' m'" "GETINT16 ?M (ptr + m' + 2) = Some (qclass q, ptr + m' + 4)"
          by auto
        moreover from this(1) nh have "m' = m" using name_here_det by blast
        ultimately have "ptr + m + 4 \<le> length ?M" by (auto simp: GETINT16_def bind_eq_Some_conv rd_eq_Some_iff)
        with M src sum True show False by simp
      qed
      then have "no_question ?M ptr" by (simp only: no_question_def) blast
      with stop [of RC_TRUNC qp al] d rc True show ?thesis by (simp add: code_defs)
    next
      case False
      then have room: "ptr + m + 4 \<le> rlen" using src sum by simp
      obtain t where t: "GETINT16 data (ptr + m) = Some (t, ptr + m + 2)" "GETINT16 ?M (ptr + m) = Some (t, ptr + m + 2)"
        using GETINT16_Some [of "ptr + m" data] GETINT16_in [of "ptr + m" rlen data] room Suc.prems(1) by auto
      obtain c where c: "GETINT16 data (ptr + m + 2) = Some (c, ptr + m + 4)" "GETINT16 ?M (ptr + m + 2) = Some (c, ptr + m + 4)"
        using GETINT16_Some [of "ptr + m + 2" data] GETINT16_in [of "ptr + m + 2" rlen data] room Suc.prems(1) by auto
      let ?q = "\<lparr>qtype = t, qclass = c, query = wire ls\<rparr>"
      have q: "has_questions ?M ptr [?q] (ptr + m + 4)" using nh t(2) c(2) by (auto intro!: exI [of _ ls] exI [of _ m])
      obtain mem al1 where al: "malloc al = (mem, al1)" by (cases "malloc al")
      have al1: "al = [] \<longrightarrow> mem \<and> al1 = []" using al by auto
      have rest: "ok (decode_questions n data rlen (ptr + m + 4) (d_sz d - 4) (qp @ [?q]) al1) (questions_post ?M ptr (Suc n) qp al)"
      proof (rule ok_mono)
        show "ok (decode_questions n data rlen (ptr + m + 4) (d_sz d - 4) (qp @ [?q]) al1)
            (questions_post ?M (ptr + m + 4) n (qp @ [?q]) al1)"
          using Suc.prems(1) src sum False by (intro Suc.IH) auto
      qed (erule questions_post_step [OF q, rotated], use al1 in blast)
      show ?thesis
      proof (cases mem)
        case True
        with rest d rc False src len t(1) c(1) al show ?thesis by (simp add: code_defs)
      next
        case nomem: False
        with d rc False src sum al al1 M show ?thesis by (auto simp: code_defs questions_post_def)
      qed
    qed
  qed
qed

lemma decode_query_ok:
  assumes "rlen \<le> length data" and "12 \<le> rlen" and "get_hdr data = Some hdr"
  shows "ok (decode_query data rlen al) (questions_post (take rlen data) 12 (unat (h_qdcount hdr)) [] al)"
  using decode_questions_ok [of rlen data 12 "rlen - 12" "unat (h_qdcount hdr)" "[]" al] assms
  by (simp add: decode_query_def sizeof_dns_hdr_def)

text \<open>The additional section: the records, of which only type, class and ttl matter.\<close>

fun has_additional :: "bytes \<Rightarrow> nat \<Rightarrow> (16 word \<times> 16 word \<times> nat) list \<Rightarrow> nat \<Rightarrow> bool" where
  "has_additional M i [] j \<longleftrightarrow> i = j"
| "has_additional M i ((t, c, p) # rs) j \<longleftrightarrow> (\<exists>ls n l. name_here M i ls n \<and>
     GETINT16 M (i + n) = Some (t, i + n + 2) \<and> GETINT16 M (i + n + 2) = Some (c, i + n + 4) \<and> p = i + n + 4 \<and>
     GETINT16 M (i + n + 8) = Some (l, i + n + 10) \<and> i + n + 10 + unat l \<le> length M \<and>
     has_additional M (i + n + 10 + unat l) rs j)"

text \<open>The OPT records among them, and what is reported of the first one.\<close>

definition opts :: "(16 word \<times> 16 word \<times> nat) list \<Rightarrow> (16 word \<times> 16 word \<times> nat) list" where
  "opts rs = filter (\<lambda>(t, c, p). unat t = T_OPT) rs"

definition additional_post ::
  "bytes \<Rightarrow> bytes \<Rightarrow> nat \<Rightarrow> nat \<Rightarrow> nat \<Rightarrow> edns_info \<Rightarrow> nat \<times> nat \<times> edns_info \<Rightarrow> bool" where
  "additional_post data M ptr n numopt ep = (\<lambda>(res, numopt', ep'). \<exists>rs j. has_additional M ptr rs j \<and>
     numopt' = numopt + length (opts rs) \<and> length rs \<le> n \<and>
     (if numopt = 0 \<and> opts rs \<noteq> [] then (case hd (opts rs) of (t, c, p) \<Rightarrow> opt_info data c p = Some ep') else ep' = ep) \<and>
     (res = RC_OK \<and> length rs = n \<or>
      (res = RC_FORMAT \<or> res = RC_TRUNC) \<and> length rs < n \<and> (\<nexists>r k. has_additional M j [r] k)))"

lemma additional_post_step:
  assumes "has_additional M ptr [(t, c, p)] k"
    and "if unat t = T_OPT then numopt1 = numopt + 1 \<and> (if numopt = 0 then opt_info data c p = Some ep1 else ep1 = ep)
      else numopt1 = numopt \<and> ep1 = ep"
    and "additional_post data M k n numopt1 ep1 r"
  shows "additional_post data M ptr (Suc n) numopt ep r"
proof -
  obtain res numopt' ep' where r: "r = (res, numopt', ep')" by (cases r)
  from assms(3) obtain rs j where rs: "has_additional M k rs j" "numopt' = numopt1 + length (opts rs)" "length rs \<le> n"
    "if numopt1 = 0 \<and> opts rs \<noteq> [] then (case hd (opts rs) of (t, c, p) \<Rightarrow> opt_info data c p = Some ep') else ep' = ep1"
    "res = RC_OK \<and> length rs = n \<or> (res = RC_FORMAT \<or> res = RC_TRUNC) \<and> length rs < n \<and> (\<nexists>r k. has_additional M j [r] k)"
    unfolding additional_post_def r prod.case by blast
  have "has_additional M ptr ((t, c, p) # rs) j" using assms(1) rs(1) by auto
  moreover have "numopt' = numopt + length (opts ((t, c, p) # rs))"
    using assms(2) rs(2) by (auto simp: opts_def split: if_splits)
  moreover have "if numopt = 0 \<and> opts ((t, c, p) # rs) \<noteq> []
      then (case hd (opts ((t, c, p) # rs)) of (t, c, p) \<Rightarrow> opt_info data c p = Some ep') else ep' = ep"
    using assms(2) rs(4) by (auto simp: opts_def split: if_splits)
  ultimately show ?thesis
    unfolding additional_post_def r prod.case using rs(3,5) by (intro exI [of _ "(t, c, p) # rs"] exI [of _ j]) auto
qed

lemma GETINT16_both:
  assumes "i + 2 \<le> rlen" and "rlen \<le> length data"
  obtains v where "GETINT16 data i = Some (v, i + 2)" "GETINT16 (take rlen data) i = Some (v, i + 2)"
  using assms GETINT16_Some [of i data] GETINT16_in [of i rlen data] by auto

lemma no_additional:
  assumes "name_here M ptr ls m" and "length M < ptr + m + 10"
  shows "\<not> has_additional M ptr [r] k"
proof
  assume "has_additional M ptr [r] k"
  then obtain ls' m' l where "name_here M ptr ls' m'" "GETINT16 M (ptr + m' + 8) = Some (l, ptr + m' + 10)"
    by (cases r) auto
  moreover from this(1) assms(1) have "m' = m" using name_here_det by blast
  ultimately show False using assms(2) by (auto simp: GETINT16_def bind_eq_Some_conv rd_eq_Some_iff)
qed

lemma opt_info_Some: "12 \<le> length data \<Longrightarrow> p + 3 \<le> length data \<Longrightarrow> \<exists>e. opt_info data c p = Some e"
  using get_hdr_Some [of data] by (auto simp: opt_info_def)

lemma decode_query_additional_ok:
  assumes "rlen \<le> length data" and "12 \<le> rlen" and "ptr + sz = rlen"
  shows "ok (decode_query_additional data rlen ptr sz n numopt ep)
    (additional_post data (take rlen data) ptr n numopt ep)"
  using assms(3)
proof (induction n arbitrary: ptr sz numopt ep)
  case 0
  have "additional_post data (take rlen data) ptr 0 numopt ep (RC_OK, numopt, ep)"
    unfolding additional_post_def prod.case by (intro exI [of _ "[]"] exI [of _ ptr]) (simp add: opts_def)
  then show ?case by simp
next
  case (Suc n)
  let ?M = "take rlen data"
  have M: "length ?M = rlen" using assms(1) by simp
  obtain d where d: "decompress_name data rlen ptr sz (replicate DNSNAMEBUFSIZE 0) = Some d"
    and sum: "d_src d + d_sz d = rlen"
    and cases: "d_rc d = RC_OK \<and> (\<exists>ls n. name_here ?M ptr ls n \<and> d_src d = ptr + n \<and>
         d_len d = Some (length (wire ls)) \<and> take (length (wire ls)) (d_tgt d) = wire ls) \<or>
       (d_rc d = RC_FORMAT \<or> d_rc d = RC_TRUNC) \<and> d_src d = ptr \<and> (\<nexists>ls n. name_here ?M ptr ls n)"
    using decompress_here [OF assms(1) Suc.prems] by (rule okE) (elim conjE, rule that)
  have stop: "additional_post data ?M ptr (Suc n) numopt ep (rc, numopt, ep)"
    if "rc = RC_FORMAT \<or> rc = RC_TRUNC" "\<And>r k. \<not> has_additional ?M ptr [r] k" for rc
    unfolding additional_post_def prod.case using that
    by (intro exI [of _ "[]"] exI [of _ ptr]) (simp add: opts_def del: has_additional.simps(2))
  from cases show ?case
  proof (elim disjE conjE exE)
    assume "\<nexists>ls n. name_here ?M ptr ls n" and rc: "d_rc d = RC_FORMAT"
    then have "\<not> has_additional ?M ptr [r] k" for r k by (cases r) auto
    from stop [OF _ this, of "d_rc d"] d rc show ?thesis by (simp add: Let_def)
  next
    assume "\<nexists>ls n. name_here ?M ptr ls n" and rc: "d_rc d = RC_TRUNC"
    then have "\<not> has_additional ?M ptr [r] k" for r k by (cases r) auto
    from stop [OF _ this, of "d_rc d"] d rc show ?thesis by (simp add: Let_def)
  next
    fix ls m
    assume rc: "d_rc d = RC_OK" and nh: "name_here ?M ptr ls m" and src: "d_src d = ptr + m"
    note no = no_additional [OF nh]
    show ?thesis
    proof (cases "d_sz d < 10")
      case True
      then have "\<not> has_additional ?M ptr [r] k" for r k using src sum M by (intro no) simp
      from stop [OF _ this, of RC_TRUNC] d rc True show ?thesis by (simp add: Let_def sizeof_rr_hdr_def)
    next
      case False
      then have room: "ptr + m + 10 \<le> rlen" using src sum by simp
      from room assms(1) obtain t where t: "GETINT16 data (ptr + m) = Some (t, ptr + m + 2)"
          "GETINT16 ?M (ptr + m) = Some (t, ptr + m + 2)"
        by (auto intro: GETINT16_both [of "ptr + m" rlen data])
      from room assms(1) obtain c where c: "GETINT16 data (ptr + m + 2) = Some (c, ptr + m + 4)"
          "GETINT16 ?M (ptr + m + 2) = Some (c, ptr + m + 4)"
        by (auto intro: GETINT16_both [of "ptr + m + 2" rlen data])
      from room assms(1) obtain l where l: "GETINT16 data (ptr + m + 8) = Some (l, ptr + m + 10)"
          "GETINT16 ?M (ptr + m + 8) = Some (l, ptr + m + 10)"
        by (auto intro: GETINT16_both [of "ptr + m + 8" rlen data])
      have l': "GETINT16 data (8 + (ptr + m)) = Some (l, ptr + m + 10)" using l(1) by (simp only: add.commute)
      note eqs = d rc src t(1) c(1) [simplified] l(1) l' sizeof_rr_hdr_def
      show ?thesis
      proof (cases "d_sz d - 10 < unat l")
        case True
        have "\<not> has_additional ?M ptr [r] k" for r k
        proof
          assume "has_additional ?M ptr [r] k"
          then obtain ls' m' l2 where "name_here ?M ptr ls' m'" "GETINT16 ?M (ptr + m' + 8) = Some (l2, ptr + m' + 10)"
            "ptr + m' + 10 + unat l2 \<le> length ?M" by (cases r) auto
          moreover from this(1) nh have "m' = m" using name_here_det by blast
          ultimately show False using l(2) True False room src sum M by simp arith
        qed
        from stop [OF _ this, of RC_TRUNC] False True show ?thesis by (simp add: Let_def eqs)
      next
        case fits: False
        have step: "has_additional ?M ptr [(t, c, ptr + m + 4)] (ptr + m + 10 + unat l)"
          using nh t(2) c(2) l(2) fits False src sum M by (auto intro!: exI [of _ ls] exI [of _ m] exI [of _ l])
        obtain e where e: "opt_info data c (ptr + m + 4) = Some e"
          using opt_info_Some [of data "ptr + m + 4" c] assms(1,2) room by auto
        have rest: "ok (decode_query_additional data rlen (ptr + m + 10 + unat l) (d_sz d - 10 - unat l) n numopt1 ep1)
            (additional_post data ?M ptr (Suc n) numopt ep)"
          if "if unat t = T_OPT then numopt1 = numopt + 1 \<and> (if numopt = 0 then opt_info data c (ptr + m + 4) = Some ep1 else ep1 = ep)
            else numopt1 = numopt \<and> ep1 = ep" for numopt1 ep1
        proof (rule ok_mono)
          show "ok (decode_query_additional data rlen (ptr + m + 10 + unat l) (d_sz d - 10 - unat l) n numopt1 ep1)
              (additional_post data ?M (ptr + m + 10 + unat l) n numopt1 ep1)"
            using fits False src sum by (intro Suc.IH) simp
        qed (erule additional_post_step [OF step that])
        have first: "numopt = 0 \<Longrightarrow> unat t = T_OPT \<Longrightarrow> ok (decode_query_additional data rlen (ptr + m + 10 + unat l)
            (d_sz d - 10 - unat l) n (Suc 0) e) (additional_post data ?M ptr (Suc n) 0 ep)"
          using rest [of 1 e] e by simp
        show ?thesis using rest [of "numopt + 1" ep] rest [of numopt ep] first False fits e by (auto simp: Let_def eqs)
      qed
    qed
  qed
qed

lemma question_follows:
  assumes "has_questions M i qs j" and "has_questions M i qs' j'" and "length qs' < length qs"
  shows "\<not> no_question M j'"
proof -
  let ?k = "length qs'"
  have split: "qs = take ?k qs @ [qs ! ?k] @ drop (Suc ?k) qs"
    using assms(3) by (simp add: Cons_nth_drop_Suc)
  have "has_questions M i (take ?k qs @ [qs ! ?k] @ drop (Suc ?k) qs) j" using assms(1) split by simp
  then obtain k1 k2 where k: "has_questions M i (take ?k qs) k1" "has_questions M k1 [qs ! ?k] k2"
    unfolding has_questions_append by blast
  from has_questions_det [OF k(1) assms(2)] assms(3) have "k1 = j'" by simp
  with k(2) show ?thesis unfolding no_question_def by blast
qed

lemma questions_post_unique:
  assumes post: "questions_post M i n [] [] r" and qs: "has_questions M i qs j" "length qs = n"
  shows "r = (RC_OK, j, length M - j, qs, [])"
proof -
  obtain res ptr sz ql al' where r: "r = (res, ptr, sz, ql, al')" by (cases r)
  have no: False if "has_questions M i qs' j'" "length qs' < n" "no_question M j'" for qs' j'
    using question_follows [OF qs(1) that(1)] that(2,3) qs(2) by simp
  from post have al': "al' = []" "ptr + sz = length M" unfolding questions_post_def r prod.case by blast+
  from post have "(\<exists>qs. res = RC_OK \<and> ql = [] @ qs \<and> length qs = n \<and> has_questions M i qs ptr) \<or>
    (\<exists>qs j. length qs < n \<and> has_questions M i qs j \<and> no_question M j)"
    unfolding questions_post_def r prod.case by blast
  then have res: "res = RC_OK" "length ql = n" "has_questions M i ql ptr" using no by auto
  from has_questions_det [OF res(3) qs(1)] res qs(2) al' show ?thesis by (simp add: r)
qed

section \<open>Properties\<close>

text \<open>
  C38. \<open>decode_query\<close> is safe and exact on every message that has a header, however malformed
  the rest is and whichever allocations fail: it stays within the message and stops; it answers
  \<open>RC_OK\<close> only with all the questions that the header announces, each of them as it stands in the
  message, and then \<^verbatim>\<open>*ptrrem\<close> and \<^verbatim>\<open>*lenrem\<close> denote the rest after them; it answers
  \<open>RC_TRUNC\<close> with the questions before the first that is not there in full, or \<open>RC_FORMAT\<close> and no
  questions; and \<open>RC_SERVFAIL\<close>, with no questions, only if an allocation fails. In particular,
  if the questions are all there and memory suffices, they are returned.
\<close>

theorem decode_query_correct:
  assumes "rlen \<le> length data" and "sizeof_dns_hdr \<le> rlen"
  shows "\<exists>hdr. get_hdr data = Some hdr \<and>
    ok (decode_query data rlen al) (\<lambda>r. questions_post (take rlen data) 12 (unat (h_qdcount hdr)) [] al r \<and>
      (\<forall>qs j. al = [] \<longrightarrow> has_questions (take rlen data) 12 qs j \<longrightarrow> length qs = unat (h_qdcount hdr) \<longrightarrow>
         r = (RC_OK, j, rlen - j, qs, [])))"
proof -
  let ?M = "take rlen data"
  from assms obtain hdr where hdr: "get_hdr data = Some hdr"
    using get_hdr_Some [of data] by (auto simp: sizeof_dns_hdr_def)
  let ?n = "unat (h_qdcount hdr)"
  have "ok (decode_query data rlen al) (questions_post ?M 12 ?n [] al)"
    using decode_query_ok [OF assms(1) _ hdr, of al] assms(2) by (simp add: sizeof_dns_hdr_def)
  then have "ok (decode_query data rlen al) (\<lambda>r. questions_post ?M 12 ?n [] al r \<and>
      (\<forall>qs j. al = [] \<longrightarrow> has_questions ?M 12 qs j \<longrightarrow> length qs = ?n \<longrightarrow> r = (RC_OK, j, rlen - j, qs, [])))"
    by (rule ok_mono) (use questions_post_unique [of ?M 12 ?n] assms(1) in fastforce)
  with hdr show ?thesis by blast
qed

text \<open>A query for the addresses of \<^verbatim>\<open>a\<close>.\<close>

definition sample_query :: bytes where
  "sample_query = [0, 7, 1, 0, 0, 1, 0, 0, 0, 0, 0, 0, 1, 97, 0, 0, 1, 0, 1]"

lemma sample_query_questions:
  "has_questions sample_query 12 [\<lparr>qtype = 1, qclass = 1, query = wire [[97]]\<rparr>] 19"
proof -
  have "decodes sample_query 12 [[97]] 0"
    by (rule decodes_wire [of _ _ _ "[0, 1, 0, 1]"]) (simp_all add: sample_query_def wf_label_def)
  moreover have "occupies sample_query 12 3"
    using occupies_label [of sample_query 12 1 1] occupies_end [of sample_query 14]
    by (simp add: sample_query_def rd_def numeral_3_eq_3)
  ultimately have "name_here sample_query 12 [[97]] 3"
    by (auto simp: name_here_def wf_name_def wf_label_def DNSNAMEBUFSIZE_def intro!: exI [of _ 0])
  then show ?thesis
    by (auto simp: GETINT16_def sample_query_def rd_def intro!: exI [of _ "[[97]]"] exI [of _ 3])
qed

theorem decode_query_correct_witness:
  "decode_query sample_query 19 [] = Some (RC_OK, 19, 0, [\<lparr>qtype = 1, qclass = 1, query = wire [[97]]\<rparr>], [])"
proof -
  have "get_hdr sample_query = Some hdr \<Longrightarrow> unat (h_qdcount hdr) = 1" for hdr
    by (auto simp: get_hdr_def sample_query_def GETINT16_def rd_def)
  moreover have "take 19 sample_query = sample_query" by (simp add: sample_query_def)
  moreover have "19 \<le> length sample_query" "sizeof_dns_hdr \<le> 19" by (simp_all add: sample_query_def sizeof_dns_hdr_def)
  from decode_query_correct [OF this, of "[]"] obtain hdr r where "get_hdr sample_query = Some hdr"
    and "decode_query sample_query 19 [] = Some r" and "\<forall>qs j. has_questions (take 19 sample_query) 12 qs j \<longrightarrow>
      length qs = unat (h_qdcount hdr) \<longrightarrow> r = (RC_OK, j, 19 - j, qs, [])"
    unfolding ok_def by blast
  ultimately show ?thesis using sample_query_questions by fastforce
qed

end
