(* ===== verification/AddRR.thy ===== *)
theory AddRR
  imports Query
begin

text \<open>
  Writing records into an answer: \<open>add_rr\<close>, \<open>add_opt_pseudo_rr\<close> and \<open>remove_opt_pseudo_rr\<close> of
  \<^verbatim>\<open>src/dns_answer.c\<close>.

  The C functions share the message \<^verbatim>\<open>ans\<close>, its length \<^verbatim>\<open>sz\<close>, the size \<^verbatim>\<open>allocsz\<close> of the
  buffer and the list \<^verbatim>\<open>cb\<close> of the compressor; the record \<open>answer\<close> holds them, with the outcomes
  of the allocations to come and the contents \<open>a_fill\<close> of fresh memory. The result \<open>False\<close> is the return
  value 0, with which the whole answer is given up.

  The main result is that a record added reads back: its name and the names in its data decode (up to case), all
  other bytes are those of the cache, and nothing written before changes its meaning.
\<close>

section \<open>The code\<close>

record answer =
  a_buf :: bytes
  a_sz :: nat
  a_allocsz :: nat
  a_cb :: "compel dlist option"
  a_al :: allocs
  a_fill :: byte

datatype msg_section = S_ANSWER | S_AUTHORITY | S_ADDITIONAL

definition ALLOCINITIALSIZE :: nat where "ALLOCINITIALSIZE = 256"

text \<open>\<^verbatim>\<open>(newsz+ALLOCCHUNKSIZEMASK)&(~ALLOCCHUNKSIZEMASK)\<close>\<close>

definition alloc_chunk :: "nat \<Rightarrow> nat" where
  "alloc_chunk newsz = unat ((of_nat (newsz + 0x7f) :: 64 word) AND NOT 0x7f)"

definition ensure_space :: "nat \<Rightarrow> answer \<Rightarrow> bool \<times> answer" where
  "ensure_space newsz a = (if newsz > a_allocsz a then
     (let (mem, al) = malloc (a_al a); newallocsz = alloc_chunk newsz in
      if mem then (True, a\<lparr>a_buf := a_buf a @ replicate (newallocsz - a_allocsz a) (a_fill a),
        a_allocsz := newallocsz, a_al := al\<rparr>)
      else (False, a\<lparr>a_al := al\<rparr>))
     else (True, a))"

text \<open>The name at \<open>p\<close> compressed to the end of the message, and \<open>n\<close> bytes copied there.\<close>

definition put_name :: "bytes \<Rightarrow> answer \<Rightarrow> (nat \<times> answer) option" where
  "put_name p a = do {
     let (mem, al) = malloc (a_al a);
     (rl, out, cb) \<leftarrow> compress_name p (drop (a_sz a) (a_buf a)) (a_sz a mod 2 ^ 32) (a_cb a) mem;
     Some (rl, a\<lparr>a_buf := take (a_sz a) (a_buf a) @ out, a_sz := a_sz a + rl, a_cb := cb, a_al := al\<rparr>) }"

definition put_bytes :: "bytes \<Rightarrow> nat \<Rightarrow> answer \<Rightarrow> answer option" where
  "put_bytes src n a = do {
     out \<leftarrow> memcpy (drop (a_sz a) (a_buf a)) src n;
     Some (a\<lparr>a_buf := take (a_sz a) (a_buf a) @ out, a_sz := a_sz a + n\<rparr>) }"

text \<open>The loop of the case \<^verbatim>\<open>T_NAPTR\<close>; \<open>j\<close> rounds are left.\<close>

fun naptr_skip :: "nat \<Rightarrow> nat \<Rightarrow> bytes \<Rightarrow> nat \<Rightarrow> nat option" where
  "naptr_skip 0 dlen data ilen = Some ilen"
| "naptr_skip (Suc j) dlen data ilen = do {
     b \<leftarrow> rd data ilen;
     let ilen = ilen + unat b + 1;
     pdnsd_assert (dlen > ilen);
     naptr_skip j dlen data ilen }"

text \<open>The cases of the switch, in its order; \<open>None\<close> inside is the return value 0, otherwise it is \<^verbatim>\<open>rdlen\<close>.\<close>

definition rdata_name :: "nat \<Rightarrow> bytes \<Rightarrow> answer \<Rightarrow> (nat option \<times> answer) option" where
  "rdata_name dlen data a = do {
     (rdlen, a) \<leftarrow> put_name data a;
     if rdlen = 0 then Some (None, a)
     else do {
       pdnsd_assert (rdlen \<le> dlen);
       Some (Some rdlen, a) } }"

definition rdata_names :: "nat \<Rightarrow> bytes \<Rightarrow> answer \<Rightarrow> (nat option \<times> answer) option" where
  "rdata_names dlen data a = do {
     (rdlen, a) \<leftarrow> put_name data a;
     if rdlen = 0 then Some (None, a)
     else do {
       ilen \<leftarrow> rhnlen data;
       pdnsd_assert (rdlen \<le> ilen);
       (blen, a) \<leftarrow> put_name (drop ilen data) a;
       if blen = 0 then Some (None, a)
       else do {
         pdnsd_assert (rdlen + blen \<le> dlen);
         Some (Some (rdlen + blen), a) } } }"

definition rdata_prefixed :: "nat \<Rightarrow> nat \<Rightarrow> bytes \<Rightarrow> answer \<Rightarrow> (nat option \<times> answer) option" where
  "rdata_prefixed k dlen data a = do {
     pdnsd_assert (dlen > k);
     a \<leftarrow> put_bytes data k a;
     (blen, a) \<leftarrow> put_name (drop k data) a;
     if blen = 0 then Some (None, a)
     else do {
       pdnsd_assert (k + blen \<le> dlen);
       Some (Some (k + blen), a) } }"

definition rdata_soa :: "nat \<Rightarrow> bytes \<Rightarrow> answer \<Rightarrow> (nat option \<times> answer) option" where
  "rdata_soa dlen data a = do {
     (rdlen, a) \<leftarrow> put_name data a;
     if rdlen = 0 then Some (None, a)
     else do {
       ilen \<leftarrow> rhnlen data;
       pdnsd_assert (rdlen \<le> ilen);
       (blen, a) \<leftarrow> put_name (drop ilen data) a;
       if blen = 0 then Some (None, a)
       else do {
         l \<leftarrow> rhnlen (drop ilen data);
         pdnsd_assert (rdlen + blen \<le> ilen + l);
         a \<leftarrow> put_bytes (drop (ilen + l) data) 20 a;
         pdnsd_assert (rdlen + blen + 20 \<le> dlen);
         Some (Some (rdlen + blen + 20), a) } } }"

definition rdata_px :: "nat \<Rightarrow> bytes \<Rightarrow> answer \<Rightarrow> (nat option \<times> answer) option" where
  "rdata_px dlen data a = do {
     pdnsd_assert (dlen > 2);
     a \<leftarrow> put_bytes data 2 a;
     (blen, a) \<leftarrow> put_name (drop 2 data) a;
     if blen = 0 then Some (None, a)
     else do {
       l \<leftarrow> rhnlen (drop 2 data);
       pdnsd_assert (2 + blen \<le> 2 + l);
       (blen', a) \<leftarrow> put_name (drop (2 + l) data) a;
       if blen' = 0 then Some (None, a)
       else do {
         pdnsd_assert (2 + blen + blen' \<le> dlen);
         Some (Some (2 + blen + blen'), a) } } }"

definition rdata_nxt :: "nat \<Rightarrow> bytes \<Rightarrow> answer \<Rightarrow> (nat option \<times> answer) option" where
  "rdata_nxt dlen data a = do {
     (blen, a) \<leftarrow> put_name data a;
     if blen = 0 then Some (None, a)
     else do {
       ilen \<leftarrow> rhnlen data;
       pdnsd_assert (blen \<le> ilen);
       pdnsd_assert (dlen \<ge> ilen);
       if dlen > ilen then do {
         a \<leftarrow> put_bytes (drop ilen data) (dlen - ilen) a;
         Some (Some (blen + (dlen - ilen)), a) }
       else Some (Some blen, a) } }"

definition rdata_naptr :: "nat \<Rightarrow> bytes \<Rightarrow> answer \<Rightarrow> (nat option \<times> answer) option" where
  "rdata_naptr dlen data a = do {
     pdnsd_assert (dlen > 4);
     ilen \<leftarrow> naptr_skip 3 dlen data 4;
     a \<leftarrow> put_bytes data ilen a;
     (blen, a) \<leftarrow> put_name (drop ilen data) a;
     if blen = 0 then Some (None, a)
     else do {
       pdnsd_assert (ilen + blen \<le> dlen);
       Some (Some (ilen + blen), a) } }"

definition add_rdata :: "nat \<Rightarrow> nat \<Rightarrow> bytes \<Rightarrow> answer \<Rightarrow> (nat option \<times> answer) option" where
  "add_rdata type dlen data a =
     (if type \<in> {T_CNAME, T_MB, T_MD, T_MF, T_MG, T_MR, T_NS, T_PTR} then rdata_name dlen data a
      else if type \<in> {T_MINFO, T_RP} then rdata_names dlen data a
      else if type \<in> {T_MX, T_AFSDB, T_RT, T_KX} then rdata_prefixed 2 dlen data a
      else if type = T_SOA then rdata_soa dlen data a
      else if type = T_PX then rdata_px dlen data a
      else if type = T_SRV then rdata_prefixed 6 dlen data a
      else if type = T_NXT then rdata_nxt dlen data a
      else if type = T_NAPTR then rdata_naptr dlen data a
      else do {
        a \<leftarrow> put_bytes data dlen a;
        Some (Some dlen, a) })"

text \<open>Where the header counts the records of a section, and the increment of that count.\<close>

definition count_at :: "msg_section \<Rightarrow> nat" where
  "count_at sect = (case sect of S_ANSWER \<Rightarrow> 6 | S_AUTHORITY \<Rightarrow> 8 | S_ADDITIONAL \<Rightarrow> 10)"

definition count_rr :: "msg_section \<Rightarrow> answer \<Rightarrow> answer option" where
  "count_rr sect a = do {
     (n, _) \<leftarrow> GETINT16 (a_buf a) (count_at sect);
     (buf, _) \<leftarrow> PUTINT16 (n + 1) (a_buf a) (count_at sect);
     Some (a\<lparr>a_buf := buf\<rparr>) }"

definition put_rr_hdr :: "nat \<Rightarrow> 32 word \<Rightarrow> nat \<Rightarrow> nat \<Rightarrow> answer \<Rightarrow> answer option" where
  "put_rr_hdr type ttl rdlen rrht a = do {
     (buf, p) \<leftarrow> PUTINT16 (of_nat type) (a_buf a) rrht;
     (buf, p) \<leftarrow> PUTINT16 (of_nat C_IN) buf p;
     (buf, p) \<leftarrow> PUTINT32 ttl buf p;
     (buf, p) \<leftarrow> PUTINT16 (of_nat rdlen) buf p;
     Some (a\<lparr>a_buf := buf\<rparr>) }"

definition over_udp :: "nat option \<Rightarrow> nat \<Rightarrow> bool" where
  "over_udp udp n \<longleftrightarrow> (case udp of None \<Rightarrow> False | Some u \<Rightarrow> n > u)"

text \<open>The first block of \<open>add_rr\<close>: the name of the record, and space for all of the record.\<close>

definition add_rr_name :: "bytes \<Rightarrow> nat \<Rightarrow> answer \<Rightarrow> (bool \<times> answer) option" where
  "add_rr_name rrn dlen a = do {
     let (mem, al) = malloc (a_al a);
     (nlen, nbuf, cb) \<leftarrow> compress_name rrn (replicate DNSNAMEBUFSIZE (a_fill a)) (a_sz a mod 2 ^ 32) (a_cb a) mem;
     let a = a\<lparr>a_cb := cb, a_al := al\<rparr>;
     if nlen = 0 then Some (False, a)
     else do {
       let (mem, a) = ensure_space (dnsmsghdroffset + a_sz a + nlen + sizeof_rr_hdr + dlen) a;
       if \<not> mem then Some (False, a)
       else do {
         a \<leftarrow> put_bytes nbuf nlen a;
         Some (True, a) } } }"

definition add_rr ::
  "bytes \<Rightarrow> nat \<Rightarrow> 32 word \<Rightarrow> nat \<Rightarrow> bytes \<Rightarrow> msg_section \<Rightarrow> nat option \<Rightarrow> answer \<Rightarrow> (bool \<times> answer) option" where
  "add_rr rrn type ttl dlen data sect udp a = do {
     let osz = a_sz a;
     (res, a) \<leftarrow> add_rr_name rrn dlen a;
     if \<not> res then Some (False, a)
     else do {
       let rrht = a_sz a;
       let a = a\<lparr>a_sz := a_sz a + sizeof_rr_hdr\<rparr>;
       (rdlen, a) \<leftarrow> add_rdata type dlen data a;
       (case rdlen of None \<Rightarrow> Some (False, a)
        | Some rdlen \<Rightarrow>
            if over_udp udp (a_sz a) \<and> sect = S_ADDITIONAL then Some (True, a\<lparr>a_sz := osz\<rparr>)
            else do {
              a \<leftarrow> put_rr_hdr type ttl rdlen rrht a;
              a \<leftarrow> count_rr sect a;
              Some (True, a) }) } }"

definition add_opt_pseudo_rr ::
  "16 word \<Rightarrow> 16 word \<Rightarrow> 16 word \<Rightarrow> 16 word \<Rightarrow> answer \<Rightarrow> (bool \<times> answer) option" where
  "add_opt_pseudo_rr udpsize rcode ednsver Zflags a = do {
     let (mem, a) = ensure_space (dnsmsghdroffset + a_sz a + sizeof_opt_pseudo_rr) a;
     if \<not> mem then Some (False, a)
     else do {
       let ptr = a_sz a;
       buf \<leftarrow> wr (a_buf a) ptr 0;
       (buf, ptr) \<leftarrow> PUTINT16 (of_nat T_OPT) buf (ptr + 1);
       (buf, ptr) \<leftarrow> PUTINT16 udpsize buf ptr;
       buf \<leftarrow> wr buf ptr (ucast (drop_bit 4 rcode));
       buf \<leftarrow> wr buf (ptr + 1) (ucast ednsver);
       (buf, ptr) \<leftarrow> PUTINT16 Zflags buf (ptr + 2);
       (buf, ptr) \<leftarrow> PUTINT16 0 buf ptr;
       let a = a\<lparr>a_buf := buf, a_sz := a_sz a + sizeof_opt_pseudo_rr\<rparr>;
       a \<leftarrow> count_rr S_ADDITIONAL a;
       Some (True, a) } }"

text \<open>The message is given by its buffer here; the result is the new size, or 0, and the buffer.\<close>

definition remove_opt_pseudo_rr :: "bytes \<Rightarrow> nat \<Rightarrow> (nat \<times> bytes) option" where
  "remove_opt_pseudo_rr ans sz = do {
     (acnt, _) \<leftarrow> GETINT16 ans 10;
     if \<not> (acnt > 0 \<and> sz \<ge> sizeof_dns_hdr + sizeof_opt_pseudo_rr) then Some (0, ans)
     else do {
       sz \<leftarrow> usub sz sizeof_opt_pseudo_rr;
       b \<leftarrow> rd ans sz;
       if b \<noteq> 0 then Some (0, ans)
       else do {
         (type, _) \<leftarrow> GETINT16 ans (sz + 1);
         if unat type \<noteq> T_OPT then Some (0, ans)
         else do {
           (ans, _) \<leftarrow> PUTINT16 (acnt - 1) ans 10;
           Some (sz, ans) } } } }"

section \<open>What is fixed of a message\<close>

text \<open>
  While a record is written, its fixed part is reserved but not yet filled in, and the counts of the header change with
  every record. \<open>keeps N P Q\<close>: the property \<open>Q\<close> of the message \<open>P\<close> depends only on its bytes at the
  positions \<open>N\<close>, and goes on to hold when more is appended.
\<close>

definition agree :: "nat set \<Rightarrow> bytes \<Rightarrow> bytes \<Rightarrow> bool" where
  "agree N P P' \<longleftrightarrow> length P \<le> length P' \<and> (\<forall>i < length P. i \<in> N \<longrightarrow> P' ! i = P ! i)"

definition keeps :: "nat set \<Rightarrow> bytes \<Rightarrow> (bytes \<Rightarrow> bool) \<Rightarrow> bool" where
  "keeps N P Q \<longleftrightarrow> (\<forall>P'. agree N P P' \<longrightarrow> Q P')"

lemma agree_refl [simp]: "agree N P P"
  by (simp add: agree_def)

lemma agree_append [simp]: "agree N P (P @ W)"
  by (simp add: agree_def nth_append)

lemma agree_trans: "agree N P P' \<Longrightarrow> agree N P' P'' \<Longrightarrow> agree N P P''"
  by (auto simp: agree_def)

lemma agree_mono: "agree N P P' \<Longrightarrow> N' \<subseteq> N \<Longrightarrow> agree N' P P'"
  by (auto simp: agree_def)

lemma keepsD: "keeps N P Q \<Longrightarrow> agree N P P' \<Longrightarrow> Q P'"
  by (simp add: keeps_def)

lemma keeps_self: "keeps N P Q \<Longrightarrow> Q P"
  by (simp add: keeps_def)

lemma keeps_agree: "keeps N P Q \<Longrightarrow> agree N P P' \<Longrightarrow> keeps N P' Q"
  using agree_trans by (auto simp: keeps_def)

lemma keeps_narrow: "keeps N P Q \<Longrightarrow> agree N P P' \<Longrightarrow> N \<subseteq> N' \<Longrightarrow> keeps N' P' Q"
  unfolding keeps_def by (meson agree_trans agree_mono)

lemma keeps_conj: "keeps N P (\<lambda>M. Q M \<and> R M) \<longleftrightarrow> keeps N P Q \<and> keeps N P R"
  by (auto simp: keeps_def)

lemma keeps_mp: "keeps N P Q \<Longrightarrow> (\<And>M. agree N P M \<Longrightarrow> Q M \<Longrightarrow> R M) \<Longrightarrow> keeps N P R"
  by (auto simp: keeps_def)

lemma agree_takeD: "agree N P P' \<Longrightarrow> P = A @ B \<Longrightarrow> agree N A (take (length A) P')"
  by (auto simp: agree_def nth_append)

lemma agree_dropD:
  assumes "agree N (A @ B) P'" and "{length A..} \<subseteq> N"
  shows "\<exists>R. P' = take (length A) P' @ B @ R \<and> length (take (length A) P') = length A"
proof -
  have "take (length B) (drop (length A) P') = B"
    using assms by (intro nth_equalityI) (auto simp: agree_def nth_append subset_iff)
  then have "drop (length A) P' = B @ drop (length B) (drop (length A) P')"
    by (metis append_take_drop_id)
  moreover have "P' = take (length A) P' @ drop (length A) P'" by simp
  moreover have "length (take (length A) P') = length A" using assms(1) by (simp add: agree_def)
  ultimately show ?thesis by metis
qed

section \<open>Fields of records\<close>

text \<open>The data of a record as plain bytes and names.\<close>

datatype field = Raw bytes | Nam "label list"

fun field_bytes :: "field \<Rightarrow> bytes" where
  "field_bytes (Raw b) = b"
| "field_bytes (Nam ls) = wire ls"

fun wf_field :: "field \<Rightarrow> bool" where
  "wf_field (Raw b) \<longleftrightarrow> True"
| "wf_field (Nam ls) \<longleftrightarrow> wf_name ls"

definition rdata_of :: "field list \<Rightarrow> bytes" where
  "rdata_of fs = concat (map field_bytes fs)"

text \<open>A string with its length before it, as NAPTR records have three.\<close>

definition char_string :: "bytes \<Rightarrow> bytes \<Rightarrow> bool" where
  "char_string b t \<longleftrightarrow> length t < 256 \<and> b = of_nat (length t) # t"

definition naptr_prefix :: "bytes \<Rightarrow> bool" where
  "naptr_prefix b \<longleftrightarrow> (\<exists>x s1 s2 s3 b1 b2 b3. length x = 4 \<and> char_string b1 s1 \<and> char_string b2 s2 \<and> char_string b3 s3 \<and>
     b = x @ b1 @ b2 @ b3)"

text \<open>Which fields the data of a record type consists of.\<close>

definition fits :: "nat \<Rightarrow> field list \<Rightarrow> bool" where
  "fits type fs \<longleftrightarrow> list_all wf_field fs \<and>
     (if type \<in> {T_CNAME, T_MB, T_MD, T_MF, T_MG, T_MR, T_NS, T_PTR} then (\<exists>x. fs = [Nam x])
      else if type \<in> {T_MINFO, T_RP} then (\<exists>x y. fs = [Nam x, Nam y])
      else if type \<in> {T_MX, T_AFSDB, T_RT, T_KX} then (\<exists>p x. fs = [Raw p, Nam x] \<and> length p = 2)
      else if type = T_SOA then (\<exists>x y z. fs = [Nam x, Nam y, Raw z] \<and> length z = 20)
      else if type = T_PX then (\<exists>p x y. fs = [Raw p, Nam x, Nam y] \<and> length p = 2)
      else if type = T_SRV then (\<exists>p x. fs = [Raw p, Nam x] \<and> length p = 6)
      else if type = T_NXT then (\<exists>x z. fs = [Nam x, Raw z])
      else if type = T_NAPTR then (\<exists>p x. fs = [Raw p, Nam x] \<and> naptr_prefix p)
      else (\<exists>p. fs = [Raw p]))"

text \<open>The message has the name \<open>ls\<close> (up to case) at \<open>i\<close>, in \<open>n\<close> bytes; and it has the fields \<open>fs\<close> from \<open>i\<close> to \<open>j\<close>.\<close>

definition has_name :: "bytes \<Rightarrow> nat \<Rightarrow> label list \<Rightarrow> nat \<Rightarrow> bool" where
  "has_name M i ls n \<longleftrightarrow> holds_name M i ls \<and> occupies M i n"

fun has_fields :: "bytes \<Rightarrow> nat \<Rightarrow> field list \<Rightarrow> nat \<Rightarrow> bool" where
  "has_fields M i [] j \<longleftrightarrow> i = j"
| "has_fields M i (Raw b # fs) j \<longleftrightarrow> take (length b) (drop i M) = b \<and> has_fields M (i + length b) fs j"
| "has_fields M i (Nam ls # fs) j \<longleftrightarrow> (\<exists>n. has_name M i ls n \<and> has_fields M (i + n) fs j)"

lemma has_fields_append:
  "has_fields M i (fs @ gs) j \<longleftrightarrow> (\<exists>k. has_fields M i fs k \<and> has_fields M k gs j)"
proof (induction fs arbitrary: i)
  case (Cons f fs)
  then show ?case by (cases f) auto
qed simp

section \<open>Appending to the message\<close>

abbreviation (input) msg :: "answer \<Rightarrow> bytes" where "msg a \<equiv> take (a_sz a) (a_buf a)"

text \<open>What an operation that appends keeps; it adds at most \<open>k\<close> bytes to the list of names.\<close>

definition grown :: "nat \<Rightarrow> answer \<Rightarrow> answer \<Rightarrow> bool" where
  "grown k a a' \<longleftrightarrow> length (a_buf a') = length (a_buf a) \<and> a_allocsz a' = a_allocsz a \<and> a_fill a' = a_fill a \<and>
     a_sz a \<le> a_sz a' \<and> a_sz a' \<le> length (a_buf a') \<and> msg a = take (a_sz a) (a_buf a') \<and>
     dl_used (a_cb a') \<le> dl_used (a_cb a) + k \<and> set (dl_elems (a_cb a)) \<subseteq> set (dl_elems (a_cb a')) \<and>
     (a_al a = [] \<longrightarrow> a_al a' = [])"

lemma grown_refl: "a_sz a \<le> length (a_buf a) \<Longrightarrow> grown 0 a a"
  by (simp add: grown_def)

lemma grown_trans: "grown k a a' \<Longrightarrow> grown m a' a'' \<Longrightarrow> grown (k + m) a a''"
proof -
  assume 1: "grown k a a'" and 2: "grown m a' a''"
  then have "take (a_sz a) (take (a_sz a') (a_buf a')) = take (a_sz a) (take (a_sz a') (a_buf a''))"
    and "min (a_sz a) (a_sz a') = a_sz a"
    by (simp_all add: grown_def)
  with 1 have "msg a = take (a_sz a) (a_buf a'')" unfolding take_take by (simp add: grown_def)
  with 1 2 show ?thesis by (auto simp: grown_def)
qed

text \<open>
  Since \<open>i\<close> the fields \<open>fs\<close> have been written; \<open>build\<close> alone is the state of the compressor.
\<close>

definition build :: "nat set \<Rightarrow> answer \<Rightarrow> bool" where
  "build N a \<longleftrightarrow> a_sz a \<le> length (a_buf a) \<and> {a_sz a..} \<subseteq> N \<and> keeps N (msg a) (\<lambda>M. msg_ok M (a_cb a))"

definition wrote :: "nat set \<Rightarrow> nat \<Rightarrow> field list \<Rightarrow> answer \<Rightarrow> bool" where
  "wrote N i fs a \<longleftrightarrow> build N a \<and> keeps N (msg a) (\<lambda>M. has_fields M i fs (a_sz a))"

lemma wrote_Nil: "build N a \<Longrightarrow> wrote N (a_sz a) [] a"
  by (simp add: wrote_def keeps_def)

lemma put_bytes_ok:
  assumes w: "wrote N i fs a" and src: "n \<le> length src" and room: "a_sz a + n \<le> length (a_buf a)"
  shows "ok (put_bytes src n a) (\<lambda>a'. a_sz a' = a_sz a + n \<and> grown 0 a a' \<and> wrote N i (fs @ [Raw (take n src)]) a' \<and>
    a_cb a' = a_cb a)"
proof -
  let ?W = "take n src" and ?P = "msg a"
  let ?a = "a\<lparr>a_buf := ?P @ ?W @ drop n (drop (a_sz a) (a_buf a)), a_sz := a_sz a + n\<rparr>"
  have sz: "a_sz a \<le> length (a_buf a)" "length ?P = a_sz a" "length ?W = n" using room src by auto
  have run: "put_bytes src n a = Some ?a" using room src by (simp add: put_bytes_def memcpy_def)
  have m: "msg ?a = ?P @ ?W" using sz by simp
  from w have N: "{a_sz a..} \<subseteq> N" by (simp add: wrote_def build_def)
  have "keeps N (?P @ ?W) (\<lambda>M. msg_ok M (a_cb a) \<and> has_fields M i (fs @ [Raw ?W]) (a_sz a + n))"
    unfolding keeps_def
  proof (intro allI impI)
    fix M assume M: "agree N (?P @ ?W) M"
    then have a: "agree N ?P M" using agree_trans agree_append by blast
    from agree_dropD [OF M] N sz obtain R where R: "M = take (a_sz a) M @ ?W @ R" "length (take (a_sz a) M) = a_sz a" by auto
    have "drop (a_sz a) M = ?W @ R" using R by (metis append_eq_conv_conj)
    then have "take n (drop (a_sz a) M) = ?W" using sz(3) by simp
    with a w sz show "msg_ok M (a_cb a) \<and> has_fields M i (fs @ [Raw ?W]) (a_sz a + n)"
      unfolding wrote_def build_def has_fields_append
      by (auto dest: keepsD intro!: exI [of _ "a_sz a"])
  qed
  then have "wrote N i (fs @ [Raw ?W]) ?a"
    unfolding wrote_def build_def m using sz N room by (auto simp: keeps_conj)
  moreover have "grown 0 a ?a" using sz room by (simp add: grown_def)
  ultimately show ?thesis unfolding run by simp
qed

lemma has_name_append: "has_name M i ls n \<Longrightarrow> has_name (M @ R) i ls n"
proof -
  assume h: "has_name M i ls n"
  then obtain xs h where "decodes M i xs h" "fold_name xs = fold_name ls" "h \<le> 255" "occupies M i n"
    by (auto simp: has_name_def holds_name_def)
  moreover have "occupies (M @ R) i n" using \<open>occupies M i n\<close>
  proof (induction rule: occupies.induct)
    case (occupies_label i b n)
    then show ?case by (intro occupies.occupies_label) (auto simp: rd_def nth_append split: if_splits)
  qed (auto intro: occupies.intros simp: rd_def nth_append split: if_splits)
  ultimately show ?thesis using h by (simp add: has_name_def holds_name_append)
qed

lemma compress_keeps:
  assumes P: "keeps N P (\<lambda>M. msg_ok M cb)" and N: "{length P..} \<subseteq> N" and used: "dl_used cb \<le> 2 ^ 61"
    and wf: "wf_name ins" and out: "length (wire ins) \<le> length out" and len: "length P \<le> 0x7fffffff"
  shows "ok (compress_name (wire ins @ r) out (length P) cb mem) (\<lambda>(rl, out', cb').
    length out' = length out \<and> rl \<le> length (wire ins) \<and> (rl = 0 \<longrightarrow> \<not> mem) \<and>
    (rl > 0 \<longrightarrow> keeps N (P @ take rl out') (\<lambda>M. msg_ok M cb' \<and> has_name M (length P) ins rl) \<and>
       dl_used cb' \<le> dl_used cb + 275 \<and> set (dl_elems cb) \<subseteq> set (dl_elems cb') \<and>
       (known cb' ins \<or> max_ptr < length P) \<and>
       (ins = [] \<or> known cb ins \<or> max_ptr < length P \<longrightarrow> keeps N P (\<lambda>M. msg_ok M cb'))))"
proof -
  have post: "ok (compress_name (wire ins @ r) out (length P) cb mem) (compress_post P' ins out cb mem)"
    if "agree N P P'" "length P' = length P" for P'
    using compress_name_ok [of P' cb ins out r mem] that used wf out len keepsD [OF P that(1)] by simp
  obtain rl out' cb' where run: "compress_name (wire ins @ r) out (length P) cb mem = Some (rl, out', cb')"
    and self: "compress_post P ins out cb mem (rl, out', cb')"
    using post [OF agree_refl refl] by (auto simp: ok_def)
  from post run have all: "compress_post P' ins out cb mem (rl, out', cb')"
    if "agree N P P'" "length P' = length P" for P'
    using that by fastforce
  let ?W = "take rl out'"
  have keep: "msg_ok M cb' \<and> has_name M (length P) ins rl" if "agree N (P @ ?W) M" "rl > 0" for M
  proof -
    let ?P = "take (length P) M"
    from agree_dropD [OF that(1) N] obtain R where R: "M = ?P @ ?W @ R" "length ?P = length P" by blast
    from agree_takeD [OF that(1) refl] have "agree N P ?P" .
    from all [OF this R(2)] that(2) R(2) have "msg_ok (?P @ ?W) cb'" "has_name (?P @ ?W) (length P) ins rl"
      by (auto simp: compress_post_def has_name_def)
    then have "msg_ok ((?P @ ?W) @ R) cb' \<and> has_name ((?P @ ?W) @ R) (length P) ins rl"
      using msg_ok_append [of "?P @ ?W" cb' R] has_name_append [of "?P @ ?W" "length P" ins rl R] by blast
    moreover have "(?P @ ?W) @ R = M" using R(1) by simp
    ultimately show ?thesis by metis
  qed
  have undo: "msg_ok M cb'" if "agree N P M" "rl > 0" "ins = [] \<or> known cb ins \<or> max_ptr < length P" for M
  proof -
    from that(1) have a: "agree N P (take (length P) M)" "length (take (length P) M) = length P"
      by (auto simp: agree_def)
    from all [OF a] that(2,3) a(2) have "msg_ok (take (length P) M) cb'" by (auto simp: compress_post_def)
    from msg_ok_append [OF this, of "drop (length P) M"] show ?thesis by simp
  qed
  from self keep undo show ?thesis unfolding run by (simp add: compress_post_def keeps_def)
qed

lemma put_name_ok:
  assumes w: "wrote N i fs a" and wf: "wf_name ins" and room: "a_sz a + length (wire ins) \<le> length (a_buf a)"
    and sz: "a_sz a \<le> 0x7fffffff" and used: "dl_used (a_cb a) \<le> 2 ^ 61"
  shows "ok (put_name (wire ins @ r) a) (\<lambda>(l, a'). (l = 0 \<longrightarrow> a_al a \<noteq> []) \<and>
    (l > 0 \<longrightarrow> l \<le> length (wire ins) \<and> a_sz a' = a_sz a + l \<and> grown 275 a a' \<and> wrote N i (fs @ [Nam ins]) a' \<and>
      (known (a_cb a') ins \<or> max_ptr < a_sz a)))"
proof -
  let ?P = "msg a" and ?o = "drop (a_sz a) (a_buf a)"
  obtain mem al where al: "malloc (a_al a) = (mem, al)" by (cases "malloc (a_al a)")
  have P: "length ?P = a_sz a" using room by simp
  from w have b: "keeps N ?P (\<lambda>M. msg_ok M (a_cb a))" "{length ?P..} \<subseteq> N"
    and f: "keeps N ?P (\<lambda>M. has_fields M i fs (a_sz a))" using P by (simp_all add: wrote_def build_def)
  have "length (wire ins) \<le> length ?o" using room by simp
  from compress_keeps [OF b used wf this, of r mem] obtain l out cb
    where run: "compress_name (wire ins @ r) ?o (a_sz a) (a_cb a) mem = Some (l, out, cb)"
      and o: "length out = length ?o" "l \<le> length (wire ins)" "l = 0 \<longrightarrow> \<not> mem"
      and pos: "l > 0 \<Longrightarrow> keeps N (?P @ take l out) (\<lambda>M. msg_ok M cb \<and> has_name M (a_sz a) ins l) \<and>
         dl_used cb \<le> dl_used (a_cb a) + 275 \<and> set (dl_elems (a_cb a)) \<subseteq> set (dl_elems cb) \<and>
         (known cb ins \<or> max_ptr < a_sz a)"
    using sz unfolding P by (auto simp: ok_def)
  let ?a = "a\<lparr>a_buf := ?P @ out, a_sz := a_sz a + l, a_cb := cb, a_al := al\<rparr>"
  have res: "put_name (wire ins @ r) a = Some (l, ?a)" using run al sz by (simp add: put_name_def)
  have "l \<le> length ?o" using o room by simp
  then have m: "msg ?a = ?P @ take l out" using P o by simp
  have "wrote N i (fs @ [Nam ins]) ?a \<and> grown 275 a ?a" if "l > 0"
  proof
    have "keeps N (?P @ take l out) (\<lambda>M. has_fields M i (fs @ [Nam ins]) (a_sz a + l))"
      using conjunct1 [OF pos [OF that]]
    proof (rule keeps_mp)
      fix M assume M: "agree N (?P @ take l out) M" "msg_ok M cb \<and> has_name M (a_sz a) ins l"
      from M(1) have "agree N ?P M" using agree_trans agree_append by blast
      with f M(2) show "has_fields M i (fs @ [Nam ins]) (a_sz a + l)"
        unfolding has_fields_append by (auto dest: keepsD)
    qed
    then show "wrote N i (fs @ [Nam ins]) ?a"
      unfolding wrote_def build_def m using pos [OF that] b(2) o room by (auto simp: keeps_conj)
    show "grown 275 a ?a" using pos [OF that] o room al by (auto simp: grown_def)
  qed
  with o pos al show ?thesis unfolding res by auto
qed

section \<open>The data of a record\<close>

text \<open>The state after the fields \<open>fs\<close>, among them \<open>k\<close> names, have been written since \<open>a\<close>.\<close>

definition names_known :: "answer \<Rightarrow> field list \<Rightarrow> bool" where
  "names_known a fs \<longleftrightarrow> (\<forall>ls. Nam ls \<in> set fs \<longrightarrow> ls = [] \<or> known (a_cb a) ls \<or> max_ptr < a_sz a)"

definition adv :: "nat set \<Rightarrow> answer \<Rightarrow> field list \<Rightarrow> nat \<Rightarrow> answer \<Rightarrow> bool" where
  "adv N a fs k b \<longleftrightarrow> wrote N (a_sz a) fs b \<and> grown (275 * k) a b \<and> a_sz b \<le> a_sz a + length (rdata_of fs) \<and>
     names_known b fs \<and> ((\<forall>ls. Nam ls \<notin> set fs) \<longrightarrow> a_cb b = a_cb a)"

definition roomy :: "answer \<Rightarrow> field list \<Rightarrow> bool" where
  "roomy a fs \<longleftrightarrow> a_sz a + length (rdata_of fs) \<le> length (a_buf a) \<and>
     a_sz a + length (rdata_of fs) \<le> 0x7fffffff \<and> dl_used (a_cb a) \<le> 2 ^ 60"

lemma rdata_of_simps [simp]:
  "rdata_of [] = []" "rdata_of (Raw b # fs) = b @ rdata_of fs" "rdata_of (Nam ls # fs) = wire ls @ rdata_of fs"
  "rdata_of (fs @ gs) = rdata_of fs @ rdata_of gs"
  by (simp_all add: rdata_of_def)

lemma names_known_grown: "names_known a fs \<Longrightarrow> grown k a b \<Longrightarrow> names_known b fs"
  unfolding names_known_def grown_def using known_mono by (meson le_less_trans leD leI order.strict_trans2)

lemma adv_Nil: "build N a \<Longrightarrow> adv N a [] 0 a"
  by (simp add: adv_def wrote_Nil grown_refl build_def names_known_def)

lemma adv_bytes:
  assumes "adv N a fs k b" and "roomy a (fs @ [Raw (take n src)])" and "n \<le> length src"
  shows "ok (put_bytes src n b) (\<lambda>b'. a_sz b' = a_sz b + n \<and> adv N a (fs @ [Raw (take n src)]) k b')"
proof -
  from assms have "wrote N (a_sz a) fs b" "a_sz b + n \<le> length (a_buf b)"
    by (auto simp: adv_def grown_def roomy_def)
  from put_bytes_ok [OF this(1) assms(3) this(2)] show ?thesis
  proof (rule ok_mono)
    fix b' assume b': "a_sz b' = a_sz b + n \<and> grown 0 b b' \<and> wrote N (a_sz a) (fs @ [Raw (take n src)]) b' \<and>
      a_cb b' = a_cb b"
    with assms(1) have "grown (275 * k + 0) a b'" by (intro grown_trans [of _ a b]) (auto simp: adv_def)
    moreover have "names_known b' fs" using assms(1) b' by (auto simp: adv_def intro: names_known_grown)
    ultimately have "grown (275 * k) a b'" "names_known b' fs" by simp_all
    with assms b' show "a_sz b' = a_sz b + n \<and> adv N a (fs @ [Raw (take n src)]) k b'"
      by (auto simp: adv_def names_known_def)
  qed
qed

lemma adv_name:
  assumes "adv N a fs k b" and "roomy a (fs @ [Nam ins])" and "wf_name ins" and "k \<le> 10"
  shows "ok (put_name (wire ins @ r) b) (\<lambda>(l, b'). (l = 0 \<longrightarrow> a_al a \<noteq> []) \<and>
    (l > 0 \<longrightarrow> l \<le> length (wire ins) \<and> a_sz b' = a_sz b + l \<and> adv N a (fs @ [Nam ins]) (Suc k) b'))"
proof -
  have g: "grown (275 * k) a b" and nk: "names_known b fs" and w: "wrote N (a_sz a) fs b"
    and sz: "a_sz b \<le> a_sz a + length (rdata_of fs)" using assms(1) by (auto simp: adv_def)
  have "a_sz b + length (wire ins) \<le> length (a_buf b)" "a_sz b \<le> 0x7fffffff"
    using sz g assms(2) by (auto simp: grown_def roomy_def)
  moreover have "dl_used (a_cb b) \<le> 2 ^ 61" using g assms(2,4) by (auto simp: grown_def roomy_def)
  ultimately show ?thesis
  proof (rule ok_mono [OF put_name_ok [OF w assms(3)]], clarify, intro conjI impI)
    fix l b'
    assume z: "l = 0 \<longrightarrow> a_al b \<noteq> []" and p: "l > 0 \<longrightarrow> l \<le> length (wire ins) \<and> a_sz b' = a_sz b + l \<and> grown 275 b b' \<and>
      wrote N (a_sz a) (fs @ [Nam ins]) b' \<and> (known (a_cb b') ins \<or> max_ptr < a_sz b)"
    show "l = 0 \<Longrightarrow> a_al a \<noteq> []" using z g by (auto simp: grown_def)
    assume l: "l > 0"
    with p show "l \<le> length (wire ins)" "a_sz b' = a_sz b + l" by auto
    from l p have g': "grown 275 b b'" by blast
    with grown_trans [OF g g'] names_known_grown [OF nk g'] l p sz
    show "adv N a (fs @ [Nam ins]) (Suc k) b'" by (auto simp: adv_def names_known_def grown_def)
  qed
qed

definition rdata_post :: "nat set \<Rightarrow> answer \<Rightarrow> field list \<Rightarrow> nat option \<times> answer \<Rightarrow> bool" where
  "rdata_post N a fs = (\<lambda>(r, b). (r = None \<longrightarrow> a_al a \<noteq> []) \<and>
     (\<forall>n. r = Some n \<longrightarrow> a_sz b = a_sz a + n \<and> adv N a fs 2 b))"

lemma adv_weaken: "adv N a fs k b \<Longrightarrow> k \<le> m \<Longrightarrow> adv N a fs m b"
  by (auto simp: adv_def grown_def)

lemma rdata_post_fail: "a_al a \<noteq> [] \<Longrightarrow> rdata_post N a fs (None, b)"
  by (simp add: rdata_post_def)

lemma rdata_post_done: "adv N a fs k b \<Longrightarrow> k \<le> 2 \<Longrightarrow> a_sz b = a_sz a + n \<Longrightarrow> rdata_post N a fs (Some n, b)"
  by (auto simp: rdata_post_def intro: adv_weaken)

lemma roomy_prefix: "roomy a (fs @ gs) \<Longrightarrow> roomy a fs"
  by (auto simp: roomy_def)

text \<open>The two steps that the cases of the switch are made of.\<close>

lemma put_name_step:
  assumes "adv N a fs k b" and "roomy a (fs @ [Nam x])" and "wf_name x" and "k \<le> 10"
    and "\<And>l b'. l > 0 \<Longrightarrow> l \<le> length (wire x) \<Longrightarrow> a_sz b' = a_sz b + l \<Longrightarrow> adv N a (fs @ [Nam x]) (Suc k) b' \<Longrightarrow>
      ok (f l b') (rdata_post N a gs)"
  shows "ok (do { (l, b) \<leftarrow> put_name (wire x @ r) b; if l = 0 then Some (None, b) else f l b }) (rdata_post N a gs)"
  unfolding ok_bind using adv_name [OF assms(1-4), of r]
  by (rule ok_mono) (use assms(5) in \<open>auto intro: rdata_post_fail\<close>)

lemma put_bytes_step:
  assumes "adv N a fs k b" and "roomy a (fs @ [Raw x])"
    and "\<And>b'. a_sz b' = a_sz b + length x \<Longrightarrow> adv N a (fs @ [Raw x]) k b' \<Longrightarrow> ok (f b') Q"
  shows "ok (do { b \<leftarrow> put_bytes (x @ r) (length x) b; f b }) Q"
proof -
  from adv_bytes [OF assms(1), of "length x" "x @ r"] assms(2)
  have "ok (put_bytes (x @ r) (length x) b) (\<lambda>b'. a_sz b' = a_sz b + length x \<and> adv N a (fs @ [Raw x]) k b')" by simp
  then show ?thesis unfolding ok_bind by (rule ok_mono) (use assms(3) in blast)
qed

lemma rhnlen_name: "wf_name x \<Longrightarrow> rhnlen (wire x @ r) = Some (length (wire x))"
  by (simp add: rhnlen_wire wf_name_labels)

lemma rdata_name_ok:
  assumes "build N a" and "wf_name x" and "roomy a [Nam x]" and "dlen = length (wire x)"
  shows "ok (rdata_name dlen (wire x @ r) a) (rdata_post N a [Nam x])"
  unfolding rdata_name_def
  by (rule put_name_step [OF adv_Nil [OF assms(1)]]) (use assms in \<open>auto simp: ok_simps intro!: rdata_post_done\<close>)

lemma rdata_names_ok:
  assumes "build N a" and wf: "wf_name x" "wf_name y" and "roomy a [Nam x, Nam y]" and "dlen = length (wire x @ wire y)"
  shows "ok (rdata_names dlen (wire x @ wire y @ r) a) (rdata_post N a [Nam x, Nam y])"
  unfolding rdata_names_def
proof (rule put_name_step [OF adv_Nil [OF assms(1)]])
  fix l1 b1
  assume b1: "l1 > 0" "l1 \<le> length (wire x)" "a_sz b1 = a_sz a + l1" "adv N a ([] @ [Nam x]) (Suc 0) b1"
  have "ok (do { (blen, b) \<leftarrow> put_name (wire y @ r) b1; if blen = 0 then Some (None, b)
       else do { pdnsd_assert (l1 + blen \<le> dlen); Some (Some (l1 + blen), b) } }) (rdata_post N a [Nam x, Nam y])"
    by (rule put_name_step [OF b1(4)]) (use assms b1 in \<open>auto simp: ok_simps intro!: rdata_post_done\<close>)
  with b1 show "ok (do { ilen \<leftarrow> rhnlen (wire x @ wire y @ r); pdnsd_assert (l1 \<le> ilen);
      (blen, a) \<leftarrow> put_name (drop ilen (wire x @ wire y @ r)) b1; if blen = 0 then Some (None, a)
      else do { pdnsd_assert (l1 + blen \<le> dlen); Some (Some (l1 + blen), a) } }) (rdata_post N a [Nam x, Nam y])"
    by (simp add: rhnlen_name wf)
qed (use assms roomy_prefix [of a "[Nam x]" "[Nam y]"] in auto)

lemma rdata_prefixed_ok:
  assumes "build N a" and "wf_name x" and "roomy a [Raw p, Nam x]" and "length p = k" and "dlen = k + length (wire x)"
  shows "ok (rdata_prefixed k dlen (p @ wire x @ r) a) (rdata_post N a [Raw p, Nam x])"
proof -
  have "ok (do { b \<leftarrow> put_bytes (p @ wire x @ r) (length p) a;
      (blen, b) \<leftarrow> put_name (wire x @ r) b; if blen = 0 then Some (None, b)
      else do { pdnsd_assert (k + blen \<le> dlen); Some (Some (k + blen), b) } }) (rdata_post N a [Raw p, Nam x])"
  proof (rule put_bytes_step [OF adv_Nil [OF assms(1)]])
    fix b1 assume b1: "a_sz b1 = a_sz a + length p" "adv N a ([] @ [Raw p]) 0 b1"
    show "ok (do { (blen, b) \<leftarrow> put_name (wire x @ r) b1; if blen = 0 then Some (None, b)
        else do { pdnsd_assert (k + blen \<le> dlen); Some (Some (k + blen), b) } }) (rdata_post N a [Raw p, Nam x])"
      by (rule put_name_step [OF b1(2)]) (use assms b1 in \<open>auto simp: ok_simps intro!: rdata_post_done\<close>)
  qed (use assms roomy_prefix [of a "[Raw p]" "[Nam x]"] in simp)
  with assms(4) show ?thesis unfolding rdata_prefixed_def using assms(5) [symmetric] by (simp add: assms(5))
qed

lemma rdata_soa_ok:
  assumes "build N a" and wf: "wf_name x" "wf_name y" and "roomy a [Nam x, Nam y, Raw z]" and z: "length z = 20"
    and dlen: "dlen = length (wire x) + length (wire y) + 20"
  shows "ok (rdata_soa dlen (wire x @ wire y @ z @ r) a) (rdata_post N a [Nam x, Nam y, Raw z])"
  unfolding rdata_soa_def
proof (rule put_name_step [OF adv_Nil [OF assms(1)]])
  fix l1 b1
  assume b1: "l1 > 0" "l1 \<le> length (wire x)" "a_sz b1 = a_sz a + l1" "adv N a ([] @ [Nam x]) (Suc 0) b1"
  let ?rest = "\<lambda>l2 b. do { l \<leftarrow> rhnlen (wire y @ z @ r); pdnsd_assert (l1 + l2 \<le> length (wire x) + l);
      b \<leftarrow> put_bytes (drop (length (wire x) + l) (wire x @ wire y @ z @ r)) 20 b;
      pdnsd_assert (l1 + l2 + 20 \<le> dlen); Some (Some (l1 + l2 + 20), b) }"
  have "ok (do { (l2, b) \<leftarrow> put_name (wire y @ z @ r) b1; if l2 = 0 then Some (None, b) else ?rest l2 b })
      (rdata_post N a [Nam x, Nam y, Raw z])"
  proof (rule put_name_step [OF b1(4)])
    fix l2 b2
    assume b2: "l2 > 0" "l2 \<le> length (wire y)" "a_sz b2 = a_sz b1 + l2" "adv N a (([] @ [Nam x]) @ [Nam y]) (Suc (Suc 0)) b2"
    have "ok (do { b \<leftarrow> put_bytes (z @ r) (length z) b2; pdnsd_assert (l1 + l2 + 20 \<le> dlen); Some (Some (l1 + l2 + 20), b) })
        (rdata_post N a [Nam x, Nam y, Raw z])"
      by (rule put_bytes_step [OF b2(4)]) (use assms b1 b2 in \<open>auto simp: ok_simps intro!: rdata_post_done\<close>)
    with b1 b2 z show "ok (?rest l2 b2) (rdata_post N a [Nam x, Nam y, Raw z])"
      by (simp add: rhnlen_name wf)
  qed (use assms roomy_prefix [of a "[Nam x, Nam y]" "[Raw z]"] in auto)
  with b1 show "ok (do { ilen \<leftarrow> rhnlen (wire x @ wire y @ z @ r); pdnsd_assert (l1 \<le> ilen);
      (blen, a) \<leftarrow> put_name (drop ilen (wire x @ wire y @ z @ r)) b1; if blen = 0 then Some (None, a)
      else do { l \<leftarrow> rhnlen (drop ilen (wire x @ wire y @ z @ r)); pdnsd_assert (l1 + blen \<le> ilen + l);
        a \<leftarrow> put_bytes (drop (ilen + l) (wire x @ wire y @ z @ r)) 20 a;
        pdnsd_assert (l1 + blen + 20 \<le> dlen); Some (Some (l1 + blen + 20), a) } }) (rdata_post N a [Nam x, Nam y, Raw z])"
    by (simp add: rhnlen_name wf cong: if_cong)
qed (use assms roomy_prefix [of a "[Nam x]" "[Nam y, Raw z]"] in auto)

lemma rdata_px_ok:
  assumes "build N a" and wf: "wf_name x" "wf_name y" and "roomy a [Raw p, Nam x, Nam y]" and p: "length p = 2"
    and dlen: "dlen = 2 + length (wire x) + length (wire y)"
  shows "ok (rdata_px dlen (p @ wire x @ wire y @ r) a) (rdata_post N a [Raw p, Nam x, Nam y])"
proof -
  let ?d = "p @ wire x @ wire y @ r" and ?Q = "rdata_post N a [Raw p, Nam x, Nam y]"
  let ?rest2 = "\<lambda>l1 b. do { (l2, b) \<leftarrow> put_name (wire y @ r) b; if l2 = 0 then Some (None, b)
      else do { pdnsd_assert (2 + l1 + l2 \<le> dlen); Some (Some (2 + l1 + l2), b) } }"
  let ?rest1 = "\<lambda>b. do { (l1, b) \<leftarrow> put_name (wire x @ wire y @ r) b; if l1 = 0 then Some (None, b)
      else do { l \<leftarrow> rhnlen (drop 2 ?d); pdnsd_assert (2 + l1 \<le> 2 + l);
        (l2, b) \<leftarrow> put_name (drop (2 + l) ?d) b; if l2 = 0 then Some (None, b)
        else do { pdnsd_assert (2 + l1 + l2 \<le> dlen); Some (Some (2 + l1 + l2), b) } } }"
  have "ok (do { b \<leftarrow> put_bytes ?d (length p) a; ?rest1 b }) ?Q"
  proof (rule put_bytes_step [OF adv_Nil [OF assms(1)]])
    fix b1 assume b1: "a_sz b1 = a_sz a + length p" "adv N a ([] @ [Raw p]) 0 b1"
    show "ok (?rest1 b1) ?Q"
    proof (rule put_name_step [OF b1(2)])
      fix l1 b2
      assume b2: "l1 > 0" "l1 \<le> length (wire x)" "a_sz b2 = a_sz b1 + l1" "adv N a (([] @ [Raw p]) @ [Nam x]) (Suc 0) b2"
      have "ok (?rest2 l1 b2) ?Q"
        by (rule put_name_step [OF b2(4)]) (use assms b1 b2 in \<open>auto simp: ok_simps intro!: rdata_post_done\<close>)
      moreover have "drop (2 + length (wire x)) ?d = wire y @ r" "drop 2 ?d = wire x @ wire y @ r" using p by simp_all
      ultimately show "ok (do { l \<leftarrow> rhnlen (drop 2 ?d); pdnsd_assert (2 + l1 \<le> 2 + l);
          (l2, b) \<leftarrow> put_name (drop (2 + l) ?d) b2; if l2 = 0 then Some (None, b)
          else do { pdnsd_assert (2 + l1 + l2 \<le> dlen); Some (Some (2 + l1 + l2), b) } }) ?Q"
        using b2(2) by (simp add: rhnlen_name wf)
    qed (use assms roomy_prefix [of a "[Raw p, Nam x]" "[Nam y]"] in auto)
  qed (use assms roomy_prefix [of a "[Raw p]" "[Nam x, Nam y]"] in simp)
  moreover have "drop 2 ?d = wire x @ wire y @ r" using p by simp
  ultimately show ?thesis
    unfolding rdata_px_def using p dlen by (simp only: p) (simp add: ok_bind ok_pdnsd_assert)
qed

lemma rdata_nxt_ok:
  assumes "build N a" and wf: "wf_name x" and "roomy a [Nam x, Raw z]" and dlen: "dlen = length (wire x) + length z"
  shows "ok (rdata_nxt dlen (wire x @ z @ r) a) (rdata_post N a [Nam x, Raw z])"
  unfolding rdata_nxt_def
proof (rule put_name_step [OF adv_Nil [OF assms(1)]])
  fix l1 b1
  assume b1: "l1 > 0" "l1 \<le> length (wire x)" "a_sz b1 = a_sz a + l1" "adv N a ([] @ [Nam x]) (Suc 0) b1"
  have "ok (do { b \<leftarrow> put_bytes (z @ r) (length z) b1; Some (Some (l1 + length z), b) }) (rdata_post N a [Nam x, Raw z])"
    by (rule put_bytes_step [OF b1(4)]) (use assms b1 in \<open>auto intro!: rdata_post_done\<close>)
  moreover have "rdata_post N a [Nam x, Raw z] (Some l1, b1)" if "z = []"
    using b1 that by (intro rdata_post_done [where k = 1]) (auto simp: adv_def wrote_def names_known_def keeps_def has_fields_append)
  ultimately show "ok (do { ilen \<leftarrow> rhnlen (wire x @ z @ r); pdnsd_assert (l1 \<le> ilen); pdnsd_assert (dlen \<ge> ilen);
      if dlen > ilen then do {
        a \<leftarrow> put_bytes (drop ilen (wire x @ z @ r)) (dlen - ilen) b1; Some (Some (l1 + (dlen - ilen)), a) }
      else Some (Some l1, b1) }) (rdata_post N a [Nam x, Raw z])"
    using b1 by (simp add: rhnlen_name wf dlen)
qed (use assms roomy_prefix [of a "[Nam x]" "[Raw z]"] in auto)

lemma naptr_skip_string:
  assumes "char_string b t" and "length (x @ b) < dlen"
  shows "naptr_skip (Suc j) dlen (x @ b @ r) (length x) = naptr_skip j dlen (x @ b @ r) (length (x @ b))"
proof -
  from assms(1) have "rd (x @ b @ r) (length x) = Some (of_nat (length t))" "length b = Suc (length t)"
    "unat (of_nat (length t) :: byte) = length t"
    by (auto simp: char_string_def rd_def nth_append unat_of_nat)
  with assms(2) show ?thesis by (simp add: Let_def)
qed

lemma naptr_skip_prefix:
  assumes "naptr_prefix p" and "length p < dlen"
  shows "naptr_skip 3 dlen (p @ r) 4 = Some (length p)"
proof -
  from assms(1) obtain x t1 t2 t3 b1 b2 b3 where p: "length x = 4" "char_string b1 t1" "char_string b2 t2" "char_string b3 t3"
    "p = x @ b1 @ b2 @ b3" unfolding naptr_prefix_def by blast
  have "naptr_skip (Suc (Suc (Suc 0))) dlen (x @ b1 @ b2 @ b3 @ r) (length x) = Some (length ((x @ b1) @ b2 @ b3))"
    using naptr_skip_string [OF p(2), of x dlen "Suc (Suc 0)" "b2 @ b3 @ r"]
      naptr_skip_string [OF p(3), of "x @ b1" dlen "Suc 0" "b3 @ r"]
      naptr_skip_string [OF p(4), of "(x @ b1) @ b2" dlen 0 r] assms(2) p(5)
    by (simp del: naptr_skip.simps(2))
  with p(1,5) show ?thesis by (simp only: numeral_3_eq_3 append_assoc)
qed

lemma rdata_naptr_ok:
  assumes "build N a" and "wf_name x" and "roomy a [Raw p, Nam x]" and p: "naptr_prefix p" and dlen: "dlen = length p + length (wire x)"
  shows "ok (rdata_naptr dlen (p @ wire x @ r) a) (rdata_post N a [Raw p, Nam x])"
proof -
  have skip: "naptr_skip 3 dlen (p @ wire x @ r) 4 = Some (length p)"
    using naptr_skip_prefix [OF p, of dlen "wire x @ r"] dlen by simp
  have "4 < length p" using p by (auto simp: naptr_prefix_def char_string_def)
  moreover have "ok (rdata_prefixed (length p) dlen (p @ wire x @ r) a) (rdata_post N a [Raw p, Nam x])"
    using assms by (intro rdata_prefixed_ok) auto
  ultimately show ?thesis
    using dlen by (simp add: rdata_naptr_def rdata_prefixed_def skip [unfolded dlen])
qed

lemma rdata_raw_ok:
  assumes "build N a" and "roomy a [Raw p]"
  shows "ok (do { a \<leftarrow> put_bytes (p @ r) (length p) a; Some (Some (length p), a) }) (rdata_post N a [Raw p])"
  by (rule put_bytes_step [OF adv_Nil [OF assms(1)]]) (use assms in \<open>auto intro!: rdata_post_done\<close>)

lemmas type_defs = T_A_def T_NS_def T_MD_def T_MF_def T_CNAME_def T_SOA_def T_MB_def T_MG_def T_MR_def T_PTR_def
  T_MINFO_def T_MX_def T_RP_def T_AFSDB_def T_RT_def T_PX_def T_AAAA_def T_NXT_def T_SRV_def T_NAPTR_def T_KX_def T_OPT_def

lemma fits_cases:
  assumes "fits type fs"
  obtains (name) x where "type \<in> {T_CNAME, T_MB, T_MD, T_MF, T_MG, T_MR, T_NS, T_PTR}" "fs = [Nam x]"
    | (names) x y where "type \<in> {T_MINFO, T_RP}" "fs = [Nam x, Nam y]"
    | (mx) p x where "type \<in> {T_MX, T_AFSDB, T_RT, T_KX}" "fs = [Raw p, Nam x]" "length p = 2"
    | (soa) x y z where "type = T_SOA" "fs = [Nam x, Nam y, Raw z]" "length z = 20"
    | (px) p x y where "type = T_PX" "fs = [Raw p, Nam x, Nam y]" "length p = 2"
    | (srv) p x where "type = T_SRV" "fs = [Raw p, Nam x]" "length p = 6"
    | (nxt) x z where "type = T_NXT" "fs = [Nam x, Raw z]"
    | (naptr) p x where "type = T_NAPTR" "fs = [Raw p, Nam x]" "naptr_prefix p"
    | (raw) p where "type \<notin> {T_CNAME, T_MB, T_MD, T_MF, T_MG, T_MR, T_NS, T_PTR}" "type \<notin> {T_MINFO, T_RP}"
        "type \<notin> {T_MX, T_AFSDB, T_RT, T_KX}" "type \<noteq> T_SOA" "type \<noteq> T_PX" "type \<noteq> T_SRV" "type \<noteq> T_NXT"
        "type \<noteq> T_NAPTR" "fs = [Raw p]"
proof -
  have if_elim: "(if b then A else B) \<Longrightarrow> (b \<Longrightarrow> A \<Longrightarrow> R) \<Longrightarrow> (\<not> b \<Longrightarrow> B \<Longrightarrow> R) \<Longrightarrow> R" for b A B R
    by (cases b) auto
  show thesis using assms unfolding fits_def
    by (elim conjE if_elim exE) (rule that; assumption)+
qed

lemma add_rdata_ok:
  assumes b: "build N a" and fits: "fits type fs" and room: "roomy a fs"
  shows "ok (add_rdata type (length (rdata_of fs)) (rdata_of fs @ r) a) (rdata_post N a fs)"
proof -
  from fits have wf: "list_all wf_field fs" by (simp add: fits_def)
  from fits show ?thesis
  proof (cases rule: fits_cases)
    case (name x)
    with b wf room show ?thesis using rdata_name_ok [of N a x] by (simp add: add_rdata_def)
  next
    case (names x y)
    with b wf room show ?thesis using rdata_names_ok [of N a x y] by (auto simp: add_rdata_def type_defs)
  next
    case (mx p x)
    with b wf room show ?thesis using rdata_prefixed_ok [of N a x p 2] by (auto simp: add_rdata_def type_defs)
  next
    case (soa x y z)
    with b wf room show ?thesis using rdata_soa_ok [of N a x y z] by (auto simp: add_rdata_def type_defs add.assoc)
  next
    case (px p x y)
    with b wf room show ?thesis using rdata_px_ok [of N a x y p] by (auto simp: add_rdata_def type_defs add.assoc)
  next
    case (srv p x)
    with b wf room show ?thesis using rdata_prefixed_ok [of N a x p 6] by (auto simp: add_rdata_def type_defs)
  next
    case (nxt x z)
    with b wf room show ?thesis using rdata_nxt_ok [of N a x z] by (auto simp: add_rdata_def type_defs)
  next
    case (naptr p x)
    with b wf room show ?thesis using rdata_naptr_ok [of N a x p] by (auto simp: add_rdata_def type_defs)
  next
    case (raw p)
    with b room show ?thesis using rdata_raw_ok [of N a p r] by (simp only: add_rdata_def rdata_of_simps append_Nil2 if_False)
  qed
qed

section \<open>Records of the message\<close>

record rrec =
  r_name :: "label list"
  r_type :: "16 word"
  r_class :: "16 word"
  r_ttl :: "32 word"
  r_data :: "field list"

text \<open>The message has the record \<open>r\<close> from \<open>i\<close> to \<open>j\<close>.\<close>

definition has_rr :: "bytes \<Rightarrow> nat \<Rightarrow> rrec \<Rightarrow> nat \<Rightarrow> bool" where
  "has_rr M i r j \<longleftrightarrow> (\<exists>n. has_name M i (r_name r) n \<and> i + n + 10 \<le> length M \<and>
     take 10 (drop (i + n) M) = be16 (r_type r) @ be16 (r_class r) @ be32 (r_ttl r) @ be16 (of_nat (j - (i + n + 10))) \<and>
     has_fields M (i + n + 10) (r_data r) j)"

definition bump :: "msg_section \<Rightarrow> dns_hdr \<Rightarrow> dns_hdr" where
  "bump sect h = (case sect of S_ANSWER \<Rightarrow> h\<lparr>h_ancount := h_ancount h + 1\<rparr>
     | S_AUTHORITY \<Rightarrow> h\<lparr>h_nscount := h_nscount h + 1\<rparr> | S_ADDITIONAL \<Rightarrow> h\<lparr>h_arcount := h_arcount h + 1\<rparr>)"

text \<open>The invariant between records; \<open>K\<close> bounds what has been written so far.\<close>

definition ans_ok :: "nat \<Rightarrow> answer \<Rightarrow> bool" where
  "ans_ok K a \<longleftrightarrow> a_allocsz a = length (a_buf a) + dnsmsghdroffset \<and> 12 \<le> a_sz a \<and> a_sz a \<le> length (a_buf a) \<and>
     a_sz a \<le> K \<and> dl_used (a_cb a) \<le> 275 * K \<and> keeps {12..} (msg a) (\<lambda>M. msg_ok M (a_cb a))"

lemma alloc_chunk_eq: "n + 0x7f < 2 ^ 64 \<Longrightarrow> alloc_chunk n = (n + 0x7f) div 128 * 128"
  using unat_and_not_mask [of "of_nat (n + 0x7f) :: 64 word" 7]
  by (simp add: alloc_chunk_def mask_eq_exp_minus_1 unat_of_nat del: of_nat_add)

lemma ensure_space_ok:
  assumes "a_allocsz a = length (a_buf a) + 2" and "n + 0x7f < 2 ^ 64" and run: "ensure_space n a = (r, a')"
  shows "\<not> r \<Longrightarrow> a_al a \<noteq> []"
    and "r \<Longrightarrow> \<exists>W. a_buf a' = a_buf a @ W \<and> a_allocsz a' = length (a_buf a') + 2 \<and> n \<le> a_allocsz a' \<and>
      a_sz a' = a_sz a \<and> a_cb a' = a_cb a \<and> a_fill a' = a_fill a \<and> (a_al a = [] \<longrightarrow> a_al a' = [])"
proof -
  obtain mem al where al: "malloc (a_al a) = (mem, al)" by (cases "malloc (a_al a)")
  have c: "n \<le> alloc_chunk n" using alloc_chunk_eq [OF assms(2)] by simp
  show "\<not> r \<Longrightarrow> a_al a \<noteq> []" using run al by (auto simp: ensure_space_def Let_def split: if_splits)
  assume r
  show "\<exists>W. a_buf a' = a_buf a @ W \<and> a_allocsz a' = length (a_buf a') + 2 \<and> n \<le> a_allocsz a' \<and>
      a_sz a' = a_sz a \<and> a_cb a' = a_cb a \<and> a_fill a' = a_fill a \<and> (a_al a = [] \<longrightarrow> a_al a' = [])"
  proof (cases "n > a_allocsz a")
    case True
    with run al \<open>r\<close> have "a' = a\<lparr>a_buf := a_buf a @ replicate (alloc_chunk n - a_allocsz a) (a_fill a),
        a_allocsz := alloc_chunk n, a_al := al\<rparr>"
      by (auto simp: ensure_space_def Let_def split: if_splits)
    with True c assms(1) al show ?thesis by auto
  next
    case False
    with run assms(1) show ?thesis by (auto simp: ensure_space_def)
  qed
qed

lemma count_rr_ok:
  assumes "12 \<le> length (a_buf a)" and hdr: "get_hdr (a_buf a) = Some h"
  shows "\<exists>v. count_rr sect a = Some (a\<lparr>a_buf := put (a_buf a) (count_at sect) (be16 v)\<rparr>) \<and>
    get_hdr (put (a_buf a) (count_at sect) (be16 v)) = Some (bump sect h)"
proof -
  have at: "count_at sect + 2 \<le> length (a_buf a)" using assms(1) by (cases sect) (auto simp: count_at_def)
  then obtain n where n: "GETINT16 (a_buf a) (count_at sect) = Some (n, count_at sect + 2)" using GETINT16_Some by blast
  let ?b = "put (a_buf a) (count_at sect) (be16 (n + 1))"
  have run: "count_rr sect a = Some (a\<lparr>a_buf := ?b\<rparr>)" using n at by (simp add: count_rr_def PUTINT16_be16)
  have "take 2 (drop (count_at sect) ?b) = be16 (n + 1)" using at by (simp add: put_def)
  then have g: "GETINT16 ?b (count_at sect) = Some (n + 1, count_at sect + 2)" by (rule GETINT16_be16)
  have nth: "?b ! i = a_buf a ! i" if "i < 12" "i \<noteq> count_at sect" "i \<noteq> Suc (count_at sect)" for i
    using that at assms(1) by (auto simp: nth_put)
  have r: "rd ?b i = rd (a_buf a) i" if "i < 12" "i \<noteq> count_at sect" "i \<noteq> Suc (count_at sect)" for i
    using nth [OF that] at that(1) assms(1) by (simp add: rd_def)
  have g': "GETINT16 ?b i = GETINT16 (a_buf a) i" if "Suc i < 12" "i \<noteq> count_at sect" "i \<noteq> Suc (count_at sect)" "Suc i \<noteq> count_at sect" for i
    using r [of i] r [of "Suc i"] that by (simp add: GETINT16_def)
  have "get_hdr ?b = Some (bump sect h)"
    using hdr g g' r n unfolding get_hdr_def
    by (cases sect) (auto simp: count_at_def bump_def bind_eq_Some_conv)
  with run show ?thesis by blast
qed

lemma put_rr_hdr_run:
  assumes "p + 10 \<le> length (a_buf a)"
  shows "put_rr_hdr type ttl rdlen p a =
    Some (a\<lparr>a_buf := put (a_buf a) p (be16 (of_nat type) @ be16 (of_nat C_IN) @ be32 ttl @ be16 (of_nat rdlen))\<rparr>)"
proof -
  have 1: "put (put (a_buf a) p (be16 u)) (Suc (Suc p)) ws = put (a_buf a) p (be16 u @ ws)" if "length ws \<le> 8" for u ws
    using that assms put_put [of p "be16 u" ws "a_buf a"] by (simp add: numeral_eq_Suc)
  have 2: "put (put (a_buf a) p (be16 u @ be16 v)) (Suc (Suc (Suc (Suc p)))) ws = put (a_buf a) p ((be16 u @ be16 v) @ ws)" if "length ws \<le> 6" for u v ws
    using that assms put_put [of p "be16 u @ be16 v" ws "a_buf a"] by (simp add: numeral_eq_Suc)
  have 3: "put (put (a_buf a) p (be16 u @ be16 v @ be32 w)) (8 + p) ws = put (a_buf a) p ((be16 u @ be16 v @ be32 w) @ ws)"
    if "length ws \<le> 2" for u v w ws
    using that assms put_put [of p "be16 u @ be16 v @ be32 w" ws "a_buf a"] by (simp add: add.commute)
  show ?thesis
    using assms by (simp add: put_rr_hdr_def PUTINT16_be16 PUTINT32_be32 1 2 3 add.assoc)
qed

lemma put_bytes_run:
  assumes "n \<le> length src" and "a_sz a + n \<le> length (a_buf a)"
  shows "put_bytes src n a = Some (a\<lparr>a_buf := put (a_buf a) (a_sz a) (take n src), a_sz := a_sz a + n\<rparr>)"
  using assms by (simp add: put_bytes_def memcpy_def put_def add.commute)

text \<open>What \<open>add_rr\<close> does: the record is appended, or, in the additional section of an answer by UDP, left out.\<close>

definition added :: "msg_section \<Rightarrow> rrec \<Rightarrow> answer \<Rightarrow> answer \<Rightarrow> bool" where
  "added sect r a b \<longleftrightarrow> keeps {12..} (msg b) (\<lambda>M. has_rr M (a_sz a) r (a_sz b)) \<and> a_sz a < a_sz b \<and>
     (\<forall>h. get_hdr (a_buf a) = Some h \<longrightarrow> get_hdr (a_buf b) = Some (bump sect h)) \<and> names_known b (Nam (r_name r) # r_data r)"

definition left_out :: "answer \<Rightarrow> answer \<Rightarrow> bool" where
  "left_out a b \<longleftrightarrow> a_sz b = a_sz a \<and> msg b = msg a"

definition frame :: "answer \<Rightarrow> answer \<Rightarrow> bool" where
  "frame a b \<longleftrightarrow> agree {12..} (msg a) (msg b) \<and> a_sz a \<le> a_sz b \<and> a_fill b = a_fill a \<and>
     set (dl_elems (a_cb a)) \<subseteq> set (dl_elems (a_cb b)) \<and> (a_al a = [] \<longrightarrow> a_al b = [])"

definition rr_of :: "label list \<Rightarrow> nat \<Rightarrow> 32 word \<Rightarrow> field list \<Rightarrow> rrec" where
  "rr_of ls type ttl fs = \<lparr>r_name = ls, r_type = of_nat type, r_class = of_nat C_IN, r_ttl = ttl, r_data = fs\<rparr>"

definition add_rr_post ::
  "nat \<Rightarrow> msg_section \<Rightarrow> nat option \<Rightarrow> rrec \<Rightarrow> answer \<Rightarrow> bool \<times> answer \<Rightarrow> bool" where
  "add_rr_post K sect udp r a = (\<lambda>(res, b). (\<not> res \<longrightarrow> a_al a \<noteq> []) \<and> (res \<longrightarrow> frame a b \<and>
     (added sect r a b \<and> ans_ok K b \<and> \<not> (over_udp udp (a_sz b) \<and> sect = S_ADDITIONAL) \<or>
      left_out a b \<and> sect = S_ADDITIONAL \<and>
        over_udp udp (a_sz a + length (wire (r_name r)) + 10 + length (rdata_of (r_data r))) \<and>
        ((\<forall>ls. Nam ls \<notin> set (r_data r)) \<and> (r_name r = [] \<or> known (a_cb a) (r_name r) \<or> max_ptr < a_sz a) \<longrightarrow> ans_ok K b))))"

lemma agree_put: "p + length xs \<le> length P \<Longrightarrow> agree ({12..} - {p..<p + length xs}) P (put P p xs)"
  by (auto simp: agree_def nth_put)

lemma take_put_below: "p + length xs \<le> n \<Longrightarrow> n \<le> length b \<Longrightarrow> take n (put b p xs) = put (take n b) p xs"
  by (intro nth_equalityI) (auto simp: nth_put)

text \<open>The state after the name.\<close>

definition named :: "nat \<Rightarrow> label list \<Rightarrow> answer \<Rightarrow> answer \<Rightarrow> bool" where
  "named d x a b \<longleftrightarrow> (\<exists>W. msg b = msg a @ W \<and> 0 < length W \<and> length W \<le> length (wire x) \<and> length W \<le> 256 \<and>
     a_sz b = a_sz a + length W \<and> keeps {12..} (msg b) (\<lambda>M. msg_ok M (a_cb b) \<and> has_name M (a_sz a) x (length W))) \<and>
     a_sz b + 10 + d \<le> length (a_buf b) \<and> a_allocsz b = length (a_buf b) + 2 \<and> take 12 (a_buf b) = take 12 (a_buf a) \<and>
     dl_used (a_cb b) \<le> dl_used (a_cb a) + 275 \<and> set (dl_elems (a_cb a)) \<subseteq> set (dl_elems (a_cb b)) \<and>
     (known (a_cb b) x \<or> max_ptr < a_sz a) \<and> a_fill b = a_fill a \<and> (a_al a = [] \<longrightarrow> a_al b = []) \<and>
     (x = [] \<or> known (a_cb a) x \<or> max_ptr < a_sz a \<longrightarrow> keeps {12..} (msg a) (\<lambda>M. msg_ok M (a_cb b)))"

lemma add_rr_name_ok:
  assumes a: "ans_ok K a" and wf: "wf_name x" and K: "K + d \<le> 0x7fffffff"
  shows "ok (add_rr_name (wire x @ r) d a) (\<lambda>(res, b). (\<not> res \<longrightarrow> a_al a \<noteq> []) \<and> (res \<longrightarrow> named d x a b))"
proof -
  let ?P = "msg a" and ?osz = "a_sz a" and ?o = "replicate DNSNAMEBUFSIZE (a_fill a)"
  from a have a': "a_allocsz a = length (a_buf a) + 2" "12 \<le> ?osz" "?osz \<le> length (a_buf a)" "?osz \<le> K"
    "dl_used (a_cb a) \<le> 275 * K" "keeps {12..} ?P (\<lambda>M. msg_ok M (a_cb a))"
    by (auto simp: ans_ok_def dnsmsghdroffset_def)
  have P: "length ?P = ?osz" using a'(3) by simp
  have wl: "length (wire x) \<le> 256" using wf by (simp add: wf_name_def DNSNAMEBUFSIZE_def)
  obtain mem al where al: "malloc (a_al a) = (mem, al)" by (cases "malloc (a_al a)")
  have al0: "a_al a = [] \<longrightarrow> mem \<and> al = []" using al by auto
  have "{length ?P..} \<subseteq> {12..}" "dl_used (a_cb a) \<le> 2 ^ 61" "length (wire x) \<le> length ?o" "length ?P \<le> 0x7fffffff"
    using a' P wl K by (auto simp: DNSNAMEBUFSIZE_def)
  from compress_keeps [OF a'(6) this(1,2) wf this(3,4), of r mem] obtain n nbuf cb
    where run: "compress_name (wire x @ r) ?o ?osz (a_cb a) mem = Some (n, nbuf, cb)"
    and nb: "length nbuf = 256" "n \<le> length (wire x)" "n = 0 \<longrightarrow> \<not> mem"
    and pos: "n > 0 \<Longrightarrow> keeps {12..} (?P @ take n nbuf) (\<lambda>M. msg_ok M cb \<and> has_name M ?osz x n) \<and>
         dl_used cb \<le> dl_used (a_cb a) + 275 \<and> set (dl_elems (a_cb a)) \<subseteq> set (dl_elems cb) \<and>
         (known cb x \<or> max_ptr < ?osz) \<and> (x = [] \<or> known (a_cb a) x \<or> max_ptr < ?osz \<longrightarrow> keeps {12..} ?P (\<lambda>M. msg_ok M cb))"
    unfolding P by (auto simp: ok_def DNSNAMEBUFSIZE_def)
  have run': "compress_name (wire x @ r) ?o (?osz mod 4294967296) (a_cb a) mem = Some (n, nbuf, cb)"
    using run a'(4) K by simp
  show ?thesis
  proof (cases "n = 0")
    case True
    then have "ok (add_rr_name (wire x @ r) d a) (\<lambda>(res, b). \<not> res)" by (simp add: add_rr_name_def al run')
    moreover from True nb al have "a_al a \<noteq> []" by auto
    ultimately show ?thesis by (auto elim!: ok_mono)
  next
    case False
    let ?a1 = "a\<lparr>a_cb := cb, a_al := al\<rparr>" and ?need = "dnsmsghdroffset + ?osz + n + sizeof_rr_hdr + d"
    obtain res b where es: "ensure_space ?need ?a1 = (res, b)" by (cases "ensure_space ?need ?a1")
    have "a_allocsz ?a1 = length (a_buf ?a1) + 2" "?need + 0x7f < 2 ^ 64"
      using a' nb wl K by (auto simp: hdr_sizes)
    note es_ok = ensure_space_ok [OF this es]
    show ?thesis
    proof (cases res)
      case False
      with es_ok(1) \<open>n \<noteq> 0\<close> al0 show ?thesis by (auto simp: add_rr_name_def al run' es)
    next
      case True
      from es_ok(2) [OF this] obtain W where b: "a_buf b = a_buf a @ W" "a_allocsz b = length (a_buf b) + 2" "?need \<le> a_allocsz b"
        "a_sz b = ?osz" "a_cb b = cb" "a_fill b = a_fill a" "al = [] \<longrightarrow> a_al b = []" by auto
      have room: "a_sz b + n \<le> length (a_buf b)" "n \<le> length nbuf" using b(2,3,4) nb wl by (auto simp: hdr_sizes)
      let ?b = "b\<lparr>a_buf := put (a_buf b) (a_sz b) (take n nbuf), a_sz := a_sz b + n\<rparr>"
      have m: "msg ?b = ?P @ take n nbuf"
        using take_put_end [of "a_sz b" "a_buf b" "take n nbuf"] room b(1,4) a'(3) by simp
      have "take 12 (a_buf ?b) = take 12 (a_buf a)" using b(1,4) a'(2,3) by simp
      then have "named d x a ?b"
        using pos \<open>n \<noteq> 0\<close> b room nb wl al0 m unfolding named_def m
        by (intro conjI exI [of _ "take n nbuf"]) (auto simp: hdr_sizes)
      with \<open>n \<noteq> 0\<close> True show ?thesis by (simp add: add_rr_name_def al run' es put_bytes_run [OF room(2,1)])
    qed
  qed
qed

lemma get_hdr_cong:
  assumes "take 12 m = take 12 m'" and "12 \<le> length m" and "12 \<le> length m'"
  shows "get_hdr m = get_hdr m'"
proof -
  have r: "rd m i = rd m' i" if "i < 12" for i
    using that assms by (simp add: rd_def) (metis nth_take)
  then have "GETINT16 m i = GETINT16 m' i" if "Suc i < 12" for i
    using that by (simp add: GETINT16_def)
  with r show ?thesis unfolding get_hdr_def by (simp cong: Option.bind_cong)
qed

text \<open>The fixed part of the record, not yet filled in.\<close>

definition reserved :: "nat \<Rightarrow> nat set" where
  "reserved p = {12..} - {p..<p + 10}"

lemma named_reserve:
  assumes "named d x a b" and "12 \<le> a_sz a"
  shows "build (reserved (a_sz b)) (b\<lparr>a_sz := a_sz b + 10\<rparr>)"
proof -
  let ?b = "b\<lparr>a_sz := a_sz b + 10\<rparr>"
  from assms obtain W :: bytes where w: "a_sz b = a_sz a + length W" "keeps {12..} (msg b) (\<lambda>M. msg_ok M (a_cb b) \<and> has_name M (a_sz a) x (length W))"
    and l: "a_sz b + 10 + d \<le> length (a_buf b)" unfolding named_def by blast
  have "agree {12..} (msg b) M" if "agree (reserved (a_sz b)) (msg ?b) M" for M
    using that l by (auto simp: agree_def reserved_def)
  with w(2) have "keeps (reserved (a_sz b)) (msg ?b) (\<lambda>M. msg_ok M (a_cb b))" by (auto simp: keeps_def)
  with l w(1) assms(2) show ?thesis by (auto simp: build_def reserved_def)
qed

lemma finish_rr:
  assumes b: "named d x a b" and sz: "12 \<le> a_sz a" "a_sz a \<le> length (a_buf a)"
    and c: "adv (reserved (a_sz b)) (b\<lparr>a_sz := a_sz b + 10\<rparr>) fs 2 c" "a_sz c = a_sz b + 10 + m"
  shows "\<exists>e. (do { e \<leftarrow> put_rr_hdr type ttl m (a_sz b) c; count_rr sect e }) = Some e \<and> added sect (rr_of x type ttl fs) a e \<and>
    agree {12..} (msg a) (msg e) \<and> a_sz e = a_sz c \<and> a_cb e = a_cb c \<and> a_al e = a_al c \<and> a_fill e = a_fill c \<and> a_allocsz e = a_allocsz c \<and>
    length (a_buf e) = length (a_buf c) \<and> keeps {12..} (msg e) (\<lambda>M. msg_ok M (a_cb e))"
proof -
  let ?p = "a_sz b" and ?N = "reserved (a_sz b)" and ?b = "b\<lparr>a_sz := a_sz b + 10\<rparr>"
  let ?H = "be16 (of_nat type) @ be16 (of_nat C_IN) @ be32 ttl @ be16 (of_nat m)"
  from b obtain W :: bytes where W: "msg b = msg a @ W" "0 < length W" "?p = a_sz a + length W"
    "keeps {12..} (msg b) (\<lambda>M. msg_ok M (a_cb b) \<and> has_name M (a_sz a) x (length W))"
    and b12: "take 12 (a_buf b) = take 12 (a_buf a)" and nk: "known (a_cb b) x \<or> max_ptr < a_sz a"
    unfolding named_def by blast
  from c have g: "grown (275 * 2) ?b c" and w: "wrote ?N (?p + 10) fs c" and nkc: "names_known c fs" by (auto simp: adv_def)
  from g c(2) have len: "?p + 10 + m \<le> length (a_buf c)" and pre: "take (?p + 10) (a_buf c) = take (?p + 10) (a_buf b)"
    and mono: "set (dl_elems (a_cb b)) \<subseteq> set (dl_elems (a_cb c))" by (auto simp: grown_def)
  let ?c1 = "put (a_buf c) ?p ?H"
  have c1: "put_rr_hdr type ttl m ?p c = Some (c\<lparr>a_buf := ?c1\<rparr>)" using len by (intro put_rr_hdr_run) simp
  have len1: "12 \<le> length ?c1" "length ?c1 = length (a_buf c)" using len W(3) sz(1) by (auto simp del: append_assoc)
  obtain h where h: "get_hdr ?c1 = Some h" using get_hdr_Some [OF len1(1)] by blast
  have "take 12 ?c1 = take 12 (take (?p + 10) (a_buf c))" using len W(3) sz(1) by (simp add: min_def)
  also have "\<dots> = take 12 (a_buf a)" unfolding pre using W(3) sz(1) b12 by (simp add: min_def)
  finally have ha: "get_hdr (a_buf a) = Some h" using get_hdr_cong [of ?c1 "a_buf a"] len1(1) sz h by simp
  obtain v where v: "count_rr sect (c\<lparr>a_buf := ?c1\<rparr>) = Some (c\<lparr>a_buf := put ?c1 (count_at sect) (be16 v)\<rparr>)"
    "get_hdr (put ?c1 (count_at sect) (be16 v)) = Some (bump sect h)"
    using count_rr_ok [of "c\<lparr>a_buf := ?c1\<rparr>" h sect] len1(1) h by auto
  let ?e = "c\<lparr>a_buf := put ?c1 (count_at sect) (be16 v)\<rparr>"
  have at: "count_at sect + 2 \<le> 12" by (cases sect) (auto simp: count_at_def)
  have nth: "msg ?e ! i = (if ?p \<le> i \<and> i < ?p + 10 then ?H ! (i - ?p) else msg c ! i)" if "12 \<le> i" "i < a_sz c" for i
    using that at len c(2) by (auto simp: nth_put simp del: append_assoc)
  have lc: "length (msg ?e) = a_sz c" "length (msg c) = a_sz c" using len len1 c(2) at by auto
  have aN: "agree ?N (msg c) (msg ?e)" using nth lc by (auto simp: agree_def reserved_def)
  have ab: "agree {12..} (msg b) (msg ?e)"
  proof -
    have "msg c ! i = msg b ! i" if "i < ?p" for i
      using arg_cong [OF pre, of "\<lambda>xs. xs ! i"] that len c(2) by simp
    then show ?thesis using nth lc c(2) len by (auto simp: agree_def)
  qed
  have H: "take 10 (drop ?p M) = ?H \<and> ?p + 10 \<le> length M" if "agree {12..} (msg ?e) M" for M
  proof -
    have l: "?p + 10 \<le> length M" using that lc c(2) by (auto simp: agree_def)
    moreover have "M ! (?p + i) = ?H ! i" if "i < 10" for i
    proof -
      have "M ! (?p + i) = msg ?e ! (?p + i)"
        using \<open>agree {12..} (msg ?e) M\<close> that lc c(2) W(3) sz(1) unfolding agree_def by simp
      also have "\<dots> = ?H ! i" using nth [of "?p + i"] that W(3) sz(1) c(2) by simp
      finally show ?thesis .
    qed
    ultimately show ?thesis by (intro conjI nth_equalityI) auto
  qed
  have sub: "?N \<subseteq> {12..}" by (auto simp: reserved_def)
  have wf: "keeps ?N (msg c) (\<lambda>M. has_fields M (?p + 10) fs (a_sz c))" and wb: "keeps ?N (msg c) (\<lambda>M. msg_ok M (a_cb c))"
    using w by (simp_all add: wrote_def build_def)
  have rr: "keeps {12..} (msg ?e) (\<lambda>M. has_rr M (a_sz a) (rr_of x type ttl fs) (a_sz c))"
    unfolding keeps_def
  proof (intro allI impI)
    fix M assume M: "agree {12..} (msg ?e) M"
    have "has_name M (a_sz a) x (length W)" using keepsD [OF W(4) agree_trans [OF ab M]] by blast
    moreover have "has_fields M (?p + 10) fs (a_sz c)"
      by (rule keepsD [OF wf agree_trans [OF aN agree_mono [OF M sub]]])
    ultimately show "has_rr M (a_sz a) (rr_of x type ttl fs) (a_sz c)"
      unfolding has_rr_def using H [OF M] W(3) c(2) by (intro exI [of _ "length W"]) (simp add: rr_of_def)
  qed
  have "names_known ?e (Nam x # fs)"
    using nk nkc known_mono [OF _ mono] W(3) c(2) by (auto simp: names_known_def)
  with rr v(2) ha W(2,3) c(2) have ad: "added sect (rr_of x type ttl fs) a ?e" by (simp add: added_def rr_of_def)
  have "agree {12..} (msg a) (msg b)" unfolding W(1) by (rule agree_append)
  then have "agree {12..} (msg a) (msg ?e)" using ab by (rule agree_trans)
  moreover have "keeps {12..} (msg ?e) (\<lambda>M. msg_ok M (a_cb c))"
    by (rule keeps_narrow [OF wb aN sub])
  moreover have "length (a_buf ?e) = length (a_buf c)" using len1 at by simp
  ultimately show ?thesis using c1 v(1) ad by (intro exI [of _ ?e] conjI) simp_all
qed

lemma add_rr_ok:
  assumes a: "ans_ok K a" and wf: "wf_name x" and fits: "fits type fs"
    and K: "K + 266 + length (rdata_of fs) \<le> 0x7fffffff"
  shows "ok (add_rr (wire x @ r1) type ttl (length (rdata_of fs)) (rdata_of fs @ r2) sect udp a)
    (add_rr_post (K + 266 + length (rdata_of fs)) sect udp (rr_of x type ttl fs) a)"
proof -
  let ?d = "length (rdata_of fs)"
  let ?Q = "add_rr_post (K + 266 + ?d) sect udp (rr_of x type ttl fs) a"
  from a have sz: "12 \<le> a_sz a" "a_sz a \<le> length (a_buf a)" "a_sz a \<le> K" and used: "dl_used (a_cb a) \<le> 275 * K"
    by (auto simp: ans_ok_def)
  have fail: "?Q (False, e)" if "a_al a \<noteq> []" for e using that by (simp add: add_rr_post_def)
  from add_rr_name_ok [OF a wf, of ?d r1] K obtain res b where name: "add_rr_name (wire x @ r1) ?d a = Some (res, b)"
    and res: "\<not> res \<longrightarrow> a_al a \<noteq> []" "res \<longrightarrow> named ?d x a b" by (auto simp: ok_def)
  show ?thesis
  proof (cases res)
    case False
    with res(1) fail show ?thesis by (simp add: add_rr_def name)
  next
    case True
    with res(2) have b: "named ?d x a b" by simp
    let ?b = "b\<lparr>a_sz := a_sz b + 10\<rparr>"
    obtain W :: bytes where W: "msg b = msg a @ W" "a_sz b = a_sz a + length W" "length W \<le> 256" "length W \<le> length (wire x)"
      and bl: "a_sz b + 10 + ?d \<le> length (a_buf b)" "a_allocsz b = length (a_buf b) + 2" "dl_used (a_cb b) \<le> dl_used (a_cb a) + 275"
        "set (dl_elems (a_cb a)) \<subseteq> set (dl_elems (a_cb b))" "a_fill b = a_fill a" "a_al a = [] \<longrightarrow> a_al b = []"
      and undo: "x = [] \<or> known (a_cb a) x \<or> max_ptr < a_sz a \<longrightarrow> keeps {12..} (msg a) (\<lambda>M. msg_ok M (a_cb b))"
      using b unfolding named_def by blast
    have "roomy ?b fs" using bl W(2,3) sz(3) used K by (simp add: roomy_def)
    from add_rdata_ok [OF named_reserve [OF b sz(1)] fits this, of r2] obtain r c
      where run: "add_rdata type ?d (rdata_of fs @ r2) ?b = Some (r, c)" and post: "rdata_post (reserved (a_sz b)) ?b fs (r, c)"
      by (auto simp: ok_def)
    show ?thesis
    proof (cases r)
      case None
      with post bl(6) fail True show ?thesis by (auto simp: add_rr_def name run rdata_post_def hdr_sizes)
    next
      case (Some m)
      with post have c: "a_sz c = a_sz b + 10 + m" "adv (reserved (a_sz b)) ?b fs 2 c" by (auto simp: rdata_post_def)
      then have g: "grown (275 * 2) ?b c" and csz: "a_sz c \<le> a_sz b + 10 + ?d" by (auto simp: adv_def)
      from g have cl: "length (a_buf c) = length (a_buf b)" "a_allocsz c = a_allocsz b" "dl_used (a_cb c) \<le> dl_used (a_cb b) + 550"
        "set (dl_elems (a_cb b)) \<subseteq> set (dl_elems (a_cb c))" "a_fill c = a_fill b" "a_al b = [] \<longrightarrow> a_al c = []"
        "take (a_sz b + 10) (a_buf c) = take (a_sz b + 10) (a_buf b)"
        by (auto simp: grown_def)
      show ?thesis
      proof (cases "over_udp udp (a_sz c) \<and> sect = S_ADDITIONAL")
        case over: True
        let ?e = "c\<lparr>a_sz := a_sz a\<rparr>"
        have "msg ?e = take (a_sz a) (take (a_sz b + 10) (a_buf c))" using W(2) by (simp add: min_def)
        also have "\<dots> = take (a_sz a) (msg b)" unfolding cl(7) using W(2) by (simp add: min_def)
        also have "\<dots> = msg a" using W sz by simp
        finally have m: "msg ?e = msg a" .
        have "ans_ok (K + 266 + ?d) ?e" if "\<forall>ls. Nam ls \<notin> set fs" "x = [] \<or> known (a_cb a) x \<or> max_ptr < a_sz a"
        proof -
          have "a_cb c = a_cb b" using c(2) that(1) by (auto simp: adv_def)
          with undo that(2) have "keeps {12..} (msg ?e) (\<lambda>M. msg_ok M (a_cb ?e))" unfolding m by simp
          with sz used bl cl W \<open>a_cb c = a_cb b\<close> show ?thesis by (simp add: ans_ok_def hdr_sizes)
        qed
        moreover have "frame a ?e" using bl cl by (auto simp: frame_def m [simplified])
        moreover have "over_udp udp (a_sz a + length (wire x) + 10 + ?d)"
          using over csz W(2,4) by (auto simp: over_udp_def split: option.splits)
        ultimately have "?Q (True, ?e)" using over m by (auto simp: add_rr_post_def left_out_def rr_of_def)
        with True Some over show ?thesis by (simp add: add_rr_def name run hdr_sizes)
      next
        case False
        from finish_rr [OF b sz(1,2) c(2,1), of type ttl sect] obtain e
          where fin: "(do { e \<leftarrow> put_rr_hdr type ttl m (a_sz b) c; count_rr sect e }) = Some e" and e: "added sect (rr_of x type ttl fs) a e"
            "agree {12..} (msg a) (msg e)" "a_sz e = a_sz c" "a_cb e = a_cb c" "a_al e = a_al c" "a_fill e = a_fill c" "a_allocsz e = a_allocsz c"
            "length (a_buf e) = length (a_buf c)" "keeps {12..} (msg e) (\<lambda>M. msg_ok M (a_cb e))" by blast
        have "ans_ok (K + 266 + ?d) e" using e sz used bl cl W csz c(1) by (simp add: ans_ok_def hdr_sizes)
        moreover have "frame a e" using e(2-6) bl cl W(2) c(1) by (auto simp: frame_def)
        ultimately have "?Q (True, e)" using e(1,3) False by (auto simp: add_rr_post_def)
        with True Some False fin show ?thesis
          by (auto simp: add_rr_def name run hdr_sizes bind_eq_Some_conv)
      qed
    qed
  qed
qed

section \<open>OPT records\<close>

definition opt_ttl :: "16 word \<Rightarrow> 16 word \<Rightarrow> 16 word \<Rightarrow> 32 word" where
  "opt_ttl rcode ednsver Z = push_bit 24 (ucast (ucast (drop_bit 4 rcode) :: byte)) OR
     push_bit 16 (ucast (ucast ednsver :: byte)) OR ucast Z"

definition opt_rr :: "16 word \<Rightarrow> 16 word \<Rightarrow> 16 word \<Rightarrow> 16 word \<Rightarrow> rrec" where
  "opt_rr udpsize rcode ednsver Z =
     \<lparr>r_name = [], r_type = of_nat T_OPT, r_class = udpsize, r_ttl = opt_ttl rcode ednsver Z, r_data = []\<rparr>"

lemma be32_opt_ttl: "be32 (opt_ttl rcode ver Z) = [ucast (drop_bit 4 rcode), ucast ver] @ be16 Z"
proof -
  have e: "ucast (drop_bit 24 (opt_ttl rcode ver Z)) = (ucast (drop_bit 4 rcode) :: byte)"
    "ucast (drop_bit 16 (opt_ttl rcode ver Z)) = (ucast ver :: byte)"
    "ucast (drop_bit 8 (opt_ttl rcode ver Z)) = (ucast (drop_bit 8 Z) :: byte)"
    "ucast (opt_ttl rcode ver Z) = (ucast Z :: byte)"
    unfolding opt_ttl_def by (rule bit_word_eqI, auto simp: bit_simps dest: bit_imp_le_length)+
  show ?thesis by (simp add: be32_def be16_def e)
qed

definition opt_bytes :: "16 word \<Rightarrow> 16 word \<Rightarrow> 16 word \<Rightarrow> 16 word \<Rightarrow> bytes" where
  "opt_bytes udpsize rcode ednsver Z =
     0 # be16 (of_nat T_OPT) @ be16 udpsize @ be32 (opt_ttl rcode ednsver Z) @ be16 0"

lemma length_opt_bytes [simp]: "length (opt_bytes udpsize rcode ednsver Z) = 11"
  by (simp add: opt_bytes_def)

lemma add_opt_run:
  assumes "ensure_space (dnsmsghdroffset + a_sz a + sizeof_opt_pseudo_rr) a = (True, b)" and "a_sz b + 11 \<le> length (a_buf b)"
  shows "add_opt_pseudo_rr udpsize rcode ver Z a = do {
     e \<leftarrow> count_rr S_ADDITIONAL (b\<lparr>a_buf := put (a_buf b) (a_sz b) (opt_bytes udpsize rcode ver Z), a_sz := a_sz b + 11\<rparr>);
     Some (True, e) }"
proof -
  let ?p = "a_sz b" and ?m = "a_buf b"
  have pp: "put (put ?m ?p xs) (?p + n) ys = put ?m ?p (xs @ ys)" if "n = length xs" "length xs + length ys \<le> 11" for xs ys n
    using that assms(2) put_put [of ?p xs ys ?m] by simp
  have len: "length (put ?m ?p xs) = length ?m" if "length xs \<le> 11" for xs using that assms(2) by simp
  have 0: "wr ?m ?p 0 = Some (put ?m ?p [0])" using assms(2) by (simp add: put_single)
  have 1: "PUTINT16 v (put ?m ?p xs) (?p + n) = Some (put ?m ?p (xs @ be16 v), ?p + (n + 2))" if "n = length xs" "n \<le> 9" for v xs n
    using that assms(2) pp [of n xs "be16 v"] len [of xs] by (simp add: PUTINT16_be16)
  have 2: "wr (put ?m ?p xs) (?p + n) v = Some (put ?m ?p (xs @ [v]))" if "n = length xs" "n \<le> 10" for v xs n
    using that assms(2) pp [of n xs "[v]"] len [of xs] by (simp add: put_single)
  show ?thesis
    unfolding add_opt_pseudo_rr_def assms(1) Let_def prod.case be32_opt_ttl opt_bytes_def
    using 1 [of 1 "[0]" "of_nat T_OPT"] 1 [of 3 "0 # be16 (of_nat T_OPT)" udpsize]
      2 [of 5 "0 # be16 (of_nat T_OPT) @ be16 udpsize" "ucast (drop_bit 4 rcode)"]
      2 [of 6 "0 # be16 (of_nat T_OPT) @ be16 udpsize @ [ucast (drop_bit 4 rcode)]" "ucast ver"]
      1 [of 7 "0 # be16 (of_nat T_OPT) @ be16 udpsize @ [ucast (drop_bit 4 rcode), ucast ver]" Z]
      1 [of 9 "0 # be16 (of_nat T_OPT) @ be16 udpsize @ [ucast (drop_bit 4 rcode), ucast ver] @ be16 Z" 0]
    by (simp add: 0 hdr_sizes numeral_eq_Suc)
qed

lemma opt_has_rr:
  assumes "take 11 (drop i M) = opt_bytes udpsize rcode ver Z"
  shows "has_rr M i (opt_rr udpsize rcode ver Z) (i + 11)"
proof -
  let ?B = "opt_bytes udpsize rcode ver Z"
  have "length (take 11 (drop i M)) = 11" unfolding assms by simp
  then have len: "i + 11 \<le> length M" by simp
  have "M ! i = ?B ! 0" using arg_cong [OF assms, of "\<lambda>xs. xs ! 0"] len by simp
  then have z: "rd M i = Some 0" using len by (simp add: opt_bytes_def)
  have "take 10 (drop (Suc i) M) = tl (take 11 (drop i M))" by (simp add: tl_take drop_Suc tl_drop)
  then have t: "take 10 (drop (i + 1) M) = be16 (of_nat T_OPT) @ be16 udpsize @ be32 (opt_ttl rcode ver Z) @ be16 0"
    unfolding assms by (simp add: opt_bytes_def)
  have "has_name M i [] 1"
    using decodes_end [OF z] occupies_end [OF z] by (auto simp: has_name_def holds_name_def fold_name_def)
  then show ?thesis
    unfolding has_rr_def using len t by (intro exI [of _ 1]) (simp add: opt_rr_def)
qed

lemma add_opt_ok:
  assumes a: "ans_ok K a" and K: "K + 11 \<le> 0x7fffffff"
  shows "ok (add_opt_pseudo_rr udpsize rcode ver Z a) (\<lambda>(res, b). (\<not> res \<longrightarrow> a_al a \<noteq> []) \<and>
    (res \<longrightarrow> frame a b \<and> added S_ADDITIONAL (opt_rr udpsize rcode ver Z) a b \<and> ans_ok (K + 11) b \<and> a_sz b = a_sz a + 11 \<and>
       take 10 (msg b) = take 10 (msg a) \<and> drop 12 (msg b) = drop 12 (msg a) @ opt_bytes udpsize rcode ver Z))"
proof -
  let ?need = "dnsmsghdroffset + a_sz a + sizeof_opt_pseudo_rr" and ?B = "opt_bytes udpsize rcode ver Z"
  from a have a': "a_allocsz a = length (a_buf a) + 2" "12 \<le> a_sz a" "a_sz a \<le> length (a_buf a)" "a_sz a \<le> K"
    "dl_used (a_cb a) \<le> 275 * K" "keeps {12..} (msg a) (\<lambda>M. msg_ok M (a_cb a))"
    by (auto simp: ans_ok_def dnsmsghdroffset_def)
  obtain res b where es: "ensure_space ?need a = (res, b)" by (cases "ensure_space ?need a")
  have "?need + 0x7f < 2 ^ 64" using a'(4) K by (simp add: hdr_sizes)
  note es_ok = ensure_space_ok [OF a'(1) this es]
  show ?thesis
  proof (cases res)
    case False
    with es_ok(1) show ?thesis by (simp add: add_opt_pseudo_rr_def es)
  next
    case True
    from es_ok(2) [OF this] obtain W where b: "a_buf b = a_buf a @ W" "a_allocsz b = length (a_buf b) + 2" "?need \<le> a_allocsz b"
      "a_sz b = a_sz a" "a_cb b = a_cb a" "a_fill b = a_fill a" "a_al a = [] \<longrightarrow> a_al b = []" by auto
    have room: "a_sz a + 11 \<le> length (a_buf b)" using b(2,3) by (simp add: hdr_sizes)
    let ?c = "b\<lparr>a_buf := put (a_buf b) (a_sz b) ?B, a_sz := a_sz b + 11\<rparr>"
    have len: "12 \<le> length (a_buf ?c)" using room b(4) a'(2) by simp
    obtain h where h: "get_hdr (a_buf a) = Some h" using get_hdr_Some [of "a_buf a"] a'(2,3) by auto
    have "get_hdr (a_buf ?c) = get_hdr (a_buf a)"
      using len b(1,4) a'(2,3) by (intro get_hdr_cong) auto
    then obtain v where v: "count_rr S_ADDITIONAL ?c = Some (?c\<lparr>a_buf := put (a_buf ?c) 10 (be16 v)\<rparr>)"
      "get_hdr (put (a_buf ?c) 10 (be16 v)) = Some (bump S_ADDITIONAL h)"
      using count_rr_ok [OF len, of h S_ADDITIONAL] h by (auto simp: count_at_def)
    let ?e = "?c\<lparr>a_buf := put (a_buf ?c) 10 (be16 v)\<rparr>"
    have run: "add_opt_pseudo_rr udpsize rcode ver Z a = Some (True, ?e)"
      using add_opt_run [of a b] es True room b(4) v(1) by simp
    have me: "msg ?e = put (msg a @ ?B) 10 (be16 v)"
      using room b(1,4) a'(2,3) take_put_end [of "a_sz a" "a_buf b" ?B] by (simp add: take_put_below)
    have lm: "length (msg a @ ?B) = a_sz a + 11" using a'(3) by simp
    have dr: "take 10 (msg ?e) = take 10 (msg a)" "drop 12 (msg ?e) = drop 12 (msg a) @ ?B"
      unfolding me using a'(2,3) by (simp_all add: put_def)
    have ag: "agree {12..} (msg a @ ?B) (msg ?e)" unfolding me using lm a'(2) by (auto simp: agree_def nth_put)
    have "agree {12..} (msg a) (msg ?e)" using agree_append ag by (rule agree_trans)
    moreover from keeps_agree [OF a'(6) this] have "keeps {12..} (msg ?e) (\<lambda>M. msg_ok M (a_cb a))" .
    moreover have "keeps {12..} (msg ?e) (\<lambda>M. has_rr M (a_sz a) (opt_rr udpsize rcode ver Z) (a_sz a + 11))"
      unfolding keeps_def
    proof (intro allI impI, rule opt_has_rr)
      fix M assume "agree {12..} (msg ?e) M"
      then have "agree {12..} (msg a @ ?B) M" using ag agree_trans by blast
      from agree_dropD [OF this] a'(2,3) lm obtain R where "M = take (a_sz a) M @ ?B @ R" "length (take (a_sz a) M) = a_sz a" by auto
      then have "drop (a_sz a) M = ?B @ R" by (metis append_eq_conv_conj)
      then show "take 11 (drop (a_sz a) M) = ?B" by simp
    qed
    moreover have "names_known ?e [Nam []]" by (simp add: names_known_def)
    ultimately have "frame a ?e" "added S_ADDITIONAL (opt_rr udpsize rcode ver Z) a ?e" "ans_ok (K + 11) ?e" "a_sz ?e = a_sz a + 11"
      using b a' room h v(2) by (simp_all add: frame_def added_def ans_ok_def opt_rr_def dnsmsghdroffset_def)
    with dr show ?thesis unfolding run ok_simps prod.case by blast
  qed
qed


lemma remove_opt_ok:
  assumes len: "sz + 11 \<le> length ans" and "12 \<le> sz" and t: "take 11 (drop sz ans) = opt_bytes udpsize rcode ver Z"
    and hdr: "get_hdr ans = Some h" and n: "h_arcount h \<noteq> 0"
  shows "remove_opt_pseudo_rr ans (sz + 11) = Some (sz, put ans 10 (be16 (h_arcount h - 1)))"
proof -
  let ?B = "opt_bytes udpsize rcode ver Z"
  have r: "rd ans (sz + i) = Some (?B ! i)" if "i < 11" for i
    using that len arg_cong [OF t, of "\<lambda>xs. xs ! i"] by (simp add: rd_def)
  have b: "rd ans sz = Some 0" using r [of 0] by (simp add: opt_bytes_def)
  have "take 2 (drop (Suc sz) ans) = take 2 (tl (take 11 (drop sz ans)))" by (simp add: tl_take drop_Suc tl_drop take_take)
  then have "take 2 (drop (Suc sz) ans) = be16 (of_nat T_OPT)" unfolding t by (simp add: opt_bytes_def)
  then have ty: "GETINT16 ans (Suc sz) = Some (of_nat T_OPT, Suc sz + 2)" by (rule GETINT16_be16)
  obtain k where ar: "GETINT16 ans 10 = Some (h_arcount h, k)" using hdr by (auto simp: get_hdr_def bind_eq_Some_conv)
  have "0 < h_arcount h" using n by (simp add: word_gt_0)
  moreover have "unat (of_nat T_OPT :: 16 word) = T_OPT" by (simp add: T_OPT_def)
  moreover have "PUTINT16 v ans 10 = Some (put ans 10 (be16 v), 12)" for v using assms(1,2) by (simp add: PUTINT16_be16)
  ultimately show ?thesis
    using ar b ty assms(2) unfolding remove_opt_pseudo_rr_def hdr_sizes by (simp add: usub_def)
qed


lemma GETINT16_bytes: "GETINT16 m i = Some (v, k) \<Longrightarrow> take 2 (drop i m) = be16 v"
proof -
  assume g: "GETINT16 m i = Some (v, k)"
  then obtain x y where xy: "rd m i = Some x" "rd m (Suc i) = Some y" "v = push_bit 8 (ucast x) OR ucast y"
    by (auto simp: GETINT16_def bind_eq_Some_conv)
  then have "take 2 (drop i m) = [x, y]"
    by (intro nth_equalityI) (auto simp: rd_def less_Suc_eq numeral_2_eq_2 split: if_splits)
  moreover have "be16 v = [x, y]"
    unfolding be16_def xy(3) using bit_imp_le_length [of y]
    by (auto intro!: bit_word_eqI simp: bit_simps) fastforce+
  ultimately show ?thesis by simp
qed

lemma opt_round_trip_aux:
  assumes "get_hdr (a_buf a) = Some h" and "12 \<le> a_sz a" "a_sz a \<le> length (a_buf a)" "a_sz b \<le> length (a_buf b)" "a_sz b = a_sz a + 11"
    and "take 10 (msg b) = take 10 (msg a)" "drop 12 (msg b) = drop 12 (msg a) @ B"
  shows "take (a_sz a) (put (a_buf b) 10 (be16 (h_arcount h))) = msg a"
proof -
  obtain k where "GETINT16 (a_buf a) 10 = Some (h_arcount h, k)"
    using assms(1) by (auto simp: get_hdr_def bind_eq_Some_conv)
  then have "take 2 (drop 10 (a_buf a)) = be16 (h_arcount h)" by (rule GETINT16_bytes)
  then have m: "take 2 (drop 10 (msg a)) = be16 (h_arcount h)" using assms(2,3) by (auto simp: drop_take min_def)
  have b12: "take (a_sz a - 12) (drop 12 (msg b)) = drop 12 (msg a)" unfolding assms(7) using assms(3) by simp
  have "take (a_sz a) (put (a_buf b) 10 (be16 (h_arcount h))) = take 10 (msg b) @ be16 (h_arcount h) @ take (a_sz a - 12) (drop 12 (msg b))"
    using assms(2-5) by (simp add: put_def drop_take min_def)
  also have "\<dots> = take 10 (msg a) @ take 2 (drop 10 (msg a)) @ drop 12 (msg a)" unfolding b12 m assms(6) ..
  also have "\<dots> = msg a" using append_take_drop_id [of 10 "msg a"] append_take_drop_id [of 2 "drop 10 (msg a)"] by simp
  finally show ?thesis .
qed


section \<open>Properties\<close>

text \<open>
  C39. \<open>add_rr\<close> on an answer under construction never fails an assertion or leaves its buffers, and returns 0 only
  when an allocation fails. Otherwise the record stands at the end of the message, with its type, class and time to live,
  the right length of its data, and all names in it decoding (up to case) to those of the record in the cache although they
  may be compressed; only the count of its section changes in the header. Or the section is the additional one, the
  limit of UDP could be exceeded, and the message is as before. In both cases every record that was in the message can still be
  read from it.
\<close>

theorem add_rr_reads_back:
  assumes "ans_ok K a" and "wf_name x" and "fits type fs" and "K + 266 + length (rdata_of fs) \<le> 0x7fffffff"
  shows "ok (add_rr (wire x) type ttl (length (rdata_of fs)) (rdata_of fs) sect udp a) (\<lambda>(res, b).
    (\<not> res \<longrightarrow> a_al a \<noteq> []) \<and>
    (res \<longrightarrow> has_rr (msg b) (a_sz a) (rr_of x type ttl fs) (a_sz b) \<and>
        get_hdr (a_buf b) = map_option (bump sect) (get_hdr (a_buf a)) \<and> ans_ok (K + 266 + length (rdata_of fs)) b \<and>
        \<not> (over_udp udp (a_sz b) \<and> sect = S_ADDITIONAL) \<or>
      sect = S_ADDITIONAL \<and> over_udp udp (a_sz a + length (wire x) + 10 + length (rdata_of fs)) \<and> msg b = msg a) \<and>
    (res \<longrightarrow> (\<forall>i r j. keeps {12..} (msg a) (\<lambda>M. has_rr M i r j) \<longrightarrow> has_rr (msg b) i r j)))"
proof -
  let ?r = "rr_of x type ttl fs" and ?K = "K + 266 + length (rdata_of fs)"
  have "\<exists>h. get_hdr (a_buf a) = Some h" using assms(1) by (intro get_hdr_Some) (simp add: ans_ok_def)
  then obtain h where h: "get_hdr (a_buf a) = Some h" ..
  from add_rr_ok [OF assms, of "[]" ttl "[]" sect udp]
  have "ok (add_rr (wire x) type ttl (length (rdata_of fs)) (rdata_of fs) sect udp a) (add_rr_post ?K sect udp ?r a)" by simp
  then show ?thesis
  proof (rule ok_mono, clarify, intro conjI impI allI)
    fix res b assume post: "add_rr_post ?K sect udp ?r a (res, b)"
    show "\<not> res \<Longrightarrow> a_al a \<noteq> []" using post by (simp add: add_rr_post_def)
    assume res
    with post have "frame a b" and alt: "(added sect ?r a b \<and> ans_ok ?K b \<and> \<not> (over_udp udp (a_sz b) \<and> sect = S_ADDITIONAL)) \<or>
      (left_out a b \<and> sect = S_ADDITIONAL \<and> over_udp udp (a_sz a + length (wire x) + 10 + length (rdata_of fs)))"
      by (auto simp: add_rr_post_def rr_of_def)
    then show "has_rr (msg b) (a_sz a) ?r (a_sz b) \<and> get_hdr (a_buf b) = map_option (bump sect) (get_hdr (a_buf a)) \<and>
        ans_ok ?K b \<and> \<not> (over_udp udp (a_sz b) \<and> sect = S_ADDITIONAL) \<or>
      sect = S_ADDITIONAL \<and> over_udp udp (a_sz a + length (wire x) + 10 + length (rdata_of fs)) \<and> msg b = msg a"
      unfolding added_def left_out_def h using h by (auto dest: keeps_self)
    fix i r j assume "keeps {12..} (msg a) (\<lambda>M. has_rr M i r j)"
    with \<open>frame a b\<close> show "has_rr (msg b) i r j" unfolding frame_def by (blast dest: keepsD)
  qed
qed

text \<open>An answer that so far holds a header only.\<close>

definition sample_answer :: answer where
  "sample_answer = \<lparr>a_buf = [0, 7, 0x81, 0x80, 0, 0, 0, 0, 0, 0, 0, 0], a_sz = 12, a_allocsz = 14, a_cb = None, a_al = [], a_fill = 0\<rparr>"

lemma sample_answer_ok: "ans_ok 12 sample_answer"
  by (simp add: sample_answer_def ans_ok_def dnsmsghdroffset_def keeps_def msg_ok_None dl_used_def)

theorem add_rr_reads_back_witness:
  "\<exists>b. add_rr (wire [[97], [98]]) T_NS 60 (length (wire [[99], [98]])) (wire [[99], [98]]) S_ANSWER None sample_answer = Some (True, b) \<and>
    has_rr (msg b) 12 (rr_of [[97], [98]] T_NS 60 [Nam [[99], [98]]]) (a_sz b)"
proof -
  have "wf_name [[97], [98]]" "wf_name [[99], [98]]" by (auto simp: wf_name_def wf_label_def DNSNAMEBUFSIZE_def)
  moreover from this have "fits T_NS [Nam [[99], [98]]]" by (simp add: fits_def)
  ultimately show ?thesis
    using add_rr_reads_back [OF sample_answer_ok, of "[[97], [98]]" T_NS "[Nam [[99], [98]]]" 60 S_ANSWER None]
    by (auto simp: ok_def over_udp_def sample_answer_def)
qed

text \<open>
  C40. \<open>add_opt_pseudo_rr\<close> and \<open>remove_opt_pseudo_rr\<close> are inverse: the OPT record added, which
  carries the UDP size, the upper bits of the response code, the version and the flags, is recognised and removed again, and
  the message is the one before, including its count of additional records.
\<close>

theorem opt_round_trip:
  assumes "ans_ok K a" and "K + 11 \<le> 0x7fffffff" and "get_hdr (a_buf a) = Some h" and "h_arcount h \<noteq> 0xffff"
  shows "ok (add_opt_pseudo_rr udpsize rcode ver Z a) (\<lambda>(res, b). (\<not> res \<longrightarrow> a_al a \<noteq> []) \<and>
    (res \<longrightarrow> has_rr (msg b) (a_sz a) (opt_rr udpsize rcode ver Z) (a_sz b) \<and> ans_ok (K + 11) b \<and>
      ok (remove_opt_pseudo_rr (a_buf b) (a_sz b)) (\<lambda>(sz, buf). sz = a_sz a \<and> take sz buf = msg a)))"
proof -
  obtain res b where run: "add_opt_pseudo_rr udpsize rcode ver Z a = Some (res, b)" and no: "\<not> res \<longrightarrow> a_al a \<noteq> []"
    and yes: "res \<Longrightarrow> added S_ADDITIONAL (opt_rr udpsize rcode ver Z) a b \<and>
      ans_ok (K + 11) b \<and> a_sz b = a_sz a + 11 \<and> take 10 (msg b) = take 10 (msg a) \<and>
      drop 12 (msg b) = drop 12 (msg a) @ opt_bytes udpsize rcode ver Z"
    using add_opt_ok [OF assms(1,2), of udpsize rcode ver Z] unfolding ok_def by auto
  show ?thesis
  proof (cases res)
    case False
    with run no show ?thesis by simp
  next
    case True
    from yes [OF True] have b: "added S_ADDITIONAL (opt_rr udpsize rcode ver Z) a b" "ans_ok (K + 11) b" "a_sz b = a_sz a + 11"
      "take 10 (msg b) = take 10 (msg a)" "drop 12 (msg b) = drop 12 (msg a) @ opt_bytes udpsize rcode ver Z" by blast+
    have "has_rr (msg b) (a_sz a) (opt_rr udpsize rcode ver Z) (a_sz b)" using b(1) keeps_self unfolding added_def by blast
    from assms(1) b(2) have sz: "12 \<le> a_sz a" "a_sz a \<le> length (a_buf a)" "a_sz b \<le> length (a_buf b)" by (simp_all add: ans_ok_def)
    have hb: "get_hdr (a_buf b) = Some (bump S_ADDITIONAL h)" using b(1) assms(3) by (simp add: added_def)
    have "h_arcount h + 1 \<noteq> 0" using assms(4) by (auto simp: add_eq_0_iff2)
    have "drop (a_sz a) (msg b) = drop (a_sz a - 12) (drop 12 (msg b))" using sz(1) by simp
    also have "\<dots> = opt_bytes udpsize rcode ver Z" unfolding b(5) using sz(2) by simp
    finally have "take 11 (drop (a_sz a) (a_buf b)) = opt_bytes udpsize rcode ver Z" using b(3) by (simp add: drop_take)
    from remove_opt_ok [OF _ sz(1) this hb] b(3) sz(3) \<open>h_arcount h + 1 \<noteq> 0\<close>
    have "remove_opt_pseudo_rr (a_buf b) (a_sz b) = Some (a_sz a, put (a_buf b) 10 (be16 (h_arcount h)))" by (simp add: bump_def)
    with opt_round_trip_aux [OF assms(3) sz b(3-5)] b(2) \<open>has_rr _ _ _ _\<close> run no show ?thesis by simp
  qed
qed

theorem opt_round_trip_witness:
  "\<exists>b. add_opt_pseudo_rr 1024 0x10 0 0x8000 sample_answer = Some (True, b) \<and> a_sz b > 12 \<and>
    ok (remove_opt_pseudo_rr (a_buf b) (a_sz b)) (\<lambda>(sz, buf). sz = 12 \<and> take sz buf = a_buf sample_answer)"
proof -
  obtain h where "get_hdr (a_buf sample_answer) = Some h" "h_arcount h = 0"
    by (auto simp: get_hdr_def sample_answer_def GETINT16_def rd_def)
  with opt_round_trip [OF sample_answer_ok, of h 1024 "0x10" 0 "0x8000"]
  show ?thesis by (auto simp: ok_def sample_answer_def has_rr_def)
qed

end
