(* ===== verification/Answer.thy ===== *)
theory Answer
  imports AddRR DiskCache
begin

text \<open>
  Composing answers: \<^verbatim>\<open>src/dns_answer.c\<close> from \<open>sva_add\<close> to \<open>compose_answer\<close>, \<open>mk_error_reply\<close> and
  \<open>process_query\<close>. This theory holds the definitions; the proofs are in the theories that follow.

  The state of a composition is the answer with its compressor, the two lists \<^verbatim>\<open>sva\<close> (records already added) and
  \<^verbatim>\<open>ar\<close> (records to be added to the authority and additional sections), the cache, the results of
  \<^verbatim>\<open>random()\<close> and \<^verbatim>\<open>time()\<close> to come, and the variables \<^verbatim>\<open>rcode\<close> and \<^verbatim>\<open>aa\<close>. The resolver is a parameter: given a name, a type and the state of the cache
  it returns a return code, the entry, the number \<^verbatim>\<open>c_soa\<close>, the new state of the cache and the remaining outcomes of
  allocations. Other threads change the cache only through the parameter \<open>env\<close> of \<open>lookup_cache\<close> and through the resolver.

  Where the C code jumps to \<^verbatim>\<open>error_ans\<close> or returns 0 the result is \<open>False\<close> or \<open>Failed\<close>.
\<close>

section \<open>Records already added\<close>

text \<open>\<^verbatim>\<open>sva_t\<close>; the name and the data follow each other in \<open>v_nm\<close>.\<close>

record sva =
  v_tp :: nat
  v_dlen :: nat
  v_nm :: bytes

text \<open>\<^verbatim>\<open>rr_ext_t\<close>; for the types NS and SOA the name of the owner follows in \<open>re_tnm\<close>.\<close>

record rr_ext =
  re_tp :: nat
  re_tsz :: nat
  re_ttl :: "32 word"
  re_tnm :: bytes

record compose =
  c_ans :: answer
  c_sva :: "sva dlist option"
  c_ar :: "rr_ext dlist option"
  c_cache :: cache
  c_rnd :: "nat list"
  c_time :: "int list"
  c_rcode :: nat
  c_aa :: bool

text \<open>The parameters of the configuration that answers depend on.\<close>

record ans_parms =
  rnd_recs :: bool
  udpbufsize :: nat

definition sizeof_sva :: nat where "sizeof_sva = 4"
definition sizeof_rr_ext :: nat where "sizeof_rr_ext = 8"
definition RRETP_ADD :: nat where "RRETP_ADD = 0"
definition MAX_HOPS :: nat where "MAX_HOPS = 20"
definition UDP_BUFSIZE :: nat where "UDP_BUFSIZE = 512"

text \<open>Allocation with the outcomes kept in the answer.\<close>

definition c_malloc :: "compose \<Rightarrow> bool \<times> compose" where
  "c_malloc c = (let (mem, al) = malloc (a_al (c_ans c)) in (mem, c\<lparr>c_ans := (c_ans c)\<lparr>a_al := al\<rparr>\<rparr>))"

definition sva_add :: "bytes \<Rightarrow> nat \<Rightarrow> nat \<Rightarrow> bytes \<Rightarrow> compose \<Rightarrow> (bool \<times> compose) option" where
  "sva_add rhn tp dlen dat c = do {
     rlen \<leftarrow> rhnlen rhn;
     let (mem, c) = c_malloc c;
     sva \<leftarrow> dlist_grow (c_sva c) (sizeof_sva + rlen + dlen) mem;
     (case sva of None \<Rightarrow> Some (False, c\<lparr>c_sva := None\<rparr>)
      | Some d \<Rightarrow> do {
          nam \<leftarrow> memcpy (replicate (rlen + dlen) 0) rhn rlen;
          tl \<leftarrow> memcpy (drop rlen nam) dat dlen;
          d \<leftarrow> dlist_last_set d \<lparr>v_tp = tp, v_dlen = dlen, v_nm = take rlen nam @ tl\<rparr> (sizeof_sva + rlen + dlen);
          Some (True, c\<lparr>c_sva := Some d\<rparr>) }) }"

definition ans_ttl :: "rr_set \<Rightarrow> int \<Rightarrow> int" where
  "ans_ttl rrset queryts = (if has (flags rrset) CF_LOCAL then ttl rrset
     else let tpassed = queryts - ts rrset;
              tpassed = (if tpassed < 0 then 0 else tpassed);
              t = ttl rrset - tpassed
          in if t < 0 then 0 else t)"

definition follow_cname_chain :: "dns_cent \<Rightarrow> bytes \<Rightarrow> (bool \<times> bytes) option" where
  "follow_cname_chain ce name = do {
     r \<leftarrow> getrrset ce (int T_CNAME);
     (case r of None \<Rightarrow> Some (False, name)
      | Some rs \<Rightarrow> (case rrs rs of [] \<Rightarrow> Some (False, name)
          | dat # _ \<Rightarrow> do {
              pdnsd_assert (length dat \<le> DNSNAMEBUFSIZE);
              name \<leftarrow> memcpy name dat (length dat);
              Some (True, name) })) }"

definition add_ar :: "nat \<Rightarrow> nat \<Rightarrow> bytes \<Rightarrow> bytes \<Rightarrow> 32 word \<Rightarrow> compose \<Rightarrow> (bool \<times> compose) option" where
  "add_ar tp tsz tnm nam life c = do {
     nmsz \<leftarrow> (if tp = T_NS \<or> tp = T_SOA then rhnlen nam else Some 0);
     let (mem, c) = c_malloc c;
     ar \<leftarrow> dlist_grow (c_ar c) (sizeof_rr_ext + tsz + nmsz) mem;
     (case ar of None \<Rightarrow> Some (False, c\<lparr>c_ar := None\<rparr>)
      | Some d \<Rightarrow> do {
          buf \<leftarrow> memcpy (replicate (tsz + nmsz) 0) tnm tsz;
          tl \<leftarrow> memcpy (drop tsz buf) nam nmsz;
          d \<leftarrow> dlist_last_set d \<lparr>re_tp = tp, re_tsz = tsz, re_ttl = life, re_tnm = take tsz buf @ tl\<rparr> (sizeof_rr_ext + tsz + nmsz);
          Some (True, c\<lparr>c_ar := Some d\<rparr>) }) }"

section \<open>Record sets\<close>

text \<open>\<^verbatim>\<open>random()\<close> and \<^verbatim>\<open>time(NULL)\<close>, and the place in a list of \<open>n\<close> records that \<open>randrr\<close> selects.\<close>

definition random :: "compose \<Rightarrow> nat \<times> compose" where
  "random c = (case c_rnd c of [] \<Rightarrow> (0, c) | r # rs \<Rightarrow> (r, c\<lparr>c_rnd := rs\<rparr>))"

definition time :: "compose \<Rightarrow> int \<times> compose" where
  "time c = (case c_time c of [] \<Rightarrow> (0, c) | t # rest \<Rightarrow> (t, c\<lparr>c_time := rest\<rparr>))"

definition randrr :: "nat \<Rightarrow> compose \<Rightarrow> nat \<times> compose" where
  "randrr n c = (if n = 0 then (0, c) else let (r, c) = random c in (r mod n, c))"

definition ar_recs :: "nat list" where "ar_recs = [T_NS, T_MD, T_MF, T_MB, T_MX, T_SRV]"
definition ar_offs :: "nat list" where "ar_offs = [0, 0, 0, 0, 2, 6]"

definition lift_ans :: "(answer \<Rightarrow> (bool \<times> answer) option) \<Rightarrow> compose \<Rightarrow> (bool \<times> compose) option" where
  "lift_ans f c = map_option (\<lambda>(r, a). (r, c\<lparr>c_ans := a\<rparr>)) (f (c_ans c))"

text \<open>The search through the tables, from the entry \<open>i\<close> on.\<close>

fun mark_ar :: "(nat \<times> nat) list \<Rightarrow> nat \<Rightarrow> bytes \<Rightarrow> compose \<Rightarrow> (bool \<times> compose) option" where
  "mark_ar [] tp dat c = Some (True, c)"
| "mark_ar ((t, offs) # tab) tp dat c = (if t = tp then do {
       n \<leftarrow> usub (length dat) offs;
       add_ar RRETP_ADD n (drop offs dat) [0] 0 c }
     else mark_ar tab tp dat c)"

text \<open>The body of the loop of \<open>add_rrset\<close>.\<close>

definition add_rrset_rr ::
  "bytes \<Rightarrow> nat \<Rightarrow> int \<Rightarrow> rr_set \<Rightarrow> nat option \<Rightarrow> bytes \<Rightarrow> compose \<Rightarrow> (bool \<times> compose) option" where
  "add_rrset_rr rrn tp queryts rs udp b c = do {
     (res, c) \<leftarrow> lift_ans (add_rr rrn tp (of_int (ans_ttl rs queryts)) (length b) b S_ANSWER udp) c;
     if \<not> res then Some (False, c)
     else do {
       (res, c) \<leftarrow> (if tp = T_NS \<or> tp = T_A \<or> tp = T_AAAA then sva_add rrn tp (length b) b c else Some (True, c));
       if \<not> res then Some (False, c)
       else mark_ar (zip ar_recs ar_offs) tp b c } }"

text \<open>
  The loops over the records of a set that start at a random one and wrap around. A record is given by its
  place \<open>i\<close> in the list \<open>bs\<close>, and \<open>length bs\<close> is the null pointer.
\<close>

fun rr_loop ::
  "nat \<Rightarrow> (bytes \<Rightarrow> compose \<Rightarrow> (bool \<times> compose) option) \<Rightarrow> bool \<Rightarrow> bytes list \<Rightarrow> nat \<Rightarrow> nat \<Rightarrow> compose \<Rightarrow> (bool \<times> compose) option" where
  "rr_loop 0 f rnd bs first i c = None"
| "rr_loop (Suc fuel) f rnd bs first i c = (if i \<ge> length bs then Some (True, c)
     else do {
       (res, c) \<leftarrow> f (bs ! i) c;
       if \<not> res then Some (False, c)
       else let i = i + 1 in
         if rnd then (let i = (if i \<ge> length bs then 0 else i) in
           if i = first then Some (True, c) else rr_loop fuel f rnd bs first i c)
         else rr_loop fuel f rnd bs first i c })"

definition for_rrs ::
  "ans_parms \<Rightarrow> (bytes \<Rightarrow> compose \<Rightarrow> (bool \<times> compose) option) \<Rightarrow> bytes list \<Rightarrow> compose \<Rightarrow> (bool \<times> compose) option" where
  "for_rrs g f bs c = (if rnd_recs g then (let (first, c) = randrr (length bs) c in rr_loop (Suc (length bs)) f True bs first first c)
     else rr_loop (Suc (length bs)) f False bs 0 0 c)"

definition add_rrset ::
  "ans_parms \<Rightarrow> bytes \<Rightarrow> nat \<Rightarrow> int \<Rightarrow> dns_cent \<Rightarrow> nat option \<Rightarrow> compose \<Rightarrow> (bool \<times> compose) option" where
  "add_rrset g rrn tp queryts cached udp c = do {
     crrset \<leftarrow> getrrset cached (int tp);
     (case crrset of None \<Rightarrow> Some (True, c)
      | Some rs \<Rightarrow> if rrs rs = [] then Some (True, c)
          else for_rrs g (add_rrset_rr rrn tp queryts rs udp) (rrs rs) c) }"

fun add_rrsets ::
  "ans_parms \<Rightarrow> bytes \<Rightarrow> nat list \<Rightarrow> int \<Rightarrow> dns_cent \<Rightarrow> nat option \<Rightarrow> compose \<Rightarrow> (bool \<times> compose) option" where
  "add_rrsets g rrn [] queryts cached udp c = Some (True, c)"
| "add_rrsets g rrn (tp # tps) queryts cached udp c = do {
     (res, c) \<leftarrow> add_rrset g rrn tp queryts cached udp c;
     if \<not> res then Some (False, c) else add_rrsets g rrn tps queryts cached udp c }"

text \<open>\<^verbatim>\<open>qtype>=T_MIN && qtype<=T_MAX && have_rr(cached,qtype)\<close>\<close>

definition has_type :: "dns_cent \<Rightarrow> nat \<Rightarrow> bool option" where
  "has_type cached qt = (if qt \<ge> T_MIN \<and> qt \<le> T_MAX then have_rr cached qt else Some False)"

definition add_to_response ::
  "ans_parms \<Rightarrow> bytes \<Rightarrow> nat \<Rightarrow> int \<Rightarrow> dns_cent \<Rightarrow> nat option \<Rightarrow> compose \<Rightarrow> (bool \<times> compose) option" where
  "add_to_response g rrn qt queryts cached udp c = do {
     h \<leftarrow> (if qt \<noteq> T_CNAME \<and> qt \<noteq> QT_ALL then has_type cached qt else Some True);
     (res, c) \<leftarrow> (if \<not> h then add_rrset g rrn T_CNAME queryts cached udp c else Some (True, c));
     if \<not> res then Some (False, c)
     else if qt = QT_AXFR \<or> qt = QT_IXFR then Some (False, c)
     else if qt = QT_MAILB then add_rrsets g rrn [T_MB, T_MG, T_MR] queryts cached udp c
     else if qt = QT_MAILA then add_rrsets g rrn [T_MD, T_MF] queryts cached udp c
     else if qt = QT_ALL then do {
       n \<leftarrow> NRRITERLIST cached;
       iterlist \<leftarrow> RRITERLIST cached;
       add_rrsets g rrn (take n iterlist) queryts cached udp c }
     else if qt \<ge> T_MIN \<and> qt \<le> T_MAX then add_rrset g rrn qt queryts cached udp c
     else Some (False, c) }"

section \<open>Additional records\<close>

text \<open>\<^verbatim>\<open>memcmp(p,data,dlen)==0\<close>; both regions must have \<open>dlen\<close> bytes.\<close>

definition memeq :: "bytes \<Rightarrow> bytes \<Rightarrow> nat \<Rightarrow> bool option" where
  "memeq p q n = (if n \<le> length p \<and> n \<le> length q then Some (take n p = take n q) else None)"

fun sva_search :: "sva list \<Rightarrow> bytes \<Rightarrow> nat \<Rightarrow> nat \<Rightarrow> bytes \<Rightarrow> bool option" where
  "sva_search [] rhn tp dlen dat = Some False"
| "sva_search (st # sts) rhn tp dlen dat = do {
     same \<leftarrow> (if v_tp st = tp then do {
         eq \<leftarrow> rhnicmp (v_nm st) rhn;
         if eq \<and> v_dlen st = dlen then do {
           p \<leftarrow> skiprhn (v_nm st);
           memeq p dat dlen }
         else Some False }
       else Some False);
     if same then Some True else sva_search sts rhn tp dlen dat }"

definition add_additional_rr ::
  "bytes \<Rightarrow> nat \<Rightarrow> int \<Rightarrow> nat \<Rightarrow> bytes \<Rightarrow> msg_section \<Rightarrow> nat option \<Rightarrow> compose \<Rightarrow> (bool \<times> compose) option" where
  "add_additional_rr rhn tp life dlen dat sect udp c = do {
     sts \<leftarrow> dlist_items (c_sva c);
     dup \<leftarrow> sva_search sts rhn tp dlen dat;
     if dup then Some (True, c)
     else do {
       (res, c) \<leftarrow> lift_ans (add_rr rhn tp (of_int life) dlen dat sect udp) c;
       if \<not> res then Some (False, c) else sva_add rhn tp dlen dat c } }"

definition add_additional_rrs ::
  "ans_parms \<Rightarrow> bytes \<Rightarrow> nat \<Rightarrow> int \<Rightarrow> bytes list \<Rightarrow> msg_section \<Rightarrow> nat option \<Rightarrow> compose \<Rightarrow> (bool \<times> compose) option" where
  "add_additional_rrs g rhn tp life rrb sect udp c =
     for_rrs g (\<lambda>b. add_additional_rr rhn tp life (length b) b sect udp) rrb c"

text \<open>\<open>lookup_cache\<close> with the outcomes of allocations and the cache of the composition.\<close>

definition c_lookup :: "(cache \<Rightarrow> cache) \<Rightarrow> bytes \<Rightarrow> compose \<Rightarrow> (dns_cent option \<times> compose) option" where
  "c_lookup env name c = do {
     let (now, c) = time c;
     (ce, _, s, al) \<leftarrow> lookup_cache now env name False (c_cache c) (a_al (c_ans c));
     Some (ce, c\<lparr>c_cache := s, c_ans := (c_ans c)\<lparr>a_al := al\<rparr>\<rparr>) }"

definition add_additional_type ::
  "ans_parms \<Rightarrow> bytes \<Rightarrow> nat \<Rightarrow> int \<Rightarrow> dns_cent \<Rightarrow> nat option \<Rightarrow> compose \<Rightarrow> (bool \<times> compose) option" where
  "add_additional_type g rhn tp queryts ae udp c = do {
     rrset \<leftarrow> getrrset ae (int tp);
     (case rrset of None \<Rightarrow> Some (True, c)
      | Some rs \<Rightarrow> if rrs rs = [] then Some (True, c)
          else add_additional_rrs g rhn tp (ans_ttl rs queryts) (rrs rs) S_ADDITIONAL udp c) }"

definition add_additional_a ::
  "ans_parms \<Rightarrow> (cache \<Rightarrow> cache) \<Rightarrow> bytes \<Rightarrow> int \<Rightarrow> nat option \<Rightarrow> compose \<Rightarrow> (bool \<times> compose) option" where
  "add_additional_a g env rhn queryts udp c = do {
     (ae, c) \<leftarrow> c_lookup env rhn c;
     (case ae of None \<Rightarrow> Some (True, c)
      | Some ae \<Rightarrow> do {
          (retval, c) \<leftarrow> add_additional_type g rhn T_A queryts ae udp c;
          if retval then add_additional_type g rhn T_AAAA queryts ae udp c else Some (False, c) }) }"

section \<open>The answer to a query\<close>

type_synonym resolver = "bytes \<Rightarrow> nat \<Rightarrow> nat \<Rightarrow> int \<Rightarrow> cache \<Rightarrow> allocs \<Rightarrow> (nat \<times> byte + dns_cent) \<times> cache \<times> allocs"

text \<open>How a step of the answer ends: the query is repeated for an alias, the question is answered, the answer is complete, or
  it is given up.\<close>

datatype stage = Again bytes | Answered | Return_ans | Error_ans

definition upd_hdr :: "(dns_hdr \<Rightarrow> dns_hdr) \<Rightarrow> answer \<Rightarrow> answer option" where
  "upd_hdr f a = do {
     h \<leftarrow> get_hdr (a_buf a);
     Some (a\<lparr>a_buf := put (a_buf a) 0 (hdr_bytes (f h))\<rparr>) }"

definition set_rcode :: "nat \<Rightarrow> compose \<Rightarrow> compose option" where
  "set_rcode rc c = map_option (\<lambda>a. c\<lparr>c_ans := a, c_rcode := rc\<rparr>) (upd_hdr (\<lambda>h. h\<lparr>h_rcode := of_nat rc\<rparr>) (c_ans c))"

definition add_question :: "dns_queryel \<Rightarrow> answer \<Rightarrow> (bool \<times> answer) option" where
  "add_question qe a = do {
     l \<leftarrow> rhnlen (query qe);
     let (mem, a) = ensure_space (dnsmsghdroffset + a_sz a + l + 4) a;
     if \<not> mem then Some (False, a)
     else do {
       (qclen, a) \<leftarrow> put_name (query qe) a;
       if qclen = 0 then Some (False, a)
       else do {
         (buf, p) \<leftarrow> PUTINT16 (qtype qe) (a_buf a) (a_sz a);
         (buf, p) \<leftarrow> PUTINT16 (qclass qe) buf p;
         a \<leftarrow> upd_hdr (\<lambda>h. h\<lparr>h_qdcount := h_qdcount h + 1\<rparr>) (a\<lparr>a_buf := buf, a_sz := a_sz a + 4\<rparr>);
         Some (True, a) } } }"

fun add_questions :: "dns_queryel list \<Rightarrow> answer \<Rightarrow> (bool \<times> answer) option" where
  "add_questions [] a = Some (True, a)"
| "add_questions (qe # ql) a = do {
     (res, a) \<leftarrow> add_question qe a;
     if \<not> res then Some (False, a) else add_questions ql a }"

definition unsupported :: "dns_queryel \<Rightarrow> bool" where
  "unsupported qe \<longleftrightarrow> (let t = unat (qtype qe); cl = unat (qclass qe) in
     PDNSD_NOT_CACHED_TYPE t \<and> (t \<noteq> QT_MAILB \<and> t \<noteq> QT_MAILA \<and> t \<noteq> QT_ALL) \<or> (cl \<noteq> C_IN \<and> cl \<noteq> QC_ALL))"

text \<open>When the domain does not exist: the SOA records of the zone, and the OPT record.\<close>

fun add_soas :: "bytes \<Rightarrow> int \<Rightarrow> bytes list \<Rightarrow> nat option \<Rightarrow> compose \<Rightarrow> (bool \<times> compose) option" where
  "add_soas nam life [] udp c = Some (True, c)"
| "add_soas nam life (b # bs) udp c = do {
     (res, c) \<leftarrow> lift_ans (add_rr nam T_SOA (of_int life) (length b) b S_AUTHORITY udp) c;
     if \<not> res then Some (False, c) else add_soas nam life bs udp c }"

definition negative_soa ::
  "(cache \<Rightarrow> cache) \<Rightarrow> bytes \<Rightarrow> byte \<Rightarrow> int \<Rightarrow> nat option \<Rightarrow> compose \<Rightarrow> (bool \<times> compose) option" where
  "negative_soa env qnm soa queryts udp c = (if soa = cundef then Some (True, c) else do {
     scnt \<leftarrow> rhnsegcnt qnm;
     if unat soa < scnt then do {
       nam \<leftarrow> skipsegs qnm (scnt - unat soa);
       (cached, c) \<leftarrow> c_lookup env nam c;
       (case cached of None \<Rightarrow> Some (True, c)
        | Some ce \<Rightarrow> do {
            r \<leftarrow> getrrset ce (int T_SOA);
            (case r of None \<Rightarrow> Some (True, c)
             | Some rs \<Rightarrow> if has (flags rs) CF_NEGATIVE then Some (True, c)
                 else add_soas (qname ce) (ans_ttl rs queryts) (rrs rs) udp c) }) }
     else Some (True, c) })"

definition add_opt :: "ans_parms \<Rightarrow> bool \<Rightarrow> compose \<Rightarrow> (bool \<times> compose) option" where
  "add_opt g edns c = (if edns then lift_ans (add_opt_pseudo_rr (of_nat (udpbufsize g)) (of_nat (c_rcode c)) 0 0) c
     else Some (True, c))"

definition resolve_failed ::
  "ans_parms \<Rightarrow> (cache \<Rightarrow> cache) \<Rightarrow> nat \<Rightarrow> byte \<Rightarrow> bytes \<Rightarrow> int \<Rightarrow> bool \<Rightarrow> nat option \<Rightarrow> compose \<Rightarrow> (stage \<times> compose) option" where
  "resolve_failed g env rc soa qnm queryts edns udp c = do {
     c \<leftarrow> set_rcode rc c;
     if rc = RC_NAMEERR then do {
       (res, c) \<leftarrow> negative_soa env qnm soa queryts udp c;
       if \<not> res then Some (Error_ans, c)
       else do {
         (res, c) \<leftarrow> add_opt g edns c;
         Some (if res then Return_ans else Error_ans, c) } }
     else Some (Return_ans, c) }"

text \<open>The NS or SOA records for the authority section.\<close>

definition want_soa :: "dns_cent \<Rightarrow> nat \<Rightarrow> bool option" where
  "want_soa cached qt = do {
     a \<leftarrow> (if qt \<ge> T_MIN \<and> qt \<le> T_MAX then map_option Not (have_rr cached qt) else Some False);
     mb \<leftarrow> have_rr cached T_MB;
     mg \<leftarrow> have_rr cached T_MG;
     mr \<leftarrow> have_rr cached T_MR;
     md \<leftarrow> have_rr cached T_MD;
     mf \<leftarrow> have_rr cached T_MF;
     Some (a \<or> (qt = QT_MAILB \<and> \<not> mb \<and> \<not> mg \<and> \<not> mr) \<or> (qt = QT_MAILA \<and> \<not> md \<and> \<not> mf)) }"

definition positive :: "rr_set option \<Rightarrow> rr_set option" where
  "positive r = (case r of Some rs \<Rightarrow> if has (flags rs) CF_NEGATIVE then None else r | None \<Rightarrow> None)"

text \<open>The record set found is returned with \<^verbatim>\<open>cached->qname\<close>.\<close>

definition find_authority ::
  "(cache \<Rightarrow> cache) \<Rightarrow> dns_cent \<Rightarrow> nat \<Rightarrow> compose \<Rightarrow> ((rr_set \<times> bytes) option \<times> compose) option" where
  "find_authority env prev rretp c = do {
     r \<leftarrow> getrrset prev (int rretp);
     (case positive r of Some rs \<Rightarrow> Some (Some (rs, qname prev), c)
      | None \<Rightarrow> do {
          scnt \<leftarrow> rhnsegcnt (qname prev);
          let tcnt = (if rretp = T_NS then c_ns prev else c_soa prev);
          nam \<leftarrow> (if tcnt \<noteq> cundef \<and> unat tcnt < scnt then skipsegs (qname prev) (scnt - unat tcnt) else Some (qname prev));
          (cached, c) \<leftarrow> c_lookup env nam c;
          r \<leftarrow> (case cached of None \<Rightarrow> Some None | Some ce \<Rightarrow> getrrset ce (int rretp));
          (case (positive r, cached) of (Some rs, Some ce) \<Rightarrow> Some (Some (rs, qname ce), c)
           | _ \<Rightarrow> if \<not> has (cflags prev) DF_LOCAL then Some (None, c)
               else do {
                 owner \<leftarrow> getlocalowner (qname prev) rretp (c_cache c);
                 (case owner of None \<Rightarrow> Some (None, c)
                  | Some nam \<Rightarrow> do {
                      (cached, c) \<leftarrow> c_lookup env nam c;
                      (case cached of None \<Rightarrow> Some (None, c)
                       | Some ce \<Rightarrow> do {
                           r \<leftarrow> getrrset ce (int rretp);
                           Some (map_option (\<lambda>rs. (rs, qname ce)) r, c) }) }) }) }) }"

fun add_ars :: "nat \<Rightarrow> bytes list \<Rightarrow> bytes \<Rightarrow> 32 word \<Rightarrow> compose \<Rightarrow> (bool \<times> compose) option" where
  "add_ars tp [] nam life c = Some (True, c)"
| "add_ars tp (b # bs) nam life c = do {
     (res, c) \<leftarrow> add_ar tp (length b) b nam life c;
     if \<not> res then Some (False, c) else add_ars tp bs nam life c }"

definition note_authority ::
  "(cache \<Rightarrow> cache) \<Rightarrow> dns_cent \<Rightarrow> nat \<Rightarrow> int \<Rightarrow> compose \<Rightarrow> (bool \<times> compose) option" where
  "note_authority env cached qt queryts c = do {
     soa \<leftarrow> want_soa cached qt;
     let rretp = (if soa then T_SOA else T_NS);
     (r, c) \<leftarrow> find_authority env cached rretp c;
     (case r of None \<Rightarrow> Some (True, c)
      | Some (rs, nam) \<Rightarrow> add_ars rretp (rrs rs) nam (of_int (ans_ttl rs queryts)) c) }"

text \<open>The body of the loop along a chain of aliases, and the loop.\<close>

definition answer_hop ::
  "ans_parms \<Rightarrow> (cache \<Rightarrow> cache) \<Rightarrow> resolver \<Rightarrow> nat \<Rightarrow> bool \<Rightarrow> int \<Rightarrow> bool \<Rightarrow> nat option \<Rightarrow> bytes \<Rightarrow> compose \<Rightarrow> (stage \<times> compose) option" where
  "answer_hop g env resolve qt rdf queryts edns udp qnm c =
     (let (r, s, al) = resolve qnm qt MAX_HOPS queryts (c_cache c) (a_al (c_ans c));
          c = c\<lparr>c_cache := s, c_ans := (c_ans c)\<lparr>a_al := al\<rparr>\<rparr> in
      case r of Inl (rc, soa) \<Rightarrow> resolve_failed g env rc soa qnm queryts edns udp c
      | Inr cached \<Rightarrow> do {
          let c = (if has (cflags cached) DF_LOCAL then c else c\<lparr>c_aa := False\<rparr>);
          (res, c) \<leftarrow> add_to_response g qnm qt queryts cached udp c;
          if \<not> res then Some (Error_ans, c)
          else do {
            h \<leftarrow> (if rdf \<and> qt \<noteq> T_CNAME \<and> qt \<noteq> QT_ALL then has_type cached qt else Some True);
            (follow, qnm) \<leftarrow> (if \<not> h then follow_cname_chain cached qnm else Some (False, qnm));
            if follow then Some (Again qnm, c)
            else do {
              (res, c) \<leftarrow> note_authority env cached qt queryts c;
              Some (if res then Answered else Error_ans, c) } } })"

fun answer_hops :: "nat \<Rightarrow> (bytes \<Rightarrow> compose \<Rightarrow> (stage \<times> compose) option) \<Rightarrow> bytes \<Rightarrow> compose \<Rightarrow> (stage \<times> compose) option" where
  "answer_hops 0 f qnm c = do {
     (st, c) \<leftarrow> f qnm c;
     (case st of Again _ \<Rightarrow> Some (Answered, c) | _ \<Rightarrow> Some (st, c)) }"
| "answer_hops (Suc hops) f qnm c = do {
     (st, c) \<leftarrow> f qnm c;
     (case st of Again qnm \<Rightarrow> answer_hops hops f qnm c | _ \<Rightarrow> Some (st, c)) }"

fun answer_queries ::
  "ans_parms \<Rightarrow> (cache \<Rightarrow> cache) \<Rightarrow> resolver \<Rightarrow> dns_queryel list \<Rightarrow> bool \<Rightarrow> int \<Rightarrow> bool \<Rightarrow> nat option \<Rightarrow> compose \<Rightarrow> (stage \<times> compose) option" where
  "answer_queries g env resolve [] rdf queryts edns udp c = Some (Answered, c)"
| "answer_queries g env resolve (qe # ql) rdf queryts edns udp c = do {
     (_, qnm) \<leftarrow> rhncpy (replicate DNSNAMEBUFSIZE (a_fill (c_ans c))) (query qe);
     (st, c) \<leftarrow> answer_hops MAX_HOPS (answer_hop g env resolve (unat (qtype qe)) rdf queryts edns udp) qnm c;
     if st = Answered then answer_queries g env resolve ql rdf queryts edns udp c else Some (st, c) }"

text \<open>The authority and additional sections.\<close>

fun add_authority :: "rr_ext list \<Rightarrow> nat option \<Rightarrow> compose \<Rightarrow> (bool \<times> compose) option" where
  "add_authority [] udp c = Some (True, c)"
| "add_authority (re # res) udp c = do {
     (r, c) \<leftarrow> (if re_tp re = T_NS \<or> re_tp re = T_SOA then
         add_additional_rr (drop (re_tsz re) (re_tnm re)) (re_tp re) (uint (re_ttl re)) (re_tsz re) (re_tnm re) S_AUTHORITY udp c
       else Some (True, c));
     if \<not> r then Some (False, c) else add_authority res udp c }"

fun add_additionals ::
  "ans_parms \<Rightarrow> (cache \<Rightarrow> cache) \<Rightarrow> rr_ext list \<Rightarrow> int \<Rightarrow> nat option \<Rightarrow> compose \<Rightarrow> (bool \<times> compose) option" where
  "add_additionals g env [] queryts udp c = Some (True, c)"
| "add_additionals g env (re # res) queryts udp c = do {
     (r, c) \<leftarrow> (if re_tp re = T_NS \<or> re_tp re = RRETP_ADD then add_additional_a g env (re_tnm re) queryts udp c else Some (True, c));
     if \<not> r then Some (False, c) else add_additionals g env res queryts udp c }"

definition other_sections ::
  "ans_parms \<Rightarrow> (cache \<Rightarrow> cache) \<Rightarrow> int \<Rightarrow> bool \<Rightarrow> nat option \<Rightarrow> compose \<Rightarrow> (bool \<times> compose) option" where
  "other_sections g env queryts edns udp c = do {
     ar \<leftarrow> dlist_items (c_ar c);
     (res, c) \<leftarrow> add_authority ar udp c;
     if \<not> res then Some (False, c)
     else if over_udp udp (a_sz (c_ans c) + sizeof_opt_pseudo_rr) then Some (True, c)
     else do {
       (res, c) \<leftarrow> add_opt g edns c;
       if \<not> res then Some (False, c) else add_additionals g env ar queryts udp c } }"

definition fresh_hdr :: "dns_hdr \<Rightarrow> dns_hdr" where
  "fresh_hdr hdr = \<lparr>h_id = h_id hdr, h_rd = h_rd hdr, h_tc = False, h_aa = False, h_opcode = OP_QUERY, h_qr = QR_RESP,
     h_rcode = of_nat RC_OK, h_cd = False, h_ad = False, h_z = False, h_ra = True,
     h_qdcount = 0, h_ancount = 0, h_nscount = 0, h_arcount = 0\<rparr>"

definition new_answer :: "dns_hdr \<Rightarrow> allocs \<Rightarrow> byte \<Rightarrow> answer" where
  "new_answer hdr al fill = \<lparr>a_buf = put (replicate (ALLOCINITIALSIZE - dnsmsghdroffset) fill) 0 (hdr_bytes (fresh_hdr hdr)),
     a_sz = sizeof_dns_hdr, a_allocsz = ALLOCINITIALSIZE, a_cb = None, a_al = al, a_fill = fill\<rparr>"

text \<open>The body of \<open>compose_answer\<close> behind the questions.\<close>

definition compose_sections ::
  "ans_parms \<Rightarrow> (cache \<Rightarrow> cache) \<Rightarrow> resolver \<Rightarrow> dns_queryel list \<Rightarrow> bool \<Rightarrow> int \<Rightarrow> bool \<Rightarrow> nat option \<Rightarrow> compose \<Rightarrow> (stage \<times> compose) option" where
  "compose_sections g env resolve ql rdf queryts edns udp c =
     (if list_ex unsupported ql then map_option (\<lambda>c. (Return_ans, c)) (set_rcode RC_NOTSUPP c)
      else do {
        (st, c) \<leftarrow> answer_queries g env resolve ql rdf queryts edns udp c;
        if st \<noteq> Answered then Some (st, c)
        else do {
          (res, c) \<leftarrow> other_sections g env queryts edns udp c;
          if \<not> res then Some (Error_ans, c)
          else if c_aa c then do {
            a \<leftarrow> upd_hdr (\<lambda>h. h\<lparr>h_aa := True\<rparr>) (c_ans c);
            Some (Return_ans, c\<lparr>c_ans := a\<rparr>) }
          else Some (Return_ans, c) } })"

text \<open>The result is the answer, if there is one, the return code, and the state; the argument \<open>c\<close> holds the state before.\<close>

definition compose_answer ::
  "ans_parms \<Rightarrow> (cache \<Rightarrow> cache) \<Rightarrow> resolver \<Rightarrow> dns_queryel list \<Rightarrow> dns_hdr \<Rightarrow> bool \<Rightarrow> nat option \<Rightarrow> byte \<Rightarrow> compose \<Rightarrow>
   (answer option \<times> nat \<times> compose) option" where
  "compose_answer g env resolve ql hdr edns udp fill c = do {
     let (queryts, c) = time c;
     let (mem, c) = c_malloc c;
     if \<not> mem then Some (None, RC_OK, c)
     else do {
       let c = c\<lparr>c_ans := new_answer hdr (a_al (c_ans c)) fill, c_sva := None, c_ar := None, c_rcode := RC_OK, c_aa := True\<rparr>;
       (res, c) \<leftarrow> lift_ans (add_questions ql) c;
       if \<not> res then Some (None, c_rcode c, c)
       else do {
         (st, c) \<leftarrow> compose_sections g env resolve ql (h_rd hdr) queryts edns udp c;
         Some (if st = Error_ans then None else Some (c_ans c), c_rcode c, c) } } }"

section \<open>Processing a query\<close>

definition mk_error_reply :: "16 word \<Rightarrow> 4 word \<Rightarrow> nat \<Rightarrow> dns_hdr" where
  "mk_error_reply i opcode rescode = \<lparr>h_id = i, h_rd = False, h_tc = False, h_aa = False, h_opcode = opcode, h_qr = QR_RESP,
     h_rcode = of_nat rescode, h_cd = False, h_ad = False, h_z = False, h_ra = True,
     h_qdcount = 0, h_ancount = 0, h_nscount = 0, h_arcount = 0\<rparr>"

text \<open>The code at the label \<^verbatim>\<open>error_reply\<close>.\<close>

definition error_reply :: "ans_parms \<Rightarrow> bytes \<Rightarrow> nat \<Rightarrow> nat \<Rightarrow> byte \<Rightarrow> compose \<Rightarrow> (answer option \<times> compose) option" where
  "error_reply g dat rlen res fill c = do {
     let allocsz = dnsmsghdroffset + sizeof_dns_hdr + (if res div 16 \<noteq> 0 then sizeof_opt_pseudo_rr else 0);
     let (mem, c) = c_malloc c;
     if \<not> mem then Some (None, c)
     else do {
       (i, _) \<leftarrow> GETINT16 dat 0;
       opcode \<leftarrow> (if rlen \<ge> 3 then map_option opcode_of (rd dat 2) else Some OP_QUERY);
       let a = \<lparr>a_buf = put (replicate (allocsz - dnsmsghdroffset) fill) 0 (hdr_bytes (mk_error_reply i opcode res)),
         a_sz = sizeof_dns_hdr, a_allocsz = allocsz, a_cb = None, a_al = a_al (c_ans c), a_fill = fill\<rparr>;
       a \<leftarrow> (if res div 16 \<noteq> 0 then map_option snd (add_opt_pseudo_rr (of_nat (udpbufsize g)) (of_nat res) 0 0 a) else Some a);
       Some (Some a, c\<lparr>c_ans := (c_ans c)\<lparr>a_al := a_al a\<rparr>\<rparr>) } }"

text \<open>The checks of the header: the query is discarded (\<open>Some None\<close>), rejected (\<open>Some (Some res)\<close>) or accepted.\<close>

definition check_query :: "dns_hdr \<Rightarrow> nat option option" where
  "check_query hdr =
     (if h_qr hdr \<noteq> QR_QUERY then Some None
      else if h_opcode hdr \<noteq> OP_QUERY then Some (Some RC_NOTSUPP)
      else if h_z hdr then Some (Some RC_FORMAT)
      else if h_rcode hdr \<noteq> of_nat RC_OK then Some None
      else if h_ancount hdr \<noteq> 0 then Some (Some RC_FORMAT)
      else if h_nscount hdr \<noteq> 0 then Some (Some RC_FORMAT)
      else None)"

text \<open>Reading the questions and the additional section: the return code of an error, or the questions, whether there
  is an OPT record, and the limit for UDP.\<close>

definition read_query ::
  "ans_parms \<Rightarrow> bytes \<Rightarrow> nat \<Rightarrow> dns_hdr \<Rightarrow> nat option \<Rightarrow> allocs \<Rightarrow> ((nat + dns_queryel list \<times> bool \<times> nat option) \<times> allocs) option" where
  "read_query g dat rlen hdr udp al = do {
     (res, ptr, sz, ql, al) \<leftarrow> decode_query dat rlen al;
     if res = RC_TRUNC \<and> (\<not> h_tc hdr \<or> ql = []) then Some (Inl RC_FORMAT, al)
     else if res \<noteq> RC_OK \<and> res \<noteq> RC_TRUNC then Some (Inl res, al)
     else if h_arcount hdr = 0 then Some (Inr (ql, False, udp), al)
     else if res = RC_TRUNC then Some (Inl RC_FORMAT, al)
     else do {
       (res, numoptrr, edns) \<leftarrow> decode_query_additional dat rlen ptr sz (unat (h_arcount hdr)) 0
         \<lparr>e_udpsize = 0, e_rcode = 0, e_version = 0, e_do_flg = False\<rparr>;
       if \<not> (res = RC_OK \<or> (res = RC_TRUNC \<and> h_tc hdr)) then Some (Inl RC_FORMAT, al)
       else if numoptrr = 0 then Some (Inr (ql, False, udp), al)
       else if e_version edns \<noteq> 0 then Some (Inl RC_BADVERS, al)
       else if e_rcode edns \<noteq> 0 then Some (Inl RC_FORMAT, al)
       else Some (Inr (ql, True, map_option (\<lambda>u. if unat (e_udpsize edns) > UDP_BUFSIZE
         then min (udpbufsize g) (unat (e_udpsize edns)) else u) udp), al) } }"

text \<open>The result is the reply, if there is one, \<^verbatim>\<open>*udp\<close>, \<^verbatim>\<open>*rcodep\<close> if it is set, and the state.\<close>

definition process_query ::
  "ans_parms \<Rightarrow> (cache \<Rightarrow> cache) \<Rightarrow> resolver \<Rightarrow> bytes \<Rightarrow> nat \<Rightarrow> nat option \<Rightarrow> byte \<Rightarrow> compose \<Rightarrow>
   (answer option \<times> nat option \<times> nat option \<times> compose) option" where
  "process_query g env resolve dat rlen udp fill c =
     (let fail = (\<lambda>res udp c. do { (a, c) \<leftarrow> error_reply g dat rlen res fill c; Some (a, udp, Some res, c) }) in
      if rlen < 2 then Some (None, udp, None, c)
      else if rlen < sizeof_dns_hdr then fail RC_FORMAT udp c
      else do {
        hdr \<leftarrow> get_hdr dat;
        (case check_query hdr of Some None \<Rightarrow> Some (None, udp, None, c)
         | Some (Some res) \<Rightarrow> fail res udp c
         | None \<Rightarrow> do {
             (r, al) \<leftarrow> read_query g dat rlen hdr udp (a_al (c_ans c));
             let c = c\<lparr>c_ans := (c_ans c)\<lparr>a_al := al\<rparr>\<rparr>;
             (case r of Inl res \<Rightarrow> fail res udp c
              | Inr (ql, edns, udp) \<Rightarrow>
                  if ql = [] then fail RC_FORMAT udp c
                  else do {
                    (ans, rcode, c) \<leftarrow> compose_answer g env resolve ql hdr edns udp fill c;
                    (case ans of None \<Rightarrow> fail RC_SERVFAIL udp c
                     | Some a \<Rightarrow> Some (Some a, udp, Some rcode, c)) }) }) })"

end
