(* ===== verification/AnswerData.thy ===== *)
theory AnswerData
  imports Answer
begin

text \<open>
  What the composition of answers relies on: entries whose records have the shape their types prescribe, and whose
  records weigh at most \<open>B\<close> in all. \<open>lookup_cache\<close> returns such entries from a cache that has no others, and keeps it so.
\<close>

section \<open>Entries\<close>

text \<open>The weight of a record bounds what it adds to the message and to the three lists of a composition.\<close>

definition weight :: "bytes \<Rightarrow> nat" where
  "weight d = 3 * (266 + length d)"

definition weights :: "bytes list \<Rightarrow> nat" where
  "weights ds = sum_list (map weight ds)"

definition set_weight :: "rr_set option \<Rightarrow> nat" where
  "set_weight r = (case r of None \<Rightarrow> 0 | Some rs \<Rightarrow> weights (rrs rs))"

definition rr_fits :: "nat \<Rightarrow> bytes \<Rightarrow> bool" where
  "rr_fits tp d \<longleftrightarrow> (\<exists>fs. fits tp fs \<and> d = rdata_of fs)"

definition fit_view :: "nat \<Rightarrow> rrview \<Rightarrow> bool" where
  "fit_view B V \<longleftrightarrow> (\<forall>tp rs d. \<not> PDNSD_NOT_CACHED_TYPE tp \<longrightarrow> V (tidx tp) = Some rs \<longrightarrow> d \<in> set (rrs rs) \<longrightarrow> rr_fits tp d) \<and>
     (\<Sum>i < NRRTOT. set_weight (V i)) \<le> B"

definition good_cent :: "nat \<Rightarrow> dns_cent \<Rightarrow> bool" where
  "good_cent B ce \<longleftrightarrow> cent_ok ce \<and> fit_view B (rr ce)"

definition good_cache :: "nat \<Rightarrow> cache \<Rightarrow> bool" where
  "good_cache B st \<longleftrightarrow> cache_inv st \<and> (\<forall>a ce. cents st a = Some ce \<longrightarrow> fit_view B (rr ce))"

lemma fit_view_sub:
  assumes "fit_view B V" and "\<And>i rs'. V' i = Some rs' \<Longrightarrow> \<exists>rs. V i = Some rs \<and> rrs rs' = rrs rs"
  shows "fit_view B V'"
proof -
  have "set_weight (V' i) \<le> set_weight (V i)" for i
    using assms(2) [of i] by (cases "V' i") (auto simp: set_weight_def)
  then have "(\<Sum>i < NRRTOT. set_weight (V' i)) \<le> (\<Sum>i < NRRTOT. set_weight (V i))" by (rule sum_mono)
  with assms show ?thesis unfolding fit_view_def by (fastforce dest!: assms(2))
qed

lemma view_sub: "unlinked r = Some rs' \<Longrightarrow> \<exists>rs. r = Some rs \<and> rrs rs' = rrs rs"
  by (auto simp: unlinked_def)

lemma weights_simps [simp]: "weights [] = 0" "weights (d # ds) = weight d + weights ds"
  by (simp_all add: weights_def)

lemma weight_ge: "798 \<le> weight d" "3 * length d \<le> weight d" "266 + length d \<le> weight d"
  by (simp_all add: weight_def)

lemma weight_mem: "d \<in> set ds \<Longrightarrow> weight d \<le> weights ds"
  by (induction ds) auto

section \<open>The records of an entry\<close>

lemma getrrset_rr:
  assumes "cent_ok ce"
  shows "getrrset ce (int tp) = Some (if PDNSD_NOT_CACHED_TYPE tp then None else rr ce (tidx tp))"
proof (cases "is_neg ce")
  case True
  with assms rr_neg [of ce] show ?thesis by (simp add: getrrset_def cent_ok_def)
next
  case neg: False
  have sh: "shape_ok ce" using assms by (simp add: cent_ok_def)
  show ?thesis
  proof (cases "PDNSD_NOT_CACHED_TYPE tp")
    case False
    have "T_MIN \<le> tp" "tp - T_MIN < T_NUM" using cached_type [OF False] by auto
    then have "0 \<le> int tp - int T_MIN \<and> int tp - int T_MIN < int T_NUM" by auto
    with neg False getrrset_eff_rr [OF sh neg False] show ?thesis by (simp add: getrrset_def)
  next
    case True
    obtain mu ext where b: "body ce = RR mu ext" using sh neg by (auto simp: shape_ok_def split: cent_body.splits)
    have "getrrset_eff ce tp = Some None" if "T_MIN \<le> tp" "tp \<le> T_MAX"
    proof -
      have "tp - T_MIN < length rrlkuptab" using that by (simp add: length_rrlkuptab T_MIN_def T_MAX_def T_NUM_def)
      moreover have "NRRTOT \<le> rrlkuptab ! (tp - T_MIN)" using True that by (simp add: PDNSD_NOT_CACHED_TYPE_def)
      ultimately show ?thesis using that b by (auto simp: getrrset_eff_def rd_def usub_def NRRTOT_def NRRMU_def NRREXT_def)
    qed
    with True neg show ?thesis by (auto simp: getrrset_def T_MIN_def T_MAX_def T_NUM_def)
  qed
qed

lemma have_rr_rr:
  assumes "cent_ok ce" and "T_MIN \<le> tp" "tp \<le> T_MAX"
  shows "\<exists>h. have_rr ce tp = Some h"
proof -
  have "getrrset ce (int tp) \<noteq> None" using getrrset_rr [OF assms(1)] by simp
  then have "\<not> is_neg ce \<Longrightarrow> getrrset_eff ce tp \<noteq> None"
    using assms(2,3) by (auto simp: getrrset_def T_MIN_def T_MAX_def T_NUM_def Let_def split: if_splits)
  then show ?thesis by (auto simp: have_rr_def)
qed

text \<open>The records of type \<open>tp\<close> of a good entry.\<close>

definition recs_of :: "dns_cent \<Rightarrow> nat \<Rightarrow> bytes list" where
  "recs_of ce tp = (if PDNSD_NOT_CACHED_TYPE tp then [] else case rr ce (tidx tp) of None \<Rightarrow> [] | Some rs \<Rightarrow> rrs rs)"

lemma recs_of_fits: "good_cent B ce \<Longrightarrow> d \<in> set (recs_of ce tp) \<Longrightarrow> rr_fits tp d"
  by (cases "rr ce (tidx tp)") (auto simp: good_cent_def fit_view_def recs_of_def split: if_splits)

lemma weights_recs_of: "weights (recs_of ce tp) = (if PDNSD_NOT_CACHED_TYPE tp then 0 else set_weight (rr ce (tidx tp)))"
  by (simp add: recs_of_def set_weight_def split: option.split)

lemma weights_types:
  assumes "good_cent B ce" and "distinct tps"
  shows "sum_list (map (\<lambda>tp. weights (recs_of ce tp)) tps) \<le> B"
proof -
  let ?C = "{tp \<in> set tps. \<not> PDNSD_NOT_CACHED_TYPE tp}"
  have inj: "inj_on tidx ?C" by (rule inj_onI) (use tidx_inj in blast)
  have sub: "tidx ` ?C \<subseteq> {..<NRRTOT}" using cached_type(4) by auto
  have "sum_list (map (\<lambda>tp. weights (recs_of ce tp)) tps) = (\<Sum>tp \<in> set tps. weights (recs_of ce tp))"
    using assms(2) by (simp add: sum_list_distinct_conv_sum_set)
  also have "\<dots> = (\<Sum>tp \<in> ?C. set_weight (rr ce (tidx tp)))"
    by (rule sum.mono_neutral_cong_right) (auto simp: weights_recs_of)
  also have "\<dots> = (\<Sum>i \<in> tidx ` ?C. set_weight (rr ce i))" by (simp add: sum.reindex [OF inj])
  also have "\<dots> \<le> (\<Sum>i < NRRTOT. set_weight (rr ce i))" by (rule sum_mono2) (use sub in auto)
  also have "\<dots> \<le> B" using assms(1) by (simp add: good_cent_def fit_view_def)
  finally show ?thesis .
qed

lemma weights_type: "good_cent B ce \<Longrightarrow> weights (recs_of ce tp) \<le> B"
  using weights_types [of B ce "[tp]"] by simp

lemma good_cent_name: "good_cent B ce \<Longrightarrow> \<exists>k. wf_name k \<and> qname ce = wire k"
  by (simp add: good_cent_def cent_ok_def)

section \<open>Looking up\<close>

lemma served_good: "fit_view B (rr c) \<Longrightarrow> served now c c' \<Longrightarrow> good_cent B c'"
  unfolding good_cent_def served_def
  by (auto elim!: fit_view_sub simp: unexpired_def view_def dest!: view_sub split: if_splits)

lemma locate_good:
  assumes "good_cache B st" and "wf_name k" and "CacheLookup.answer now st k wild al (Some ce) w"
  shows "good_cent B ce"
proof -
  obtain a w' where l: "locate st k wild = (Some a, w')" and sv: "served now (the (cents st a)) ce"
    using assms(3) by (cases "locate st k wild") (auto simp: CacheLookup.answer_def split: option.splits)
  have "inv_but 0 st" using assms(1) by (simp add: good_cache_def cache_inv_but)
  then obtain c where "cents st a = Some c" using locate_entry [OF _ assms(2) l] by blast
  with sv assms(1) show ?thesis by (auto simp: good_cache_def intro: served_good)
qed

lemma shrink_fit: "fit_view B (rr c) \<Longrightarrow> purged_cent now st k c c' \<Longrightarrow> fit_view B (rr c')"
  by (erule fit_view_sub) (auto simp: purged_cent_def purged_def split: if_splits)

lemma lookup_cache_rw_good:
  assumes good: "good_cache B st" and wf: "wf_name k"
  shows "ok (lookup_cache_rw now (wire k @ r) wild st al) (\<lambda>(res, w, s', al'). good_cache B s' \<and> (al = [] \<longrightarrow> al' = []))"
proof -
  have inv: "inv_but 0 st" using good by (simp add: good_cache_def cache_inv_but)
  obtain fa w where l: "locate st k wild = (fa, w)" by (cases "locate st k wild")
  note fe = find_entry_ok [OF inv wf, of r wild, unfolded l]
  show ?thesis
  proof (cases fa)
    case None
    then show ?thesis using fe good by (simp add: lookup_cache_rw_def)
  next
    case (Some a)
    with l obtain c k' where c: "cents st a = Some c" "cent_ok c" "wf_name k'" "qname c = wire k'" using locate_entry [OF inv wf] by blast
    from purge_cent_ok [OF inv c(1,3,4), of now True] obtain n s1 where p: "purge_cent now a True False st = Some (n, s1)" "inv_but 0 s1"
      "n = (if dead now c then - 1 else int (purge_count now st c k'))"
      "if dead now c then gone a c k' st s1 else \<exists>c'. changed a c c' st s1 \<and> purged_cent now st k' c c' \<and> cent_ok c'" by (rule ok2E) simp
    have fit: "fit_view B (rr c)" using good c(1) by (auto simp: good_cache_def)
    show ?thesis
    proof (cases "dead now c")
      case True
      with p have "good_cache B s1" using good by (auto simp: good_cache_def cache_inv_but gone_def)
      with True show ?thesis using fe Some p by (simp add: lookup_cache_rw_def)
    next
      case False
      with p(4) obtain c1 where c1: "changed a c c1 st s1" "purged_cent now st k' c c1" "cent_ok c1" by auto
      then have "good_cache B s1" using p(2) good shrink_fit [OF fit c1(2)] by (auto simp: good_cache_def cache_inv_but changed_def)
      moreover have a1: "cents s1 a = Some c1" using c1(1) by (simp add: changed_def)
      ultimately show ?thesis using fe Some p False copy_ok [OF c1(3), of al]
        by (auto simp: lookup_cache_rw_def ok_bind elim!: ok_mono)
    qed
  qed
qed

lemma lookup_cache_good:
  assumes good: "good_cache B st" "good_cache B (env st)" and wf: "wf_name k"
  shows "ok (lookup_cache now env (wire k @ r) wild st al) (\<lambda>(res, w, s', al'). good_cache B s' \<and> (al = [] \<longrightarrow> al' = []) \<and>
    (\<forall>ce. res = Some ce \<longrightarrow> good_cent B ce))"
proof -
  have inv: "inv_but 0 st" "inv_but 0 (env st)" using good by (simp_all add: good_cache_def cache_inv_but)
  from lookup_cache_ok [where env = env, OF inv wf, of now r wild al] obtain res w s' al' where o: "lookup_cache now env (wire k @ r) wild st al = Some (res, w, s', al')"
    "CacheLookup.answer now st k wild al res w \<or> CacheLookup.answer now (env st) k wild al res w" by (rule ok4E) blast
  have ce: "good_cent B ce" if "res = Some ce" for ce using o(2) locate_good [OF good(1) wf] locate_good [OF good(2) wf] that by blast
  from lookup_cache_r_ok [OF inv(1) wf, of now r wild al] obtain pg res1 w1 al1 where
    1: "lookup_cache_r now (wire k @ r) wild st al = Some (pg, res1, w1, al1)" "pg \<longrightarrow> al1 = al" by (rule ok4E) (auto split: if_splits)
  have "good_cache B s' \<and> (al = [] \<longrightarrow> al' = [])"
  proof (cases pg)
    case True
    with 1 o(1) have "lookup_cache_rw now (wire k @ r) wild (env st) al = Some (res, w, s', al')" by (simp add: lookup_cache_def)
    with lookup_cache_rw_good [OF good(2) wf, of now r wild al] show ?thesis by simp
  next
    case False
    with 1 o(1) have e: "s' = st" "al' = al1" by (simp_all add: lookup_cache_def)
    have "al = [] \<longrightarrow> al1 = []"
    proof (cases "locate st k wild")
      case (Pair fa w')
      note fe = find_entry_ok [OF inv(1) wf, of r wild, unfolded Pair]
      show ?thesis
      proof (cases fa)
        case (Some a)
        with Pair obtain c k' where c: "cents st a = Some c" "cent_ok c" using locate_entry [OF inv(1) wf] by blast
        from copy_ok [OF c(2), of al] obtain y al2 where cp: "copy_cent c al = Some (y, al2)" "al = [] \<longrightarrow> al2 = []" by (rule ok2E) blast
        with 1(1) fe Some c(1) show ?thesis by (auto simp: lookup_cache_r_def bind_eq_Some_conv split: if_splits)
      qed (use 1(1) fe in \<open>auto simp: lookup_cache_r_def\<close>)
    qed
    with e good(1) show ?thesis by simp
  qed
  with o(1) ce show ?thesis by simp
qed

end
