(* ===== verification/AnswerInv.thy ===== *)
theory AnswerInv
  imports AnswerData
begin

text \<open>
  The invariant of a composition: the message consists of a header, the questions and records in the order of the
  sections, with the counts of the header right; the lists of names, of records added and of records to be added agree with it.
  \<open>K\<close> bounds all that has been written.
\<close>

section \<open>The layout of a message\<close>

fun has_rrs :: "bytes \<Rightarrow> nat \<Rightarrow> rrec list \<Rightarrow> nat \<Rightarrow> bool" where
  "has_rrs M i [] j \<longleftrightarrow> i = j"
| "has_rrs M i (r # rs) j \<longleftrightarrow> (\<exists>k. has_rr M i r k \<and> has_rrs M k rs j)"

type_synonym question = "label list \<times> 16 word \<times> 16 word"

definition has_q :: "bytes \<Rightarrow> nat \<Rightarrow> question \<Rightarrow> nat \<Rightarrow> bool" where
  "has_q M i = (\<lambda>(ls, t, cl) j. \<exists>n. has_name M i ls n \<and> j = i + n + 4 \<and> take 4 (drop (i + n) M) = be16 t @ be16 cl)"

fun has_qs :: "bytes \<Rightarrow> nat \<Rightarrow> question list \<Rightarrow> nat \<Rightarrow> bool" where
  "has_qs M i [] j \<longleftrightarrow> i = j"
| "has_qs M i (q # qs) j \<longleftrightarrow> (\<exists>k. has_q M i q k \<and> has_qs M k qs j)"

lemma has_rrs_append: "has_rrs M i (rs @ rs') j \<longleftrightarrow> (\<exists>k. has_rrs M i rs k \<and> has_rrs M k rs' j)"
  by (induction rs arbitrary: i) auto

lemma has_qs_append: "has_qs M i (qs @ qs') j \<longleftrightarrow> (\<exists>k. has_qs M i qs k \<and> has_qs M k qs' j)"
  by (induction qs arbitrary: i) auto

fun rank :: "msg_section \<Rightarrow> nat" where
  "rank S_ANSWER = 1" | "rank S_AUTHORITY = 2" | "rank S_ADDITIONAL = 3"

type_synonym placed = "msg_section \<times> rrec"

definition in_section :: "msg_section \<Rightarrow> placed list \<Rightarrow> nat" where
  "in_section sect recs = length (filter (\<lambda>(s', r). s' = sect) recs)"

text \<open>The header of an answer to the query with the header \<open>hq\<close>.\<close>

definition ans_hdr :: "dns_hdr \<Rightarrow> nat \<Rightarrow> nat \<Rightarrow> placed list \<Rightarrow> dns_hdr" where
  "ans_hdr hq rc nq recs = (fresh_hdr hq)\<lparr>h_rcode := of_nat rc, h_qdcount := of_nat nq,
     h_ancount := of_nat (in_section S_ANSWER recs), h_nscount := of_nat (in_section S_AUTHORITY recs),
     h_arcount := of_nat (in_section S_ADDITIONAL recs)\<rparr>"

definition layout :: "dns_hdr \<Rightarrow> question list \<Rightarrow> nat \<Rightarrow> placed list \<Rightarrow> answer \<Rightarrow> bool" where
  "layout hq qs rc recs a \<longleftrightarrow> get_hdr (a_buf a) = Some (ans_hdr hq rc (length qs) recs) \<and> sorted (map (rank \<circ> fst) recs) \<and>
     (\<exists>j. keeps {12..} (msg a) (\<lambda>M. has_qs M 12 qs j \<and> has_rrs M j (map snd recs) (a_sz a)))"

lemma ans_hdr_bump: "bump sect (ans_hdr hq rc nq recs) = ans_hdr hq rc nq (recs @ [(sect, r)])"
  by (cases sect) (simp_all add: bump_def ans_hdr_def in_section_def add.commute)

definition phase :: "msg_section \<Rightarrow> placed list \<Rightarrow> bool" where
  "phase sect recs \<longleftrightarrow> (\<forall>p \<in> set recs. rank (fst p) \<le> rank sect)"

lemma phase_simps [simp]: "phase sect []" "phase sect (recs @ recs') \<longleftrightarrow> phase sect recs \<and> phase sect recs'"
  "phase sect (p # recs) \<longleftrightarrow> rank (fst p) \<le> rank sect \<and> phase sect recs"
  by (auto simp: phase_def)

lemma layout_added:
  assumes l: "layout hq qs rc recs a" and ad: "AddRR.added sect r a b" and f: "frame a b" and p: "phase sect recs"
  shows "layout hq qs rc (recs @ [(sect, r)]) b"
proof -
  from l obtain j where j: "keeps {12..} (msg a) (\<lambda>M. has_qs M 12 qs j \<and> has_rrs M j (map snd recs) (a_sz a))"
    unfolding layout_def by blast
  have ag: "agree {12..} (msg a) (msg b)" using f by (simp add: frame_def)
  have "keeps {12..} (msg b) (\<lambda>M. has_rr M (a_sz a) r (a_sz b))" using ad by (simp add: AddRR.added_def)
  with keeps_agree [OF j ag] have "keeps {12..} (msg b) (\<lambda>M. (has_qs M 12 qs j \<and> has_rrs M j (map snd recs) (a_sz a)) \<and> has_rr M (a_sz a) r (a_sz b))"
    by (simp add: keeps_conj)
  then have "keeps {12..} (msg b) (\<lambda>M. has_qs M 12 qs j \<and> has_rrs M j (map snd (recs @ [(sect, r)])) (a_sz b))"
    by (rule keeps_mp) (auto simp: has_rrs_append)
  moreover have "get_hdr (a_buf b) = Some (ans_hdr hq rc (length qs) (recs @ [(sect, r)]))"
    using l ad ans_hdr_bump by (simp add: layout_def AddRR.added_def)
  moreover have "sorted (map (rank \<circ> fst) (recs @ [(sect, r)]))" using l p by (auto simp: layout_def phase_def sorted_append)
  ultimately show ?thesis unfolding layout_def by blast
qed

lemma layout_same:
  assumes l: "layout hq qs rc recs a" and m: "msg b = msg a" "a_sz b = a_sz a" and sz: "12 \<le> a_sz a" "a_sz a \<le> length (a_buf a)" "a_sz a \<le> length (a_buf b)"
  shows "layout hq qs rc recs b"
proof -
  have "take 12 (a_buf b) = take 12 (a_buf a)" using arg_cong [OF m(1), of "take 12"] m(2) sz(1) by (simp add: min_def)
  then have "get_hdr (a_buf b) = get_hdr (a_buf a)" using sz by (intro get_hdr_cong) auto
  moreover have "take (a_sz a) (a_buf b) = msg a" using m by simp
  ultimately show ?thesis using l unfolding layout_def m(2) by simp
qed

section \<open>The lists\<close>

text \<open>The compressor knows the name, or the message is too long for references to it.\<close>

definition kn :: "answer \<Rightarrow> label list \<Rightarrow> bool" where
  "kn a y \<longleftrightarrow> y = [] \<or> known (a_cb a) y \<or> max_ptr < a_sz a"

lemma kn_frame: "kn a y \<Longrightarrow> frame a b \<Longrightarrow> kn b y"
  unfolding kn_def frame_def using known_mono by (meson order.strict_trans2)

lemma names_known_kn: "names_known a fs \<longleftrightarrow> (\<forall>ls. Nam ls \<in> set fs \<longrightarrow> kn a ls)"
  by (simp add: names_known_def kn_def)

lemma frame_refl: "frame a a"
  by (simp add: frame_def)

lemma frame_trans: "frame a b \<Longrightarrow> frame b d \<Longrightarrow> frame a d"
  unfolding frame_def using agree_trans by (auto simp del: length_take)

definition sva_ok :: "answer \<Rightarrow> sva \<Rightarrow> bool" where
  "sva_ok a v \<longleftrightarrow> (\<exists>x d. wf_name x \<and> v_nm v = wire x @ d \<and> v_dlen v = length d \<and>
     (v_tp v = T_NS \<longrightarrow> (\<exists>y. wf_name y \<and> d = wire y \<and> kn a y)))"

definition re_ok :: "nat \<Rightarrow> answer \<Rightarrow> rr_ext \<Rightarrow> bool" where
  "re_ok B a re \<longleftrightarrow> (re_tp re = RRETP_ADD \<and> (\<exists>y r. wf_name y \<and> re_tnm re = wire y @ r \<and> kn a y)) \<or>
     (re_tp re \<in> {T_NS, T_SOA} \<and> (\<exists>x d. wf_name x \<and> rr_fits (re_tp re) d \<and> re_tsz re = length d \<and> re_tnm re = d @ wire x \<and> weight d \<le> B))"

definition lists_ok :: "nat \<Rightarrow> nat \<Rightarrow> compose \<Rightarrow> bool" where
  "lists_ok B K c \<longleftrightarrow> dl_inv (c_sva c) \<and> dl_inv (c_ar c) \<and> dl_used (c_sva c) \<le> 275 * K \<and> dl_used (c_ar c) \<le> 275 * K \<and>
     266 * length (dl_elems (c_ar c)) \<le> K \<and> (\<forall>v \<in> set (dl_elems (c_sva c)). sva_ok (c_ans c) v) \<and>
     (\<forall>re \<in> set (dl_elems (c_ar c)). re_ok B (c_ans c) re)"

definition comp_inv :: "nat \<Rightarrow> dns_hdr \<Rightarrow> question list \<Rightarrow> nat \<Rightarrow> placed list \<Rightarrow> compose \<Rightarrow> bool" where
  "comp_inv B hq qs K recs c \<longleftrightarrow> ans_ok K (c_ans c) \<and> layout hq qs (c_rcode c) recs (c_ans c) \<and> lists_ok B K c \<and> good_cache B (c_cache c)"

lemma sva_ok_frame: "sva_ok a v \<Longrightarrow> frame a b \<Longrightarrow> sva_ok b v"
  unfolding sva_ok_def using kn_frame by blast

lemma re_ok_frame: "re_ok B a re \<Longrightarrow> frame a b \<Longrightarrow> re_ok B b re"
  unfolding re_ok_def using kn_frame by blast

lemma lists_ok_frame: "lists_ok B K c \<Longrightarrow> frame (c_ans c) b \<Longrightarrow> K \<le> K' \<Longrightarrow> lists_ok B K' (c\<lparr>c_ans := b\<rparr>)"
  unfolding lists_ok_def using sva_ok_frame re_ok_frame by (auto intro: order_trans)

lemma ans_ok_mono: "ans_ok K a \<Longrightarrow> K \<le> K' \<Longrightarrow> ans_ok K' a"
  by (auto simp: ans_ok_def intro: order_trans)

lemma comp_inv_mono: "comp_inv B hq qs K recs c \<Longrightarrow> K \<le> K' \<Longrightarrow> comp_inv B hq qs K' recs c"
  unfolding comp_inv_def lists_ok_def by (auto intro: ans_ok_mono order_trans)

text \<open>The outcomes of allocations do not matter to the answer.\<close>

lemma al_simps [simp]:
  "ans_ok K (a\<lparr>a_al := al\<rparr>) = ans_ok K a" "layout hq qs rc recs (a\<lparr>a_al := al\<rparr>) = layout hq qs rc recs a"
  "kn (a\<lparr>a_al := al\<rparr>) y = kn a y" "sva_ok (a\<lparr>a_al := al\<rparr>) v = sva_ok a v" "re_ok B (a\<lparr>a_al := al\<rparr>) re = re_ok B a re"
  by (simp_all add: ans_ok_def layout_def kn_def sva_ok_def re_ok_def)

lemma frame_al: "(a_al a = [] \<longrightarrow> al = []) \<Longrightarrow> frame a (a\<lparr>a_al := al\<rparr>)"
  by (simp add: frame_def)

section \<open>Steps\<close>

text \<open>
  What a step does: it fails only for lack of memory; otherwise it appends records of which \<open>Q\<close> holds, and \<open>k\<close> is its cost.
\<close>

definition stepped ::
  "nat \<Rightarrow> dns_hdr \<Rightarrow> question list \<Rightarrow> nat \<Rightarrow> placed list \<Rightarrow> compose \<Rightarrow> nat \<Rightarrow> (placed list \<Rightarrow> compose \<Rightarrow> bool) \<Rightarrow> bool \<times> compose \<Rightarrow> bool" where
  "stepped B hq qs K recs c k Q = (\<lambda>(res, c'). (\<not> res \<longrightarrow> a_al (c_ans c) \<noteq> []) \<and>
     (res \<longrightarrow> (\<exists>new. Q new c' \<and> comp_inv B hq qs (K + k) (recs @ new) c') \<and> frame (c_ans c) (c_ans c') \<and>
        c_rcode c' = c_rcode c \<and> c_aa c' = c_aa c))"

lemma stepped_refl: "comp_inv B hq qs K recs c \<Longrightarrow> Q [] c \<Longrightarrow> stepped B hq qs K recs c k Q (True, c)"
  using comp_inv_mono [of B hq qs K recs c "K + k"] by (auto simp: stepped_def frame_refl intro!: exI [of _ "[]"])

lemma stepped_mono:
  "stepped B hq qs K recs c k Q r \<Longrightarrow> k \<le> k' \<Longrightarrow> (\<And>new c'. Q new c' \<Longrightarrow> Q' new c') \<Longrightarrow> stepped B hq qs K recs c k' Q' r"
  unfolding stepped_def using comp_inv_mono [of B hq qs "K + k" _ _ "K + k'"] by (cases r) (simp, blast)

lemma stepped_bind:
  assumes "ok m (stepped B hq qs K recs c k Q)"
    and "\<And>c' new. Q new c' \<Longrightarrow> comp_inv B hq qs (K + k) (recs @ new) c' \<Longrightarrow> frame (c_ans c) (c_ans c') \<Longrightarrow>
      c_rcode c' = c_rcode c \<Longrightarrow> c_aa c' = c_aa c \<Longrightarrow> ok (f c') (stepped B hq qs (K + k) (recs @ new) c' k' (\<lambda>new'. Q' (new @ new')))"
  shows "ok (do { (res, c') \<leftarrow> m; if \<not> res then Some (False, c') else f c' }) (stepped B hq qs K recs c (k + k') Q')"
  unfolding ok_bind using assms(1)
proof (rule ok_mono)
  fix r assume r: "stepped B hq qs K recs c k Q r"
  obtain res c' where rc: "r = (res, c')" by (cases r)
  show "ok (case r of (res, c') \<Rightarrow> if \<not> res then Some (False, c') else f c') (stepped B hq qs K recs c (k + k') Q')"
  proof (cases res)
    case False
    with r rc show ?thesis by (simp add: stepped_def)
  next
    case True
    with r rc obtain new where n: "Q new c'" "comp_inv B hq qs (K + k) (recs @ new) c'" "frame (c_ans c) (c_ans c')"
      "c_rcode c' = c_rcode c" "c_aa c' = c_aa c" by (auto simp: stepped_def)
    have al: "a_al (c_ans c) = [] \<longrightarrow> a_al (c_ans c') = []" using n(3) by (simp add: frame_def)
    have "ok (f c') (stepped B hq qs K recs c (k + k') Q')"
      using assms(2) [OF n]
    proof (rule ok_mono)
      fix x assume x: "stepped B hq qs (K + k) (recs @ new) c' k' (\<lambda>new'. Q' (new @ new')) x"
      obtain r2 c2 where x2: "x = (r2, c2)" by (cases x)
      show "stepped B hq qs K recs c (k + k') Q' x"
      proof (cases r2)
        case True
        with x x2 obtain new' where "Q' (new @ new') c2" "comp_inv B hq qs (K + k + k') ((recs @ new) @ new') c2" "frame (c_ans c') (c_ans c2)"
          "c_rcode c2 = c_rcode c'" "c_aa c2 = c_aa c'" by (auto simp: stepped_def)
        with n frame_trans [OF n(3)] True show ?thesis
          unfolding stepped_def x2 prod.case by (auto simp: add.assoc intro!: exI [of _ "new @ new'"])
      qed (use x x2 al in \<open>auto simp: stepped_def\<close>)
    qed
    with True rc show ?thesis by simp
  qed
qed


text \<open>A step that only changes the answer, and may remember the names it wrote.\<close>

lemma add_rr_step:
  assumes inv: "comp_inv B hq qs K recs c" and wf: "wf_name x" and fits: "fits tp fs" and d: "d = rdata_of fs"
    and K: "K + (266 + length d) \<le> 0x7fffffff" and ph: "phase sect recs"
    and addl: "sect = S_ADDITIONAL \<Longrightarrow> (\<forall>ls. Nam ls \<notin> set fs) \<and> kn (c_ans c) x"
  shows "ok (lift_ans (add_rr (wire x @ r1) tp life (length d) (d @ r2) sect udp) c) (stepped B hq qs K recs c (266 + length d)
    (\<lambda>new c'. (new = [(sect, rr_of x tp life fs)] \<and> names_known (c_ans c') (Nam x # fs) \<or> sect = S_ADDITIONAL \<and> new = []) \<and>
      c' = c\<lparr>c_ans := c_ans c'\<rparr>))"
proof -
  let ?a = "c_ans c" and ?K = "K + (266 + length d)"
  have a: "ans_ok K ?a" and l: "layout hq qs (c_rcode c) recs ?a" and ls: "lists_ok B K c" and g: "good_cache B (c_cache c)"
    using inv by (simp_all add: comp_inv_def)
  have "K + 266 + length (rdata_of fs) \<le> 0x7fffffff" using K d by simp
  from add_rr_ok [OF a wf fits this, of r1 life r2 sect udp] obtain res b
    where run: "add_rr (wire x @ r1) tp life (length d) (d @ r2) sect udp ?a = Some (res, b)"
      and post: "add_rr_post ?K sect udp (rr_of x tp life fs) ?a (res, b)"
    unfolding d by (auto simp: ok_def add.assoc)
  let ?c = "c\<lparr>c_ans := b\<rparr>"
  have res: "lift_ans (add_rr (wire x @ r1) tp life (length d) (d @ r2) sect udp) c = Some (res, ?c)" by (simp add: lift_ans_def run)
  show ?thesis
  proof (cases res)
    case False
    with post show ?thesis unfolding res by (simp add: add_rr_post_def stepped_def)
  next
    case True
    with post have f: "frame ?a b" and alt: "AddRR.added sect (rr_of x tp life fs) ?a b \<and> ans_ok ?K b \<or>
      left_out ?a b \<and> sect = S_ADDITIONAL \<and> ((\<forall>ls. Nam ls \<notin> set fs) \<and> kn ?a x \<longrightarrow> ans_ok ?K b)"
      by (auto simp: add_rr_post_def rr_of_def kn_def)
    have lb: "lists_ok B ?K ?c" by (rule lists_ok_frame [OF ls f]) simp
    from alt show ?thesis
    proof
      assume ad: "AddRR.added sect (rr_of x tp life fs) ?a b \<and> ans_ok ?K b"
      then have "comp_inv B hq qs ?K (recs @ [(sect, rr_of x tp life fs)]) ?c"
        using layout_added [OF l _ f ph] lb g by (simp add: comp_inv_def)
      moreover have "names_known b (Nam x # fs)" using ad by (simp add: AddRR.added_def rr_of_def)
      ultimately show ?thesis unfolding res using True f by (auto simp: stepped_def)
    next
      assume lo: "left_out ?a b \<and> sect = S_ADDITIONAL \<and> ((\<forall>ls. Nam ls \<notin> set fs) \<and> kn ?a x \<longrightarrow> ans_ok ?K b)"
      with addl have bk: "ans_ok ?K b" by blast
      have "msg b = msg ?a" "a_sz b = a_sz ?a" using lo by (auto simp: left_out_def)
      from layout_same [OF l this] a bk lb g have "comp_inv B hq qs ?K (recs @ []) ?c"
        using \<open>a_sz b = a_sz ?a\<close> by (simp add: comp_inv_def ans_ok_def)
      then show ?thesis unfolding res ok_Some stepped_def prod.case using True f lo by (intro conjI impI exI [of _ "[]"]) simp_all
    qed
  qed
qed

text \<open>Growing a list: the result of \<open>dlist_grow\<close> and the assignment to the new item.\<close>

lemma dlist_append_ok:
  fixes x :: 'a
  assumes "dl_inv a" and "dl_used a + (n + 15) \<le> 2 ^ 62"
  shows "ok (dlist_grow a n mem) (\<lambda>a'. (a' = None \<longrightarrow> \<not> mem) \<and> (\<forall>d. a' = Some d \<longrightarrow>
    ok (dlist_last_set d x n) (\<lambda>d'. dl_inv (Some d') \<and> dl_elems (Some d') = dl_elems a @ [x] \<and> dl_used (Some d') \<le> dl_used a + (n + 15))))"
proof -
  have u: "dl_used a + ((\<lambda>_. n) x + 15) \<le> 2 ^ 62" using assms(2) by simp
  have "ok (dlist_push (\<lambda>_. n) a x mem) (\<lambda>a'. (a' = None \<and> \<not> mem) \<or> (\<exists>d. a' = Some d \<and> dl_inv a' \<and> dl_elems a' = dl_elems a @ [x] \<and> dl_used a' \<le> dl_used a + (n + 15)))"
  proof -
    have no: "dl_elems (None :: 'a dlist option) = []" by (simp add: dl_elems_def dlist_items_def)
    have 1: "ok (dlist_push (\<lambda>_. n) a x True) (\<lambda>a'. dl_inv a' \<and> dl_elems a' = dl_elems a @ [x] \<and> dl_used a' \<le> dl_used a + (n + 15))"
      using dlist_push_ok [of a "\<lambda>_. n" x] u assms(1) by simp
    have 2: "ok (dlist_push (\<lambda>_. n) a x False) (\<lambda>a'. a' = None \<or> dl_inv a' \<and> dl_elems a' = dl_elems a @ [x] \<and> dl_used a' \<le> dl_used a + (n + 15))"
      using dlist_push_nomem [of a "\<lambda>_. n" x] u assms(1) by simp
    show ?thesis
    proof (cases mem)
      case True
      then show ?thesis using 1 no by (auto simp: ok_def) (metis Nil_is_append_conv not_Cons_self2 not_None_eq)
    next
      case False
      then show ?thesis using 2 no by (auto simp: ok_def)
    qed
  qed
  then show ?thesis unfolding dlist_push_def ok_bind
    by (rule ok_mono) (auto split: option.splits simp: ok_map_option elim!: ok_mono)
qed


lemma comp_inv_al:
  assumes "comp_inv B hq qs K recs c"
  shows "comp_inv B hq qs K recs (c\<lparr>c_ans := (c_ans c)\<lparr>a_al := al\<rparr>\<rparr>)"
  using assms by (simp add: comp_inv_def lists_ok_def)

lemma c_malloc_step:
  assumes "comp_inv B hq qs K recs c" and "c_malloc c = (mem, c')"
  shows "comp_inv B hq qs K recs c'" "a_al (c_ans c) = [] \<Longrightarrow> mem" "frame (c_ans c) (c_ans c')"
    "c' = c\<lparr>c_ans := (c_ans c)\<lparr>a_al := a_al (c_ans c')\<rparr>\<rparr>"
proof -
  from assms(2) obtain al where al: "malloc (a_al (c_ans c)) = (mem, al)" and c': "c' = c\<lparr>c_ans := (c_ans c)\<lparr>a_al := al\<rparr>\<rparr>"
    by (auto simp: c_malloc_def split: prod.splits)
  show "comp_inv B hq qs K recs c'" unfolding c' by (rule comp_inv_al [OF assms(1)])
  show "a_al (c_ans c) = [] \<Longrightarrow> mem" using al by auto
  show "frame (c_ans c) (c_ans c')" unfolding c' using al by (auto intro!: frame_al)
  show "c' = c\<lparr>c_ans := (c_ans c)\<lparr>a_al := a_al (c_ans c')\<rparr>\<rparr>" by (simp add: c')
qed

lemma memcpy_head: "length p = n \<Longrightarrow> memcpy (replicate (n + m) 0) (p @ r) n = Some (p @ replicate m 0)"
  by (simp add: memcpy_def)

lemma memcpy_all: "length q = m \<Longrightarrow> memcpy (replicate m 0) (q @ r) m = Some q"
  by (simp add: memcpy_def)

lemma sva_add_step:
  assumes inv: "comp_inv B hq qs K recs c" and wf: "wf_name x" and K: "K + (266 + length d) \<le> 0x7fffffff"
    and ns: "tp = T_NS \<Longrightarrow> \<exists>y. wf_name y \<and> d = wire y \<and> kn (c_ans c) y"
  shows "ok (sva_add (wire x @ r1) tp (length d) (d @ r2) c) (stepped B hq qs K recs c (266 + length d) (\<lambda>new c'. new = []))"
proof -
  let ?w = "length (wire x)" and ?d = "length d"
  obtain mem c1 where m: "c_malloc c = (mem, c1)" by (cases "c_malloc c")
  note c1 = c_malloc_step [OF inv m]
  have wl: "?w \<le> 256" using wf by (simp add: wf_name_def DNSNAMEBUFSIZE_def)
  have sv: "c_sva c1 = c_sva c" "c_ar c1 = c_ar c" "c_rcode c1 = c_rcode c" "c_aa c1 = c_aa c" by (subst c1(4), simp)+
  have l: "lists_ok B K c1" using c1(1) by (simp add: comp_inv_def)
  let ?n = "sizeof_sva + ?w + ?d" and ?v = "\<lparr>v_tp = tp, v_dlen = ?d, v_nm = wire x @ d\<rparr>"
  have "dl_used (c_sva c1) + (?n + 15) \<le> 2 ^ 62" using l wl K by (simp add: lists_ok_def sizeof_sva_def)
  with l have "ok (dlist_grow (c_sva c1) ?n mem) (\<lambda>a'. (a' = None \<longrightarrow> \<not> mem) \<and> (\<forall>e. a' = Some e \<longrightarrow> ok (dlist_last_set e ?v ?n)
    (\<lambda>d'. dl_inv (Some d') \<and> dl_elems (Some d') = dl_elems (c_sva c1) @ [?v] \<and> dl_used (Some d') \<le> dl_used (c_sva c1) + (?n + 15))))"
    by (intro dlist_append_ok) (simp_all add: lists_ok_def)
  then obtain a' where g: "dlist_grow (c_sva c1) ?n mem = Some a'" "a' = None \<longrightarrow> \<not> mem" and
    s: "\<And>e. a' = Some e \<Longrightarrow> ok (dlist_last_set e ?v ?n)
      (\<lambda>d'. dl_inv (Some d') \<and> dl_elems (Some d') = dl_elems (c_sva c1) @ [?v] \<and> dl_used (Some d') \<le> dl_used (c_sva c1) + (?n + 15))"
    by (auto simp: ok_def)
  show ?thesis
  proof (cases a')
    case None
    with g c1(2) show ?thesis by (auto simp: sva_add_def rhnlen_name [OF wf] m stepped_def)
  next
    case (Some e)
    from s [OF Some] obtain d' where d': "dlist_last_set e ?v ?n = Some d'" "dl_inv (Some d')" "dl_elems (Some d') = dl_elems (c_sva c1) @ [?v]"
      "dl_used (Some d') \<le> dl_used (c_sva c1) + (?n + 15)" by (auto simp: ok_def)
    let ?c = "c1\<lparr>c_sva := Some d'\<rparr>"
    have run: "sva_add (wire x @ r1) tp ?d (d @ r2) c = Some (True, ?c)"
      using g Some d'(1) by (simp add: sva_add_def rhnlen_name [OF wf] m memcpy_head memcpy_all)
    have "sva_ok (c_ans c1) ?v" unfolding sva_ok_def using ns wf kn_frame [OF _ c1(3)] by (intro exI [of _ x] exI [of _ d]) auto
    then have "lists_ok B (K + (266 + ?d)) ?c" using l d' wl by (auto simp: lists_ok_def sizeof_sva_def)
    then have "comp_inv B hq qs (K + (266 + ?d)) recs ?c"
      using c1(1) ans_ok_mono [of K "c_ans c1" "K + (266 + ?d)"] by (simp add: comp_inv_def)
    then show ?thesis unfolding run using c1(3) sv by (simp add: stepped_def)
  qed
qed

lemma add_ar_step:
  assumes inv: "comp_inv B hq qs K recs c" and K: "K + (266 + length d) \<le> 0x7fffffff" and d: "d = take tsz tnm" "tsz \<le> length tnm"
    and wf: "wf_name x" and re: "re_ok B (c_ans c) \<lparr>re_tp = tp, re_tsz = tsz, re_ttl = life, re_tnm = d @ (if tp \<in> {T_NS, T_SOA} then wire x else [])\<rparr>"
  shows "ok (add_ar tp tsz tnm (wire x) life c) (stepped B hq qs K recs c (266 + length d) (\<lambda>new c'. new = []))"
proof -
  let ?e = "if tp \<in> {T_NS, T_SOA} then wire x else []" and ?n = "sizeof_rr_ext + tsz + length (if tp \<in> {T_NS, T_SOA} then wire x else [])"
  obtain mem c1 where m: "c_malloc c = (mem, c1)" by (cases "c_malloc c")
  note c1 = c_malloc_step [OF inv m]
  have ld: "length d = tsz" using d by simp
  have wl: "length ?e \<le> 256" using wf by (simp add: wf_name_def DNSNAMEBUFSIZE_def)
  have nm: "(if tp = T_NS \<or> tp = T_SOA then rhnlen (wire x) else Some 0) = Some (length ?e)"
    using rhnlen_name [OF wf, of "[]"] by auto
  have sv: "c_sva c1 = c_sva c" "c_ar c1 = c_ar c" "c_rcode c1 = c_rcode c" "c_aa c1 = c_aa c" by (subst c1(4), simp)+
  have l: "lists_ok B K c1" using c1(1) by (simp add: comp_inv_def)
  let ?v = "\<lparr>re_tp = tp, re_tsz = tsz, re_ttl = life, re_tnm = d @ ?e\<rparr>"
  have "dl_used (c_ar c1) + (?n + 15) \<le> 2 ^ 62" using l wl K ld by (simp add: lists_ok_def sizeof_rr_ext_def)
  with l have "ok (dlist_grow (c_ar c1) ?n mem) (\<lambda>a'. (a' = None \<longrightarrow> \<not> mem) \<and> (\<forall>e. a' = Some e \<longrightarrow> ok (dlist_last_set e ?v ?n)
    (\<lambda>d'. dl_inv (Some d') \<and> dl_elems (Some d') = dl_elems (c_ar c1) @ [?v] \<and> dl_used (Some d') \<le> dl_used (c_ar c1) + (?n + 15))))"
    by (intro dlist_append_ok) (simp_all add: lists_ok_def)
  then obtain a' where g: "dlist_grow (c_ar c1) ?n mem = Some a'" "a' = None \<longrightarrow> \<not> mem" and
    s: "\<And>e. a' = Some e \<Longrightarrow> ok (dlist_last_set e ?v ?n)
      (\<lambda>d'. dl_inv (Some d') \<and> dl_elems (Some d') = dl_elems (c_ar c1) @ [?v] \<and> dl_used (Some d') \<le> dl_used (c_ar c1) + (?n + 15))"
    by (auto simp: ok_def)
  show ?thesis
  proof (cases a')
    case None
    with g c1(2) show ?thesis unfolding add_ar_def nm by (auto simp: m stepped_def)
  next
    case (Some e)
    from s [OF Some] obtain d' where d': "dlist_last_set e ?v ?n = Some d'" "dl_inv (Some d')" "dl_elems (Some d') = dl_elems (c_ar c1) @ [?v]"
      "dl_used (Some d') \<le> dl_used (c_ar c1) + (?n + 15)" by (auto simp: ok_def)
    let ?c = "c1\<lparr>c_ar := Some d'\<rparr>"
    have tnm: "tnm = d @ drop tsz tnm" using d by simp
    have "memcpy (replicate (tsz + length ?e) 0) tnm tsz = Some (d @ replicate (length ?e) 0)" 
      using memcpy_head [OF ld, of "length ?e" "drop tsz tnm"] tnm by simp
    moreover have "memcpy (replicate (length ?e) 0) (wire x) (length ?e) = Some ?e"
      using memcpy_all [of ?e "length ?e" "if tp \<in> {T_NS, T_SOA} then [] else wire x"] by auto
    ultimately have run: "add_ar tp tsz tnm (wire x) life c = Some (True, ?c)"
      using g Some d'(1) ld unfolding add_ar_def nm by (simp add: m)
    have "re_ok B (c_ans c1) ?v" using re_ok_frame [OF re c1(3)] .
    then have "lists_ok B (K + (266 + length d)) ?c" using l d' wl ld by (auto simp: lists_ok_def sizeof_rr_ext_def)
    then have "comp_inv B hq qs (K + (266 + length d)) recs ?c"
      using c1(1) ans_ok_mono [of K "c_ans c1" "K + (266 + length d)"] by (simp add: comp_inv_def)
    then show ?thesis unfolding run using c1(3) sv by (simp add: stepped_def)
  qed
qed

lemma c_lookup_step:
  assumes inv: "comp_inv B hq qs K recs c" and env: "good_cache B (env (c_cache c))" and wf: "wf_name x"
  shows "ok (c_lookup env (wire x @ r) c) (\<lambda>(ce, c'). comp_inv B hq qs K recs c' \<and> frame (c_ans c) (c_ans c') \<and>
    c_rcode c' = c_rcode c \<and> c_aa c' = c_aa c \<and> (\<forall>e. ce = Some e \<longrightarrow> good_cent B e))"
proof -
  obtain now c0 where t: "time c = (now, c0)" by (cases "time c")
  have c0: "\<exists>ts. c0 = c\<lparr>c_time := ts\<rparr>" using t by (auto simp: time_def split: list.splits) (metis compose.surjective compose.update_convs(6))
  then obtain ts0 where c0: "c0 = c\<lparr>c_time := ts0\<rparr>" ..
  have good: "good_cache B (c_cache c)" using inv by (simp add: comp_inv_def)
  from lookup_cache_good [where env = env, OF good env wf, of now r False "a_al (c_ans c)"] obtain ce w s' al' where
    l: "lookup_cache now env (wire x @ r) False (c_cache c) (a_al (c_ans c)) = Some (ce, w, s', al')"
    "good_cache B s'" "a_al (c_ans c) = [] \<longrightarrow> al' = []" "\<forall>e. ce = Some e \<longrightarrow> good_cent B e" by (rule ok4E) blast
  have run: "c_lookup env (wire x @ r) c = Some (ce, c0\<lparr>c_cache := s', c_ans := (c_ans c)\<lparr>a_al := al'\<rparr>\<rparr>)"
    using l(1) by (simp add: c_lookup_def t c0)
  show ?thesis unfolding run using inv l frame_al [OF l(3)] by (simp add: c0 comp_inv_def lists_ok_def)
qed

end
