(* ===== verification/AnswerSteps.thy ===== *)
theory AnswerSteps
  imports AnswerInv
begin

text \<open>
  The steps of a composition that add record sets: to the answer section with the records of an entry, rotated at random, and to the
  other sections without duplicates.
\<close>

lemma stepped_framed:
  "stepped B hq qs K recs c k Q r \<Longrightarrow> (\<And>new c'. Q new c' \<Longrightarrow> frame (c_ans c) (c_ans c') \<Longrightarrow> Q' new c') \<Longrightarrow> stepped B hq qs K recs c k Q' r"
  unfolding stepped_def by (cases r) (simp, blast)

section \<open>Loops over records\<close>

fun each :: "(bytes \<Rightarrow> compose \<Rightarrow> (bool \<times> compose) option) \<Rightarrow> bytes list \<Rightarrow> compose \<Rightarrow> (bool \<times> compose) option" where
  "each f [] c = Some (True, c)"
| "each f (d # ds) c = do { (res, c) \<leftarrow> f d c; if \<not> res then Some (False, c) else each f ds c }"

lemma rr_loop_plain:
  "i \<le> length bs \<Longrightarrow> length bs - i < fuel \<Longrightarrow> rr_loop fuel f False bs first i c = each f (drop i bs) c"
proof (induction fuel arbitrary: i c)
  case (Suc fuel)
  show ?case
  proof (cases "i < length bs")
    case True
    then have "drop i bs = bs ! i # drop (Suc i) bs" by (simp add: Cons_nth_drop_Suc)
    with True Suc show ?thesis by (auto intro!: Option.bind_cong)
  qed (use Suc in simp)
qed simp

lemma rr_loop_wrapped:
  "i < first \<Longrightarrow> first < length bs \<Longrightarrow> first - i < fuel \<Longrightarrow>
   rr_loop fuel f True bs first i c = each f (drop i (take first bs)) c"
proof (induction fuel arbitrary: i c)
  case (Suc fuel)
  have d: "drop i (take first bs) = bs ! i # drop (Suc i) (take first bs)"
    using Suc.prems by (simp add: Cons_nth_drop_Suc [symmetric])
  show ?case
  proof (cases "Suc i = first")
    case True
    with d Suc.prems show ?thesis by (auto intro!: Option.bind_cong)
  next
    case False
    with Suc d show ?thesis by (auto intro!: Option.bind_cong)
  qed
qed simp

lemma rr_loop_rotated:
  "first \<le> i \<Longrightarrow> i < length bs \<Longrightarrow> length bs - i + first < fuel \<Longrightarrow>
   rr_loop fuel f True bs first i c = each f (drop i bs @ take first bs) c"
proof (induction fuel arbitrary: i c)
  case (Suc fuel)
  have d: "drop i bs = bs ! i # drop (Suc i) bs" using Suc.prems by (simp add: Cons_nth_drop_Suc)
  show ?case
  proof (cases "Suc i < length bs")
    case True
    with Suc d show ?thesis by (auto intro!: Option.bind_cong)
  next
    case False
    show ?thesis
    proof (cases "first = 0")
      case True
      with Suc.prems d False show ?thesis by (auto intro!: Option.bind_cong)
    next
      case f: False
      with False Suc.prems have "rr_loop fuel f True bs first 0 c' = each f (take first bs) c'" for c'
        using rr_loop_wrapped [of 0 first bs fuel f c'] by simp
      with f Suc.prems d False show ?thesis by (auto intro!: Option.bind_cong)
    qed
  qed
qed simp

text \<open>Each record is visited exactly once, in the order of the list from some place on.\<close>

lemma for_rrs_rotate: "for_rrs g f bs c = (if rnd_recs g \<and> bs \<noteq> []
    then (case random c of (r, c) \<Rightarrow> each f (rotate (r mod length bs) bs) c) else each f bs c)"
proof (cases "rnd_recs g \<and> bs \<noteq> []")
  case True
  obtain r c1 where r: "random c = (r, c1)" by (cases "random c")
  let ?k = "r mod length bs"
  have k: "?k < length bs" using True by simp
  then have "drop ?k bs @ take ?k bs = rotate ?k bs" by (simp add: rotate_drop_take)
  with k True r show ?thesis
    using rr_loop_rotated [of ?k ?k bs "Suc (length bs)" f] by (simp add: for_rrs_def randrr_def)
next
  case False
  then show ?thesis using rr_loop_plain [of 0 bs "Suc (length bs)" f] by (auto simp: for_rrs_def randrr_def)
qed

lemma for_rrs_each:
  obtains k rs where "for_rrs g f bs c = each f (rotate k bs) (c\<lparr>c_rnd := rs\<rparr>)"
proof -
  obtain r rs where r: "random c = (r, c\<lparr>c_rnd := rs\<rparr>)"
    by (cases "c_rnd c") (auto simp: random_def, metis compose.surjective compose.update_convs(5))
  have "\<exists>k rs. for_rrs g f bs c = each f (rotate k bs) (c\<lparr>c_rnd := rs\<rparr>)"
  proof (cases "rnd_recs g \<and> bs \<noteq> []")
    case True
    with r for_rrs_rotate [of g f bs c] show ?thesis by auto
  next
    case False
    then have "for_rrs g f bs c = each f (rotate 0 bs) (c\<lparr>c_rnd := c_rnd c\<rparr>)" by (auto simp: for_rrs_rotate)
    then show ?thesis by blast
  qed
  with that show thesis by blast
qed

text \<open>
  The records of a set are added to the answer, and to the additional section, each exactly once and in the
  order of the cache, up to a rotation: with the option \<^verbatim>\<open>randomize_recs\<close> they start at a record that
  \<^verbatim>\<open>random()\<close> selects and wrap over, without it they start at the first. The loops along the linked list,
  which stop at the record they started at, are the same as a traversal of the rotated list, and always end.
\<close>

lemma rrset_order:
  "add_rrset g rrn tp queryts cached udp c = do {
     r \<leftarrow> getrrset cached (int tp);
     (case r of None \<Rightarrow> Some (True, c)
      | Some rs \<Rightarrow> if rnd_recs g \<and> rrs rs \<noteq> []
          then (case random c of (n, c) \<Rightarrow> each (add_rrset_rr rrn tp queryts rs udp) (rotate (n mod length (rrs rs)) (rrs rs)) c)
          else each (add_rrset_rr rrn tp queryts rs udp) (rrs rs) c) } \<and>
   add_additional_rrs g rrn tp life bs sect udp c =
     (let add = (\<lambda>b. add_additional_rr rrn tp life (length b) b sect udp) in
      if rnd_recs g \<and> bs \<noteq> [] then (case random c of (n, c) \<Rightarrow> each add (rotate (n mod length bs) bs) c) else each add bs c)"
  unfolding add_rrset_def add_additional_rrs_def for_rrs_rotate Let_def
  by (auto intro!: Option.bind_cong split: option.split)

lemma each_step:
  assumes step: "\<And>d c K recs. d \<in> set ds \<Longrightarrow> comp_inv B hq qs K recs c \<Longrightarrow> R c recs \<Longrightarrow> K + weight d \<le> 0x7fffffff \<Longrightarrow>
    ok (f d c) (stepped B hq qs K recs c (weight d) (\<lambda>new c'. Q d new \<and> R c' (recs @ new)))"
    and "comp_inv B hq qs K recs c" and "R c recs" and "K + weights ds \<le> 0x7fffffff"
  shows "ok (each f ds c) (stepped B hq qs K recs c (weights ds) (\<lambda>new c'. (\<exists>news. list_all2 Q ds news \<and> new = concat news) \<and> R c' (recs @ new)))"
  using assms
proof (induction ds arbitrary: K recs c)
  case Nil
  then show ?case by (auto intro!: stepped_refl)
next
  case (Cons d ds)
  have "ok (f d c) (stepped B hq qs K recs c (weight d) (\<lambda>new c'. Q d new \<and> R c' (recs @ new)))"
    using Cons.prems by (intro Cons.prems(1)) auto
  then show ?case unfolding each.simps weights_simps
  proof (rule stepped_bind)
    fix c' new
    assume q: "Q d new \<and> R c' (recs @ new)" and inv: "comp_inv B hq qs (K + weight d) (recs @ new) c'"
    have "ok (each f ds c') (stepped B hq qs (K + weight d) (recs @ new) c' (weights ds)
        (\<lambda>new' c'. (\<exists>news. list_all2 Q ds news \<and> new' = concat news) \<and> R c' ((recs @ new) @ new')))"
      using Cons.prems q inv by (intro Cons.IH) auto
    then show "ok (each f ds c') (stepped B hq qs (K + weight d) (recs @ new) c' (weights ds)
        (\<lambda>new' c'. (\<exists>news. list_all2 Q (d # ds) news \<and> new @ new' = concat news) \<and> R c' (recs @ new @ new')))"
    proof (rule ok_mono, elim stepped_mono)
      fix new' c'' assume "(\<exists>news. list_all2 Q ds news \<and> new' = concat news) \<and> R c'' ((recs @ new) @ new')"
      then obtain news where "list_all2 Q ds news" "new' = concat news" "R c'' (recs @ new @ new')" by auto
      with q show "(\<exists>news. list_all2 Q (d # ds) news \<and> new @ new' = concat news) \<and> R c'' (recs @ new @ new')"
        by (auto intro!: exI [of _ "new # news"])
    qed simp
  qed
qed


section \<open>The answer section\<close>

definition placed_rr :: "msg_section \<Rightarrow> label list \<Rightarrow> nat \<Rightarrow> 32 word \<Rightarrow> bytes \<Rightarrow> placed list \<Rightarrow> bool" where
  "placed_rr sect x tp life d new \<longleftrightarrow> (\<exists>fs. fits tp fs \<and> d = rdata_of fs \<and> new = [(sect, rr_of x tp life fs)])"

text \<open>The name that a record of one of the types in \<open>ar_recs\<close> refers to.\<close>

lemma fits_target:
  assumes "fits tp fs" and "(tp, offs) \<in> set (zip ar_recs ar_offs)"
  obtains y where "wf_name y" "Nam y \<in> set fs" "drop offs (rdata_of fs) = wire y" "offs \<le> length (rdata_of fs)"
proof -
  from assms(2) have "(tp \<in> {T_NS, T_MD, T_MF, T_MB} \<and> offs = 0) \<or> (tp = T_MX \<and> offs = 2) \<or> (tp = T_SRV \<and> offs = 6)"
    by (auto simp: ar_recs_def ar_offs_def)
  then show thesis
  proof (elim disjE)
    assume "tp \<in> {T_NS, T_MD, T_MF, T_MB} \<and> offs = 0"
    then obtain y where "fs = [Nam y]" "wf_name y" using assms(1) by (auto simp: fits_def)
    with that \<open>_ \<and> offs = 0\<close> show thesis by auto
  next
    assume o: "tp = T_MX \<and> offs = 2"
    then obtain p y where "fs = [Raw p, Nam y]" "length p = 2" "wf_name y" using assms(1) by (auto simp: fits_def type_defs)
    with that o show thesis by auto
  next
    assume o: "tp = T_SRV \<and> offs = 6"
    then obtain p y where "fs = [Raw p, Nam y]" "length p = 6" "wf_name y" using assms(1) by (auto simp: fits_def type_defs)
    with that o show thesis by auto
  qed
qed

lemma mark_ar_search:
  "(\<exists>offs. (tp, offs) \<in> set tab \<and> mark_ar tab tp d c = do { n \<leftarrow> usub (length d) offs; add_ar RRETP_ADD n (drop offs d) [0] 0 c }) \<or>
   mark_ar tab tp d c = Some (True, c)"
  by (induction tab) auto

lemma mark_ar_step:
  assumes inv: "comp_inv B hq qs K recs c" and fits: "fits tp fs" and d: "d = rdata_of fs" and nk: "names_known (c_ans c) fs"
    and K: "K + (266 + length d) \<le> 0x7fffffff"
  shows "ok (mark_ar (zip ar_recs ar_offs) tp d c) (stepped B hq qs K recs c (266 + length d) (\<lambda>new c'. new = []))"
  using mark_ar_search [of tp "zip ar_recs ar_offs" d c]
proof
  assume "\<exists>offs. (tp, offs) \<in> set (zip ar_recs ar_offs) \<and>
    mark_ar (zip ar_recs ar_offs) tp d c = do { n \<leftarrow> usub (length d) offs; add_ar RRETP_ADD n (drop offs d) [0] 0 c }"
  then obtain offs where o: "(tp, offs) \<in> set (zip ar_recs ar_offs)"
    and run: "mark_ar (zip ar_recs ar_offs) tp d c = do { n \<leftarrow> usub (length d) offs; add_ar RRETP_ADD n (drop offs d) [0] 0 c }" by blast
  from fits_target [OF fits o] obtain y where y: "wf_name y" "Nam y \<in> set fs" "drop offs d = wire y" "offs \<le> length d" using d by metis
  have ky: "kn (c_ans c) y" using nk y(2) by (simp add: names_known_kn)
  have len: "length d - offs = length (wire y)" using arg_cong [OF y(3), of length] by simp
  have "ok (add_ar RRETP_ADD (length (wire y)) (wire y) (wire []) 0 c) (stepped B hq qs K recs c (266 + length (wire y)) (\<lambda>new c'. new = []))"
  proof (rule add_ar_step [OF inv])
    show "re_ok B (c_ans c) \<lparr>re_tp = RRETP_ADD, re_tsz = length (wire y), re_ttl = 0,
        re_tnm = wire y @ (if RRETP_ADD \<in> {T_NS, T_SOA} then wire [] else [])\<rparr>"
      using y(1) ky by (auto simp: re_ok_def)
  qed (use K len in \<open>auto simp: wf_name_Nil\<close>)
  then show ?thesis unfolding run y(3) using y(4) len
    by (auto simp: usub_def elim!: ok_mono stepped_mono)
qed (use stepped_refl [OF inv] in simp)

lemma add_rrset_rr_step:
  assumes inv: "comp_inv B hq qs K recs c" and wf: "wf_name x" and rf: "rr_fits tp d" and K: "K + weight d \<le> 0x7fffffff" and ph: "phase S_ANSWER recs"
  shows "ok (add_rrset_rr (wire x @ r) tp queryts rs udp d c) (stepped B hq qs K recs c (weight d)
    (\<lambda>new c'. placed_rr S_ANSWER x tp (of_int (ans_ttl rs queryts)) d new \<and> phase S_ANSWER (recs @ new)))"
proof -
  obtain fs where fs: "fits tp fs" "d = rdata_of fs" using rf by (auto simp: rr_fits_def)
  let ?k = "266 + length d" and ?life = "of_int (ans_ttl rs queryts) :: 32 word"
  let ?p = "(S_ANSWER, rr_of x tp ?life fs)"
  have w: "weight d = ?k + (?k + ?k)" by (simp add: weight_def)
  have 1: "ok (lift_ans (add_rr (wire x @ r) tp ?life (length d) d S_ANSWER udp) c) (stepped B hq qs K recs c ?k
      (\<lambda>new c'. new = [?p] \<and> names_known (c_ans c') fs))"
    using add_rr_step [OF inv wf fs _ ph, of r ?life "[]" udp] K
    by (auto simp: w names_known_kn elim!: ok_mono stepped_mono)
  show ?thesis unfolding add_rrset_rr_def w
  proof (rule stepped_bind [OF 1])
    fix c1 new assume n: "new = [?p] \<and> names_known (c_ans c1) fs" and inv1: "comp_inv B hq qs (K + ?k) (recs @ new) c1"
    have "ok (if tp = T_NS \<or> tp = T_A \<or> tp = T_AAAA then sva_add (wire x @ r) tp (length d) d c1 else Some (True, c1))
        (stepped B hq qs (K + ?k) (recs @ new) c1 ?k (\<lambda>new' c'. new' = []))"
    proof (cases "tp = T_NS \<or> tp = T_A \<or> tp = T_AAAA")
      case True
      have "\<exists>y. wf_name y \<and> d = wire y \<and> kn (c_ans c1) y" if "tp = T_NS"
        using fs n that by (auto simp: fits_def names_known_kn)
      with sva_add_step [OF inv1 wf, of d tp r "[]"] K True show ?thesis by (simp add: w)
    qed (use stepped_refl [OF inv1] in simp)
    then show "ok (do { (res, c) \<leftarrow> if tp = T_NS \<or> tp = T_A \<or> tp = T_AAAA then sva_add (wire x @ r) tp (length d) d c1 else Some (True, c1);
          if \<not> res then Some (False, c) else mark_ar (zip ar_recs ar_offs) tp d c })
        (stepped B hq qs (K + ?k) (recs @ new) c1 (?k + ?k)
          (\<lambda>new' c'. placed_rr S_ANSWER x tp ?life d (new @ new') \<and> phase S_ANSWER (recs @ new @ new')))"
    proof (rule stepped_bind)
      fix c2 new2 assume n2: "new2 = []" and inv2: "comp_inv B hq qs (K + ?k + ?k) ((recs @ new) @ new2) c2" and f: "frame (c_ans c1) (c_ans c2)"
      have "names_known (c_ans c2) fs" using n kn_frame [OF _ f] by (auto simp: names_known_kn)
      moreover have "K + ?k + ?k + (266 + length d) \<le> 0x7fffffff" using K by (simp add: w)
      ultimately have "ok (mark_ar (zip ar_recs ar_offs) tp d c2) (stepped B hq qs (K + ?k + ?k) ((recs @ new) @ new2) c2 ?k (\<lambda>new' c'. new' = []))"
        by (rule mark_ar_step [OF inv2 fs])
      then show "ok (mark_ar (zip ar_recs ar_offs) tp d c2) (stepped B hq qs (K + ?k + ?k) ((recs @ new) @ new2) c2 ?k
          (\<lambda>new' c'. placed_rr S_ANSWER x tp ?life d (new @ new2 @ new') \<and> phase S_ANSWER (recs @ new @ new2 @ new')))"
        by (rule ok_mono) (erule stepped_mono, use n n2 fs ph in \<open>auto simp: placed_rr_def\<close>)
    qed
  qed
qed

text \<open>A set is added as a whole, in the order of the set from some place on.\<close>

definition placed_set :: "msg_section \<Rightarrow> label list \<Rightarrow> nat \<Rightarrow> 32 word \<Rightarrow> bytes list \<Rightarrow> placed list \<Rightarrow> bool" where
  "placed_set sect x tp life ds new \<longleftrightarrow> (\<exists>k news. list_all2 (placed_rr sect x tp life) (rotate k ds) news \<and> new = concat news)"

lemma weights_rotate: "weights (rotate k ds) = weights ds"
proof -
  have 1: "weights (rotate1 es) = weights es" for es by (cases es) (simp_all add: weights_def)
  show ?thesis unfolding rotate_def by (induction k) (simp_all add: 1)
qed

lemma comp_inv_rnd: "comp_inv B hq qs K recs c \<Longrightarrow> comp_inv B hq qs K recs (c\<lparr>c_rnd := rs\<rparr>)"
  by (simp add: comp_inv_def lists_ok_def)

lemma stepped_rnd: "stepped B hq qs K recs (c\<lparr>c_rnd := rs\<rparr>) k Q r \<Longrightarrow> stepped B hq qs K recs c k Q r"
  by (simp add: stepped_def)

lemma for_rrs_step:
  assumes step: "\<And>d c K recs. d \<in> set ds \<Longrightarrow> comp_inv B hq qs K recs c \<Longrightarrow> R c recs \<Longrightarrow> K + weight d \<le> 0x7fffffff \<Longrightarrow>
    ok (f d c) (stepped B hq qs K recs c (weight d) (\<lambda>new c'. Q d new \<and> R c' (recs @ new)))"
    and inv: "comp_inv B hq qs K recs c" and R: "\<And>rs. R (c\<lparr>c_rnd := rs\<rparr>) recs" and K: "K + weights ds \<le> 0x7fffffff"
  shows "ok (for_rrs g f ds c) (stepped B hq qs K recs c (weights ds)
    (\<lambda>new c'. (\<exists>k news. list_all2 Q (rotate k ds) news \<and> new = concat news) \<and> R c' (recs @ new)))"
proof -
  obtain k rs where e: "for_rrs g f ds c = each f (rotate k ds) (c\<lparr>c_rnd := rs\<rparr>)" by (rule for_rrs_each)
  have "ok (each f (rotate k ds) (c\<lparr>c_rnd := rs\<rparr>)) (stepped B hq qs K recs (c\<lparr>c_rnd := rs\<rparr>) (weights (rotate k ds))
      (\<lambda>new c'. (\<exists>news. list_all2 Q (rotate k ds) news \<and> new = concat news) \<and> R c' (recs @ new)))"
    by (rule each_step) (use step comp_inv_rnd [OF inv] R K in \<open>auto simp: weights_rotate\<close>)
  then show ?thesis unfolding e weights_rotate by (rule ok_mono) (erule stepped_rnd [THEN stepped_mono], auto)
qed

text \<open>What is left of the time to live of a record set: local records do not age, and clocks that run backwards do not make others younger.\<close>

definition remaining :: "rr_set \<Rightarrow> int \<Rightarrow> int" where
  "remaining rs now = (if has (flags rs) CF_LOCAL then ttl rs else max 0 (ttl rs - max 0 (now - ts rs)))"

lemma ans_ttl_remaining: "ans_ttl rs now = remaining rs now"
  by (simp add: ans_ttl_def remaining_def Let_def max_def)

definition set_life :: "dns_cent \<Rightarrow> nat \<Rightarrow> int \<Rightarrow> 32 word" where
  "set_life ce tp queryts = of_int (case rr ce (tidx tp) of None \<Rightarrow> 0 | Some rs \<Rightarrow> remaining rs queryts)"

lemma add_rrset_step:
  assumes inv: "comp_inv B hq qs K recs c" and wf: "wf_name x" and ce: "good_cent B ce" and K: "K + weights (recs_of ce tp) \<le> 0x7fffffff" and ph: "phase S_ANSWER recs"
  shows "ok (add_rrset g (wire x @ r) tp queryts ce udp c) (stepped B hq qs K recs c (weights (recs_of ce tp))
    (\<lambda>new c'. placed_set S_ANSWER x tp (set_life ce tp queryts) (recs_of ce tp) new \<and> phase S_ANSWER (recs @ new)))"
proof -
  have gr: "getrrset ce (int tp) = Some (if PDNSD_NOT_CACHED_TYPE tp then None else rr ce (tidx tp))"
    using getrrset_rr ce by (simp add: good_cent_def)
  show ?thesis
  proof (cases "recs_of ce tp = []")
    case True
    have "add_rrset g (wire x @ r) tp queryts ce udp c = Some (True, c)"
      using True gr by (auto simp: add_rrset_def recs_of_def split: option.splits if_splits)
    then show ?thesis using stepped_refl [OF inv] ph True by (auto simp: placed_set_def intro!: stepped_refl [OF inv])
  next
    case False
    then obtain rs where rs: "getrrset ce (int tp) = Some (Some rs)" "recs_of ce tp = rrs rs" "rrs rs \<noteq> []" "set_life ce tp queryts = of_int (ans_ttl rs queryts)"
      using gr by (auto simp: recs_of_def set_life_def ans_ttl_remaining split: option.splits if_splits)
    have "ok (for_rrs g (add_rrset_rr (wire x @ r) tp queryts rs udp) (rrs rs) c) (stepped B hq qs K recs c (weights (rrs rs))
        (\<lambda>new c'. (\<exists>k news. list_all2 (placed_rr S_ANSWER x tp (of_int (ans_ttl rs queryts))) (rotate k (rrs rs)) news \<and> new = concat news) \<and>
          phase S_ANSWER (recs @ new)))"
      by (rule for_rrs_step) (use add_rrset_rr_step wf recs_of_fits [OF ce, of _ tp] inv K ph rs in auto)
    then show ?thesis using rs(1,3) unfolding add_rrset_def rs(2,4) placed_set_def
      by (auto elim!: ok_mono stepped_mono)
  qed
qed


lemma add_rrsets_step:
  assumes "comp_inv B hq qs K recs c" and wf: "wf_name x" and ce: "good_cent B ce" and ph: "phase S_ANSWER recs"
    and "K + sum_list (map (\<lambda>tp. weights (recs_of ce tp)) tps) \<le> 0x7fffffff"
  shows "ok (add_rrsets g (wire x @ r) tps queryts ce udp c) (stepped B hq qs K recs c (sum_list (map (\<lambda>tp. weights (recs_of ce tp)) tps))
    (\<lambda>new c'. phase S_ANSWER (recs @ new)))"
  using assms(1,4,5)
proof (induction tps arbitrary: K recs c)
  case Nil
  then show ?case by (auto intro: stepped_refl)
next
  case (Cons tp tps)
  let ?w = "weights (recs_of ce tp)" and ?ws = "sum_list (map (\<lambda>tp. weights (recs_of ce tp)) tps)"
  have "ok (add_rrset g (wire x @ r) tp queryts ce udp c) (stepped B hq qs K recs c ?w
      (\<lambda>new c'. placed_set S_ANSWER x tp (set_life ce tp queryts) (recs_of ce tp) new \<and> phase S_ANSWER (recs @ new)))"
    by (rule add_rrset_step) (use Cons.prems wf ce in auto)
  then have "ok (add_rrset g (wire x @ r) tp queryts ce udp c) (stepped B hq qs K recs c ?w (\<lambda>new c'. phase S_ANSWER (recs @ new)))"
    by (rule ok_mono) (erule stepped_mono, auto)
  then show ?case unfolding add_rrsets.simps list.map sum_list.Cons
  proof (rule stepped_bind)
    fix c' new assume "phase S_ANSWER (recs @ new)" "comp_inv B hq qs (K + ?w) (recs @ new) c'"
    from Cons.IH [OF this(2,1)] Cons.prems
    show "ok (add_rrsets g (wire x @ r) tps queryts ce udp c') (stepped B hq qs (K + ?w) (recs @ new) c' ?ws (\<lambda>new' c'. phase S_ANSWER (recs @ new @ new')))"
      by simp
  qed
qed

text \<open>The types a query may ask for that are not rejected.\<close>

definition askable :: "nat \<Rightarrow> bool" where
  "askable qt \<longleftrightarrow> \<not> PDNSD_NOT_CACHED_TYPE qt \<or> qt \<in> {QT_MAILB, QT_MAILA, QT_ALL}"

lemma askable_cases:
  assumes "askable qt"
  obtains "qt = QT_MAILB" | "qt = QT_MAILA" | "qt = QT_ALL" | "T_MIN \<le> qt" "qt \<le> T_MAX" "qt \<notin> {QT_AXFR, QT_IXFR, QT_MAILB, QT_MAILA, QT_ALL}"
  using assms
  by (auto simp: askable_def PDNSD_NOT_CACHED_TYPE_def T_MIN_def T_MAX_def QT_AXFR_def QT_IXFR_def QT_MAILB_def QT_MAILA_def QT_ALL_def)

lemma iterlists:
  assumes "cent_ok ce"
  shows "NRRITERLIST ce = Some (length (iterlist ce))" "RRITERLIST ce = Some (iterlist ce)"
proof -
  have sh: "shape_ok ce" using assms by (simp add: cent_ok_def)
  show "NRRITERLIST ce = Some (length (iterlist ce))" "RRITERLIST ce = Some (iterlist ce)"
    using sh RRARR_LEN_slots [OF sh] iterlist_tidx(3) [OF sh]
    by (auto simp: RRITERLIST_def NRRITERLIST_def iterlist_def shape_ok_def split: cent_body.splits option.splits)
qed

lemma has_type_Some: "cent_ok ce \<Longrightarrow> \<exists>h. has_type ce qt = Some h"
  using have_rr_rr [of ce qt] by (auto simp: has_type_def)

lemma add_to_response_step:
  assumes inv: "comp_inv B hq qs K recs c" and wf: "wf_name x" and ce: "good_cent B ce" and ph: "phase S_ANSWER recs"
    and K: "K + (B + B) \<le> 0x7fffffff" and qt: "askable qt"
  shows "ok (add_to_response g (wire x @ r) qt queryts ce udp c) (stepped B hq qs K recs c (B + B) (\<lambda>new c'. phase S_ANSWER (recs @ new)))"
proof -
  have ok: "cent_ok ce" using ce by (simp add: good_cent_def)
  obtain h where h: "(if qt \<noteq> T_CNAME \<and> qt \<noteq> QT_ALL then has_type ce qt else Some True) = Some h"
    using has_type_Some [OF ok, of qt] by (cases "qt \<noteq> T_CNAME \<and> qt \<noteq> QT_ALL") auto
  have one: "ok (add_rrset g (wire x @ r) tp queryts ce udp c) (stepped B hq qs K recs c B (\<lambda>new c'. phase S_ANSWER (recs @ new)))"
    if "comp_inv B hq qs K recs c" "phase S_ANSWER recs" "K + B \<le> 0x7fffffff" for tp c K recs
  proof -
    have "ok (add_rrset g (wire x @ r) tp queryts ce udp c) (stepped B hq qs K recs c (weights (recs_of ce tp))
      (\<lambda>new c'. placed_set S_ANSWER x tp (set_life ce tp queryts) (recs_of ce tp) new \<and> phase S_ANSWER (recs @ new)))"
      by (rule add_rrset_step) (use that wf ce weights_type [OF ce, of tp] in auto)
    then show ?thesis by (rule ok_mono) (erule stepped_mono, use weights_type [OF ce, of tp] in auto)
  qed
  have many: "ok (add_rrsets g (wire x @ r) tps queryts ce udp c) (stepped B hq qs K recs c B (\<lambda>new c'. phase S_ANSWER (recs @ new)))"
    if "comp_inv B hq qs K recs c" "phase S_ANSWER recs" "K + B \<le> 0x7fffffff" "distinct tps" for tps c K recs
  proof -
    have "ok (add_rrsets g (wire x @ r) tps queryts ce udp c) (stepped B hq qs K recs c (sum_list (map (\<lambda>tp. weights (recs_of ce tp)) tps))
      (\<lambda>new c'. phase S_ANSWER (recs @ new)))"
      by (rule add_rrsets_step) (use that wf ce weights_types [OF ce that(4)] in auto)
    then show ?thesis by (rule ok_mono) (erule stepped_mono, use weights_types [OF ce that(4)] in auto)
  qed
  have "ok (if \<not> h then add_rrset g (wire x @ r) T_CNAME queryts ce udp c else Some (True, c)) (stepped B hq qs K recs c B (\<lambda>new c'. phase S_ANSWER (recs @ new)))"
    using one [OF inv ph] K stepped_refl [OF inv, of "\<lambda>new c'. phase S_ANSWER (recs @ new)" B] ph by simp
  then show ?thesis unfolding add_to_response_def h bind.bind_lunit
  proof (rule stepped_bind)
    fix c' new assume p: "phase S_ANSWER (recs @ new)" and inv': "comp_inv B hq qs (K + B) (recs @ new) c'"
    have d: "distinct (iterlist ce)" using iterlist_cached(2) strict_sorted_iff by blast
    have K': "K + B + B \<le> 0x7fffffff" using K by simp
    note one' = one [OF inv' p K'] and many' = many [OF inv' p K']
    show "ok (if qt = QT_AXFR \<or> qt = QT_IXFR then Some (False, c')
        else if qt = QT_MAILB then add_rrsets g (wire x @ r) [T_MB, T_MG, T_MR] queryts ce udp c'
        else if qt = QT_MAILA then add_rrsets g (wire x @ r) [T_MD, T_MF] queryts ce udp c'
        else if qt = QT_ALL then do {
          n \<leftarrow> NRRITERLIST ce; iterlist \<leftarrow> RRITERLIST ce; add_rrsets g (wire x @ r) (take n iterlist) queryts ce udp c' }
        else if qt \<ge> T_MIN \<and> qt \<le> T_MAX then add_rrset g (wire x @ r) qt queryts ce udp c'
        else Some (False, c')) (stepped B hq qs (K + B) (recs @ new) c' B (\<lambda>new' c'. phase S_ANSWER (recs @ new @ new')))"
      using qt
    proof (cases rule: askable_cases)
      case 1
      then show ?thesis using many' [of "[T_MB, T_MG, T_MR]"] by (simp add: QT_MAILB_def QT_AXFR_def QT_IXFR_def type_defs)
    next
      case 2
      then show ?thesis using many' [of "[T_MD, T_MF]"] by (simp add: QT_MAILA_def QT_MAILB_def QT_AXFR_def QT_IXFR_def type_defs)
    next
      case 3
      then show ?thesis using many' [OF d] iterlists [OF ok] by (simp add: QT_ALL_def QT_MAILA_def QT_MAILB_def QT_AXFR_def QT_IXFR_def)
    next
      case 4
      then show ?thesis using one' [of qt] by simp
    qed
  qed
qed


section \<open>The other sections\<close>

lemma sva_search_ok:
  assumes "\<forall>v \<in> set vs. sva_ok a v" and wf: "wf_name x"
  shows "ok (sva_search vs (wire x @ r1) tp (length d) (d @ r2)) (\<lambda>dup. dup \<and> tp = T_NS \<longrightarrow> (\<exists>y. wf_name y \<and> d = wire y \<and> kn a y))"
  using assms(1)
proof (induction vs)
  case (Cons v vs)
  from Cons.prems obtain x' d' where v: "wf_name x'" "v_nm v = wire x' @ d'" "v_dlen v = length d'"
    "v_tp v = T_NS \<longrightarrow> (\<exists>y. wf_name y \<and> d' = wire y \<and> kn a y)" by (auto simp: sva_ok_def)
  obtain e where e: "rhnicmp (wire x' @ d') (wire x @ r1) = Some e" using rhnicmp_wire [OF wf_name_labels [OF v(1)] wf_name_labels [OF wf]] by blast
  have s: "skiprhn (wire x' @ d') = Some d'" using v(1) by (simp add: skiprhn_wire wf_name_labels)
  from Cons show ?case using v e s by (auto simp: memeq_def)
qed simp

text \<open>The sections after the answer section: \<open>A\<close> are the records of the answer section.\<close>

definition later :: "placed list \<Rightarrow> msg_section \<Rightarrow> placed list \<Rightarrow> bool" where
  "later A sect recs \<longleftrightarrow> phase sect recs \<and> filter (\<lambda>p. fst p = S_ANSWER) recs = A"

lemma laterD: "later A sect recs \<Longrightarrow> phase sect recs"
  by (simp add: later_def)

lemma later_snoc: "later A sect recs \<Longrightarrow> sect \<noteq> S_ANSWER \<Longrightarrow> later A sect (recs @ [(sect, r)])"
  by (simp add: later_def)

lemma later_mono: "later A sect recs \<Longrightarrow> rank sect \<le> rank sect' \<Longrightarrow> later A sect' recs"
  by (auto simp: later_def phase_def intro: order_trans)

lemma add_additional_rr_step:
  assumes inv: "comp_inv B hq qs K recs c" and wf: "wf_name x" and rf: "rr_fits tp d" and K: "K + weight d \<le> 0x7fffffff" and ph: "later A sect recs" and ne: "sect \<noteq> S_ANSWER"
    and addl: "sect = S_ADDITIONAL \<Longrightarrow> tp \<in> {T_A, T_AAAA} \<and> kn (c_ans c) x"
  shows "ok (add_additional_rr (wire x @ r1) tp life (length d) (d @ r2) sect udp c) (stepped B hq qs K recs c (weight d)
    (\<lambda>new c'. later A sect (recs @ new) \<and> (tp = T_NS \<longrightarrow> (\<exists>y. wf_name y \<and> d = wire y \<and> kn (c_ans c') y))))"
proof -
  obtain fs where fs: "fits tp fs" "d = rdata_of fs" using rf by (auto simp: rr_fits_def)
  let ?k = "266 + length d" and ?Q = "\<lambda>new c'. later A sect (recs @ new) \<and> (tp = T_NS \<longrightarrow> (\<exists>y. wf_name y \<and> d = wire y \<and> kn (c_ans c') y))"
  have w: "weight d = ?k + (?k + ?k)" by (simp add: weight_def)
  have l: "dl_inv (c_sva c)" "\<forall>v \<in> set (dl_elems (c_sva c)). sva_ok (c_ans c) v" using inv by (simp_all add: comp_inv_def lists_ok_def)
  from sva_search_ok [OF l(2) wf, of r1 tp d r2] obtain dup
    where s: "sva_search (dl_elems (c_sva c)) (wire x @ r1) tp (length d) (d @ r2) = Some dup"
      "dup \<and> tp = T_NS \<longrightarrow> (\<exists>y. wf_name y \<and> d = wire y \<and> kn (c_ans c) y)" by (auto simp: ok_def)
  show ?thesis
  proof (cases dup)
    case True
    with s stepped_refl [OF inv, of ?Q "weight d"] ph show ?thesis by (simp add: add_additional_rr_def dlist_items_elems [OF l(1)])
  next
    case False
    have nn: "\<forall>ls. Nam ls \<notin> set fs" if "tp \<in> {T_A, T_AAAA}" using fs(1) that by (auto simp: fits_def type_defs)
    have "ok (lift_ans (add_rr (wire x @ r1) tp (of_int life) (length d) (d @ r2) sect udp) c) (stepped B hq qs K recs c ?k
        (\<lambda>new c'. later A sect (recs @ new) \<and> (sect \<noteq> S_ADDITIONAL \<longrightarrow> names_known (c_ans c') fs)))"
      using add_rr_step [OF inv wf fs _ laterD [OF ph], of r1 "of_int life" r2 udp] K addl nn ph later_snoc [OF ph ne]
      by (auto simp: w names_known_kn elim!: ok_mono stepped_mono)
    then have "ok (do { (res, c) \<leftarrow> lift_ans (add_rr (wire x @ r1) tp (of_int life) (length d) (d @ r2) sect udp) c;
        if \<not> res then Some (False, c) else sva_add (wire x @ r1) tp (length d) (d @ r2) c }) (stepped B hq qs K recs c (?k + ?k) ?Q)"
    proof (rule stepped_bind)
      fix c1 new
      assume n: "later A sect (recs @ new) \<and> (sect \<noteq> S_ADDITIONAL \<longrightarrow> names_known (c_ans c1) fs)" and inv1: "comp_inv B hq qs (K + ?k) (recs @ new) c1"
      have ns: "\<exists>y. wf_name y \<and> d = wire y \<and> kn (c_ans c1) y" if "tp = T_NS"
      proof -
        have "sect \<noteq> S_ADDITIONAL" using addl that by (auto simp: type_defs)
        with n fs that show ?thesis by (auto simp: fits_def names_known_kn)
      qed
      have "K + ?k + (266 + length d) \<le> 0x7fffffff" using K by (simp add: w)
      from sva_add_step [OF inv1 wf this, of tp r1 r2] ns
      have "ok (sva_add (wire x @ r1) tp (length d) (d @ r2) c1) (stepped B hq qs (K + ?k) (recs @ new) c1 ?k (\<lambda>new' c'. new' = []))" by blast
      then show "ok (sva_add (wire x @ r1) tp (length d) (d @ r2) c1) (stepped B hq qs (K + ?k) (recs @ new) c1 ?k (\<lambda>new' c'. ?Q (new @ new') c'))"
      proof (rule ok_mono, elim stepped_framed)
        fix new' :: "placed list" and c' assume "new' = []" and f: "frame (c_ans c1) (c_ans c')"
        with n ns kn_frame [OF _ f] show "?Q (new @ new') c'" by auto
      qed
    qed
    then have "ok (do { (res, c) \<leftarrow> lift_ans (add_rr (wire x @ r1) tp (of_int life) (length d) (d @ r2) sect udp) c;
        if \<not> res then Some (False, c) else sva_add (wire x @ r1) tp (length d) (d @ r2) c }) (stepped B hq qs K recs c (weight d) ?Q)"
      by (rule ok_mono) (erule stepped_mono, auto simp: w)
    then show ?thesis using False s(1) by (simp add: add_additional_rr_def dlist_items_elems [OF l(1)])
  qed
qed


definition target_known :: "answer \<Rightarrow> rr_ext \<Rightarrow> bool" where
  "target_known a re \<longleftrightarrow> (\<exists>y r. wf_name y \<and> re_tnm re = wire y @ r \<and> kn a y)"

lemma target_known_frame: "target_known a re \<Longrightarrow> frame a b \<Longrightarrow> target_known b re"
  unfolding target_known_def using kn_frame by blast

lemma add_authority_step:
  assumes "comp_inv B hq qs K recs c" and "\<forall>re \<in> set ar. re_ok B (c_ans c) re" and "later A S_AUTHORITY recs" and "K + length ar * B \<le> 0x7fffffff"
  shows "ok (add_authority ar udp c) (stepped B hq qs K recs c (length ar * B)
    (\<lambda>new c'. later A S_AUTHORITY (recs @ new) \<and> (\<forall>re \<in> set ar. re_tp re = T_NS \<longrightarrow> target_known (c_ans c') re)))"
  using assms
proof (induction ar arbitrary: K recs c)
  case Nil
  then show ?case by (auto intro: stepped_refl)
next
  case (Cons re ar)
  let ?P = "\<lambda>new c'. later A S_AUTHORITY (recs @ new) \<and> (re_tp re = T_NS \<longrightarrow> target_known (c_ans c') re)"
  have KB: "K + B \<le> 0x7fffffff" using Cons.prems(4) by simp
  have "ok (if re_tp re = T_NS \<or> re_tp re = T_SOA then
         add_additional_rr (drop (re_tsz re) (re_tnm re)) (re_tp re) (uint (re_ttl re)) (re_tsz re) (re_tnm re) S_AUTHORITY udp c
       else Some (True, c)) (stepped B hq qs K recs c B ?P)"
  proof (cases "re_tp re = T_NS \<or> re_tp re = T_SOA")
    case True
    then have "re_tp re \<noteq> RRETP_ADD" by (auto simp: RRETP_ADD_def type_defs)
    with Cons.prems(2) obtain x d where x: "wf_name x" "rr_fits (re_tp re) d" "re_tsz re = length d" "re_tnm re = d @ wire x" "weight d \<le> B"
      by (auto simp: re_ok_def)
    have "ok (add_additional_rr (wire x @ []) (re_tp re) (uint (re_ttl re)) (length d) (d @ wire x) S_AUTHORITY udp c) (stepped B hq qs K recs c (weight d)
      (\<lambda>new c'. later A S_AUTHORITY (recs @ new) \<and> (re_tp re = T_NS \<longrightarrow> (\<exists>y. wf_name y \<and> d = wire y \<and> kn (c_ans c') y))))"
      by (rule add_additional_rr_step) (use Cons.prems x KB in auto)
    then have "ok (add_additional_rr (wire x @ []) (re_tp re) (uint (re_ttl re)) (length d) (d @ wire x) S_AUTHORITY udp c) (stepped B hq qs K recs c B ?P)"
      by (rule ok_mono) (erule stepped_mono, use x in \<open>auto simp: target_known_def\<close>)
    with True x show ?thesis by simp
  qed (use Cons.prems in \<open>auto intro: stepped_refl\<close>)
  moreover have len: "length (re # ar) * B = B + length ar * B" by simp
  ultimately show ?case unfolding add_authority.simps len
  proof (elim stepped_bind)
    fix c1 new assume p: "?P new c1" and inv1: "comp_inv B hq qs (K + B) (recs @ new) c1" and f: "frame (c_ans c) (c_ans c1)"
    have "ok (add_authority ar udp c1) (stepped B hq qs (K + B) (recs @ new) c1 (length ar * B)
      (\<lambda>new' c'. later A S_AUTHORITY ((recs @ new) @ new') \<and> (\<forall>re \<in> set ar. re_tp re = T_NS \<longrightarrow> target_known (c_ans c') re)))"
      by (rule Cons.IH) (use Cons.prems p inv1 re_ok_frame [OF _ f] in auto)
    then show "ok (add_authority ar udp c1) (stepped B hq qs (K + B) (recs @ new) c1 (length ar * B)
      (\<lambda>new' c'. later A S_AUTHORITY (recs @ new @ new') \<and> (\<forall>re \<in> set (re # ar). re_tp re = T_NS \<longrightarrow> target_known (c_ans c') re)))"
    proof (rule ok_mono, elim stepped_framed)
      fix new' c' assume "later A S_AUTHORITY ((recs @ new) @ new') \<and> (\<forall>re \<in> set ar. re_tp re = T_NS \<longrightarrow> target_known (c_ans c') re)"
        and "frame (c_ans c1) (c_ans c')"
      with p target_known_frame show "later A S_AUTHORITY (recs @ new @ new') \<and> (\<forall>re \<in> set (re # ar). re_tp re = T_NS \<longrightarrow> target_known (c_ans c') re)" by auto
    qed
  qed
qed

lemma stepped_pre:
  assumes "stepped B hq qs K recs c' k Q r" and f: "frame (c_ans c) (c_ans c')" and "c_rcode c' = c_rcode c" "c_aa c' = c_aa c"
  shows "stepped B hq qs K recs c k Q r"
proof -
  have "a_al (c_ans c) = [] \<longrightarrow> a_al (c_ans c') = []" using f by (simp add: frame_def)
  with assms frame_trans [OF f] show ?thesis by (cases r) (auto simp: stepped_def)
qed

definition env_ok :: "nat \<Rightarrow> (cache \<Rightarrow> cache) \<Rightarrow> bool" where
  "env_ok B env \<longleftrightarrow> (\<forall>s0. good_cache B s0 \<longrightarrow> good_cache B (env s0))"

lemma lookup_then:
  assumes inv: "comp_inv B hq qs K recs c" and env: "env_ok B env" and wf: "wf_name x"
    and f: "\<And>ce c'. comp_inv B hq qs K recs c' \<Longrightarrow> frame (c_ans c) (c_ans c') \<Longrightarrow> c_rcode c' = c_rcode c \<Longrightarrow> c_aa c' = c_aa c \<Longrightarrow>
      (\<forall>e. ce = Some e \<longrightarrow> good_cent B e) \<Longrightarrow> ok (f ce c') Q"
  shows "ok (do { (ce, c') \<leftarrow> c_lookup env (wire x @ r) c; f ce c' }) Q"
proof -
  have "good_cache B (env (c_cache c))" using inv env by (simp add: comp_inv_def env_ok_def)
  from c_lookup_step [where env = env, OF inv this wf, of r] f show ?thesis
    unfolding ok_bind by (auto elim!: ok_mono)
qed

lemma add_additional_type_step:
  assumes inv: "comp_inv B hq qs K recs c" and wf: "wf_name x" and ce: "good_cent B ce" and K: "K + weights (recs_of ce tp) \<le> 0x7fffffff"
    and ph: "later A S_ADDITIONAL recs" and k: "kn (c_ans c) x" and tp: "tp \<in> {T_A, T_AAAA}"
  shows "ok (add_additional_type g (wire x @ r) tp queryts ce udp c) (stepped B hq qs K recs c (weights (recs_of ce tp))
    (\<lambda>new c'. later A S_ADDITIONAL (recs @ new)))"
proof -
  have gr: "getrrset ce (int tp) = Some (if PDNSD_NOT_CACHED_TYPE tp then None else rr ce (tidx tp))"
    using getrrset_rr ce by (simp add: good_cent_def)
  show ?thesis
  proof (cases "recs_of ce tp = []")
    case True
    have "add_additional_type g (wire x @ r) tp queryts ce udp c = Some (True, c)"
      using True gr by (auto simp: add_additional_type_def recs_of_def split: option.splits if_splits)
    then show ?thesis using stepped_refl [OF inv] ph True by (auto intro!: stepped_refl [OF inv])
  next
    case False
    then obtain rs where rs: "getrrset ce (int tp) = Some (Some rs)" "recs_of ce tp = rrs rs" "rrs rs \<noteq> []"
      using gr by (auto simp: recs_of_def split: option.splits if_splits)
    let ?f = "\<lambda>b. add_additional_rr (wire x @ r) tp (ans_ttl rs queryts) (length b) b S_ADDITIONAL udp"
    let ?R = "\<lambda>c recs. later A S_ADDITIONAL recs \<and> kn (c_ans c) x"
    have step: "ok (?f d c) (stepped B hq qs K recs c (weight d) (\<lambda>new c'. True \<and> ?R c' (recs @ new)))"
      if "d \<in> set (rrs rs)" "comp_inv B hq qs K recs c" "?R c recs" "K + weight d \<le> 0x7fffffff" for d c K recs
    proof -
      have "rr_fits tp d" using recs_of_fits [OF ce, of d tp] rs(2) that(1) by simp
      from add_additional_rr_step [OF that(2) wf this that(4), of A S_ADDITIONAL r "ans_ttl rs queryts" "[]" udp] that(3) tp
      have "ok (?f d c) (stepped B hq qs K recs c (weight d) (\<lambda>new c'. later A S_ADDITIONAL (recs @ new) \<and>
        (tp = T_NS \<longrightarrow> (\<exists>y. wf_name y \<and> d = wire y \<and> kn (c_ans c') y))))" by simp
      then show ?thesis by (rule ok_mono) (erule stepped_framed, use that(3) kn_frame in blast)
    qed
    have "ok (for_rrs g ?f (rrs rs) c) (stepped B hq qs K recs c (weights (rrs rs))
        (\<lambda>new c'. (\<exists>k news. list_all2 (\<lambda>_ _. True) (rotate k (rrs rs)) news \<and> new = concat news) \<and> ?R c' (recs @ new)))"
      by (rule for_rrs_step [where R = ?R]) (use step inv K ph k rs(2) in auto)
    then have "ok (for_rrs g ?f (rrs rs) c) (stepped B hq qs K recs c (weights (rrs rs)) (\<lambda>new c'. later A S_ADDITIONAL (recs @ new)))"
      by (rule ok_mono) (erule stepped_mono, auto)
    then show ?thesis using rs(1,3) unfolding add_additional_type_def add_additional_rrs_def rs(2) by simp
  qed
qed

end
