(* ===== verification/AnswerCompose.thy ===== *)
theory AnswerCompose
  imports AnswerSteps
begin

text \<open>
  The composition of a whole answer: the additional section, the chain of aliases of a question, and \<open>compose_answer\<close>
  itself.
\<close>

section \<open>The additional section\<close>

lemma add_additional_a_step:
  assumes inv: "comp_inv B hq qs K recs c" and env: "env_ok B env" and wf: "wf_name x" and K: "K + B \<le> 0x7fffffff"
    and ph: "later A S_ADDITIONAL recs" and k: "kn (c_ans c) x"
  shows "ok (add_additional_a g env (wire x @ r) queryts udp c) (stepped B hq qs K recs c B (\<lambda>new c'. later A S_ADDITIONAL (recs @ new)))"
  unfolding add_additional_a_def
proof (rule lookup_then [OF inv env wf])
  fix ae c1
  assume inv1: "comp_inv B hq qs K recs c1" and f1: "frame (c_ans c) (c_ans c1)" and same: "c_rcode c1 = c_rcode c" "c_aa c1 = c_aa c"
    and ae: "\<forall>e. ae = Some e \<longrightarrow> good_cent B e"
  have k1: "kn (c_ans c1) x" using k f1 by (rule kn_frame)
  have "ok (case ae of None \<Rightarrow> Some (True, c1)
      | Some ae \<Rightarrow> do {
          (retval, c) \<leftarrow> add_additional_type g (wire x @ r) T_A queryts ae udp c1;
          if retval then add_additional_type g (wire x @ r) T_AAAA queryts ae udp c else Some (False, c) })
    (stepped B hq qs K recs c1 B (\<lambda>new c'. later A S_ADDITIONAL (recs @ new)))"
  proof (cases ae)
    case None
    with stepped_refl [OF inv1] ph show ?thesis by simp
  next
    case (Some e)
    with ae have e: "good_cent B e" by simp
    let ?a = "weights (recs_of e T_A)" and ?aaaa = "weights (recs_of e T_AAAA)"
    have w: "?a + ?aaaa \<le> B" using weights_types [OF e, of "[T_A, T_AAAA]"] by (simp add: type_defs)
    have "ok (add_additional_type g (wire x @ r) T_A queryts e udp c1) (stepped B hq qs K recs c1 ?a (\<lambda>new c'. later A S_ADDITIONAL (recs @ new)))"
      by (rule add_additional_type_step) (use inv1 wf e K w ph k1 in auto)
    then have "ok (do { (retval, c) \<leftarrow> add_additional_type g (wire x @ r) T_A queryts e udp c1;
        if \<not> retval then Some (False, c) else add_additional_type g (wire x @ r) T_AAAA queryts e udp c })
      (stepped B hq qs K recs c1 (?a + ?aaaa) (\<lambda>new c'. later A S_ADDITIONAL (recs @ new)))"
    proof (rule stepped_bind)
      fix c2 new
      assume p: "later A S_ADDITIONAL (recs @ new)" and inv2: "comp_inv B hq qs (K + ?a) (recs @ new) c2" and f2: "frame (c_ans c1) (c_ans c2)"
      have "ok (add_additional_type g (wire x @ r) T_AAAA queryts e udp c2) (stepped B hq qs (K + ?a) (recs @ new) c2 ?aaaa
          (\<lambda>new' c'. later A S_ADDITIONAL ((recs @ new) @ new')))"
        by (rule add_additional_type_step) (use inv2 wf e K w p kn_frame [OF k1 f2] in auto)
      then show "ok (add_additional_type g (wire x @ r) T_AAAA queryts e udp c2) (stepped B hq qs (K + ?a) (recs @ new) c2 ?aaaa
          (\<lambda>new' c'. later A S_ADDITIONAL (recs @ new @ new')))" by simp
    qed
    then have "ok (do { (retval, c) \<leftarrow> add_additional_type g (wire x @ r) T_A queryts e udp c1;
        if \<not> retval then Some (False, c) else add_additional_type g (wire x @ r) T_AAAA queryts e udp c })
      (stepped B hq qs K recs c1 B (\<lambda>new c'. later A S_ADDITIONAL (recs @ new)))"
      by (rule ok_mono) (erule stepped_mono [OF _ w])
    moreover have "(if \<not> b then u else v) = (if b then v else u)" for b and u v :: "(bool \<times> compose) option" by simp
    ultimately show ?thesis using Some by simp
  qed
  then show "ok (case ae of None \<Rightarrow> Some (True, c1)
      | Some ae \<Rightarrow> do {
          (retval, c) \<leftarrow> add_additional_type g (wire x @ r) T_A queryts ae udp c1;
          if retval then add_additional_type g (wire x @ r) T_AAAA queryts ae udp c else Some (False, c) })
    (stepped B hq qs K recs c B (\<lambda>new c'. later A S_ADDITIONAL (recs @ new)))"
    by (rule ok_mono) (erule stepped_pre [OF _ f1 same])
qed

lemma add_additionals_step:
  assumes "comp_inv B hq qs K recs c" and "env_ok B env" and "\<forall>re \<in> set ar. re_tp re \<in> {T_NS, RRETP_ADD} \<longrightarrow> target_known (c_ans c) re"
    and "later A S_ADDITIONAL recs" and "K + length ar * B \<le> 0x7fffffff"
  shows "ok (add_additionals g env ar queryts udp c) (stepped B hq qs K recs c (length ar * B) (\<lambda>new c'. later A S_ADDITIONAL (recs @ new)))"
  using assms
proof (induction ar arbitrary: K recs c)
  case Nil
  then show ?case by (auto intro: stepped_refl)
next
  case (Cons re ar)
  have "ok (if re_tp re = T_NS \<or> re_tp re = RRETP_ADD then add_additional_a g env (re_tnm re) queryts udp c else Some (True, c))
      (stepped B hq qs K recs c B (\<lambda>new c'. later A S_ADDITIONAL (recs @ new)))"
  proof (cases "re_tp re = T_NS \<or> re_tp re = RRETP_ADD")
    case True
    with Cons.prems(3) obtain y r where y: "wf_name y" "re_tnm re = wire y @ r" "kn (c_ans c) y" by (auto simp: target_known_def)
    with add_additional_a_step [OF Cons.prems(1,2), of y A g r queryts udp] Cons.prems True show ?thesis by simp
  qed (use Cons.prems in \<open>auto intro: stepped_refl\<close>)
  moreover have len: "length (re # ar) * B = B + length ar * B" by simp
  ultimately show ?case unfolding add_additionals.simps len
  proof (elim stepped_bind)
    fix c1 new assume p: "later A S_ADDITIONAL (recs @ new)" and inv1: "comp_inv B hq qs (K + B) (recs @ new) c1" and f: "frame (c_ans c) (c_ans c1)"
    have "ok (add_additionals g env ar queryts udp c1) (stepped B hq qs (K + B) (recs @ new) c1 (length ar * B)
      (\<lambda>new' c'. later A S_ADDITIONAL ((recs @ new) @ new')))"
      by (rule Cons.IH) (use Cons.prems p inv1 target_known_frame [OF _ f] in auto)
    then show "ok (add_additionals g env ar queryts udp c1) (stepped B hq qs (K + B) (recs @ new) c1 (length ar * B)
      (\<lambda>new' c'. later A S_ADDITIONAL (recs @ new @ new')))" by simp
  qed
qed

lemma add_opt_step:
  assumes inv: "comp_inv B hq qs K recs c" and K: "K + 11 \<le> 0x7fffffff" and ph: "later A S_ADDITIONAL recs"
  shows "ok (add_opt g edns c) (stepped B hq qs K recs c 11 (\<lambda>new c'. later A S_ADDITIONAL (recs @ new)))"
proof -
  note all = laterD [OF ph] and snoc = later_snoc [OF ph]
  show ?thesis
  proof (cases edns)
    case False
    with stepped_refl [OF inv] ph show ?thesis by (simp add: add_opt_def)
  next
    case True
    let ?a = "c_ans c" and ?u = "of_nat (udpbufsize g) :: 16 word" and ?rc = "of_nat (c_rcode c) :: 16 word"
    have a: "ans_ok K ?a" and l: "layout hq qs (c_rcode c) recs ?a" and ls: "lists_ok B K c" and g: "good_cache B (c_cache c)"
      using inv by (simp_all add: comp_inv_def)
    from add_opt_ok [OF a K, of ?u ?rc 0 0] obtain res b where run: "add_opt_pseudo_rr ?u ?rc 0 0 ?a = Some (res, b)" and no: "\<not> res \<longrightarrow> a_al ?a \<noteq> []"
      and yes: "res \<Longrightarrow> frame ?a b \<and> AddRR.added S_ADDITIONAL (opt_rr ?u ?rc 0 0) ?a b \<and> ans_ok (K + 11) b"
      unfolding ok_def by auto
    have "comp_inv B hq qs (K + 11) (recs @ [(S_ADDITIONAL, opt_rr ?u ?rc 0 0)]) (c\<lparr>c_ans := b\<rparr>)" if res
      using yes [OF that] layout_added [OF l _ _ all] lists_ok_frame [OF ls, of b "K + 11"] g by (simp add: comp_inv_def)
    then show ?thesis using True run no yes snoc unfolding add_opt_def lift_ans_def by (auto simp: stepped_def)
  qed
qed

lemma phase_mono: "phase sect recs \<Longrightarrow> rank sect \<le> rank sect' \<Longrightarrow> phase sect' recs"
  by (auto simp: phase_def intro: order_trans)

definition rest_cost :: "nat \<Rightarrow> nat \<Rightarrow> nat" where
  "rest_cost B K = K div 266 * B + (11 + K div 266 * B)"

lemma later_any: "later (filter (\<lambda>p. fst p = S_ANSWER) recs) S_ADDITIONAL recs"
proof -
  have "rank sect \<le> rank S_ADDITIONAL" for sect by (cases sect) auto
  then show ?thesis by (simp add: later_def phase_def)
qed

lemma later_start: "phase S_ANSWER recs \<Longrightarrow> later recs S_ANSWER recs"
proof -
  have "rank s' \<le> rank S_ANSWER \<Longrightarrow> s' = S_ANSWER" for s' by (cases s') auto
  then show "phase S_ANSWER recs \<Longrightarrow> later recs S_ANSWER recs" by (auto simp: later_def phase_def filter_id_conv)
qed

lemma other_sections_step:
  assumes inv: "comp_inv B hq qs K recs c" and env: "env_ok B env" and ph: "phase S_ANSWER recs" and K: "K + rest_cost B K \<le> 0x7fffffff"
  shows "ok (other_sections g env queryts edns udp c) (stepped B hq qs K recs c (rest_cost B K) (\<lambda>new c'. later recs S_ADDITIONAL (recs @ new)))"
proof -
  let ?ar = "dl_elems (c_ar c)" and ?n = "K div 266"
  have l: "dl_inv (c_ar c)" "266 * length ?ar \<le> K" "\<forall>re \<in> set ?ar. re_ok B (c_ans c) re" using inv by (simp_all add: comp_inv_def lists_ok_def)
  have n: "length ?ar * B \<le> ?n * B" using l(2) by (intro mult_right_mono) (auto simp: less_eq_div_iff_mult_less_eq mult.commute)
  have KB: "K + length ?ar * B \<le> 0x7fffffff" "K + ?n * B + 11 + length ?ar * B \<le> 0x7fffffff"
    using n K unfolding rest_cost_def by linarith+
  let ?Q = "\<lambda>new c'. later recs S_AUTHORITY (recs @ new) \<and> (\<forall>re \<in> set ?ar. re_tp re = T_NS \<longrightarrow> target_known (c_ans c') re)"
  have "ok (add_authority ?ar udp c) (stepped B hq qs K recs c (length ?ar * B) ?Q)"
    by (rule add_authority_step [OF inv l(3) later_mono [OF later_start [OF ph]] KB(1)]) simp
  then have auth: "ok (add_authority ?ar udp c) (stepped B hq qs K recs c (?n * B) ?Q)"
    by (rule ok_mono) (erule stepped_mono [OF _ n])
  show ?thesis unfolding other_sections_def dlist_items_elems [OF l(1)] bind.bind_lunit rest_cost_def
  proof (rule stepped_bind [OF auth])
    fix c1 new assume q: "?Q new c1" and inv1: "comp_inv B hq qs (K + ?n * B) (recs @ new) c1" and f1: "frame (c_ans c) (c_ans c1)"
    have q1: "later recs S_ADDITIONAL (recs @ new)" using q by (auto intro: later_mono)
    show "ok (if over_udp udp (a_sz (c_ans c1) + sizeof_opt_pseudo_rr) then Some (True, c1)
        else do { (res, c) \<leftarrow> add_opt g edns c1; if \<not> res then Some (False, c) else add_additionals g env ?ar queryts udp c })
      (stepped B hq qs (K + ?n * B) (recs @ new) c1 (11 + ?n * B) (\<lambda>new' c'. later recs S_ADDITIONAL (recs @ new @ new')))"
    proof (cases "over_udp udp (a_sz (c_ans c1) + sizeof_opt_pseudo_rr)")
      case True
      with stepped_refl [OF inv1] q1 show ?thesis by simp
    next
      case False
      have "K + ?n * B + 11 \<le> 0x7fffffff" using K unfolding rest_cost_def by linarith
      from add_opt_step [OF inv1 this q1, of g edns]
      have "ok (do { (res, c) \<leftarrow> add_opt g edns c1; if \<not> res then Some (False, c) else add_additionals g env ?ar queryts udp c })
        (stepped B hq qs (K + ?n * B) (recs @ new) c1 (11 + ?n * B) (\<lambda>new' c'. later recs S_ADDITIONAL (recs @ new @ new')))"
      proof (rule stepped_bind)
        fix c2 new2 assume p: "later recs S_ADDITIONAL ((recs @ new) @ new2)" and inv2: "comp_inv B hq qs (K + ?n * B + 11) ((recs @ new) @ new2) c2"
          and f2: "frame (c_ans c1) (c_ans c2)"
        have known: "\<forall>re \<in> set ?ar. re_tp re \<in> {T_NS, RRETP_ADD} \<longrightarrow> target_known (c_ans c2) re"
        proof (intro ballI impI)
          fix re assume re: "re \<in> set ?ar" "re_tp re \<in> {T_NS, RRETP_ADD}"
          show "target_known (c_ans c2) re"
          proof (cases "re_tp re = T_NS")
            case True
            with re q have "target_known (c_ans c1) re" by blast
            then show ?thesis by (rule target_known_frame [OF _ f2])
          next
            case False
            with re have "re_tp re = RRETP_ADD" "re_tp re \<notin> {T_NS, T_SOA}" by (auto simp: RRETP_ADD_def type_defs)
            with l(3) re(1) have "target_known (c_ans c) re" by (auto simp: re_ok_def target_known_def)
            then show ?thesis by (rule target_known_frame [OF _ frame_trans [OF f1 f2]])
          qed
        qed
        have "ok (add_additionals g env ?ar queryts udp c2) (stepped B hq qs (K + ?n * B + 11) ((recs @ new) @ new2) c2 (length ?ar * B)
          (\<lambda>new' c'. later recs S_ADDITIONAL (((recs @ new) @ new2) @ new')))"
          by (rule add_additionals_step [OF inv2 env known p KB(2)])
        then show "ok (add_additionals g env ?ar queryts udp c2) (stepped B hq qs (K + ?n * B + 11) ((recs @ new) @ new2) c2 (?n * B) (\<lambda>new' c'. later recs S_ADDITIONAL (recs @ new @ new2 @ new')))"
          by (rule ok_mono) (erule stepped_mono [OF _ n], simp)
      qed
      with False show ?thesis by simp
    qed
  qed
qed


section \<open>The header\<close>

lemma upd_hdr_ok:
  assumes a: "ans_ok K a" and h: "get_hdr (a_buf a) = Some h"
  obtains b where "upd_hdr f a = Some b" "get_hdr (a_buf b) = Some (f h)" "ans_ok K b" "frame a b" "a_sz b = a_sz a" "length (msg b) = length (msg a)"
proof -
  let ?b = "a\<lparr>a_buf := put (a_buf a) 0 (hdr_bytes (f h))\<rparr>"
  from a have sz: "12 \<le> a_sz a" "a_sz a \<le> length (a_buf a)" by (simp_all add: ans_ok_def)
  have p: "put (a_buf a) 0 (hdr_bytes (f h)) = hdr_bytes (f h) @ drop 12 (a_buf a)" using sz by (simp add: put_def)
  then have g: "get_hdr (a_buf ?b) = Some (f h)" using get_hdr_bytes by simp
  have m: "length (msg ?b) = length (msg a)" using sz by (simp add: p)
  have "agree {12..} (msg a) (msg ?b)" using sz by (auto simp: agree_def nth_put p [symmetric])
  moreover from a have "keeps {12..} (msg a) (\<lambda>M. msg_ok M (a_cb a))" by (simp add: ans_ok_def)
  ultimately have "keeps {12..} (msg ?b) (\<lambda>M. msg_ok M (a_cb a))" "frame a ?b" by (auto simp: frame_def intro: keeps_agree)
  then have "ans_ok K ?b" "frame a ?b" using a by (simp_all add: ans_ok_def p)
  moreover have "upd_hdr f a = Some ?b" using h by (simp add: upd_hdr_def)
  ultimately show thesis using that g m by simp
qed

lemma layout_hdr:
  assumes "layout hq qs rc recs a" and f: "frame a b" "a_sz b = a_sz a" and "get_hdr (a_buf b) = Some (ans_hdr hq rc' (length qs) recs)"
  shows "layout hq qs rc' recs b"
proof -
  from assms(1) obtain j where j: "sorted (map (rank \<circ> fst) recs)" "keeps {12..} (msg a) (\<lambda>M. has_qs M 12 qs j \<and> has_rrs M j (map snd recs) (a_sz a))"
    unfolding layout_def by blast
  have "agree {12..} (msg a) (msg b)" using f(1) by (simp add: frame_def)
  from keeps_agree [OF j(2) this] j(1) assms(4) show ?thesis unfolding layout_def f(2) by blast
qed

lemma set_rcode_step:
  assumes inv: "comp_inv B hq qs K recs c"
  shows "ok (set_rcode rc c) (\<lambda>c'. comp_inv B hq qs K recs c' \<and> frame (c_ans c) (c_ans c') \<and> c_rcode c' = rc \<and> c_aa c' = c_aa c)"
proof -
  let ?a = "c_ans c" and ?f = "\<lambda>h. h\<lparr>h_rcode := of_nat rc\<rparr>"
  have a: "ans_ok K ?a" and l: "layout hq qs (c_rcode c) recs ?a" and ls: "lists_ok B K c" and g: "good_cache B (c_cache c)"
    using inv by (simp_all add: comp_inv_def)
  have h: "get_hdr (a_buf ?a) = Some (ans_hdr hq (c_rcode c) (length qs) recs)" using l by (simp add: layout_def)
  from upd_hdr_ok [OF a h, of ?f] obtain b where b: "upd_hdr ?f ?a = Some b" "get_hdr (a_buf b) = Some (?f (ans_hdr hq (c_rcode c) (length qs) recs))"
    "ans_ok K b" "frame ?a b" "a_sz b = a_sz ?a" by blast
  have "?f (ans_hdr hq (c_rcode c) (length qs) recs) = ans_hdr hq rc (length qs) recs" by (simp add: ans_hdr_def)
  with layout_hdr [OF l b(4,5)] b(2) have "layout hq qs rc recs b" by simp
  moreover have "lists_ok B K (c\<lparr>c_ans := b\<rparr>)" by (rule lists_ok_frame [OF ls b(4)]) simp
  ultimately have "comp_inv B hq qs K recs (c\<lparr>c_ans := b, c_rcode := rc\<rparr>)" using b(3) g by (simp add: comp_inv_def lists_ok_def)
  then show ?thesis using b(1,4) by (simp add: set_rcode_def)
qed

section \<open>Domains that do not exist\<close>

lemma add_soas_each: "add_soas nam life bs udp c = each (\<lambda>b. lift_ans (add_rr nam T_SOA (of_int life) (length b) b S_AUTHORITY udp)) bs c"
  by (induction bs arbitrary: c) (auto intro!: Option.bind_cong)

lemma add_soas_step:
  assumes inv: "comp_inv B hq qs K recs c" and wf: "wf_name x" and fit: "\<forall>d \<in> set ds. rr_fits T_SOA d" and K: "K + weights ds \<le> 0x7fffffff"
    and ph: "phase S_AUTHORITY recs"
  shows "ok (add_soas (wire x) life ds udp c) (stepped B hq qs K recs c (weights ds) (\<lambda>new c'. True))"
proof -
  let ?f = "\<lambda>b. lift_ans (add_rr (wire x) T_SOA (of_int life) (length b) b S_AUTHORITY udp)"
  have step: "ok (?f d c) (stepped B hq qs K recs c (weight d) (\<lambda>new c'. True \<and> phase S_AUTHORITY (recs @ new)))"
    if "d \<in> set ds" "comp_inv B hq qs K recs c" "phase S_AUTHORITY recs" "K + weight d \<le> 0x7fffffff" for d c K recs
  proof -
    have "rr_fits T_SOA d" using fit that(1) by blast
    then obtain fs where fs: "fits T_SOA fs" "d = rdata_of fs" unfolding rr_fits_def by blast
    have "K + (266 + length d) \<le> 0x7fffffff" using that(4) weight_ge(3) [of d] by simp
    from add_rr_step [OF that(2) wf fs this that(3), of "[]" "of_int life" "[]" udp]
    show ?thesis using that(3) weight_ge(3) [of d] by (auto elim!: ok_mono stepped_mono)
  qed
  have "ok (each ?f ds c) (stepped B hq qs K recs c (weights ds) (\<lambda>new c'. (\<exists>news. list_all2 (\<lambda>_ _. True) ds news \<and> new = concat news) \<and> phase S_AUTHORITY (recs @ new)))"
    by (rule each_step [where R = "\<lambda>c recs. phase S_AUTHORITY recs"]) (use step inv K ph in auto)
  then show ?thesis unfolding add_soas_each by (rule ok_mono) (erule stepped_mono, auto)
qed

text \<open>What the search for a part of a name returns.\<close>

lemma segs_of_name:
  assumes "wf_name x"
  shows "rhnsegcnt (wire x @ r) = Some (length x)" "skipsegs (wire x @ r) n = Some (wire (drop n x) @ r)" "wf_name (drop n x)"
  using assms by (simp_all add: rhnsegcnt_wire skipsegs_wire wf_name_labels wf_name_drop)

lemma negative_soa_step:
  assumes inv: "comp_inv B hq qs K recs c" and env: "env_ok B env" and wf: "wf_name x" and K: "K + B \<le> 0x7fffffff" and ph: "phase S_AUTHORITY recs"
  shows "ok (negative_soa env (wire x @ r) soa queryts udp c) (stepped B hq qs K recs c B (\<lambda>new c'. True))"
proof (cases "soa = cundef \<or> \<not> unat soa < length x")
  case True
  then show ?thesis using stepped_refl [OF inv] by (auto simp: negative_soa_def segs_of_name [OF wf])
next
  case False
  let ?n = "length x - unat soa"
  have "ok (do { (cached, c) \<leftarrow> c_lookup env (wire (drop ?n x) @ r) c;
      case cached of None \<Rightarrow> Some (True, c)
        | Some ce \<Rightarrow> do {
            r \<leftarrow> getrrset ce (int T_SOA);
            (case r of None \<Rightarrow> Some (True, c)
             | Some rs \<Rightarrow> if has (flags rs) CF_NEGATIVE then Some (True, c)
                 else add_soas (qname ce) (ans_ttl rs queryts) (rrs rs) udp c) } }) (stepped B hq qs K recs c B (\<lambda>new c'. True))"
  proof (rule lookup_then [OF inv env segs_of_name(3) [OF wf]])
    fix cached c1
    assume inv1: "comp_inv B hq qs K recs c1" and f1: "frame (c_ans c) (c_ans c1)" and same: "c_rcode c1 = c_rcode c" "c_aa c1 = c_aa c"
      and ce: "\<forall>e. cached = Some e \<longrightarrow> good_cent B e"
    note triv = stepped_pre [OF stepped_refl [OF inv1, of "\<lambda>_ _. True" B] f1 same]
    show "ok (case cached of None \<Rightarrow> Some (True, c1)
        | Some ce \<Rightarrow> do {
            r \<leftarrow> getrrset ce (int T_SOA);
            (case r of None \<Rightarrow> Some (True, c1)
             | Some rs \<Rightarrow> if has (flags rs) CF_NEGATIVE then Some (True, c1)
                 else add_soas (qname ce) (ans_ttl rs queryts) (rrs rs) udp c1) }) (stepped B hq qs K recs c B (\<lambda>new c'. True))"
    proof (cases cached)
      case None
      with triv show ?thesis by simp
    next
      case (Some e)
      with ce have e: "good_cent B e" by simp
      obtain k where k: "wf_name k" "qname e = wire k" using good_cent_name [OF e] by blast
      have gr: "getrrset e (int T_SOA) = Some (if PDNSD_NOT_CACHED_TYPE T_SOA then None else rr e (tidx T_SOA))"
        using getrrset_rr e by (simp add: good_cent_def)
      have add: "ok (add_soas (wire k) (ans_ttl rs queryts) (rrs rs) udp c1) (stepped B hq qs K recs c B (\<lambda>new c'. True))"
        if "getrrset e (int T_SOA) = Some (Some rs)" for rs
      proof -
        have rs: "rrs rs = recs_of e T_SOA" using that gr by (auto simp: recs_of_def split: if_splits)
        have w: "weights (rrs rs) \<le> B" using weights_type [OF e, of T_SOA] by (simp add: rs)
        have "ok (add_soas (wire k) (ans_ttl rs queryts) (rrs rs) udp c1) (stepped B hq qs K recs c1 (weights (rrs rs)) (\<lambda>new c'. True))"
          by (rule add_soas_step [OF inv1 k(1)]) (use recs_of_fits [OF e] rs w K ph in auto)
        then show ?thesis by (rule ok_mono) (rule stepped_pre [OF stepped_mono [OF _ w] f1 same])
      qed
      show ?thesis using Some gr add triv k(2) by (auto split: option.split)
    qed
  qed
  with False show ?thesis by (simp add: negative_soa_def segs_of_name [OF wf])
qed


section \<open>Stages\<close>

definition stage_ok :: "stage \<Rightarrow> placed list \<Rightarrow> bool" where
  "stage_ok st recs \<longleftrightarrow> (case st of
     Again q \<Rightarrow> phase S_ANSWER recs \<and> length q = DNSNAMEBUFSIZE \<and> (\<exists>y r. wf_name y \<and> q = wire y @ r)
   | Answered \<Rightarrow> phase S_ANSWER recs
   | _ \<Rightarrow> True)"

definition staged :: "nat \<Rightarrow> dns_hdr \<Rightarrow> question list \<Rightarrow> nat \<Rightarrow> placed list \<Rightarrow> compose \<Rightarrow> nat \<Rightarrow> stage \<times> compose \<Rightarrow> bool" where
  "staged B hq qs K recs c k = (\<lambda>(st, c'). (st = Error_ans \<longrightarrow> a_al (c_ans c) \<noteq> []) \<and>
     (st \<noteq> Error_ans \<longrightarrow> (\<exists>new. stage_ok st (recs @ new) \<and> comp_inv B hq qs (K + k) (recs @ new) c') \<and> frame (c_ans c) (c_ans c')))"

lemma staged_mono: "staged B hq qs K recs c k r \<Longrightarrow> k \<le> k' \<Longrightarrow> staged B hq qs K recs c k' r"
  unfolding staged_def using comp_inv_mono [of B hq qs "K + k" _ _ "K + k'"] by (cases r) (simp, blast)

lemma staged_pre:
  assumes "staged B hq qs K recs c' k r" and f: "frame (c_ans c) (c_ans c')"
  shows "staged B hq qs K recs c k r"
proof -
  have "a_al (c_ans c) = [] \<longrightarrow> a_al (c_ans c') = []" using f by (simp add: frame_def)
  with assms frame_trans [OF f] show ?thesis by (cases r) (auto simp: staged_def)
qed

text \<open>A step, and what is done with its result.\<close>

lemma staged_bind:
  assumes "ok m (stepped B hq qs K recs c k Q)"
    and "\<And>c' new. Q new c' \<Longrightarrow> comp_inv B hq qs (K + k) (recs @ new) c' \<Longrightarrow> frame (c_ans c) (c_ans c') \<Longrightarrow>
      ok (f c') (staged B hq qs (K + k) (recs @ new) c' k')"
  shows "ok (do { (res, c') \<leftarrow> m; if \<not> res then Some (Error_ans, c') else f c' }) (staged B hq qs K recs c (k + k'))"
  unfolding ok_bind using assms(1)
proof (rule ok_mono)
  fix r assume r: "stepped B hq qs K recs c k Q r"
  obtain res c' where rc: "r = (res, c')" by (cases r)
  show "ok (case r of (res, c') \<Rightarrow> if \<not> res then Some (Error_ans, c') else f c') (staged B hq qs K recs c (k + k'))"
  proof (cases res)
    case False
    with r rc show ?thesis by (simp add: stepped_def staged_def)
  next
    case True
    with r rc obtain new where n: "Q new c'" "comp_inv B hq qs (K + k) (recs @ new) c'" "frame (c_ans c) (c_ans c')"
      by (auto simp: stepped_def)
    have "ok (f c') (staged B hq qs K recs c (k + k'))" using assms(2) [OF n]
    proof (rule ok_mono)
      fix x assume "staged B hq qs (K + k) (recs @ new) c' k' x"
      from staged_pre [OF this n(3)] obtain st c2 where x: "x = (st, c2)" "st = Error_ans \<longrightarrow> a_al (c_ans c) \<noteq> []"
        "st \<noteq> Error_ans \<longrightarrow> (\<exists>new'. stage_ok st ((recs @ new) @ new') \<and> comp_inv B hq qs (K + k + k') ((recs @ new) @ new') c2) \<and> frame (c_ans c) (c_ans c2)"
        by (cases x) (auto simp: staged_def)
      then show "staged B hq qs K recs c (k + k') x" by (auto simp: staged_def add.assoc)
    qed
    with True rc show ?thesis by simp
  qed
qed

lemma staged_end:
  assumes "comp_inv B hq qs K recs c" and "stage_ok st recs" and "st \<noteq> Error_ans"
  shows "staged B hq qs K recs c k (st, c)"
  using assms comp_inv_mono [OF assms(1), of "K + k"] by (auto simp: staged_def frame_refl intro!: exI [of _ "[]"])

lemma staged_if:
  assumes "ok m (stepped B hq qs K recs c k Q)" and "\<And>new c'. Q new c' \<Longrightarrow> stage_ok st (recs @ new)" and "st \<noteq> Error_ans"
  shows "ok (do { (res, c) \<leftarrow> m; Some (if res then st else Error_ans, c) }) (staged B hq qs K recs c k)"
proof -
  have "ok (do { (res, c) \<leftarrow> m; if \<not> res then Some (Error_ans, c) else Some (st, c) }) (staged B hq qs K recs c (k + 0))"
    using assms(1) by (rule staged_bind) (use assms(2,3) staged_end in auto)
  moreover have "(do { (res, c) \<leftarrow> m; if \<not> res then Some (Error_ans, c) else Some (st, c) }) = (do { (res, c) \<leftarrow> m; Some (if res then st else Error_ans, c) })"
    by (auto intro!: Option.bind_cong)
  ultimately show ?thesis by simp
qed

lemma resolve_failed_step:
  assumes inv: "comp_inv B hq qs K recs c" and env: "env_ok B env" and wf: "wf_name x" and K: "K + (B + 11) \<le> 0x7fffffff" and ph: "phase S_ANSWER recs"
  shows "ok (resolve_failed g env rc soa (wire x @ r) queryts edns udp c) (staged B hq qs K recs c (B + 11))"
proof -
  from set_rcode_step [OF inv, of rc] obtain c1 where c1: "set_rcode rc c = Some c1" "comp_inv B hq qs K recs c1" "frame (c_ans c) (c_ans c1)"
    by (auto simp: ok_def)
  have "ok (if rc = RC_NAMEERR then do {
       (res, c) \<leftarrow> negative_soa env (wire x @ r) soa queryts udp c1;
       if \<not> res then Some (Error_ans, c)
       else do { (res, c) \<leftarrow> add_opt g edns c; Some (if res then Return_ans else Error_ans, c) } }
     else Some (Return_ans, c1)) (staged B hq qs K recs c1 (B + 11))"
  proof (cases "rc = RC_NAMEERR")
    case True
    have "ok (negative_soa env (wire x @ r) soa queryts udp c1) (stepped B hq qs K recs c1 B (\<lambda>new c'. True))"
      by (rule negative_soa_step [OF c1(2) env wf _ phase_mono [OF ph]]) (use K in auto)
    then have "ok (do { (res, c) \<leftarrow> negative_soa env (wire x @ r) soa queryts udp c1;
       if \<not> res then Some (Error_ans, c)
       else do { (res, c) \<leftarrow> add_opt g edns c; Some (if res then Return_ans else Error_ans, c) } }) (staged B hq qs K recs c1 (B + 11))"
    proof (rule staged_bind)
      fix c2 new assume inv2: "comp_inv B hq qs (K + B) (recs @ new) c2"
      have "K + B + 11 \<le> 0x7fffffff" using K by simp
      from add_opt_step [OF inv2 this later_any, of g edns]
      show "ok (do { (res, c) \<leftarrow> add_opt g edns c2; Some (if res then Return_ans else Error_ans, c) }) (staged B hq qs (K + B) (recs @ new) c2 11)"
        by (rule staged_if) (simp_all add: stage_ok_def)
    qed
    with True show ?thesis by simp
  next
    case False
    with staged_end [OF c1(2), of Return_ans] show ?thesis by (simp add: stage_ok_def)
  qed
  then have "ok (if rc = RC_NAMEERR then do {
       (res, c) \<leftarrow> negative_soa env (wire x @ r) soa queryts udp c1;
       if \<not> res then Some (Error_ans, c)
       else do { (res, c) \<leftarrow> add_opt g edns c; Some (if res then Return_ans else Error_ans, c) } }
     else Some (Return_ans, c1)) (staged B hq qs K recs c (B + 11))"
    by (rule ok_mono) (erule staged_pre [OF _ c1(3)])
  then show ?thesis by (simp add: resolve_failed_def c1(1))
qed


section \<open>The authority\<close>

lemma getlocalowner_ok:
  assumes inv: "inv_but y s0" and tp: "T_MIN \<le> tp" "tp \<le> T_MAX"
  shows "wf_name x \<Longrightarrow> ok (getlocalowner (wire x @ r) tp s0) (\<lambda>own. \<forall>n. own = Some n \<longrightarrow> (\<exists>k. wf_name k \<and> n = wire k @ r))"
proof (induction x)
  case Nil
  have "next_tail (wire [] @ r) = Some None" by (rule next_tail_wire(2) [of "[0]" "[]"]) (simp add: wf_label_def)
  then show ?case by (subst getlocalowner.simps) simp
next
  case (Cons l ls)
  have wf: "wf_name ls" using wf_name_drop [OF Cons.prems, of 1] by simp
  note IH = Cons.IH [OF wf]
  have nt: "next_tail (wire (l # ls) @ r) = Some (if ls = [] then None else Some (wire ls @ r))"
    by (rule next_tail_wire) (rule wf_name_labels [OF Cons.prems])
  obtain loc where l: "lookup s0 (wire ls @ r) = Some (found s0 ls, loc)" using lookup_found [OF inv_but_table [OF inv] wf] by blast
  show ?case
  proof (cases "ls = []")
    case True
    then show ?thesis using nt by (subst getlocalowner.simps) simp
  next
    case False
    show ?thesis
    proof (cases "found s0 ls")
      case None
      then show ?thesis using IH nt False l by (subst getlocalowner.simps) simp
    next
      case (Some a)
      obtain c where c: "cents s0 a = Some c" "cent_ok c" using found_entry [OF inv Some] by blast
      obtain h where "have_rr c tp = Some h" using have_rr_rr [OF c(2) tp] by blast
      then show ?thesis using IH nt False l Some c wf by (subst getlocalowner.simps) auto
    qed
  qed
qed

definition authority :: "nat \<Rightarrow> nat \<Rightarrow> (rr_set \<times> bytes) option \<Rightarrow> bool" where
  "authority B tp r \<longleftrightarrow> (\<forall>rs n. r = Some (rs, n) \<longrightarrow> (\<exists>ce. good_cent B ce \<and> rrs rs = recs_of ce tp \<and> n = qname ce))"

lemma authority_None [simp]: "authority B tp None"
  by (simp add: authority_def)

lemma getrrset_recs: "good_cent B ce \<Longrightarrow> getrrset ce (int tp) = Some (Some rs) \<Longrightarrow> rrs rs = recs_of ce tp"
  using getrrset_rr [of ce tp] by (cases "PDNSD_NOT_CACHED_TYPE tp"; cases "rr ce (tidx tp)") (auto simp: recs_of_def good_cent_def)

lemma authorityI: "good_cent B ce \<Longrightarrow> getrrset ce (int tp) = Some (Some rs) \<Longrightarrow> authority B tp (Some (rs, qname ce))"
  using getrrset_recs by (auto simp: authority_def)

lemma positive_Some: "positive r = Some rs \<Longrightarrow> r = Some rs"
  by (auto simp: positive_def split: option.splits if_splits)

lemma getrrset_good: "good_cent B ce \<Longrightarrow> \<exists>r. getrrset ce (int tp) = Some r"
  using getrrset_rr by (simp add: good_cent_def)

lemma find_authority_step:
  assumes inv: "comp_inv B hq qs K recs c" and env: "env_ok B env" and prev: "good_cent B prev" and tp: "T_MIN \<le> tp" "tp \<le> T_MAX"
  shows "ok (find_authority env prev tp c) (\<lambda>(r, c'). authority B tp r \<and> comp_inv B hq qs K recs c' \<and> frame (c_ans c) (c_ans c') \<and>
    c_rcode c' = c_rcode c \<and> c_aa c' = c_aa c)" (is "ok _ ?Q")
proof -
  obtain x where x: "wf_name x" "qname prev = wire x" using good_cent_name [OF prev] by blast
  obtain r0 where r0: "getrrset prev (int tp) = Some r0" using getrrset_good [OF prev] by blast
  show ?thesis
  proof (cases "positive r0")
    case (Some rs)
    with authorityI [OF prev] positive_Some r0 inv show ?thesis by (auto simp: find_authority_def frame_refl)
  next
    case none: None
    define tc where "tc = (if tp = T_NS then c_ns prev else c_soa prev)"
    obtain y where y: "wf_name y" "(if tc \<noteq> cundef \<and> unat tc < length x then skipsegs (wire x) (length x - unat tc) else Some (wire x)) = Some (wire y)"
      using segs_of_name(2) [OF x(1), of "[]"] segs_of_name(3) [OF x(1)] x(1) by (cases "tc \<noteq> cundef \<and> unat tc < length x") auto
    have nothing: "?Q (None, c')" if "comp_inv B hq qs K recs c'" "frame (c_ans c) (c_ans c')" "c_rcode c' = c_rcode c" "c_aa c' = c_aa c" for c'
      using that by (simp add: authority_def)
    have last: "ok (do { (cached, c2) \<leftarrow> c_lookup env n c1; case cached of None \<Rightarrow> Some (None, c2)
         | Some ce \<Rightarrow> do { r \<leftarrow> getrrset ce (int tp); Some (map_option (\<lambda>rs. (rs, qname ce)) r, c2) } }) ?Q"
      if n: "n = wire k @ r" "wf_name k" and c1: "comp_inv B hq qs K recs c1" "frame (c_ans c) (c_ans c1)" "c_rcode c1 = c_rcode c" "c_aa c1 = c_aa c" for n k r c1
      unfolding n(1)
    proof (rule lookup_then [OF c1(1) env n(2)])
      fix ce c2
      assume c2: "comp_inv B hq qs K recs c2" "frame (c_ans c1) (c_ans c2)" "c_rcode c2 = c_rcode c1" "c_aa c2 = c_aa c1" and g: "\<forall>e. ce = Some e \<longrightarrow> good_cent B e"
      have f: "frame (c_ans c) (c_ans c2)" using c1(2) c2(2) by (rule frame_trans)
      show "ok (case ce of None \<Rightarrow> Some (None, c2) | Some ce \<Rightarrow> do { r \<leftarrow> getrrset ce (int tp); Some (map_option (\<lambda>rs. (rs, qname ce)) r, c2) }) ?Q"
      proof (cases ce)
        case None
        then show ?thesis using nothing f c1 c2 by simp
      next
        case (Some e)
        with g have e: "good_cent B e" by simp
        obtain r1 where r1: "getrrset e (int tp) = Some r1" using getrrset_good [OF e] by blast
        show ?thesis using Some r1 authorityI [OF e] nothing f c1 c2 by (cases r1) auto
      qed
    qed
    have "ok (do { (cached, c1) \<leftarrow> c_lookup env (wire y @ []) c;
        r \<leftarrow> (case cached of None \<Rightarrow> Some None | Some ce \<Rightarrow> getrrset ce (int tp));
        (case (positive r, cached) of (Some rs, Some ce) \<Rightarrow> Some (Some (rs, qname ce), c1)
         | _ \<Rightarrow> if \<not> has (cflags prev) DF_LOCAL then Some (None, c1)
             else do {
               owner \<leftarrow> getlocalowner (wire x) tp (c_cache c1);
               (case owner of None \<Rightarrow> Some (None, c1)
                | Some n \<Rightarrow> do { (cached, c2) \<leftarrow> c_lookup env n c1; case cached of None \<Rightarrow> Some (None, c2)
                    | Some ce \<Rightarrow> do { r \<leftarrow> getrrset ce (int tp); Some (map_option (\<lambda>rs. (rs, qname ce)) r, c2) } }) }) }) ?Q"
    proof (rule lookup_then [OF inv env y(1)])
      fix ce c1
      assume c1: "comp_inv B hq qs K recs c1" "frame (c_ans c) (c_ans c1)" "c_rcode c1 = c_rcode c" "c_aa c1 = c_aa c" and g: "\<forall>e. ce = Some e \<longrightarrow> good_cent B e"
      have "\<exists>r. (case ce of None \<Rightarrow> Some None | Some ce \<Rightarrow> getrrset ce (int tp)) = Some r"
        using g getrrset_good by (cases ce) auto
      then obtain r1 where r1: "(case ce of None \<Rightarrow> Some None | Some ce \<Rightarrow> getrrset ce (int tp)) = Some r1" ..
      have inv1: "inv_but 0 (c_cache c1)" using c1(1) by (simp add: comp_inv_def good_cache_def cache_inv_but)
      from getlocalowner_ok [OF inv1 tp x(1), of "[]"] obtain own where own: "getlocalowner (wire x) tp (c_cache c1) = Some own"
        "\<forall>n. own = Some n \<longrightarrow> (\<exists>k. wf_name k \<and> n = wire k @ [])" by (auto simp: ok_def)
      have rest: "ok (case own of None \<Rightarrow> Some (None, c1)
          | Some n \<Rightarrow> do { (cached, c2) \<leftarrow> c_lookup env n c1; case cached of None \<Rightarrow> Some (None, c2)
              | Some ce \<Rightarrow> do { r \<leftarrow> getrrset ce (int tp); Some (map_option (\<lambda>rs. (rs, qname ce)) r, c2) } }) ?Q"
      proof (cases own)
        case None
        then show ?thesis using c1 by simp
      next
        case (Some n)
        then obtain k where "wf_name k" "n = wire k @ []" using own(2) by blast
        from last [OF this(2,1) c1] Some show ?thesis by simp
      qed
      show "ok (do { r \<leftarrow> (case ce of None \<Rightarrow> Some None | Some ce \<Rightarrow> getrrset ce (int tp));
          (case (positive r, ce) of (Some rs, Some ce) \<Rightarrow> Some (Some (rs, qname ce), c1)
           | _ \<Rightarrow> if \<not> has (cflags prev) DF_LOCAL then Some (None, c1)
               else do {
                 owner \<leftarrow> getlocalowner (wire x) tp (c_cache c1);
                 (case owner of None \<Rightarrow> Some (None, c1)
                  | Some n \<Rightarrow> do { (cached, c2) \<leftarrow> c_lookup env n c1; case cached of None \<Rightarrow> Some (None, c2)
                      | Some ce \<Rightarrow> do { r \<leftarrow> getrrset ce (int tp); Some (map_option (\<lambda>rs. (rs, qname ce)) r, c2) } }) }) }) ?Q"
      proof (cases "positive r1")
        case None
        then show ?thesis unfolding r1 bind.bind_lunit using rest own(1) c1 by simp
      next
        case (Some rs)
        then obtain e where e: "ce = Some e" "getrrset e (int tp) = Some (Some rs)" "good_cent B e"
          using r1 positive_Some [OF Some] g by (cases ce) auto
        then show ?thesis unfolding r1 bind.bind_lunit using Some authorityI [OF e(3,2)] c1 by simp
      qed
    qed
    then show ?thesis
      unfolding find_authority_def x(2) r0 bind.bind_lunit none option.case segs_of_name(1) [OF x(1), of "[]", unfolded append_Nil2]
        Let_def tc_def [symmetric] y(2) append_Nil2 .
  qed
qed


lemma add_ars_each: "add_ars tp bs nam life c = each (\<lambda>b. add_ar tp (length b) b nam life) bs c"
  by (induction bs arbitrary: c) (auto intro!: Option.bind_cong)

lemma all2_Nil: "list_all2 (\<lambda>_ new. new = []) ds news \<Longrightarrow> concat news = []"
  by (induction rule: list_all2_induct) simp_all

lemma note_authority_step:
  assumes inv: "comp_inv B hq qs K recs c" and env: "env_ok B env" and ce: "good_cent B ce" and K: "K + B \<le> 0x7fffffff" and ph: "phase S_ANSWER recs"
  shows "ok (note_authority env ce qt queryts c) (stepped B hq qs K recs c B (\<lambda>new c'. new = []))"
proof -
  have ok: "cent_ok ce" using ce by (simp add: good_cent_def)
  have "(if qt \<ge> T_MIN \<and> qt \<le> T_MAX then map_option Not (have_rr ce qt) else Some False) \<noteq> None"
    using have_rr_rr [OF ok, of qt] by auto
  moreover have "have_rr ce T_MB \<noteq> None" "have_rr ce T_MG \<noteq> None" "have_rr ce T_MR \<noteq> None" "have_rr ce T_MD \<noteq> None" "have_rr ce T_MF \<noteq> None"
    using have_rr_rr [OF ok] by (fastforce simp: type_defs T_MIN_def T_MAX_def)+
  ultimately obtain w where w: "want_soa ce qt = Some w" unfolding want_soa_def not_None_eq by (auto simp: bind_eq_None_conv)
  let ?tp = "if w then T_SOA else T_NS"
  have tp: "T_MIN \<le> ?tp" "?tp \<le> T_MAX" "?tp \<in> {T_NS, T_SOA}" by (auto simp: type_defs T_MIN_def T_MAX_def)
  from find_authority_step [OF inv env ce tp(1,2)] obtain r c1 where run: "find_authority env ce ?tp c = Some (r, c1)" and au: "authority B ?tp r"
    and c1: "comp_inv B hq qs K recs c1" "frame (c_ans c) (c_ans c1)" "c_rcode c1 = c_rcode c" "c_aa c1 = c_aa c" by (auto simp: ok_def)
  show ?thesis
  proof (cases r)
    case None
    then show ?thesis using w run stepped_pre [OF stepped_refl [OF c1(1)] c1(2-4)] ph by (simp add: note_authority_def)
  next
    case (Some p)
    obtain rs n where p: "p = (rs, n)" by (cases p)
    with au Some obtain e where e: "good_cent B e" "rrs rs = recs_of e ?tp" "n = qname e" by (auto simp: authority_def)
    obtain x where x: "wf_name x" "n = wire x" using good_cent_name [OF e(1)] e(3) by blast
    have wt: "weights (rrs rs) \<le> B" using weights_type [OF e(1)] e(2) by simp
    let ?life = "of_int (ans_ttl rs queryts) :: 32 word"
    let ?f = "\<lambda>b. add_ar ?tp (length b) b (wire x) ?life"
    have step: "ok (?f d c) (stepped B hq qs K recs c (weight d) (\<lambda>new c'. new = [] \<and> phase S_ANSWER (recs @ new)))"
      if "d \<in> set (rrs rs)" "comp_inv B hq qs K recs c" "phase S_ANSWER recs" "K + weight d \<le> 0x7fffffff" for d c K recs
    proof -
      have "rr_fits ?tp d" using recs_of_fits [OF e(1)] e(2) that(1) by simp
      moreover have "weight d \<le> B" using weight_mem [OF that(1)] wt by simp
      ultimately have "re_ok B (c_ans c) \<lparr>re_tp = ?tp, re_tsz = length d, re_ttl = ?life, re_tnm = d @ (if ?tp \<in> {T_NS, T_SOA} then wire x else [])\<rparr>"
        using x(1) tp(3) by (auto simp: re_ok_def)
      with that have "ok (?f d c) (stepped B hq qs K recs c (266 + length d) (\<lambda>new c'. new = []))"
        using weight_ge(3) [of d] x(1) by (intro add_ar_step) auto
      then show ?thesis by (rule ok_mono) (erule stepped_mono, use weight_ge(3) [of d] that(3) in auto)
    qed
    have "ok (each ?f (rrs rs) c1) (stepped B hq qs K recs c1 (weights (rrs rs))
        (\<lambda>new c'. (\<exists>news. list_all2 (\<lambda>_ new. new = []) (rrs rs) news \<and> new = concat news) \<and> phase S_ANSWER (recs @ new)))"
      by (rule each_step [where R = "\<lambda>c recs. phase S_ANSWER recs"]) (use step c1 wt K ph in auto)
    then have "ok (each ?f (rrs rs) c1) (stepped B hq qs K recs c B (\<lambda>new c'. new = []))"
      by (rule ok_mono) (rule stepped_pre [OF stepped_mono [OF _ wt] c1(2-4)], assumption, use all2_Nil in blast)
    then show ?thesis using w run Some p x(2) by (simp add: note_authority_def add_ars_each)
  qed
qed

section \<open>The answers to the questions\<close>

text \<open>What the answers rely on: the resolver returns good entries and keeps the cache good.\<close>

definition resolver_ok :: "nat \<Rightarrow> resolver \<Rightarrow> bool" where
  "resolver_ok B resolve \<longleftrightarrow> (\<forall>x r qt now s0 al res s1 al1. wf_name x \<longrightarrow> good_cache B s0 \<longrightarrow>
     resolve (wire x @ r) qt MAX_HOPS now s0 al = (res, s1, al1) \<longrightarrow>
     good_cache B s1 \<and> (al = [] \<longrightarrow> al1 = []) \<and> (\<forall>ce. res = Inr ce \<longrightarrow> good_cent B ce))"

lemma follow_cname_step:
  assumes ce: "good_cent B ce" and q: "length q = DNSNAMEBUFSIZE"
  shows "ok (follow_cname_chain ce q) (\<lambda>(fol, q'). if fol then length q' = DNSNAMEBUFSIZE \<and> (\<exists>y r. wf_name y \<and> q' = wire y @ r) else q' = q)"
proof -
  obtain r where r: "getrrset ce (int T_CNAME) = Some r" using getrrset_good [OF ce] by blast
  show ?thesis
  proof (cases r)
    case None
    with r show ?thesis by (simp add: follow_cname_chain_def)
  next
    case (Some rs)
    have rs: "rrs rs = recs_of ce T_CNAME" using r Some getrrset_recs [OF ce] by simp
    show ?thesis
    proof (cases "rrs rs")
      case Nil
      with r Some show ?thesis by (simp add: follow_cname_chain_def)
    next
      case (Cons d ds)
      then have "rr_fits T_CNAME d" using recs_of_fits [OF ce, of d T_CNAME] rs by simp
      then obtain y where y: "wf_name y" "d = wire y" by (auto simp: rr_fits_def fits_def)
      then have "length d \<le> DNSNAMEBUFSIZE" by (simp add: wf_name_def)
      with Cons r Some q y show ?thesis by (auto simp: follow_cname_chain_def memcpy_def)
    qed
  qed
qed

definition hop_cost :: "nat \<Rightarrow> nat" where
  "hop_cost B = 3 * B + 11"

lemma answer_hop_step:
  assumes inv: "comp_inv B hq qs K recs c" and env: "env_ok B env" and res: "resolver_ok B resolve" and wf: "wf_name x" "length (wire x @ r) = DNSNAMEBUFSIZE"
    and K: "K + hop_cost B \<le> 0x7fffffff" and ph: "phase S_ANSWER recs" and qt: "askable qt"
  shows "ok (answer_hop g env resolve qt rdf queryts edns udp (wire x @ r) c) (staged B hq qs K recs c (hop_cost B))"
proof -
  obtain rv s1 al1 where rv: "resolve (wire x @ r) qt MAX_HOPS queryts (c_cache c) (a_al (c_ans c)) = (rv, s1, al1)"
    by (cases "resolve (wire x @ r) qt MAX_HOPS queryts (c_cache c) (a_al (c_ans c))")
  have good: "good_cache B (c_cache c)" using inv by (simp add: comp_inv_def)
  have o: "good_cache B s1" "a_al (c_ans c) = [] \<longrightarrow> al1 = []" "\<And>ce. rv = Inr ce \<Longrightarrow> good_cent B ce"
    using res rv wf(1) good unfolding resolver_ok_def by blast+
  let ?c = "c\<lparr>c_cache := s1, c_ans := (c_ans c)\<lparr>a_al := al1\<rparr>\<rparr>"
  have inv1: "comp_inv B hq qs K recs ?c" and f1: "frame (c_ans c) (c_ans ?c)"
    using inv o(1) frame_al [OF o(2)] by (simp_all add: comp_inv_def lists_ok_def)
  show ?thesis
  proof (cases rv)
    case (Inl p)
    obtain rc soa where p: "p = (rc, soa)" by (cases p)
    have "ok (resolve_failed g env rc soa (wire x @ r) queryts edns udp ?c) (staged B hq qs K recs ?c (B + 11))"
      by (rule resolve_failed_step [OF inv1 env wf(1) _ ph]) (use K in \<open>simp add: hop_cost_def\<close>)
    then have "ok (resolve_failed g env rc soa (wire x @ r) queryts edns udp ?c) (staged B hq qs K recs c (hop_cost B))"
      by (rule ok_mono) (rule staged_mono [OF staged_pre [OF _ f1]], auto simp: hop_cost_def)
    with Inl p rv show ?thesis by (simp add: answer_hop_def)
  next
    case (Inr ce)
    have ce: "good_cent B ce" by (rule o(3) [OF Inr])
    let ?c2 = "if has (cflags ce) DF_LOCAL then ?c else ?c\<lparr>c_aa := False\<rparr>"
    have inv2: "comp_inv B hq qs K recs ?c2" and f2: "frame (c_ans c) (c_ans ?c2)"
      using inv1 f1 by (auto simp: comp_inv_def lists_ok_def)
    obtain h where h: "(if rdf \<and> qt \<noteq> T_CNAME \<and> qt \<noteq> QT_ALL then has_type ce qt else Some True) = Some h"
      using has_type_Some [of ce qt] ce by (cases "rdf \<and> qt \<noteq> T_CNAME \<and> qt \<noteq> QT_ALL") (auto simp: good_cent_def)
    have "ok (if \<not> h then follow_cname_chain ce (wire x @ r) else Some (False, wire x @ r))
        (\<lambda>(fol, q'). if fol then length q' = DNSNAMEBUFSIZE \<and> (\<exists>y r. wf_name y \<and> q' = wire y @ r) else q' = wire x @ r)"
      using follow_cname_step [OF ce wf(2)] by simp
    then obtain fol q where fol: "(if \<not> h then follow_cname_chain ce (wire x @ r) else Some (False, wire x @ r)) = Some (fol, q)"
      "fol \<Longrightarrow> length q = DNSNAMEBUFSIZE \<and> (\<exists>y r. wf_name y \<and> q = wire y @ r)" by (auto simp: ok_def split: if_splits)
    have K2: "K + (B + B) \<le> 0x7fffffff" "K + (B + B) + B \<le> 0x7fffffff" using K by (simp_all add: hop_cost_def)
    have "ok (do { (res, c) \<leftarrow> add_to_response g (wire x @ r) qt queryts ce udp ?c2;
        if \<not> res then Some (Error_ans, c)
        else if fol then Some (Again q, c)
        else do { (res, c) \<leftarrow> note_authority env ce qt queryts c; Some (if res then Answered else Error_ans, c) } })
      (staged B hq qs K recs ?c2 ((B + B) + B))"
    proof (rule staged_bind [OF add_to_response_step [OF inv2 wf(1) ce ph K2(1) qt]])
      fix c3 new assume p3: "phase S_ANSWER (recs @ new)" and inv3: "comp_inv B hq qs (K + (B + B)) (recs @ new) c3"
      show "ok (if fol then Some (Again q, c3)
          else do { (res, c) \<leftarrow> note_authority env ce qt queryts c3; Some (if res then Answered else Error_ans, c) })
        (staged B hq qs (K + (B + B)) (recs @ new) c3 B)"
      proof (cases fol)
        case True
        with fol(2) p3 staged_end [OF inv3, of "Again q" B] show ?thesis by (simp add: stage_ok_def)
      next
        case False
        from note_authority_step [OF inv3 env ce K2(2) p3, of qt queryts]
        have "ok (do { (res, c) \<leftarrow> note_authority env ce qt queryts c3; Some (if res then Answered else Error_ans, c) })
          (staged B hq qs (K + (B + B)) (recs @ new) c3 B)"
          by (rule staged_if) (use p3 in \<open>simp_all add: stage_ok_def\<close>)
        with False show ?thesis by simp
      qed
    qed
    then have "ok (do { (res, c) \<leftarrow> add_to_response g (wire x @ r) qt queryts ce udp ?c2;
        if \<not> res then Some (Error_ans, c)
        else if fol then Some (Again q, c)
        else do { (res, c) \<leftarrow> note_authority env ce qt queryts c; Some (if res then Answered else Error_ans, c) } })
      (staged B hq qs K recs c (hop_cost B))"
      by (rule ok_mono) (rule staged_mono [OF staged_pre [OF _ f2]], auto simp: hop_cost_def)
    then show ?thesis unfolding answer_hop_def rv Let_def prod.case Inr sum.case h bind.bind_lunit fol(1) .
  qed
qed

end
