(* ===== verification/AnswerProps.thy ===== *)
theory AnswerProps
  imports AnswerCompose
begin

text \<open>
  The answer as a whole: the chains of aliases, the questions, and \<open>compose_answer\<close>.
\<close>

section \<open>Chains of aliases\<close>

lemma staged_trans:
  assumes x: "staged B hq qs (K + k) (recs @ new) c' k' x" and f: "frame (c_ans c) (c_ans c')"
  shows "staged B hq qs K recs c (k + k') x"
proof -
  from staged_pre [OF x f] obtain st c2 where x: "x = (st, c2)" "st = Error_ans \<longrightarrow> a_al (c_ans c) \<noteq> []"
    "st \<noteq> Error_ans \<longrightarrow> (\<exists>new'. stage_ok st ((recs @ new) @ new') \<and> comp_inv B hq qs (K + k + k') ((recs @ new) @ new') c2) \<and> frame (c_ans c) (c_ans c2)"
    by (cases x) (auto simp: staged_def)
  then show ?thesis by (auto simp: staged_def add.assoc)
qed

definition no_again :: "stage \<Rightarrow> bool" where
  "no_again st \<longleftrightarrow> (\<forall>q. st \<noteq> Again q)"

lemma answer_hops_step:
  assumes env: "env_ok B env" and res: "resolver_ok B resolve" and qt: "askable qt"
  shows "comp_inv B hq qs K recs c \<Longrightarrow> wf_name x \<Longrightarrow> length (wire x @ r) = DNSNAMEBUFSIZE \<Longrightarrow> K + Suc hops * hop_cost B \<le> 0x7fffffff \<Longrightarrow> phase S_ANSWER recs \<Longrightarrow>
    ok (answer_hops hops (answer_hop g env resolve qt rdf queryts edns udp) (wire x @ r) c)
      (\<lambda>q. staged B hq qs K recs c (Suc hops * hop_cost B) q \<and> no_again (fst q))"
proof (induction hops arbitrary: K recs c x r)
  case 0
  have "ok (answer_hop g env resolve qt rdf queryts edns udp (wire x @ r) c) (staged B hq qs K recs c (hop_cost B))"
    by (rule answer_hop_step) (use 0 env res qt in auto)
  then show ?case unfolding answer_hops.simps ok_bind
  proof (rule ok_mono)
    fix q assume q: "staged B hq qs K recs c (hop_cost B) q"
    obtain st c' where p: "q = (st, c')" by (cases q)
    show "ok (case q of (st, c) \<Rightarrow> (case st of Again _ \<Rightarrow> Some (Answered, c) | _ \<Rightarrow> Some (st, c)))
        (\<lambda>q. staged B hq qs K recs c (Suc 0 * hop_cost B) q \<and> no_again (fst q))"
      using q by (cases st) (auto simp: p staged_def stage_ok_def no_again_def)
  qed
next
  case (Suc hops)
  have "ok (answer_hop g env resolve qt rdf queryts edns udp (wire x @ r) c) (staged B hq qs K recs c (hop_cost B))"
    by (rule answer_hop_step) (use Suc.prems env res qt in auto)
  then show ?case unfolding answer_hops.simps ok_bind
  proof (rule ok_mono)
    fix q assume q: "staged B hq qs K recs c (hop_cost B) q"
    obtain st c' where p: "q = (st, c')" by (cases q)
    have cost: "hop_cost B \<le> Suc (Suc hops) * hop_cost B" by simp
    show "ok (case q of (st, c) \<Rightarrow> (case st of Again qnm \<Rightarrow> answer_hops hops (answer_hop g env resolve qt rdf queryts edns udp) qnm c | _ \<Rightarrow> Some (st, c)))
        (\<lambda>q. staged B hq qs K recs c (Suc (Suc hops) * hop_cost B) q \<and> no_again (fst q))"
    proof (cases "\<exists>n. st = Again n")
      case True
      then obtain n where n: "st = Again n" ..
      from q n p obtain new y r' where new: "comp_inv B hq qs (K + hop_cost B) (recs @ new) c'" "phase S_ANSWER (recs @ new)" "frame (c_ans c) (c_ans c')"
        and y: "wf_name y" "n = wire y @ r'" "length n = DNSNAMEBUFSIZE" by (auto simp: staged_def stage_ok_def)
      have "ok (answer_hops hops (answer_hop g env resolve qt rdf queryts edns udp) (wire y @ r') c')
        (\<lambda>q. staged B hq qs (K + hop_cost B) (recs @ new) c' (Suc hops * hop_cost B) q \<and> no_again (fst q))"
        by (rule Suc.IH) (use new y Suc.prems in auto)
      then have "ok (answer_hops hops (answer_hop g env resolve qt rdf queryts edns udp) n c')
        (\<lambda>q. staged B hq qs K recs c (hop_cost B + Suc hops * hop_cost B) q \<and> no_again (fst q))"
        unfolding y(2) by (rule ok_mono) (use staged_trans [OF _ new(3)] in blast)
      then show ?thesis by (simp add: p n)
    next
      case False
      with staged_mono [OF q cost] show ?thesis by (cases st) (auto simp: p no_again_def)
    qed
  qed
qed

text \<open>The questions of a query, and what they become in the answer.\<close>

definition asks :: "dns_queryel \<Rightarrow> question \<Rightarrow> bool" where
  "asks qe = (\<lambda>(x, t, cl). wf_name x \<and> query qe = wire x \<and> t = qtype qe \<and> cl = qclass qe)"

definition query_cost :: "nat \<Rightarrow> nat" where
  "query_cost B = Suc MAX_HOPS * hop_cost B"

lemma answer_queries_step:
  assumes env: "env_ok B env" and res: "resolver_ok B resolve"
  shows "comp_inv B hq qs K recs c \<Longrightarrow> \<forall>qe \<in> set ql. askable (unat (qtype qe)) \<and> (\<exists>x. wf_name x \<and> query qe = wire x) \<Longrightarrow>
    K + length ql * query_cost B \<le> 0x7fffffff \<Longrightarrow> phase S_ANSWER recs \<Longrightarrow>
    ok (answer_queries g env resolve ql rdf queryts edns udp c) (\<lambda>q. staged B hq qs K recs c (length ql * query_cost B) q \<and> no_again (fst q))"
proof (induction ql arbitrary: K recs c)
  case Nil
  then show ?case using staged_end [of B hq qs K recs c Answered 0] by (simp add: stage_ok_def no_again_def)
next
  case (Cons qe ql)
  obtain x where x: "wf_name x" "query qe = wire x" and qt: "askable (unat (qtype qe))" using Cons.prems(2) by auto
  let ?fill = "replicate DNSNAMEBUFSIZE (a_fill (c_ans c))" and ?f = "answer_hop g env resolve (unat (qtype qe)) rdf queryts edns udp"
  have wl: "length (wire x) \<le> DNSNAMEBUFSIZE" using x(1) by (simp add: wf_name_def)
  have cpy: "rhncpy ?fill (query qe) = Some (length (wire x), wire x @ drop (length (wire x)) ?fill)"
    using rhncpy_wire [OF x(1), of ?fill "[]"] wl by (simp add: x(2))
  have len: "length (wire x @ drop (length (wire x)) ?fill) = DNSNAMEBUFSIZE" using wl by simp
  have "ok (answer_hops MAX_HOPS ?f (wire x @ drop (length (wire x)) ?fill) c) (\<lambda>q. staged B hq qs K recs c (query_cost B) q \<and> no_again (fst q))"
    unfolding query_cost_def by (rule answer_hops_step [OF env res qt Cons.prems(1) x(1) len]) (use Cons.prems in \<open>auto simp: query_cost_def\<close>)
  then show ?case unfolding answer_queries.simps cpy bind.bind_lunit prod.case ok_bind
  proof (rule ok_mono)
    fix q assume q: "staged B hq qs K recs c (query_cost B) q \<and> no_again (fst q)"
    obtain st c' where p: "q = (st, c')" by (cases q)
    show "ok (case q of (st, c) \<Rightarrow> if st = Answered then answer_queries g env resolve ql rdf queryts edns udp c else Some (st, c))
        (\<lambda>q. staged B hq qs K recs c (length (qe # ql) * query_cost B) q \<and> no_again (fst q))"
    proof (cases "st = Answered")
      case True
      from q True p obtain new where new: "comp_inv B hq qs (K + query_cost B) (recs @ new) c'" "phase S_ANSWER (recs @ new)" "frame (c_ans c) (c_ans c')"
        by (auto simp: staged_def stage_ok_def)
      have "ok (answer_queries g env resolve ql rdf queryts edns udp c')
        (\<lambda>q. staged B hq qs (K + query_cost B) (recs @ new) c' (length ql * query_cost B) q \<and> no_again (fst q))"
        by (rule Cons.IH) (use new Cons.prems in auto)
      then have "ok (answer_queries g env resolve ql rdf queryts edns udp c')
        (\<lambda>q. staged B hq qs K recs c (query_cost B + length ql * query_cost B) q \<and> no_again (fst q))"
        by (rule ok_mono) (use staged_trans [OF _ new(3)] in blast)
      with True p show ?thesis by simp
    next
      case False
      then show ?thesis using q p staged_mono [of B hq qs K recs c "query_cost B" q "length (qe # ql) * query_cost B"] by simp
    qed
  qed
qed


section \<open>The questions\<close>

lemma put_question:
  assumes "a_sz a + 4 \<le> length (a_buf a)"
  shows "(do { (buf, p) \<leftarrow> PUTINT16 t (a_buf a) (a_sz a); (buf, p) \<leftarrow> PUTINT16 cl buf p; f (a\<lparr>a_buf := buf, a_sz := a_sz a + 4\<rparr>) }) =
    (do { b \<leftarrow> put_bytes (be16 t @ be16 cl) 4 a; f b })"
proof -
  have "put (put (a_buf a) (a_sz a) (be16 t)) (a_sz a + 2) (be16 cl) = put (a_buf a) (a_sz a) (be16 t @ be16 cl)"
    using put_put [of "a_sz a" "be16 t" "be16 cl" "a_buf a"] assms by simp
  moreover have "put_bytes (be16 t @ be16 cl) 4 a = Some (a\<lparr>a_buf := put (a_buf a) (a_sz a) (be16 t @ be16 cl), a_sz := a_sz a + 4\<rparr>)"
    using put_bytes_run [of 4 "be16 t @ be16 cl" a] assms by simp
  ultimately show ?thesis using assms by (simp add: PUTINT16_be16)
qed

lemma has_fields_q: "has_fields M i [Nam x, Raw (be16 t @ be16 cl)] j \<Longrightarrow> has_q M i (x, t, cl) j"
  by (auto simp: has_q_def)

lemma ans_hdr_question:
  "(ans_hdr hq rc n [])\<lparr>h_qdcount := h_qdcount (ans_hdr hq rc n []) + 1\<rparr> = ans_hdr hq rc (Suc n) []"
  by (simp add: ans_hdr_def add.commute)

lemma add_question_ok:
  assumes a: "ans_ok K a" and l: "layout hq qs rc [] a" and q: "asks qe (x, t, cl)" and K: "K + 266 \<le> 0x7fffffff"
  shows "ok (add_question qe a) (\<lambda>(res, b). (\<not> res \<longrightarrow> a_al a \<noteq> []) \<and>
    (res \<longrightarrow> ans_ok (K + 266) b \<and> layout hq (qs @ [(x, t, cl)]) rc [] b \<and> frame a b))"
proof -
  have x: "wf_name x" "query qe = wire x" "qtype qe = t" "qclass qe = cl" using q by (auto simp: asks_def)
  have wl: "length (wire x) \<le> 256" using x(1) by (simp add: wf_name_def DNSNAMEBUFSIZE_def)
  let ?need = "dnsmsghdroffset + a_sz a + length (wire x) + 4"
  from a have a': "a_allocsz a = length (a_buf a) + 2" "12 \<le> a_sz a" "a_sz a \<le> length (a_buf a)" "a_sz a \<le> K"
    "dl_used (a_cb a) \<le> 275 * K" "keeps {12..} (msg a) (\<lambda>M. msg_ok M (a_cb a))"
    by (auto simp: ans_ok_def dnsmsghdroffset_def)
  obtain j where j: "keeps {12..} (msg a) (\<lambda>M. has_qs M 12 qs j \<and> has_rrs M j [] (a_sz a))" and h: "get_hdr (a_buf a) = Some (ans_hdr hq rc (length qs) [])"
    using l by (auto simp: layout_def)
  have l': "rhnlen (wire x) = Some (length (wire x))" using rhnlen_name [OF x(1), of "[]"] by simp
  obtain res b where es: "ensure_space ?need a = (res, b)" by (cases "ensure_space ?need a")
  have "?need + 0x7f < 2 ^ 64" using a'(4) K wl by (simp add: dnsmsghdroffset_def)
  note es_ok = ensure_space_ok [OF a'(1) this es]
  show ?thesis
  proof (cases res)
    case False
    with es_ok(1) show ?thesis by (simp add: add_question_def l' es x(2))
  next
    case True
    from es_ok(2) [OF this] obtain W where b: "a_buf b = a_buf a @ W" "a_allocsz b = length (a_buf b) + 2" "?need \<le> a_allocsz b"
      "a_sz b = a_sz a" "a_cb b = a_cb a" "a_fill b = a_fill a" "a_al a = [] \<longrightarrow> a_al b = []" by auto
    have mb: "msg b = msg a" using b(1,4) a'(3) by simp
    have room: "a_sz b + length (wire x) + 4 \<le> length (a_buf b)" using b(2,3,4) by (simp add: dnsmsghdroffset_def)
    have w0: "wrote {12..} (a_sz b) [] b" using a'(2,6) mb room b(4,5) by (intro wrote_Nil) (auto simp: build_def)
    have "a_sz b + length (wire x) \<le> length (a_buf b)" "a_sz b \<le> 0x7fffffff" "dl_used (a_cb b) \<le> 2 ^ 61"
      using room a'(4,5) b(4,5) K by auto
    from put_name_ok [OF w0 x(1) this, of "[]"] obtain n c where pn: "put_name (wire x) b = Some (n, c)" "n = 0 \<longrightarrow> a_al b \<noteq> []"
      and c: "n > 0 \<Longrightarrow> n \<le> length (wire x) \<and> a_sz c = a_sz b + n \<and> grown 275 b c \<and> wrote {12..} (a_sz b) [Nam x] c" by (auto simp: ok_def)
    show ?thesis
    proof (cases "n = 0")
      case True
      with pn b(7) \<open>res\<close> show ?thesis by (auto simp: add_question_def l' es x(2))
    next
      case False
      with c have c': "n \<le> length (wire x)" "a_sz c = a_sz b + n" "grown 275 b c" "wrote {12..} (a_sz b) [Nam x] c" by auto
      have cl: "length (a_buf c) = length (a_buf b)" "a_allocsz c = a_allocsz b" "a_fill c = a_fill b" "dl_used (a_cb c) \<le> dl_used (a_cb b) + 275"
        "set (dl_elems (a_cb b)) \<subseteq> set (dl_elems (a_cb c))" "a_al b = [] \<longrightarrow> a_al c = []" "msg b = take (a_sz b) (a_buf c)" using c'(3) by (auto simp: grown_def)
      have r4: "a_sz c + 4 \<le> length (a_buf c)" using c' cl room by simp
      from put_bytes_ok [OF c'(4), of 4 "be16 t @ be16 cl"] r4 obtain d where d: "put_bytes (be16 t @ be16 cl) 4 c = Some d" "a_sz d = a_sz c + 4"
        "grown 0 c d" "wrote {12..} (a_sz b) [Nam x, Raw (be16 t @ be16 cl)] d" "a_cb d = a_cb c" by (auto simp: ok_def)
      have dl: "length (a_buf d) = length (a_buf c)" "a_allocsz d = a_allocsz c" "a_fill d = a_fill c" "a_al c = [] \<longrightarrow> a_al d = []"
        "msg c = take (a_sz c) (a_buf d)" using d(3) by (auto simp: grown_def)
      have "take (a_sz a) (a_buf d) = take (a_sz a) (msg c)" using c'(2) b(4) dl(5) by (simp add: min_def)
      also have "\<dots> = msg a" using c'(2) b(4) cl(7) mb by (simp add: min_def)
      finally have md: "take (a_sz a) (a_buf d) = msg a" .
      have szd: "a_sz d = a_sz a + n + 4" using d(2) c'(2) b(4) by simp
      have "take (a_sz a) (msg d) = msg a" using md szd by (simp add: min_def)
      then have "agree {12..} (msg a) (msg d)" using agree_append [of "{12..}" "msg a" "drop (a_sz a) (msg d)"] by (metis append_take_drop_id)
      then have fd: "frame a d" using b(4-7) cl(3,5,6) dl(3,4) d(5) szd by (auto simp: frame_def)
      have "take 12 (a_buf d) = take 12 (a_buf a)" using arg_cong [OF md, of "take 12"] a'(2) by (simp add: min_def)
      then have hd: "get_hdr (a_buf d) = Some (ans_hdr hq rc (length qs) [])"
        using get_hdr_cong [of "a_buf d" "a_buf a"] h a'(2,3) r4 dl(1) szd d(2) by simp
      have aok: "ans_ok (K + 266) d"
        using d(4,5) cl(1,2,4) dl(1,2) b(2,5) a'(2,4,5) szd r4 c'(1) wl d(2) by (simp add: ans_ok_def wrote_def build_def dnsmsghdroffset_def)
      from upd_hdr_ok [OF aok hd, of "\<lambda>h. h\<lparr>h_qdcount := h_qdcount h + 1\<rparr>"] obtain e
        where e: "upd_hdr (\<lambda>h. h\<lparr>h_qdcount := h_qdcount h + 1\<rparr>) d = Some e" "get_hdr (a_buf e) = Some (ans_hdr hq rc (Suc (length qs)) [])"
          "ans_ok (K + 266) e" "frame d e" "a_sz e = a_sz d" unfolding ans_hdr_question by blast
      have ade: "agree {12..} (msg d) (msg e)" using e(4) by (simp add: frame_def)
      have "keeps {12..} (msg d) (\<lambda>M. has_fields M (a_sz b) [Nam x, Raw (be16 t @ be16 cl)] (a_sz d))" using d(4) by (simp add: wrote_def)
      from keeps_agree [OF this ade] have 1: "keeps {12..} (msg e) (\<lambda>M. has_q M (a_sz a) (x, t, cl) (a_sz e))"
        by (rule keeps_mp) (use has_fields_q b(4) e(5) in auto)
      have "keeps {12..} (msg e) (\<lambda>M. has_qs M 12 qs j \<and> has_rrs M j [] (a_sz a))"
        by (rule keeps_agree [OF j]) (use frame_trans [OF fd e(4)] in \<open>simp add: frame_def\<close>)
      with 1 have "keeps {12..} (msg e) (\<lambda>M. (has_qs M 12 qs j \<and> has_rrs M j [] (a_sz a)) \<and> has_q M (a_sz a) (x, t, cl) (a_sz e))" by (simp add: keeps_conj)
      then have "keeps {12..} (msg e) (\<lambda>M. has_qs M 12 (qs @ [(x, t, cl)]) (a_sz e) \<and> has_rrs M (a_sz e) [] (a_sz e))"
        by (rule keeps_mp) (auto simp: has_qs_append)
      then have "layout hq (qs @ [(x, t, cl)]) rc [] e" using e(2) unfolding layout_def by (intro conjI exI [of _ "a_sz e"]) simp_all
      moreover have "add_question qe a = Some (True, e)"
        using \<open>res\<close> False pn(1) d(1) e(1) put_question [OF r4, of t cl "\<lambda>a. do { a \<leftarrow> upd_hdr (\<lambda>h. h\<lparr>h_qdcount := h_qdcount h + 1\<rparr>) a; Some (True, a) }"]
        by (simp add: add_question_def l' es x(2-4))
      ultimately show ?thesis using e(3) frame_trans [OF fd e(4)] by simp
    qed
  qed
qed

lemma add_questions_ok:
  "ans_ok K a \<Longrightarrow> layout hq qs rc [] a \<Longrightarrow> list_all2 asks ql qs' \<Longrightarrow> K + length ql * 266 \<le> 0x7fffffff \<Longrightarrow>
   ok (add_questions ql a) (\<lambda>(res, b). (\<not> res \<longrightarrow> a_al a \<noteq> []) \<and>
    (res \<longrightarrow> ans_ok (K + length ql * 266) b \<and> layout hq (qs @ qs') rc [] b \<and> frame a b))"
proof (induction ql arbitrary: K a qs qs')
  case Nil
  then show ?case by (simp add: frame_refl)
next
  case (Cons qe ql)
  then obtain x t cl qs2 where q: "qs' = (x, t, cl) # qs2" "asks qe (x, t, cl)" "list_all2 asks ql qs2" by (auto simp: list_all2_Cons1)
  have "K + 266 \<le> 0x7fffffff" using Cons.prems(4) by simp
  from add_question_ok [OF Cons.prems(1,2) q(2) this] obtain res b where run: "add_question qe a = Some (res, b)" "\<not> res \<longrightarrow> a_al a \<noteq> []"
    and b: "res \<Longrightarrow> ans_ok (K + 266) b \<and> layout hq (qs @ [(x, t, cl)]) rc [] b \<and> frame a b" by (auto simp: ok_def)
  show ?case
  proof (cases res)
    case False
    with run show ?thesis by simp
  next
    case True
    with b have b': "ans_ok (K + 266) b" "layout hq (qs @ [(x, t, cl)]) rc [] b" "frame a b" by auto
    have "a_al a = [] \<longrightarrow> a_al b = []" using b'(3) by (simp add: frame_def)
    with Cons.IH [OF b'(1,2) q(3)] Cons.prems(4) frame_trans [OF b'(3)] True run show ?thesis
      by (auto simp: q(1) add.assoc elim!: ok_mono)
  qed
qed


section \<open>The whole answer\<close>

text \<open>
  A message is a well-formed answer to a query with the header \<open>hq\<close> if its header repeats what the query says and counts what
  follows, the questions come first, and then the records in the order of the sections up to the end.
\<close>

definition well_formed :: "dns_hdr \<Rightarrow> nat \<Rightarrow> question list \<Rightarrow> placed list \<Rightarrow> bool \<Rightarrow> bytes \<Rightarrow> bool" where
  "well_formed hq rc qs recs aa M \<longleftrightarrow> get_hdr M = Some ((ans_hdr hq rc (length qs) recs)\<lparr>h_aa := aa\<rparr>) \<and> sorted (map (rank \<circ> fst) recs) \<and>
     (\<exists>j. has_qs M 12 qs j \<and> has_rrs M j (map snd recs) (length M))"

lemma get_hdr_msg: "12 \<le> a_sz a \<Longrightarrow> a_sz a \<le> length (a_buf a) \<Longrightarrow> get_hdr (msg a) = get_hdr (a_buf a)"
  by (rule get_hdr_cong) (auto simp: min_def)

lemma layout_well_formed:
  assumes "ans_ok K a" and "layout hq qs rc recs a" and b: "frame a b" "a_sz b = a_sz a" "a_sz b \<le> length (a_buf b)"
    and h: "get_hdr (a_buf b) = Some ((ans_hdr hq rc (length qs) recs)\<lparr>h_aa := aa\<rparr>)"
  shows "well_formed hq rc qs recs aa (msg b)"
proof -
  from assms(2) obtain j where j: "sorted (map (rank \<circ> fst) recs)" "keeps {12..} (msg a) (\<lambda>M. has_qs M 12 qs j \<and> has_rrs M j (map snd recs) (a_sz a))"
    unfolding layout_def by blast
  have "agree {12..} (msg a) (msg b)" using b(1) by (simp add: frame_def)
  from keepsD [OF j(2) this] have "has_qs (msg b) 12 qs j \<and> has_rrs (msg b) j (map snd recs) (length (msg b))" using b by simp
  moreover have "12 \<le> a_sz b" using assms(1) b(2) by (simp add: ans_ok_def)
  ultimately show ?thesis unfolding well_formed_def using get_hdr_msg [of b] b(3) h j(1) by auto
qed

definition budget :: "nat \<Rightarrow> nat \<Rightarrow> nat" where
  "budget B n = (let K = 12 + n * 266 + n * query_cost B in K + rest_cost B K)"

lemma new_answer_ok: "ans_ok 12 (new_answer hq al fill)" and new_answer_layout: "layout hq [] RC_OK [] (new_answer hq al fill)"
proof -
  have g: "get_hdr (a_buf (new_answer hq al fill)) = Some (fresh_hdr hq)"
    using get_hdr_bytes by (simp add: new_answer_def put_def)
  show "ans_ok 12 (new_answer hq al fill)"
    by (simp add: ans_ok_def new_answer_def hdr_sizes ALLOCINITIALSIZE_def keeps_def msg_ok_None dl_used_def)
  have "ans_hdr hq RC_OK 0 [] = fresh_hdr hq" by (simp add: ans_hdr_def in_section_def fresh_hdr_def)
  with g show "layout hq [] RC_OK [] (new_answer hq al fill)"
    by (simp add: layout_def keeps_def) (simp add: new_answer_def sizeof_dns_hdr_def)
qed

lemma supported_askable: "\<not> list_ex unsupported ql \<Longrightarrow> qe \<in> set ql \<Longrightarrow> askable (unat (qtype qe))"
  by (auto simp: list_ex_iff unsupported_def askable_def Let_def)

text \<open>The records of the answer section; \<open>X\<close> is what is to be shown about them and the return code.\<close>

abbreviation answers :: "placed list \<Rightarrow> placed list" where
  "answers recs \<equiv> filter (\<lambda>p. fst p = S_ANSWER) recs"

definition staged_with ::
  "(nat \<Rightarrow> placed list \<Rightarrow> bool) \<Rightarrow> nat \<Rightarrow> dns_hdr \<Rightarrow> question list \<Rightarrow> nat \<Rightarrow> compose \<Rightarrow> nat \<Rightarrow> stage \<times> compose \<Rightarrow> bool" where
  "staged_with X B hq qs K c k = (\<lambda>(st, c'). (st = Error_ans \<longrightarrow> a_al (c_ans c) \<noteq> []) \<and>
     (st \<noteq> Error_ans \<longrightarrow> (\<exists>new. stage_ok st new \<and> X (c_rcode c') (answers new) \<and> comp_inv B hq qs (K + k) new c') \<and> frame (c_ans c) (c_ans c')))"

definition composed ::
  "(nat \<Rightarrow> placed list \<Rightarrow> bool) \<Rightarrow> dns_hdr \<Rightarrow> question list \<Rightarrow> compose \<Rightarrow> dns_queryel list \<Rightarrow> stage \<times> compose \<Rightarrow> bool" where
  "composed X hq qs c ql = (\<lambda>(st, c'). (st = Error_ans \<longrightarrow> a_al (c_ans c) \<noteq> []) \<and>
     (st \<noteq> Error_ans \<longrightarrow> (\<exists>recs aa. well_formed hq (c_rcode c') qs recs aa (msg (c_ans c')) \<and>
        (if list_ex unsupported ql then c_rcode c' = RC_NOTSUPP \<and> recs = [] else X (c_rcode c') (answers recs)))))"

lemma comp_inv_well_formed: "comp_inv B hq qs K recs c \<Longrightarrow> well_formed hq (c_rcode c) qs recs False (msg (c_ans c))"
proof -
  assume inv: "comp_inv B hq qs K recs c"
  then have a: "ans_ok K (c_ans c)" and l: "layout hq qs (c_rcode c) recs (c_ans c)" by (simp_all add: comp_inv_def)
  have "(ans_hdr hq (c_rcode c) (length qs) recs)\<lparr>h_aa := False\<rparr> = ans_hdr hq (c_rcode c) (length qs) recs"
    by (simp add: ans_hdr_def fresh_hdr_def)
  with l have "get_hdr (a_buf (c_ans c)) = Some ((ans_hdr hq (c_rcode c) (length qs) recs)\<lparr>h_aa := False\<rparr>)" by (simp add: layout_def)
  from layout_well_formed [OF a l frame_refl refl _ this] a show ?thesis by (simp add: ans_ok_def)
qed

lemma compose_sections_ok:
  assumes inv: "comp_inv B hq qs K [] c" and env: "env_ok B env"
    and aq: "\<not> list_ex unsupported ql \<Longrightarrow>
      ok (answer_queries g env resolve ql rdf queryts edns udp c) (staged_with X B hq qs K c (length ql * query_cost B))"
    and K: "K + length ql * query_cost B + rest_cost B (K + length ql * query_cost B) \<le> 0x7fffffff"
  shows "ok (compose_sections g env resolve ql rdf queryts edns udp c) (composed X hq qs c ql)"
proof (cases "list_ex unsupported ql")
  case True
  from set_rcode_step [OF inv, of RC_NOTSUPP] obtain c' where c': "set_rcode RC_NOTSUPP c = Some c'" "comp_inv B hq qs K [] c'" "c_rcode c' = RC_NOTSUPP"
    by (auto simp: ok_def)
  with True comp_inv_well_formed [OF c'(2)] show ?thesis by (auto simp: compose_sections_def composed_def)
next
  case False
  let ?K = "K + length ql * query_cost B"
  from aq [OF False] have "ok (do { (st, c) \<leftarrow> answer_queries g env resolve ql rdf queryts edns udp c;
        if st \<noteq> Answered then Some (st, c)
        else do {
          (res, c) \<leftarrow> other_sections g env queryts edns udp c;
          if \<not> res then Some (Error_ans, c)
          else if c_aa c then do { a \<leftarrow> upd_hdr (\<lambda>h. h\<lparr>h_aa := True\<rparr>) (c_ans c); Some (Return_ans, c\<lparr>c_ans := a\<rparr>) }
          else Some (Return_ans, c) } }) (composed X hq qs c ql)"
    unfolding ok_bind
  proof (rule ok_mono)
    fix q assume q: "staged_with X B hq qs K c (length ql * query_cost B) q"
    obtain st c1 where p: "q = (st, c1)" by (cases q)
    show "ok (case q of (st, c) \<Rightarrow> if st \<noteq> Answered then Some (st, c)
        else do {
          (res, c) \<leftarrow> other_sections g env queryts edns udp c;
          if \<not> res then Some (Error_ans, c)
          else if c_aa c then do { a \<leftarrow> upd_hdr (\<lambda>h. h\<lparr>h_aa := True\<rparr>) (c_ans c); Some (Return_ans, c\<lparr>c_ans := a\<rparr>) }
          else Some (Return_ans, c) }) (composed X hq qs c ql)"
    proof (cases "st = Answered")
      case no: False
      show ?thesis
      proof (cases "st = Error_ans")
        case True
        then show ?thesis using q p by (simp add: composed_def staged_with_def)
      next
        case ne: False
        then obtain new where new: "comp_inv B hq qs ?K new c1" "X (c_rcode c1) (answers new)" using q p by (auto simp: staged_with_def)
        from comp_inv_well_formed [OF new(1)] new(2) no ne p False show ?thesis by (auto simp: composed_def)
      qed
    next
      case True
      with q p obtain new where new: "comp_inv B hq qs ?K new c1" "phase S_ANSWER new" "X (c_rcode c1) (answers new)" and f: "frame (c_ans c) (c_ans c1)"
        by (auto simp: staged_with_def stage_ok_def)
      from other_sections_step [OF new(1) env new(2) K, of g queryts edns udp] obtain r c2
        where run: "other_sections g env queryts edns udp c1 = Some (r, c2)" and st: "stepped B hq qs ?K new c1 (rest_cost B ?K) (\<lambda>new' c'. later new S_ADDITIONAL (new @ new')) (r, c2)"
        by (auto simp: ok_def)
      have al: "a_al (c_ans c1) \<noteq> [] \<longrightarrow> a_al (c_ans c) \<noteq> []" using f by (auto simp: frame_def)
      show ?thesis
      proof (cases r)
        case no: False
        then show ?thesis using True p run st al by (simp add: composed_def stepped_def)
      next
        case yes: True
        with st obtain recs where inv2: "comp_inv B hq qs (?K + rest_cost B ?K) recs c2" and "later new S_ADDITIONAL recs" "c_rcode c2 = c_rcode c1"
          by (auto simp: stepped_def)
        moreover have "answers new = new" using later_start [OF new(2)] by (simp add: later_def)
        ultimately have X: "X (c_rcode c2) (answers recs)" using new(3) by (simp add: later_def)
        from inv2 have a2: "ans_ok (?K + rest_cost B ?K) (c_ans c2)" and l2: "layout hq qs (c_rcode c2) recs (c_ans c2)" by (simp_all add: comp_inv_def)
        have h2: "get_hdr (a_buf (c_ans c2)) = Some (ans_hdr hq (c_rcode c2) (length qs) recs)" using l2 by (simp add: layout_def)
        from upd_hdr_ok [OF a2 h2, of "\<lambda>h. h\<lparr>h_aa := True\<rparr>"] obtain b where b: "upd_hdr (\<lambda>h. h\<lparr>h_aa := True\<rparr>) (c_ans c2) = Some b"
          "get_hdr (a_buf b) = Some ((ans_hdr hq (c_rcode c2) (length qs) recs)\<lparr>h_aa := True\<rparr>)" "ans_ok (?K + rest_cost B ?K) b"
          "frame (c_ans c2) b" "a_sz b = a_sz (c_ans c2)" by blast
        have "well_formed hq (c_rcode c2) qs recs True (msg b)"
          by (rule layout_well_formed [OF a2 l2 b(4,5) _ b(2)]) (use b(3) in \<open>simp add: ans_ok_def\<close>)
        with True p run yes b(1) comp_inv_well_formed [OF inv2] False X show ?thesis by (auto simp: composed_def)
      qed
    qed
  qed
  with False show ?thesis by (simp add: compose_sections_def)
qed


lemma c_malloc_al: "c_malloc c = (mem, c') \<Longrightarrow> c' = c\<lparr>c_ans := (c_ans c)\<lparr>a_al := a_al (c_ans c')\<rparr>\<rparr> \<and> (a_al (c_ans c) = [] \<longrightarrow> mem \<and> a_al (c_ans c') = [])"
  by (auto simp: c_malloc_def split: prod.splits)

lemma time_fields: "time c = (now, c') \<Longrightarrow> \<exists>tl. c' = c\<lparr>c_time := tl\<rparr>"
  by (auto simp: time_def split: list.splits) (metis compose.surjective compose.update_convs(6))

definition answered_with :: "(nat \<Rightarrow> placed list \<Rightarrow> bool) \<Rightarrow> dns_hdr \<Rightarrow> dns_queryel list \<Rightarrow> nat \<Rightarrow> answer \<Rightarrow> bool" where
  "answered_with X hq ql rc a \<longleftrightarrow> (\<exists>qs recs aa. list_all2 asks ql qs \<and> well_formed hq rc qs recs aa (msg a) \<and>
     (if list_ex unsupported ql then rc = RC_NOTSUPP \<and> recs = [] else X rc (answers recs)))"

definition answered :: "dns_hdr \<Rightarrow> dns_queryel list \<Rightarrow> nat \<Rightarrow> answer \<Rightarrow> bool" where
  "answered hq ql rc a \<longleftrightarrow> (\<exists>qs recs aa. list_all2 asks ql qs \<and> well_formed hq rc qs recs aa (msg a) \<and>
     (list_ex unsupported ql \<longrightarrow> rc = RC_NOTSUPP \<and> recs = []))"

lemma asks_all: "\<forall>qe \<in> set ql. \<exists>x. wf_name x \<and> query qe = wire x \<Longrightarrow> \<exists>qs. list_all2 asks ql qs"
proof (induction ql)
  case (Cons qe ql)
  then obtain qs where "list_all2 asks ql qs" by auto
  moreover obtain q where "asks qe q" using Cons.prems by (auto simp: asks_def)
  ultimately have "list_all2 asks (qe # ql) (q # qs)" by simp
  then show ?case ..
qed (rule exI [of _ "[]"], simp)

lemma compose_answer_with:
  assumes cache: "good_cache B (c_cache c)" and env: "env_ok B env"
    and aq: "\<And>K c' qs. \<not> list_ex unsupported ql \<Longrightarrow> comp_inv B hq qs K [] c' \<Longrightarrow> K + length ql * query_cost B \<le> 0x7fffffff \<Longrightarrow> c_rcode c' = RC_OK \<Longrightarrow>
      ok (answer_queries g env resolve ql (h_rd hq) (fst (time c)) edns udp c') (staged_with X B hq qs K c' (length ql * query_cost B))"
    and ql: "\<forall>qe \<in> set ql. \<exists>x. wf_name x \<and> query qe = wire x" and K: "budget B (length ql) \<le> 0x7fffffff"
  shows "ok (compose_answer g env resolve ql hq edns udp fill c) (\<lambda>(ans, rc, c').
    (ans = None \<longrightarrow> a_al (c_ans c) \<noteq> []) \<and> (\<forall>a. ans = Some a \<longrightarrow> answered_with X hq ql rc a))"
proof -
  obtain qs where qs: "list_all2 asks ql qs" using asks_all [OF ql] by blast
  then have len: "length qs = length ql" by (simp add: list_all2_lengthD)
  obtain queryts c1 where t: "time c = (queryts, c1)" by (cases "time c")
  obtain tl where c1: "c1 = c\<lparr>c_time := tl\<rparr>" using time_fields [OF t] by blast
  obtain mem c2 where m: "c_malloc c1 = (mem, c2)" by (cases "c_malloc c1")
  note c2 = c_malloc_al [OF m]
  show ?thesis
  proof (cases mem)
    case False
    with c2 c1 t m show ?thesis by (auto simp: compose_answer_def)
  next
    case True
    let ?n = "length ql" and ?a = "new_answer hq (a_al (c_ans c2)) fill"
    let ?c3 = "c2\<lparr>c_ans := ?a, c_sva := None, c_ar := None, c_rcode := RC_OK, c_aa := True\<rparr>"
    have "12 + ?n * 266 \<le> 0x7fffffff" using K by (simp add: budget_def Let_def)
    from add_questions_ok [OF new_answer_ok [of hq "a_al (c_ans c2)" fill] new_answer_layout qs this] obtain r b
      where run: "add_questions ql ?a = Some (r, b)" "\<not> r \<longrightarrow> a_al ?a \<noteq> []" and b: "r \<Longrightarrow> ans_ok (12 + ?n * 266) b \<and> layout hq qs RC_OK [] b \<and> frame ?a b"
      by (auto simp: ok_def)
    have al: "a_al ?a \<noteq> [] \<longrightarrow> a_al (c_ans c) \<noteq> []" using c2 c1 by (auto simp: new_answer_def)
    show ?thesis
    proof (cases r)
      case no: False
      then show ?thesis using True t m run al by (simp add: compose_answer_def lift_ans_def)
    next
      case yes: True
      let ?c4 = "?c3\<lparr>c_ans := b\<rparr>"
      have cc: "c_cache c2 = c_cache c" by (subst conjunct1 [OF c2]) (simp add: c1)
      have "comp_inv B hq qs (12 + ?n * 266) [] ?c4"
        using b [OF yes] cache cc by (simp add: comp_inv_def lists_ok_def dl_inv_def dl_used_def dl_elems_def dlist_items_def)
      moreover have K4: "12 + ?n * 266 + ?n * query_cost B + rest_cost B (12 + ?n * 266 + ?n * query_cost B) \<le> 0x7fffffff"
        using K by (simp only: budget_def Let_def)
      ultimately have "ok (compose_sections g env resolve ql (h_rd hq) queryts edns udp ?c4) (composed X hq qs ?c4 ql)"
        using compose_sections_ok [where env = env and resolve = resolve and X = X, OF _ env aq] t K4 by simp
      then obtain st c5 where sec: "compose_sections g env resolve ql (h_rd hq) queryts edns udp ?c4 = Some (st, c5)" "composed X hq qs ?c4 ql (st, c5)"
        by (auto simp: ok_def)
      have ab: "a_al b \<noteq> [] \<longrightarrow> a_al ?a \<noteq> []" using b [OF yes] by (auto simp: frame_def)
      have run: "compose_answer g env resolve ql hq edns udp fill c = Some (if st = Error_ans then None else Some (c_ans c5), c_rcode c5, c5)"
        using True t m run(1) yes sec(1) by (simp add: compose_answer_def lift_ans_def)
      have "answered_with X hq ql (c_rcode c5) (c_ans c5)" if "st \<noteq> Error_ans"
        using sec(2) qs that unfolding composed_def answered_with_def prod.case by blast
      moreover have "a_al (c_ans c) \<noteq> []" if "st = Error_ans" using sec(2) ab al that by (simp add: composed_def)
      ultimately show ?thesis unfolding run by simp
    qed
  qed
qed

lemma answered_withD: "answered_with X hq ql rc a \<Longrightarrow> answered hq ql rc a"
  unfolding answered_def answered_with_def by (cases "list_ex unsupported ql") (simp_all, blast+)

lemma compose_answer_ok:
  assumes cache: "good_cache B (c_cache c)" and env: "env_ok B env" and res: "resolver_ok B resolve"
    and ql: "\<forall>qe \<in> set ql. \<exists>x. wf_name x \<and> query qe = wire x" and K: "budget B (length ql) \<le> 0x7fffffff"
  shows "ok (compose_answer g env resolve ql hq edns udp fill c) (\<lambda>(ans, rc, c').
    (ans = None \<longrightarrow> a_al (c_ans c) \<noteq> []) \<and> (\<forall>a. ans = Some a \<longrightarrow> answered hq ql rc a))"
proof -
  have "ok (answer_queries g env resolve ql (h_rd hq) (fst (time c)) edns udp c') (staged_with (\<lambda>_ _. True) B hq qs K c' (length ql * query_cost B))"
    if "\<not> list_ex unsupported ql" "comp_inv B hq qs K [] c'" "K + length ql * query_cost B \<le> 0x7fffffff" for K c' qs
  proof -
    have "ok (answer_queries g env resolve ql (h_rd hq) (fst (time c)) edns udp c') (\<lambda>q. staged B hq qs K [] c' (length ql * query_cost B) q \<and> no_again (fst q))"
      by (rule answer_queries_step [OF env res that(2)]) (use supported_askable [OF that(1)] ql that(3) in auto)
    then show ?thesis by (rule ok_mono) (auto simp: staged_def staged_with_def)
  qed
  from compose_answer_with [OF cache env this ql K] show ?thesis
    by (rule ok_mono) (auto dest: answered_withD)
qed

section \<open>An example\<close>

text \<open>A resolver that knows the address of one name, and a composition that starts with an empty cache.\<close>

definition sample_resolve :: resolver where
  "sample_resolve nam qt hops now st al =
     (if take 3 nam = wire [[97]] then Inr (sample_cent 0) else Inl (RC_NAMEERR, cundef), st, al)"

definition sample_env :: "cache \<Rightarrow> cache" where
  "sample_env st = st"

definition sample_compose :: compose where
  "sample_compose = \<lparr>c_ans = sample_answer, c_sva = None, c_ar = None, c_cache = init_cache, c_rnd = [], c_time = [1500],
     c_rcode = RC_OK, c_aa = True\<rparr>"

lemma sample_good: "good_cent 20000 (sample_cent 0)"
proof -
  have tp: "tp = T_A" if "\<not> PDNSD_NOT_CACHED_TYPE tp" "tidx tp = 0" for tp
    by (rule tidx_inj [OF that(1)]) (use that(2) in \<open>simp_all add: PDNSD_NOT_CACHED_TYPE_def rrlkuptab_def T_A_def T_MIN_def T_MAX_def NRRTOT_def\<close>)
  have "fits T_A [Raw [127, 0, 0, 1]]" by (simp add: fits_def type_defs)
  then have fit: "rr_fits T_A [127, 0, 0, 1]" unfolding rr_fits_def by (intro exI conjI, assumption) (simp add: rdata_of_def)
  have "set_weight (rr (sample_cent 0) i) = (if i = 0 then 810 else 0)" for i
    by (simp add: sample_rr set_weight_def sample_rrset_def weight_def)
  then have "(\<Sum>i < NRRTOT. set_weight (rr (sample_cent 0) i)) = 810" by (simp add: NRRTOT_def)
  moreover have "rr_fits t d" if "\<not> PDNSD_NOT_CACHED_TYPE t" "rr (sample_cent 0) (tidx t) = Some rs" "d \<in> set (rrs rs)" for t rs d
    using that tp [of t] fit by (auto simp: sample_rr sample_rrset_def split: if_splits)
  ultimately show ?thesis unfolding good_cent_def fit_view_def using sample_ok(1) by auto
qed

lemma sample_envs: "env_ok B sample_env" "good_cache B (c_cache sample_compose)" "resolver_ok 20000 sample_resolve"
proof -
  show "env_ok B sample_env" by (simp add: env_ok_def sample_env_def)
  show "good_cache B (c_cache sample_compose)" using init_cache_inv by (simp add: good_cache_def sample_compose_def) (simp add: init_cache_def)
  show "resolver_ok 20000 sample_resolve" using sample_good by (auto simp: resolver_ok_def sample_resolve_def split: if_splits)
qed

section \<open>Properties\<close>

text \<open>
  C4. The type of \<open>compose_answer\<close>: whatever the cache holds, whatever the resolver finds and whatever other threads do with the
  cache, as long as the data are of the types that the cache guarantees and the records of a name stay within a weight \<open>B\<close>, composing an
  answer never reads or writes out of bounds and never fails an assertion. It gives up only if an allocation fails. Otherwise the
  answer is a well-formed message: a header with the identification of the query, the response bit and the return code, whose four counts are
  those of the questions, in the order asked, and of the records that follow, the answer section before the authority section before the additional section; all
  names, compressed or not, decode; and nothing follows the last record. If a question is of a type or class not supported, the return code says so and there
  are no records.
\<close>

theorem compose_answer_well_formed:
  assumes "good_cache B (c_cache c)" and "env_ok B env" and "resolver_ok B resolve"
    and "\<forall>qe \<in> set ql. \<exists>x. wf_name x \<and> query qe = wire x" and "budget B (length ql) \<le> 0x7fffffff"
  shows "\<exists>ans rc c'. compose_answer g env resolve ql hq edns udp fill c = Some (ans, rc, c') \<and>
    (ans = None \<longrightarrow> a_al (c_ans c) \<noteq> []) \<and> (\<forall>a. ans = Some a \<longrightarrow> answered hq ql rc a)"
  using compose_answer_ok [OF assms, of g hq edns udp fill] by (auto simp: ok_def)

theorem compose_answer_well_formed_witness:
  "\<exists>a rc c'. compose_answer \<lparr>rnd_recs = True, udpbufsize = 1024\<rparr> sample_env sample_resolve [\<lparr>qtype = 1, qclass = 1, query = wire [[97]]\<rparr>]
     (mk_error_reply 7 0 0) True (Some 512) 0 sample_compose = Some (Some a, rc, c') \<and>
     answered (mk_error_reply 7 0 0) [\<lparr>qtype = 1, qclass = 1, query = wire [[97]]\<rparr>] rc a"
proof -
  have "\<forall>qe \<in> set [\<lparr>qtype = 1, qclass = 1, query = wire [[97]]\<rparr>]. \<exists>x. wf_name x \<and> query qe = wire x" using sample_name(1) by auto
  moreover have "budget 20000 (length [\<lparr>qtype = 1, qclass = 1, query = wire [[97]]\<rparr>]) \<le> 0x7fffffff"
    by (simp add: budget_def query_cost_def hop_cost_def rest_cost_def MAX_HOPS_def)
  moreover have "a_al (c_ans sample_compose) = []" by (simp add: sample_compose_def sample_answer_def)
  ultimately show ?thesis using compose_answer_well_formed [OF sample_envs(2,1,3)] by (metis not_Some_eq)
qed

end
