(* ===== verification/AnswerContent.thy ===== *)
theory AnswerContent
  imports AnswerProps
begin

text \<open>
  What an answer says: if the resolver finds entries with records of the types asked for, the answer section holds
  exactly these records, with the names and types asked for and what is left of their lifetime.
\<close>

section \<open>A question that is answered at once\<close>

lemma recs_of_type: "recs_of ce tp \<noteq> [] \<Longrightarrow> \<not> PDNSD_NOT_CACHED_TYPE tp"
  by (auto simp: recs_of_def)

lemma type_here:
  assumes ce: "cent_ok ce" and "recs_of ce tp \<noteq> []"
  shows "has_type ce tp = Some True" "askable tp"
proof -
  note nc = recs_of_type [OF assms(2)]
  then show "askable tp" by (simp add: askable_def)
  have tp: "T_MIN \<le> tp" "tp \<le> T_MAX" using nc by (auto simp: PDNSD_NOT_CACHED_TYPE_def)
  from assms(2) nc obtain rs where rs: "rr ce (tidx tp) = Some rs" "rrs rs \<noteq> []" by (auto simp: recs_of_def split: option.splits)
  then have "getrrset ce (int tp) = Some (Some rs)" using getrrset_rr [OF ce, of tp] nc by simp
  then have "\<not> is_neg ce" "getrrset_eff ce tp = Some (Some rs)"
    using tp by (auto simp: getrrset_def T_MIN_def T_MAX_def T_NUM_def Let_def split: if_splits)
  with rs(2) tp show "has_type ce tp = Some True" by (simp add: has_type_def have_rr_def)
qed

lemma response_rrset:
  assumes ce: "cent_ok ce" and "recs_of ce qt \<noteq> []"
  shows "add_to_response g rrn qt queryts ce udp c = add_rrset g rrn qt queryts ce udp c"
proof -
  note nc = recs_of_type [OF assms(2)]
  have "T_MIN \<le> qt" "qt \<le> T_MAX" "qt \<notin> {QT_AXFR, QT_IXFR, QT_MAILB, QT_MAILA, QT_ALL}"
    using nc by (auto simp: PDNSD_NOT_CACHED_TYPE_def T_MIN_def T_MAX_def QT_AXFR_def QT_IXFR_def QT_MAILB_def QT_MAILA_def QT_ALL_def)
  then show ?thesis using type_here(1) [OF assms] by (simp add: add_to_response_def)
qed

text \<open>What the resolver is to find for a question: an entry with records of the type.\<close>

definition finds :: "resolver \<Rightarrow> label list \<Rightarrow> nat \<Rightarrow> int \<Rightarrow> dns_cent \<Rightarrow> bool" where
  "finds resolve x qt queryts ce \<longleftrightarrow> recs_of ce qt \<noteq> [] \<and>
     (\<forall>r st al. \<exists>st' al'. resolve (wire x @ r) qt MAX_HOPS queryts st al = (Inr ce, st', al'))"

lemma bind_stage: "(do { (b, c) \<leftarrow> m; Some (f b, c) }) = map_option (\<lambda>(b, c). (f b, c)) m"
  by (cases m) auto

lemma answer_hop_found:
  assumes inv: "comp_inv B hq qs K recs c" and env: "env_ok B env" and res: "resolver_ok B resolve" and wf: "wf_name x"
    and K: "K + hop_cost B \<le> 0x7fffffff" and ph: "phase S_ANSWER recs" and found: "finds resolve x qt queryts ce"
  shows "ok (answer_hop g env resolve qt rdf queryts edns udp (wire x @ r) c) (\<lambda>(st, c'). (st = Answered \<or> st = Error_ans) \<and>
    (st = Error_ans \<longrightarrow> a_al (c_ans c) \<noteq> []) \<and>
    (st = Answered \<longrightarrow> (\<exists>new. placed_set S_ANSWER x qt (set_life ce qt queryts) (recs_of ce qt) new \<and> phase S_ANSWER (recs @ new) \<and>
       comp_inv B hq qs (K + hop_cost B) (recs @ new) c') \<and> frame (c_ans c) (c_ans c') \<and> c_rcode c' = c_rcode c))"
proof -
  have rec: "recs_of ce qt \<noteq> []" using found by (simp add: finds_def)
  obtain s1 al1 where rv: "resolve (wire x @ r) qt MAX_HOPS queryts (c_cache c) (a_al (c_ans c)) = (Inr ce, s1, al1)"
    using found unfolding finds_def by blast
  have good: "good_cache B (c_cache c)" using inv by (simp add: comp_inv_def)
  have o: "good_cache B s1" "a_al (c_ans c) = [] \<longrightarrow> al1 = []" "good_cent B ce"
    using res rv wf good unfolding resolver_ok_def by blast+
  have ok: "cent_ok ce" using o(3) by (simp add: good_cent_def)
  let ?c = "c\<lparr>c_cache := s1, c_ans := (c_ans c)\<lparr>a_al := al1\<rparr>\<rparr>"
  let ?c2 = "if has (cflags ce) DF_LOCAL then ?c else ?c\<lparr>c_aa := False\<rparr>"
  have inv2: "comp_inv B hq qs K recs ?c2" and f2: "frame (c_ans c) (c_ans ?c2)" and rc: "c_rcode ?c2 = c_rcode c"
    using inv o(1) frame_al [OF o(2)] by (auto simp: comp_inv_def lists_ok_def)
  let ?w = "weights (recs_of ce qt)" and ?Q = "\<lambda>new c'. placed_set S_ANSWER x qt (set_life ce qt queryts) (recs_of ce qt) new \<and> phase S_ANSWER (recs @ new)"
  have w: "?w \<le> B" by (rule weights_type [OF o(3)])
  let ?m = "do { (res, c) \<leftarrow> add_rrset g (wire x @ r) qt queryts ce udp ?c2; if \<not> res then Some (False, c) else note_authority env ce qt queryts c }"
  have "ok ?m (stepped B hq qs K recs ?c2 (?w + B) ?Q)"
  proof (rule stepped_bind [OF add_rrset_step [OF inv2 wf o(3) _ ph]])
    show "K + ?w \<le> 0x7fffffff" using K w by (simp add: hop_cost_def)
    fix c' new assume q: "?Q new c'" and inv': "comp_inv B hq qs (K + ?w) (recs @ new) c'"
    have "ok (note_authority env ce qt queryts c') (stepped B hq qs (K + ?w) (recs @ new) c' B (\<lambda>new' c''. new' = []))"
      by (rule note_authority_step [OF inv' env o(3)]) (use K w q in \<open>simp_all add: hop_cost_def\<close>)
    then show "ok (note_authority env ce qt queryts c') (stepped B hq qs (K + ?w) (recs @ new) c' B (\<lambda>new'. ?Q (new @ new')))"
      by (rule ok_mono) (erule stepped_mono, use q in auto)
  qed
  then have m: "ok ?m (stepped B hq qs K recs ?c2 (hop_cost B) ?Q)"
    by (rule ok_mono) (erule stepped_mono, use w in \<open>auto simp: hop_cost_def\<close>)
  have run: "answer_hop g env resolve qt rdf queryts edns udp (wire x @ r) c = map_option (\<lambda>(res, c). (if res then Answered else Error_ans, c)) ?m"
    unfolding answer_hop_def rv Let_def prod.case sum.case response_rrset [OF ok rec] type_here(1) [OF ok rec] if_cancel
    by (cases "add_rrset g (wire x @ r) qt queryts ce udp ?c2") (auto simp: bind_stage split: prod.splits)
  have al: "a_al (c_ans ?c2) \<noteq> [] \<longrightarrow> a_al (c_ans c) \<noteq> []" using o(2) by auto
  from m obtain b c' where b: "?m = Some (b, c')" "stepped B hq qs K recs ?c2 (hop_cost B) ?Q (b, c')" by (auto simp: ok_def)
  show ?thesis unfolding run b(1) using b(2) al frame_trans [OF f2] rc by (auto simp: stepped_def)
qed

lemma answer_hops_end: "f q c = Some (st, c') \<Longrightarrow> st = Answered \<or> st = Error_ans \<Longrightarrow> answer_hops n f q c = Some (st, c')"
  by (cases n) auto

text \<open>Questions with their names and the entries found for them, and the records that answer them.\<close>

type_synonym finding = "dns_queryel \<times> label list \<times> dns_cent"

definition resolved :: "resolver \<Rightarrow> int \<Rightarrow> finding \<Rightarrow> bool" where
  "resolved resolve queryts = (\<lambda>(qe, x, ce). \<not> unsupported qe \<and> wf_name x \<and> query qe = wire x \<and> finds resolve x (unat (qtype qe)) queryts ce)"

definition answers_to :: "int \<Rightarrow> finding \<Rightarrow> placed list \<Rightarrow> bool" where
  "answers_to queryts = (\<lambda>(qe, x, ce). let tp = unat (qtype qe) in placed_set S_ANSWER x tp (set_life ce tp queryts) (recs_of ce tp))"

lemma answer_queries_found:
  assumes env: "env_ok B env" and res: "resolver_ok B resolve"
  shows "comp_inv B hq qs K recs c \<Longrightarrow> \<forall>q \<in> set fs. resolved resolve queryts q \<Longrightarrow> K + length fs * query_cost B \<le> 0x7fffffff \<Longrightarrow> phase S_ANSWER recs \<Longrightarrow>
    ok (answer_queries g env resolve (map fst fs) rdf queryts edns udp c) (\<lambda>(st, c'). (st = Answered \<or> st = Error_ans) \<and>
    (st = Error_ans \<longrightarrow> a_al (c_ans c) \<noteq> []) \<and>
    (st = Answered \<longrightarrow> (\<exists>news. list_all2 (answers_to queryts) fs news \<and> phase S_ANSWER (recs @ concat news) \<and>
       comp_inv B hq qs (K + length fs * query_cost B) (recs @ concat news) c') \<and> frame (c_ans c) (c_ans c') \<and> c_rcode c' = c_rcode c))"
proof (induction fs arbitrary: K recs c)
  case Nil
  then show ?case by (auto intro!: exI [of _ "[]"] simp: frame_refl)
next
  case (Cons q fs)
  obtain qe x ce where q: "q = (qe, x, ce)" by (cases q)
  let ?qt = "unat (qtype qe)" and ?k = "query_cost B"
  have x: "wf_name x" "query qe = wire x" "finds resolve x ?qt queryts ce" using Cons.prems(2) q by (auto simp: resolved_def)
  let ?fill = "replicate DNSNAMEBUFSIZE (a_fill (c_ans c))" and ?f = "answer_hop g env resolve ?qt rdf queryts edns udp"
  let ?q = "wire x @ drop (length (wire x)) ?fill"
  have "length (wire x) \<le> DNSNAMEBUFSIZE" using x(1) by (simp add: wf_name_def)
  then have cpy: "rhncpy ?fill (query qe) = Some (length (wire x), ?q)" using rhncpy_wire [OF x(1), of ?fill "[]"] by (simp add: x(2))
  have k: "hop_cost B \<le> ?k" by (simp add: query_cost_def)
  have K1: "K + hop_cost B \<le> 0x7fffffff" using Cons.prems(3) k by simp
  from answer_hop_found [OF Cons.prems(1) env res x(1) K1 Cons.prems(4) x(3), of g rdf edns udp] obtain st c1 where hop: "?f ?q c = Some (st, c1)" "st = Answered \<or> st = Error_ans"
    "st = Error_ans \<longrightarrow> a_al (c_ans c) \<noteq> []"
    "st = Answered \<longrightarrow> (\<exists>new. placed_set S_ANSWER x ?qt (set_life ce ?qt queryts) (recs_of ce ?qt) new \<and> phase S_ANSWER (recs @ new) \<and>
       comp_inv B hq qs (K + hop_cost B) (recs @ new) c1) \<and> frame (c_ans c) (c_ans c1) \<and> c_rcode c1 = c_rcode c" by (rule ok2E) blast
  note run = answer_hops_end [of ?f, OF hop(1,2), of MAX_HOPS]
  show ?case
  proof (cases "st = Answered")
    case False
    with run cpy hop(2,3) q show ?thesis by simp
  next
    case True
    with hop(4) obtain new where new: "answers_to queryts q new" "phase S_ANSWER (recs @ new)" "comp_inv B hq qs (K + hop_cost B) (recs @ new) c1"
      "frame (c_ans c) (c_ans c1)" "c_rcode c1 = c_rcode c" by (auto simp: answers_to_def q Let_def)
    have inv1: "comp_inv B hq qs (K + ?k) (recs @ new) c1" using comp_inv_mono [OF new(3)] k by simp
    have "K + ?k + length fs * ?k \<le> 0x7fffffff" using Cons.prems(3) by simp
    from Cons.IH [OF inv1 _ this new(2)] Cons.prems(2) obtain st2 c2 where rest: "answer_queries g env resolve (map fst fs) rdf queryts edns udp c1 = Some (st2, c2)"
      "st2 = Answered \<or> st2 = Error_ans" "st2 = Error_ans \<longrightarrow> a_al (c_ans c1) \<noteq> []"
      "st2 = Answered \<longrightarrow> (\<exists>news. list_all2 (answers_to queryts) fs news \<and> phase S_ANSWER ((recs @ new) @ concat news) \<and>
         comp_inv B hq qs (K + ?k + length fs * ?k) ((recs @ new) @ concat news) c2) \<and> frame (c_ans c1) (c_ans c2) \<and> c_rcode c2 = c_rcode c1"
      by (auto simp: ok_def)
    have "\<exists>news. list_all2 (answers_to queryts) (q # fs) news \<and> phase S_ANSWER (recs @ concat news) \<and>
        comp_inv B hq qs (K + length (q # fs) * ?k) (recs @ concat news) c2" if "st2 = Answered"
    proof -
      from rest(4) that obtain news where "list_all2 (answers_to queryts) fs news" "phase S_ANSWER ((recs @ new) @ concat news)"
        "comp_inv B hq qs (K + ?k + length fs * ?k) ((recs @ new) @ concat news) c2" by blast
      with new(1) show ?thesis by (intro exI [of _ "new # news"]) (simp add: add.assoc)
    qed
    moreover have "a_al (c_ans c1) \<noteq> [] \<longrightarrow> a_al (c_ans c) \<noteq> []" using new(4) by (auto simp: frame_def)
    ultimately show ?thesis using run cpy True q rest(1-4) new(5) frame_trans [OF new(4)] by simp
  qed
qed

lemma phase_answers: "phase S_ANSWER recs \<Longrightarrow> answers recs = recs"
  using later_start by (simp add: later_def)

section \<open>Properties\<close>

text \<open>
  C3. An answer says what the resolver found. If for every question there are records of the type asked for, the return code is
  \<open>RC_OK\<close> and the answer section consists of exactly these records, question by question: for each question every record of the
  entry once, in the order of the entry up to a rotation, with the name and the type that were asked, the class IN, the data of the cache, and as the time to live what
  is left of it at the time of the query. No limit on the size of the message and no section that follows removes or adds records there.
\<close>

theorem compose_answer_content:
  assumes "good_cache B (c_cache c)" and "env_ok B env" and "resolver_ok B resolve"
    and "\<forall>q \<in> set fs. resolved resolve (fst (time c)) q" and "budget B (length fs) \<le> 0x7fffffff"
  shows "\<exists>ans rc c'. compose_answer g env resolve (map fst fs) hq edns udp fill c = Some (ans, rc, c') \<and> (ans = None \<longrightarrow> a_al (c_ans c) \<noteq> []) \<and>
    (\<forall>a. ans = Some a \<longrightarrow> rc = RC_OK \<and> (\<exists>qs recs aa news. list_all2 asks (map fst fs) qs \<and> well_formed hq rc qs recs aa (msg a) \<and>
       list_all2 (answers_to (fst (time c))) fs news \<and> answers recs = concat news))"
proof -
  let ?ql = "map fst fs" and ?X = "\<lambda>rc A. rc = RC_OK \<and> (\<exists>news. list_all2 (answers_to (fst (time c))) fs news \<and> A = concat news)"
  have sup: "\<not> list_ex unsupported ?ql" using assms(4) by (auto simp: list_ex_iff resolved_def)
  have names: "\<forall>qe \<in> set ?ql. \<exists>x. wf_name x \<and> query qe = wire x" using assms(4) by (fastforce simp: resolved_def)
  have "ok (answer_queries g env resolve ?ql (h_rd hq) (fst (time c)) edns udp c') (staged_with ?X B hq qs K c' (length ?ql * query_cost B))"
    if "comp_inv B hq qs K [] c'" "K + length ?ql * query_cost B \<le> 0x7fffffff" "c_rcode c' = RC_OK" for K c' qs
  proof -
    from answer_queries_found [OF assms(2,3) that(1) assms(4), of g "h_rd hq" edns udp] that(2) obtain st c1
      where run: "answer_queries g env resolve ?ql (h_rd hq) (fst (time c)) edns udp c' = Some (st, c1)" "st = Answered \<or> st = Error_ans"
        "st = Error_ans \<longrightarrow> a_al (c_ans c') \<noteq> []" and ok: "st = Answered \<Longrightarrow> (\<exists>news. list_all2 (answers_to (fst (time c))) fs news \<and> phase S_ANSWER ([] @ concat news) \<and>
          comp_inv B hq qs (K + length fs * query_cost B) ([] @ concat news) c1) \<and> frame (c_ans c') (c_ans c1) \<and> c_rcode c1 = c_rcode c'" by (auto simp: ok_def)
    have "\<exists>new. stage_ok st new \<and> ?X (c_rcode c1) (answers new) \<and> comp_inv B hq qs (K + length ?ql * query_cost B) new c1" if st: "st = Answered"
    proof -
      from ok [OF st] obtain news where n: "list_all2 (answers_to (fst (time c))) fs news" "phase S_ANSWER (concat news)"
        "comp_inv B hq qs (K + length fs * query_cost B) (concat news) c1" "c_rcode c1 = RC_OK" using \<open>c_rcode c' = RC_OK\<close> by auto
      then show ?thesis using st phase_answers [OF n(2)] by (intro exI [of _ "concat news"]) (auto simp: stage_ok_def)
    qed
    then show ?thesis unfolding run(1) ok_Some staged_with_def prod.case using run(2,3) ok by blast
  qed
  note aq = this
  have K: "budget B (length ?ql) \<le> 0x7fffffff" using assms(5) by simp
  obtain ans rc c' where run: "compose_answer g env resolve ?ql hq edns udp fill c = Some (ans, rc, c')" "ans = None \<longrightarrow> a_al (c_ans c) \<noteq> []"
    and a: "\<And>a. ans = Some a \<Longrightarrow> answered_with ?X hq ?ql rc a"
    using compose_answer_with [OF assms(1,2) aq names K] unfolding ok_def by blast
  have "rc = RC_OK \<and> (\<exists>qs recs aa news. list_all2 asks (map fst fs) qs \<and> well_formed hq rc qs recs aa (msg a) \<and>
       list_all2 (answers_to (fst (time c))) fs news \<and> answers recs = concat news)" if "ans = Some a" for a
    using a [OF that] sup unfolding answered_with_def by (simp only: if_False) blast
  with run show ?thesis by blast
qed

text \<open>The address of the name in the sample, 500 seconds after it was stored for a day.\<close>

definition sample_found :: finding where
  "sample_found = (\<lparr>qtype = 1, qclass = 1, query = wire [[97]]\<rparr>, [[97]], sample_cent 0)"

lemma sample_finds: "resolved sample_resolve queryts sample_found"
proof -
  have "rr (sample_cent 0) (tidx 1) = Some (sample_rrset 0)" by (simp add: sample_rr rrlkuptab_def T_MIN_def)
  moreover have "\<not> PDNSD_NOT_CACHED_TYPE 1" by (simp add: PDNSD_NOT_CACHED_TYPE_def rrlkuptab_def T_MIN_def T_MAX_def NRRTOT_def)
  ultimately have "recs_of (sample_cent 0) 1 \<noteq> []" by (simp add: recs_of_def sample_rrset_def)
  with sample_name(1) \<open>\<not> PDNSD_NOT_CACHED_TYPE 1\<close> show ?thesis
    by (auto simp: resolved_def sample_found_def finds_def unsupported_def sample_resolve_def C_IN_def)
qed

theorem compose_answer_content_witness:
  "\<exists>a c' qs recs aa new. compose_answer \<lparr>rnd_recs = True, udpbufsize = 1024\<rparr> sample_env sample_resolve (map fst [sample_found])
     (mk_error_reply 7 0 0) True (Some 512) 0 sample_compose = Some (Some a, RC_OK, c') \<and>
     well_formed (mk_error_reply 7 0 0) RC_OK qs recs aa (msg a) \<and> answers_to (fst (time sample_compose)) sample_found new \<and> answers recs = new"
proof -
  have f: "\<forall>q \<in> set [sample_found]. resolved sample_resolve (fst (time sample_compose)) q" using sample_finds by simp
  have b: "budget 20000 (length [sample_found]) \<le> 0x7fffffff"
    by (simp add: budget_def query_cost_def hop_cost_def rest_cost_def MAX_HOPS_def)
  have al: "a_al (c_ans sample_compose) = []" by (simp add: sample_compose_def sample_answer_def)
  let ?g = "\<lparr>rnd_recs = True, udpbufsize = 1024\<rparr>"
  from compose_answer_content [OF sample_envs(2,1,3) f b, of ?g "mk_error_reply 7 0 0" True "Some 512" 0] al
  obtain a c' qs recs aa news where "compose_answer ?g sample_env sample_resolve (map fst [sample_found]) (mk_error_reply 7 0 0) True (Some 512) 0 sample_compose =
      Some (Some a, RC_OK, c')" "well_formed (mk_error_reply 7 0 0) RC_OK qs recs aa (msg a)"
      "list_all2 (answers_to (fst (time sample_compose))) [sample_found] news" "answers recs = concat news" by (metis not_Some_eq)
  moreover from this(3) obtain new where "news = [new]" "answers_to (fst (time sample_compose)) sample_found new" by (auto simp: list_all2_Cons1)
  ultimately show ?thesis by auto
qed

end
