(* ===== verification/ProcessQuery.thy ===== *)
theory ProcessQuery
  imports AnswerProps
begin

text \<open>
  From a query to its reply: \<open>read_query\<close>, \<open>error_reply\<close> and \<open>process_query\<close> of \<^verbatim>\<open>src/dns_answer.c\<close>. What the theories before
  show about reading questions and composing answers is put together: every datagram is discarded, rejected with an error, or
  answered, and which of the three depends on the header and the questions only, as long as memory suffices.
\<close>

section \<open>Error replies\<close>

definition error_answer :: "ans_parms \<Rightarrow> bytes \<Rightarrow> nat \<Rightarrow> nat \<Rightarrow> answer \<Rightarrow> bool" where
  "error_answer g dat rlen res a \<longleftrightarrow> (\<exists>i k opcode. GETINT16 dat 0 = Some (i, k) \<and> opcode = (if 3 \<le> rlen then opcode_of (dat ! 2) else OP_QUERY) \<and>
     get_hdr (msg a) = Some ((mk_error_reply i opcode res)\<lparr>h_arcount := if res < 16 then 0 else 1\<rparr>) \<and>
     drop 12 (msg a) = (if res < 16 then [] else opt_bytes (of_nat (udpbufsize g)) (of_nat res) 0 0))"

lemma error_reply_ok:
  assumes "2 \<le> rlen" and "rlen \<le> length dat"
  shows "ok (error_reply g dat rlen res fill c) (\<lambda>(ans, c'). (ans = None \<longrightarrow> a_al (c_ans c) \<noteq> []) \<and>
    (\<forall>a. ans = Some a \<longrightarrow> error_answer g dat rlen res a))"
proof -
  obtain mem c1 where m: "c_malloc c = (mem, c1)" by (cases "c_malloc c")
  note c1 = c_malloc_al [OF m]
  obtain i k where i: "GETINT16 dat 0 = Some (i, k)" using GETINT16_Some [of 0 dat] assms by auto
  let ?op = "if 3 \<le> rlen then opcode_of (dat ! 2) else OP_QUERY"
  have op: "(if rlen \<ge> 3 then map_option opcode_of (rd dat 2) else Some OP_QUERY) = Some ?op" using assms by (simp add: rd_def)
  let ?h = "mk_error_reply i ?op res" and ?n = "if res div 16 \<noteq> 0 then sizeof_opt_pseudo_rr else 0"
  let ?a = "\<lparr>a_buf = put (replicate (sizeof_dns_hdr + ?n) fill) 0 (hdr_bytes ?h), a_sz = sizeof_dns_hdr,
    a_allocsz = dnsmsghdroffset + sizeof_dns_hdr + ?n, a_cb = None, a_al = a_al (c_ans c1), a_fill = fill\<rparr>"
  have g: "get_hdr (a_buf ?a) = Some ?h" using get_hdr_bytes by (simp add: put_def)
  have a: "ans_ok 12 ?a" by (simp add: ans_ok_def hdr_sizes keeps_def msg_ok_None dl_used_def)
  have ms: "get_hdr (msg ?a) = Some ?h" "drop 12 (msg ?a) = []" using get_hdr_msg [of ?a] g a by (simp_all add: ans_ok_def hdr_sizes)
  have run: "error_reply g dat rlen res fill c = (if \<not> mem then Some (None, c1) else do {
      a \<leftarrow> (if res div 16 \<noteq> 0 then map_option snd (add_opt_pseudo_rr (of_nat (udpbufsize g)) (of_nat res) 0 0 ?a) else Some ?a);
      Some (Some a, c1\<lparr>c_ans := (c_ans c1)\<lparr>a_al := a_al a\<rparr>\<rparr>) })"
    by (simp add: error_reply_def m i op del: opcode_of_def)
  show ?thesis
  proof (cases "mem \<and> res div 16 \<noteq> 0")
    case True
    let ?o = "add_opt_pseudo_rr (of_nat (udpbufsize g)) (of_nat res) 0 0 ?a"
    from add_opt_ok [OF a, of "of_nat (udpbufsize g)" "of_nat res" 0 0] obtain r b where o: "?o = Some (r, b)"
      "r \<Longrightarrow> AddRR.added S_ADDITIONAL (opt_rr (of_nat (udpbufsize g)) (of_nat res) 0 0) ?a b \<and> ans_ok 23 b \<and>
        drop 12 (msg b) = drop 12 (msg ?a) @ opt_bytes (of_nat (udpbufsize g)) (of_nat res) 0 0"
      by (auto simp: ok_def)
    have "r" using o(1) True by (subst (asm) add_opt_run [of _ ?a]) (auto simp: ensure_space_def hdr_sizes split: bind_splits)
    with o(2) have b: "get_hdr (a_buf b) = Some (bump S_ADDITIONAL ?h)" "ans_ok 23 b" "drop 12 (msg b) = opt_bytes (of_nat (udpbufsize g)) (of_nat res) 0 0"
      using g ms(2) by (simp_all add: AddRR.added_def)
    have "get_hdr (msg b) = Some (bump S_ADDITIONAL ?h)" using get_hdr_msg [of b] b(1,2) by (simp add: ans_ok_def)
    moreover have "bump S_ADDITIONAL ?h = ?h\<lparr>h_arcount := 1\<rparr>" by (simp add: bump_def mk_error_reply_def)
    ultimately have "error_answer g dat rlen res b" using b(3) i True by (auto simp: error_answer_def)
    with run True o(1) show ?thesis by simp
  next
    case False
    have "?h = ?h\<lparr>h_arcount := 0\<rparr>" by (simp add: mk_error_reply_def)
    then have "error_answer g dat rlen res ?a" if "res div 16 = 0" using ms i that by (auto simp: error_answer_def)
    with run False c1 show ?thesis by auto
  qed
qed

section \<open>Reading the query\<close>

definition asked :: "bytes \<Rightarrow> dns_hdr \<Rightarrow> dns_queryel list \<Rightarrow> bool" where
  "asked M hdr ql \<longleftrightarrow> (\<exists>j. has_questions M 12 ql j) \<and> length ql \<le> unat (h_qdcount hdr) \<and> (h_tc hdr \<or> length ql = unat (h_qdcount hdr))"

definition error_codes :: "nat set" where
  "error_codes = {RC_FORMAT, RC_SERVFAIL, RC_NOTSUPP, RC_BADVERS}"

lemma read_query_ok:
  assumes "rlen \<le> length dat" and "12 \<le> rlen" and hdr: "get_hdr dat = Some hdr"
  shows "ok (read_query g dat rlen hdr udp al) (\<lambda>(r, al'). (al = [] \<longrightarrow> al' = []) \<and>
    (\<forall>ql edns udp'. r = Inr (ql, edns, udp') \<longrightarrow> asked (take rlen dat) hdr ql) \<and>
    (\<forall>res. r = Inl res \<longrightarrow> res \<in> error_codes) \<and>
    (\<forall>qs j. al = [] \<longrightarrow> has_questions (take rlen dat) 12 qs j \<longrightarrow> length qs = unat (h_qdcount hdr) \<longrightarrow> h_arcount hdr = 0 \<longrightarrow>
       r = Inr (qs, False, udp)))"
proof -
  let ?M = "take rlen dat" and ?n = "unat (h_qdcount hdr)"
  obtain res ptr sz ql al' where d: "decode_query dat rlen al = Some (res, ptr, sz, ql, al')" and post: "questions_post ?M 12 ?n [] al (res, ptr, sz, ql, al')"
    using decode_query_ok [OF assms, of al] by (auto simp: ok_def)
  have M: "length ?M = rlen" using assms(1) by simp
  have al': "al = [] \<longrightarrow> al' = []" and sz: "ptr + sz = rlen" using post M by (simp_all add: questions_post_def)
  have codes: "res \<in> {RC_OK, RC_TRUNC, RC_FORMAT, RC_SERVFAIL}" using post by (auto simp: questions_post_def)
  have asked: "asked ?M hdr ql" if "res = RC_OK \<or> res = RC_TRUNC \<and> h_tc hdr"
    using post that by (auto simp: questions_post_def asked_def code_defs)
  have unique: "res = RC_OK \<and> ql = qs" if "al = []" "has_questions ?M 12 qs j" "length qs = ?n" for qs j
    using questions_post_unique [OF _ that(2,3)] post that(1) by blast
  let ?ep = "\<lparr>e_udpsize = 0, e_rcode = 0, e_version = 0, e_do_flg = False\<rparr>"
  obtain res2 n2 ep2 where a: "decode_query_additional dat rlen ptr sz (unat (h_arcount hdr)) 0 ?ep = Some (res2, n2, ep2)"
    using decode_query_additional_ok [OF assms(1,2) sz, of "unat (h_arcount hdr)" 0 ?ep] by (auto simp: ok_def)
  have "\<exists>r. read_query g dat rlen hdr udp al = Some (r, al') \<and> (\<forall>ql' edns udp'. r = Inr (ql', edns, udp') \<longrightarrow> ql' = ql \<and> (res = RC_OK \<or> res = RC_TRUNC \<and> h_tc hdr)) \<and>
    (\<forall>e. r = Inl e \<longrightarrow> e \<in> error_codes) \<and> (res = RC_OK \<longrightarrow> h_arcount hdr = 0 \<longrightarrow> r = Inr (ql, False, udp))"
    using codes by (auto simp: read_query_def d a code_defs error_codes_def)
  then obtain r where r: "read_query g dat rlen hdr udp al = Some (r, al')" "\<forall>ql' edns udp'. r = Inr (ql', edns, udp') \<longrightarrow> ql' = ql \<and> (res = RC_OK \<or> res = RC_TRUNC \<and> h_tc hdr)"
    "res = RC_OK \<longrightarrow> h_arcount hdr = 0 \<longrightarrow> r = Inr (ql, False, udp)" "\<forall>e. r = Inl e \<longrightarrow> e \<in> error_codes" by blast
  have "asked ?M hdr ql'" if "r = Inr (ql', edns, udp')" for ql' edns udp' using r(2) that asked by blast
  moreover have "r = Inr (qs, False, udp)" if "al = []" "has_questions ?M 12 qs j" "length qs = ?n" "h_arcount hdr = 0" for qs j
    using unique [OF that(1-3)] r(3) that(4) by blast
  ultimately show ?thesis unfolding r(1) ok_Some prod.case using al' r(4) by blast
qed

section \<open>The reply\<close>

definition discarded :: "bytes \<Rightarrow> nat \<Rightarrow> bool" where
  "discarded dat rlen \<longleftrightarrow> rlen < 2 \<or> (12 \<le> rlen \<and> (\<exists>hdr. get_hdr dat = Some hdr \<and>
     (h_qr hdr = QR_RESP \<or> (h_opcode hdr = OP_QUERY \<and> \<not> h_z hdr \<and> h_rcode hdr \<noteq> 0))))"

definition plain_query :: "dns_hdr \<Rightarrow> bool" where
  "plain_query hdr \<longleftrightarrow> h_qr hdr = QR_QUERY \<and> h_opcode hdr = OP_QUERY \<and> \<not> h_z hdr \<and> h_rcode hdr = 0 \<and> h_ancount hdr = 0 \<and> h_nscount hdr = 0"

definition replied :: "ans_parms \<Rightarrow> bytes \<Rightarrow> nat \<Rightarrow> allocs \<Rightarrow> answer option \<times> nat option \<times> nat option \<times> compose \<Rightarrow> bool" where
  "replied g dat rlen al = (\<lambda>(ans, udp', rc, c'). (ans = None \<longrightarrow> al \<noteq> []) \<and>
     (\<forall>a. ans = Some a \<longrightarrow> (\<exists>r. rc = Some r \<and> (r \<in> error_codes \<and> error_answer g dat rlen r a \<or>
        (\<exists>hdr ql. get_hdr dat = Some hdr \<and> plain_query hdr \<and> asked (take rlen dat) hdr ql \<and> ql \<noteq> [] \<and> answered hdr ql r a)))))"

definition answers_all :: "bytes \<Rightarrow> nat \<Rightarrow> allocs \<Rightarrow> answer option \<times> nat option \<times> nat option \<times> compose \<Rightarrow> bool" where
  "answers_all dat rlen al = (\<lambda>(ans, udp', rc, c'). \<forall>hdr qs j. al = [] \<and> 12 \<le> rlen \<and> get_hdr dat = Some hdr \<and> plain_query hdr \<and> h_arcount hdr = 0 \<and>
     has_questions (take rlen dat) 12 qs j \<and> length qs = unat (h_qdcount hdr) \<and> qs \<noteq> [] \<longrightarrow> (\<exists>a r. ans = Some a \<and> rc = Some r \<and> answered hdr qs r a))"

lemma fail_replied:
  assumes "2 \<le> rlen" and "rlen \<le> length dat" and "res \<in> error_codes" and "al = [] \<longrightarrow> a_al (c_ans c1) = []"
  shows "ok (do { (a, c) \<leftarrow> error_reply g dat rlen res fill c1; Some (a, u, Some res, c) }) (replied g dat rlen al)"
proof -
  obtain ans c2 where e: "error_reply g dat rlen res fill c1 = Some (ans, c2)" "ans = None \<longrightarrow> a_al (c_ans c1) \<noteq> []" "\<forall>a. ans = Some a \<longrightarrow> error_answer g dat rlen res a"
    using error_reply_ok [OF assms(1,2), of g res fill c1] by (auto simp: ok_def)
  then show ?thesis using assms(3,4) by (auto simp: replied_def)
qed

lemma has_questions_names: "has_questions M i ql j \<Longrightarrow> qe \<in> set ql \<Longrightarrow> \<exists>x. wf_name x \<and> query qe = wire x"
  by (induction ql arbitrary: i) (auto simp: name_here_def)

text \<open>
  A question takes at least five bytes: one for the name, two for the type and two for the class. So the length of a message
  bounds the number of its questions, whatever its header says.
\<close>

definition max_questions :: "nat \<Rightarrow> nat" where
  "max_questions n = (n - 12) div 5"

lemma has_questions_bound: "has_questions M i ql j \<Longrightarrow> i + 5 * length ql \<le> j \<and> (ql \<noteq> [] \<longrightarrow> j \<le> length M)"
proof (induction ql arbitrary: i)
  case (Cons q ql)
  then obtain ls n where n: "name_here M i ls n" "GETINT16 M (i + n + 2) = Some (qclass q, i + n + 4)" "has_questions M (i + n + 4) ql j" by auto
  then have "1 \<le> n" "i + n + 4 \<le> length M"
    using occupies_pos [of M i n] by (auto simp: name_here_def GETINT16_def rd_def split: if_splits bind_splits)
  with Cons.IH [OF n(3)] n(3) show ?case by (cases ql) auto
qed simp

lemma has_questions_fit: "has_questions M 12 ql j \<Longrightarrow> length M = rlen \<Longrightarrow> length ql \<le> max_questions rlen"
  using has_questions_bound [of M 12 ql j] by (cases "ql = []") (auto simp: max_questions_def)

lemma budget_mono: "n \<le> m \<Longrightarrow> budget B n \<le> budget B m"
  unfolding budget_def rest_cost_def Let_def by (intro add_mono mult_le_mono div_le_mono order_refl) simp_all

lemma check_query_plain: "check_query hdr = None \<longleftrightarrow> plain_query hdr"
  by (simp add: check_query_def plain_query_def RC_OK_def)

lemma check_query_codes: "check_query hdr = Some (Some res) \<Longrightarrow> res \<in> error_codes"
  by (auto simp: check_query_def error_codes_def split: if_splits)

lemma check_query_discard: "12 \<le> rlen \<Longrightarrow> get_hdr dat = Some hdr \<Longrightarrow> check_query hdr = Some None \<longleftrightarrow> discarded dat rlen"
  by (auto simp: check_query_def discarded_def RC_OK_def QR_QUERY_def QR_RESP_def)

lemma plain_query_ok:
  assumes cache: "good_cache B (c_cache c)" and env: "env_ok B env" and res: "resolver_ok B resolve" and len: "rlen \<le> length dat"
    and K: "budget B (max_questions rlen) \<le> 0x7fffffff"
    and l: "12 \<le> rlen" "2 \<le> rlen" and hdr: "get_hdr dat = Some hdr" and None: "check_query hdr = None"
  shows "ok (process_query g env resolve dat rlen udp fill c)
    (\<lambda>q. replied g dat rlen (a_al (c_ans c)) q \<and> answers_all dat rlen (a_al (c_ans c)) q)"
proof -
  let ?al = "a_al (c_ans c)"
  have plain: "plain_query hdr" using None check_query_plain by blast
  obtain r al where rq: "read_query g dat rlen hdr udp ?al = Some (r, al)" "?al = [] \<longrightarrow> al = []"
    "\<forall>ql edns udp'. r = Inr (ql, edns, udp') \<longrightarrow> asked (take rlen dat) hdr ql" "\<forall>res. r = Inl res \<longrightarrow> res \<in> error_codes"
    "\<forall>qs j. ?al = [] \<longrightarrow> has_questions (take rlen dat) 12 qs j \<longrightarrow> length qs = unat (h_qdcount hdr) \<longrightarrow> h_arcount hdr = 0 \<longrightarrow> r = Inr (qs, False, udp)"
    using read_query_ok [OF len l(1) hdr, of g udp ?al] by (auto simp: ok_def)
  let ?c = "c\<lparr>c_ans := (c_ans c)\<lparr>a_al := al\<rparr>\<rparr>"
  have al: "?al = [] \<longrightarrow> a_al (c_ans ?c) = []" using rq(2) by simp
  have all: "answers_all dat rlen ?al q" if "\<And>qs u. r = Inr (qs, False, u) \<Longrightarrow> qs \<noteq> [] \<Longrightarrow> ?al = [] \<Longrightarrow> (\<exists>a x u c'. q = (Some a, u, Some x, c') \<and> answered hdr qs x a)" for q
    unfolding answers_all_def using rq(5) that hdr by (cases q) auto
  show ?thesis
  proof (cases r)
    case (Inl e)
    with fail_replied [OF l(2) len _ al, of e g fill udp] rq(1,4) None l hdr all show ?thesis
      by (simp add: process_query_def Let_def sizeof_dns_hdr_def)
  next
    case (Inr p)
    obtain ql edns u where p: "p = (ql, edns, u)" by (cases p)
    then have r: "r = Inr (ql, edns, u)" using Inr by simp
    have ask: "asked (take rlen dat) hdr ql" using rq(3) r by blast
    show ?thesis
    proof (cases "ql = []")
      case True
      with fail_replied [OF l(2) len _ al, of RC_FORMAT g fill u] rq(1) r None l hdr all show ?thesis
        by (simp add: process_query_def Let_def sizeof_dns_hdr_def error_codes_def)
    next
      case ne: False
      have names: "\<forall>qe \<in> set ql. \<exists>x. wf_name x \<and> query qe = wire x" using ask has_questions_names by (auto simp: asked_def)
      have "length ql \<le> max_questions rlen" using ask has_questions_fit len l(1) by (fastforce simp: asked_def)
      then have "budget B (length ql) \<le> 0x7fffffff" using budget_mono [of "length ql" "max_questions rlen" B] K by simp
      then obtain ans rc c2 where co: "compose_answer g env resolve ql hdr edns u fill ?c = Some (ans, rc, c2)"
        "ans = None \<longrightarrow> al \<noteq> []" "\<forall>a. ans = Some a \<longrightarrow> answered hdr ql rc a"
        using compose_answer_ok [where c = ?c, OF _ env res names, of g hdr edns u fill] cache by (auto simp: ok_def)
      show ?thesis
      proof (cases ans)
        case None': None
        then have "?al \<noteq> []" using co(2) rq(2) by blast
        then show ?thesis using fail_replied [OF l(2) len, of RC_SERVFAIL ?al c2 g fill u] None' co(1) ne rq(1) r None l hdr all
          by (simp add: process_query_def Let_def sizeof_dns_hdr_def error_codes_def)
      next
        case (Some a)
        then have "replied g dat rlen ?al (Some a, u, Some rc, c2)" using co(3) hdr plain ask ne by (auto simp: replied_def)
        moreover have "answers_all dat rlen ?al (Some a, u, Some rc, c2)" by (rule all) (use r co(3) Some in auto)
        ultimately show ?thesis using Some co(1) ne rq(1) r None l hdr
          by (simp add: process_query_def Let_def sizeof_dns_hdr_def)
      qed
    qed
  qed
qed

lemma process_query_ok:
  assumes cache: "good_cache B (c_cache c)" and env: "env_ok B env" and res: "resolver_ok B resolve" and len: "rlen \<le> length dat"
    and K: "budget B (max_questions rlen) \<le> 0x7fffffff"
  shows "ok (process_query g env resolve dat rlen udp fill c) (\<lambda>q. if discarded dat rlen then q = (None, udp, None, c)
    else replied g dat rlen (a_al (c_ans c)) q \<and> answers_all dat rlen (a_al (c_ans c)) q)"
proof (cases "rlen < 12")
  case True
  then have "discarded dat rlen \<longleftrightarrow> rlen < 2" by (auto simp: discarded_def)
  moreover have "answers_all dat rlen al q" for al q using True by (simp add: answers_all_def split: prod.splits)
  moreover have "RC_FORMAT \<in> error_codes" by (simp add: error_codes_def)
  ultimately show ?thesis using fail_replied [OF _ len, of RC_FORMAT "a_al (c_ans c)" c g fill udp] True
    by (simp add: process_query_def Let_def sizeof_dns_hdr_def)
next
  case False
  then have l: "12 \<le> rlen" "2 \<le> rlen" by simp_all
  obtain hdr where hdr: "get_hdr dat = Some hdr" using get_hdr_Some [of dat] l len by auto
  let ?al = "a_al (c_ans c)"
  show ?thesis
  proof (cases "check_query hdr")
    case (Some r)
    show ?thesis
    proof (cases r)
      case None
      with Some check_query_discard [OF l(1) hdr] l hdr show ?thesis by (simp add: process_query_def Let_def sizeof_dns_hdr_def)
    next
      case r: (Some e)
      have "answers_all dat rlen ?al q" for q using Some check_query_plain [of hdr] hdr by (auto simp: answers_all_def split: prod.splits)
      with fail_replied [OF l(2) len check_query_codes, of hdr e ?al c g fill udp] Some r check_query_discard [OF l(1) hdr] l hdr show ?thesis
        by (simp add: process_query_def Let_def sizeof_dns_hdr_def)
    qed
  next
    case None
    then have "\<not> discarded dat rlen" using check_query_discard [OF l(1) hdr] by simp
    with plain_query_ok [OF assms l hdr None] show ?thesis by simp
  qed
qed

section \<open>Replies over UDP\<close>

text \<open>
  The part of \<^verbatim>\<open>udp_answer_thread\<close> between receiving and sending: the reply is cut to the size that the client can receive, and
  marked as truncated then.
\<close>

definition udp_reply ::
  "ans_parms \<Rightarrow> (cache \<Rightarrow> cache) \<Rightarrow> resolver \<Rightarrow> bytes \<Rightarrow> nat \<Rightarrow> byte \<Rightarrow> compose \<Rightarrow> (bytes option \<times> compose) option" where
  "udp_reply g env resolve dat rlen fill c = do {
     (resp, udp, _, c) \<leftarrow> process_query g env resolve dat rlen (Some UDP_BUFSIZE) fill c;
     (case resp of None \<Rightarrow> Some (None, c)
      | Some a \<Rightarrow> do {
          udpmaxrespsize \<leftarrow> udp;
          if a_sz a > udpmaxrespsize then do {
            a \<leftarrow> upd_hdr (\<lambda>h. h\<lparr>h_tc := True\<rparr>) a;
            Some (Some (take udpmaxrespsize (a_buf a)), c) }
          else Some (Some (msg a), c) }) }"

text \<open>The limit is 512, or what the client offers, but not more than the configuration allows.\<close>

lemma process_query_udp:
  assumes "process_query g env resolve dat rlen (Some u) fill c = Some (ans, udp', rc, c')"
  shows "\<exists>u'. udp' = Some u' \<and> (u' = u \<or> u' \<le> udpbufsize g)"
proof -
  have "\<exists>u'. v = Some u' \<and> (u' = u \<or> u' \<le> udpbufsize g)"
    if "read_query g dat rlen hdr (Some u) al = Some (Inr (ql, edns, v), al')" for hdr al ql edns v al'
    using that by (auto simp: read_query_def split: if_splits bind_splits prod.splits)
  with assms show ?thesis
    by (auto simp: process_query_def Let_def split: if_splits option.splits sum.splits bind_splits prod.splits)
qed

lemma reply_readable:
  assumes "replied g dat rlen al (Some a, udp', rc, c')"
  shows "12 \<le> length (msg a)"
proof -
  have h: "get_hdr m = Some h \<Longrightarrow> 12 \<le> length m" for m h by (auto simp: get_hdr_def GETINT16_def rd_def split: if_splits bind_splits)
  from assms show ?thesis unfolding replied_def error_answer_def answered_def well_formed_def by (auto dest!: h)
qed

lemma udp_reply_ok:
  assumes "good_cache B (c_cache c)" and "env_ok B env" and "resolver_ok B resolve" and "rlen \<le> length dat"
    and "budget B (max_questions rlen) \<le> 0x7fffffff"
  shows "ok (udp_reply g env resolve dat rlen fill c) (\<lambda>(m, c'). \<forall>b. m = Some b \<longrightarrow> length b \<le> max UDP_BUFSIZE (udpbufsize g))"
proof -
  from process_query_ok [OF assms, of g "Some UDP_BUFSIZE" fill] obtain ans udp' rc c' where run:
    "process_query g env resolve dat rlen (Some UDP_BUFSIZE) fill c = Some (ans, udp', rc, c')"
    and post: "ans = None \<or> replied g dat rlen (a_al (c_ans c)) (ans, udp', rc, c')" by (auto simp: ok_def split: if_splits)
  from process_query_udp [OF run] obtain u where u: "udp' = Some u" "u \<le> max UDP_BUFSIZE (udpbufsize g)" by auto
  show ?thesis
  proof (cases ans)
    case None
    with run show ?thesis by (simp add: udp_reply_def)
  next
    case (Some a)
    with post have "12 \<le> length (msg a)" using reply_readable by blast
    then obtain h where "get_hdr (a_buf a) = Some h" using get_hdr_Some [of "a_buf a"] by auto
    with run Some u show ?thesis by (auto simp: udp_reply_def upd_hdr_def)
  qed
qed

section \<open>Properties\<close>

text \<open>
  C2. Every datagram has the reply it should have: nothing is assumed of its bytes, in particular not of the counts in its header. \<open>process_query\<close> never
  reads or writes out of bounds and
  never fails an assertion. It discards a datagram, without a reply and without a change of the state, exactly if that is too short for an identification, is
  itself a response, or is a standard query with an error code. To any other it replies, unless an allocation fails: either with an error, which is a
  bare header with the identification of the query, the response bit and one of four codes, with an OPT record for the code that needs one;
  or with a well-formed answer to the questions that the query asks, the whole of them unless the query is marked as truncated. If
  memory suffices, a plain query with at least one question, with all questions there and no additional records, is answered, not rejected.

  The hypothesis on sizes relates the length of the datagram to the weight \<open>B\<close> of the records that the cache and the resolver have for one name: the answer to as
  many questions as fit into that length stays under \<open>2 ^ 31\<close> bytes, because \<open>compress_name\<close> counts offsets in 32 bits. It
  allows \<open>B\<close> up to 6663 for datagrams of 512 bytes, and 67262 for those with one short question.
\<close>

theorem process_query_replies:
  assumes "good_cache B (c_cache c)" and "env_ok B env" and "resolver_ok B resolve" and "rlen \<le> length dat"
    and "budget B (max_questions rlen) \<le> 0x7fffffff"
  shows "ok (process_query g env resolve dat rlen udp fill c) (\<lambda>q. if discarded dat rlen then q = (None, udp, None, c)
    else replied g dat rlen (a_al (c_ans c)) q \<and> answers_all dat rlen (a_al (c_ans c)) q)"
  by (rule process_query_ok [OF assms])

theorem process_query_replies_witness:
  "\<exists>hdr a u r c'. get_hdr sample_query = Some hdr \<and> answered hdr [\<lparr>qtype = 1, qclass = 1, query = wire [[97]]\<rparr>] r a \<and>
     process_query \<lparr>rnd_recs = True, udpbufsize = 1024\<rparr> sample_env sample_resolve sample_query 19 (Some 512) 0 sample_compose =
       Some (Some a, u, Some r, c')"
proof -
  let ?g = "\<lparr>rnd_recs = True, udpbufsize = 1024\<rparr>"
  have len: "length sample_query = 19" by (simp add: sample_query_def)
  obtain hdr where hdr: "get_hdr sample_query = Some hdr" using get_hdr_Some [of sample_query] len by auto
  then have n: "unat (h_qdcount hdr) = 1" and plain: "plain_query hdr" "h_arcount hdr = 0"
    by (auto simp: get_hdr_def sample_query_def GETINT16_def rd_def plain_query_def QR_QUERY_def OP_QUERY_def opcode_of_def)
  have nd: "\<not> discarded sample_query 19" using plain(1) hdr by (auto simp: discarded_def plain_query_def QR_QUERY_def QR_RESP_def)
  have al: "a_al (c_ans sample_compose) = []" by (simp add: sample_compose_def sample_answer_def)
  have "budget 20000 (max_questions 19) \<le> 0x7fffffff"
    by (simp add: max_questions_def budget_def query_cost_def hop_cost_def rest_cost_def MAX_HOPS_def)
  from process_query_replies [OF sample_envs(2,1,3) _ this, of sample_query ?g "Some 512" 0] nd al len
  obtain ans u rc c' where run: "process_query ?g sample_env sample_resolve sample_query 19 (Some 512) 0 sample_compose = Some (ans, u, rc, c')"
    and all: "answers_all sample_query 19 [] (ans, u, rc, c')" by (auto simp: ok_def)
  have "has_questions (take 19 sample_query) 12 [\<lparr>qtype = 1, qclass = 1, query = wire [[97]]\<rparr>] 19" using sample_query_questions len by simp
  with all hdr plain n obtain a r where "ans = Some a" "rc = Some r" "answered hdr [\<lparr>qtype = 1, qclass = 1, query = wire [[97]]\<rparr>] r a"
    unfolding answers_all_def prod.case by fastforce
  with hdr run show ?thesis by blast
qed

end
