(* ===== verification/Spec2Isabelle.thy ===== *)
theory Spec2Isabelle
  imports NameText Compress CacheLock DiskCache AnswerContent ProcessQuery
begin

text \<open>
  \<^bold>\<open>The caching name server pdnsd.\<close>

  The C code of this repository is pdnsd (\<^verbatim>\<open>src/service/src/main/jni/pdnsd/src\<close>), a name server that answers queries
  from a cache and asks other servers for what it does not have; the Android service starts it beside Tor. All paths below are relative
  to that directory. Messages arrive in \<^verbatim>\<open>dns_answer.c\<close>, which looks names up in the cache (\<^verbatim>\<open>cache.c\<close>), composes answers
  with compressed names (\<^verbatim>\<open>dns.c\<close>), and calls the resolver (\<^verbatim>\<open>dns_query.c\<close>); the resolver decompresses the names of replies, builds cache
  entries and adds them to the cache. The cache is a hash table (\<^verbatim>\<open>hash.c\<close>) of entries, one per name, with a list of all record sets by age
  for purging, guarded by a readers/writer lock; it is saved to and loaded from a file. \<^verbatim>\<open>list.c\<close> has the containers, \<^verbatim>\<open>helpers.c\<close>
  the primitives on names, \<^verbatim>\<open>rr_types.c\<close> the tables of record types.

  \<^bold>\<open>The model.\<close> Every function is a definition of the same name, in the option monad: \<open>None\<close> is a memory fault (an access outside an object,
  a dangling pointer, an invalid union member), an unsigned underflow or a failed assertion. So a statement \<open>ok (f x) P\<close> (theory \<open>Prelude\<close>)
  says that \<open>f\<close> runs without such a fault and that the result satisfies \<open>P\<close>. Bytes are words of 8 bits, flags words of 16 bits, hash values words
  of 64 bits; times, counters and sizes are integers or natural numbers, with the wrap-around written out where it can occur. Sums of a time stamp and a lifetime in
  the cache are of type \<^verbatim>\<open>time_t\<close>: as stamps come unchecked from the cache file they can overflow, and the model takes the result in two's complement of 64 bits (\<open>time_t\<close>
  in theory \<open>Cache\<close>), where ISO C leaves it undefined. The remaining lifetime in answers (\<^verbatim>\<open>ans_ttl\<close>) is computed on integers, which is exact while the time stamp is
  less than 2^63 seconds away from the time of the query. The outcomes
  of allocations, locks and writes are explicit arguments, so that the paths for exhausted memory are part of the
  model; the time of day is an argument. Loops are recursive functions; where the source jumps back (\<^verbatim>\<open>retry\<close> in \<^verbatim>\<open>add_cache\<close>, the walks of
  \<^verbatim>\<open>purge_cache\<close>) a bound is an argument and the theorems show that it is never used up.

  \<^bold>\<open>The theories.\<close>
  \<^item> \<open>Prelude\<close>: memory regions, the judgement \<open>ok\<close>, characters, allocation.
  \<^item> \<open>Names\<close>: names in transport format (\<^verbatim>\<open>helpers.c\<close>): length, segments, comparison without case, validity, copying. A name is a list
    of labels; \<open>wire\<close> is its encoding and \<open>wf_name\<close> the names that fit.
  \<^item> \<open>NameText\<close>: the dotted notation (\<^verbatim>\<open>str2rhn\<close>, \<^verbatim>\<open>parsestr2rhn\<close>, \<^verbatim>\<open>rhn2str\<close>, \<^verbatim>\<open>escapestr\<close>): accepted exactly for well-formed names, bounds
    of the buffers, round trip.
  \<^item> \<open>Decompress\<close>, \<open>DomainMatch\<close>, \<open>Compress\<close>: \<^verbatim>\<open>decompress_name\<close>, \<^verbatim>\<open>domain_match\<close> and \<^verbatim>\<open>compress_name\<close> of \<^verbatim>\<open>dns.c\<close>: decompression
    is safe and ends on every message, the longest common tail is found, and compressed names decompress to themselves.
  \<^item> \<open>Lists\<close>: the containers of \<^verbatim>\<open>list.c\<close>, with the interface \<open>sequence\<close> as a locale that all three interpret.
  \<^item> \<open>Hash\<close>: the hash table, with the interface \<open>name_map\<close> as a locale interpreted on it: lookup, insertion, deletion and iteration.
  \<^item> \<open>RRTypes\<close>: the tables of \<^verbatim>\<open>rr_types.c\<close>, integers in messages, the text of location records.
  \<^item> \<open>CacheLock\<close>: the lock as operations on its variables and as a step relation of threads; exclusion in all reachable states; and no
    lost wake-ups, but for those that a timed wait consumes as it expires (\<open>lost_wakeup\<close>), which last until a thread takes the lock next.
  \<^item> \<open>RRList\<close>: the list of record sets and its merge sort (a stable sort, by at most 32 slots for up to 2^32 nodes).
  \<^item> \<open>Cents\<close>: a cache entry and the operations on one entry; its invariant \<open>cent_ok\<close> ties the size and the counter to the contents.
  \<^item> \<open>Cache\<close>: the state of the cache (heap of entries, hash table, list, counters) and all operations on it.
    \<open>CacheInv\<close> has the invariant \<open>cache_inv\<close> and the deleting operations, \<open>CachePurge\<close> purging, \<open>CacheAdd\<close> and \<open>CacheOps\<close> adding, \<open>CacheLookup\<close> lookups,
    invalidation and flags. \<open>CacheProps\<close> abstracts the cache to a map from names to record sets (\<open>content\<close>) and states what clients rely on:
    adding refines a merge of record sets, local records are never lost, no contradiction is added to an existing entry, only unexpired record sets are handed out, and
    purging reaches everything that is not local, since such data always are in the list (\<open>all_tracked\<close>, which adding and purging keep).
  \<^item> \<open>DiskCache\<close>: the cache file: reading corrupts no memory and fails no assertion for any file, and what was written is read back.
  \<^item> \<open>Header\<close>: the header of a message (\<^verbatim>\<open>dns_hdr_t\<close>) as a structure and as twelve bytes, and the codes and sizes of \<^verbatim>\<open>dns.h\<close>.
  \<^item> \<open>Query\<close>: \<^verbatim>\<open>decode_query\<close> and \<^verbatim>\<open>decode_query_additional\<close> of \<^verbatim>\<open>dns_answer.c\<close>: the questions and the OPT record of a query are read exactly as
    they stand in the message.
  \<^item> \<open>AddRR\<close>: writing records into an answer, with the compression of the names in their data: a record that was added reads back, and adding does not
    change the meaning of what was there.
  \<^item> \<open>Answer\<close>: the definitions for \<^verbatim>\<open>compose_answer\<close>, \<^verbatim>\<open>process_query\<close> and the functions they call. \<open>AnswerData\<close> says what the answers need of the cache:
    every record has the form its type demands. \<open>AnswerInv\<close> has the invariant \<open>comp_inv\<close> of an answer in the making, \<open>AnswerSteps\<close> and \<open>AnswerCompose\<close>
    show that every step keeps it, \<open>AnswerProps\<close> that the whole answer is well-formed, \<open>AnswerContent\<close> that the answer section holds what was found, and
    \<open>ProcessQuery\<close> which of the three a datagram gets: nothing, an error, or an answer; \<open>udp_reply\<close> cuts it to what the client can receive.

  \<^bold>\<open>Answers.\<close> The resolver \<^verbatim>\<open>dns_cached_resolve\<close> is an argument \<open>resolve\<close> of the model, and what other threads do to the cache while its lock is not
  held is an argument \<open>env\<close>. The theorems assume of them (\<open>resolver_ok\<close>, \<open>env_ok\<close>) only that they keep the invariant of the cache, and of the entries returned that
  they satisfy the invariant of entries with data of the right form. All memory is counted: a record has a \<open>weight\<close> that bounds what it adds to the message, to the
  compressor and to the two lists of the composition, \<open>B\<close> bounds the weight of the records of a name, and \<open>budget B n\<close> then bounds an answer to \<open>n\<close>
  questions, over all aliases (at most 21 lookups for a question), authority and additional records. The theorems ask for a budget below 2^31, so that no size wraps around; with
  one question that allows for 67262 bytes of weight for each name. Of a datagram only the length enters: a question takes five bytes at least, so \<open>max_questions\<close> bounds their number
  whatever the header says (100 in 512 bytes, for which \<open>B\<close> can be 6663). The loops along a set of records have as fuel one more than the number of records, which
  \<open>rr_loop_plain\<close> and \<open>rr_loop_rotated\<close> show to be enough.

  \<^bold>\<open>Not modelled.\<close> The threads that receive queries and send replies (\<^verbatim>\<open>udp_answer_thread\<close> but for the cut of long replies, \<^verbatim>\<open>tcp_answer_thread\<close>), the resolver with its sockets, the configuration parser, the server status threads and the control socket;
  logging, statistics, the dump of the cache and debugging code; memory contents of the allocator. The Java service and the build files are not C code of pdnsd.
\<close>

end
